(* ===== verification/Prelude.thy ===== *)
theory Prelude
  imports Main "HOL-Library.Word" "HOL-Library.List_Lexorder"
begin

text \<open>
  Shared vocabulary of the development: the Go types the source is written in (bytes, byte
  slices, fixed-width integers), the parts of Go's \<^verbatim>\<open>bytes\<close> and \<^verbatim>\<open>encoding/binary\<close> packages
  the source calls, and the lemmas on words, byte order and sorted lists every component uses.

  A byte slice is a list of 8-bit words. Its order is the library's lexicographic list order
  over the unsigned order of bytes, which is what \<^verbatim>\<open>bytes.Compare\<close> computes. Where the source
  distinguishes a nil slice from an empty one, the model uses \<^typ>\<open>8 word list option\<close>.
\<close>

unbundle bit_operations_syntax

named_theorems go_simps \<open>rewriting rules for the Go library functions of the prelude\<close>
named_theorems it_simps \<open>rewriting rules for iterators over the storage engine\<close>

type_synonym byte = "8 word"
type_synonym bytes = "byte list"
type_synonym u8 = "8 word"
type_synonym u16 = "16 word"
type_synonym u32 = "32 word"
type_synonym u64 = "64 word"

section \<open>The package bytes\<close>

definition bytes_Compare :: "bytes \<Rightarrow> bytes \<Rightarrow> int" where
  "bytes_Compare a b = (if a < b then -1 else if a = b then 0 else 1)"

lemma bytes_Compare_simps [go_simps, simp]:
  "bytes_Compare a b < 0 \<longleftrightarrow> a < b"
  "bytes_Compare a b \<le> 0 \<longleftrightarrow> a \<le> b"
  "0 < bytes_Compare a b \<longleftrightarrow> b < a"
  "0 \<le> bytes_Compare a b \<longleftrightarrow> b \<le> a"
  "bytes_Compare a b = 0 \<longleftrightarrow> a = b"
  by (auto simp: bytes_Compare_def)

lemma bytes_Compare_uminus: "bytes_Compare b a = - bytes_Compare a b"
  by (auto simp: bytes_Compare_def)

text \<open>Order facts about common prefixes.\<close>

lemma less_append_same [simp]: "(xs @ ys :: bytes) < xs @ zs \<longleftrightarrow> ys < zs"
  by (induction xs) auto

lemma le_append_same [simp]: "(xs @ ys :: bytes) \<le> xs @ zs \<longleftrightarrow> ys \<le> zs"
  by (simp add: less_le_not_le [symmetric] order_le_less)

lemma less_append_right: "(xs :: bytes) < xs @ ys \<longleftrightarrow> ys \<noteq> []"
  using less_append_same [of xs "[]" ys] by (cases ys) (auto simp del: less_append_same)

section \<open>The package encoding/binary\<close>

text \<open>
  \<^verbatim>\<open>binary.Write\<close> and \<^verbatim>\<open>binary.Read\<close> with \<^verbatim>\<open>binary.LittleEndian\<close> on a fixed-size integer, least
  significant byte first. The integers are carried in 64 bits and the width is the number of bytes.
\<close>

fun le_bytes :: "nat \<Rightarrow> u64 \<Rightarrow> bytes" where
  "le_bytes 0 x = []"
| "le_bytes (Suc n) x = ucast x # le_bytes n (drop_bit 8 x)"

fun le_word :: "bytes \<Rightarrow> u64" where
  "le_word [] = 0"
| "le_word (b # bs) = ucast b OR push_bit 8 (le_word bs)"

lemma length_le_bytes [simp]: "length (le_bytes n x) = n"
  by (induction n arbitrary: x) auto

lemma ucast_ucast_byte: "(ucast (ucast (x :: u64) :: byte) :: u64) = take_bit 8 x"
  by (rule bit_word_eqI) (auto simp: bit_simps)

lemma take_bit_split8: "take_bit 8 (x :: u64) OR push_bit 8 (take_bit n (drop_bit 8 x)) = take_bit (n + 8) x"
  by (rule bit_word_eqI) (auto simp: bit_simps)

lemma le_word_le_bytes: "le_word (le_bytes n x) = take_bit (8 * n) x"
  by (induction n arbitrary: x) (simp_all add: ucast_ucast_byte take_bit_split8 algebra_simps)

lemma le_word_le_bytes_8 [simp]: "le_word (le_bytes 8 x) = x"
  by (simp add: le_word_le_bytes take_bit_word_eq_self)

lemma le_word_le_bytes_4 [simp]: "ucast (le_word (le_bytes 4 (ucast (y :: u32)))) = y"
  by (simp add: le_word_le_bytes) (rule bit_word_eqI, auto simp: bit_simps)

text \<open>
  \<^verbatim>\<open>binary.PutUvarint\<close>: seven bits a byte, low group first, the top bit set on every byte but the
  last. \<^verbatim>\<open>binary.ReadUvarint\<close> accepts at most ten bytes and rejects a tenth byte above one.
\<close>

function PutUvarint :: "u64 \<Rightarrow> bytes" where
  "PutUvarint x = (if 0x80 \<le> x then (ucast x OR 0x80) # PutUvarint (drop_bit 7 x) else [ucast x])"
  by pat_completeness auto
termination
proof (relation "measure unat")
  fix x :: u64
  assume "0x80 \<le> x"
  then have "0x80 \<le> unat x"
    by (simp add: word_le_nat_alt)
  then have "unat x div 2 ^ 7 < unat x"
    by simp
  then show "(drop_bit 7 x, x) \<in> measure unat"
    by (simp add: drop_bit_eq_div unat_div)
qed simp

declare PutUvarint.simps [simp del]

datatype uvarint_result = UvarintOk u64 bytes | UvarintEOF | UvarintOverflow

fun ReadUvarint_loop :: "nat \<Rightarrow> nat \<Rightarrow> u64 \<Rightarrow> nat \<Rightarrow> bytes \<Rightarrow> uvarint_result" where
  "ReadUvarint_loop 0 i x s r = UvarintOverflow"
| "ReadUvarint_loop (Suc n) i x s [] = UvarintEOF"
| "ReadUvarint_loop (Suc n) i x s (b # r) =
     (if b < 0x80
      then (if i = 9 \<and> 1 < b then UvarintOverflow else UvarintOk (x OR push_bit s (ucast b)) r)
      else ReadUvarint_loop n (Suc i) (x OR push_bit s (ucast (b AND 0x7F))) (s + 7) r)"

definition ReadUvarint :: "bytes \<Rightarrow> uvarint_result" where
  "ReadUvarint r = ReadUvarint_loop 10 0 0 0 r"

lemma uvarint_last_byte:
  assumes "(x :: u64) < 0x80"
  shows "(ucast x :: byte) < 0x80" and "(ucast (ucast x :: byte) :: u64) = x"
proof -
  have lt: "unat x < 128"
    using assms by (simp add: word_less_nat_alt)
  have "unat (ucast x :: byte) = unat x"
    using lt by (simp add: unsigned_ucast_eq take_bit_nat_eq_self)
  then show "(ucast x :: byte) < 0x80"
    using lt by (simp add: word_less_nat_alt)
  show "(ucast (ucast x :: byte) :: u64) = x"
    using lt by (simp add: ucast_ucast_byte take_bit_nat_eq_self unsigned_take_bit_eq word_unat_eq_iff)
qed

lemma uvarint_more_byte:
  "\<not> ((ucast (x :: u64) OR 0x80) :: byte) < 0x80"
  "((ucast x OR 0x80) AND 0x7F :: byte) = take_bit 7 (ucast x)"
proof -
  have "(0x80 :: byte) \<le> ucast x OR 0x80"
    by (rule le_word_or1)
  then show "\<not> ((ucast x OR 0x80) :: byte) < 0x80"
    by simp
  show "((ucast x OR 0x80) AND 0x7F :: byte) = take_bit 7 (ucast x)"
    by (simp add: word_ao_dist take_bit_eq_mask mask_eq_exp_minus_1)
qed

lemma uvarint_rejoin:
  "push_bit s (ucast (take_bit 7 (ucast x) :: byte)) OR push_bit (s + 7) (drop_bit 7 x) = push_bit s (x :: u64)"
proof -
  have "(ucast (take_bit 7 (ucast x) :: byte) :: u64) = take_bit 7 x"
    by (rule bit_word_eqI) (auto simp: bit_simps)
  moreover have "take_bit 7 x OR push_bit 7 (drop_bit 7 x) = x"
  proof (rule bit_word_eqI)
    fix n
    show "bit (take_bit 7 x OR push_bit 7 (drop_bit 7 x)) n = bit x n" if "n < LENGTH(64)"
      using that by (cases "n < 7") (simp_all add: bit_simps)
  qed
  ultimately show ?thesis
    by (metis push_bit_or push_bit_push_bit)
qed

lemma drop_bit_1_zero: "drop_bit (Suc 0) (x :: u64) = 0 \<longleftrightarrow> unat x < 2"
  by (simp add: drop_bit_eq_div word_unat_eq_iff unat_div div_eq_0_iff)

lemma ReadUvarint_loop_PutUvarint:
  assumes "i + n = 10" and "0 < n" and "drop_bit (64 - 7 * i) x = 0"
  shows "ReadUvarint_loop n i acc (7 * i) (PutUvarint x @ r) = UvarintOk (acc OR push_bit (7 * i) x) r"
  using assms
proof (induction x arbitrary: i n acc rule: PutUvarint.induct)
  case (1 x)
  obtain m where n: "n = Suc m"
    using "1.prems"(2) by (cases n) auto
  show ?case
  proof (cases "0x80 \<le> x")
    case True
    have i: "i < 9"
    proof (rule ccontr)
      assume "\<not> i < 9"
      then have "i = 9"
        using "1.prems"(1,2) by simp
      then have "unat x < 2"
        using "1.prems"(3) by (simp add: drop_bit_1_zero)
      with True show False
        by (simp add: word_le_nat_alt)
    qed
    have "drop_bit (64 - 7 * Suc i) (drop_bit 7 x) = 0"
      using "1.prems"(3) i by (simp add: add.commute)
    then have "ReadUvarint_loop m (Suc i) a (7 * Suc i) (PutUvarint (drop_bit 7 x) @ r) =
        UvarintOk (a OR push_bit (7 * Suc i) (drop_bit 7 x)) r" for a
      using "1.IH" [OF True, of "Suc i" m a] "1.prems"(1) n i by simp
    then show ?thesis
      using True n uvarint_rejoin [of "7 * i" x]
      by (simp add: PutUvarint.simps [of x] uvarint_more_byte or.assoc add.commute)
  next
    case False
    then have x: "x < 0x80"
      by simp
    have "\<not> 1 < (ucast x :: byte)" if "i = 9"
    proof -
      have "unat x < 2"
        using "1.prems"(3) that by (simp add: drop_bit_1_zero)
      then show ?thesis
        by (simp add: word_less_nat_alt unsigned_ucast_eq take_bit_nat_eq_self)
    qed
    moreover have "PutUvarint x = [ucast x]"
      using False by (simp add: PutUvarint.simps [of x])
    ultimately show ?thesis
      using n by (auto simp: uvarint_last_byte [OF x])
  qed
qed

lemma ReadUvarint_PutUvarint [simp]: "ReadUvarint (PutUvarint x @ r) = UvarintOk x r"
  using ReadUvarint_loop_PutUvarint [of 0 10 x 0 r] by (simp add: ReadUvarint_def)

section \<open>Lists of entries sorted by key\<close>

abbreviation key_sorted :: "('k :: linorder \<times> 'v) list \<Rightarrow> bool" where
  "key_sorted xs \<equiv> sorted_wrt (<) (map fst xs)"

lemma key_sorted_hd_less:
  assumes "key_sorted (x # xs)" and "y \<in> set xs"
  shows "fst x < fst y"
  using assms by auto

lemma key_sorted_unique:
  assumes "key_sorted xs" and "key_sorted ys" and "set xs = set ys"
  shows "xs = ys"
  using assms
proof (induction xs arbitrary: ys)
  case Nil
  then show ?case by simp
next
  case (Cons x xs)
  obtain y ys' where ys: "ys = y # ys'"
    using Cons.prems(3) by (cases ys) auto
  have "x = y"
  proof (rule ccontr)
    assume "x \<noteq> y"
    then have "x \<in> set ys'" and "y \<in> set xs"
      using Cons.prems(3) ys by (metis list.set_intros(1) set_ConsD)+
    then show False
      using key_sorted_hd_less [OF Cons.prems(1)] key_sorted_hd_less Cons.prems(2) ys
      by (metis order_less_asym)
  qed
  moreover have "x \<notin> set xs" and "y \<notin> set ys'"
    using key_sorted_hd_less [OF Cons.prems(1)] key_sorted_hd_less Cons.prems(2) ys by blast+
  ultimately show ?case
    using Cons.IH [of ys'] Cons.prems ys by (auto simp: insert_ident)
qed

lemma sorted_wrt_concat_map:
  assumes "sorted_wrt (<) ks"
    and "\<And>k. k \<in> set ks \<Longrightarrow> sorted_wrt R (f k)"
    and "\<And>k k' x y. k \<in> set ks \<Longrightarrow> k' \<in> set ks \<Longrightarrow> k < k' \<Longrightarrow> x \<in> set (f k) \<Longrightarrow> y \<in> set (f k') \<Longrightarrow> R x y"
  shows "sorted_wrt R (concat (map f ks))"
  using assms
proof (induction ks)
  case Nil
  then show ?case by simp
next
  case (Cons a ks)
  have "sorted_wrt R (concat (map f ks))"
    using Cons.prems(1) by (intro Cons.IH) (auto intro: Cons.prems(2,3))
  moreover have "R x y" if "x \<in> set (f a)" "k \<in> set ks" "y \<in> set (f k)" for x y k
    using that Cons.prems(1) by (intro Cons.prems(3) [of a k]) auto
  ultimately show ?case
    using Cons.prems(2) by (auto simp: sorted_wrt_append)
qed

end
