(* ===== verification/External.thy ===== *)
theory External
  imports Prelude
begin

text \<open>
  What the modelled sources call but do not contain, as parameters: the memory-comparable codec
  (\<^verbatim>\<open>soliton/codec\<close>), the LevelDB engine (\<^verbatim>\<open>goleveldb\<close>), the deadlock detector, the timestamp oracle,
  the farm hash, and the numbers of the generated protobuf enumeration \<^verbatim>\<open>kvrpcpb.Op\<close>. They are the
  fields of one record; the operations of the store take a value of it as their first argument.
  The locales state the documented behaviour the store relies on.
\<close>

section \<open>Errors\<close>

text \<open>
  The error types of \<^verbatim>\<open>mockeinsteindb/errors.go\<close>, the errors of the Go library the marshalling
  code meets, \<^verbatim>\<open>errors.New\<close> with its text, and errors that come from external code. Enumerations
  of \<^verbatim>\<open>kvrpcpb\<close> carry the names the sources use.
\<close>

datatype Op = Op_Put | Op_Del | Op_Lock | Op_Rollback | Op_Insert | Op_PessimisticLock | Op_CheckNotExists

datatype err =
    ErrLocked (locked_Key: bytes) (locked_Primary: bytes) (locked_StartTS: u64)
      (locked_ForUFIDelateTS: u64) (locked_TTL: u64) (locked_TxnSize: u64) (locked_LockType: Op)
  | ErrKeyAlreadyExist bytes
  | ErrRetryable string
  | ErrAbort string
  | ErrAlreadyCommitted u64
  | ErrAlreadyRollbacked u64 bytes
  | ErrConflict (conflict_StartTS: u64) (conflict_ConflictTS: u64) (conflict_CommitTS: u64) (conflict_Key: bytes)
  | ErrDeadlock (deadlock_LockTS: u64) (deadlock_LockKey: bytes) (deadlock_KeyHash: u64)
  | ErrCommitTSExpired (expired_StartTs: u64) (expired_AttemptedCommitTs: u64) (expired_Key: bytes) (expired_MinCommitTs: u64)
  | ErrTxnNotFound u64 bytes
  | ErrInvalidEncodedKey
  | Err_EOF
  | Err_UnexpectedEOF
  | Err_Overflow
  | Err_New string
  | Err_UnderSafePoint bytes u64 u64
  | Err_External string

section \<open>The storage engine's batches and iterators\<close>

datatype batch_op = Put bytes bytes | Delete bytes

type_synonym batch = "batch_op list"

text \<open>
  An iterator is a snapshot of the entries it has not passed yet, the first of them current. An
  iterator that meets a failure becomes invalid there and reports it, so the failure is what
  \<open>iter_Error\<close> gives once the entries are used up.
\<close>

record iterator =
  it_rest :: "(bytes \<times> bytes) list"
  it_fail :: "err option"

definition iter_Valid :: "iterator \<Rightarrow> bool" where
  "iter_Valid it = (it_rest it \<noteq> [])"

definition iter_Error :: "iterator \<Rightarrow> err option" where
  "iter_Error it = (if it_rest it = [] then it_fail it else None)"

definition iter_Key :: "iterator \<Rightarrow> bytes" where
  "iter_Key it = (case it_rest it of [] \<Rightarrow> [] | e # _ \<Rightarrow> fst e)"

definition iter_Value :: "iterator \<Rightarrow> bytes" where
  "iter_Value it = (case it_rest it of [] \<Rightarrow> [] | e # _ \<Rightarrow> snd e)"

definition iter_Next :: "iterator \<Rightarrow> iterator" where
  "iter_Next it = it\<lparr>it_rest := tl (it_rest it)\<rparr>"

lemma iter_simps [it_simps, simp]:
  "iter_Valid \<lparr>it_rest = es, it_fail = f\<rparr> = (es \<noteq> [])"
  "iter_Error \<lparr>it_rest = [], it_fail = f\<rparr> = f"
  "iter_Error \<lparr>it_rest = e # es, it_fail = f\<rparr> = None"
  "iter_Key \<lparr>it_rest = e # es, it_fail = f\<rparr> = fst e"
  "iter_Value \<lparr>it_rest = e # es, it_fail = f\<rparr> = snd e"
  "iter_Next \<lparr>it_rest = e # es, it_fail = f\<rparr> = \<lparr>it_rest = es, it_fail = f\<rparr>"
  by (simp_all add: iter_Valid_def iter_Error_def iter_Key_def iter_Value_def iter_Next_def)

lemma iter_Next_rest [it_simps, simp]: "it_rest (iter_Next it) = tl (it_rest it)"
  by (simp add: iter_Next_def)

lemma iter_Valid_length: "iter_Valid it \<Longrightarrow> length (it_rest (iter_Next it)) < length (it_rest it)"
  by (cases "it_rest it") (auto simp: iter_Valid_def)

section \<open>The environment\<close>

record ('db, 'dd) env =
  EncodeBytes :: "bytes \<Rightarrow> bytes \<Rightarrow> bytes"
  DecodeBytes :: "bytes \<Rightarrow> err + bytes \<times> bytes"
  EncodeUintDesc :: "bytes \<Rightarrow> u64 \<Rightarrow> bytes"
  DecodeUintDesc :: "bytes \<Rightarrow> err + bytes \<times> u64"
  ldb_Get :: "'db \<Rightarrow> bytes \<Rightarrow> bytes option"
  ldb_NewIterator :: "'db \<Rightarrow> bytes option \<Rightarrow> bytes option \<Rightarrow> iterator"
  ldb_Write :: "'db \<Rightarrow> batch \<Rightarrow> err + 'db"
  Detect :: "'dd \<Rightarrow> u64 \<Rightarrow> u64 \<Rightarrow> u64 \<Rightarrow> u64 option \<times> 'dd"
  CleanUp :: "'dd \<Rightarrow> u64 \<Rightarrow> 'dd"
  Fingerprint64 :: "bytes \<Rightarrow> u64"
  ExtractPhysical :: "u64 \<Rightarrow> u64"
  op_number :: "Op \<Rightarrow> u32"
  op_of_number :: "u32 \<Rightarrow> Op"

text \<open>
  The codec: both encoders append to their first argument and their decoders return what follows;
  \<open>EncodeBytes\<close> keeps the order of the keys whatever follows them, \<open>EncodeUintDesc\<close> reverses the
  order of the numbers.
\<close>

locale codec =
  fixes E :: "('db, 'dd) env"
  assumes EncodeBytes_append: "EncodeBytes E b k = b @ EncodeBytes E [] k"
    and DecodeBytes_Encode: "DecodeBytes E (EncodeBytes E [] k @ r) = Inr (r, k)"
    and EncodeBytes_less: "k < k' \<Longrightarrow> EncodeBytes E [] k @ r < EncodeBytes E [] k' @ r'"
    and EncodeUintDesc_append: "EncodeUintDesc E b v = b @ EncodeUintDesc E [] v"
    and EncodeUintDesc_nonempty: "EncodeUintDesc E [] v \<noteq> []"
    and DecodeUintDesc_Encode: "DecodeUintDesc E (EncodeUintDesc E [] v @ r) = Inr (r, v)"
    and EncodeUintDesc_less: "v < v' \<Longrightarrow> EncodeUintDesc E [] v' < EncodeUintDesc E [] v"
    and op_of_number_op_number: "op_of_number E (op_number E op) = op"

text \<open>
  The engine is an ordered map from byte strings to byte strings: an iterator yields the entries of
  a range in key order, a written batch takes effect as a whole and in order.
\<close>

fun apply_batch_op :: "batch_op \<Rightarrow> (bytes \<rightharpoonup> bytes) \<Rightarrow> (bytes \<rightharpoonup> bytes)" where
  "apply_batch_op (Put k v) m = m(k \<mapsto> v)"
| "apply_batch_op (Delete k) m = m(k := None)"

definition apply_batch :: "batch \<Rightarrow> (bytes \<rightharpoonup> bytes) \<Rightarrow> (bytes \<rightharpoonup> bytes)" where
  "apply_batch b m = fold apply_batch_op b m"

definition in_range :: "bytes option \<Rightarrow> bytes option \<Rightarrow> bytes \<Rightarrow> bool" where
  "in_range start limit k =
     ((case start of None \<Rightarrow> True | Some s \<Rightarrow> s \<le> k) \<and> (case limit of None \<Rightarrow> True | Some l \<Rightarrow> k < l))"

locale leveldb =
  fixes E :: "('db, 'dd) env"
  assumes iterator_sorted: "key_sorted (it_rest (ldb_NewIterator E db s l))"
    and iterator_entries: "set (it_rest (ldb_NewIterator E db s l)) =
       {(k, v). ldb_Get E db k = Some v \<and> in_range s l k}"
    and iterator_fail: "it_fail (ldb_NewIterator E db s l) = None"
    and write_get: "ldb_Write E db b = Inr db' \<Longrightarrow> ldb_Get E db' = apply_batch b (ldb_Get E db)"

text \<open>An engine that is open and has room: its writes succeed.\<close>

locale leveldb_open = leveldb E for E :: "('db, 'dd) env" +
  assumes write_ok: "\<exists>db'. ldb_Write E db b = Inr db'"

locale store_env = codec E + leveldb_open E for E :: "('db, 'dd) env"

end
