(* ===== verification/Mvcc.thy ===== *)
theory Mvcc
  imports External
begin

text \<open>
  \<^verbatim>\<open>causetstore/mockstore/mockeinsteindb/mvcc.go\<close>: the records a key carries in the store (its lock
  and its committed versions), their binary form, the lock check of a reader, and the encoded key
  type. Identifiers of the form \<^verbatim>\<open>mvsr-oocX\<close> are written \<open>mvsr_oocX\<close>.
\<close>

section \<open>Records\<close>

datatype mvsr_oocValueType = typePut | typeDelete | typeRollback | typeLock | typeOther u64

text \<open>
  The source's value type is an integer; the last constructor holds the integers the four constants
  do not name, which only an unmarshalled record can have.
\<close>

fun valueType_number :: "mvsr_oocValueType \<Rightarrow> u64" where
  "valueType_number typePut = 0"
| "valueType_number typeDelete = 1"
| "valueType_number typeRollback = 2"
| "valueType_number typeLock = 3"
| "valueType_number (typeOther n) = n"

definition valueType_of_number :: "u64 \<Rightarrow> mvsr_oocValueType" where
  "valueType_of_number n =
     (if n = 0 then typePut else if n = 1 then typeDelete else if n = 2 then typeRollback
      else if n = 3 then typeLock else typeOther n)"

record mvsr_oocValue =
  valueType :: mvsr_oocValueType
  v_startTS :: u64
  commitTS :: u64
  v_value :: bytes

record mvsr_oocLock =
  startTS :: u64
  primary :: bytes
  l_value :: bytes
  l_op :: Op
  ttl :: u64
  forUFIDelateTS :: u64
  txnSize :: u64
  minCommitTS :: u64

record mvsr_oocEntry =
  e_key :: bytes
  e_values :: "mvsr_oocValue list"
  e_dagger :: "mvsr_oocLock option"

section \<open>Marshalling\<close>

text \<open>
  \<open>marshalHelper\<close> remembers the first error and turns every later call into a no-op. Writing goes to
  a \<^verbatim>\<open>bytes.Buffer\<close>, whose writes do not fail, so the writers are functions to the bytes they append;
  reading threads the pair of the error and the unread bytes.
\<close>

definition WriteSlice :: "bytes \<Rightarrow> bytes" where
  "WriteSlice s = PutUvarint (word_of_nat (length s)) @ s"

definition WriteNumber :: "u64 \<Rightarrow> bytes" where
  "WriteNumber n = le_bytes 8 n"

definition WriteNumber32 :: "u32 \<Rightarrow> bytes" where
  "WriteNumber32 n = le_bytes 4 (ucast n)"

type_synonym reader = "err option \<times> bytes"

definition read_full :: "nat \<Rightarrow> bytes \<Rightarrow> err + bytes \<times> bytes" where
  "read_full n r =
     (if length r < n then Inl (if r = [] then Err_EOF else Err_UnexpectedEOF)
      else Inr (take n r, drop n r))"

definition ReadNumber :: "reader \<Rightarrow> u64 \<Rightarrow> u64 \<times> reader" where
  "ReadNumber rd old =
     (case fst rd of Some e \<Rightarrow> (old, rd)
      | None \<Rightarrow> (case read_full 8 (snd rd) of
            Inl e \<Rightarrow> (old, (Some e, []))
          | Inr (bs, r) \<Rightarrow> (le_word bs, (None, r))))"

definition ReadNumber32 :: "reader \<Rightarrow> u32 \<Rightarrow> u32 \<times> reader" where
  "ReadNumber32 rd old =
     (case fst rd of Some e \<Rightarrow> (old, rd)
      | None \<Rightarrow> (case read_full 4 (snd rd) of
            Inl e \<Rightarrow> (old, (Some e, []))
          | Inr (bs, r) \<Rightarrow> (ucast (le_word bs), (None, r))))"

definition c10M :: u64 where
  "c10M = 10 * 1024 * 1024"

definition ReadSlice :: "reader \<Rightarrow> bytes \<Rightarrow> bytes \<times> reader" where
  "ReadSlice rd old =
     (case fst rd of Some e \<Rightarrow> (old, rd)
      | None \<Rightarrow> (case ReadUvarint (snd rd) of
            UvarintEOF \<Rightarrow> (old, (Some Err_EOF, []))
          | UvarintOverflow \<Rightarrow> (old, (Some Err_Overflow, []))
          | UvarintOk sz r \<Rightarrow>
              (if c10M < sz then (old, (Some (Err_New ''too large slice, maybe something wrong''), r))
               else (case read_full (unat sz) r of
                   Inl e \<Rightarrow> (old, (Some e, []))
                 | Inr (data, r') \<Rightarrow> (data, (None, r'))))))"

definition Lock_MarshalBinary :: "('db, 'dd) env \<Rightarrow> mvsr_oocLock \<Rightarrow> bytes" where
  "Lock_MarshalBinary E l =
     WriteNumber (startTS l) @ WriteSlice (primary l) @ WriteSlice (l_value l) @
     WriteNumber32 (op_number E (l_op l)) @ WriteNumber (ttl l) @ WriteNumber (forUFIDelateTS l) @
     WriteNumber (txnSize l) @ WriteNumber (minCommitTS l)"

text \<open>Unmarshalling fills the fields in order and leaves those after an error at their zero values.\<close>

definition Lock_UnmarshalBinary :: "('db, 'dd) env \<Rightarrow> bytes \<Rightarrow> mvsr_oocLock \<times> err option" where
  "Lock_UnmarshalBinary E data =
     (let (a, rd) = ReadNumber (None, data) 0;
          (b, rd) = ReadSlice rd [];
          (c, rd) = ReadSlice rd [];
          (d, rd) = ReadNumber32 rd 0;
          (e, rd) = ReadNumber rd 0;
          (f, rd) = ReadNumber rd 0;
          (g, rd) = ReadNumber rd 0;
          (h, rd) = ReadNumber rd 0
      in (\<lparr>startTS = a, primary = b, l_value = c, l_op = op_of_number E d, ttl = e,
           forUFIDelateTS = f, txnSize = g, minCommitTS = h\<rparr>, fst rd))"

definition Value_MarshalBinary :: "mvsr_oocValue \<Rightarrow> bytes" where
  "Value_MarshalBinary v =
     WriteNumber (valueType_number (valueType v)) @ WriteNumber (v_startTS v) @
     WriteNumber (commitTS v) @ WriteSlice (v_value v)"

definition Value_UnmarshalBinary :: "bytes \<Rightarrow> mvsr_oocValue \<times> err option" where
  "Value_UnmarshalBinary data =
     (let (vt, rd) = ReadNumber (None, data) 0;
          (a, rd) = ReadNumber rd 0;
          (b, rd) = ReadNumber rd 0;
          (c, rd) = ReadSlice rd []
      in (\<lparr>valueType = valueType_of_number vt, v_startTS = a, commitTS = b, v_value = c\<rparr>, fst rd))"

lemma ReadNumber_Write [go_simps]: "ReadNumber (None, WriteNumber n @ r) old = (n, (None, r))"
  by (simp add: ReadNumber_def WriteNumber_def read_full_def)

lemma ReadNumber32_Write [go_simps]: "ReadNumber32 (None, WriteNumber32 n @ r) old = (n, (None, r))"
  by (simp add: ReadNumber32_def WriteNumber32_def read_full_def)

text \<open>The slices a marshalled record can carry: \<open>ReadSlice\<close> refuses more than ten megabytes.\<close>

definition slice_ok :: "bytes \<Rightarrow> bool" where
  "slice_ok s = (length s \<le> 10485760)"

lemma ReadSlice_Write [go_simps]:
  assumes "slice_ok s"
  shows "ReadSlice (None, WriteSlice s @ r) old = (s, (None, r))"
proof -
  have len: "length s < 2 ^ LENGTH(64)"
    using assms by (simp add: slice_ok_def)
  have u: "unat (word_of_nat (length s) :: u64) = length s"
    using len by (simp add: unsigned_of_nat take_bit_nat_eq_self)
  have "\<not> c10M < word_of_nat (length s)"
    using assms by (simp add: slice_ok_def c10M_def word_less_nat_alt u)
  then show ?thesis
    by (simp add: ReadSlice_def WriteSlice_def read_full_def u)
qed

lemma ReadSlice_too_large:
  assumes "\<not> slice_ok s" and "length s < 2 ^ 64"
  shows "snd (ReadSlice (None, WriteSlice s @ r) old) \<noteq> (None, x)"
proof -
  have "unat (word_of_nat (length s) :: u64) = length s"
    using assms(2) by (simp add: unsigned_of_nat take_bit_nat_eq_self)
  then have "c10M < word_of_nat (length s)"
    using assms(1) by (simp add: slice_ok_def c10M_def word_less_nat_alt)
  then show ?thesis
    by (simp add: ReadSlice_def WriteSlice_def)
qed

definition lock_ok :: "mvsr_oocLock \<Rightarrow> bool" where
  "lock_ok l = (slice_ok (primary l) \<and> slice_ok (l_value l))"

text \<open>The records the store writes have one of the four named types.\<close>

definition value_ok :: "mvsr_oocValue \<Rightarrow> bool" where
  "value_ok v = (slice_ok (v_value v) \<and> valueType v \<in> {typePut, typeDelete, typeRollback, typeLock})"

lemma value_ok_simps [simp]:
  "valueType v \<in> {typePut, typeDelete, typeRollback, typeLock} \<Longrightarrow> value_ok v = slice_ok (v_value v)"
  by (simp add: value_ok_def)

lemma value_ok_number: "value_ok v \<Longrightarrow> valueType_of_number (valueType_number (valueType v)) = valueType v"
  by (auto simp: value_ok_def valueType_of_number_def)

lemma slice_ok_Nil [simp]: "slice_ok []"
  by (simp add: slice_ok_def)

lemma Lock_Unmarshal_Marshal:
  assumes "op_of_number E (op_number E (l_op l)) = l_op l" and "lock_ok l"
  shows "Lock_UnmarshalBinary E (Lock_MarshalBinary E l) = (l, None)"
  using assms
  by (simp add: Lock_UnmarshalBinary_def Lock_MarshalBinary_def lock_ok_def go_simps
      ReadNumber_Write [where r = "[]", simplified])

lemma Value_Unmarshal_Marshal [simp]:
  assumes "value_ok v"
  shows "Value_UnmarshalBinary (Value_MarshalBinary v) = (v, None)"
  using assms value_ok_number [OF assms]
  by (simp add: Value_UnmarshalBinary_def Value_MarshalBinary_def value_ok_def go_simps
      ReadSlice_Write [where r = "[]", simplified])

section \<open>Keys\<close>

definition lockVer :: u64 where
  "lockVer = -1"

definition mvsr_oocEncode :: "('db, 'dd) env \<Rightarrow> bytes \<Rightarrow> u64 \<Rightarrow> bytes" where
  "mvsr_oocEncode E key ver = EncodeUintDesc E (EncodeBytes E [] key) ver"

definition mvsr_oocDecode :: "('db, 'dd) env \<Rightarrow> bytes \<Rightarrow> err + bytes \<times> u64" where
  "mvsr_oocDecode E encodedKey =
     (case DecodeBytes E encodedKey of
        Inl e \<Rightarrow> Inl e
      | Inr (remainBytes, key) \<Rightarrow>
          (if remainBytes = [] then Inr (key, 0)
           else (case DecodeUintDesc E remainBytes of
                Inl e \<Rightarrow> Inl e
              | Inr (remainBytes', ver) \<Rightarrow>
                  (if remainBytes' \<noteq> [] then Inl ErrInvalidEncodedKey else Inr (key, ver)))))"

definition regionContains :: "bytes \<Rightarrow> bytes \<Rightarrow> bytes \<Rightarrow> bool" where
  "regionContains startKey endKey key =
     (bytes_Compare startKey key \<le> 0 \<and> (bytes_Compare key endKey < 0 \<or> length endKey = 0))"

definition NewMvccKey :: "('db, 'dd) env \<Rightarrow> bytes \<Rightarrow> bytes" where
  "NewMvccKey E key = (if length key = 0 then [] else EncodeBytes E [] key)"

text \<open>\<open>Raw\<close> panics on a key that does not decode: \<open>None\<close>.\<close>

definition MvccKey_Raw :: "('db, 'dd) env \<Rightarrow> bytes \<Rightarrow> bytes option" where
  "MvccKey_Raw E key =
     (if length key = 0 then Some []
      else (case DecodeBytes E key of Inl e \<Rightarrow> None | Inr (_, k) \<Rightarrow> Some k))"

section \<open>Locks and entries\<close>

definition lockErr :: "('db, 'dd) env \<Rightarrow> mvsr_oocLock \<Rightarrow> bytes \<Rightarrow> err" where
  "lockErr E l key =
     ErrLocked (mvsr_oocEncode E key lockVer) (primary l) (startTS l) (forUFIDelateTS l) (ttl l) (txnSize l) (l_op l)"

definition lock_check :: "('db, 'dd) env \<Rightarrow> mvsr_oocLock \<Rightarrow> u64 \<Rightarrow> bytes \<Rightarrow> u64 list \<Rightarrow> err + u64" where
  "lock_check E l ts key resolvedLocks =
     (if startTS l > ts \<or> l_op l = Op_Lock \<or> l_op l = Op_PessimisticLock then Inr ts
      else if ts = -1 \<and> primary l = key then Inr (startTS l - 1)
      else if startTS l \<in> set resolvedLocks then Inr ts
      else Inl (lockErr E l key))"

datatype IsolationLevel = IsolationLevel_SI | IsolationLevel_RC

fun entry_Get_loop :: "u64 \<Rightarrow> mvsr_oocValue list \<Rightarrow> bytes option" where
  "entry_Get_loop ts [] = None"
| "entry_Get_loop ts (v # vs) =
     (if commitTS v \<le> ts \<and> valueType v \<noteq> typeRollback \<and> valueType v \<noteq> typeLock
      then Some (v_value v) else entry_Get_loop ts vs)"

text \<open>\<open>Get\<close> of an entry: \<open>None\<close> is the panic of \<open>Raw\<close>, the inner result nil or the value.\<close>

definition entry_Get :: "('db, 'dd) env \<Rightarrow> mvsr_oocEntry \<Rightarrow> u64 \<Rightarrow> IsolationLevel \<Rightarrow> u64 list \<Rightarrow> (err + bytes option) option" where
  "entry_Get E e ts isoLevel resolvedLocks =
     (case (if isoLevel = IsolationLevel_SI then e_dagger e else None) of
        None \<Rightarrow> Some (Inr (entry_Get_loop ts (e_values e)))
      | Some l \<Rightarrow>
          (case MvccKey_Raw E (e_key e) of
             None \<Rightarrow> None
           | Some k \<Rightarrow> (case lock_check E l ts k resolvedLocks of
                 Inl er \<Rightarrow> Some (Inl er)
               | Inr ts' \<Rightarrow> Some (Inr (entry_Get_loop ts' (e_values e))))))"

record pair =
  p_Key :: bytes
  p_Value :: "bytes option"
  p_Err :: "err option"

section \<open>Facts about keys\<close>

context codec
begin

lemma mvsr_oocEncode_eq: "mvsr_oocEncode E k v = EncodeBytes E [] k @ EncodeUintDesc E [] v"
  unfolding mvsr_oocEncode_def by (rule EncodeUintDesc_append)

lemma mvsr_oocDecode_Encode [simp]: "mvsr_oocDecode E (mvsr_oocEncode E k v) = Inr (k, v)"
  using EncodeUintDesc_nonempty [of v] DecodeUintDesc_Encode [of v "[]"]
  by (simp add: mvsr_oocDecode_def mvsr_oocEncode_eq DecodeBytes_Encode)

lemma mvsr_oocEncode_inj [simp]: "mvsr_oocEncode E k v = mvsr_oocEncode E k' v' \<longleftrightarrow> k = k' \<and> v = v'"
  by (metis Inr_inject Pair_inject mvsr_oocDecode_Encode)

lemma mvsr_oocEncode_less:
  "mvsr_oocEncode E k v < mvsr_oocEncode E k' v' \<longleftrightarrow> k < k' \<or> k = k' \<and> v' < v"
proof -
  have same: "mvsr_oocEncode E k a < mvsr_oocEncode E k b" if "b < a" for k a b
    using EncodeUintDesc_less [OF that] by (simp add: mvsr_oocEncode_eq)
  have diff: "mvsr_oocEncode E k a < mvsr_oocEncode E k' b" if "k < k'" for k k' a b
    using EncodeBytes_less [OF that] by (simp add: mvsr_oocEncode_eq)
  show ?thesis
  proof (cases rule: linorder_cases [of k k'])
    case less
    then show ?thesis
      using diff by auto
  next
    case equal
    then show ?thesis
      using same [of v' v k] same [of v v' k] by (cases rule: linorder_cases [of v v']) auto
  next
    case greater
    then show ?thesis
      using diff [of k' k v' v] by auto
  qed
qed

lemma mvsr_oocEncode_le:
  "mvsr_oocEncode E k v \<le> mvsr_oocEncode E k' v' \<longleftrightarrow> k < k' \<or> k = k' \<and> v' \<le> v"
  by (auto simp: le_less mvsr_oocEncode_less)

lemma MvccKey_Raw_New [simp]: "MvccKey_Raw E (NewMvccKey E k) = Some k"
proof (cases "k = []")
  case True
  then show ?thesis by (simp add: MvccKey_Raw_def NewMvccKey_def)
next
  case False
  have "EncodeBytes E [] k \<noteq> []"
    using EncodeBytes_less [of "[]" k "[]" "[]"] False by (cases k) auto
  with False show ?thesis
    using DecodeBytes_Encode [of k "[]"] by (simp add: MvccKey_Raw_def NewMvccKey_def)
qed

lemma Lock_roundtrip [simp]: "lock_ok l \<Longrightarrow> Lock_UnmarshalBinary E (Lock_MarshalBinary E l) = (l, None)"
  by (simp add: Lock_Unmarshal_Marshal op_of_number_op_number)

end

end
