(* ===== verification/Leveldb_Store.thy ===== *)
theory Leveldb_Store
  imports Mvcc "HOL-Library.Sublist"
begin

text \<open>
  \<^verbatim>\<open>causetstore/mockstore/mockeinsteindb/mvcc_leveldb.go\<close>: the multi-version store on LevelDB, one
  definition per function. Every public operation runs under the store's mutex, so an operation is
  a function of the whole state. A panic of the source is the result \<open>None\<close> of an operation that can
  panic. \<open>newScanIterator\<close> returns a nil iterator with its error and its callers defer a method of
  that iterator before they test the error, so its error is a panic of theirs.
\<close>

record ('db, 'dd) MVCCLevelDB =
  EDB :: 'db
  deadlockDetector :: 'dd

section \<open>Iterators and decoders\<close>

definition newIterator :: "('db, 'dd) env \<Rightarrow> 'db \<Rightarrow> bytes option \<Rightarrow> bytes option \<Rightarrow> iterator" where
  "newIterator E db start limit = ldb_NewIterator E db start limit"

definition newScanIterator :: "('db, 'dd) env \<Rightarrow> 'db \<Rightarrow> bytes \<Rightarrow> bytes \<Rightarrow> err + iterator \<times> bytes" where
  "newScanIterator E db startKey endKey =
     (let start = (if length startKey > 0 then Some (mvsr_oocEncode E startKey lockVer) else None);
          limit = (if length endKey > 0 then Some (mvsr_oocEncode E endKey lockVer) else None);
          iter = newIterator E db start limit
      in if length startKey = 0 \<and> iter_Valid iter
         then (case mvsr_oocDecode E (iter_Key iter) of
                 Inl e \<Rightarrow> Inl e
               | Inr (key, _) \<Rightarrow> Inr (iter, key))
         else Inr (iter, startKey))"

definition lockDecoder_Decode :: "('db, 'dd) env \<Rightarrow> bytes \<Rightarrow> iterator \<Rightarrow> (err + mvsr_oocLock option) \<times> iterator" where
  "lockDecoder_Decode E expectKey iter =
     (case iter_Error iter of
        Some e \<Rightarrow> (Inl e, iter)
      | None \<Rightarrow>
          (if \<not> iter_Valid iter then (Inr None, iter)
           else (case mvsr_oocDecode E (iter_Key iter) of
                Inl e \<Rightarrow> (Inl e, iter)
              | Inr (key, ver) \<Rightarrow>
                  (if key \<noteq> expectKey then (Inr None, iter)
                   else if ver \<noteq> lockVer then (Inr None, iter)
                   else (case Lock_UnmarshalBinary E (iter_Value iter) of
                        (dagger, Some e) \<Rightarrow> (Inl e, iter)
                      | (dagger, None) \<Rightarrow> (Inr (Some dagger), iter_Next iter))))))"

definition valueDecoder_Decode :: "('db, 'dd) env \<Rightarrow> bytes \<Rightarrow> iterator \<Rightarrow> (err + mvsr_oocValue option) \<times> iterator" where
  "valueDecoder_Decode E expectKey iter =
     (case iter_Error iter of
        Some e \<Rightarrow> (Inl e, iter)
      | None \<Rightarrow>
          (if \<not> iter_Valid iter then (Inr None, iter)
           else (case mvsr_oocDecode E (iter_Key iter) of
                Inl e \<Rightarrow> (Inl e, iter)
              | Inr (key, ver) \<Rightarrow>
                  (if key \<noteq> expectKey then (Inr None, iter)
                   else if ver = lockVer then (Inr None, iter)
                   else (case Value_UnmarshalBinary (iter_Value iter) of
                        (v, Some e) \<Rightarrow> (Inl e, iter)
                      | (v, None) \<Rightarrow> (Inr (Some v), iter_Next iter))))))"

text \<open>
  The decoders and the loops over them only move an iterator forward.
\<close>

definition advances :: "iterator \<Rightarrow> iterator \<Rightarrow> bool" where
  "advances it it' = (suffix (it_rest it') (it_rest it) \<and> it_fail it' = it_fail it)"

lemma advances_refl [simp, intro]: "advances it it"
  by (simp add: advances_def)

lemma advances_trans: "advances a b \<Longrightarrow> advances b c \<Longrightarrow> advances a c"
  by (auto simp: advances_def intro: suffix_order.trans)

lemma advances_length: "advances it it' \<Longrightarrow> length (it_rest it') \<le> length (it_rest it)"
  by (auto simp: advances_def dest: suffix_length_le)

lemma advances_same: "advances it it' \<Longrightarrow> length (it_rest it) \<le> length (it_rest it') \<Longrightarrow> it' = it"
  by (auto simp: advances_def suffix_def)

lemma advances_Next [simp]: "advances it (iter_Next it)"
  by (cases "it_rest it") (auto simp: advances_def iter_Next_def suffix_def)

lemma advances_Next_trans: "advances (iter_Next it) it' \<Longrightarrow> advances it it'"
  using advances_Next advances_trans by blast

lemma lockDecoder_advances: "advances it (snd (lockDecoder_Decode E k it))"
  by (auto simp: lockDecoder_Decode_def split: option.splits sum.splits prod.splits if_splits)

lemma valueDecoder_advances: "advances it (snd (valueDecoder_Decode E k it))"
  by (auto simp: valueDecoder_Decode_def split: option.splits sum.splits prod.splits if_splits)

lemma valueDecoder_less:
  "valueDecoder_Decode E k it = (Inr (Some v), it') \<Longrightarrow> length (it_rest it') < length (it_rest it)"
  by (auto simp: valueDecoder_Decode_def iter_Valid_length simp del: iter_Next_rest
      split: option.splits sum.splits prod.splits if_splits)

lemma lockDecoder_less:
  "lockDecoder_Decode E k it = (Inr (Some v), it') \<Longrightarrow> length (it_rest it') < length (it_rest it)"
  by (auto simp: lockDecoder_Decode_def iter_Valid_length simp del: iter_Next_rest
      split: option.splits sum.splits prod.splits if_splits)

function skip_loop :: "('db, 'dd) env \<Rightarrow> bytes \<Rightarrow> iterator \<Rightarrow> (err + bool) \<times> bytes \<times> iterator" where
  "skip_loop E currKey iter =
     (if iter_Valid iter
      then (case mvsr_oocDecode E (iter_Key iter) of
              Inl e \<Rightarrow> (Inl e, currKey, iter)
            | Inr (key, _) \<Rightarrow>
                (if key \<noteq> currKey then (Inr True, key, iter) else skip_loop E currKey (iter_Next iter)))
      else (Inr False, currKey, iter))"
  by pat_completeness auto
termination
  by (relation "measure (\<lambda>(E, k, it). length (it_rest it))") (auto simp: iter_Valid_length simp del: iter_Next_rest)

declare skip_loop.simps [simp del]

definition skiFIDelecoder_Decode :: "('db, 'dd) env \<Rightarrow> bytes \<Rightarrow> iterator \<Rightarrow> (err + bool) \<times> bytes \<times> iterator" where
  "skiFIDelecoder_Decode E currKey iter =
     (case iter_Error iter of Some e \<Rightarrow> (Inl e, currKey, iter) | None \<Rightarrow> skip_loop E currKey iter)"

text \<open>What a successful skip leaves: the iterator stands at a key other than the old one.\<close>

definition at_key :: "('db, 'dd) env \<Rightarrow> bytes \<Rightarrow> iterator \<Rightarrow> bool" where
  "at_key E k it = (iter_Valid it \<and> (case mvsr_oocDecode E (iter_Key it) of Inl _ \<Rightarrow> False | Inr (k', _) \<Rightarrow> k' = k))"

lemma skip_loop_spec:
  "skip_loop E ck it = (r, ck', it') \<Longrightarrow>
     advances it it' \<and> (r = Inr True \<longrightarrow> at_key E ck' it' \<and> ck' \<noteq> ck) \<and> (r = Inr False \<longrightarrow> \<not> iter_Valid it' \<and> ck' = ck)"
proof (induction E ck it rule: skip_loop.induct)
  case (1 E ck it)
  show ?case
  proof (cases "iter_Valid it \<and> (\<exists>v. mvsr_oocDecode E (iter_Key it) = Inr (ck, v))")
    case True
    then obtain v where v: "iter_Valid it" "mvsr_oocDecode E (iter_Key it) = Inr (ck, v)"
      by blast
    then have "skip_loop E ck (iter_Next it) = (r, ck', it')"
      using "1.prems" skip_loop.simps [of E ck it] by simp
    then show ?thesis
      using "1.IH" [OF v(1) v(2)] advances_Next_trans by auto
  next
    case False
    then show ?thesis
      using "1.prems" skip_loop.simps [of E ck it] by (auto simp: at_key_def split: if_splits sum.splits)
  qed
qed

lemma skip_spec:
  "skiFIDelecoder_Decode E ck it = (r, ck', it') \<Longrightarrow>
     advances it it' \<and> (r = Inr True \<longrightarrow> at_key E ck' it' \<and> ck' \<noteq> ck) \<and> (r = Inr False \<longrightarrow> \<not> iter_Valid it' \<and> ck' = ck)"
  by (auto simp: skiFIDelecoder_Decode_def split: option.splits dest: skip_loop_spec)

text \<open>
  The measure of the key loops: twice the entries left, and one more where the iterator does not
  stand at the loop's current key. A round that consumes nothing moves the current key onto the
  iterator.
\<close>

definition key_measure :: "('db, 'dd) env \<Rightarrow> bytes \<Rightarrow> iterator \<Rightarrow> nat" where
  "key_measure E k it = 2 * length (it_rest it) + (if at_key E k it then 0 else 1)"

lemma key_measure_less:
  assumes "advances it it'" and "at_key E ck' it'" and "ck' \<noteq> ck"
  shows "key_measure E ck' it' < key_measure E ck it"
proof (cases "length (it_rest it') < length (it_rest it)")
  case True
  then show ?thesis
    using assms(2) by (simp add: key_measure_def)
next
  case False
  then have "it' = it"
    using advances_same [OF assms(1)] by simp
  then have "\<not> at_key E ck it"
    using assms(2,3) by (auto simp: at_key_def split: sum.splits)
  then show ?thesis
    using assms(2) \<open>it' = it\<close> by (simp add: key_measure_def)
qed

section \<open>Reads\<close>

function getValue_loop :: "('db, 'dd) env \<Rightarrow> bytes \<Rightarrow> u64 \<Rightarrow> iterator \<Rightarrow> (err + bytes option) \<times> iterator" where
  "getValue_loop E key ts iter =
     (if iter_Valid iter
      then (case valueDecoder_Decode E key iter of
              (Inl e, iter') \<Rightarrow> (Inl e, iter')
            | (Inr None, iter') \<Rightarrow> (Inr None, iter')
            | (Inr (Some v), iter') \<Rightarrow>
                (if valueType v = typeRollback \<or> valueType v = typeLock then getValue_loop E key ts iter'
                 else if commitTS v \<le> ts
                      then (if valueType v = typeDelete then (Inr None, iter') else (Inr (Some (v_value v)), iter'))
                      else getValue_loop E key ts iter'))
      else (Inr None, iter))"
  by pat_completeness auto
termination
  by (relation "measure (\<lambda>(E, k, ts, it). length (it_rest it))") (auto dest!: valueDecoder_less [OF sym])

declare getValue_loop.simps [simp del]

definition getValue_iter :: "('db, 'dd) env \<Rightarrow> iterator \<Rightarrow> bytes \<Rightarrow> u64 \<Rightarrow> IsolationLevel \<Rightarrow> u64 list \<Rightarrow> (err + bytes option) \<times> iterator" where
  "getValue_iter E iter key ts isoLevel resolvedLocks =
     (case lockDecoder_Decode E key iter of
        (Inl e, iter') \<Rightarrow> (Inl e, iter')
      | (Inr dagger, iter') \<Rightarrow>
          (case (case dagger of
                   Some l \<Rightarrow> (if isoLevel = IsolationLevel_SI then lock_check E l ts key resolvedLocks else Inr ts)
                 | None \<Rightarrow> Inr ts) of
             Inl e \<Rightarrow> (Inl e, iter')
           | Inr ts' \<Rightarrow> getValue_loop E key ts' iter'))"

definition db_getValue :: "('db, 'dd) env \<Rightarrow> 'db \<Rightarrow> bytes \<Rightarrow> u64 \<Rightarrow> IsolationLevel \<Rightarrow> u64 list \<Rightarrow> err + bytes option" where
  "db_getValue E db key ts isoLevel resolvedLocks =
     fst (getValue_iter E (newIterator E db (Some (mvsr_oocEncode E key lockVer)) None) key ts isoLevel resolvedLocks)"

definition Get :: "('db, 'dd) env \<Rightarrow> ('db, 'dd) MVCCLevelDB \<Rightarrow> bytes \<Rightarrow> u64 \<Rightarrow> IsolationLevel \<Rightarrow> u64 list \<Rightarrow> err + bytes option" where
  "Get E s key ts isoLevel resolvedLocks = db_getValue E (EDB s) key ts isoLevel resolvedLocks"

fun BatchGet :: "('db, 'dd) env \<Rightarrow> ('db, 'dd) MVCCLevelDB \<Rightarrow> bytes list \<Rightarrow> u64 \<Rightarrow> IsolationLevel \<Rightarrow> u64 list \<Rightarrow> pair list" where
  "BatchGet E s [] ts isoLevel resolvedLocks = []"
| "BatchGet E s (k # ks) ts isoLevel resolvedLocks =
     (case db_getValue E (EDB s) k ts isoLevel resolvedLocks of
        Inr None \<Rightarrow> BatchGet E s ks ts isoLevel resolvedLocks
      | Inr (Some v) \<Rightarrow> \<lparr>p_Key = k, p_Value = Some v, p_Err = None\<rparr> # BatchGet E s ks ts isoLevel resolvedLocks
      | Inl e \<Rightarrow> \<lparr>p_Key = k, p_Value = None, p_Err = Some e\<rparr> # BatchGet E s ks ts isoLevel resolvedLocks)"

lemma getValue_loop_advances: "advances it (snd (getValue_loop E k ts it))"
proof (induction E k ts it rule: getValue_loop.induct)
  case (1 E k ts it)
  obtain r it' where d: "valueDecoder_Decode E k it = (r, it')"
    by (cases "valueDecoder_Decode E k it")
  have a: "advances it it'"
    using valueDecoder_advances [of it E k] d by simp
  show ?case
    using a d "1.IH" by (subst getValue_loop.simps) (auto split: sum.splits option.splits intro: advances_trans)
qed

lemma getValue_iter_advances: "advances it (snd (getValue_iter E it k ts lv rl))"
proof -
  obtain r it' where d: "lockDecoder_Decode E k it = (r, it')"
    by (cases "lockDecoder_Decode E k it")
  have a: "advances it it'"
    using lockDecoder_advances [of it E k] d by simp
  show ?thesis
    using a d getValue_loop_advances advances_trans
    by (fastforce simp: getValue_iter_def split: sum.splits option.splits)
qed

lemma Scan_step_less:
  assumes "getValue_iter E it ck ts lv rl = (r, it1)"
    and "skiFIDelecoder_Decode E ck it1 = (Inr True, ck', it2)"
  shows "key_measure E ck' it2 < key_measure E ck it"
proof -
  have "advances it it1"
    using getValue_iter_advances [of it E ck ts lv rl] assms(1) by simp
  then show ?thesis
    using skip_spec [OF assms(2)] by (blast intro: key_measure_less advances_trans)
qed

definition scan_append :: "pair list \<Rightarrow> bytes \<Rightarrow> (err + bytes option) \<Rightarrow> pair list" where
  "scan_append pairs currKey r =
     (case r of
        Inl e \<Rightarrow> pairs @ [\<lparr>p_Key = currKey, p_Value = None, p_Err = Some e\<rparr>]
      | Inr None \<Rightarrow> pairs
      | Inr (Some v) \<Rightarrow> pairs @ [\<lparr>p_Key = currKey, p_Value = Some v, p_Err = None\<rparr>])"

function Scan_loop :: "('db, 'dd) env \<Rightarrow> int \<Rightarrow> u64 \<Rightarrow> IsolationLevel \<Rightarrow> u64 list \<Rightarrow> bytes \<Rightarrow> iterator \<Rightarrow> pair list \<Rightarrow> pair list" where
  "Scan_loop E limit ts isoLevel resolvedLocks currKey iter pairs =
     (if int (length pairs) < limit
      then (let (r, iter1) = getValue_iter E iter currKey ts isoLevel resolvedLocks;
                pairs' = scan_append pairs currKey r
            in (case skiFIDelecoder_Decode E currKey iter1 of
                  (Inl e, _, _) \<Rightarrow> pairs'
                | (Inr ok, currKey', iter2) \<Rightarrow>
                    (if ok then Scan_loop E limit ts isoLevel resolvedLocks currKey' iter2 pairs' else pairs')))
      else pairs)"
  by pat_completeness auto
termination
  by (relation "measure (\<lambda>(E, limit, ts, lv, rl, k, it, ps). key_measure E k it)")
    (auto dest: Scan_step_less [OF sym sym])

declare Scan_loop.simps [simp del]

definition Scan :: "('db, 'dd) env \<Rightarrow> ('db, 'dd) MVCCLevelDB \<Rightarrow> bytes \<Rightarrow> bytes \<Rightarrow> int \<Rightarrow> u64 \<Rightarrow> IsolationLevel \<Rightarrow> u64 list \<Rightarrow> pair list option" where
  "Scan E s startKey endKey limit ts isoLevel resolvedLocks =
     (case newScanIterator E (EDB s) startKey endKey of
        Inl e \<Rightarrow> None
      | Inr (iter, currKey) \<Rightarrow> Some (Scan_loop E limit ts isoLevel resolvedLocks currKey iter []))"

text \<open>
  \<open>ReverseScan\<close> walks the entries below \<open>endKey\<close> backwards and rebuilds each key's entry on the way.
\<close>

record reverseScanHelper =
  h_startTS :: u64
  h_isoLevel :: IsolationLevel
  h_resolvedLocks :: "u64 list"
  h_currKey :: bytes
  h_entry :: mvsr_oocEntry
  h_pairs :: "pair list"

definition empty_entry :: mvsr_oocEntry where
  "empty_entry = \<lparr>e_key = [], e_values = [], e_dagger = None\<rparr>"

definition finishEntry :: "('db, 'dd) env \<Rightarrow> reverseScanHelper \<Rightarrow> reverseScanHelper option" where
  "finishEntry E h =
     (let entry = (h_entry h)\<lparr>e_values := rev (e_values (h_entry h)), e_key := NewMvccKey E (h_currKey h)\<rparr>
      in (case entry_Get E entry (h_startTS h) (h_isoLevel h) (h_resolvedLocks h) of
            None \<Rightarrow> None
          | Some r \<Rightarrow>
              (let pairs' = (case r of
                     Inl e \<Rightarrow> h_pairs h @ [\<lparr>p_Key = h_currKey h, p_Value = None, p_Err = Some e\<rparr>]
                   | Inr None \<Rightarrow> h_pairs h
                   | Inr (Some val) \<Rightarrow>
                       (if length val \<noteq> 0
                        then h_pairs h @ [\<lparr>p_Key = h_currKey h, p_Value = Some val, p_Err = None\<rparr>]
                        else h_pairs h))
               in Some (h\<lparr>h_pairs := pairs', h_entry := empty_entry\<rparr>))))"

fun ReverseScan_loop :: "('db, 'dd) env \<Rightarrow> bytes \<Rightarrow> int \<Rightarrow> reverseScanHelper \<Rightarrow> (bytes \<times> bytes) list \<Rightarrow> reverseScanHelper option" where
  "ReverseScan_loop E startKey limit h [] = Some h"
| "ReverseScan_loop E startKey limit h ((ek, ev) # es) =
     (if \<not> int (length (h_pairs h)) < limit then Some h
      else (case mvsr_oocDecode E ek of
           Inl e \<Rightarrow> Some h
         | Inr (key, ver) \<Rightarrow>
             (if bytes_Compare key startKey < 0 then Some h
              else (case (if key \<noteq> h_currKey h
                          then map_option (\<lambda>h'. h'\<lparr>h_currKey := key\<rparr>) (finishEntry E h) else Some h) of
                   None \<Rightarrow> None
                 | Some h1 \<Rightarrow>
                     (if ver = lockVer
                      then (let (dagger, er) = Lock_UnmarshalBinary E ev;
                                h2 = h1\<lparr>h_entry := (h_entry h1)\<lparr>e_dagger := Some dagger\<rparr>\<rparr>
                            in if er \<noteq> None then Some h2 else ReverseScan_loop E startKey limit h2 es)
                      else (let (v, er) = Value_UnmarshalBinary ev;
                                h2 = h1\<lparr>h_entry := (h_entry h1)\<lparr>e_values := e_values (h_entry h1) @ [v]\<rparr>\<rparr>
                            in if er \<noteq> None then Some h2 else ReverseScan_loop E startKey limit h2 es))))))"

definition ReverseScan :: "('db, 'dd) env \<Rightarrow> ('db, 'dd) MVCCLevelDB \<Rightarrow> bytes \<Rightarrow> bytes \<Rightarrow> int \<Rightarrow> u64 \<Rightarrow> IsolationLevel \<Rightarrow> u64 list \<Rightarrow> pair list option" where
  "ReverseScan E s startKey endKey limit ts isoLevel resolvedLocks =
     (let mvsr_oocEnd = (if length endKey \<noteq> 0 then Some (mvsr_oocEncode E endKey lockVer) else None);
          entries = rev (it_rest (ldb_NewIterator E (EDB s) None mvsr_oocEnd));
          currKey = (case mvsr_oocDecode E (case entries of [] \<Rightarrow> [] | e # _ \<Rightarrow> fst e) of Inl _ \<Rightarrow> [] | Inr (k, _) \<Rightarrow> k);
          helper = \<lparr>h_startTS = ts, h_isoLevel = isoLevel, h_resolvedLocks = resolvedLocks, h_currKey = currKey,
                    h_entry = empty_entry, h_pairs = []\<rparr>
      in (case ReverseScan_loop E startKey limit helper entries of
            None \<Rightarrow> None
          | Some h \<Rightarrow>
              (if int (length (h_pairs h)) < limit then map_option h_pairs (finishEntry E h) else Some (h_pairs h))))"

section \<open>Key errors\<close>

text \<open>
  The protobuf form of the store's errors (\<^verbatim>\<open>convertToKeyError\<close> of \<^verbatim>\<open>rpc.go\<close>). An error no other field
  fits is sent as the text of \<open>Abort\<close>; the model carries the error itself there. \<open>None\<close> is the panic
  of \<open>Raw\<close> on a key that does not decode.
\<close>

record LockInfo =
  li_Key :: bytes
  li_PrimaryLock :: bytes
  li_LockVersion :: u64
  li_LockTtl :: u64
  li_TxnSize :: u64
  li_LockType :: Op
  li_LockForUFIDelateTs :: u64

datatype KeyError =
    KE_Locked LockInfo
  | KE_AlreadyExist bytes
  | KE_Conflict bytes u64 u64 u64
  | KE_Deadlock u64 bytes u64
  | KE_Retryable string
  | KE_CommitTsExpired u64 u64 bytes u64
  | KE_TxnNotFound u64 bytes
  | KE_Abort err

fun convertToKeyError :: "('db, 'dd) env \<Rightarrow> err \<Rightarrow> KeyError option" where
  "convertToKeyError E (ErrLocked key prim start forTS ttl0 tsz lockType) =
     map_option (\<lambda>raw. KE_Locked \<lparr>li_Key = raw, li_PrimaryLock = prim, li_LockVersion = start, li_LockTtl = ttl0,
        li_TxnSize = tsz, li_LockType = lockType, li_LockForUFIDelateTs = forTS\<rparr>) (MvccKey_Raw E key)"
| "convertToKeyError E (ErrKeyAlreadyExist key) = Some (KE_AlreadyExist key)"
| "convertToKeyError E (ErrConflict start conflictTS conflictCommitTS key) = Some (KE_Conflict key conflictTS conflictCommitTS start)"
| "convertToKeyError E (ErrDeadlock lockTS key hash) = Some (KE_Deadlock lockTS key hash)"
| "convertToKeyError E (ErrRetryable msg) = Some (KE_Retryable (''retryable: '' @ msg))"
| "convertToKeyError E (ErrCommitTSExpired start attempted key minCommit) = Some (KE_CommitTsExpired start attempted key minCommit)"
| "convertToKeyError E (ErrTxnNotFound start key) = Some (KE_TxnNotFound start key)"
| "convertToKeyError E e = Some (KE_Abort e)"

fun convertToKeyErrors :: "('db, 'dd) env \<Rightarrow> err option list \<Rightarrow> KeyError list option" where
  "convertToKeyErrors E [] = Some []"
| "convertToKeyErrors E (None # es) = convertToKeyErrors E es"
| "convertToKeyErrors E (Some e # es) =
     (case convertToKeyError E e of
        None \<Rightarrow> None
      | Some ke \<Rightarrow> map_option (Cons ke) (convertToKeyErrors E es))"

section \<open>Pessimistic locks and prewrite\<close>

datatype Assertion = Assertion_None | Assertion_Exist | Assertion_NotExist

record mutation =
  m_Op :: Op
  m_Key :: bytes
  m_Value :: bytes
  m_Assertion :: Assertion

record PessimisticLockRequest =
  pl_Mutations :: "mutation list"
  pl_PrimaryLock :: bytes
  pl_StartVersion :: u64
  pl_LockTtl :: u64
  pl_ForUFIDelateTs :: u64
  pl_WaitTimeout :: int
  pl_ReturnValues :: bool
  pl_MinCommitTs :: u64

record PrewriteRequest =
  pw_Mutations :: "mutation list"
  pw_PrimaryLock :: bytes
  pw_StartVersion :: u64
  pw_LockTtl :: u64
  pw_TxnSize :: u64
  pw_ForUFIDelateTs :: u64
  pw_MinCommitTs :: u64
  pw_IsPessimisticLock :: "bool list"
  pw_ResolvedLocks :: "u64 list"

record lockCtx =
  lc_startTS :: u64
  lc_forUFIDelateTS :: u64
  lc_primary :: bytes
  lc_ttl :: u64
  lc_minCommitTs :: u64
  lc_returnValues :: bool
  lc_values :: "bytes option list"

definition LockNoWait :: int where
  "LockNoWait = -1"

text \<open>
  The loop of \<open>checkConflictValue\<close> over the versions of the key, \<open>v\<close> being the decoded current one.
\<close>

function conflict_loop :: "('db, 'dd) env \<Rightarrow> mutation \<Rightarrow> u64 \<Rightarrow> bool \<Rightarrow> bool \<Rightarrow> bool \<Rightarrow> bytes option \<Rightarrow> mvsr_oocValue \<Rightarrow> iterator \<Rightarrow> err + bytes option" where
  "conflict_loop E m start needCheckAssertion needGetVal needCheckRollback retVal v iter =
     (if needCheckRollback \<and> valueType v = typeRollback \<and> commitTS v = start
      then Inl (ErrAlreadyRollbacked start (m_Key m))
      else if needCheckAssertion \<and> (valueType v = typePut \<or> valueType v = typeLock) \<and> m_Op m = Op_PessimisticLock
      then Inl (ErrKeyAlreadyExist (m_Key m))
      else (let needCheckRollback' = (needCheckRollback \<and> \<not> commitTS v < start);
                needCheckAssertion' = (needCheckAssertion \<and> valueType v \<noteq> typeDelete);
                got = (needGetVal \<and> (valueType v = typeDelete \<or> valueType v = typePut));
                needGetVal' = (needGetVal \<and> \<not> got);
                retVal' = (if got then Some (v_value v) else retVal)
            in if \<not> needCheckAssertion' \<and> \<not> needGetVal' \<and> \<not> needCheckRollback' then Inr retVal'
               else (case valueDecoder_Decode E (m_Key m) iter of
                    (Inl e, _) \<Rightarrow> Inl e
                  | (Inr None, _) \<Rightarrow> Inr retVal'
                  | (Inr (Some v'), iter') \<Rightarrow>
                      conflict_loop E m start needCheckAssertion' needGetVal' needCheckRollback' retVal' v' iter')))"
  by pat_completeness auto
termination
  by (relation "measure (\<lambda>(E, m, st, a, g, r, rv, v, it). length (it_rest it))") (auto dest!: valueDecoder_less [OF sym])

declare conflict_loop.simps [simp del]

definition checkConflictValue :: "('db, 'dd) env \<Rightarrow> iterator \<Rightarrow> mutation \<Rightarrow> u64 \<Rightarrow> u64 \<Rightarrow> bool \<Rightarrow> err + bytes option" where
  "checkConflictValue E iter m forTS start getVal =
     (case valueDecoder_Decode E (m_Key m) iter of
        (Inl e, _) \<Rightarrow> Inl e
      | (Inr None, _) \<Rightarrow> Inr None
      | (Inr (Some v), iter') \<Rightarrow>
          (if commitTS v > forTS then Inl (ErrConflict forTS (v_startTS v) (commitTS v) (m_Key m))
           else (case conflict_loop E m start (m_Assertion m = Assertion_NotExist) getVal True None v iter' of
                Inl e \<Rightarrow> Inl e
              | Inr retVal \<Rightarrow> Inr (if getVal then retVal else None))))"

definition pessimisticLockMutation ::
  "('db, 'dd) env \<Rightarrow> ('db, 'dd) MVCCLevelDB \<Rightarrow> batch \<Rightarrow> mutation \<Rightarrow> lockCtx \<Rightarrow> err option \<times> batch \<times> lockCtx \<times> 'dd" where
  "pessimisticLockMutation E s batch m lctx =
     (let dd = deadlockDetector s;
          startKey = mvsr_oocEncode E (m_Key m) lockVer;
          iter = newIterator E (EDB s) (Some startKey) None
      in (case lockDecoder_Decode E (m_Key m) iter of
            (Inl e, _) \<Rightarrow> (Some e, batch, lctx, dd)
          | (Inr (Some dagger), _) \<Rightarrow>
              (if startTS dagger \<noteq> lc_startTS lctx
               then (case Detect E dd (lc_startTS lctx) (startTS dagger) (Fingerprint64 E (m_Key m)) of
                       (Some keyHash, dd') \<Rightarrow> (Some (ErrDeadlock (startTS dagger) (m_Key m) keyHash), batch, lctx, dd')
                     | (None, dd') \<Rightarrow> (Some (lockErr E dagger (m_Key m)), batch, lctx, dd'))
               else (None, batch, lctx, dd))
          | (Inr None, iter') \<Rightarrow>
              (case checkConflictValue E iter' m (lc_forUFIDelateTS lctx) (lc_startTS lctx) True of
                 Inl e \<Rightarrow> (Some e, batch, lctx, dd)
               | Inr val \<Rightarrow>
                   (let lctx' = (if lc_returnValues lctx then lctx\<lparr>lc_values := lc_values lctx @ [val]\<rparr> else lctx);
                        dagger = \<lparr>startTS = lc_startTS lctx, primary = lc_primary lctx, l_value = [],
                                  l_op = Op_PessimisticLock, ttl = lc_ttl lctx, forUFIDelateTS = lc_forUFIDelateTS lctx,
                                  txnSize = 0, minCommitTS = lc_minCommitTs lctx\<rparr>
                    in (None, batch @ [Put (mvsr_oocEncode E (m_Key m) lockVer) (Lock_MarshalBinary E dagger)], lctx', dd)))))"

fun isErrLocked :: "err option \<Rightarrow> bool" where
  "isErrLocked (Some (ErrLocked _ _ _ _ _ _ _)) = True"
| "isErrLocked _ = False"

fun pessimisticLock_loop ::
  "('db, 'dd) env \<Rightarrow> int \<Rightarrow> ('db, 'dd) MVCCLevelDB \<Rightarrow> batch \<Rightarrow> mutation list \<Rightarrow> lockCtx \<Rightarrow> err option list \<Rightarrow>
   err option list \<times> batch \<times> lockCtx \<times> 'dd" where
  "pessimisticLock_loop E wait s batch [] lctx errs = (errs, batch, lctx, deadlockDetector s)"
| "pessimisticLock_loop E wait s batch (m # ms) lctx errs =
     (case pessimisticLockMutation E s batch m lctx of
        (er, batch', lctx', dd') \<Rightarrow>
          (if wait = LockNoWait \<and> isErrLocked er then (errs @ [er], batch', lctx', dd')
           else pessimisticLock_loop E wait (s\<lparr>deadlockDetector := dd'\<rparr>) batch' ms lctx' (errs @ [er])))"

text \<open>
  The response of \<open>PessimisticLock\<close>: the converted errors of the failed keys, in the order of the
  keys, or the values read. The simulated wait of five milliseconds has no effect on the state.
\<close>

definition PessimisticLock ::
  "('db, 'dd) env \<Rightarrow> ('db, 'dd) MVCCLevelDB \<Rightarrow> PessimisticLockRequest \<Rightarrow>
   ((KeyError list \<times> bytes option list) \<times> ('db, 'dd) MVCCLevelDB) option" where
  "PessimisticLock E s req =
     (let lctx = \<lparr>lc_startTS = pl_StartVersion req, lc_forUFIDelateTS = pl_ForUFIDelateTs req,
                  lc_primary = pl_PrimaryLock req, lc_ttl = pl_LockTtl req, lc_minCommitTs = pl_MinCommitTs req,
                  lc_returnValues = pl_ReturnValues req, lc_values = []\<rparr>
      in (case pessimisticLock_loop E (pl_WaitTimeout req) s [] (pl_Mutations req) lctx [] of
            (errs, batch, lctx', dd') \<Rightarrow>
              (if \<exists>e\<in>set errs. e \<noteq> None
               then map_option (\<lambda>kes. ((kes, []), s\<lparr>deadlockDetector := dd'\<rparr>)) (convertToKeyErrors E errs)
               else (case ldb_Write E (EDB s) batch of
                    Inl e \<Rightarrow> map_option (\<lambda>kes. ((kes, []), s\<lparr>deadlockDetector := dd'\<rparr>)) (convertToKeyErrors E [Some e])
                  | Inr db' \<Rightarrow> Some (([], if pl_ReturnValues req then lc_values lctx' else []),
                                s\<lparr>EDB := db', deadlockDetector := dd'\<rparr>)))))"

definition pessimisticRollbackKey :: "('db, 'dd) env \<Rightarrow> 'db \<Rightarrow> batch \<Rightarrow> bytes \<Rightarrow> u64 \<Rightarrow> u64 \<Rightarrow> err + batch" where
  "pessimisticRollbackKey E db batch key start forTS =
     (let startKey = mvsr_oocEncode E key lockVer;
          iter = newIterator E db (Some startKey) None
      in (case lockDecoder_Decode E key iter of
            (Inl e, _) \<Rightarrow> Inl e
          | (Inr (Some dagger), _) \<Rightarrow>
              Inr (if l_op dagger = Op_PessimisticLock \<and> startTS dagger = start \<and> forUFIDelateTS dagger \<le> forTS
                   then batch @ [Delete startKey] else batch)
          | (Inr None, _) \<Rightarrow> Inr batch))"

fun pessimisticRollback_loop :: "('db, 'dd) env \<Rightarrow> 'db \<Rightarrow> batch \<Rightarrow> bytes list \<Rightarrow> u64 \<Rightarrow> u64 \<Rightarrow> err option list \<Rightarrow> err option list \<times> batch" where
  "pessimisticRollback_loop E db batch [] start forTS errs = (errs, batch)"
| "pessimisticRollback_loop E db batch (k # ks) start forTS errs =
     (case pessimisticRollbackKey E db batch k start forTS of
        Inl e \<Rightarrow> pessimisticRollback_loop E db batch ks start forTS (errs @ [Some e])
      | Inr batch' \<Rightarrow> pessimisticRollback_loop E db batch' ks start forTS (errs @ [None]))"

definition PessimisticRollback :: "('db, 'dd) env \<Rightarrow> ('db, 'dd) MVCCLevelDB \<Rightarrow> bytes list \<Rightarrow> u64 \<Rightarrow> u64 \<Rightarrow> err option list \<times> ('db, 'dd) MVCCLevelDB" where
  "PessimisticRollback E s keys start forTS =
     (case pessimisticRollback_loop E (EDB s) [] keys start forTS [] of
        (errs, batch) \<Rightarrow>
          (if \<exists>e\<in>set errs. e \<noteq> None then (errs, s)
           else (case ldb_Write E (EDB s) batch of
                Inl e \<Rightarrow> ([Some e], s)
              | Inr db' \<Rightarrow> (errs, s\<lparr>EDB := db'\<rparr>))))"

definition prewriteMutation ::
  "('db, 'dd) env \<Rightarrow> 'db \<Rightarrow> batch \<Rightarrow> mutation \<Rightarrow> u64 \<Rightarrow> bytes \<Rightarrow> u64 \<Rightarrow> u64 \<Rightarrow> bool \<Rightarrow> u64 \<Rightarrow> err + batch" where
  "prewriteMutation E db batch m start prim ttl0 txnSize0 isPessimisticLock minCommit =
     (let startKey = mvsr_oocEncode E (m_Key m) lockVer;
          iter = newIterator E db (Some startKey) None;
          write = (\<lambda>ttl1 minCommit1.
            (let op = (if m_Op m = Op_Insert then Op_Put else m_Op m);
                 dagger = \<lparr>startTS = start, primary = prim, l_value = m_Value m, l_op = op, ttl = ttl1,
                           forUFIDelateTS = 0, txnSize = txnSize0,
                           minCommitTS = (if prim = m_Key m then minCommit1 else 0)\<rparr>
             in Inr (batch @ [Put (mvsr_oocEncode E (m_Key m) lockVer) (Lock_MarshalBinary E dagger)])))
      in (case lockDecoder_Decode E (m_Key m) iter of
            (Inl e, _) \<Rightarrow> Inl e
          | (Inr (Some dagger), _) \<Rightarrow>
              (if startTS dagger \<noteq> start
               then Inl (lockErr E (if isPessimisticLock then dagger\<lparr>ttl := 0\<rparr> else dagger) (m_Key m))
               else if l_op dagger \<noteq> Op_PessimisticLock then Inr batch
               else write (if ttl0 < ttl dagger then ttl dagger else ttl0)
                      (if minCommit < minCommitTS dagger then minCommitTS dagger else minCommit))
          | (Inr None, iter') \<Rightarrow>
              (if isPessimisticLock then Inl (ErrAbort ''pessimistic dagger not found'')
               else (case checkConflictValue E iter' m start start False of
                    Inl e \<Rightarrow> Inl e
                  | Inr _ \<Rightarrow> write ttl0 minCommit))))"

text \<open>
  The loop of \<open>Prewrite\<close>. \<open>i\<close> is the index of the mutation; \<open>None\<close> is the panic of the index
  expression \<^verbatim>\<open>req.IsPessimisticLock[i]\<close> out of range.
\<close>

fun prewrite_loop :: "('db, 'dd) env \<Rightarrow> 'db \<Rightarrow> PrewriteRequest \<Rightarrow> nat \<Rightarrow> batch \<Rightarrow> mutation list \<Rightarrow> err option list \<Rightarrow> bool \<Rightarrow> (err option list \<times> batch \<times> bool) option" where
  "prewrite_loop E db req i batch [] errs anyError = Some (errs, batch, anyError)"
| "prewrite_loop E db req i batch (m # ms) errs anyError =
     (let check = (if (m_Op m = Op_Insert \<or> m_Op m = Op_CheckNotExists) \<and> pw_ForUFIDelateTs req = 0
                   then (case db_getValue E db (m_Key m) (pw_StartVersion req) IsolationLevel_SI (pw_ResolvedLocks req) of
                           Inl e \<Rightarrow> Some e
                         | Inr (Some _) \<Rightarrow> Some (ErrKeyAlreadyExist (m_Key m))
                         | Inr None \<Rightarrow> None)
                   else None)
      in (case check of
            Some e \<Rightarrow> prewrite_loop E db req (Suc i) batch ms (errs @ [Some e]) True
          | None \<Rightarrow>
              (if m_Op m = Op_CheckNotExists then prewrite_loop E db req (Suc i) batch ms errs anyError
               else (let ips = pw_IsPessimisticLock req
                     in if length ips > 0 \<and> length ips \<le> i then None
                        else (case prewriteMutation E db batch m (pw_StartVersion req) (pw_PrimaryLock req)
                                (pw_LockTtl req) (pw_TxnSize req) (length ips > 0 \<and> ips ! i) (pw_MinCommitTs req) of
                             Inl e \<Rightarrow> prewrite_loop E db req (Suc i) batch ms (errs @ [Some e]) True
                           | Inr batch' \<Rightarrow> prewrite_loop E db req (Suc i) batch' ms (errs @ [None]) anyError)))))"

definition Prewrite :: "('db, 'dd) env \<Rightarrow> ('db, 'dd) MVCCLevelDB \<Rightarrow> PrewriteRequest \<Rightarrow> (err option list \<times> ('db, 'dd) MVCCLevelDB) option" where
  "Prewrite E s req =
     (case prewrite_loop E (EDB s) req 0 [] (pw_Mutations req) [] False of
        None \<Rightarrow> None
      | Some (errs, batch, anyError) \<Rightarrow>
          (if anyError then Some (errs, s)
           else (case ldb_Write E (EDB s) batch of
                Inl e \<Rightarrow> Some ([Some e], s)
              | Inr db' \<Rightarrow> Some (errs, s\<lparr>EDB := db'\<rparr>))))"

section \<open>Commit and rollback\<close>

definition commitLock :: "('db, 'dd) env \<Rightarrow> batch \<Rightarrow> mvsr_oocLock \<Rightarrow> bytes \<Rightarrow> u64 \<Rightarrow> u64 \<Rightarrow> batch" where
  "commitLock E batch dagger key start commit =
     (let vt = (if l_op dagger = Op_Put then typePut else if l_op dagger = Op_Lock then typeLock else typeDelete);
          v = \<lparr>valueType = vt, v_startTS = start, commitTS = commit, v_value = l_value dagger\<rparr>
      in batch @ [Put (mvsr_oocEncode E key commit) (Value_MarshalBinary v), Delete (mvsr_oocEncode E key lockVer)])"

function getTxnCommitInfo :: "('db, 'dd) env \<Rightarrow> iterator \<Rightarrow> bytes \<Rightarrow> u64 \<Rightarrow> err + mvsr_oocValue option" where
  "getTxnCommitInfo E iter expectKey start =
     (if iter_Valid iter
      then (case valueDecoder_Decode E expectKey iter of
              (Inl e, _) \<Rightarrow> Inl e
            | (Inr None, _) \<Rightarrow> Inr None
            | (Inr (Some v), iter') \<Rightarrow>
                (if v_startTS v = start then Inr (Some v) else getTxnCommitInfo E iter' expectKey start))
      else Inr None)"
  by pat_completeness auto
termination
  by (relation "measure (\<lambda>(E, it, k, st). length (it_rest it))") (auto dest!: valueDecoder_less [OF sym])

declare getTxnCommitInfo.simps [simp del]

definition commitKey :: "('db, 'dd) env \<Rightarrow> 'db \<Rightarrow> batch \<Rightarrow> bytes \<Rightarrow> u64 \<Rightarrow> u64 \<Rightarrow> err + batch" where
  "commitKey E db batch key start commit =
     (let iter = newIterator E db (Some (mvsr_oocEncode E key lockVer)) None;
          notLocked = (\<lambda>iter'. case getTxnCommitInfo E iter' key start of
             Inl e \<Rightarrow> Inl e
           | Inr (Some c) \<Rightarrow> (if valueType c \<noteq> typeRollback then Inr batch else Inl (ErrRetryable ''txn not found''))
           | Inr None \<Rightarrow> Inl (ErrRetryable ''txn not found''))
      in (case lockDecoder_Decode E key iter of
            (Inl e, _) \<Rightarrow> Inl e
          | (Inr None, iter') \<Rightarrow> notLocked iter'
          | (Inr (Some dagger), iter') \<Rightarrow>
              (if startTS dagger \<noteq> start then notLocked iter'
               else if minCommitTS dagger > commit
               then Inl (ErrCommitTSExpired start commit key (minCommitTS dagger))
               else Inr (commitLock E batch dagger key start commit))))"

fun commit_loop :: "('db, 'dd) env \<Rightarrow> 'db \<Rightarrow> batch \<Rightarrow> bytes list \<Rightarrow> u64 \<Rightarrow> u64 \<Rightarrow> err + batch" where
  "commit_loop E db batch [] start commit = Inr batch"
| "commit_loop E db batch (k # ks) start commit =
     (case commitKey E db batch k start commit of
        Inl e \<Rightarrow> Inl e
      | Inr batch' \<Rightarrow> commit_loop E db batch' ks start commit)"

text \<open>The end of an operation that writes a batch: the engine's error or the new state.\<close>

definition write_batch :: "('db, 'dd) env \<Rightarrow> ('db, 'dd) MVCCLevelDB \<Rightarrow> batch \<Rightarrow> err option \<times> ('db, 'dd) MVCCLevelDB" where
  "write_batch E s batch =
     (case ldb_Write E (EDB s) batch of Inl e \<Rightarrow> (Some e, s) | Inr db' \<Rightarrow> (None, s\<lparr>EDB := db'\<rparr>))"

text \<open>The deferred \<open>deadlockDetector.CleanUp\<close> runs on every return path.\<close>

definition cleanUp_detector :: "('db, 'dd) env \<Rightarrow> u64 \<Rightarrow> ('db, 'dd) MVCCLevelDB \<Rightarrow> ('db, 'dd) MVCCLevelDB" where
  "cleanUp_detector E start s = s\<lparr>deadlockDetector := CleanUp E (deadlockDetector s) start\<rparr>"

definition Commit :: "('db, 'dd) env \<Rightarrow> ('db, 'dd) MVCCLevelDB \<Rightarrow> bytes list \<Rightarrow> u64 \<Rightarrow> u64 \<Rightarrow> err option \<times> ('db, 'dd) MVCCLevelDB" where
  "Commit E s keys start commit =
     apsnd (cleanUp_detector E start)
       (case commit_loop E (EDB s) [] keys start commit of
          Inl e \<Rightarrow> (Some e, s)
        | Inr batch \<Rightarrow> write_batch E s batch)"

definition rollback_value :: "u64 \<Rightarrow> mvsr_oocValue" where
  "rollback_value start = \<lparr>valueType = typeRollback, v_startTS = start, commitTS = start, v_value = []\<rparr>"

definition writeRollback :: "('db, 'dd) env \<Rightarrow> batch \<Rightarrow> bytes \<Rightarrow> u64 \<Rightarrow> batch" where
  "writeRollback E batch key start =
     batch @ [Put (mvsr_oocEncode E key start) (Value_MarshalBinary (rollback_value start))]"

definition rollbackLock :: "('db, 'dd) env \<Rightarrow> batch \<Rightarrow> bytes \<Rightarrow> u64 \<Rightarrow> batch" where
  "rollbackLock E batch key start = writeRollback E batch key start @ [Delete (mvsr_oocEncode E key lockVer)]"

text \<open>
  \<open>rollbackKey\<close> tests \<open>iter.Valid()\<close> first; on an iterator without entries it goes straight to the
  rollback record.
\<close>

definition rollbackKey :: "('db, 'dd) env \<Rightarrow> 'db \<Rightarrow> batch \<Rightarrow> bytes \<Rightarrow> u64 \<Rightarrow> err + batch" where
  "rollbackKey E db batch key start =
     (let iter = newIterator E db (Some (mvsr_oocEncode E key lockVer)) None;
          notPrewritten = Inr (batch @ [Put (mvsr_oocEncode E key start) (Value_MarshalBinary (rollback_value start))]);
          notLocked = (\<lambda>iter'. case getTxnCommitInfo E iter' key start of
             Inl e \<Rightarrow> Inl e
           | Inr (Some c) \<Rightarrow> (if valueType c \<noteq> typeRollback then Inl (ErrAlreadyCommitted (commitTS c)) else Inr batch)
           | Inr None \<Rightarrow> notPrewritten)
      in if iter_Valid iter
         then (case lockDecoder_Decode E key iter of
                 (Inl e, _) \<Rightarrow> Inl e
               | (Inr None, iter') \<Rightarrow> notLocked iter'
               | (Inr (Some dagger), iter') \<Rightarrow>
                   (if startTS dagger = start then Inr (rollbackLock E batch key start) else notLocked iter'))
         else notPrewritten)"

fun rollback_loop :: "('db, 'dd) env \<Rightarrow> 'db \<Rightarrow> batch \<Rightarrow> bytes list \<Rightarrow> u64 \<Rightarrow> err + batch" where
  "rollback_loop E db batch [] start = Inr batch"
| "rollback_loop E db batch (k # ks) start =
     (case rollbackKey E db batch k start of
        Inl e \<Rightarrow> Inl e
      | Inr batch' \<Rightarrow> rollback_loop E db batch' ks start)"

definition Rollback :: "('db, 'dd) env \<Rightarrow> ('db, 'dd) MVCCLevelDB \<Rightarrow> bytes list \<Rightarrow> u64 \<Rightarrow> err option \<times> ('db, 'dd) MVCCLevelDB" where
  "Rollback E s keys start =
     apsnd (cleanUp_detector E start)
       (case rollback_loop E (EDB s) [] keys start of
          Inl e \<Rightarrow> (Some e, s)
        | Inr batch \<Rightarrow> write_batch E s batch)"

text \<open>
  \<open>Cleanup\<close>. Its last branch puts a rollback record into the batch and returns without writing the
  batch, so that branch leaves the store as it is.
\<close>

definition Cleanup :: "('db, 'dd) env \<Rightarrow> ('db, 'dd) MVCCLevelDB \<Rightarrow> bytes \<Rightarrow> u64 \<Rightarrow> u64 \<Rightarrow> err option \<times> ('db, 'dd) MVCCLevelDB" where
  "Cleanup E s key start currentTS =
     apsnd (cleanUp_detector E start)
       (let iter = newIterator E (EDB s) (Some (mvsr_oocEncode E key lockVer)) None;
            notPrewritten = (None, s);
            notLocked = (\<lambda>iter'. case getTxnCommitInfo E iter' key start of
               Inl e \<Rightarrow> (Some e, s)
             | Inr (Some c) \<Rightarrow> (if valueType c \<noteq> typeRollback then (Some (ErrAlreadyCommitted (commitTS c)), s) else (None, s))
             | Inr None \<Rightarrow> notPrewritten)
        in if iter_Valid iter
           then (case lockDecoder_Decode E key iter of
                   (Inl e, _) \<Rightarrow> (Some e, s)
                 | (Inr None, iter') \<Rightarrow> notLocked iter'
                 | (Inr (Some dagger), iter') \<Rightarrow>
                     (if startTS dagger = start
                      then (if currentTS = 0 \<or>
                               ExtractPhysical E (startTS dagger) + ttl dagger < ExtractPhysical E currentTS
                            then write_batch E s (rollbackLock E [] key start)
                            else (Some (lockErr E dagger key), s))
                      else notLocked iter'))
           else notPrewritten)"

datatype CausetAction =
  CausetAction_NoCausetAction | CausetAction_TTLExpireRollback | CausetAction_LockNotExistRollback | CausetAction_MinCommitTSPushed

record txn_status =
  ts_ttl :: u64
  ts_commitTS :: u64
  ts_action :: CausetAction
  ts_err :: "err option"

definition CheckTxnStatus ::
  "('db, 'dd) env \<Rightarrow> ('db, 'dd) MVCCLevelDB \<Rightarrow> bytes \<Rightarrow> u64 \<Rightarrow> u64 \<Rightarrow> u64 \<Rightarrow> bool \<Rightarrow> txn_status \<times> ('db, 'dd) MVCCLevelDB" where
  "CheckTxnStatus E s primaryKey lockTS callerStartTS currentTS rollbackIfNotExist =
     (let iter = newIterator E (EDB s) (Some (mvsr_oocEncode E primaryKey lockVer)) None;
          res = (\<lambda>t c a e. \<lparr>ts_ttl = t, ts_commitTS = c, ts_action = a, ts_err = e\<rparr>);
          notPrewritten =
            (if rollbackIfNotExist
             then (case write_batch E s (writeRollback E [] primaryKey lockTS) of
                     (Some e, s') \<Rightarrow> (res 0 0 CausetAction_NoCausetAction (Some e), s')
                   | (None, s') \<Rightarrow> (res 0 0 CausetAction_LockNotExistRollback None, s'))
             else (res 0 0 CausetAction_NoCausetAction (Some (ErrTxnNotFound lockTS primaryKey)), s));
          notLocked = (\<lambda>iter'. case getTxnCommitInfo E iter' primaryKey lockTS of
             Inl e \<Rightarrow> (res 0 0 CausetAction_NoCausetAction (Some e), s)
           | Inr (Some c) \<Rightarrow>
               (if valueType c \<noteq> typeRollback then (res 0 (commitTS c) CausetAction_NoCausetAction None, s)
                else (res 0 0 CausetAction_NoCausetAction None, s))
           | Inr None \<Rightarrow> notPrewritten)
      in if iter_Valid iter
         then (case lockDecoder_Decode E primaryKey iter of
                 (Inl e, _) \<Rightarrow> (res 0 0 CausetAction_NoCausetAction (Some e), s)
               | (Inr None, iter') \<Rightarrow> notLocked iter'
               | (Inr (Some dagger), iter') \<Rightarrow>
                   (if startTS dagger \<noteq> lockTS then notLocked iter'
                    else if ExtractPhysical E (startTS dagger) + ttl dagger < ExtractPhysical E currentTS
                    then (case write_batch E s (rollbackLock E [] primaryKey lockTS) of
                            (Some e, s') \<Rightarrow> (res 0 0 CausetAction_NoCausetAction (Some e), s')
                          | (None, s') \<Rightarrow> (res 0 0 CausetAction_TTLExpireRollback None, s'))
                    else if callerStartTS = -1 then (res (ttl dagger) 0 CausetAction_MinCommitTSPushed None, s)
                    else if minCommitTS dagger > 0
                    then (if minCommitTS dagger < callerStartTS + 1
                          then (let m1 = callerStartTS + 1;
                                    m2 = (if m1 < currentTS then currentTS else m1);
                                    dagger' = dagger\<lparr>minCommitTS := m2\<rparr>
                                in (case write_batch E s [Put (mvsr_oocEncode E primaryKey lockVer) (Lock_MarshalBinary E dagger')] of
                                      (Some e, s') \<Rightarrow> (res 0 0 CausetAction_MinCommitTSPushed (Some e), s')
                                    | (None, s') \<Rightarrow> (res (ttl dagger) 0 CausetAction_MinCommitTSPushed None, s')))
                          else (res (ttl dagger) 0 CausetAction_MinCommitTSPushed None, s))
                    else (res (ttl dagger) 0 CausetAction_NoCausetAction None, s)))
         else notPrewritten)"

definition TxnHeartBeat :: "('db, 'dd) env \<Rightarrow> ('db, 'dd) MVCCLevelDB \<Rightarrow> bytes \<Rightarrow> u64 \<Rightarrow> u64 \<Rightarrow> (err + u64) \<times> ('db, 'dd) MVCCLevelDB" where
  "TxnHeartBeat E s key start adviseTTL =
     (let iter = newIterator E (EDB s) (Some (mvsr_oocEncode E key lockVer)) None;
          missing = (Inl (Err_New ''dagger doesn't exist''), s)
      in if iter_Valid iter
         then (case lockDecoder_Decode E key iter of
                 (Inl e, _) \<Rightarrow> (Inl e, s)
               | (Inr None, _) \<Rightarrow> missing
               | (Inr (Some dagger), _) \<Rightarrow>
                   (if startTS dagger \<noteq> start then missing
                    else if primary dagger \<noteq> key
                    then (Inl (Err_New ''txnHeartBeat on non-primary key, the code should not run here''), s)
                    else if adviseTTL > ttl dagger
                    then (case write_batch E s [Put (mvsr_oocEncode E key lockVer) (Lock_MarshalBinary E (dagger\<lparr>ttl := adviseTTL\<rparr>))] of
                            (Some e, s') \<Rightarrow> (Inl e, s')
                          | (None, s') \<Rightarrow> (Inr adviseTTL, s'))
                    else (Inr (ttl dagger), s)))
         else missing)"

section \<open>Operations over ranges\<close>

text \<open>
  \<open>ScanLock\<close>, \<open>ResolveLock\<close> and \<open>BatchResolveLock\<close> share the loop shape of the source: decode the lock
  of the current key, act on it, skip to the next key. The skip's success flag is not looked at; the
  loop stops when the iterator is exhausted.
\<close>

lemma lock_step_less:
  assumes "lockDecoder_Decode E ck it = (r, it1)"
    and "skiFIDelecoder_Decode E ck it1 = (Inr b, ck', it2)" and "iter_Valid it2"
  shows "key_measure E ck' it2 < key_measure E ck it"
proof -
  have "advances it it1"
    using lockDecoder_advances [of it E ck] assms(1) by simp
  moreover have "b = True"
    using skip_spec [OF assms(2)] assms(3) by (cases b) auto
  ultimately show ?thesis
    using skip_spec [OF assms(2)] by (blast intro: key_measure_less advances_trans)
qed

function ScanLock_loop :: "('db, 'dd) env \<Rightarrow> u64 \<Rightarrow> bytes \<Rightarrow> iterator \<Rightarrow> LockInfo list \<Rightarrow> err + LockInfo list" where
  "ScanLock_loop E maxTS currKey iter locks =
     (case lockDecoder_Decode E currKey iter of
        (Inl e, _) \<Rightarrow> Inl e
      | (Inr dagger, iter1) \<Rightarrow>
          (let locks' = (case dagger of
                 None \<Rightarrow> locks
               | Some l \<Rightarrow>
                   (if startTS l \<le> maxTS
                    then locks @ [\<lparr>li_Key = currKey, li_PrimaryLock = primary l, li_LockVersion = startTS l, li_LockTtl = 0,
                                   li_TxnSize = 0, li_LockType = op_of_number E 0, li_LockForUFIDelateTs = 0\<rparr>]
                    else locks))
           in (case skiFIDelecoder_Decode E currKey iter1 of
                 (Inl e, _, _) \<Rightarrow> Inl e
               | (Inr _, currKey', iter2) \<Rightarrow>
                   (if iter_Valid iter2 then ScanLock_loop E maxTS currKey' iter2 locks' else Inr locks'))))"
  by pat_completeness auto
termination
  by (relation "measure (\<lambda>(E, ts, k, it, ls). key_measure E k it)") (auto dest: lock_step_less [OF sym sym])

declare ScanLock_loop.simps [simp del]

text \<open>The fields of a scanned lock's \<open>LockInfo\<close> the source does not set have their zero values.\<close>

definition ScanLock :: "('db, 'dd) env \<Rightarrow> ('db, 'dd) MVCCLevelDB \<Rightarrow> bytes \<Rightarrow> bytes \<Rightarrow> u64 \<Rightarrow> (err + LockInfo list) option" where
  "ScanLock E s startKey endKey maxTS =
     (case newScanIterator E (EDB s) startKey endKey of
        Inl e \<Rightarrow> None
      | Inr (iter, currKey) \<Rightarrow>
          Some (if iter_Valid iter then ScanLock_loop E maxTS currKey iter [] else Inr []))"

text \<open>
  The two resolving operations differ in which locks they resolve and with which commit timestamp;
  \<open>txnCommit\<close> is that decision. A commit timestamp of zero rolls the lock back.
\<close>

function resolve_loop :: "('db, 'dd) env \<Rightarrow> (u64 \<rightharpoonup> u64) \<Rightarrow> bytes \<Rightarrow> iterator \<Rightarrow> batch \<Rightarrow> err + batch" where
  "resolve_loop E txnCommit currKey iter batch =
     (case lockDecoder_Decode E currKey iter of
        (Inl e, _) \<Rightarrow> Inl e
      | (Inr dagger, iter1) \<Rightarrow>
          (let batch' = (case dagger of
                 None \<Rightarrow> batch
               | Some l \<Rightarrow>
                   (case txnCommit (startTS l) of
                      None \<Rightarrow> batch
                    | Some commit \<Rightarrow>
                        (if commit > 0 then commitLock E batch l currKey (startTS l) commit
                         else rollbackLock E batch currKey (startTS l))))
           in (case skiFIDelecoder_Decode E currKey iter1 of
                 (Inl e, _, _) \<Rightarrow> Inl e
               | (Inr _, currKey', iter2) \<Rightarrow>
                   (if iter_Valid iter2 then resolve_loop E txnCommit currKey' iter2 batch' else Inr batch'))))"
  by pat_completeness auto
termination
  by (relation "measure (\<lambda>(E, tc, k, it, b). key_measure E k it)") (auto dest: lock_step_less [OF sym sym])

declare resolve_loop.simps [simp del]

definition BatchResolveLock :: "('db, 'dd) env \<Rightarrow> ('db, 'dd) MVCCLevelDB \<Rightarrow> bytes \<Rightarrow> bytes \<Rightarrow> (u64 \<rightharpoonup> u64) \<Rightarrow> (err option \<times> ('db, 'dd) MVCCLevelDB) option" where
  "BatchResolveLock E s startKey endKey txnInfos =
     (case newScanIterator E (EDB s) startKey endKey of
        Inl e \<Rightarrow> None
      | Inr (iter, currKey) \<Rightarrow>
          Some (case (if iter_Valid iter then resolve_loop E txnInfos currKey iter [] else Inr []) of
                  Inl e \<Rightarrow> (Some e, s)
                | Inr batch \<Rightarrow> write_batch E s batch))"

definition ResolveLock :: "('db, 'dd) env \<Rightarrow> ('db, 'dd) MVCCLevelDB \<Rightarrow> bytes \<Rightarrow> bytes \<Rightarrow> u64 \<Rightarrow> u64 \<Rightarrow> (err option \<times> ('db, 'dd) MVCCLevelDB) option" where
  "ResolveLock E s startKey endKey start commit =
     (case newScanIterator E (EDB s) startKey endKey of
        Inl e \<Rightarrow> None
      | Inr (iter, currKey) \<Rightarrow>
          Some (case (if iter_Valid iter then resolve_loop E [start \<mapsto> commit] currKey iter [] else Inr []) of
                  Inl e \<Rightarrow> (Some e, s)
                | Inr batch \<Rightarrow> write_batch E s batch))"

text \<open>
  Garbage collection. The inner loop deletes, of the versions at or below the safe point, all but the
  newest put; it returns the key the iterator has moved to.
\<close>

function GC_inner :: "('db, 'dd) env \<Rightarrow> u64 \<Rightarrow> bytes \<Rightarrow> bool \<Rightarrow> iterator \<Rightarrow> batch \<Rightarrow> err + bytes \<times> iterator \<times> batch" where
  "GC_inner E safePoint currKey keepNext iter batch =
     (if iter_Valid iter
      then (case valueDecoder_Decode E currKey iter of
              (Inl e, _) \<Rightarrow> Inl e
            | (Inr None, iter') \<Rightarrow>
                (case mvsr_oocDecode E (iter_Key iter') of
                   Inl e \<Rightarrow> Inl e
                 | Inr (key, _) \<Rightarrow> Inr (key, iter', batch))
            | (Inr (Some v), iter') \<Rightarrow>
                (if commitTS v > safePoint then GC_inner E safePoint currKey keepNext iter' batch
                 else if valueType v = typePut \<or> valueType v = typeDelete
                 then GC_inner E safePoint currKey False iter'
                        (if \<not> keepNext \<or> valueType v = typeDelete
                         then batch @ [Delete (mvsr_oocEncode E currKey (commitTS v))] else batch)
                 else GC_inner E safePoint currKey keepNext iter' (batch @ [Delete (mvsr_oocEncode E currKey (commitTS v))])))
      else Inr (currKey, iter, batch))"
  by pat_completeness auto
termination
  by (relation "measure (\<lambda>(E, sp, k, kn, it, b). length (it_rest it))") (auto dest!: valueDecoder_less [OF sym])

declare GC_inner.simps [simp del]

lemma GC_inner_spec:
  assumes "GC_inner E sp ck kn it b = Inr (ck', it', b')"
  shows "advances it it' \<and> (iter_Valid it' \<longrightarrow> at_key E ck' it') \<and>
    (it' = it \<longrightarrow> iter_Valid it \<longrightarrow> valueDecoder_Decode E ck it = (Inr None, it))"
  using assms
proof (induction E sp ck kn it b arbitrary: ck' it' b' rule: GC_inner.induct)
  case (1 E sp ck kn it b)
  obtain r it1 where d: "valueDecoder_Decode E ck it = (r, it1)"
    by (cases "valueDecoder_Decode E ck it")
  have a: "advances it it1"
    using valueDecoder_advances [of it E ck] d by simp
  show ?case
  proof (cases "iter_Valid it \<and> (\<exists>v. r = Inr (Some v))")
    case True
    then obtain v where v: "iter_Valid it" "r = Inr (Some v)"
      by blast
    have lt: "length (it_rest it1) < length (it_rest it)"
      using valueDecoder_less d v by blast
    obtain kn' b1 where rec: "GC_inner E sp ck kn' it1 b1 = Inr (ck', it', b')"
      using "1.prems" GC_inner.simps [of E sp ck kn it b] v d by (auto split: if_splits)
    have "advances it1 it' \<and> (iter_Valid it' \<longrightarrow> at_key E ck' it')"
      using "1.IH" d v "1.prems" GC_inner.simps [of E sp ck kn it b] by (auto split: if_splits)
    moreover have "it' \<noteq> it"
      using calculation lt advances_length leD by blast
    ultimately show ?thesis
      using a advances_trans by blast
  next
    case False
    have same: "it1 = it" if "r = Inr None"
      using d that by (auto simp: valueDecoder_Decode_def split: option.splits sum.splits if_splits prod.splits)
    show ?thesis
      using False "1.prems" GC_inner.simps [of E sp ck kn it b] d same
      by (auto simp: at_key_def split: if_splits sum.splits option.splits)
  qed
qed

lemma lockDecoder_at_key:
  assumes "lockDecoder_Decode E ck it = (Inr r, it)" and "at_key E ck it" and "valueDecoder_Decode E ck it = (Inr None, it)"
  shows False
proof -
  have "iter_Next it \<noteq> it" if "iter_Valid it"
    using iter_Valid_length [OF that] by (metis less_irrefl)
  then show False
    using assms
    by (auto simp: lockDecoder_Decode_def valueDecoder_Decode_def at_key_def
        split: option.splits sum.splits prod.splits if_splits)
qed

lemma GC_step_less:
  assumes "iter_Valid it" and "lockDecoder_Decode E ck it = (Inr r, it1)"
    and "GC_inner E sp ck True it1 b = Inr (ck', it2, b')" and "iter_Valid it2"
  shows "key_measure E ck' it2 < key_measure E ck it"
proof -
  have "advances it it1"
    using lockDecoder_advances [of it E ck] assms(2) by simp
  then have a: "advances it it2"
    using GC_inner_spec [OF assms(3)] advances_trans by blast
  have k: "at_key E ck' it2"
    using GC_inner_spec [OF assms(3)] assms(4) by blast
  show ?thesis
  proof (cases "length (it_rest it2) < length (it_rest it)")
    case True
    then show ?thesis
      using k by (simp add: key_measure_def)
  next
    case False
    then have eq2: "it2 = it"
      using advances_same [OF a] by simp
    then have "it1 = it"
      using GC_inner_spec [OF assms(3)] \<open>advances it it1\<close> advances_same advances_length by blast
    then have "valueDecoder_Decode E ck it = (Inr None, it)"
      using GC_inner_spec [OF assms(3)] eq2 assms(4) by blast
    then have "\<not> at_key E ck it"
      using lockDecoder_at_key assms(2) \<open>it1 = it\<close> by blast
    then show ?thesis
      using k eq2 by (simp add: key_measure_def)
  qed
qed

function GC_loop :: "('db, 'dd) env \<Rightarrow> u64 \<Rightarrow> bytes \<Rightarrow> iterator \<Rightarrow> batch \<Rightarrow> err + batch" where
  "GC_loop E safePoint currKey iter batch =
     (if iter_Valid iter
      then (case lockDecoder_Decode E currKey iter of
              (Inl e, _) \<Rightarrow> Inl e
            | (Inr dagger, iter1) \<Rightarrow>
                (case (case dagger of None \<Rightarrow> None | Some l \<Rightarrow> if startTS l \<le> safePoint then Some (startTS l) else None) of
                   Some start \<Rightarrow> Inl (Err_UnderSafePoint currKey start safePoint)
                 | None \<Rightarrow>
                     (case GC_inner E safePoint currKey True iter1 batch of
                        Inl e \<Rightarrow> Inl e
                      | Inr (currKey', iter2, batch') \<Rightarrow>
                          (if iter_Valid iter2 then GC_loop E safePoint currKey' iter2 batch' else Inr batch'))))
      else Inr batch)"
  by pat_completeness auto
termination
  by (relation "measure (\<lambda>(E, sp, k, it, b). key_measure E k it)") (auto dest: GC_step_less [OF _ sym])

declare GC_loop.simps [simp del]

definition GC :: "('db, 'dd) env \<Rightarrow> ('db, 'dd) MVCCLevelDB \<Rightarrow> bytes \<Rightarrow> bytes \<Rightarrow> u64 \<Rightarrow> (err option \<times> ('db, 'dd) MVCCLevelDB) option" where
  "GC E s startKey endKey safePoint =
     (case newScanIterator E (EDB s) startKey endKey of
        Inl e \<Rightarrow> None
      | Inr (iter, currKey) \<Rightarrow>
          Some (case GC_loop E safePoint currKey iter [] of
                  Inl e \<Rightarrow> (Some e, s)
                | Inr batch \<Rightarrow> write_batch E s batch))"

section \<open>Raw key-value operations\<close>

text \<open>
  The \<open>RawKV\<close> interface works on the engine's own keys. Its write errors are logged and dropped;
  \<open>RawGet\<close> gives nil for a key that is not there.
\<close>

definition raw_write :: "('db, 'dd) env \<Rightarrow> ('db, 'dd) MVCCLevelDB \<Rightarrow> batch \<Rightarrow> ('db, 'dd) MVCCLevelDB" where
  "raw_write E s batch = snd (write_batch E s batch)"

definition or_empty :: "bytes option \<Rightarrow> bytes" where
  "or_empty v = (case v of None \<Rightarrow> [] | Some b \<Rightarrow> b)"

definition RawPut :: "('db, 'dd) env \<Rightarrow> ('db, 'dd) MVCCLevelDB \<Rightarrow> bytes \<Rightarrow> bytes option \<Rightarrow> ('db, 'dd) MVCCLevelDB" where
  "RawPut E s key val = raw_write E s [Put key (or_empty val)]"

text \<open>\<open>RawBatchPut\<close> panics (\<open>None\<close>) where there are fewer values than keys.\<close>

fun rawBatchPut_loop :: "bytes list \<Rightarrow> bytes option list \<Rightarrow> batch \<Rightarrow> batch option" where
  "rawBatchPut_loop [] vs batch = Some batch"
| "rawBatchPut_loop (k # ks) [] batch = None"
| "rawBatchPut_loop (k # ks) (v # vs) batch = rawBatchPut_loop ks vs (batch @ [Put k (or_empty v)])"

definition RawBatchPut :: "('db, 'dd) env \<Rightarrow> ('db, 'dd) MVCCLevelDB \<Rightarrow> bytes list \<Rightarrow> bytes option list \<Rightarrow> ('db, 'dd) MVCCLevelDB option" where
  "RawBatchPut E s keys vals = map_option (raw_write E s) (rawBatchPut_loop keys vals [])"

definition RawGet :: "('db, 'dd) env \<Rightarrow> ('db, 'dd) MVCCLevelDB \<Rightarrow> bytes \<Rightarrow> bytes option" where
  "RawGet E s key = ldb_Get E (EDB s) key"

definition RawBatchGet :: "('db, 'dd) env \<Rightarrow> ('db, 'dd) MVCCLevelDB \<Rightarrow> bytes list \<Rightarrow> bytes option list" where
  "RawBatchGet E s keys = map (ldb_Get E (EDB s)) keys"

definition RawDelete :: "('db, 'dd) env \<Rightarrow> ('db, 'dd) MVCCLevelDB \<Rightarrow> bytes \<Rightarrow> ('db, 'dd) MVCCLevelDB" where
  "RawDelete E s key = raw_write E s [Delete key]"

definition RawBatchDelete :: "('db, 'dd) env \<Rightarrow> ('db, 'dd) MVCCLevelDB \<Rightarrow> bytes list \<Rightarrow> ('db, 'dd) MVCCLevelDB" where
  "RawBatchDelete E s keys = raw_write E s (map Delete keys)"

definition raw_pair :: "bytes \<times> bytes \<Rightarrow> pair" where
  "raw_pair e = \<lparr>p_Key = fst e, p_Value = Some (snd e), p_Err = None\<rparr>"

fun RawScan_loop :: "bytes \<Rightarrow> int \<Rightarrow> (bytes \<times> bytes) list \<Rightarrow> pair list \<Rightarrow> pair list" where
  "RawScan_loop endKey limit [] pairs = pairs"
| "RawScan_loop endKey limit (e # es) pairs =
     (if int (length pairs) < limit
      then (if length endKey > 0 \<and> bytes_Compare (fst e) endKey \<ge> 0 then pairs
            else RawScan_loop endKey limit es (pairs @ [raw_pair e]))
      else pairs)"

definition RawScan :: "('db, 'dd) env \<Rightarrow> ('db, 'dd) MVCCLevelDB \<Rightarrow> bytes \<Rightarrow> bytes \<Rightarrow> int \<Rightarrow> pair list" where
  "RawScan E s startKey endKey limit =
     RawScan_loop endKey limit (it_rest (ldb_NewIterator E (EDB s) (Some startKey) None)) []"

fun RawReverseScan_loop :: "bytes \<Rightarrow> int \<Rightarrow> (bytes \<times> bytes) list \<Rightarrow> pair list \<Rightarrow> pair list" where
  "RawReverseScan_loop endKey limit [] pairs = pairs"
| "RawReverseScan_loop endKey limit (e # es) pairs =
     (if int (length pairs) < limit
      then (if bytes_Compare (fst e) endKey < 0 then pairs
            else RawReverseScan_loop endKey limit es (pairs @ [raw_pair e]))
      else pairs)"

text \<open>A nil \<open>startKey\<close> (\<open>None\<close>) leaves the range of \<open>RawReverseScan\<close> without an upper limit.\<close>

definition RawReverseScan :: "('db, 'dd) env \<Rightarrow> ('db, 'dd) MVCCLevelDB \<Rightarrow> bytes option \<Rightarrow> bytes \<Rightarrow> int \<Rightarrow> pair list" where
  "RawReverseScan E s startKey endKey limit =
     RawReverseScan_loop endKey limit (rev (it_rest (ldb_NewIterator E (EDB s) None startKey))) []"

definition doRawDeleteRange :: "('db, 'dd) env \<Rightarrow> ('db, 'dd) MVCCLevelDB \<Rightarrow> bytes option \<Rightarrow> bytes option \<Rightarrow> err option \<times> ('db, 'dd) MVCCLevelDB" where
  "doRawDeleteRange E s startKey endKey =
     write_batch E s (map (\<lambda>e. Delete (fst e)) (it_rest (ldb_NewIterator E (EDB s) startKey endKey)))"

definition RawDeleteRange :: "('db, 'dd) env \<Rightarrow> ('db, 'dd) MVCCLevelDB \<Rightarrow> bytes option \<Rightarrow> bytes option \<Rightarrow> ('db, 'dd) MVCCLevelDB" where
  "RawDeleteRange E s startKey endKey = snd (doRawDeleteRange E s startKey endKey)"

definition DeleteRange :: "('db, 'dd) env \<Rightarrow> ('db, 'dd) MVCCLevelDB \<Rightarrow> bytes \<Rightarrow> bytes \<Rightarrow> err option \<times> ('db, 'dd) MVCCLevelDB" where
  "DeleteRange E s startKey endKey =
     doRawDeleteRange E s (Some (EncodeBytes E [] startKey)) (Some (EncodeBytes E [] endKey))"

section \<open>Debugging reads\<close>

record MvccLock =
  ml_Type :: Op
  ml_StartTs :: u64
  ml_Primary :: bytes
  ml_ShortValue :: "bytes option"

record MvccWrite =
  mw_Type :: Op
  mw_StartTs :: u64
  mw_CommitTs :: u64
  mw_ShortValue :: "bytes option"

record MvccValue =
  mv_StartTs :: u64
  mv_Value :: bytes

record MvccInfo =
  mi_Lock :: "MvccLock option"
  mi_Writes :: "MvccWrite list"
  mi_Values :: "MvccValue list"

text \<open>The table \<open>valueTypeOpMap\<close>; an index outside it panics.\<close>

fun valueTypeOpMap :: "mvsr_oocValueType \<Rightarrow> Op option" where
  "valueTypeOpMap typePut = Some Op_Put"
| "valueTypeOpMap typeDelete = Some Op_Del"
| "valueTypeOpMap typeRollback = Some Op_Rollback"
| "valueTypeOpMap typeLock = Some Op_Lock"
| "valueTypeOpMap (typeOther n) = None"

definition isShortValue :: "bytes \<Rightarrow> bool" where
  "isShortValue v = (length v \<le> 64)"

definition shortValue :: "bytes \<Rightarrow> bytes option" where
  "shortValue v = (if isShortValue v then Some v else None)"

text \<open>The outer \<open>None\<close> is the panic, the inner one the nil result of a decoding error.\<close>

function mvccInfo_loop :: "('db, 'dd) env \<Rightarrow> bytes \<Rightarrow> iterator \<Rightarrow> MvccInfo \<Rightarrow> MvccInfo option option" where
  "mvccInfo_loop E key iter info =
     (if iter_Valid iter
      then (case valueDecoder_Decode E key iter of
              (Inl e, _) \<Rightarrow> Some None
            | (Inr None, _) \<Rightarrow> Some (Some info)
            | (Inr (Some v), iter') \<Rightarrow>
                (case valueTypeOpMap (valueType v) of
                   None \<Rightarrow> None
                 | Some op \<Rightarrow>
                     mvccInfo_loop E key iter'
                       (info\<lparr>mi_Writes := mi_Writes info @ [\<lparr>mw_Type = op, mw_StartTs = v_startTS v, mw_CommitTs = commitTS v,
                                                            mw_ShortValue = shortValue (v_value v)\<rparr>],
                             mi_Values := mi_Values info @ [\<lparr>mv_StartTs = v_startTS v, mv_Value = v_value v\<rparr>]\<rparr>)))
      else Some (Some info))"
  by pat_completeness auto
termination
  by (relation "measure (\<lambda>(E, k, it, i). length (it_rest it))") (auto dest!: valueDecoder_less [OF sym])

declare mvccInfo_loop.simps [simp del]

definition MvccGetByKey :: "('db, 'dd) env \<Rightarrow> ('db, 'dd) MVCCLevelDB \<Rightarrow> bytes \<Rightarrow> MvccInfo option option" where
  "MvccGetByKey E s key =
     (let iter = newIterator E (EDB s) (Some (mvsr_oocEncode E key lockVer)) None
      in (case lockDecoder_Decode E key iter of
            (Inl e, _) \<Rightarrow> Some None
          | (Inr dagger, iter') \<Rightarrow>
              mvccInfo_loop E key iter'
                \<lparr>mi_Lock = map_option (\<lambda>l. \<lparr>ml_Type = l_op l, ml_StartTs = startTS l, ml_Primary = primary l,
                                           ml_ShortValue = shortValue (l_value l)\<rparr>) dagger,
                 mi_Writes = [], mi_Values = []\<rparr>))"

text \<open>
  \<open>MvccGetByStartTS\<close> unmarshals every entry as a version and takes the first whose start timestamp
  matches; \<open>find_startTS\<close> gives the key of that entry, \<open>Some None\<close> where it does not decode and
  \<open>None\<close> where there is no such entry (the key stays nil).
\<close>

fun find_startTS :: "('db, 'dd) env \<Rightarrow> u64 \<Rightarrow> (bytes \<times> bytes) list \<Rightarrow> bytes option option" where
  "find_startTS E start [] = None"
| "find_startTS E start ((ek, ev) # es) =
     (case Value_UnmarshalBinary ev of
        (v, er) \<Rightarrow>
          (if er = None \<and> v_startTS v = start
           then (case DecodeBytes E ek of Inl _ \<Rightarrow> Some None | Inr (_, key) \<Rightarrow> Some (Some key))
           else find_startTS E start es))"

definition MvccGetByStartTS :: "('db, 'dd) env \<Rightarrow> ('db, 'dd) MVCCLevelDB \<Rightarrow> u64 \<Rightarrow> (MvccInfo option \<times> bytes) option" where
  "MvccGetByStartTS E s start =
     (case find_startTS E start (it_rest (newIterator E (EDB s) None None)) of
        Some None \<Rightarrow> Some (None, [])
      | Some (Some key) \<Rightarrow> map_option (\<lambda>i. (i, key)) (MvccGetByKey E s key)
      | None \<Rightarrow> map_option (\<lambda>i. (i, [])) (MvccGetByKey E s []))"

end
