(* ===== verification/Mvcc_View.thy ===== *)
theory Mvcc_View
  imports Leveldb_Store
begin

text \<open>
  The abstract view of the store. A key has at most one lock and a list of committed versions, newest
  first; the engine holds one entry for each. \<open>abs_rel\<close> ties an engine state to such a view, the
  iterator lemmas turn a walk over the engine's entries into a walk over the view, and the batch
  lemmas turn a written batch into a sequence of abstract updates.
\<close>

section \<open>The abstract state\<close>

record astate =
  a_lock :: "bytes \<Rightarrow> mvsr_oocLock option"
  a_writes :: "bytes \<Rightarrow> mvsr_oocValue list"

definition newest_first :: "mvsr_oocValue list \<Rightarrow> bool" where
  "newest_first vs = sorted_wrt (\<lambda>v w. commitTS w < commitTS v) vs"

definition a_keys :: "astate \<Rightarrow> bytes set" where
  "a_keys a = {k. a_lock a k \<noteq> None \<or> a_writes a k \<noteq> []}"

definition wf_astate :: "astate \<Rightarrow> bool" where
  "wf_astate a = (finite (a_keys a) \<and>
     (\<forall>k l. a_lock a k = Some l \<longrightarrow> lock_ok l) \<and>
     (\<forall>k. newest_first (a_writes a k)) \<and>
     (\<forall>k. \<forall>v\<in>set (a_writes a k). value_ok v \<and> commitTS v \<noteq> lockVer))"

lemma wf_astateD:
  assumes "wf_astate a"
  shows "finite (a_keys a)"
    and "a_lock a k = Some l \<Longrightarrow> lock_ok l"
    and "newest_first (a_writes a k)"
    and "v \<in> set (a_writes a k) \<Longrightarrow> value_ok v"
    and "v \<in> set (a_writes a k) \<Longrightarrow> commitTS v \<noteq> lockVer"
  using assms by (auto simp: wf_astate_def)

lemma newest_first_Cons [simp]:
  "newest_first (v # vs) \<longleftrightarrow> (\<forall>w\<in>set vs. commitTS w < commitTS v) \<and> newest_first vs"
  by (auto simp: newest_first_def)

lemma newest_first_Nil [simp]: "newest_first []"
  by (simp add: newest_first_def)

lemma newest_first_inj:
  assumes "newest_first vs" "v \<in> set vs" "w \<in> set vs" "commitTS v = commitTS w"
  shows "v = w"
  using assms by (induction vs) auto

definition empty_astate :: astate where
  "empty_astate = \<lparr>a_lock = (\<lambda>_. None), a_writes = (\<lambda>_. [])\<rparr>"

lemma wf_empty_astate [simp]: "wf_astate empty_astate"
  by (simp add: wf_astate_def empty_astate_def a_keys_def)

section \<open>Entries of a key\<close>

definition lock_entry :: "('db, 'dd) env \<Rightarrow> bytes \<Rightarrow> mvsr_oocLock \<Rightarrow> bytes \<times> bytes" where
  "lock_entry E k l = (mvsr_oocEncode E k lockVer, Lock_MarshalBinary E l)"

definition write_entry :: "('db, 'dd) env \<Rightarrow> bytes \<Rightarrow> mvsr_oocValue \<Rightarrow> bytes \<times> bytes" where
  "write_entry E k v = (mvsr_oocEncode E k (commitTS v), Value_MarshalBinary v)"

definition key_run :: "('db, 'dd) env \<Rightarrow> astate \<Rightarrow> bytes \<Rightarrow> (bytes \<times> bytes) list" where
  "key_run E a k =
     (case a_lock a k of None \<Rightarrow> [] | Some l \<Rightarrow> [lock_entry E k l]) @ map (write_entry E k) (a_writes a k)"

definition abs_map :: "('db, 'dd) env \<Rightarrow> (bytes \<rightharpoonup> bytes) \<Rightarrow> astate \<Rightarrow> bool" where
  "abs_map E m a = (wf_astate a \<and> (\<forall>ek b. m ek = Some b \<longleftrightarrow> (\<exists>k. (ek, b) \<in> set (key_run E a k))))"

definition abs_rel :: "('db, 'dd) env \<Rightarrow> 'db \<Rightarrow> astate \<Rightarrow> bool" where
  "abs_rel E db a = abs_map E (ldb_Get E db) a"

lemma abs_rel_wf: "abs_rel E db a \<Longrightarrow> wf_astate a"
  by (simp add: abs_rel_def abs_map_def)

abbreviation It :: "(bytes \<times> bytes) list \<Rightarrow> iterator" where
  "It es \<equiv> \<lparr>it_rest = es, it_fail = None\<rparr>"

definition sorted_keys :: "astate \<Rightarrow> bytes list" where
  "sorted_keys a = sorted_list_of_set (a_keys a)"

text \<open>The keys of the view in \<open>[startKey, endKey)\<close>, an empty \<open>endKey\<close> meaning no upper bound.\<close>

definition range_keys :: "astate \<Rightarrow> bytes \<Rightarrow> bytes \<Rightarrow> bytes list" where
  "range_keys a startKey endKey = filter (\<lambda>k. startKey \<le> k \<and> (endKey = [] \<or> k < endKey)) (sorted_keys a)"

definition key_bound :: "('db, 'dd) env \<Rightarrow> bytes \<Rightarrow> bytes option" where
  "key_bound E k = (if length k > 0 then Some (mvsr_oocEncode E k lockVer) else None)"

lemma key_run_Nil_iff: "key_run E a k = [] \<longleftrightarrow> k \<notin> a_keys a"
  by (auto simp: key_run_def a_keys_def split: option.splits)

lemma sorted_keys_props:
  assumes "wf_astate a"
  shows "sorted_wrt (<) (sorted_keys a)" and "set (sorted_keys a) = a_keys a"
  using wf_astateD(1) [OF assms] by (simp_all add: sorted_keys_def)

lemma range_keys_props:
  assumes "wf_astate a"
  shows "sorted_wrt (<) (range_keys a s e)"
    and "set (range_keys a s e) = {k \<in> a_keys a. s \<le> k \<and> (e = [] \<or> k < e)}"
  using sorted_keys_props [OF assms] by (auto simp: range_keys_def sorted_wrt_filter)

context codec
begin

lemma key_run_entry:
  assumes "(ek, b) \<in> set (key_run E a k)"
  obtains v where "ek = mvsr_oocEncode E k v"
  using assms by (auto simp: key_run_def lock_entry_def write_entry_def split: option.splits)

lemma key_run_key: "(ek, b) \<in> set (key_run E a k) \<Longrightarrow> \<exists>v. ek = mvsr_oocEncode E k v"
  by (blast elim: key_run_entry)

lemma key_run_in_keys: "x \<in> set (key_run E a k) \<Longrightarrow> k \<in> a_keys a"
  using key_run_Nil_iff [of E a k] by auto

lemma key_run_sorted:
  assumes "wf_astate a"
  shows "key_sorted (key_run E a k)"
proof -
  have "sorted_wrt (<) (map fst (map (write_entry E k) vs))" if "newest_first vs" for vs
    using that by (induction vs) (auto simp: write_entry_def mvsr_oocEncode_less)
  moreover have "commitTS v < lockVer" if "v \<in> set (a_writes a k)" for v
    using wf_astateD(5) [OF assms that] by (simp add: lockVer_def word_order.not_eq_extremum)
  ultimately show ?thesis
    using wf_astateD(3) [OF assms, of k]
    by (auto simp: key_run_def lock_entry_def write_entry_def mvsr_oocEncode_less split: option.splits)
qed

lemma key_runs_sorted:
  assumes "wf_astate a" and "sorted_wrt (<) ks"
  shows "key_sorted (concat (map (key_run E a) ks))"
  unfolding map_concat map_map
proof (rule sorted_wrt_concat_map [OF assms(2)])
  show "sorted_wrt (<) ((map fst \<circ> key_run E a) k)" for k
    using key_run_sorted [OF assms(1)] by simp
  show "x < y" if "k < k'" "x \<in> set ((map fst \<circ> key_run E a) k)" "y \<in> set ((map fst \<circ> key_run E a) k')" for k k' x y
    using that by (auto elim!: key_run_entry simp: mvsr_oocEncode_less)
qed

lemma key_bound_start: "(case key_bound E s of None \<Rightarrow> True | Some b \<Rightarrow> b \<le> mvsr_oocEncode E k v) \<longleftrightarrow> s \<le> k"
  by (cases "s = []") (auto simp: key_bound_def mvsr_oocEncode_le lockVer_def)

lemma key_bound_limit: "(case key_bound E e of None \<Rightarrow> True | Some b \<Rightarrow> mvsr_oocEncode E k v < b) \<longleftrightarrow> e = [] \<or> k < e"
  by (auto simp: key_bound_def mvsr_oocEncode_less lockVer_def)

end

section \<open>Iterating over the view\<close>

context store_env
begin

lemma newIterator_eq: "newIterator E db s l = It (it_rest (newIterator E db s l))"
  by (simp add: newIterator_def iterator_fail)

text \<open>An iterator over an encoded key range yields the runs of the keys of that range, in order.\<close>

lemma iterator_runs:
  assumes "abs_rel E db a" and "\<And>k v. in_range s l (mvsr_oocEncode E k v) \<longleftrightarrow> P k"
  shows "newIterator E db s l = It (concat (map (key_run E a) (filter P (sorted_keys a))))"
proof -
  have wf: "wf_astate a"
    using assms(1) by (rule abs_rel_wf)
  let ?it = "it_rest (newIterator E db s l)" and ?runs = "concat (map (key_run E a) (filter P (sorted_keys a)))"
  have r: "in_range s l ek \<longleftrightarrow> P k" if "(ek, b) \<in> set (key_run E a k)" for ek b k
    using key_run_key [OF that] assms(2) by auto
  have "set ?it = {x. \<exists>k. x \<in> set (key_run E a k) \<and> P k}"
    using assms(1) r by (fastforce simp: newIterator_def iterator_entries abs_rel_def abs_map_def)
  also have "\<dots> = set ?runs"
    using sorted_keys_props(2) [OF wf] by (auto dest: key_run_in_keys)
  finally have "set ?it = set ?runs" .
  moreover have "key_sorted ?it"
    by (simp add: newIterator_def iterator_sorted)
  moreover have "key_sorted ?runs"
    using sorted_keys_props(1) [OF wf] by (intro key_runs_sorted [OF wf] sorted_wrt_filter)
  ultimately have "?it = ?runs"
    by (blast intro: key_sorted_unique)
  then show ?thesis
    using newIterator_eq by metis
qed

lemma newIterator_range:
  assumes "abs_rel E db a"
  shows "newIterator E db (key_bound E s) (key_bound E e) = It (concat (map (key_run E a) (range_keys a s e)))"
  unfolding range_keys_def
  by (rule iterator_runs [OF assms]) (simp add: in_range_def key_bound_start key_bound_limit)

text \<open>What follows the run of a key belongs to another key.\<close>

definition past :: "bytes \<Rightarrow> (bytes \<times> bytes) list \<Rightarrow> bool" where
  "past k es = (case es of [] \<Rightarrow> True | e # _ \<Rightarrow> (\<exists>k' v. fst e = mvsr_oocEncode E k' v \<and> k' \<noteq> k))"

lemma past_Nil [simp]: "past k []"
  by (simp add: past_def)

lemma past_runs:
  assumes "k \<notin> set ks"
  shows "past k (concat (map (key_run E a) ks))"
proof (cases "concat (map (key_run E a) ks)")
  case Nil
  show ?thesis unfolding Nil by simp
next
  case (Cons e es)
  then obtain k' where "k' \<in> set ks" "e \<in> set (key_run E a k')"
    by (metis (no_types, lifting) UN_E list.set_intros(1) set_concat set_map image_iff)
  then show ?thesis
    using Cons assms by (cases e) (auto simp: past_def elim!: key_run_entry)
qed

lemma newIterator_key:
  assumes "abs_rel E db a"
  obtains rest where "newIterator E db (Some (mvsr_oocEncode E k lockVer)) None = It (key_run E a k @ rest)"
    and "past k rest"
proof -
  have wf: "wf_astate a"
    using assms(1) by (rule abs_rel_wf)
  let ?ks = "filter (\<lambda>k'. k \<le> k') (sorted_keys a)"
  let ?it = "newIterator E db (Some (mvsr_oocEncode E k lockVer)) None"
  have it: "?it = It (concat (map (key_run E a) ?ks))"
    by (rule iterator_runs [OF assms]) (auto simp: in_range_def mvsr_oocEncode_le lockVer_def)
  have srt: "sorted_wrt (<) ?ks"
    using sorted_keys_props(1) [OF wf] by (rule sorted_wrt_filter)
  have "\<exists>ks'. concat (map (key_run E a) ?ks) = key_run E a k @ concat (map (key_run E a) ks') \<and> k \<notin> set ks'"
  proof (cases "k \<in> a_keys a")
    case True
    then obtain k0 ks' where ks: "?ks = k0 # ks'"
      using sorted_keys_props(2) [OF wf] by (cases ?ks) (auto simp: filter_empty_conv)
    have "k \<in> set (k0 # ks')"
      using True ks [symmetric] sorted_keys_props(2) [OF wf] by simp
    moreover have "k \<le> k0"
      using arg_cong [OF ks, of set] by auto
    ultimately have "k0 = k" "k \<notin> set ks'"
      using srt ks by auto
    then show ?thesis
      using ks by auto
  next
    case False
    then have "key_run E a k = []" "k \<notin> set ?ks"
      using sorted_keys_props(2) [OF wf] by (simp_all add: key_run_Nil_iff)
    then show ?thesis
      by auto
  qed
  then show ?thesis
    using it that past_runs by metis
qed

text \<open>The decoders on the run of a key.\<close>

lemma lockDecoder_run:
  assumes "wf_astate a" and "past k rest"
  shows "lockDecoder_Decode E k (It (key_run E a k @ rest)) =
     (Inr (a_lock a k), It (map (write_entry E k) (a_writes a k) @ rest))"
proof (cases "a_lock a k")
  case (Some l)
  then show ?thesis
    using wf_astateD(2) [OF assms(1) Some] by (simp add: lockDecoder_Decode_def key_run_def lock_entry_def)
next
  case None
  show ?thesis
  proof (cases "a_writes a k")
    case Nil
    then show ?thesis
      using None assms(2) by (auto simp: lockDecoder_Decode_def key_run_def past_def split: list.splits)
  next
    case (Cons v vs)
    then have "commitTS v \<noteq> lockVer"
      using wf_astateD(5) [OF assms(1), of v k] by simp
    then show ?thesis
      using None Cons by (simp add: lockDecoder_Decode_def key_run_def write_entry_def)
  qed
qed

lemma valueDecoder_write [simp]:
  assumes "value_ok v" and "commitTS v \<noteq> lockVer"
  shows "valueDecoder_Decode E k (It (write_entry E k v # es)) = (Inr (Some v), It es)"
  using assms by (simp add: valueDecoder_Decode_def write_entry_def)

lemma valueDecoder_past [simp]:
  assumes "past k rest"
  shows "valueDecoder_Decode E k (It rest) = (Inr None, It rest)"
  using assms by (auto simp: valueDecoder_Decode_def past_def split: list.splits)

end

section \<open>Batches as abstract updates\<close>

datatype aop = SetLock bytes mvsr_oocLock | DelLock bytes | SetWrite bytes mvsr_oocValue | DelWrite bytes u64

fun enc_aop :: "('db, 'dd) env \<Rightarrow> aop \<Rightarrow> batch_op" where
  "enc_aop E (SetLock k l) = Put (mvsr_oocEncode E k lockVer) (Lock_MarshalBinary E l)"
| "enc_aop E (DelLock k) = Delete (mvsr_oocEncode E k lockVer)"
| "enc_aop E (SetWrite k v) = Put (mvsr_oocEncode E k (commitTS v)) (Value_MarshalBinary v)"
| "enc_aop E (DelWrite k ts) = Delete (mvsr_oocEncode E k ts)"

fun aop_ok :: "aop \<Rightarrow> bool" where
  "aop_ok (SetLock k l) = lock_ok l"
| "aop_ok (DelLock k) = True"
| "aop_ok (SetWrite k v) = (value_ok v \<and> commitTS v \<noteq> lockVer)"
| "aop_ok (DelWrite k ts) = (ts \<noteq> lockVer)"

fun put_version :: "mvsr_oocValue \<Rightarrow> mvsr_oocValue list \<Rightarrow> mvsr_oocValue list" where
  "put_version v [] = [v]"
| "put_version v (w # ws) =
     (if commitTS w < commitTS v then v # w # ws
      else if commitTS w = commitTS v then v # ws else w # put_version v ws)"

definition del_version :: "u64 \<Rightarrow> mvsr_oocValue list \<Rightarrow> mvsr_oocValue list" where
  "del_version ts vs = filter (\<lambda>w. commitTS w \<noteq> ts) vs"

fun a_apply :: "aop \<Rightarrow> astate \<Rightarrow> astate" where
  "a_apply (SetLock k l) a = a\<lparr>a_lock := (a_lock a)(k \<mapsto> l)\<rparr>"
| "a_apply (DelLock k) a = a\<lparr>a_lock := (a_lock a)(k := None)\<rparr>"
| "a_apply (SetWrite k v) a = a\<lparr>a_writes := (a_writes a)(k := put_version v (a_writes a k))\<rparr>"
| "a_apply (DelWrite k ts) a = a\<lparr>a_writes := (a_writes a)(k := del_version ts (a_writes a k))\<rparr>"

definition a_run :: "aop list \<Rightarrow> astate \<Rightarrow> astate" where
  "a_run ops a = fold a_apply ops a"

lemma a_run_simps [simp]: "a_run [] a = a" "a_run (op # ops) a = a_run ops (a_apply op a)"
  by (simp_all add: a_run_def)

lemma set_put_version:
  assumes "newest_first ws"
  shows "set (put_version v ws) = insert v {w \<in> set ws. commitTS w \<noteq> commitTS v}"
  using assms
proof (induction ws)
  case (Cons w ws)
  then show ?case
    by (cases rule: linorder_cases [of "commitTS w" "commitTS v"]) (auto dest: order.strict_trans)
qed simp

lemma newest_first_put_version: "newest_first ws \<Longrightarrow> newest_first (put_version v ws)"
proof (induction ws)
  case (Cons w ws)
  then show ?case
    by (cases rule: linorder_cases [of "commitTS w" "commitTS v"]) (auto simp: set_put_version dest: order.strict_trans)
qed simp

lemma newest_first_filter: "newest_first ws \<Longrightarrow> newest_first (filter P ws)"
  by (simp add: newest_first_def sorted_wrt_filter)

lemma put_version_ne [simp]: "put_version v ws \<noteq> []"
  by (cases ws) auto

lemma wf_a_apply:
  assumes "wf_astate a" and "aop_ok op"
  shows "wf_astate (a_apply op a)"
proof -
  have "a_keys (a_apply op a) \<subseteq> insert (case op of SetLock k _ \<Rightarrow> k | DelLock k \<Rightarrow> k | SetWrite k _ \<Rightarrow> k | DelWrite k _ \<Rightarrow> k) (a_keys a)"
    by (cases op) (auto simp: a_keys_def split: if_splits)
  then have "finite (a_keys (a_apply op a))"
    using wf_astateD(1) [OF assms(1)] by (auto intro: finite_subset)
  then show ?thesis
    using assms by (cases op) (auto simp: wf_astate_def set_put_version newest_first_put_version
        del_version_def newest_first_filter split: if_splits)
qed

context codec
begin

lemma key_run_mem:
  "(mvsr_oocEncode E k ts, b) \<in> set (key_run E a k') \<longleftrightarrow> k' = k \<and>
     ((ts = lockVer \<and> (\<exists>l. a_lock a k = Some l \<and> b = Lock_MarshalBinary E l)) \<or>
      (\<exists>v\<in>set (a_writes a k). commitTS v = ts \<and> b = Value_MarshalBinary v))"
  by (cases "a_lock a k'") (auto simp: key_run_def lock_entry_def write_entry_def)

lemma abs_map_iff:
  "abs_map E m a \<longleftrightarrow> wf_astate a \<and> (\<forall>ek. (\<nexists>k ts. ek = mvsr_oocEncode E k ts) \<longrightarrow> m ek = None) \<and>
     (\<forall>k ts b. m (mvsr_oocEncode E k ts) = Some b \<longleftrightarrow>
       (ts = lockVer \<and> (\<exists>l. a_lock a k = Some l \<and> b = Lock_MarshalBinary E l)) \<or>
       (\<exists>v\<in>set (a_writes a k). commitTS v = ts \<and> b = Value_MarshalBinary v))"
  (is "?L \<longleftrightarrow> ?R")
proof
  assume L: ?L
  have "m ek = None" if "\<nexists>k ts. ek = mvsr_oocEncode E k ts" for ek
    using L that unfolding abs_map_def by (metis key_run_key not_None_eq)
  then show ?R
    using L unfolding abs_map_def by (simp add: key_run_mem)
next
  assume R: ?R
  have "m ek = Some b \<longleftrightarrow> (\<exists>k. (ek, b) \<in> set (key_run E a k))" for ek b
  proof (cases "\<exists>k ts. ek = mvsr_oocEncode E k ts")
    case True
    then show ?thesis
      using R by (auto simp: key_run_mem)
  next
    case False
    then show ?thesis
      using R key_run_key [of ek b a] by auto
  qed
  then show ?L
    using R by (simp add: abs_map_def)
qed

lemma abs_map_apply:
  assumes "abs_map E m a" and "aop_ok op"
  shows "abs_map E (apply_batch_op (enc_aop E op) m) (a_apply op a)"
proof -
  note a = assms(1) [unfolded abs_map_iff]
  have wf: "wf_astate a"
    using a by blast
  have nolock: "v \<in> set (a_writes a k) \<Longrightarrow> commitTS v \<noteq> lockVer" for v k
    using wf_astateD(5) [OF wf] .
  have nf: "newest_first (a_writes a k)" for k
    using wf_astateD(3) [OF wf] .
  show ?thesis
    unfolding abs_map_iff
  proof (intro conjI)
    show "wf_astate (a_apply op a)"
      using wf assms(2) by (rule wf_a_apply)
    show "\<forall>ek. (\<nexists>k ts. ek = mvsr_oocEncode E k ts) \<longrightarrow> apply_batch_op (enc_aop E op) m ek = None"
      using a by (cases op) auto
    show "\<forall>k ts b. apply_batch_op (enc_aop E op) m (mvsr_oocEncode E k ts) = Some b \<longleftrightarrow>
       (ts = lockVer \<and> (\<exists>l. a_lock (a_apply op a) k = Some l \<and> b = Lock_MarshalBinary E l)) \<or>
       (\<exists>v\<in>set (a_writes (a_apply op a) k). commitTS v = ts \<and> b = Value_MarshalBinary v)"
      using a assms(2) nolock
      by (cases op) (auto simp: set_put_version nf del_version_def)
  qed
qed

lemma abs_map_run:
  assumes "abs_map E m a" and "\<forall>op\<in>set ops. aop_ok op"
  shows "abs_map E (apply_batch (map (enc_aop E) ops) m) (a_run ops a)"
  using assms by (induction ops arbitrary: m a) (auto simp: apply_batch_def abs_map_apply)

end

context store_env
begin

lemma write_batch_refines:
  assumes "abs_rel E (EDB s) a" and "\<forall>op\<in>set ops. aop_ok op"
  obtains db' where "write_batch E s (map (enc_aop E) ops) = (None, s\<lparr>EDB := db'\<rparr>)" and "abs_rel E db' (a_run ops a)"
proof -
  obtain db' where w: "ldb_Write E (EDB s) (map (enc_aop E) ops) = Inr db'"
    using write_ok by blast
  have "abs_rel E db' (a_run ops a)"
    using abs_map_run [OF assms(1) [unfolded abs_rel_def] assms(2)] write_get [OF w] by (simp add: abs_rel_def)
  then show ?thesis
    using w that by (simp add: write_batch_def)
qed

end

end
