(* ===== verification/Mvcc_Spec.thy ===== *)
theory Mvcc_Spec
  imports Mvcc_View
begin

text \<open>
  What the store's operations promise, over the abstract state: which version a reader sees, which
  conflict a writer meets, which locks and versions an operation adds or removes. Each specification
  is followed by the lemma that the operation of \<open>Leveldb_Store\<close> refines it.
\<close>

section \<open>Reading\<close>

definition data_version :: "mvsr_oocValue \<Rightarrow> bool" where
  "data_version v = (valueType v \<noteq> typeRollback \<and> valueType v \<noteq> typeLock)"

definition visible :: "u64 \<Rightarrow> mvsr_oocValue list \<Rightarrow> mvsr_oocValue option" where
  "visible ts vs = find (\<lambda>v. data_version v \<and> commitTS v \<le> ts) vs"

definition a_read :: "u64 \<Rightarrow> mvsr_oocValue list \<Rightarrow> bytes option" where
  "a_read ts vs = (case visible ts vs of
      None \<Rightarrow> None
    | Some v \<Rightarrow> if valueType v = typeDelete then None else Some (v_value v))"

definition a_get :: "('db, 'dd) env \<Rightarrow> astate \<Rightarrow> bytes \<Rightarrow> u64 \<Rightarrow> IsolationLevel \<Rightarrow> u64 list \<Rightarrow> err + bytes option" where
  "a_get E a k ts lv rl =
     (case (case a_lock a k of
              Some l \<Rightarrow> (if lv = IsolationLevel_SI then lock_check E l ts k rl else Inr ts)
            | None \<Rightarrow> Inr ts) of
        Inl e \<Rightarrow> Inl e
      | Inr ts' \<Rightarrow> Inr (a_read ts' (a_writes a k)))"

text \<open>The visible version is the newest data version committed at or before the timestamp.\<close>

lemma visible_Some_iff:
  assumes "newest_first vs"
  shows "visible ts vs = Some v \<longleftrightarrow>
    v \<in> set vs \<and> data_version v \<and> commitTS v \<le> ts \<and>
    (\<forall>w\<in>set vs. data_version w \<and> commitTS w \<le> ts \<longrightarrow> commitTS w \<le> commitTS v)"
  using assms
proof (induction vs)
  case Nil
  then show ?case by (simp add: visible_def)
next
  case (Cons w ws)
  show ?case
  proof (cases "data_version w \<and> commitTS w \<le> ts")
    case True
    then have "visible ts (w # ws) = Some w"
      by (simp add: visible_def)
    moreover have "v = w" if "v \<in> set ws" "commitTS w \<le> commitTS v"
      using that Cons.prems by auto
    moreover have "commitTS u \<le> commitTS w" if "u \<in> set ws" for u
      using that Cons.prems by (auto intro: less_imp_le)
    ultimately show ?thesis
      using True by auto
  next
    case False
    then have "visible ts (w # ws) = visible ts ws"
      by (auto simp: visible_def)
    then show ?thesis
      using Cons False by auto
  qed
qed

lemma visible_None_iff: "visible ts vs = None \<longleftrightarrow> (\<forall>v\<in>set vs. data_version v \<longrightarrow> ts < commitTS v)"
  by (auto simp: visible_def find_None_iff not_le)

lemma a_read_Cons:
  "a_read ts (v # vs) =
     (if data_version v \<and> commitTS v \<le> ts then (if valueType v = typeDelete then None else Some (v_value v))
      else a_read ts vs)"
  by (simp add: a_read_def visible_def)

lemma a_read_Nil [simp]: "a_read ts [] = None"
  by (simp add: a_read_def visible_def)

section \<open>Conflicts\<close>

fun a_conflict_loop :: "mutation \<Rightarrow> u64 \<Rightarrow> bool \<Rightarrow> bool \<Rightarrow> bool \<Rightarrow> bytes option \<Rightarrow> mvsr_oocValue list \<Rightarrow> err + bytes option" where
  "a_conflict_loop m start needA needG needR ret [] = Inr ret"
| "a_conflict_loop m start needA needG needR ret (v # vs) =
     (if needR \<and> valueType v = typeRollback \<and> commitTS v = start then Inl (ErrAlreadyRollbacked start (m_Key m))
      else if needA \<and> (valueType v = typePut \<or> valueType v = typeLock) \<and> m_Op m = Op_PessimisticLock
      then Inl (ErrKeyAlreadyExist (m_Key m))
      else (let needR' = (needR \<and> \<not> commitTS v < start);
                needA' = (needA \<and> valueType v \<noteq> typeDelete);
                got = (needG \<and> (valueType v = typeDelete \<or> valueType v = typePut));
                ret' = (if got then Some (v_value v) else ret)
            in if \<not> needA' \<and> \<not> (needG \<and> \<not> got) \<and> \<not> needR' then Inr ret'
               else a_conflict_loop m start needA' (needG \<and> \<not> got) needR' ret' vs))"

definition a_checkConflict :: "mutation \<Rightarrow> u64 \<Rightarrow> u64 \<Rightarrow> bool \<Rightarrow> mvsr_oocValue list \<Rightarrow> err + bytes option" where
  "a_checkConflict m forTS start getVal vs =
     (case vs of
        [] \<Rightarrow> Inr None
      | v # _ \<Rightarrow>
          (if commitTS v > forTS then Inl (ErrConflict forTS (v_startTS v) (commitTS v) (m_Key m))
           else (case a_conflict_loop m start (m_Assertion m = Assertion_NotExist) getVal True None vs of
                Inl e \<Rightarrow> Inl e
              | Inr ret \<Rightarrow> Inr (if getVal then ret else None))))"

definition rolled_back :: "u64 \<Rightarrow> mvsr_oocValue list \<Rightarrow> bool" where
  "rolled_back start vs = (\<exists>v\<in>set vs. valueType v = typeRollback \<and> commitTS v = start)"

text \<open>
  For a mutation that is not a pessimistic lock, the check fails exactly on a newer version or on the
  transaction's own rollback record.
\<close>

lemma a_conflict_loop_prewrite:
  assumes "m_Op m \<noteq> Op_PessimisticLock" and "newest_first vs"
  shows "a_conflict_loop m start needA False needR None vs =
     (if needR \<and> rolled_back start vs then Inl (ErrAlreadyRollbacked start (m_Key m)) else Inr None)"
  using assms(2)
proof (induction vs arbitrary: needA needR)
  case Nil
  then show ?case by (simp add: rolled_back_def)
next
  case (Cons v vs)
  have "\<not> rolled_back start (v # vs)" if "commitTS v < start"
    using that Cons.prems by (auto simp: rolled_back_def)
  then show ?case
    using assms(1) Cons by (auto simp: rolled_back_def Let_def)
qed

lemma a_checkConflict_prewrite:
  assumes "m_Op m \<noteq> Op_PessimisticLock" and "newest_first vs"
  shows "a_checkConflict m start start False vs =
     (if \<exists>v\<in>set vs. commitTS v > start
      then Inl (ErrConflict start (v_startTS (hd vs)) (commitTS (hd vs)) (m_Key m))
      else if rolled_back start vs then Inl (ErrAlreadyRollbacked start (m_Key m)) else Inr None)"
proof (cases vs)
  case Nil
  then show ?thesis by (simp add: a_checkConflict_def rolled_back_def)
next
  case (Cons v ws)
  then have "(\<exists>w\<in>set vs. commitTS w > start) \<longleftrightarrow> commitTS v > start"
    using assms(2) by (auto dest: order.strict_trans)
  then show ?thesis
    using Cons a_conflict_loop_prewrite [OF assms, of start "m_Assertion m = Assertion_NotExist" True]
    by (simp add: a_checkConflict_def del: a_conflict_loop.simps)
qed

section \<open>Locking\<close>

definition prewrite_lock :: "mutation \<Rightarrow> u64 \<Rightarrow> bytes \<Rightarrow> u64 \<Rightarrow> u64 \<Rightarrow> u64 \<Rightarrow> mvsr_oocLock" where
  "prewrite_lock m start prim ttl0 txnSize0 minCommit =
     \<lparr>startTS = start, primary = prim, l_value = m_Value m, l_op = (if m_Op m = Op_Insert then Op_Put else m_Op m),
      ttl = ttl0, forUFIDelateTS = 0, txnSize = txnSize0, minCommitTS = (if prim = m_Key m then minCommit else 0)\<rparr>"

definition a_prewrite :: "('db, 'dd) env \<Rightarrow> astate \<Rightarrow> mutation \<Rightarrow> u64 \<Rightarrow> bytes \<Rightarrow> u64 \<Rightarrow> u64 \<Rightarrow> bool \<Rightarrow> u64 \<Rightarrow> err + aop list" where
  "a_prewrite E a m start prim ttl0 txnSize0 pess minCommit =
     (case a_lock a (m_Key m) of
        Some l \<Rightarrow>
          (if startTS l \<noteq> start then Inl (lockErr E (if pess then l\<lparr>ttl := 0\<rparr> else l) (m_Key m))
           else if l_op l \<noteq> Op_PessimisticLock then Inr []
           else Inr [SetLock (m_Key m) (prewrite_lock m start prim (max ttl0 (ttl l)) txnSize0 (max minCommit (minCommitTS l)))])
      | None \<Rightarrow>
          (if pess then Inl (ErrAbort ''pessimistic dagger not found'')
           else (case a_checkConflict m start start False (a_writes a (m_Key m)) of
                Inl e \<Rightarrow> Inl e
              | Inr _ \<Rightarrow> Inr [SetLock (m_Key m) (prewrite_lock m start prim ttl0 txnSize0 minCommit)])))"

section \<open>Ending a transaction on a key\<close>

definition commit_version :: "mvsr_oocLock \<Rightarrow> u64 \<Rightarrow> u64 \<Rightarrow> mvsr_oocValue" where
  "commit_version l start commit =
     \<lparr>valueType = (if l_op l = Op_Put then typePut else if l_op l = Op_Lock then typeLock else typeDelete),
      v_startTS = start, commitTS = commit, v_value = l_value l\<rparr>"

definition a_commitLock :: "bytes \<Rightarrow> mvsr_oocLock \<Rightarrow> u64 \<Rightarrow> u64 \<Rightarrow> aop list" where
  "a_commitLock k l start commit = [SetWrite k (commit_version l start commit), DelLock k]"

definition a_rollbackLock :: "bytes \<Rightarrow> u64 \<Rightarrow> aop list" where
  "a_rollbackLock k start = [SetWrite k (rollback_value start), DelLock k]"

definition commit_info :: "u64 \<Rightarrow> mvsr_oocValue list \<Rightarrow> mvsr_oocValue option" where
  "commit_info start vs = find (\<lambda>v. v_startTS v = start) vs"

definition locked_by :: "astate \<Rightarrow> bytes \<Rightarrow> u64 \<Rightarrow> mvsr_oocLock option" where
  "locked_by a k start = (case a_lock a k of None \<Rightarrow> None | Some l \<Rightarrow> if startTS l = start then Some l else None)"

definition a_commitKey :: "astate \<Rightarrow> bytes \<Rightarrow> u64 \<Rightarrow> u64 \<Rightarrow> err + aop list" where
  "a_commitKey a k start commit =
     (case locked_by a k start of
        Some l \<Rightarrow>
          (if minCommitTS l > commit then Inl (ErrCommitTSExpired start commit k (minCommitTS l))
           else Inr (a_commitLock k l start commit))
      | None \<Rightarrow>
          (case commit_info start (a_writes a k) of
             Some c \<Rightarrow> (if valueType c \<noteq> typeRollback then Inr [] else Inl (ErrRetryable ''txn not found''))
           | None \<Rightarrow> Inl (ErrRetryable ''txn not found'')))"

definition a_rollbackKey :: "astate \<Rightarrow> bytes \<Rightarrow> u64 \<Rightarrow> err + aop list" where
  "a_rollbackKey a k start =
     (case locked_by a k start of
        Some l \<Rightarrow> Inr (a_rollbackLock k start)
      | None \<Rightarrow>
          (case commit_info start (a_writes a k) of
             Some c \<Rightarrow> (if valueType c \<noteq> typeRollback then Inl (ErrAlreadyCommitted (commitTS c)) else Inr [])
           | None \<Rightarrow> Inr [SetWrite k (rollback_value start)]))"

section \<open>Refinement\<close>

context store_env
begin

lemma getValue_loop_run:
  assumes "\<forall>v\<in>set vs. value_ok v \<and> commitTS v \<noteq> lockVer" and "past k rest"
  shows "\<exists>vs'. suffix vs' vs \<and> getValue_loop E k ts (It (map (write_entry E k) vs @ rest)) =
     (Inr (a_read ts vs), It (map (write_entry E k) vs' @ rest))"
  using assms(1)
proof (induction vs)
  case Nil
  then show ?case
    using assms(2) by (subst getValue_loop.simps) auto
next
  case (Cons v vs)
  then obtain vs' where IH: "suffix vs' vs"
    "getValue_loop E k ts (It (map (write_entry E k) vs @ rest)) = (Inr (a_read ts vs), It (map (write_entry E k) vs' @ rest))"
    by auto
  show ?case
  proof (cases "data_version v \<and> commitTS v \<le> ts")
    case True
    then show ?thesis
      using Cons.prems by (subst getValue_loop.simps) (auto simp: a_read_Cons data_version_def intro: suffix_ConsI)
  next
    case False
    then show ?thesis
      using Cons.prems IH by (subst getValue_loop.simps) (auto simp: a_read_Cons data_version_def intro: suffix_ConsI)
  qed
qed

lemma getValue_iter_run:
  assumes "wf_astate a" and "past k rest"
  shows "\<exists>vs'. suffix vs' (a_writes a k) \<and> getValue_iter E (It (key_run E a k @ rest)) k ts lv rl =
     (a_get E a k ts lv rl, It (map (write_entry E k) vs' @ rest))"
proof -
  have "\<forall>v\<in>set (a_writes a k). value_ok v \<and> commitTS v \<noteq> lockVer"
    using wf_astateD [OF assms(1)] by blast
  from getValue_loop_run [OF this assms(2)] show ?thesis
    using lockDecoder_run [OF assms]
    by (auto simp: getValue_iter_def a_get_def split: option.splits sum.splits)
qed

theorem db_getValue_refines:
  assumes "abs_rel E db a"
  shows "db_getValue E db k ts lv rl = a_get E a k ts lv rl"
proof -
  obtain rest where it: "newIterator E db (Some (mvsr_oocEncode E k lockVer)) None = It (key_run E a k @ rest)" "past k rest"
    using newIterator_key [OF assms] .
  then show ?thesis
    using getValue_iter_run [OF abs_rel_wf [OF assms] it(2), of ts lv rl] by (auto simp: db_getValue_def)
qed

lemma getTxnCommitInfo_run:
  assumes "\<forall>v\<in>set vs. value_ok v \<and> commitTS v \<noteq> lockVer" and "past k rest"
  shows "getTxnCommitInfo E (It (map (write_entry E k) vs @ rest)) k start = Inr (commit_info start vs)"
  using assms(1)
proof (induction vs)
  case Nil
  then show ?case
    using assms(2) by (subst getTxnCommitInfo.simps) (simp add: commit_info_def)
next
  case (Cons v vs)
  then show ?case
    by (subst getTxnCommitInfo.simps) (simp add: commit_info_def)
qed

lemma conflict_loop_run:
  assumes "\<forall>v\<in>set vs. value_ok v \<and> commitTS v \<noteq> lockVer" and "past (m_Key m) rest"
  shows "conflict_loop E m start needA needG needR ret v (It (map (write_entry E (m_Key m)) vs @ rest)) =
     a_conflict_loop m start needA needG needR ret (v # vs)"
  using assms(1)
proof (induction vs arbitrary: v needA needG needR ret)
  case Nil
  then show ?case
    using assms(2) by (subst conflict_loop.simps) (auto simp: Let_def)
next
  case (Cons w vs)
  have step: "valueDecoder_Decode E (m_Key m) (It (map (write_entry E (m_Key m)) (w # vs) @ rest)) =
      (Inr (Some w), It (map (write_entry E (m_Key m)) vs @ rest))"
    using Cons.prems by simp
  have IH: "conflict_loop E m start nA nG nR rv w (It (map (write_entry E (m_Key m)) vs @ rest)) =
      a_conflict_loop m start nA nG nR rv (w # vs)" for nA nG nR rv
    using Cons by simp
  show ?case
    unfolding a_conflict_loop.simps(2) [of m start needA needG needR ret v] conflict_loop.simps [of E m start needA needG needR ret v]
    by (simp only: Let_def step IH prod.case sum.case option.case)
qed

lemma checkConflictValue_run:
  assumes "\<forall>v\<in>set vs. value_ok v \<and> commitTS v \<noteq> lockVer" and "past (m_Key m) rest"
  shows "checkConflictValue E (It (map (write_entry E (m_Key m)) vs @ rest)) m forTS start getVal =
     a_checkConflict m forTS start getVal vs"
  using assms by (cases vs) (simp_all add: checkConflictValue_def a_checkConflict_def conflict_loop_run)

end

end
