(* ===== verification/Mvcc_Refine.thy ===== *)
theory Mvcc_Refine
  imports Mvcc_Spec
begin

text \<open>
  The writing operations of the store refine their specifications: on an engine state related to an
  abstract state each returns the specified error or value, and the state it leaves is related to
  the specified abstract state.
\<close>

section \<open>Specifications of whole requests\<close>

text \<open>Collect the updates of a list of requests, stopping at the first error.\<close>

fun a_collect :: "('x \<Rightarrow> err + aop list) \<Rightarrow> 'x list \<Rightarrow> err + aop list" where
  "a_collect f [] = Inr []"
| "a_collect f (x # xs) =
     (case f x of
        Inl e \<Rightarrow> Inl e
      | Inr ops \<Rightarrow> (case a_collect f xs of Inl e \<Rightarrow> Inl e | Inr ops' \<Rightarrow> Inr (ops @ ops')))"

definition a_commit :: "astate \<Rightarrow> bytes list \<Rightarrow> u64 \<Rightarrow> u64 \<Rightarrow> err option \<times> astate" where
  "a_commit a ks start commit =
     (case a_collect (\<lambda>k. a_commitKey a k start commit) ks of Inl e \<Rightarrow> (Some e, a) | Inr ops \<Rightarrow> (None, a_run ops a))"

definition a_rollback :: "astate \<Rightarrow> bytes list \<Rightarrow> u64 \<Rightarrow> err option \<times> astate" where
  "a_rollback a ks start =
     (case a_collect (\<lambda>k. a_rollbackKey a k start) ks of Inl e \<Rightarrow> (Some e, a) | Inr ops \<Rightarrow> (None, a_run ops a))"

text \<open>What \<open>Prewrite\<close> does for one mutation; \<open>Inr None\<close> is a check that leaves no entry in the result.\<close>

definition a_prewrite_check :: "('db, 'dd) env \<Rightarrow> astate \<Rightarrow> PrewriteRequest \<Rightarrow> mutation \<Rightarrow> err option" where
  "a_prewrite_check E a req m =
     (if (m_Op m = Op_Insert \<or> m_Op m = Op_CheckNotExists) \<and> pw_ForUFIDelateTs req = 0
      then (case a_get E a (m_Key m) (pw_StartVersion req) IsolationLevel_SI (pw_ResolvedLocks req) of
              Inl e \<Rightarrow> Some e
            | Inr (Some _) \<Rightarrow> Some (ErrKeyAlreadyExist (m_Key m))
            | Inr None \<Rightarrow> None)
      else None)"

definition is_pess :: "PrewriteRequest \<Rightarrow> nat \<Rightarrow> bool" where
  "is_pess req i = (pw_IsPessimisticLock req \<noteq> [] \<and> pw_IsPessimisticLock req ! i)"

definition a_prewrite1 :: "('db, 'dd) env \<Rightarrow> astate \<Rightarrow> PrewriteRequest \<Rightarrow> nat \<times> mutation \<Rightarrow> err + aop list option" where
  "a_prewrite1 E a req im =
     (case a_prewrite_check E a req (snd im) of
        Some e \<Rightarrow> Inl e
      | None \<Rightarrow>
          (if m_Op (snd im) = Op_CheckNotExists then Inr None
           else map_sum id Some (a_prewrite E a (snd im) (pw_StartVersion req) (pw_PrimaryLock req) (pw_LockTtl req)
                  (pw_TxnSize req) (is_pess req (fst im)) (pw_MinCommitTs req))))"

fun entry_of :: "err + aop list option \<Rightarrow> err option list" where
  "entry_of (Inl e) = [Some e]"
| "entry_of (Inr None) = []"
| "entry_of (Inr (Some ops)) = [None]"

fun ops_of :: "err + aop list option \<Rightarrow> aop list" where
  "ops_of (Inl e) = []"
| "ops_of (Inr None) = []"
| "ops_of (Inr (Some ops)) = ops"

definition a_prewrites :: "('db, 'dd) env \<Rightarrow> astate \<Rightarrow> PrewriteRequest \<Rightarrow> (err + aop list option) list" where
  "a_prewrites E a req = map (a_prewrite1 E a req) (enumerate 0 (pw_Mutations req))"

definition a_Prewrite :: "('db, 'dd) env \<Rightarrow> astate \<Rightarrow> PrewriteRequest \<Rightarrow> err option list \<times> astate" where
  "a_Prewrite E a req =
     (let rs = a_prewrites E a req
      in (concat (map entry_of rs), if \<forall>r\<in>set rs. \<not> isl r then a_run (concat (map ops_of rs)) a else a))"

definition ttl_expired :: "('db, 'dd) env \<Rightarrow> mvsr_oocLock \<Rightarrow> u64 \<Rightarrow> bool" where
  "ttl_expired E l currentTS = (ExtractPhysical E (startTS l) + ttl l < ExtractPhysical E currentTS)"

definition a_cleanup :: "('db, 'dd) env \<Rightarrow> astate \<Rightarrow> bytes \<Rightarrow> u64 \<Rightarrow> u64 \<Rightarrow> err option \<times> aop list" where
  "a_cleanup E a k start currentTS =
     (case locked_by a k start of
        Some l \<Rightarrow>
          (if currentTS = 0 \<or> ttl_expired E l currentTS then (None, a_rollbackLock k start) else (Some (lockErr E l k), []))
      | None \<Rightarrow>
          (case commit_info start (a_writes a k) of
             Some c \<Rightarrow> (if valueType c \<noteq> typeRollback then (Some (ErrAlreadyCommitted (commitTS c)), []) else (None, []))
           | None \<Rightarrow> (None, [])))"

definition pushed_min :: "u64 \<Rightarrow> u64 \<Rightarrow> u64" where
  "pushed_min callerStartTS currentTS = max (callerStartTS + 1) currentTS"

definition a_status :: "('db, 'dd) env \<Rightarrow> astate \<Rightarrow> bytes \<Rightarrow> u64 \<Rightarrow> u64 \<Rightarrow> u64 \<Rightarrow> bool \<Rightarrow> txn_status \<times> aop list" where
  "a_status E a k lockTS callerStartTS currentTS rollbackIfNotExist =
     (let res = (\<lambda>t c act e. \<lparr>ts_ttl = t, ts_commitTS = c, ts_action = act, ts_err = e\<rparr>)
      in (case locked_by a k lockTS of
            Some l \<Rightarrow>
              (if ttl_expired E l currentTS then (res 0 0 CausetAction_TTLExpireRollback None, a_rollbackLock k lockTS)
               else if callerStartTS = -1 then (res (ttl l) 0 CausetAction_MinCommitTSPushed None, [])
               else if minCommitTS l > 0
               then (res (ttl l) 0 CausetAction_MinCommitTSPushed None,
                     if minCommitTS l < callerStartTS + 1
                     then [SetLock k (l\<lparr>minCommitTS := pushed_min callerStartTS currentTS\<rparr>)] else [])
               else (res (ttl l) 0 CausetAction_NoCausetAction None, []))
          | None \<Rightarrow>
              (case commit_info lockTS (a_writes a k) of
                 Some c \<Rightarrow> (res 0 (if valueType c \<noteq> typeRollback then commitTS c else 0) CausetAction_NoCausetAction None, [])
               | None \<Rightarrow>
                   (if rollbackIfNotExist
                    then (res 0 0 CausetAction_LockNotExistRollback None, [SetWrite k (rollback_value lockTS)])
                    else (res 0 0 CausetAction_NoCausetAction (Some (ErrTxnNotFound lockTS k)), [])))))"

definition a_heartbeat :: "astate \<Rightarrow> bytes \<Rightarrow> u64 \<Rightarrow> u64 \<Rightarrow> (err + u64) \<times> aop list" where
  "a_heartbeat a k start adviseTTL =
     (case locked_by a k start of
        None \<Rightarrow> (Inl (Err_New ''dagger doesn't exist''), [])
      | Some l \<Rightarrow>
          (if primary l \<noteq> k
           then (Inl (Err_New ''txnHeartBeat on non-primary key, the code should not run here''), [])
           else (Inr (max adviseTTL (ttl l)), if adviseTTL > ttl l then [SetLock k (l\<lparr>ttl := adviseTTL\<rparr>)] else [])))"

definition a_pessimisticRollbackKey :: "astate \<Rightarrow> u64 \<Rightarrow> u64 \<Rightarrow> bytes \<Rightarrow> aop list" where
  "a_pessimisticRollbackKey a start forTS k =
     (case locked_by a k start of
        Some l \<Rightarrow> (if l_op l = Op_PessimisticLock \<and> forUFIDelateTS l \<le> forTS then [DelLock k] else [])
      | None \<Rightarrow> [])"

definition pessimistic_lock :: "lockCtx \<Rightarrow> mvsr_oocLock" where
  "pessimistic_lock lctx =
     \<lparr>startTS = lc_startTS lctx, primary = lc_primary lctx, l_value = [], l_op = Op_PessimisticLock, ttl = lc_ttl lctx,
      forUFIDelateTS = lc_forUFIDelateTS lctx, txnSize = 0, minCommitTS = lc_minCommitTs lctx\<rparr>"

text \<open>A pessimistic lock on one key: the error, the updates, the values read and the detector's new state.\<close>

definition a_pessimisticLock ::
  "('db, 'dd) env \<Rightarrow> astate \<Rightarrow> 'dd \<Rightarrow> mutation \<Rightarrow> lockCtx \<Rightarrow> err option \<times> aop list \<times> bytes option list \<times> 'dd" where
  "a_pessimisticLock E a dd m lctx =
     (case a_lock a (m_Key m) of
        Some l \<Rightarrow>
          (if startTS l \<noteq> lc_startTS lctx
           then (case Detect E dd (lc_startTS lctx) (startTS l) (Fingerprint64 E (m_Key m)) of
                   (Some h, dd') \<Rightarrow> (Some (ErrDeadlock (startTS l) (m_Key m) h), [], [], dd')
                 | (None, dd') \<Rightarrow> (Some (lockErr E l (m_Key m)), [], [], dd'))
           else (None, [], [], dd))
      | None \<Rightarrow>
          (case a_checkConflict m (lc_forUFIDelateTS lctx) (lc_startTS lctx) True (a_writes a (m_Key m)) of
             Inl e \<Rightarrow> (Some e, [], [], dd)
           | Inr val \<Rightarrow> (None, [SetLock (m_Key m) (pessimistic_lock lctx)], if lc_returnValues lctx then [val] else [], dd)))"

fun a_pessimisticLocks ::
  "('db, 'dd) env \<Rightarrow> int \<Rightarrow> astate \<Rightarrow> 'dd \<Rightarrow> mutation list \<Rightarrow> lockCtx \<Rightarrow> err option list \<times> aop list \<times> bytes option list \<times> 'dd" where
  "a_pessimisticLocks E wait a dd [] lctx = ([], [], [], dd)"
| "a_pessimisticLocks E wait a dd (m # ms) lctx =
     (case a_pessimisticLock E a dd m lctx of
        (er, ops, vals, dd') \<Rightarrow>
          (if wait = LockNoWait \<and> isErrLocked er then ([er], ops, vals, dd')
           else (case a_pessimisticLocks E wait a dd' ms lctx of
                (ers, ops', vals', dd'') \<Rightarrow> (er # ers, ops @ ops', vals @ vals', dd''))))"

section \<open>Well-formed requests\<close>

definition mutations_ok :: "mutation list \<Rightarrow> bool" where
  "mutations_ok ms = (\<forall>m\<in>set ms. slice_ok (m_Value m))"

text \<open>
  A prewrite request the store can carry out: its slices are within the limit of \<open>ReadSlice\<close>, and the
  flags of its pessimistic locks, where it has any, cover its mutations.
\<close>

definition prewrite_ok :: "PrewriteRequest \<Rightarrow> bool" where
  "prewrite_ok req = (mutations_ok (pw_Mutations req) \<and> slice_ok (pw_PrimaryLock req) \<and>
     (pw_IsPessimisticLock req = [] \<or> length (pw_Mutations req) \<le> length (pw_IsPessimisticLock req)))"

lemma a_collect_ops:
  assumes "a_collect f xs = Inr ops" and "\<And>x ops'. x \<in> set xs \<Longrightarrow> f x = Inr ops' \<Longrightarrow> \<forall>op\<in>set ops'. P op"
  shows "\<forall>op\<in>set ops. P op"
  using assms
proof (induction xs arbitrary: ops)
  case (Cons x xs)
  then show ?case
    by (fastforce split: sum.splits)
qed simp

lemma lock_ok_wf: "wf_astate a \<Longrightarrow> locked_by a k start = Some l \<Longrightarrow> lock_ok l \<and> startTS l = start \<and> a_lock a k = Some l"
  by (auto simp: locked_by_def dest: wf_astateD split: option.splits if_splits)

lemma commit_version_ok [simp]: "lock_ok l \<Longrightarrow> value_ok (commit_version l start commit)"
  by (auto simp: commit_version_def lock_ok_def value_ok_def)

lemma commit_version_ts [simp]: "commitTS (commit_version l start commit) = commit" "v_startTS (commit_version l start commit) = start"
  by (simp_all add: commit_version_def)

lemma rollback_value_ok [simp]: "value_ok (rollback_value start)"
  by (simp add: rollback_value_def)

lemma rollback_value_ts [simp]: "commitTS (rollback_value start) = start" "v_startTS (rollback_value start) = start"
  "valueType (rollback_value start) = typeRollback"
  by (simp_all add: rollback_value_def)

lemma a_commitKey_ok:
  assumes "wf_astate a" and "commit \<noteq> lockVer" and "a_commitKey a k start commit = Inr ops"
  shows "\<forall>op\<in>set ops. aop_ok op"
  using assms lock_ok_wf [OF assms(1), of k start]
  by (auto simp: a_commitKey_def a_commitLock_def split: option.splits if_splits)

lemma a_rollbackKey_ok:
  assumes "start \<noteq> lockVer" and "a_rollbackKey a k start = Inr ops"
  shows "\<forall>op\<in>set ops. aop_ok op"
  using assms by (auto simp: a_rollbackKey_def a_rollbackLock_def split: option.splits if_splits)

lemma a_prewrite_ok:
  assumes "slice_ok (m_Value m)" and "slice_ok prim" and "a_prewrite E a m start prim t z p c = Inr ops"
  shows "\<forall>op\<in>set ops. aop_ok op"
  using assms by (auto simp: a_prewrite_def prewrite_lock_def lock_ok_def split: option.splits if_splits sum.splits)

lemma a_prewrites_ok:
  assumes "prewrite_ok req"
  shows "\<forall>op\<in>set (concat (map ops_of (a_prewrites E a req))). aop_ok op"
proof -
  have "aop_ok op" if m: "im \<in> set (enumerate 0 (pw_Mutations req))" and op: "op \<in> set (ops_of (a_prewrite1 E a req im))" for im op
  proof -
    have "slice_ok (m_Value (snd im))"
      using m assms nth_mem [of "fst im" "pw_Mutations req"]
      by (auto simp: in_set_enumerate_eq prewrite_ok_def mutations_ok_def simp del: nth_mem)
    moreover have "slice_ok (pw_PrimaryLock req)"
      using assms by (simp add: prewrite_ok_def)
    ultimately show ?thesis
      using op by (auto simp: a_prewrite1_def map_sum_def dest!: a_prewrite_ok split: option.splits if_splits sum.splits)
  qed
  then show ?thesis
    by (auto simp: a_prewrites_def)
qed

section \<open>Refinement of the key operations\<close>

context store_env
begin

text \<open>The iterator of a key operation, and what the decoders read from it.\<close>

lemma key_iterator:
  assumes "abs_rel E db a"
  obtains it it' where "newIterator E db (Some (mvsr_oocEncode E k lockVer)) None = it"
    and "lockDecoder_Decode E k it = (Inr (a_lock a k), it')"
    and "\<And>start. getTxnCommitInfo E it' k start = Inr (commit_info start (a_writes a k))"
    and "\<And>m forTS start g. m_Key m = k \<Longrightarrow> checkConflictValue E it' m forTS start g = a_checkConflict m forTS start g (a_writes a k)"
    and "\<not> iter_Valid it \<Longrightarrow> a_lock a k = None \<and> a_writes a k = []"
proof -
  obtain rest where it: "newIterator E db (Some (mvsr_oocEncode E k lockVer)) None = It (key_run E a k @ rest)" "past k rest"
    using newIterator_key [OF assms] .
  have wf: "wf_astate a"
    using assms by (rule abs_rel_wf)
  then have ok: "\<forall>v\<in>set (a_writes a k). value_ok v \<and> commitTS v \<noteq> lockVer"
    using wf_astateD by blast
  show ?thesis
  proof (rule that [OF it(1) lockDecoder_run [OF wf it(2)]])
    show "getTxnCommitInfo E (It (map (write_entry E k) (a_writes a k) @ rest)) k start = Inr (commit_info start (a_writes a k))" for start
      using ok it(2) by (rule getTxnCommitInfo_run)
    show "checkConflictValue E (It (map (write_entry E k) (a_writes a k) @ rest)) m forTS start g =
        a_checkConflict m forTS start g (a_writes a k)" if "m_Key m = k" for m forTS start g
      using checkConflictValue_run ok it(2) that by blast
    show "a_lock a k = None \<and> a_writes a k = []" if "\<not> iter_Valid (It (key_run E a k @ rest))"
      using that key_run_Nil_iff [of E a k] by (simp add: a_keys_def)
  qed
qed

abbreviation enc :: "aop list \<Rightarrow> batch" where
  "enc \<equiv> map (enc_aop E)"

lemma commitLock_enc: "commitLock E batch l k start commit = batch @ enc (a_commitLock k l start commit)"
  by (simp add: commitLock_def a_commitLock_def commit_version_def Let_def)

lemma rollbackLock_enc: "rollbackLock E batch k start = batch @ enc (a_rollbackLock k start)"
  by (simp add: rollbackLock_def writeRollback_def a_rollbackLock_def)

lemma commitKey_refines:
  assumes "abs_rel E db a"
  shows "commitKey E db batch k start commit = map_sum id (\<lambda>ops. batch @ enc ops) (a_commitKey a k start commit)"
  by (rule key_iterator [OF assms, of k])
    (auto simp: commitKey_def a_commitKey_def locked_by_def commitLock_enc split: option.splits)

lemma rollbackKey_refines:
  assumes "abs_rel E db a"
  shows "rollbackKey E db batch k start = map_sum id (\<lambda>ops. batch @ enc ops) (a_rollbackKey a k start)"
proof -
  obtain it it' where it: "newIterator E db (Some (mvsr_oocEncode E k lockVer)) None = it"
    "lockDecoder_Decode E k it = (Inr (a_lock a k), it')"
    "getTxnCommitInfo E it' k start = Inr (commit_info start (a_writes a k))"
    "\<not> iter_Valid it \<Longrightarrow> a_lock a k = None \<and> a_writes a k = []"
    using key_iterator [OF assms] by metis
  then show ?thesis
    by (cases "iter_Valid it")
      (auto simp: rollbackKey_def a_rollbackKey_def locked_by_def rollbackLock_enc Let_def commit_info_def split: option.splits)
qed

lemma prewriteMutation_refines:
  assumes "abs_rel E db a"
  shows "prewriteMutation E db batch m start prim t z p c =
     map_sum id (\<lambda>ops. batch @ enc ops) (a_prewrite E a m start prim t z p c)"
  by (rule key_iterator [OF assms, of "m_Key m"])
    (auto simp: prewriteMutation_def a_prewrite_def prewrite_lock_def max_def not_less Let_def split: option.splits sum.splits)

lemma commit_loop_refines:
  assumes "abs_rel E db a"
  shows "commit_loop E db batch ks start commit =
     map_sum id (\<lambda>ops. batch @ enc ops) (a_collect (\<lambda>k. a_commitKey a k start commit) ks)"
  by (induction ks arbitrary: batch) (auto simp: commitKey_refines [OF assms] split: sum.splits)

lemma rollback_loop_refines:
  assumes "abs_rel E db a"
  shows "rollback_loop E db batch ks start =
     map_sum id (\<lambda>ops. batch @ enc ops) (a_collect (\<lambda>k. a_rollbackKey a k start) ks)"
  by (induction ks arbitrary: batch) (auto simp: rollbackKey_refines [OF assms] split: sum.splits)

lemma prewrite_loop_step:
  fixes m :: mutation
  assumes "abs_rel E db a" and "pw_IsPessimisticLock req = [] \<or> i < length (pw_IsPessimisticLock req)"
  defines "r \<equiv> a_prewrite1 E a req (i, m)"
  shows "prewrite_loop E db req i batch (m # ms) errs anyError =
     prewrite_loop E db req (Suc i) (batch @ enc (ops_of r)) ms (errs @ entry_of r) (anyError \<or> isl r)"
proof (cases "a_prewrite_check E a req m")
  case (Some e)
  then have "r = Inl e"
    by (simp add: r_def a_prewrite1_def)
  then show ?thesis
    using Some unfolding a_prewrite_check_def db_getValue_refines [OF assms(1), symmetric] by simp
next
  case None
  note chk = this [unfolded a_prewrite_check_def db_getValue_refines [OF assms(1), symmetric]]
  let ?p = "a_prewrite E a m (pw_StartVersion req) (pw_PrimaryLock req) (pw_LockTtl req) (pw_TxnSize req) (is_pess req i) (pw_MinCommitTs req)"
  show ?thesis
  proof (cases "m_Op m = Op_CheckNotExists")
    case True
    then have "r = Inr None"
      using None by (simp add: r_def a_prewrite1_def)
    then show ?thesis
      using chk True by simp
  next
    case False
    then have "r = map_sum id Some ?p"
      using None by (simp add: r_def a_prewrite1_def)
    moreover have "\<not> (0 < length (pw_IsPessimisticLock req) \<and> length (pw_IsPessimisticLock req) \<le> i)"
      using assms(2) by auto
    ultimately show ?thesis
      using chk False by (cases ?p) (auto simp: Let_def prewriteMutation_refines [OF assms(1)] is_pess_def)
  qed
qed

lemma prewrite_loop_refines:
  assumes "abs_rel E db a" and "pw_IsPessimisticLock req = [] \<or> i + length ms \<le> length (pw_IsPessimisticLock req)"
  defines "rs \<equiv> map (a_prewrite1 E a req) (enumerate i ms)"
  shows "prewrite_loop E db req i batch ms errs anyError =
     Some (errs @ concat (map entry_of rs), batch @ enc (concat (map ops_of rs)), anyError \<or> (\<exists>r\<in>set rs. isl r))"
  using assms(2) unfolding rs_def
proof (induction ms arbitrary: i batch errs anyError)
  case Nil
  then show ?case by simp
next
  case (Cons m ms)
  then have "pw_IsPessimisticLock req = [] \<or> i < length (pw_IsPessimisticLock req)"
    and "pw_IsPessimisticLock req = [] \<or> Suc i + length ms \<le> length (pw_IsPessimisticLock req)"
    by auto
  then show ?case
    using prewrite_loop_step [OF assms(1)] Cons.IH [of "Suc i"] by (simp del: prewrite_loop.simps(2))
qed

section \<open>Refinement of the requests\<close>

theorem Commit_refines:
  assumes "abs_rel E (EDB s) a" and "commit \<noteq> lockVer"
  obtains db' where "Commit E s ks start commit = (fst (a_commit a ks start commit), cleanUp_detector E start (s\<lparr>EDB := db'\<rparr>))"
    and "abs_rel E db' (snd (a_commit a ks start commit))"
proof (cases "a_collect (\<lambda>k. a_commitKey a k start commit) ks")
  case (Inl e)
  then show ?thesis
    using assms(1) that [of "EDB s"] by (simp add: Commit_def commit_loop_refines [OF assms(1)] a_commit_def)
next
  case (Inr ops)
  then have "\<forall>op\<in>set ops. aop_ok op"
    using a_commitKey_ok [OF abs_rel_wf [OF assms(1)] assms(2)] by (rule a_collect_ops)
  then obtain db' where "write_batch E s (enc ops) = (None, s\<lparr>EDB := db'\<rparr>)" "abs_rel E db' (a_run ops a)"
    using write_batch_refines [OF assms(1)] by metis
  then show ?thesis
    using Inr that [of db'] by (simp add: Commit_def commit_loop_refines [OF assms(1)] a_commit_def)
qed

theorem Rollback_refines:
  assumes "abs_rel E (EDB s) a" and "start \<noteq> lockVer"
  obtains db' where "Rollback E s ks start = (fst (a_rollback a ks start), cleanUp_detector E start (s\<lparr>EDB := db'\<rparr>))"
    and "abs_rel E db' (snd (a_rollback a ks start))"
proof (cases "a_collect (\<lambda>k. a_rollbackKey a k start) ks")
  case (Inl e)
  then show ?thesis
    using assms(1) that [of "EDB s"] by (simp add: Rollback_def rollback_loop_refines [OF assms(1)] a_rollback_def)
next
  case (Inr ops)
  then have "\<forall>op\<in>set ops. aop_ok op"
    using a_rollbackKey_ok [OF assms(2)] by (rule a_collect_ops)
  then obtain db' where "write_batch E s (enc ops) = (None, s\<lparr>EDB := db'\<rparr>)" "abs_rel E db' (a_run ops a)"
    using write_batch_refines [OF assms(1)] by metis
  then show ?thesis
    using Inr that [of db'] by (simp add: Rollback_def rollback_loop_refines [OF assms(1)] a_rollback_def)
qed

theorem Prewrite_refines:
  assumes "abs_rel E (EDB s) a" and "prewrite_ok req"
  obtains db' where "Prewrite E s req = Some (fst (a_Prewrite E a req), s\<lparr>EDB := db'\<rparr>)"
    and "abs_rel E db' (snd (a_Prewrite E a req))"
proof -
  let ?rs = "a_prewrites E a req"
  have "pw_IsPessimisticLock req = [] \<or> 0 + length (pw_Mutations req) \<le> length (pw_IsPessimisticLock req)"
    using assms(2) by (simp add: prewrite_ok_def)
  from prewrite_loop_refines [OF assms(1) this, of "[]" "[]" False]
  have loop: "prewrite_loop E (EDB s) req 0 [] (pw_Mutations req) [] False =
      Some (concat (map entry_of ?rs), enc (concat (map ops_of ?rs)), \<exists>r\<in>set ?rs. isl r)"
    by (simp add: a_prewrites_def)
  show ?thesis
  proof (cases "\<exists>r\<in>set ?rs. isl r")
    case True
    then have "a_Prewrite E a req = (concat (map entry_of ?rs), a)"
      by (auto simp: a_Prewrite_def Let_def)
    then show ?thesis
      using assms(1) True loop that [of "EDB s"] by (simp add: Prewrite_def)
  next
    case False
    then have "a_Prewrite E a req = (concat (map entry_of ?rs), a_run (concat (map ops_of ?rs)) a)"
      by (auto simp: a_Prewrite_def Let_def)
    moreover obtain db' where "write_batch E s (enc (concat (map ops_of ?rs))) = (None, s\<lparr>EDB := db'\<rparr>)"
      "abs_rel E db' (a_run (concat (map ops_of ?rs)) a)"
      using write_batch_refines [OF assms(1) a_prewrites_ok [OF assms(2)]] by metis
    ultimately show ?thesis
      using False loop that [of db'] by (auto simp: Prewrite_def write_batch_def split: sum.splits)
  qed
qed

text \<open>
  An operation that answers and writes at most one batch: \<open>emit\<close> writes the updates of its
  specification. The engine's writes succeed, so the answer is the specified one.
\<close>

definition emit :: "('db, 'dd) MVCCLevelDB \<Rightarrow> 'r \<times> aop list \<Rightarrow> 'r \<times> ('db, 'dd) MVCCLevelDB" where
  "emit s r = (fst r, if snd r = [] then s else snd (write_batch E s (enc (snd r))))"

lemma write_batch_ok [simp]: "fst (write_batch E s b) = None"
  using write_ok [of "EDB s" b] by (auto simp: write_batch_def)

lemma write_batch_case [simp]:
  "(case write_batch E s b of (None, s') \<Rightarrow> f s' | (Some e, s') \<Rightarrow> g e s') = f (snd (write_batch E s b))"
  using write_batch_ok [of s b] by (cases "write_batch E s b") auto

lemma emit_simps [simp]:
  "emit s (r, []) = (r, s)"
  "emit s (r, op # ops) = (r, snd (write_batch E s (enc (op # ops))))"
  by (simp_all add: emit_def)

lemma write_batch_pair: "write_batch E s b = (None, snd (write_batch E s b))"
  by (metis prod.collapse write_batch_ok)

lemma emit_refines:
  assumes "abs_rel E (EDB s) a" and "\<forall>op\<in>set (snd r). aop_ok op"
  obtains db' where "emit s r = (fst r, s\<lparr>EDB := db'\<rparr>)" and "abs_rel E db' (a_run (snd r) a)"
proof -
  obtain db' where "write_batch E s (enc (snd r)) = (None, s\<lparr>EDB := db'\<rparr>)" "abs_rel E db' (a_run (snd r) a)"
    using write_batch_refines [OF assms] .
  then show ?thesis
    using assms(1) that [of db'] that [of "EDB s"] by (cases "snd r") (auto simp: emit_def)
qed

text \<open>The three situations an operation on one key distinguishes.\<close>

lemma key_cases:
  assumes "abs_rel E db a"
  obtains (locked) it it' l where "newIterator E db (Some (mvsr_oocEncode E k lockVer)) None = it" and "iter_Valid it"
      and "lockDecoder_Decode E k it = (Inr (Some l), it')" and "startTS l = start" and "locked_by a k start = Some l"
  | (ended) it it' d c where "newIterator E db (Some (mvsr_oocEncode E k lockVer)) None = it" and "iter_Valid it"
      and "lockDecoder_Decode E k it = (Inr d, it')" and "\<And>l. d = Some l \<Longrightarrow> startTS l \<noteq> start"
      and "getTxnCommitInfo E it' k start = Inr (Some c)"
      and "locked_by a k start = None" and "commit_info start (a_writes a k) = Some c"
  | (unknown) it it' d where "newIterator E db (Some (mvsr_oocEncode E k lockVer)) None = it"
      and "lockDecoder_Decode E k it = (Inr d, it')" and "\<And>l. d = Some l \<Longrightarrow> startTS l \<noteq> start"
      and "getTxnCommitInfo E it' k start = Inr None"
      and "locked_by a k start = None" and "commit_info start (a_writes a k) = None"
proof -
  obtain it it' where it: "newIterator E db (Some (mvsr_oocEncode E k lockVer)) None = it"
    "lockDecoder_Decode E k it = (Inr (a_lock a k), it')"
    "getTxnCommitInfo E it' k start = Inr (commit_info start (a_writes a k))"
    "\<not> iter_Valid it \<Longrightarrow> a_lock a k = None \<and> a_writes a k = []"
    using key_iterator [OF assms(1)] by metis
  show ?thesis
  proof (cases "locked_by a k start")
    case (Some l)
    then have "a_lock a k = Some l" "startTS l = start"
      by (auto simp: locked_by_def split: option.splits if_splits)
    then show ?thesis
      using it locked Some by fastforce
  next
    case None
    then have d: "a_lock a k = Some l \<Longrightarrow> startTS l \<noteq> start" for l
      by (auto simp: locked_by_def)
    show ?thesis
    proof (cases "commit_info start (a_writes a k)")
      case (Some c)
      then have "iter_Valid it"
        using it(4) by (cases "iter_Valid it") (auto simp: commit_info_def)
      then show ?thesis
        using it None d Some ended by metis
    qed (use it None d unknown in metis)
  qed
qed

lemma Cleanup_eq:
  assumes "abs_rel E (EDB s) a"
  shows "Cleanup E s k start currentTS = apsnd (cleanUp_detector E start) (emit s (a_cleanup E a k start currentTS))"
proof (cases rule: key_cases [OF assms, of k start, case_names locked ended unknown])
  case (locked it it' l)
  obtain s' where "write_batch E s (enc (a_rollbackLock k start)) = (None, s')"
    using write_batch_pair by blast
  then show ?thesis
    using locked by (simp add: Cleanup_def a_cleanup_def Let_def ttl_expired_def rollbackLock_enc a_rollbackLock_def)
next
  case (ended it it' d c)
  then show ?thesis
    by (cases d) (simp_all add: Cleanup_def a_cleanup_def Let_def)
next
  case (unknown it it' d)
  then show ?thesis
    by (cases d) (simp_all add: Cleanup_def a_cleanup_def Let_def)
qed

lemma CheckTxnStatus_eq:
  assumes "abs_rel E (EDB s) a"
  shows "CheckTxnStatus E s k lockTS callerTS currentTS rb = emit s (a_status E a k lockTS callerTS currentTS rb)"
proof (cases rule: key_cases [OF assms, of k lockTS, case_names locked ended unknown])
  case (locked it it' l)
  have "(if callerTS + 1 < currentTS then currentTS else callerTS + 1) = pushed_min callerTS currentTS"
    by (simp add: pushed_min_def max_def not_less less_le)
  then show ?thesis
    using locked by (simp add: CheckTxnStatus_def a_status_def Let_def ttl_expired_def rollbackLock_enc a_rollbackLock_def)
next
  case (ended it it' d c)
  then show ?thesis
    by (cases d) (simp_all add: CheckTxnStatus_def a_status_def Let_def)
next
  case (unknown it it' d)
  then show ?thesis
    by (cases d) (simp_all add: CheckTxnStatus_def a_status_def Let_def writeRollback_def)
qed

lemma TxnHeartBeat_eq:
  assumes "abs_rel E (EDB s) a"
  shows "TxnHeartBeat E s k start adviseTTL = emit s (a_heartbeat a k start adviseTTL)"
proof (cases rule: key_cases [OF assms, of k start, case_names locked ended unknown])
  case (locked it it' l)
  then show ?thesis
    by (simp add: TxnHeartBeat_def a_heartbeat_def Let_def max_absorb1 max_absorb2)
next
  case (ended it it' d c)
  then show ?thesis
    by (cases d) (simp_all add: TxnHeartBeat_def a_heartbeat_def Let_def)
next
  case (unknown it it' d)
  then show ?thesis
    by (cases d) (simp_all add: TxnHeartBeat_def a_heartbeat_def Let_def)
qed

lemma pessimisticRollbackKey_refines:
  assumes "abs_rel E db a"
  shows "pessimisticRollbackKey E db batch k start forTS = Inr (batch @ enc (a_pessimisticRollbackKey a start forTS k))"
proof -
  obtain it it' where "newIterator E db (Some (mvsr_oocEncode E k lockVer)) None = it"
    "lockDecoder_Decode E k it = (Inr (a_lock a k), it')"
    using key_iterator [OF assms(1)] by metis
  then show ?thesis
    by (auto simp: pessimisticRollbackKey_def a_pessimisticRollbackKey_def locked_by_def split: option.split)
qed

lemma pessimisticRollback_loop_refines:
  assumes "abs_rel E db a"
  shows "pessimisticRollback_loop E db batch ks start forTS errs =
     (errs @ replicate (length ks) None, batch @ enc (concat (map (a_pessimisticRollbackKey a start forTS) ks)))"
  by (induction ks arbitrary: batch errs) (simp_all add: pessimisticRollbackKey_refines [OF assms])

lemma a_pessimisticRollbackKey_ok: "\<forall>op\<in>set (a_pessimisticRollbackKey a start forTS k). aop_ok op"
  by (auto simp: a_pessimisticRollbackKey_def split: option.splits)

theorem PessimisticRollback_refines:
  assumes "abs_rel E (EDB s) a"
  obtains db' where "PessimisticRollback E s ks start forTS = (replicate (length ks) None, s\<lparr>EDB := db'\<rparr>)"
    and "abs_rel E db' (a_run (concat (map (a_pessimisticRollbackKey a start forTS) ks)) a)"
proof -
  let ?ops = "concat (map (a_pessimisticRollbackKey a start forTS) ks)"
  have "\<forall>op\<in>set ?ops. aop_ok op"
    using a_pessimisticRollbackKey_ok by auto
  then obtain db' where "write_batch E s (enc ?ops) = (None, s\<lparr>EDB := db'\<rparr>)" "abs_rel E db' (a_run ?ops a)"
    using write_batch_refines [OF assms] by blast
  then show ?thesis
    using that by (auto simp: PessimisticRollback_def pessimisticRollback_loop_refines [OF assms] write_batch_def split: sum.splits)
qed

lemma pessimisticLockMutation_refines:
  assumes "abs_rel E (EDB s) a"
  shows "pessimisticLockMutation E s batch m lctx =
     (case a_pessimisticLock E a (deadlockDetector s) m lctx of
        (er, ops, vals, dd') \<Rightarrow> (er, batch @ enc ops, lctx\<lparr>lc_values := lc_values lctx @ vals\<rparr>, dd'))"
proof -
  obtain it it' where "newIterator E (EDB s) (Some (mvsr_oocEncode E (m_Key m) lockVer)) None = it"
    "lockDecoder_Decode E (m_Key m) it = (Inr (a_lock a (m_Key m)), it')"
    "\<And>f st g. checkConflictValue E it' m f st g = a_checkConflict m f st g (a_writes a (m_Key m))"
    using key_iterator [OF assms(1)] by metis
  then show ?thesis
    by (auto simp: pessimisticLockMutation_def a_pessimisticLock_def pessimistic_lock_def Let_def split: option.split sum.split prod.split)
qed

lemma a_pessimisticLock_values: "a_pessimisticLock E a dd m (lctx\<lparr>lc_values := vs\<rparr>) = a_pessimisticLock E a dd m lctx"
  by (simp add: a_pessimisticLock_def pessimistic_lock_def split: option.split sum.split prod.split)

lemma a_pessimisticLocks_values: "a_pessimisticLocks E wait a dd ms (lctx\<lparr>lc_values := vs\<rparr>) = a_pessimisticLocks E wait a dd ms lctx"
  by (induction ms arbitrary: dd) (auto simp: a_pessimisticLock_values split: prod.split)

lemma pessimisticLock_loop_refines:
  assumes "abs_rel E (EDB s) a"
  shows "pessimisticLock_loop E wait s batch ms lctx errs =
     (case a_pessimisticLocks E wait a (deadlockDetector s) ms lctx of
        (ers, ops, vals, dd') \<Rightarrow> (errs @ ers, batch @ enc ops, lctx\<lparr>lc_values := lc_values lctx @ vals\<rparr>, dd'))"
  using assms
proof (induction ms arbitrary: s batch lctx errs)
  case (Cons m ms)
  obtain er ops vals dd' where r: "a_pessimisticLock E a (deadlockDetector s) m lctx = (er, ops, vals, dd')"
    by (cases "a_pessimisticLock E a (deadlockDetector s) m lctx")
  show ?case
    using r Cons.prems by (simp add: pessimisticLockMutation_refines [OF Cons.prems] Cons.IH a_pessimisticLocks_values split: prod.split)
qed simp

lemma a_pessimisticLocks_ok:
  assumes "slice_ok (lc_primary lctx)" and "a_pessimisticLocks E wait a dd ms lctx = (ers, ops, vals, dd')"
  shows "\<forall>op\<in>set ops. aop_ok op"
  using assms(2)
proof (induction ms arbitrary: dd ers ops vals)
  case (Cons m ms)
  have "\<forall>op\<in>set ops1. aop_ok op" if "a_pessimisticLock E a dd m lctx = (er, ops1, v, dd1)" for er ops1 v dd1
    using that assms(1) by (auto simp: a_pessimisticLock_def pessimistic_lock_def lock_ok_def split: option.splits sum.splits if_splits prod.splits)
  then show ?case
    using Cons by (fastforce split: prod.splits if_splits)
qed simp

end

end
