(* ===== verification/Mvcc_Range.thy ===== *)
theory Mvcc_Range
  imports Mvcc_Refine
begin

text \<open>
  The operations over a key range: scans, lock scans, lock resolution and garbage collection. Each
  walks the engine's entries with a current key; the lemmas turn the walk into a fold over the keys
  of the abstract state that lie in the range.
\<close>

section \<open>Specifications\<close>

fun a_scan :: "('db, 'dd) env \<Rightarrow> astate \<Rightarrow> int \<Rightarrow> u64 \<Rightarrow> IsolationLevel \<Rightarrow> u64 list \<Rightarrow> bytes list \<Rightarrow> pair list \<Rightarrow> pair list" where
  "a_scan E a limit ts lv rl [] pairs = pairs"
| "a_scan E a limit ts lv rl (k # ks) pairs =
     (if int (length pairs) < limit then a_scan E a limit ts lv rl ks (scan_append pairs k (a_get E a k ts lv rl)) else pairs)"

definition a_pairs :: "('db, 'dd) env \<Rightarrow> astate \<Rightarrow> u64 \<Rightarrow> IsolationLevel \<Rightarrow> u64 list \<Rightarrow> bytes list \<Rightarrow> pair list" where
  "a_pairs E a ts lv rl ks = concat (map (\<lambda>k. scan_append [] k (a_get E a k ts lv rl)) ks)"

lemma scan_append_eq: "scan_append pairs k r = pairs @ scan_append [] k r"
  by (simp add: scan_append_def split: sum.split option.split)

lemma length_scan_append: "length (scan_append [] k r) \<le> 1"
  by (simp add: scan_append_def split: sum.split option.split)

lemma a_scan_take:
  assumes "int (length pairs) \<le> limit"
  shows "a_scan E a limit ts lv rl ks pairs = take (nat limit) (pairs @ a_pairs E a ts lv rl ks)"
  using assms
proof (induction ks arbitrary: pairs)
  case Nil
  then show ?case by (simp add: a_pairs_def)
next
  case (Cons k ks)
  let ?new = "scan_append [] k (a_get E a k ts lv rl)"
  show ?case
  proof (cases "int (length pairs) < limit")
    case True
    then have "int (length (pairs @ ?new)) \<le> limit"
      using length_scan_append [of k "a_get E a k ts lv rl"] by simp
    then have "a_scan E a limit ts lv rl ks (pairs @ ?new) = take (nat limit) ((pairs @ ?new) @ a_pairs E a ts lv rl ks)"
      by (rule Cons.IH)
    then show ?thesis
      using True by (subst a_scan.simps, subst scan_append_eq) (simp add: a_pairs_def)
  next
    case False
    then have "length pairs = nat limit"
      using Cons.prems by simp
    then show ?thesis
      using False by simp
  qed
qed

definition lock_info :: "('db, 'dd) env \<Rightarrow> astate \<Rightarrow> u64 \<Rightarrow> bytes \<Rightarrow> LockInfo list" where
  "lock_info E a maxTS k =
     (case a_lock a k of
        None \<Rightarrow> []
      | Some l \<Rightarrow>
          (if startTS l \<le> maxTS
           then [\<lparr>li_Key = k, li_PrimaryLock = primary l, li_LockVersion = startTS l, li_LockTtl = 0,
                  li_TxnSize = 0, li_LockType = op_of_number E 0, li_LockForUFIDelateTs = 0\<rparr>]
           else []))"

definition a_resolve :: "astate \<Rightarrow> (u64 \<rightharpoonup> u64) \<Rightarrow> bytes \<Rightarrow> aop list" where
  "a_resolve a txnCommit k =
     (case a_lock a k of
        None \<Rightarrow> []
      | Some l \<Rightarrow>
          (case txnCommit (startTS l) of
             None \<Rightarrow> []
           | Some commit \<Rightarrow>
               (if commit > 0 then a_commitLock k l (startTS l) commit else a_rollbackLock k (startTS l))))"

text \<open>The versions of a key that garbage collection deletes.\<close>

fun gc_victims :: "u64 \<Rightarrow> bool \<Rightarrow> mvsr_oocValue list \<Rightarrow> u64 list" where
  "gc_victims sp keepNext [] = []"
| "gc_victims sp keepNext (v # vs) =
     (if commitTS v > sp then gc_victims sp keepNext vs
      else if valueType v = typePut \<or> valueType v = typeDelete
      then (if \<not> keepNext \<or> valueType v = typeDelete then [commitTS v] else []) @ gc_victims sp False vs
      else commitTS v # gc_victims sp keepNext vs)"

definition under_safe_point :: "astate \<Rightarrow> u64 \<Rightarrow> bytes \<Rightarrow> u64 option" where
  "under_safe_point a sp k =
     (case a_lock a k of None \<Rightarrow> None | Some l \<Rightarrow> if startTS l \<le> sp then Some (startTS l) else None)"

definition a_gc :: "astate \<Rightarrow> u64 \<Rightarrow> bytes \<Rightarrow> err + aop list" where
  "a_gc a sp k =
     (case under_safe_point a sp k of
        Some start \<Rightarrow> Inl (Err_UnderSafePoint k start sp)
      | None \<Rightarrow> Inr (map (DelWrite k) (gc_victims sp True (a_writes a k))))"

definition a_GC :: "astate \<Rightarrow> u64 \<Rightarrow> bytes list \<Rightarrow> err option \<times> aop list" where
  "a_GC a sp ks = (case a_collect (a_gc a sp) ks of Inl e \<Rightarrow> (Some e, []) | Inr ops \<Rightarrow> (None, ops))"

text \<open>The timestamps a resolution writes: the commit timestamp, or the start timestamp of a lock it rolls back.\<close>

definition resolve_ok :: "astate \<Rightarrow> (u64 \<rightharpoonup> u64) \<Rightarrow> bytes list \<Rightarrow> bool" where
  "resolve_ok a tc ks = (\<forall>k\<in>set ks. \<forall>l c. a_lock a k = Some l \<longrightarrow> tc (startTS l) = Some c \<longrightarrow>
     (if c > 0 then c else startTS l) \<noteq> lockVer)"

section \<open>Walking over the keys\<close>

context store_env
begin

abbreviation runs :: "astate \<Rightarrow> bytes list \<Rightarrow> (bytes \<times> bytes) list" where
  "runs a ks \<equiv> concat (map (key_run E a) ks)"

lemma newScanIterator_runs:
  assumes "abs_rel E db a"
  shows "newScanIterator E db sk ek =
     Inr (It (runs a (range_keys a sk ek)), if sk = [] \<and> range_keys a sk ek \<noteq> [] then hd (range_keys a sk ek) else sk)"
proof -
  have wf: "wf_astate a"
    using assms by (rule abs_rel_wf)
  have it: "newIterator E db (if length sk > 0 then Some (mvsr_oocEncode E sk lockVer) else None)
      (if length ek > 0 then Some (mvsr_oocEncode E ek lockVer) else None) = It (runs a (range_keys a sk ek))"
    using newIterator_range [OF assms, of sk ek] by (simp add: key_bound_def)
  show ?thesis
  proof (cases "range_keys a sk ek")
    case Nil
    then show ?thesis
      using it by (simp add: newScanIterator_def)
  next
    case (Cons k ks)
    then have "k \<in> a_keys a"
      using range_keys_props(2) [OF wf, of sk ek] by auto
    then obtain ek1 ev1 r where "key_run E a k = (ek1, ev1) # r"
      using key_run_Nil_iff [of E a k] by (cases "key_run E a k") auto
    moreover from this obtain v where "ek1 = mvsr_oocEncode E k v"
      using key_run_key [of ek1 ev1 a k] by auto
    ultimately show ?thesis
      using it Cons by (auto simp: newScanIterator_def)
  qed
qed

lemma skip_run:
  assumes "\<forall>e\<in>set es. \<exists>v. fst e = mvsr_oocEncode E k v" and "k \<notin> set ks" and "set ks \<subseteq> a_keys a"
  shows "skip_loop E k (It (es @ runs a ks)) = (Inr (ks \<noteq> []), if ks = [] then k else hd ks, It (runs a ks))"
  using assms(1)
proof (induction es)
  case Nil
  show ?case
  proof (cases ks)
    case Nil
    then show ?thesis by (subst skip_loop.simps) simp
  next
    case (Cons k' ks')
    then obtain e r where r: "key_run E a k' = e # r"
      using assms(3) key_run_Nil_iff [of E a k'] by (cases "key_run E a k'") auto
    moreover obtain v where "fst e = mvsr_oocEncode E k' v"
      using key_run_key [of "fst e" "snd e" a k'] r by auto
    ultimately show ?thesis
      using Cons assms(2) by (subst skip_loop.simps) auto
  qed
next
  case (Cons e es)
  then show ?case
    by (subst skip_loop.simps) auto
qed

lemma skip_Decode_run:
  assumes "\<forall>e\<in>set es. \<exists>v. fst e = mvsr_oocEncode E k v" and "k \<notin> set ks" and "set ks \<subseteq> a_keys a"
  shows "skiFIDelecoder_Decode E k (It (es @ runs a ks)) = (Inr (ks \<noteq> []), if ks = [] then k else hd ks, It (runs a ks))"
proof -
  have "iter_Error (It xs) = None" for xs
    by (simp add: iter_Error_def)
  then show ?thesis
    using skip_run [OF assms] by (simp add: skiFIDelecoder_Decode_def)
qed

lemma skip_versions:
  assumes "k \<notin> set ks" and "set ks \<subseteq> a_keys a"
  shows "skiFIDelecoder_Decode E k (It (map (write_entry E k) vs @ runs a ks)) =
     (Inr (ks \<noteq> []), if ks = [] then k else hd ks, It (runs a ks))"
  using assms by (intro skip_Decode_run) (auto simp: write_entry_def)

lemma runs_valid: "set ks \<subseteq> a_keys a \<Longrightarrow> iter_Valid (It (runs a ks)) \<longleftrightarrow> ks \<noteq> []"
  by (cases ks) (auto simp: key_run_Nil_iff)

lemma lockDecoder_past: "past k es \<Longrightarrow> lockDecoder_Decode E k (It es) = (Inr None, It es)"
  by (cases es) (auto simp: lockDecoder_Decode_def past_def)

lemma lockDecoder_other:
  assumes "k \<notin> set ks"
  shows "lockDecoder_Decode E k (It (runs a ks)) = (Inr None, It (runs a ks))"
  using past_runs [OF assms, of a] by (rule lockDecoder_past)

lemma getValue_other:
  assumes "k \<notin> set ks"
  shows "getValue_iter E (It (runs a ks)) k ts lv rl = (Inr None, It (runs a ks))"
  using valueDecoder_past [OF past_runs [OF assms, of a]] lockDecoder_other [OF assms, of a]
  by (auto simp: getValue_iter_def getValue_loop.simps)

section \<open>Scan\<close>

lemma Scan_loop_key:
  assumes "wf_astate a" and "distinct (k # ks)" and "set (k # ks) \<subseteq> a_keys a"
  shows "Scan_loop E limit ts lv rl k (It (runs a (k # ks))) pairs = a_scan E a limit ts lv rl (k # ks) pairs"
  using assms(2,3)
proof (induction ks arbitrary: k pairs)
  case Nil
  obtain vs where "getValue_iter E (It (runs a [k])) k ts lv rl = (a_get E a k ts lv rl, It (map (write_entry E k) vs @ runs a []))"
    using getValue_iter_run [OF assms(1), of k "[]" ts lv rl] by auto
  then show ?case
    using skip_versions [of k "[]" a vs] by (subst Scan_loop.simps) simp
next
  case (Cons k' ks)
  have nk: "k \<notin> set (k' # ks)" "set (k' # ks) \<subseteq> a_keys a"
    using Cons.prems by auto
  obtain vs where "getValue_iter E (It (runs a (k # k' # ks))) k ts lv rl =
      (a_get E a k ts lv rl, It (map (write_entry E k) vs @ runs a (k' # ks)))"
    using getValue_iter_run [OF assms(1) past_runs [OF nk(1), of a], of ts lv rl] by auto
  moreover have "Scan_loop E limit ts lv rl k' (It (runs a (k' # ks))) p = a_scan E a limit ts lv rl (k' # ks) p" for p
    using Cons by simp
  ultimately show ?case
    using skip_versions [OF nk, of vs] by (subst Scan_loop.simps) (simp del: list.map concat.simps)
qed

lemma Scan_loop_runs:
  assumes "wf_astate a" and "distinct ks" and "set ks \<subseteq> a_keys a" and "k \<notin> set (tl ks)"
  shows "Scan_loop E limit ts lv rl k (It (runs a ks)) pairs = a_scan E a limit ts lv rl ks pairs"
proof (cases "k \<in> set ks")
  case True
  then obtain ks' where "ks = k # ks'"
    using assms(4) by (cases ks) auto
  then show ?thesis
    using Scan_loop_key assms by blast
next
  case False
  show ?thesis
  proof (cases ks)
    case Nil
    then show ?thesis
      using False skip_versions [of k "[]" a "[]"] getValue_other [of k "[]" a ts lv rl]
      by (subst Scan_loop.simps) (simp add: scan_append_def)
  next
    case (Cons k' ks')
    then have "Scan_loop E limit ts lv rl k' (It (runs a ks)) pairs = a_scan E a limit ts lv rl ks pairs"
      using Scan_loop_key [OF assms(1)] assms(2,3) by blast
    then show ?thesis
      using False Cons skip_versions [OF False assms(3), of "[]"] getValue_other [OF False, of a ts lv rl]
      by (subst Scan_loop.simps) (auto simp: scan_append_def simp del: concat.simps)
  qed
qed

lemma range_keys_ok:
  assumes "wf_astate a"
  shows "distinct (range_keys a sk ek)" and "set (range_keys a sk ek) \<subseteq> a_keys a"
    and "k = (if sk = [] \<and> range_keys a sk ek \<noteq> [] then hd (range_keys a sk ek) else sk) \<Longrightarrow> k \<notin> set (tl (range_keys a sk ek))"
proof -
  note r = range_keys_props [OF assms, of sk ek]
  show "distinct (range_keys a sk ek)"
    using r(1) by (simp add: strict_sorted_iff)
  show "set (range_keys a sk ek) \<subseteq> a_keys a"
    using r(2) by auto
  show "k \<notin> set (tl (range_keys a sk ek))"
    if "k = (if sk = [] \<and> range_keys a sk ek \<noteq> [] then hd (range_keys a sk ek) else sk)"
  proof (cases "range_keys a sk ek")
    case (Cons k0 ks)
    then have "\<forall>x\<in>set ks. k0 < x" and "sk \<le> k0"
      using r by auto
    then show ?thesis
      using that Cons by (auto split: if_splits)
  qed simp
qed

theorem Scan_refines:
  assumes "abs_rel E (EDB s) a"
  shows "Scan E s sk ek limit ts lv rl = Some (a_scan E a limit ts lv rl (range_keys a sk ek) [])"
proof -
  have wf: "wf_astate a"
    using assms by (rule abs_rel_wf)
  show ?thesis
    using Scan_loop_runs [OF wf range_keys_ok [OF wf]] by (simp add: Scan_def newScanIterator_runs [OF assms])
qed

section \<open>Locks\<close>

lemma ScanLock_loop_key:
  assumes "wf_astate a" and "distinct (k # ks)" and "set (k # ks) \<subseteq> a_keys a"
  shows "ScanLock_loop E maxTS k (It (runs a (k # ks))) locks = Inr (locks @ concat (map (lock_info E a maxTS) (k # ks)))"
  using assms(2,3)
proof (induction ks arbitrary: k locks)
  case Nil
  then show ?case
    using lockDecoder_run [OF assms(1), of k "[]"] skip_versions [of k "[]" a "a_writes a k"]
    by (subst ScanLock_loop.simps) (auto simp: lock_info_def split: option.split)
next
  case (Cons k' ks)
  have nk: "k \<notin> set (k' # ks)" "set (k' # ks) \<subseteq> a_keys a"
    using Cons.prems by auto
  have IH: "ScanLock_loop E maxTS k' (It (runs a (k' # ks))) l = Inr (l @ concat (map (lock_info E a maxTS) (k' # ks)))" for l
    using Cons by simp
  have "lockDecoder_Decode E k (It (runs a (k # k' # ks))) =
      (Inr (a_lock a k), It (map (write_entry E k) (a_writes a k) @ runs a (k' # ks)))"
    using lockDecoder_run [OF assms(1) past_runs [OF nk(1), of a]] by simp
  then show ?case
    using skip_versions [OF nk, of "a_writes a k"] runs_valid [OF nk(2)] IH
    by (subst ScanLock_loop.simps) (auto simp: lock_info_def Let_def split: option.split)
qed

text \<open>The first round of a loop whose current key is not the first key of the range only moves to that key.\<close>

lemma first_round:
  assumes "k \<notin> set (k' # ks)" and "set (k' # ks) \<subseteq> a_keys a"
  shows "lockDecoder_Decode E k (It (runs a (k' # ks))) = (Inr None, It (runs a (k' # ks)))"
    and "skiFIDelecoder_Decode E k (It (runs a (k' # ks))) = (Inr True, k', It (runs a (k' # ks)))"
    and "iter_Valid (It (runs a (k' # ks)))"
  using lockDecoder_other [OF assms(1), of a] skip_versions [OF assms, of "[]"] runs_valid [OF assms(2)] by auto

lemma ScanLock_loop_runs:
  assumes "wf_astate a" and "distinct ks" and "set ks \<subseteq> a_keys a" and "k \<notin> set (tl ks)" and "ks \<noteq> []"
  shows "ScanLock_loop E maxTS k (It (runs a ks)) [] = Inr (concat (map (lock_info E a maxTS) ks))"
proof -
  obtain k' ks' where ks: "ks = k' # ks'"
    using assms(5) by (cases ks) auto
  have key: "ScanLock_loop E maxTS k' (It (runs a ks)) [] = Inr (concat (map (lock_info E a maxTS) ks))"
    using ScanLock_loop_key [OF assms(1), of k' ks' maxTS "[]"] assms(2,3) ks by simp
  show ?thesis
  proof (cases "k = k'")
    case False
    then have "k \<notin> set (k' # ks')" "set (k' # ks') \<subseteq> a_keys a"
      using assms(3,4) ks by auto
    from first_round [OF this] show ?thesis
      using key ks by (subst ScanLock_loop.simps) (simp del: concat.simps list.map)
  qed (use key in simp)
qed

theorem ScanLock_refines:
  assumes "abs_rel E (EDB s) a"
  shows "ScanLock E s sk ek maxTS = Some (Inr (concat (map (lock_info E a maxTS) (range_keys a sk ek))))"
proof -
  have wf: "wf_astate a"
    using assms by (rule abs_rel_wf)
  show ?thesis
    using ScanLock_loop_runs [OF wf range_keys_ok [OF wf]] runs_valid [OF range_keys_ok(2) [OF wf]]
    by (auto simp: ScanLock_def newScanIterator_runs [OF assms])
qed

lemma resolve_batch:
  "(case a_lock a k of
      None \<Rightarrow> batch
    | Some l \<Rightarrow> (case tc (startTS l) of
          None \<Rightarrow> batch
        | Some commit \<Rightarrow> (if commit > 0 then commitLock E batch l k (startTS l) commit else rollbackLock E batch k (startTS l)))) =
    batch @ enc (a_resolve a tc k)"
  by (simp add: a_resolve_def commitLock_enc rollbackLock_enc split: option.split)

lemma resolve_loop_key:
  assumes "wf_astate a" and "distinct (k # ks)" and "set (k # ks) \<subseteq> a_keys a"
  shows "resolve_loop E tc k (It (runs a (k # ks))) batch = Inr (batch @ enc (concat (map (a_resolve a tc) (k # ks))))"
  using assms(2,3)
proof (induction ks arbitrary: k batch)
  case Nil
  then show ?case
    using lockDecoder_run [OF assms(1), of k "[]"] skip_versions [of k "[]" a "a_writes a k"]
    by (subst resolve_loop.simps) (simp add: resolve_batch)
next
  case (Cons k' ks)
  have nk: "k \<notin> set (k' # ks)" "set (k' # ks) \<subseteq> a_keys a"
    using Cons.prems by auto
  have IH: "resolve_loop E tc k' (It (runs a (k' # ks))) b = Inr (b @ enc (concat (map (a_resolve a tc) (k' # ks))))" for b
    using Cons by simp
  have "lockDecoder_Decode E k (It (runs a (k # k' # ks))) =
      (Inr (a_lock a k), It (map (write_entry E k) (a_writes a k) @ runs a (k' # ks)))"
    using lockDecoder_run [OF assms(1) past_runs [OF nk(1), of a]] by simp
  then show ?case
    using skip_versions [OF nk, of "a_writes a k"] runs_valid [OF nk(2)] IH
    by (subst resolve_loop.simps) (simp add: resolve_batch Let_def)
qed

lemma resolve_loop_runs:
  assumes "wf_astate a" and "distinct ks" and "set ks \<subseteq> a_keys a" and "k \<notin> set (tl ks)" and "ks \<noteq> []"
  shows "resolve_loop E tc k (It (runs a ks)) [] = Inr (enc (concat (map (a_resolve a tc) ks)))"
proof -
  obtain k' ks' where ks: "ks = k' # ks'"
    using assms(5) by (cases ks) auto
  have key: "resolve_loop E tc k' (It (runs a ks)) [] = Inr (enc (concat (map (a_resolve a tc) ks)))"
    using resolve_loop_key [OF assms(1), of k' ks' tc "[]"] assms(2,3) ks by simp
  show ?thesis
  proof (cases "k = k'")
    case False
    then have "k \<notin> set (k' # ks')" "set (k' # ks') \<subseteq> a_keys a"
      using assms(3,4) ks by auto
    from first_round [OF this] show ?thesis
      using key ks by (subst resolve_loop.simps) (simp del: concat.simps list.map)
  qed (use key in simp)
qed

lemma a_resolve_ok:
  assumes "wf_astate a" and "resolve_ok a tc ks"
  shows "\<forall>op\<in>set (concat (map (a_resolve a tc) ks)). aop_ok op"
proof -
  have "\<forall>op\<in>set (a_resolve a tc k). aop_ok op" if k: "k \<in> set ks" for k
  proof (cases "\<exists>l c. a_lock a k = Some l \<and> tc (startTS l) = Some c")
    case True
    then obtain l c where lc: "a_lock a k = Some l" "tc (startTS l) = Some c"
      by blast
    then have "(if c > 0 then c else startTS l) \<noteq> lockVer" and "lock_ok l"
      using assms(2) k wf_astateD(2) [OF assms(1)] unfolding resolve_ok_def by blast+
    then show ?thesis
      using lc by (simp add: a_resolve_def a_commitLock_def a_rollbackLock_def split: if_splits)
  next
    case False
    then have "a_resolve a tc k = []"
      by (auto simp: a_resolve_def split: option.split)
    then show ?thesis by simp
  qed
  then show ?thesis by auto
qed

lemma resolve_refines:
  assumes "abs_rel E (EDB s) a" and "resolve_ok a tc (range_keys a sk ek)"
  obtains db' where "BatchResolveLock E s sk ek tc = Some (None, s\<lparr>EDB := db'\<rparr>)"
    and "abs_rel E db' (a_run (concat (map (a_resolve a tc) (range_keys a sk ek))) a)"
proof -
  have wf: "wf_astate a"
    using assms by (blast intro: abs_rel_wf)
  let ?ops = "concat (map (a_resolve a tc) (range_keys a sk ek))"
  obtain db' where db': "write_batch E s (enc ?ops) = (None, s\<lparr>EDB := db'\<rparr>)" "abs_rel E db' (a_run ?ops a)"
    using write_batch_refines [OF assms(1) a_resolve_ok [OF wf assms(2)]] .
  have "BatchResolveLock E s sk ek tc = Some (write_batch E s (enc ?ops))"
    using resolve_loop_runs [OF wf range_keys_ok [OF wf], of _ sk ek tc] runs_valid [OF range_keys_ok(2) [OF wf], of sk ek]
    by (cases "range_keys a sk ek = []") (simp_all add: BatchResolveLock_def newScanIterator_runs [OF assms(1)])
  then show ?thesis
    using db' that by simp
qed

lemma ResolveLock_Batch: "ResolveLock E s sk ek start commit = BatchResolveLock E s sk ek [start \<mapsto> commit]"
  by (simp add: ResolveLock_def BatchResolveLock_def)

section \<open>Garbage collection\<close>

lemma GC_inner_run:
  assumes "\<forall>v\<in>set vs. value_ok v \<and> commitTS v \<noteq> lockVer" and "k \<notin> set ks" and "set ks \<subseteq> a_keys a"
  shows "GC_inner E sp k keep (It (map (write_entry E k) vs @ runs a ks)) b =
     Inr (if ks = [] then k else hd ks, It (runs a ks), b @ enc (map (DelWrite k) (gc_victims sp keep vs)))"
  using assms(1)
proof (induction vs arbitrary: keep b)
  case Nil
  show ?case
  proof (cases ks)
    case Nil
    then show ?thesis by (subst GC_inner.simps) simp
  next
    case (Cons k' ks')
    then obtain e r where r: "key_run E a k' = e # r"
      using assms(3) key_run_Nil_iff [of E a k'] by (cases "key_run E a k'") auto
    moreover obtain v where "fst e = mvsr_oocEncode E k' v"
      using key_run_key [of "fst e" "snd e" a k'] r by auto
    ultimately show ?thesis
      using Cons valueDecoder_past [OF past_runs [OF assms(2), of a]] by (subst GC_inner.simps) auto
  qed
next
  case (Cons v vs)
  then show ?case
    by (subst GC_inner.simps) simp
qed

lemma GC_loop_key:
  assumes "wf_astate a" and "distinct (k # ks)" and "set (k # ks) \<subseteq> a_keys a"
  shows "GC_loop E sp k (It (runs a (k # ks))) b = map_sum id (\<lambda>ops. b @ enc ops) (a_collect (a_gc a sp) (k # ks))"
  using assms(2,3)
proof (induction ks arbitrary: k b)
  case Nil
  have v: "\<forall>v\<in>set (a_writes a k). value_ok v \<and> commitTS v \<noteq> lockVer"
    using wf_astateD [OF assms(1)] by blast
  have "iter_Valid (It (runs a [k]))"
    using runs_valid Nil by blast
  then show ?case
    using lockDecoder_run [OF assms(1), of k "[]"] GC_inner_run [OF v, of k "[]" a sp True b] Nil
    by (subst GC_loop.simps) (auto simp: a_gc_def under_safe_point_def split: option.split)
next
  case (Cons k' ks)
  have nk: "k \<notin> set (k' # ks)" "set (k' # ks) \<subseteq> a_keys a"
    using Cons.prems by auto
  have v: "\<forall>v\<in>set (a_writes a k). value_ok v \<and> commitTS v \<noteq> lockVer"
    using wf_astateD [OF assms(1)] by blast
  have IH: "GC_loop E sp k' (It (runs a (k' # ks))) b = map_sum id (\<lambda>ops. b @ enc ops) (a_collect (a_gc a sp) (k' # ks))" for b
    using Cons.prems by (intro Cons.IH) auto
  have valid: "iter_Valid (It (runs a (k # k' # ks)))"
    using runs_valid Cons.prems(2) by blast
  have d: "lockDecoder_Decode E k (It (runs a (k # k' # ks))) =
      (Inr (a_lock a k), It (map (write_entry E k) (a_writes a k) @ runs a (k' # ks)))"
    using lockDecoder_run [OF assms(1) past_runs [OF nk(1), of a]] by simp
  show ?case
  proof (cases "under_safe_point a sp k")
    case (Some start)
    then show ?thesis
      using valid d unfolding under_safe_point_def
      by (subst GC_loop.simps) (simp add: a_gc_def under_safe_point_def del: concat.simps list.map)
  next
    case None
    then show ?thesis
      using valid d runs_valid [OF nk(2)] GC_inner_run [OF v nk, of sp True b] IH unfolding under_safe_point_def
      by (subst GC_loop.simps)
        (auto simp: a_gc_def under_safe_point_def split: sum.split simp del: concat.simps list.map a_collect.simps(2) 
           simp: a_collect.simps(2) [of _ k])
  qed
qed

lemma GC_loop_runs:
  assumes "wf_astate a" and "distinct ks" and "set ks \<subseteq> a_keys a" and "k \<notin> set (tl ks)"
  shows "GC_loop E sp k (It (runs a ks)) [] = map_sum id enc (a_collect (a_gc a sp) ks)"
proof (cases ks)
  case Nil
  then show ?thesis by (subst GC_loop.simps) simp
next
  case (Cons k' ks')
  have key: "GC_loop E sp k' (It (runs a ks)) [] = map_sum id enc (a_collect (a_gc a sp) ks)"
    using GC_loop_key [OF assms(1), of k' ks' sp "[]"] assms(2,3) Cons by simp
  show ?thesis
  proof (cases "k = k'")
    case False
    then have nk: "k \<notin> set (k' # ks')" "set (k' # ks') \<subseteq> a_keys a"
      using assms(3,4) Cons by auto
    have "GC_inner E sp k True (It (runs a (k' # ks'))) [] = Inr (k', It (runs a (k' # ks')), [])"
      using GC_inner_run [of "[]" k "k' # ks'" a sp True "[]"] nk by simp
    with first_round [OF nk] show ?thesis
      using key Cons by (subst GC_loop.simps) (simp del: concat.simps list.map)
  qed (use key in simp)
qed

lemma a_gc_ok:
  assumes "wf_astate a" and "a_gc a sp k = Inr ops"
  shows "\<forall>op\<in>set ops. aop_ok op"
proof -
  have "ts \<in> commitTS ` set vs" if "ts \<in> set (gc_victims sp keep vs)" for ts keep vs
    using that by (induction vs arbitrary: keep) (auto split: if_splits)
  then show ?thesis
    using assms wf_astateD(5) [OF assms(1), of _ k] by (fastforce simp: a_gc_def split: option.splits)
qed

theorem GC_refines:
  assumes "abs_rel E (EDB s) a"
  obtains db' where "GC E s sk ek sp = Some (fst (a_GC a sp (range_keys a sk ek)), s\<lparr>EDB := db'\<rparr>)"
    and "abs_rel E db' (a_run (snd (a_GC a sp (range_keys a sk ek))) a)"
proof -
  have wf: "wf_astate a"
    using assms by (rule abs_rel_wf)
  let ?r = "a_collect (a_gc a sp) (range_keys a sk ek)"
  have gc: "GC E s sk ek sp = Some (case map_sum id enc ?r of Inl e \<Rightarrow> (Some e, s) | Inr b \<Rightarrow> write_batch E s b)"
    using GC_loop_runs [OF wf range_keys_ok [OF wf]] by (simp add: GC_def newScanIterator_runs [OF assms])
  show ?thesis
  proof (cases ?r)
    case (Inl e)
    then show ?thesis
      using gc assms that [of "EDB s"] by (simp add: a_GC_def)
  next
    case (Inr ops)
    then have "\<forall>op\<in>set ops. aop_ok op"
      using a_gc_ok [OF wf] by (rule a_collect_ops)
    then obtain db' where "write_batch E s (enc ops) = (None, s\<lparr>EDB := db'\<rparr>)" "abs_rel E db' (a_run ops a)"
      using write_batch_refines [OF assms] by blast
    then show ?thesis
      using gc Inr that [of db'] by (simp add: a_GC_def)
  qed
qed

end

end
