(* ===== verification/Reference_Env.thy ===== *)
theory Reference_Env
  imports Mvcc_View
begin

text \<open>
  One environment that meets every law of \<open>store_env\<close>: an escaping codec for byte strings, eight
  complemented big-endian bytes for the descending integers, an association list as the engine. It
  shows that the laws are consistent and gives the witnesses of the store's theorems a state to be
  evaluated on.
\<close>

section \<open>A codec\<close>

fun ref_EncodeBytes :: "bytes \<Rightarrow> bytes" where
  "ref_EncodeBytes [] = [0]"
| "ref_EncodeBytes (b # bs) = 1 # b # ref_EncodeBytes bs"

fun ref_DecodeBytes :: "bytes \<Rightarrow> err + bytes \<times> bytes" where
  "ref_DecodeBytes [] = Inl (Err_New ''insufficient bytes to decode value'')"
| "ref_DecodeBytes [x] = (if x = 0 then Inr ([], []) else Inl (Err_New ''insufficient bytes to decode value''))"
| "ref_DecodeBytes (x # b # r) =
     (if x = 0 then Inr (b # r, [])
      else (case ref_DecodeBytes r of Inl e \<Rightarrow> Inl e | Inr (r', k) \<Rightarrow> Inr (r', b # k)))"

lemma ref_DecodeBytes_Encode: "ref_DecodeBytes (ref_EncodeBytes k @ r) = Inr (r, k)"
proof (induction k)
  case Nil
  then show ?case by (cases r) auto
qed simp

lemma ref_EncodeBytes_less: "k < k' \<Longrightarrow> ref_EncodeBytes k @ r < ref_EncodeBytes k' @ r'"
proof (induction k arbitrary: k')
  case Nil
  then show ?case by (cases k') auto
next
  case (Cons b k)
  then show ?case by (cases k') auto
qed

fun be_bytes :: "nat \<Rightarrow> nat \<Rightarrow> bytes" where
  "be_bytes 0 x = []"
| "be_bytes (Suc n) x = word_of_nat (x div 256 ^ n) # be_bytes n (x mod 256 ^ n)"

fun be_nat :: "bytes \<Rightarrow> nat" where
  "be_nat [] = 0"
| "be_nat (b # bs) = unat b * 256 ^ length bs + be_nat bs"

lemma length_be_bytes [simp]: "length (be_bytes n x) = n"
  by (induction n arbitrary: x) auto

lemma be_digit:
  assumes "x < 256 ^ Suc n"
  shows "unat (word_of_nat (x div 256 ^ n) :: byte) = x div 256 ^ n"
proof -
  have "x div 256 ^ n < 256"
    using assms by (simp add: less_mult_imp_div_less)
  then show ?thesis
    by (simp add: unsigned_of_nat take_bit_nat_eq_self)
qed

lemma be_nat_bytes: "x < 256 ^ n \<Longrightarrow> be_nat (be_bytes n x) = x"
  by (induction n arbitrary: x) (simp_all add: be_digit div_mult_mod_eq)

lemma be_bytes_less: "x < y \<Longrightarrow> y < 256 ^ n \<Longrightarrow> be_bytes n x < be_bytes n y"
proof (induction n arbitrary: x y)
  case 0
  then show ?case by simp
next
  case (Suc n)
  have d: "unat (word_of_nat (x div 256 ^ n) :: byte) = x div 256 ^ n"
    "unat (word_of_nat (y div 256 ^ n) :: byte) = y div 256 ^ n"
    using Suc.prems by (simp_all add: be_digit del: power_Suc)
  show ?case
  proof (cases "x div 256 ^ n < y div 256 ^ n")
    case True
    then show ?thesis
      using d by (simp add: word_less_nat_alt)
  next
    case False
    moreover have "x div 256 ^ n \<le> y div 256 ^ n"
      using Suc.prems(1) by (simp add: div_le_mono)
    ultimately have eq: "x div 256 ^ n = y div 256 ^ n"
      by simp
    then have "x mod 256 ^ n < y mod 256 ^ n"
      using Suc.prems(1) by (metis div_mult_mod_eq nat_add_left_cancel_less)
    then show ?thesis
      using Suc.IH eq by simp
  qed
qed

definition ref_EncodeUintDesc :: "u64 \<Rightarrow> bytes" where
  "ref_EncodeUintDesc v = be_bytes 8 (unat (NOT v))"

definition ref_DecodeUintDesc :: "bytes \<Rightarrow> err + bytes \<times> u64" where
  "ref_DecodeUintDesc r =
     (if length r < 8 then Inl (Err_New ''insufficient bytes to decode value'')
      else Inr (drop 8 r, NOT (word_of_nat (be_nat (take 8 r)))))"

lemma u64_bound: "unat (x :: u64) < 256 ^ 8"
  using unsigned_less [of x] by simp

lemma ref_DecodeUintDesc_Encode: "ref_DecodeUintDesc (ref_EncodeUintDesc v @ r) = Inr (r, v)"
  by (simp add: ref_DecodeUintDesc_def ref_EncodeUintDesc_def be_nat_bytes [OF u64_bound])

lemma ref_EncodeUintDesc_less:
  assumes "v < v'"
  shows "ref_EncodeUintDesc v' < ref_EncodeUintDesc v"
proof -
  have "unat (NOT x) = 2 ^ 64 - 1 - unat x" for x :: u64
  proof -
    have "NOT x = - 1 - x"
      by (simp add: not_eq_complement)
    then have "unat (NOT x) = unat (- 1 :: u64) - unat x"
      by (simp add: unat_sub del: unsigned_minus_1_eq_mask)
    then show ?thesis
      by (simp add: unsigned_minus_1_eq_mask mask_eq_exp_minus_1)
  qed
  then have "NOT v' < NOT v"
    using assms u64_bound [of v'] by (simp add: word_less_nat_alt)
  then show ?thesis
    unfolding ref_EncodeUintDesc_def using u64_bound by (intro be_bytes_less) (simp_all add: word_less_nat_alt)
qed

section \<open>An engine\<close>

type_synonym ref_db = "(bytes \<times> bytes) list"

definition ref_keys :: "ref_db \<Rightarrow> bytes list" where
  "ref_keys db = sort (remdups (map fst db))"

definition ref_NewIterator :: "ref_db \<Rightarrow> bytes option \<Rightarrow> bytes option \<Rightarrow> iterator" where
  "ref_NewIterator db s l =
     \<lparr>it_rest = map (\<lambda>k. (k, the (map_of db k))) (filter (in_range s l) (ref_keys db)), it_fail = None\<rparr>"

fun ref_apply :: "batch_op \<Rightarrow> ref_db \<Rightarrow> ref_db" where
  "ref_apply (Put k v) db = (k, v) # db"
| "ref_apply (Delete k) db = filter (\<lambda>e. fst e \<noteq> k) db"

definition ref_Write :: "ref_db \<Rightarrow> batch \<Rightarrow> err + ref_db" where
  "ref_Write db b = Inr (fold ref_apply b db)"

lemma map_of_ref_apply: "map_of (ref_apply op db) = apply_batch_op op (map_of db)"
proof (cases op)
  case (Delete k)
  have "map_of (filter (\<lambda>e. fst e \<noteq> k) db) = (map_of db)(k := None)"
    by (induction db) auto
  then show ?thesis
    using Delete by simp
qed simp

lemma map_of_ref_Write: "map_of (fold ref_apply b db) = apply_batch b (map_of db)"
  by (induction b arbitrary: db) (simp_all add: apply_batch_def map_of_ref_apply)

fun ref_op_number :: "Op \<Rightarrow> u32" where
  "ref_op_number Op_Put = 0"
| "ref_op_number Op_Del = 1"
| "ref_op_number Op_Lock = 2"
| "ref_op_number Op_Rollback = 3"
| "ref_op_number Op_Insert = 4"
| "ref_op_number Op_PessimisticLock = 5"
| "ref_op_number Op_CheckNotExists = 6"

definition ref_op_of_number :: "u32 \<Rightarrow> Op" where
  "ref_op_of_number n =
     (if n = 1 then Op_Del else if n = 2 then Op_Lock else if n = 3 then Op_Rollback else if n = 4 then Op_Insert
      else if n = 5 then Op_PessimisticLock else if n = 6 then Op_CheckNotExists else Op_Put)"

text \<open>The detector of the reference environment never reports a deadlock; its hash is constant.\<close>

definition ref_env :: "(ref_db, unit) env" where
  "ref_env = \<lparr>EncodeBytes = (\<lambda>b k. b @ ref_EncodeBytes k), DecodeBytes = ref_DecodeBytes,
     EncodeUintDesc = (\<lambda>b v. b @ ref_EncodeUintDesc v), DecodeUintDesc = ref_DecodeUintDesc,
     ldb_Get = map_of, ldb_NewIterator = ref_NewIterator, ldb_Write = ref_Write,
     Detect = (\<lambda>d _ _ _. (None, d)), CleanUp = (\<lambda>d _. d), Fingerprint64 = (\<lambda>_. 0),
     ExtractPhysical = drop_bit 18, op_number = ref_op_number, op_of_number = ref_op_of_number\<rparr>"

lemma ref_env_simps [simp]:
  "ldb_Get ref_env = map_of"
  "ldb_Write ref_env = ref_Write"
  "ExtractPhysical ref_env = drop_bit 18"
  "Detect ref_env d x y z = (None, d)"
  "CleanUp ref_env d x = d"
  by (simp_all add: ref_env_def)

lemma ref_codec: "codec ref_env"
proof
  show "op_of_number ref_env (op_number ref_env op) = op" for op
    by (cases op) (simp_all add: ref_env_def ref_op_of_number_def)
  show "EncodeUintDesc ref_env [] v \<noteq> []" for v
    using length_be_bytes [of 8 "unat (NOT v)"] by (auto simp: ref_env_def ref_EncodeUintDesc_def simp del: length_be_bytes)
qed (simp_all add: ref_env_def ref_DecodeBytes_Encode ref_EncodeBytes_less ref_DecodeUintDesc_Encode ref_EncodeUintDesc_less)

lemma ref_entries: "k \<in> set (ref_keys db) \<longleftrightarrow> (\<exists>v. map_of db k = Some v)"
  using map_of_eq_None_iff [of db k] by (auto simp: ref_keys_def)

lemma ref_leveldb: "leveldb_open ref_env"
proof
  fix db :: ref_db and s l
  have "sorted_wrt (<) (ref_keys db)"
    by (simp add: ref_keys_def strict_sorted_iff)
  then show "key_sorted (it_rest (ldb_NewIterator ref_env db s l))"
    by (simp add: ref_env_def ref_NewIterator_def comp_def sorted_wrt_filter)
  show "set (it_rest (ldb_NewIterator ref_env db s l)) = {(k, v). ldb_Get ref_env db k = Some v \<and> in_range s l k}"
    using ref_entries [where db = db] by (auto simp: ref_env_def ref_NewIterator_def image_iff)
qed (auto simp: ref_env_def ref_NewIterator_def ref_Write_def map_of_ref_Write)

interpretation ref: store_env ref_env
  using ref_codec ref_leveldb by (rule store_env.intro)

lemma store_env_ref [simp, intro]: "store_env ref_env"
  by (rule ref.store_env_axioms)

section \<open>States of the reference environment\<close>

text \<open>The store that results from a sequence of abstract updates of the empty one.\<close>

definition ref_store :: "aop list \<Rightarrow> (ref_db, unit) MVCCLevelDB" where
  "ref_store ops = \<lparr>EDB = fold ref_apply (map (enc_aop ref_env) ops) [], deadlockDetector = ()\<rparr>"

lemma ref_store_rel:
  assumes "\<forall>op\<in>set ops. aop_ok op"
  shows "abs_rel ref_env (EDB (ref_store ops)) (a_run ops empty_astate)"
proof -
  have "abs_map ref_env (map_of []) empty_astate"
    by (simp add: abs_map_def key_run_def empty_astate_def [abs_def] wf_empty_astate [unfolded empty_astate_def])
  from ref.abs_map_run [OF this assms] show ?thesis
    by (simp add: abs_rel_def ref_store_def map_of_ref_Write)
qed

end
