(* ===== verification/Mvcc_Facts.thy ===== *)
theory Mvcc_Facts
  imports Mvcc_Range Reference_Env
begin

text \<open>
  Facts about the abstract state that the theorems on the store share: updates of different keys do
  not interfere, and what an update of a key does to the versions a reader sees.
\<close>

section \<open>Updates are local to their key\<close>

fun aop_key :: "aop \<Rightarrow> bytes" where
  "aop_key (SetLock k l) = k"
| "aop_key (DelLock k) = k"
| "aop_key (SetWrite k v) = k"
| "aop_key (DelWrite k ts) = k"

lemma a_run_append [simp]: "a_run (xs @ ys) a = a_run ys (a_run xs a)"
  by (simp add: a_run_def)

lemma a_apply_other: "aop_key op \<noteq> k \<Longrightarrow> a_lock (a_apply op a) k = a_lock a k \<and> a_writes (a_apply op a) k = a_writes a k"
  by (cases op) auto

lemma a_apply_cong:
  assumes "a_lock a k = a_lock b k" and "a_writes a k = a_writes b k"
  shows "a_lock (a_apply op a) k = a_lock (a_apply op b) k \<and> a_writes (a_apply op a) k = a_writes (a_apply op b) k"
  using assms by (cases op) auto

text \<open>What a sequence of updates does to a key is what its updates of that key do.\<close>

lemma a_run_key:
  "a_lock (a_run ops a) k = a_lock (a_run (filter (\<lambda>op. aop_key op = k) ops) a) k \<and>
   a_writes (a_run ops a) k = a_writes (a_run (filter (\<lambda>op. aop_key op = k) ops) a) k"
proof -
  have "a_lock (a_run ops a) k = a_lock (a_run (filter (\<lambda>op. aop_key op = k) ops) b) k \<and>
      a_writes (a_run ops a) k = a_writes (a_run (filter (\<lambda>op. aop_key op = k) ops) b) k"
    if "a_lock a k = a_lock b k" "a_writes a k = a_writes b k" for a b
    using that
  proof (induction ops arbitrary: a b)
    case (Cons op ops)
    then show ?case
      using a_apply_other [of op k a] a_apply_cong [OF Cons.prems, of op] by (cases "aop_key op = k") auto
  qed simp
  then show ?thesis by blast
qed

definition at :: "bytes \<Rightarrow> aop list \<Rightarrow> bool" where
  "at k ops = (\<forall>op\<in>set ops. aop_key op = k)"

lemma filter_at: "at k' ops \<Longrightarrow> filter (\<lambda>op. aop_key op = k) ops = (if k' = k then ops else [])"
  by (auto simp: at_def intro: filter_False filter_True)

lemma filter_concat_at:
  assumes "\<And>k. k \<in> set ks \<Longrightarrow> at k (f k)" and "distinct ks"
  shows "filter (\<lambda>op. aop_key op = k) (concat (map f ks)) = (if k \<in> set ks then f k else [])"
  using assms
proof (induction ks)
  case (Cons k' ks)
  then show ?case
    using filter_at [of k' "f k'" k] by auto
qed simp

lemma a_run_concat_at:
  assumes "\<And>k. k \<in> set ks \<Longrightarrow> at k (f k)" and "distinct ks"
  shows "a_lock (a_run (concat (map f ks)) a) k = (if k \<in> set ks then a_lock (a_run (f k) a) k else a_lock a k)"
    and "a_writes (a_run (concat (map f ks)) a) k = (if k \<in> set ks then a_writes (a_run (f k) a) k else a_writes a k)"
  using a_run_key [of "concat (map f ks)" a k] filter_concat_at [OF assms, of k] by auto

lemma a_run_other:
  assumes "\<forall>op\<in>set ops. aop_key op \<noteq> k"
  shows "a_lock (a_run ops a) k = a_lock a k" and "a_writes (a_run ops a) k = a_writes a k"
  using a_run_key [of ops a k] assms by (simp_all add: filter_empty_conv)

text \<open>The keys of the updates of the operations.\<close>

lemma at_simps [simp]:
  "at k []"
  "at k (op # ops) \<longleftrightarrow> aop_key op = k \<and> at k ops"
  "at k (a_commitLock k l st c)"
  "at k (a_rollbackLock k st)"
  "at k (map (DelWrite k) ts)"
  by (auto simp: at_def a_commitLock_def a_rollbackLock_def)

lemma at_ops:
  "a_commitKey a k start commit = Inr ops \<Longrightarrow> at k ops"
  "a_rollbackKey a k start = Inr ops \<Longrightarrow> at k ops"
  "a_prewrite E a m start prim t z p c = Inr ops \<Longrightarrow> at (m_Key m) ops"
  "at k (a_resolve a tc k)"
  "a_gc a sp k = Inr ops \<Longrightarrow> at k ops"
  by (auto simp: a_commitKey_def a_rollbackKey_def a_prewrite_def a_resolve_def a_gc_def split: option.splits if_splits sum.splits)

lemma a_collect_concat: "a_collect f xs = Inr ops \<Longrightarrow> (\<forall>x\<in>set xs. \<not> isl (f x)) \<and> ops = concat (map (projr \<circ> f) xs)"
  by (induction xs arbitrary: ops) (auto split: sum.splits)

lemma a_collect_Inl: "a_collect f xs = Inl e \<Longrightarrow> \<exists>x\<in>set xs. f x = Inl e"
  by (induction xs) (auto split: sum.splits)

text \<open>
  Every update sequence an operation emits for a key may be repeated without further effect, so a
  key named twice in a request counts once.
\<close>

definition idem :: "aop list \<Rightarrow> bool" where
  "idem ops = (\<forall>a. a_run ops (a_run ops a) = a_run ops a)"

lemma idem_replicate:
  assumes "idem ops"
  shows "a_run (concat (replicate (Suc n) ops)) a = a_run ops a"
  using assms by (induction n arbitrary: a) (auto simp: idem_def)

lemma put_version_idem [simp]: "put_version v (put_version v ws) = put_version v ws"
  by (induction ws) auto

lemma del_version_idem [simp]: "del_version t (del_version t ws) = del_version t ws"
  by (simp add: del_version_def)

lemma a_run_DelWrites:
  "a_run (map (DelWrite k) ts) a =
     a\<lparr>a_writes := (a_writes a)(k := filter (\<lambda>w. commitTS w \<notin> set ts) (a_writes a k))\<rparr>"
proof (induction ts arbitrary: a)
  case (Cons t ts)
  then show ?case
    by (cases a) (auto simp: del_version_def intro: filter_cong)
qed simp

lemma idem_simps [simp]:
  "idem []"
  "idem [SetWrite k v]"
  "idem [SetLock k l]"
  "idem (a_commitLock k l st c)"
  "idem (a_rollbackLock k st)"
  "idem (map (DelWrite k) ts)"
  by (simp_all add: idem_def a_commitLock_def a_rollbackLock_def a_run_DelWrites)

lemma idem_ops:
  "a_commitKey a k start commit = Inr ops \<Longrightarrow> idem ops"
  "a_rollbackKey a k start = Inr ops \<Longrightarrow> idem ops"
  "a_gc a sp k = Inr ops \<Longrightarrow> idem ops"
  by (auto simp: a_commitKey_def a_rollbackKey_def a_gc_def split: option.splits if_splits)

lemma filter_concat_at_multi:
  assumes "\<And>k. k \<in> set ks \<Longrightarrow> at k (f k)"
  shows "filter (\<lambda>op. aop_key op = k) (concat (map f ks)) = concat (replicate (count_list ks k) (f k))"
  using assms
proof (induction ks)
  case (Cons k' ks)
  then show ?case
    using filter_at [of k' "f k'" k] by auto
qed simp

lemma a_run_collect:
  assumes "a_collect f ks = Inr ops"
    and "\<forall>k ops. f k = Inr ops \<longrightarrow> at k ops \<and> idem ops"
  shows "k \<notin> set ks \<Longrightarrow> a_lock (a_run ops a) k = a_lock a k \<and> a_writes (a_run ops a) k = a_writes a k"
    and "k \<in> set ks \<Longrightarrow> \<exists>ops'. f k = Inr ops' \<and> a_lock (a_run ops a) k = a_lock (a_run ops' a) k \<and>
      a_writes (a_run ops a) k = a_writes (a_run ops' a) k"
proof -
  have ok: "\<forall>k\<in>set ks. \<not> isl (f k)" and ops: "ops = concat (map (projr \<circ> f) ks)"
    using a_collect_concat [OF assms(1)] by auto
  then have "at k ((projr \<circ> f) k)" if "k \<in> set ks" for k
    using that assms(2) by (auto simp: sum.expand)
  note flt = filter_concat_at_multi [OF this, of ks, simplified ops [symmetric]]
  show "a_lock (a_run ops a) k = a_lock a k \<and> a_writes (a_run ops a) k = a_writes a k" if "k \<notin> set ks"
    using a_run_key [of ops a k] flt [of k] that by (simp add: count_notin)
  show "\<exists>ops'. f k = Inr ops' \<and> a_lock (a_run ops a) k = a_lock (a_run ops' a) k \<and>
      a_writes (a_run ops a) k = a_writes (a_run ops' a) k" if k: "k \<in> set ks"
  proof -
    have fk: "f k = Inr (projr (f k))"
      using ok k by auto
    obtain n where "count_list ks k = Suc n"
      using k count_list_0_iff [of ks k] by (cases "count_list ks k") auto
    then show ?thesis
      using a_run_key [of ops a k] flt [of k] idem_replicate [of "projr (f k)" n a] assms(2) fk by auto
  qed
qed

section \<open>Versions and readers\<close>

lemma find_put_version:
  assumes "\<not> P v" and "\<And>w. w \<in> set ws \<Longrightarrow> commitTS w = commitTS v \<Longrightarrow> \<not> P w"
  shows "find P (put_version v ws) = find P ws"
  using assms by (induction ws) auto

lemma find_filter_irrelevant:
  assumes "\<And>w. w \<in> set ws \<Longrightarrow> P w \<Longrightarrow> Q w"
  shows "find P (filter Q ws) = find P ws"
  using assms by (induction ws) auto

text \<open>A version newer than the reader's timestamp is invisible to it.\<close>

lemma a_read_put_newer:
  assumes "ts < commitTS v"
  shows "a_read ts (put_version v ws) = a_read ts ws"
proof -
  have "visible ts (put_version v ws) = visible ts ws"
    unfolding visible_def using assms by (intro find_put_version) auto
  then show ?thesis
    by (simp add: a_read_def)
qed

lemma a_read_put_nondata:
  assumes "\<not> data_version v" and "\<And>w. w \<in> set ws \<Longrightarrow> commitTS w = commitTS v \<Longrightarrow> \<not> data_version w"
  shows "a_read ts (put_version v ws) = a_read ts ws"
proof -
  have "visible ts (put_version v ws) = visible ts ws"
    unfolding visible_def using assms by (intro find_put_version) auto
  then show ?thesis
    by (simp add: a_read_def)
qed

lemma put_version_newest:
  assumes "\<And>w. w \<in> set ws \<Longrightarrow> commitTS w < commitTS v"
  shows "put_version v ws = v # ws"
  using assms by (cases ws) auto

lemma put_version_mem: "v \<in> set (put_version v ws)"
  by (induction ws) auto

text \<open>Garbage collection keeps what a reader at or after the safe point sees.\<close>

fun gc_survivors :: "u64 \<Rightarrow> bool \<Rightarrow> mvsr_oocValue list \<Rightarrow> mvsr_oocValue list" where
  "gc_survivors sp keepNext [] = []"
| "gc_survivors sp keepNext (v # vs) =
     (if commitTS v > sp then v # gc_survivors sp keepNext vs
      else if valueType v = typePut \<or> valueType v = typeDelete
      then (if \<not> keepNext \<or> valueType v = typeDelete then [] else [v]) @ gc_survivors sp False vs
      else gc_survivors sp keepNext vs)"

lemma gc_victims_commitTS: "t \<in> set (gc_victims sp keep vs) \<Longrightarrow> t \<in> commitTS ` set vs"
  by (induction vs arbitrary: keep) (auto split: if_splits)

lemma filter_gc_victims:
  assumes "newest_first vs"
  shows "filter (\<lambda>w. commitTS w \<notin> set (gc_victims sp keep vs)) vs = gc_survivors sp keep vs"
  using assms
proof (induction vs arbitrary: keep)
  case (Cons v vs)
  have v: "commitTS v \<notin> set (gc_victims sp b vs)" for b
    using Cons.prems gc_victims_commitTS [of _ sp b vs] by fastforce
  have "filter (\<lambda>w. commitTS w \<noteq> commitTS v \<and> P w) vs = filter P vs" for P
    using Cons.prems by (intro filter_cong) auto
  then show ?case
    using Cons.IH Cons.prems v by auto
qed simp

lemma gc_survivors_False:
  assumes "\<forall>v\<in>set vs. commitTS v \<le> sp"
  shows "gc_survivors sp False vs = []"
  using assms by (induction vs) auto

lemma a_read_gc_survivors:
  assumes "newest_first vs" and "sp \<le> ts" and "\<forall>v\<in>set vs. value_ok v"
  shows "a_read ts (gc_survivors sp True vs) = a_read ts vs"
  using assms(1,3)
proof (induction vs)
  case (Cons v vs)
  have older: "gc_survivors sp False vs = []" if "commitTS v \<le> sp"
    using that Cons.prems by (intro gc_survivors_False) (auto intro: less_imp_le less_le_trans)
  show ?case
    using Cons older assms(2) by (auto simp: a_read_Cons data_version_def value_ok_def)
qed simp

end
