(* ===== verification/Store_Theorems.thy ===== *)
theory Store_Theorems
  imports Mvcc_Facts
begin

text \<open>
  The theorems about the multi-version store, over any environment that meets the laws of
  \<open>store_env\<close>. \<open>abs_rel E (EDB s) a\<close> says that the engine of the state \<open>s\<close> holds the locks and versions of
  the view \<open>a\<close>. The witnesses use the reference environment.
\<close>

section \<open>Effects of the operations on one key\<close>

lemma locked_by_iff: "locked_by a k start = Some l \<longleftrightarrow> a_lock a k = Some l \<and> startTS l = start"
  by (auto simp: locked_by_def split: option.splits)

lemma a_commit_key:
  assumes "a_commit a ks start commit = (None, a')"
  shows "k \<in> set ks \<Longrightarrow> locked_by a k start = Some l \<Longrightarrow>
      minCommitTS l \<le> commit \<and> a_lock a' k = None \<and> a_writes a' k = put_version (commit_version l start commit) (a_writes a k)"
    and "k \<notin> set ks \<or> locked_by a k start = None \<Longrightarrow> a_lock a' k = a_lock a k \<and> a_writes a' k = a_writes a k"
proof -
  obtain ops where ops: "a_collect (\<lambda>k. a_commitKey a k start commit) ks = Inr ops" "a' = a_run ops a"
    using assms by (auto simp: a_commit_def split: sum.splits)
  have "\<forall>k ops. a_commitKey a k start commit = Inr ops \<longrightarrow> at k ops \<and> idem ops"
    by (blast intro: at_ops idem_ops)
  note run = a_run_collect [OF ops(1) this]
  show "minCommitTS l \<le> commit \<and> a_lock a' k = None \<and> a_writes a' k = put_version (commit_version l start commit) (a_writes a k)"
    if "k \<in> set ks" "locked_by a k start = Some l"
    using run(2) [OF that(1), of a] that(2) ops(2) by (auto simp: a_commitKey_def a_commitLock_def split: if_splits)
  show "a_lock a' k = a_lock a k \<and> a_writes a' k = a_writes a k" if "k \<notin> set ks \<or> locked_by a k start = None"
    using run(1) [of k a] run(2) [of k a] that ops(2)
    by (cases "k \<in> set ks") (auto simp: a_commitKey_def split: if_splits option.splits)
qed

lemma a_rollback_key:
  assumes "a_rollback a ks start = (None, a')"
  shows "k \<in> set ks \<Longrightarrow> locked_by a k start \<noteq> None \<Longrightarrow>
      a_lock a' k = None \<and> a_writes a' k = put_version (rollback_value start) (a_writes a k)"
    and "k \<in> set ks \<Longrightarrow> locked_by a k start = None \<Longrightarrow> a_lock a' k = a_lock a k \<and>
      (case commit_info start (a_writes a k) of
         None \<Rightarrow> a_writes a' k = put_version (rollback_value start) (a_writes a k)
       | Some c \<Rightarrow> valueType c = typeRollback \<and> a_writes a' k = a_writes a k)"
    and "k \<notin> set ks \<Longrightarrow> a_lock a' k = a_lock a k \<and> a_writes a' k = a_writes a k"
proof -
  obtain ops where ops: "a_collect (\<lambda>k. a_rollbackKey a k start) ks = Inr ops" "a' = a_run ops a"
    using assms by (auto simp: a_rollback_def split: sum.splits)
  have "\<forall>k ops. a_rollbackKey a k start = Inr ops \<longrightarrow> at k ops \<and> idem ops"
    by (blast intro: at_ops idem_ops)
  note run = a_run_collect [OF ops(1) this]
  show "a_lock a' k = None \<and> a_writes a' k = put_version (rollback_value start) (a_writes a k)"
    if "k \<in> set ks" "locked_by a k start \<noteq> None"
    using run(2) [OF that(1), of a] that(2) ops(2) by (auto simp: a_rollbackKey_def a_rollbackLock_def)
  show "a_lock a' k = a_lock a k \<and>
      (case commit_info start (a_writes a k) of
         None \<Rightarrow> a_writes a' k = put_version (rollback_value start) (a_writes a k)
       | Some c \<Rightarrow> valueType c = typeRollback \<and> a_writes a' k = a_writes a k)"
    if "k \<in> set ks" "locked_by a k start = None"
    using run(2) [OF that(1), of a] that(2) ops(2) by (auto simp: a_rollbackKey_def split: option.splits if_splits)
  show "a_lock a' k = a_lock a k \<and> a_writes a' k = a_writes a k" if "k \<notin> set ks"
    using run(1) [OF that, of a] ops(2) by simp
qed

section \<open>Simulation of the requests\<close>

lemma Commit_simulates:
  assumes "store_env E" and "abs_rel E (EDB s) a" and "commit \<noteq> lockVer" and "Commit E s ks start commit = (er, s')"
  obtains a' where "a_commit a ks start commit = (er, a')" and "abs_rel E (EDB s') a'"
proof -
  obtain db' where "Commit E s ks start commit = (fst (a_commit a ks start commit), cleanUp_detector E start (s\<lparr>EDB := db'\<rparr>))"
    and "abs_rel E db' (snd (a_commit a ks start commit))"
    using store_env.Commit_refines [OF assms(1-3)] .
  then show ?thesis
    using assms(4) that by (cases "a_commit a ks start commit") (auto simp: cleanUp_detector_def)
qed

lemma Rollback_simulates:
  assumes "store_env E" and "abs_rel E (EDB s) a" and "start \<noteq> lockVer" and "Rollback E s ks start = (er, s')"
  obtains a' where "a_rollback a ks start = (er, a')" and "abs_rel E (EDB s') a'"
proof -
  obtain db' where "Rollback E s ks start = (fst (a_rollback a ks start), cleanUp_detector E start (s\<lparr>EDB := db'\<rparr>))"
    and "abs_rel E db' (snd (a_rollback a ks start))"
    using store_env.Rollback_refines [OF assms(1-3)] .
  then show ?thesis
    using assms(4) that by (cases "a_rollback a ks start") (auto simp: cleanUp_detector_def)
qed

lemma Prewrite_simulates:
  assumes "store_env E" and "abs_rel E (EDB s) a" and "prewrite_ok req" and "Prewrite E s req = Some (errs, s')"
  obtains a' where "a_Prewrite E a req = (errs, a')" and "abs_rel E (EDB s') a'"
proof -
  obtain db' where "Prewrite E s req = Some (fst (a_Prewrite E a req), s\<lparr>EDB := db'\<rparr>)"
    and "abs_rel E db' (snd (a_Prewrite E a req))"
    using store_env.Prewrite_refines [OF assms(1-3)] .
  then show ?thesis
    using assms(4) that by (cases "a_Prewrite E a req") auto
qed

lemma CheckTxnStatus_simulates:
  assumes "store_env E" and "abs_rel E (EDB s) a" and "\<forall>op\<in>set (snd (a_status E a k lockTS callerTS currentTS rb)). aop_ok op"
    and "CheckTxnStatus E s k lockTS callerTS currentTS rb = (st, s')"
  shows "st = fst (a_status E a k lockTS callerTS currentTS rb)"
    and "abs_rel E (EDB s') (a_run (snd (a_status E a k lockTS callerTS currentTS rb)) a)"
proof -
  obtain db' where "store_env.emit E s (a_status E a k lockTS callerTS currentTS rb) =
      (fst (a_status E a k lockTS callerTS currentTS rb), s\<lparr>EDB := db'\<rparr>)"
    and "abs_rel E db' (a_run (snd (a_status E a k lockTS callerTS currentTS rb)) a)"
    using store_env.emit_refines [OF assms(1-3)] .
  then show "st = fst (a_status E a k lockTS callerTS currentTS rb)"
    and "abs_rel E (EDB s') (a_run (snd (a_status E a k lockTS callerTS currentTS rb)) a)"
    using assms(4) store_env.CheckTxnStatus_eq [OF assms(1,2)] by auto
qed

section \<open>Snapshot reads\<close>

text \<open>
  C1. A point read that no lock blocks returns a value exactly when that value is carried by the newest
  data version committed at or before the read timestamp and this version is not a deletion.
\<close>

theorem Get_reads_newest:
  assumes "store_env E" and "abs_rel E (EDB s) a"
    and "case a_lock a k of None \<Rightarrow> True | Some l \<Rightarrow> lock_check E l ts k rl = Inr ts"
  shows "Get E s k ts IsolationLevel_SI rl = Inr (Some x) \<longleftrightarrow>
    (\<exists>v\<in>set (a_writes a k). data_version v \<and> valueType v \<noteq> typeDelete \<and> v_value v = x \<and> commitTS v \<le> ts \<and>
       (\<forall>w\<in>set (a_writes a k). data_version w \<and> commitTS w \<le> ts \<longrightarrow> commitTS w \<le> commitTS v))"
proof -
  have nf: "newest_first (a_writes a k)"
    using assms(2) by (blast intro: abs_rel_wf wf_astateD)
  have "Get E s k ts IsolationLevel_SI rl = Inr (a_read ts (a_writes a k))"
    using assms(3) store_env.db_getValue_refines [OF assms(1,2)] by (auto simp: Get_def a_get_def split: option.splits)
  moreover have "a_read ts (a_writes a k) = Some x \<longleftrightarrow>
      (\<exists>v. visible ts (a_writes a k) = Some v \<and> valueType v \<noteq> typeDelete \<and> v_value v = x)"
    by (auto simp: a_read_def split: option.splits if_splits)
  ultimately show ?thesis
    using visible_Some_iff [OF nf] by auto
qed

definition put_at :: "u64 \<Rightarrow> u64 \<Rightarrow> bytes \<Rightarrow> mvsr_oocValue" where
  "put_at start commit x = \<lparr>valueType = typePut, v_startTS = start, commitTS = commit, v_value = x\<rparr>"

lemma put_at_simps [simp]: "value_ok (put_at st c x) = slice_ok x" "commitTS (put_at st c x) = c" "v_startTS (put_at st c x) = st"
  "valueType (put_at st c x) = typePut" "v_value (put_at st c x) = x" "data_version (put_at st c x)"
  by (simp_all add: put_at_def data_version_def)

definition ex_lock :: "u64 \<Rightarrow> bytes \<Rightarrow> bytes \<Rightarrow> mvsr_oocLock" where
  "ex_lock start prim x = \<lparr>startTS = start, primary = prim, l_value = x, l_op = Op_Put, ttl = 100, forUFIDelateTS = 0,
     txnSize = 1, minCommitTS = start + 1\<rparr>"

lemma ex_lock_simps [simp]: "lock_ok (ex_lock st p x) = (slice_ok p \<and> slice_ok x)" "startTS (ex_lock st p x) = st"
  "primary (ex_lock st p x) = p" "l_value (ex_lock st p x) = x" "l_op (ex_lock st p x) = Op_Put" "ttl (ex_lock st p x) = 100"
  "minCommitTS (ex_lock st p x) = st + 1" "forUFIDelateTS (ex_lock st p x) = 0"
  by (simp_all add: ex_lock_def lock_ok_def)

lemma slice_ok_short [simp]: "slice_ok [x]"
  by (simp add: slice_ok_def)

lemma numeral_lockVer [simp]: "numeral n = lockVer \<longleftrightarrow> (numeral n :: u64) = -1" "lockVer = numeral n \<longleftrightarrow> (numeral n :: u64) = -1"
  by (auto simp: lockVer_def)

theorem Get_reads_newest_witness:
  "Get ref_env (ref_store [SetWrite [7] (put_at 3 5 [1]), SetWrite [7] (put_at 8 9 [2])]) [7] 8 IsolationLevel_SI [] = Inr (Some [1])"
proof -
  let ?ops = "[SetWrite [7] (put_at 3 5 [1]), SetWrite [7] (put_at 8 9 [2])]"
  have r: "abs_rel ref_env (EDB (ref_store ?ops)) (a_run ?ops empty_astate)"
    by (rule ref_store_rel) simp
  have w: "a_lock (a_run ?ops empty_astate) [7] = None" "a_writes (a_run ?ops empty_astate) [7] = [put_at 8 9 [2], put_at 3 5 [1]]"
    by (simp_all add: empty_astate_def)
  show ?thesis
    using Get_reads_newest [OF store_env_ref r, where k = "[7]" and ts = 8 and rl = "[]" and x = "[1]"] unfolding w by simp
qed

text \<open>
  C15. A reader at snapshot isolation and the lock of a transaction that started at or before its timestamp: the
  read fails with the lock's description, unless the lock carries no data, or the reader reads the latest version
  of the lock's primary key, or knows the lock as resolved. In these cases it reads the versions: of the primary
  key those from before the transaction's start, else those at its timestamp. A read at read committed ignores the lock.
\<close>

theorem Get_blocked_by_lock:
  assumes "store_env E" and "abs_rel E (EDB s) a" and "a_lock a k = Some l" and "startTS l \<le> ts"
  shows "Get E s k ts IsolationLevel_SI rl =
      (if l_op l = Op_Lock \<or> l_op l = Op_PessimisticLock then Inr (a_read ts (a_writes a k))
       else if ts = -1 \<and> primary l = k then Inr (a_read (startTS l - 1) (a_writes a k))
       else if startTS l \<in> set rl then Inr (a_read ts (a_writes a k))
       else Inl (lockErr E l k)) \<and>
    Get E s k ts IsolationLevel_RC rl = Inr (a_read ts (a_writes a k))"
  using assms(3,4) store_env.db_getValue_refines [OF assms(1,2)]
  by (auto simp: Get_def a_get_def lock_check_def not_less [symmetric])

theorem Get_blocked_by_lock_witness:
  "Get ref_env (ref_store [SetLock [7] (ex_lock 4 [7] [1])]) [7] 8 IsolationLevel_SI [] = Inl (lockErr ref_env (ex_lock 4 [7] [1]) [7]) \<and>
   Get ref_env (ref_store [SetLock [7] (ex_lock 4 [7] [1])]) [7] 8 IsolationLevel_SI [4] = Inr None \<and>
   Get ref_env (ref_store [SetLock [7] (ex_lock 4 [7] [1])]) [7] (-1) IsolationLevel_SI [] = Inr None"
proof -
  let ?ops = "[SetLock [7] (ex_lock 4 [7] [1])]"
  have r: "abs_rel ref_env (EDB (ref_store ?ops)) (a_run ?ops empty_astate)"
    by (rule ref_store_rel) simp
  have l: "a_lock (a_run ?ops empty_astate) [7] = Some (ex_lock 4 [7] [1])"
    by simp
  note g = Get_blocked_by_lock [OF store_env_ref r l, THEN conjunct1]
  have "a_read t (a_writes (a_run ?ops empty_astate) [7]) = None" for t
    by (simp add: empty_astate_def a_read_def visible_def)
  then show ?thesis
    using g [of 8 "[]"] g [of 8 "[4]"] g [of "-1" "[]"] by simp
qed

section \<open>Commit\<close>

lemma committed_read:
  assumes "store_env E" and "abs_rel E (EDB s) a" and "commit \<noteq> lockVer"
    and "Commit E s ks start commit = (None, s')" and "k \<in> set ks" and "a_lock a k = Some l" and "startTS l = start"
    and "\<forall>v\<in>set (a_writes a k). commitTS v < commit" and "commit \<le> ts"
  shows "Get E s' k ts IsolationLevel_SI rl =
      Inr (if l_op l = Op_Put then Some (l_value l) else if l_op l = Op_Lock then a_read ts (a_writes a k) else None)"
    and "\<exists>a'. abs_rel E (EDB s') a' \<and> a_lock a' k = None"
proof -
  obtain a' where a': "a_commit a ks start commit = (None, a')" and s': "abs_rel E (EDB s') a'"
    using Commit_simulates [OF assms(1-4)] .
  have k: "a_lock a' k = None \<and> a_writes a' k = put_version (commit_version l start commit) (a_writes a k)"
    using a_commit_key(1) [OF a' assms(5)] assms(6,7) by (simp add: locked_by_iff)
  then show "\<exists>a'. abs_rel E (EDB s') a' \<and> a_lock a' k = None"
    using s' by blast
  have "put_version (commit_version l start commit) (a_writes a k) = commit_version l start commit # a_writes a k"
    using assms(8) by (intro put_version_newest) simp
  then show "Get E s' k ts IsolationLevel_SI rl =
      Inr (if l_op l = Op_Put then Some (l_value l) else if l_op l = Op_Lock then a_read ts (a_writes a k) else None)"
    using k assms(9) store_env.db_getValue_refines [OF assms(1) s']
    by (simp add: Get_def a_get_def a_read_Cons data_version_def commit_version_def)
qed

lemma expired_commit:
  assumes "store_env E" and "abs_rel E (EDB s) a" and "a_lock a k = Some l" and "startTS l = start" and "commit < minCommitTS l"
  shows "\<exists>s'. Commit E s [k] start commit = (Some (ErrCommitTSExpired start commit k (minCommitTS l)), s') \<and> EDB s' = EDB s"
proof -
  have "a_commitKey a k start commit = Inl (ErrCommitTSExpired start commit k (minCommitTS l))"
    using assms(3-) by (simp add: a_commitKey_def locked_by_iff [THEN iffD2])
  then show ?thesis
    by (simp add: Commit_def store_env.commitKey_refines [OF assms(1,2)] cleanUp_detector_def)
qed


lemma ref_Commit:
  assumes "\<forall>op\<in>set ops. aop_ok op" and "commit \<noteq> lockVer"
    and "a_collect (\<lambda>k. a_commitKey (a_run ops empty_astate) k start commit) ks = Inr ops'"
  obtains s' where "Commit ref_env (ref_store ops) ks start commit = (None, s')"
  using store_env.Commit_refines [OF store_env_ref ref_store_rel [OF assms(1)] assms(2), of ks start] assms(3)
  by (metis a_commit_def fst_conv sum.case(2))


text \<open>
  C9. A commit never changes what an earlier snapshot reads: whatever its keys and its outcome, a read at a
  timestamp below the commit timestamp gives the same result after it at read committed, which ignores locks;
  and one at snapshot isolation that returned a result before, rather than meeting a lock, returns the same after.
\<close>

theorem Commit_keeps_older_snapshots:
  assumes "store_env E" and "abs_rel E (EDB s) a" and "commit \<noteq> lockVer"
    and "Commit E s ks start commit = (er, s')" and "ts < commit"
  shows "Get E s' k ts IsolationLevel_RC rl = Get E s k ts IsolationLevel_RC rl \<and>
    (\<forall>v. Get E s k ts IsolationLevel_SI rl = Inr v \<longrightarrow> Get E s' k ts IsolationLevel_SI rl = Inr v)"
proof -
  obtain a' where a': "a_commit a ks start commit = (er, a')" and s': "abs_rel E (EDB s') a'"
    using Commit_simulates [OF assms(1-4)] .
  have keep: "a_read ts (a_writes a' k) = a_read ts (a_writes a k) \<and> (a_lock a' k = a_lock a k \<or> a_lock a' k = None)"
  proof (cases er)
    case None
    then show ?thesis
      using a_commit_key [OF a' [unfolded None], of k] assms(5)
      by (cases "locked_by a k start"; cases "k \<in> set ks") (auto simp: a_read_put_newer)
  next
    case (Some e)
    then show ?thesis
      using a' by (auto simp: a_commit_def split: sum.splits)
  qed
  have "ts \<noteq> -1"
    using assms(5) word_order.extremum_strict by blast
  then have same: "lock_check E l ts k rl = Inr ts' \<Longrightarrow> ts' = ts" for l ts'
    by (auto simp: lock_check_def split: if_splits)
  note r = store_env.db_getValue_refines [OF assms(1,2)] store_env.db_getValue_refines [OF assms(1) s']
  have "Get E s' k ts IsolationLevel_RC rl = Get E s k ts IsolationLevel_RC rl"
    using keep by (simp add: Get_def r a_get_def split: option.split)
  moreover have "Get E s' k ts IsolationLevel_SI rl = Inr v" if v: "Get E s k ts IsolationLevel_SI rl = Inr v" for v
  proof (cases "a_lock a k")
    case (Some l)
    then obtain ts' where c: "lock_check E l ts k rl = Inr ts'" "v = a_read ts' (a_writes a k)"
      using v by (cases "lock_check E l ts k rl") (simp_all add: Get_def r a_get_def)
    then show ?thesis
      using keep Some same [OF c(1)] by (auto simp: Get_def r a_get_def)
  qed (use keep v in \<open>auto simp: Get_def r a_get_def\<close>)
  ultimately show ?thesis
    by blast
qed

theorem Commit_keeps_older_snapshots_witness:
  "\<exists>s'. Commit ref_env (ref_store [SetWrite [7] (put_at 2 3 [9]), SetLock [7] (ex_lock 5 [7] [1])]) [[7]] 5 6 = (None, s') \<and>
     Get ref_env s' [7] 5 IsolationLevel_RC [] = Inr (Some [9]) \<and> Get ref_env s' [7] 4 IsolationLevel_SI [] = Inr (Some [9])"
proof -
  let ?ops = "[SetWrite [7] (put_at 2 3 [9]), SetLock [7] (ex_lock 5 [7] [1])]"
  have r: "abs_rel ref_env (EDB (ref_store ?ops)) (a_run ?ops empty_astate)"
    by (rule ref_store_rel) simp
  obtain s' where s': "Commit ref_env (ref_store ?ops) [[7]] 5 6 = (None, s')"
    by (rule ref_Commit [of ?ops 6 5 "[[7]]"]) (auto simp: a_commitKey_def locked_by_def)
  have "Get ref_env (ref_store ?ops) [7] 5 IsolationLevel_RC [] = Inr (Some [9])"
    "Get ref_env (ref_store ?ops) [7] 4 IsolationLevel_SI [] = Inr (Some [9])"
    by (simp_all add: Get_def store_env.db_getValue_refines [OF store_env_ref r] a_get_def lock_check_def empty_astate_def a_read_Cons)
  then show ?thesis
    using s' Commit_keeps_older_snapshots [OF store_env_ref r _ s', of 5 "[7]" "[]"]
      Commit_keeps_older_snapshots [OF store_env_ref r _ s', of 4 "[7]" "[]"] by simp
qed

text \<open>
  C32. A commit that fails changes nothing in the engine, and it fails for one of two reasons: a key's
  lock of this transaction demands a later commit timestamp, or a key has no lock of this transaction
  and no record that it was committed.
\<close>

theorem Commit_failure:
  assumes "store_env E" and "abs_rel E (EDB s) a" and "commit \<noteq> lockVer"
    and "Commit E s ks start commit = (Some e, s')"
  shows "EDB s' = EDB s \<and> (\<exists>k\<in>set ks.
      (\<exists>l. a_lock a k = Some l \<and> startTS l = start \<and> commit < minCommitTS l \<and> e = ErrCommitTSExpired start commit k (minCommitTS l)) \<or>
      ((\<nexists>l. a_lock a k = Some l \<and> startTS l = start) \<and> e = ErrRetryable ''txn not found'' \<and>
       (case commit_info start (a_writes a k) of None \<Rightarrow> True | Some c \<Rightarrow> valueType c = typeRollback)))"
proof -
  obtain a' where a': "a_commit a ks start commit = (Some e, a')"
    using Commit_simulates [OF assms] by blast
  then have c: "a_collect (\<lambda>k. a_commitKey a k start commit) ks = Inl e"
    by (auto simp: a_commit_def split: sum.splits)
  then have "EDB s' = EDB s"
    using assms(4) by (auto simp: Commit_def store_env.commit_loop_refines [OF assms(1,2)] cleanUp_detector_def)
  moreover obtain k where "k \<in> set ks" "a_commitKey a k start commit = Inl e"
    using a_collect_Inl [OF c] by auto
  ultimately show ?thesis
    by (intro conjI bexI [of _ k])
      (auto simp: a_commitKey_def locked_by_def split: option.splits if_splits)
qed

theorem Commit_failure_witness:
  "fst (Commit ref_env (ref_store [SetLock [7] (ex_lock 4 [7] [1])]) [[7]] 4 4) = Some (ErrCommitTSExpired 4 4 [7] 5)"
proof -
  let ?ops = "[SetLock [7] (ex_lock 4 [7] [1])]"
  have r: "abs_rel ref_env (EDB (ref_store ?ops)) (a_run ?ops empty_astate)"
    by (rule ref_store_rel) simp
  obtain er s' where s': "Commit ref_env (ref_store ?ops) [[7]] 4 4 = (er, s')"
    by (cases "Commit ref_env (ref_store ?ops) [[7]] 4 4")
  moreover have "er = fst (a_commit (a_run ?ops empty_astate) [[7]] 4 4)"
    by (rule Commit_simulates [OF store_env_ref r _ s']) simp_all
  ultimately show ?thesis
    using Commit_failure [OF store_env_ref r _, of 4 "[[7]]" 4] by (auto simp: a_commit_def a_commitKey_def locked_by_def)
qed

text \<open>
  Committing again is harmless: after a successful commit whose version is the newest of each of
  its keys, the same commit request succeeds and leaves the engine's view as it is.
\<close>

theorem Commit_again:
  assumes "store_env E" and "abs_rel E (EDB s) a" and "commit \<noteq> lockVer"
    and "Commit E s ks start commit = (None, s')" and "Commit E s' ks start commit = (er, s'')"
    and "\<forall>k\<in>set ks. (\<exists>l. a_lock a k = Some l \<and> startTS l = start) \<and> (\<forall>v\<in>set (a_writes a k). commitTS v < commit)"
  shows "er = None \<and> (\<forall>k ts rl. Get E s'' k ts IsolationLevel_SI rl = Get E s' k ts IsolationLevel_SI rl)"
proof -
  obtain a' where a': "a_commit a ks start commit = (None, a')" and s': "abs_rel E (EDB s') a'"
    using Commit_simulates [OF assms(1-4)] .
  have key: "a_commitKey a' k start commit = Inr []" if k: "k \<in> set ks" for k
  proof -
    obtain l where l: "locked_by a k start = Some l" and new: "\<forall>v\<in>set (a_writes a k). commitTS v < commit"
      using assms(6) k by (auto simp: locked_by_iff)
    have "put_version (commit_version l start commit) (a_writes a k) = commit_version l start commit # a_writes a k"
      using new by (intro put_version_newest) simp
    then have "a_lock a' k = None" "a_writes a' k = commit_version l start commit # a_writes a k"
      using a_commit_key(1) [OF a' k l] by auto
    then show ?thesis
      by (simp add: a_commitKey_def locked_by_def commit_info_def) (simp add: commit_version_def)
  qed
  then have "a_collect (\<lambda>k. a_commitKey a' k start commit) ks = Inr []"
    by (induction ks) auto
  then have "a_commit a' ks start commit = (None, a')"
    by (simp add: a_commit_def)
  then have "er = None" "abs_rel E (EDB s'') a'"
    using Commit_simulates [OF assms(1) s' assms(3,5)] by auto
  then show ?thesis
    using store_env.db_getValue_refines [OF assms(1)] s' by (auto simp: Get_def)
qed

theorem Commit_again_witness:
  "\<exists>s' s''. Commit ref_env (ref_store [SetLock [7] (ex_lock 4 [7] [1])]) [[7]] 4 6 = (None, s') \<and>
     Commit ref_env s' [[7]] 4 6 = (None, s'')"
proof -
  let ?ops = "[SetLock [7] (ex_lock 4 [7] [1])]"
  have r: "abs_rel ref_env (EDB (ref_store ?ops)) (a_run ?ops empty_astate)"
    by (rule ref_store_rel) simp
  obtain s' where s': "Commit ref_env (ref_store ?ops) [[7]] 4 6 = (None, s')"
    by (rule ref_Commit [of ?ops 6 4 "[[7]]"]) (auto simp: a_commitKey_def locked_by_def)
  obtain er s'' where s'': "Commit ref_env s' [[7]] 4 6 = (er, s'')"
    by (cases "Commit ref_env s' [[7]] 4 6")
  then show ?thesis
    using s' Commit_again [OF store_env_ref r _ s' s''] by (simp add: empty_astate_def)
qed

section \<open>Rollback\<close>

definition rollback_marks :: "astate \<Rightarrow> bool" where
  "rollback_marks a = (\<forall>k. \<forall>v\<in>set (a_writes a k). valueType v = typeRollback \<longrightarrow> commitTS v = v_startTS v)"

lemma a_rollback_marked:
  assumes "wf_astate a" and "rollback_marks a" and "a_rollback a ks start = (None, a')" and "k \<in> set ks"
  shows "rolled_back start (a_writes a' k)" and "locked_by a' k start = None"
proof -
  have "rolled_back start (put_version (rollback_value start) ws)" for ws
    unfolding rolled_back_def by (rule bexI [OF _ put_version_mem]) simp
  moreover have "rolled_back start (a_writes a k)"
    if c: "commit_info start (a_writes a k) = Some c" "valueType c = typeRollback" for c
  proof -
    have "c \<in> set (a_writes a k)" "v_startTS c = start"
      using c(1) by (auto simp: commit_info_def find_Some_iff)
    then show ?thesis
      using assms(2) c(2) by (auto simp: rolled_back_def rollback_marks_def)
  qed
  ultimately show "rolled_back start (a_writes a' k)" and "locked_by a' k start = None"
    using a_rollback_key(1,2) [OF assms(3,4)]
    by (cases "locked_by a k start"; auto simp: locked_by_def split: option.splits if_splits)+
qed

text \<open>
  C31. A rolled back transaction stays dead on its keys: after a successful rollback, a commit of any
  of those keys fails, and so does a prewrite of any of them by the same transaction.
\<close>

theorem Rollback_is_final:
  assumes "store_env E" and "abs_rel E (EDB s) a" and "start \<noteq> lockVer" and "rollback_marks a"
    and "Rollback E s ks start = (None, s')" and "k \<in> set ks"
    and "\<forall>v\<in>set (a_writes a k). v_startTS v = start \<longrightarrow> valueType v = typeRollback"
    and "commit \<noteq> lockVer" and "m_Key m = k" and "m_Op m \<noteq> Op_PessimisticLock"
  shows "fst (Commit E s' [k] start commit) = Some (ErrRetryable ''txn not found'') \<and>
    isl (prewriteMutation E (EDB s') batch m start prim ttl0 tsize pess minCommit)"
proof -
  obtain a' where a': "a_rollback a ks start = (None, a')" and s': "abs_rel E (EDB s') a'"
    using Rollback_simulates [OF assms(1-3,5)] .
  have wf: "wf_astate a" "wf_astate a'"
    using assms(2) s' by (auto intro: abs_rel_wf)
  note mark = a_rollback_marked [OF wf(1) assms(4) a' assms(6)]
  have "\<forall>v\<in>set (a_writes a' k). v_startTS v = start \<longrightarrow> valueType v = typeRollback"
    using a_rollback_key(1,2) [OF a' assms(6)] assms(7) wf_astateD(3) [OF wf(1), of k]
    by (cases "locked_by a k start") (auto simp: set_put_version split: option.splits)
  then have "a_commitKey a' k start commit = Inl (ErrRetryable ''txn not found'')"
    using mark(2) by (auto simp: a_commitKey_def commit_info_def find_Some_iff split: option.splits)
  then have "fst (Commit E s' [k] start commit) = Some (ErrRetryable ''txn not found'')"
    using store_env.commitKey_refines [OF assms(1) s'] by (simp add: Commit_def)
  moreover have "isl (a_prewrite E a' m start prim ttl0 tsize pess minCommit)"
    using mark assms(9) a_checkConflict_prewrite [OF assms(10) wf_astateD(3) [OF wf(2), of k], of start]
    by (auto simp: a_prewrite_def locked_by_def split: option.splits if_splits)
  ultimately show ?thesis
    by (auto simp: store_env.prewriteMutation_refines [OF assms(1) s'] map_sum_def isl_def split: sum.splits)
qed

lemma ref_Rollback:
  assumes "\<forall>op\<in>set ops. aop_ok op" and "start \<noteq> lockVer"
    and "a_collect (\<lambda>k. a_rollbackKey (a_run ops empty_astate) k start) ks = Inr ops'"
  obtains s' where "Rollback ref_env (ref_store ops) ks start = (None, s')"
  using store_env.Rollback_refines [OF store_env_ref ref_store_rel [OF assms(1)] assms(2), of ks] assms(3)
  by (metis a_rollback_def fst_conv sum.case(2))

definition ex_put :: "bytes \<Rightarrow> bytes \<Rightarrow> mutation" where
  "ex_put k x = \<lparr>m_Op = Op_Put, m_Key = k, m_Value = x, m_Assertion = Assertion_None\<rparr>"

theorem Rollback_is_final_witness:
  "\<exists>s'. Rollback ref_env (ref_store [SetLock [7] (ex_lock 4 [7] [1])]) [[7]] 4 = (None, s') \<and>
     isl (prewriteMutation ref_env (EDB s') [] (ex_put [7] [2]) 4 [7] 100 1 False 0)"
proof -
  let ?ops = "[SetLock [7] (ex_lock 4 [7] [1])]"
  have r: "abs_rel ref_env (EDB (ref_store ?ops)) (a_run ?ops empty_astate)"
    by (rule ref_store_rel) simp
  obtain s' where s': "Rollback ref_env (ref_store ?ops) [[7]] 4 = (None, s')"
    by (rule ref_Rollback [of ?ops 4 "[[7]]"]) (auto simp: a_rollbackKey_def locked_by_def)
  have "rollback_marks (a_run ?ops empty_astate)"
    by (simp add: rollback_marks_def empty_astate_def)
  then show ?thesis
    using s' Rollback_is_final [OF store_env_ref r _ _ s', of "[7]" 6 "ex_put [7] [2]" "[]" "[7]" 100 1 False 0]
    by (simp add: empty_astate_def ex_put_def)
qed

text \<open>
  A committed transaction cannot be rolled back: where a key without a lock of the transaction
  carries its commit record, a rollback of the key reports the commit timestamp and changes nothing.
\<close>

theorem Rollback_of_committed:
  assumes "store_env E" and "abs_rel E (EDB s) a" and "a_lock a k = None"
    and "commit_info start (a_writes a k) = Some c" and "valueType c \<noteq> typeRollback"
  shows "Rollback E s (k # ks) start = (Some (ErrAlreadyCommitted (commitTS c)), cleanUp_detector E start s)"
  using assms(3-) store_env.rollbackKey_refines [OF assms(1,2)] by (simp add: Rollback_def a_rollbackKey_def locked_by_def)

theorem Rollback_of_committed_witness:
  "fst (Rollback ref_env (ref_store [SetWrite [7] (put_at 3 5 [1])]) [[7]] 3) = Some (ErrAlreadyCommitted 5)"
proof -
  let ?ops = "[SetWrite [7] (put_at 3 5 [1])]"
  have r: "abs_rel ref_env (EDB (ref_store ?ops)) (a_run ?ops empty_astate)"
    by (rule ref_store_rel) simp
  show ?thesis
    using Rollback_of_committed [OF store_env_ref r, of "[7]" 3 "put_at 3 5 [1]" "[]"]
    by (simp add: empty_astate_def commit_info_def)
qed

section \<open>Prewrite\<close>

lemma a_run_locks:
  assumes "\<forall>op\<in>set ops. \<exists>k l. op = SetLock k l \<and> startTS l = start"
    and "locked_by a k start \<noteq> None \<or> (\<exists>l. SetLock k l \<in> set ops)"
  shows "locked_by (a_run ops a) k start \<noteq> None"
  using assms
proof (induction ops arbitrary: a)
  case (Cons op ops)
  obtain k' l' where op: "op = SetLock k' l'" "startTS l' = start"
    using Cons.prems(1) by auto
  then have "locked_by (a_apply op a) k start \<noteq> None \<or> (\<exists>l. SetLock k l \<in> set ops)"
    using Cons.prems(2) by (auto simp: locked_by_def)
  then show ?case
    using Cons by simp
qed simp

lemma a_prewrite_locks:
  assumes "a_prewrite E a m start prim t z p c = Inr ops"
  shows "\<forall>op\<in>set ops. \<exists>k l. op = SetLock k l \<and> startTS l = start"
    and "locked_by a (m_Key m) start \<noteq> None \<or> (\<exists>l. SetLock (m_Key m) l \<in> set ops)"
  using assms by (auto simp: a_prewrite_def prewrite_lock_def locked_by_def split: option.splits if_splits sum.splits)

lemma a_Prewrite_cases:
  assumes "a_Prewrite E a req = (errs, a')"
  shows "(\<exists>e\<in>set errs. e \<noteq> None) \<longleftrightarrow> (\<exists>r\<in>set (a_prewrites E a req). isl r)"
    and "\<forall>e\<in>set errs. e = None \<Longrightarrow> a' = a_run (concat (map ops_of (a_prewrites E a req))) a"
    and "\<exists>e\<in>set errs. e \<noteq> None \<Longrightarrow> a' = a"
proof -
  have e: "errs = concat (map entry_of (a_prewrites E a req))"
    using assms by (simp add: a_Prewrite_def Let_def)
  have "(\<exists>e\<in>set (entry_of r). e \<noteq> None) \<longleftrightarrow> isl r" for r
    by (cases r rule: entry_of.cases) auto
  then show iff: "(\<exists>e\<in>set errs. e \<noteq> None) \<longleftrightarrow> (\<exists>r\<in>set (a_prewrites E a req). isl r)"
    unfolding e by fastforce
  show "a' = a_run (concat (map ops_of (a_prewrites E a req))) a" if "\<forall>e\<in>set errs. e = None"
    using assms iff that by (auto simp: a_Prewrite_def Let_def split: if_splits)
  show "a' = a" if "\<exists>e\<in>set errs. e \<noteq> None"
    using assms iff that by (auto simp: a_Prewrite_def Let_def split: if_splits)
qed

lemma a_prewrites_keys:
  "op \<in> set (concat (map ops_of (a_prewrites E a req))) \<Longrightarrow> \<exists>m\<in>set (pw_Mutations req). m_Op m \<noteq> Op_CheckNotExists \<and> m_Key m = aop_key op"
proof -
  let ?p = "\<lambda>i m. a_prewrite E a m (pw_StartVersion req) (pw_PrimaryLock req) (pw_LockTtl req) (pw_TxnSize req) (is_pess req i) (pw_MinCommitTs req)"
  assume "op \<in> set (concat (map ops_of (a_prewrites E a req)))"
  then obtain i m where im: "(i, m) \<in> set (enumerate 0 (pw_Mutations req))" "op \<in> set (ops_of (a_prewrite1 E a req (i, m)))"
    by (auto simp: a_prewrites_def)
  then obtain ops where "m_Op m \<noteq> Op_CheckNotExists" "?p i m = Inr ops" "op \<in> set ops"
    by (cases "?p i m") (auto simp: a_prewrite1_def split: option.splits if_splits)
  moreover have "m \<in> set (pw_Mutations req)"
    using im(1) by (auto simp: in_set_enumerate_eq)
  ultimately show ?thesis
    using at_ops(3) unfolding at_def by metis
qed

lemma a_run_SetLocks: "\<forall>op\<in>set ops. \<exists>k l. op = SetLock k l \<Longrightarrow> a_writes (a_run ops a) = a_writes a"
proof (induction ops arbitrary: a)
  case (Cons op ops)
  then obtain k l where "op = SetLock k l"
    by auto
  then show ?case
    using Cons by simp
qed simp

lemma a_prewrites_locks:
  assumes "\<forall>r\<in>set (a_prewrites E a req). \<not> isl r"
  shows "\<forall>op\<in>set (concat (map ops_of (a_prewrites E a req))). \<exists>k l. op = SetLock k l \<and> startTS l = pw_StartVersion req"
    and "m \<in> set (pw_Mutations req) \<Longrightarrow> m_Op m \<noteq> Op_CheckNotExists \<Longrightarrow>
      locked_by a (m_Key m) (pw_StartVersion req) \<noteq> None \<or> (\<exists>l. SetLock (m_Key m) l \<in> set (concat (map ops_of (a_prewrites E a req))))"
proof -
  let ?p = "\<lambda>i m. a_prewrite E a m (pw_StartVersion req) (pw_PrimaryLock req) (pw_LockTtl req) (pw_TxnSize req) (is_pess req i) (pw_MinCommitTs req)"
  have one: "a_prewrite1 E a req (i, m) = (if m_Op m = Op_CheckNotExists then Inr None else map_sum id Some (?p i m))"
    if "(i, m) \<in> set (enumerate 0 (pw_Mutations req))" for i m
    using assms that by (force simp: a_prewrites_def a_prewrite1_def split: option.splits)
  show "\<forall>op\<in>set (concat (map ops_of (a_prewrites E a req))). \<exists>k l. op = SetLock k l \<and> startTS l = pw_StartVersion req"
  proof
    fix op
    assume "op \<in> set (concat (map ops_of (a_prewrites E a req)))"
    then obtain i m where im: "(i, m) \<in> set (enumerate 0 (pw_Mutations req))" "op \<in> set (ops_of (a_prewrite1 E a req (i, m)))"
      by (auto simp: a_prewrites_def)
    then obtain ops where "?p i m = Inr ops" "op \<in> set ops"
      using one [OF im(1)] by (cases "?p i m") (auto split: if_splits)
    then show "\<exists>k l. op = SetLock k l \<and> startTS l = pw_StartVersion req"
      using a_prewrite_locks(1) by blast
  qed
  show "locked_by a (m_Key m) (pw_StartVersion req) \<noteq> None \<or> (\<exists>l. SetLock (m_Key m) l \<in> set (concat (map ops_of (a_prewrites E a req))))"
    if m: "m \<in> set (pw_Mutations req)" "m_Op m \<noteq> Op_CheckNotExists"
  proof -
    obtain i where "i < length (pw_Mutations req)" "pw_Mutations req ! i = m"
      using m(1) by (auto simp: in_set_conv_nth)
    then have im: "(i, m) \<in> set (enumerate 0 (pw_Mutations req))"
      by (simp add: in_set_enumerate_eq)
    then have "\<not> isl (a_prewrite1 E a req (i, m))"
      using assms by (auto simp: a_prewrites_def)
    then obtain ops where ops: "?p i m = Inr ops" "ops_of (a_prewrite1 E a req (i, m)) = ops"
      using one [OF im] m(2) by (cases "?p i m") auto
    then have "set ops \<subseteq> set (concat (map ops_of (a_prewrites E a req)))"
      using im by (force simp: a_prewrites_def)
    then show ?thesis
      using a_prewrite_locks(2) [OF ops(1)] by blast
  qed
qed

text \<open>
  C8. Prewrite is all or nothing: where any mutation fails the store is unchanged; where none does, every key of
  the request carries a lock of the transaction afterwards, except that a mutation that only checks that its key
  does not exist takes none: a key with no other mutation keeps the lock it had. No committed version changes.
\<close>

theorem Prewrite_all_or_nothing:
  assumes "store_env E" and "abs_rel E (EDB s) a" and "prewrite_ok req" and "Prewrite E s req = Some (errs, s')"
  shows "if \<exists>e\<in>set errs. e \<noteq> None then s' = s
    else \<exists>a'. abs_rel E (EDB s') a' \<and> a_writes a' = a_writes a \<and>
      (\<forall>m\<in>set (pw_Mutations req). m_Op m \<noteq> Op_CheckNotExists \<longrightarrow>
         (\<exists>l. a_lock a' (m_Key m) = Some l \<and> startTS l = pw_StartVersion req)) \<and>
      (\<forall>k. (\<forall>m\<in>set (pw_Mutations req). m_Key m = k \<longrightarrow> m_Op m = Op_CheckNotExists) \<longrightarrow> a_lock a' k = a_lock a k)"
proof -
  obtain a' where a': "a_Prewrite E a req = (errs, a')" and s': "abs_rel E (EDB s') a'"
    using Prewrite_simulates [OF assms] .
  note c = a_Prewrite_cases [OF a']
  show ?thesis
  proof (cases "\<exists>e\<in>set errs. e \<noteq> None")
    case True
    have "pw_IsPessimisticLock req = [] \<or> 0 + length (pw_Mutations req) \<le> length (pw_IsPessimisticLock req)"
      using assms(3) by (simp add: prewrite_ok_def)
    from store_env.prewrite_loop_refines [OF assms(1,2) this, of "[]" "[]" False]
    have "s' = s"
      using c(1) True assms(4) by (auto simp: Prewrite_def a_prewrites_def)
    then show ?thesis
      using True by simp
  next
    case False
    let ?ops = "concat (map ops_of (a_prewrites E a req))"
    have ok: "\<forall>r\<in>set (a_prewrites E a req). \<not> isl r" and run: "a' = a_run ?ops a"
      using c(1,2) False by blast+
    note locks = a_prewrites_locks(1) [OF ok]
    have "locked_by a' (m_Key m) (pw_StartVersion req) \<noteq> None"
      if "m \<in> set (pw_Mutations req)" "m_Op m \<noteq> Op_CheckNotExists" for m
      using a_run_locks [OF locks a_prewrites_locks(2) [OF ok that]] run by simp
    moreover have "a_writes a' = a_writes a"
      unfolding run by (rule a_run_SetLocks) (use locks in blast)
    moreover have "a_lock a' k = a_lock a k" if "\<forall>m\<in>set (pw_Mutations req). m_Key m = k \<longrightarrow> m_Op m = Op_CheckNotExists" for k
      unfolding run by (rule a_run_other(1)) (use that a_prewrites_keys in blast)
    ultimately show ?thesis
      using s' False by (auto simp: locked_by_iff)
  qed
qed

definition ex_prewrite :: "mutation list \<Rightarrow> u64 \<Rightarrow> PrewriteRequest" where
  "ex_prewrite ms start = \<lparr>pw_Mutations = ms, pw_PrimaryLock = [7], pw_StartVersion = start, pw_LockTtl = 100, pw_TxnSize = 1,
     pw_ForUFIDelateTs = 0, pw_MinCommitTs = 0, pw_IsPessimisticLock = [], pw_ResolvedLocks = []\<rparr>"

theorem Prewrite_all_or_nothing_witness:
  "\<exists>s' a'. Prewrite ref_env (ref_store []) (ex_prewrite [ex_put [7] [1], ex_put [8] [2]] 4) = Some ([None, None], s') \<and>
     abs_rel ref_env (EDB s') a' \<and> a_lock a' [7] \<noteq> None \<and> a_lock a' [8] \<noteq> None"
proof -
  let ?req = "ex_prewrite [ex_put [7] [1], ex_put [8] [2]] 4"
  have r: "abs_rel ref_env (EDB (ref_store [])) (a_run [] empty_astate)"
    by (rule ref_store_rel) simp
  have ok: "prewrite_ok ?req"
    by (simp add: prewrite_ok_def ex_prewrite_def mutations_ok_def ex_put_def)
  have "fst (a_Prewrite ref_env empty_astate ?req) = [None, None]"
    by (simp add: a_Prewrite_def a_prewrites_def a_prewrite1_def a_prewrite_check_def a_prewrite_def ex_prewrite_def ex_put_def
        empty_astate_def a_checkConflict_def is_pess_def)
  then obtain s' where s': "Prewrite ref_env (ref_store []) ?req = Some ([None, None], s')"
    using store_env.Prewrite_refines [OF store_env_ref r ok] by (metis a_run_simps(1))
  show ?thesis
    using s' Prewrite_all_or_nothing [OF store_env_ref r ok s'] by (auto simp: ex_prewrite_def ex_put_def)
qed

text \<open>
  C16. An optimistic prewrite of a key without a lock decides the write conflict: it fails exactly when
  a version newer than the transaction's start exists (naming the newest one) or when the transaction
  was rolled back on the key, and otherwise adds the transaction's lock to the batch.
\<close>

theorem Prewrite_conflict:
  assumes "store_env E" and "abs_rel E db a" and "a_lock a (m_Key m) = None" and "m_Op m \<noteq> Op_PessimisticLock"
  shows "prewriteMutation E db batch m start prim ttl0 tsize False minCommit =
    (if \<exists>v\<in>set (a_writes a (m_Key m)). start < commitTS v
     then Inl (ErrConflict start (v_startTS (hd (a_writes a (m_Key m)))) (commitTS (hd (a_writes a (m_Key m)))) (m_Key m))
     else if \<exists>v\<in>set (a_writes a (m_Key m)). valueType v = typeRollback \<and> commitTS v = start
     then Inl (ErrAlreadyRollbacked start (m_Key m))
     else Inr (batch @ [Put (mvsr_oocEncode E (m_Key m) lockVer)
            (Lock_MarshalBinary E (prewrite_lock m start prim ttl0 tsize minCommit))]))"
proof -
  have nf: "newest_first (a_writes a (m_Key m))"
    using assms(2) by (blast intro: abs_rel_wf wf_astateD)
  show ?thesis
    unfolding store_env.prewriteMutation_refines [OF assms(1,2)] a_prewrite_def assms(3) a_checkConflict_prewrite [OF assms(4) nf]
    by (auto simp: rolled_back_def)
qed

theorem Prewrite_conflict_witness:
  "prewriteMutation ref_env (EDB (ref_store [SetWrite [7] (put_at 3 5 [1])])) [] (ex_put [7] [2]) 4 [7] 100 1 False 0 =
     Inl (ErrConflict 4 3 5 [7])"
proof -
  let ?ops = "[SetWrite [7] (put_at 3 5 [1])]"
  have r: "abs_rel ref_env (EDB (ref_store ?ops)) (a_run ?ops empty_astate)"
    by (rule ref_store_rel) simp
  show ?thesis
    using Prewrite_conflict [OF store_env_ref r, of "ex_put [7] [2]" "[]" 4 "[7]" 100 1 0] by (simp add: empty_astate_def ex_put_def)
qed

section \<open>Transaction status\<close>

lemma u64_less_succ:
  assumes "(x :: u64) \<noteq> - 1"
  shows "x < x + 1"
  using assms by (meson inc_less_eq_triv_imp not_le)

text \<open>
  C17. A reader that finds a live transaction protects its snapshot: after \<open>CheckTxnStatus\<close> has answered
  that the minimal commit timestamp of the primary lock is pushed, a reader with a start timestamp below the
  greatest one is safe, for the transaction can no longer commit at or below that timestamp: such a commit fails
  and names the pushed timestamp. For a reader of the latest version, whose timestamp is the greatest, the
  answer is given although nothing was pushed: the store's locks and versions are as before, and its read of
  the primary key does not fail.
\<close>

theorem CheckTxnStatus_protects_reader:
  assumes "store_env E" and "abs_rel E (EDB s) a" and "a_lock a k = Some l" and "startTS l = lockTS"
    and "CheckTxnStatus E s k lockTS callerTS currentTS rb = (st, s')"
    and "ts_action st = CausetAction_MinCommitTSPushed" and "lockTS \<noteq> lockVer"
  shows "ts_err st = None \<and> ts_ttl st = ttl l \<and>
    (if callerTS = -1 then abs_rel E (EDB s') a \<and> (primary l = k \<longrightarrow> \<not> isl (Get E s' k callerTS IsolationLevel_SI rl))
     else \<exists>m. callerTS < m \<and> (\<forall>commit \<le> callerTS. fst (Commit E s' [k] lockTS commit) = Some (ErrCommitTSExpired lockTS commit k m)))"
proof -
  have lk: "locked_by a k lockTS = Some l" and okl: "lock_ok l"
    using assms(3,4) wf_astateD(2) [OF abs_rel_wf [OF assms(2)]] by (auto simp: locked_by_iff)
  have ok: "\<forall>op\<in>set (snd (a_status E a k lockTS callerTS currentTS rb)). aop_ok op"
    using lk okl assms(7) by (simp add: a_status_def Let_def a_rollbackLock_def lock_ok_def)
  note sim = CheckTxnStatus_simulates [OF assms(1,2) ok assms(5)]
  have ne: "\<not> ttl_expired E l currentTS"
    using sim(1) assms(6) lk by (auto simp: a_status_def Let_def split: if_splits)
  show ?thesis
  proof (cases "callerTS = -1")
    case True
    have st: "ts_err st = None" "ts_ttl st = ttl l" "abs_rel E (EDB s') a"
      using sim True lk ne by (simp_all add: a_status_def)
    moreover have "\<not> isl (Get E s' k callerTS IsolationLevel_SI rl)" if "primary l = k"
      using that assms(3) True store_env.db_getValue_refines [OF assms(1) st(3)] by (simp add: Get_def a_get_def lock_check_def)
    ultimately show ?thesis
      using True by simp
  next
    case False
    let ?m = "if minCommitTS l < callerTS + 1 then pushed_min callerTS currentTS else minCommitTS l"
    let ?a' = "a_run (snd (a_status E a k lockTS callerTS currentTS rb)) a"
    have st: "0 < minCommitTS l"
      using sim(1) assms(6) False lk by (auto simp: a_status_def Let_def split: if_splits)
    have "callerTS < callerTS + 1"
      using False by (rule u64_less_succ)
    then have m: "callerTS < ?m"
      by (auto simp: pushed_min_def not_less intro: less_le_trans)
    have lk': "locked_by ?a' k lockTS = Some (l\<lparr>minCommitTS := ?m\<rparr>)"
      using lk assms(3,4) False st ne by (auto simp: a_status_def Let_def locked_by_def)
    have "fst (Commit E s' [k] lockTS commit) = Some (ErrCommitTSExpired lockTS commit k ?m)" if "commit \<le> callerTS" for commit
    proof -
      have "a_commitKey ?a' k lockTS commit = Inl (ErrCommitTSExpired lockTS commit k ?m)"
        using lk' le_less_trans [OF that m] by (simp add: a_commitKey_def)
      then show ?thesis
        using store_env.commitKey_refines [OF assms(1) sim(2)] by (simp add: Commit_def)
    qed
    moreover have "ts_err st = None" "ts_ttl st = ttl l"
      using sim(1) lk st ne False by (auto simp: a_status_def Let_def)
    ultimately show ?thesis
      using m False by auto
  qed
qed

lemma ref_CheckTxnStatus:
  assumes "\<forall>op\<in>set ops. aop_ok op"
  shows "fst (CheckTxnStatus ref_env (ref_store ops) k lockTS callerTS currentTS rb) =
    fst (a_status ref_env (a_run ops empty_astate) k lockTS callerTS currentTS rb)"
  by (simp add: store_env.CheckTxnStatus_eq [OF store_env_ref ref_store_rel [OF assms]] store_env.emit_def [OF store_env_ref])

theorem CheckTxnStatus_protects_reader_witness:
  "\<exists>st s' m. CheckTxnStatus ref_env (ref_store [SetLock [7] (ex_lock 4 [7] [1])]) [7] 4 9 9 False = (st, s') \<and> 9 < m \<and>
     fst (Commit ref_env s' [[7]] 4 6) = Some (ErrCommitTSExpired 4 6 [7] m)"
proof -
  let ?ops = "[SetLock [7] (ex_lock 4 [7] [1])]"
  have r: "abs_rel ref_env (EDB (ref_store ?ops)) (a_run ?ops empty_astate)"
    by (rule ref_store_rel) simp
  obtain st s' where st: "CheckTxnStatus ref_env (ref_store ?ops) [7] 4 9 9 False = (st, s')"
    by (cases "CheckTxnStatus ref_env (ref_store ?ops) [7] 4 9 9 False")
  have "st = fst (a_status ref_env (a_run ?ops empty_astate) [7] 4 9 9 False)"
    using ref_CheckTxnStatus [of ?ops "[7]" 4 9 9 False] st by simp
  then have "ts_action st = CausetAction_MinCommitTSPushed"
    by (simp add: a_status_def locked_by_def ttl_expired_def)
  then show ?thesis
    using st CheckTxnStatus_protects_reader [OF store_env_ref r _ _ st, of "ex_lock 4 [7] [1]" "[]"] by auto
qed

text \<open>
  C30. The status of a transaction on its primary key is decided on every path: an expired lock is
  rolled back, a commit record gives its commit timestamp, a rollback record gives zero, and a
  transaction that left no trace is either reported as missing or, when asked, marked as rolled back
  so that it can never be prewritten on that key again.
\<close>

theorem CheckTxnStatus_decides:
  assumes "store_env E" and "abs_rel E (EDB s) a" and "lockTS \<noteq> lockVer"
    and "CheckTxnStatus E s k lockTS callerTS currentTS rb = (st, s')"
  shows "case locked_by a k lockTS of
      Some l \<Rightarrow> ttl_expired E l currentTS \<longrightarrow> ts_action st = CausetAction_TTLExpireRollback \<and> ts_ttl st = 0 \<and> ts_commitTS st = 0 \<and>
        (\<exists>a'. abs_rel E (EDB s') a' \<and> a_lock a' k = None \<and> rolled_back lockTS (a_writes a' k))
    | None \<Rightarrow>
        (case commit_info lockTS (a_writes a k) of
           Some c \<Rightarrow> s' = s \<and> ts_err st = None \<and> ts_commitTS st = (if valueType c = typeRollback then 0 else commitTS c)
         | None \<Rightarrow> if rb then ts_action st = CausetAction_LockNotExistRollback \<and>
                      (\<exists>a'. abs_rel E (EDB s') a' \<and> rolled_back lockTS (a_writes a' k))
                  else s' = s \<and> ts_err st = Some (ErrTxnNotFound lockTS k))"
proof -
  have okl: "locked_by a k lockTS = Some l \<Longrightarrow> lock_ok l" for l
    using wf_astateD(2) [OF abs_rel_wf [OF assms(2)]] by (auto simp: locked_by_iff)
  have ok: "\<forall>op\<in>set (snd (a_status E a k lockTS callerTS currentTS rb)). aop_ok op"
    using okl assms(3) by (auto simp: a_status_def Let_def a_rollbackLock_def lock_ok_def split: option.splits)
  note sim = CheckTxnStatus_simulates [OF assms(1,2) ok assms(4)]
  have same: "s' = s" if "snd (a_status E a k lockTS callerTS currentTS rb) = []"
    using that assms(4) store_env.CheckTxnStatus_eq [OF assms(1,2)] by (auto simp: store_env.emit_def [OF assms(1)])
  have mark: "rolled_back lockTS (put_version (rollback_value lockTS) ws)" for ws
    unfolding rolled_back_def by (rule bexI [OF _ put_version_mem]) simp
  show ?thesis
  proof (cases "locked_by a k lockTS")
    case (Some l)
    have "\<exists>a'. abs_rel E (EDB s') a' \<and> a_lock a' k = None \<and> rolled_back lockTS (a_writes a' k)" if "ttl_expired E l currentTS"
      using sim(2) Some that mark by (intro exI [of _ "a_run (a_rollbackLock k lockTS) a"]) (auto simp: a_status_def a_rollbackLock_def Let_def)
    then show ?thesis
      using sim(1) Some by (auto simp: a_status_def Let_def)
  next
    case None
    note n = this
    show ?thesis
    proof (cases "commit_info lockTS (a_writes a k)")
      case (Some c)
      then show ?thesis
        using sim(1) n same by (auto simp: a_status_def Let_def)
    next
      case None
      have "\<exists>a'. abs_rel E (EDB s') a' \<and> rolled_back lockTS (a_writes a' k)" if rb
        using sim(2) n None that mark by (intro exI [of _ "a_run [SetWrite k (rollback_value lockTS)] a"]) (auto simp: a_status_def Let_def)
      then show ?thesis
        using sim(1) n None same by (auto simp: a_status_def Let_def)
    qed
  qed
qed

theorem CheckTxnStatus_decides_witness:
  "ts_commitTS (fst (CheckTxnStatus ref_env (ref_store [SetWrite [7] (put_at 3 5 [1])]) [7] 3 9 9 False)) = 5"
proof -
  let ?ops = "[SetWrite [7] (put_at 3 5 [1])]"
  have r: "abs_rel ref_env (EDB (ref_store ?ops)) (a_run ?ops empty_astate)"
    by (rule ref_store_rel) simp
  obtain st s' where st: "CheckTxnStatus ref_env (ref_store ?ops) [7] 3 9 9 False = (st, s')"
    by (cases "CheckTxnStatus ref_env (ref_store ?ops) [7] 3 9 9 False")
  show ?thesis
    using st CheckTxnStatus_decides [OF store_env_ref r _ st] by (simp add: empty_astate_def locked_by_def commit_info_def)
qed

text \<open>
  A heartbeat of a live transaction on its primary key answers the larger of the advised and the
  stored time to live and stores it; the rest of the lock and every version stay as they are.
\<close>

theorem TxnHeartBeat_extends:
  assumes "store_env E" and "abs_rel E (EDB s) a" and "a_lock a k = Some l" and "startTS l = start" and "primary l = k"
    and "TxnHeartBeat E s k start adviseTTL = (r, s')"
  shows "r = Inr (max adviseTTL (ttl l)) \<and>
    (\<exists>a'. abs_rel E (EDB s') a' \<and> a_lock a' = (a_lock a)(k \<mapsto> l\<lparr>ttl := max adviseTTL (ttl l)\<rparr>) \<and> a_writes a' = a_writes a)"
proof -
  have lk: "locked_by a k start = Some l" and okl: "lock_ok l"
    using assms(3,4) wf_astateD(2) [OF abs_rel_wf [OF assms(2)]] by (auto simp: locked_by_iff)
  let ?h = "a_heartbeat a k start adviseTTL"
  have ok: "\<forall>op\<in>set (snd ?h). aop_ok op"
    using lk okl by (auto simp: a_heartbeat_def lock_ok_def)
  obtain db' where db': "store_env.emit E s ?h = (fst ?h, s\<lparr>EDB := db'\<rparr>)" "abs_rel E db' (a_run (snd ?h) a)"
    using store_env.emit_refines [OF assms(1,2) ok] .
  then have "r = fst ?h" "abs_rel E (EDB s') (a_run (snd ?h) a)"
    using assms(6) store_env.TxnHeartBeat_eq [OF assms(1,2)] by auto
  moreover have "l\<lparr>ttl := ttl l\<rparr> = l"
    by simp
  ultimately show ?thesis
    using lk assms(3,5) by (auto simp: a_heartbeat_def max_def intro!: exI [of _ "a_run (snd ?h) a"])
qed

theorem TxnHeartBeat_extends_witness:
  "fst (TxnHeartBeat ref_env (ref_store [SetLock [7] (ex_lock 4 [7] [1])]) [7] 4 500) = Inr 500"
proof -
  let ?ops = "[SetLock [7] (ex_lock 4 [7] [1])]"
  have r: "abs_rel ref_env (EDB (ref_store ?ops)) (a_run ?ops empty_astate)"
    by (rule ref_store_rel) simp
  obtain h s' where h: "TxnHeartBeat ref_env (ref_store ?ops) [7] 4 500 = (h, s')"
    by (cases "TxnHeartBeat ref_env (ref_store ?ops) [7] 4 500")
  show ?thesis
    using h TxnHeartBeat_extends [OF store_env_ref r _ _ _ h, of "ex_lock 4 [7] [1]"] by simp
qed

section \<open>Ranges\<close>

text \<open>
  C14. A scan returns, in ascending key order and up to its limit, exactly what point reads of the keys
  of its range return: a pair with the value where the read finds one, a pair with the error where it
  fails, nothing where it finds none.
\<close>

theorem Scan_is_point_reads:
  assumes "store_env E" and "abs_rel E (EDB s) a" and "0 \<le> limit"
  shows "Scan E s startKey endKey limit ts lv rl =
      Some (take (nat limit) (concat (map (\<lambda>k. scan_append [] k (Get E s k ts lv rl)) (range_keys a startKey endKey)))) \<and>
    sorted_wrt (<) (range_keys a startKey endKey) \<and>
    (\<forall>k. k \<in> set (range_keys a startKey endKey) \<longleftrightarrow> k \<in> a_keys a \<and> startKey \<le> k \<and> (endKey = [] \<or> k < endKey))"
  using store_env.Scan_refines [OF assms(1,2)] store_env.db_getValue_refines [OF assms(1,2)]
    range_keys_props [OF abs_rel_wf [OF assms(2)]] assms(3)
  by (auto simp: a_scan_take a_pairs_def Get_def)

theorem Scan_is_point_reads_witness:
  "Scan ref_env (ref_store [SetWrite [7] (put_at 3 5 [1]), SetWrite [8] (put_at 3 5 [2])]) [] [] 10 6 IsolationLevel_SI [] =
     Some [\<lparr>p_Key = [7], p_Value = Some [1], p_Err = None\<rparr>, \<lparr>p_Key = [8], p_Value = Some [2], p_Err = None\<rparr>]"
proof -
  let ?ops = "[SetWrite [7] (put_at 3 5 [1]), SetWrite [8] (put_at 3 5 [2])]"
  let ?a = "a_run ?ops empty_astate"
  have r: "abs_rel ref_env (EDB (ref_store ?ops)) ?a"
    by (rule ref_store_rel) simp
  have "a_keys ?a = {[7], [8]}"
    by (auto simp: a_keys_def empty_astate_def)
  then have k: "range_keys ?a [] [] = [[7], [8]]"
    by (simp add: range_keys_def sorted_keys_def)
  have "Get ref_env (ref_store ?ops) [7] 6 IsolationLevel_SI [] = Inr (Some [1])"
    "Get ref_env (ref_store ?ops) [8] 6 IsolationLevel_SI [] = Inr (Some [2])"
    by (simp_all add: Get_def store_env.db_getValue_refines [OF store_env_ref r] a_get_def empty_astate_def a_read_Cons)
  then show ?thesis
    using Scan_is_point_reads [OF store_env_ref r, of 10 "[]" "[]" 6 IsolationLevel_SI "[]"] k by (simp add: scan_append_def)
qed

lemma lock_info_mem:
  "li \<in> set (lock_info E a maxTS k) \<longleftrightarrow> (\<exists>l. a_lock a k = Some l \<and> startTS l \<le> maxTS \<and>
     li = \<lparr>li_Key = k, li_PrimaryLock = primary l, li_LockVersion = startTS l, li_LockTtl = 0,
           li_TxnSize = 0, li_LockType = op_of_number E 0, li_LockForUFIDelateTs = 0\<rparr>)"
  by (cases "a_lock a k") (auto simp: lock_info_def)

text \<open>
  A lock scan returns the locks of its range that started at or before the given timestamp, all of
  them, in key order.
\<close>

theorem ScanLock_complete:
  assumes "store_env E" and "abs_rel E (EDB s) a"
  shows "\<exists>ls. ScanLock E s startKey endKey maxTS = Some (Inr ls) \<and> sorted_wrt (<) (map li_Key ls) \<and>
    (\<forall>k p st. (\<exists>li\<in>set ls. li_Key li = k \<and> li_PrimaryLock li = p \<and> li_LockVersion li = st) \<longleftrightarrow>
       startKey \<le> k \<and> (endKey = [] \<or> k < endKey) \<and> (\<exists>l. a_lock a k = Some l \<and> primary l = p \<and> startTS l = st \<and> st \<le> maxTS))"
proof -
  have wf: "wf_astate a"
    using assms(2) by (rule abs_rel_wf)
  let ?ls = "concat (map (lock_info E a maxTS) (range_keys a startKey endKey))"
  have "sorted_wrt (<) (concat (map (map li_Key \<circ> lock_info E a maxTS) (range_keys a startKey endKey)))"
    by (rule sorted_wrt_concat_map [OF range_keys_props(1) [OF wf]]) (auto simp: lock_info_def split: option.splits if_splits)
  then have "sorted_wrt (<) (map li_Key ?ls)"
    by (simp add: map_concat)
  moreover have "(\<exists>li\<in>set ?ls. li_Key li = k \<and> li_PrimaryLock li = p \<and> li_LockVersion li = st) \<longleftrightarrow>
      startKey \<le> k \<and> (endKey = [] \<or> k < endKey) \<and> (\<exists>l. a_lock a k = Some l \<and> primary l = p \<and> startTS l = st \<and> st \<le> maxTS)" for k p st
    using range_keys_props(2) [OF wf, of startKey endKey] by (auto simp: lock_info_mem a_keys_def)
  ultimately show ?thesis
    using store_env.ScanLock_refines [OF assms] by blast
qed

lemma a_resolve_key:
  assumes "store_env E" and "wf_astate a"
  defines "a' \<equiv> \<lambda>start commit startKey endKey. a_run (concat (map (a_resolve a [start \<mapsto> commit]) (range_keys a startKey endKey))) a"
  shows "case a_lock a k of
       Some l \<Rightarrow>
         if startTS l = start \<and> startKey \<le> k \<and> (endKey = [] \<or> k < endKey)
         then a_lock (a' start commit startKey endKey) k = None \<and> a_writes (a' start commit startKey endKey) k =
             put_version (if commit > 0 then commit_version l start commit else rollback_value start) (a_writes a k)
         else a_lock (a' start commit startKey endKey) k = Some l \<and> a_writes (a' start commit startKey endKey) k = a_writes a k
     | None \<Rightarrow> a_lock (a' start commit startKey endKey) k = None \<and> a_writes (a' start commit startKey endKey) k = a_writes a k"
  using a_run_concat_at [of "range_keys a startKey endKey" "a_resolve a [start \<mapsto> commit]" a,
      OF at_ops(4) store_env.range_keys_ok(1) [OF assms(1,2)], of k] range_keys_props(2) [OF assms(2), of startKey endKey]
  unfolding a'_def by (cases "a_lock a k") (auto simp: a_resolve_def a_commitLock_def a_rollbackLock_def a_keys_def)

text \<open>
  C33. Resolving the locks of a transaction over a range settles them all: no key of the range keeps a
  lock of the transaction; a positive commit timestamp turns each into the version it held, zero into a
  rollback record; every other lock, and every key outside the range, is untouched.
\<close>

theorem ResolveLock_settles:
  assumes "store_env E" and "abs_rel E (EDB s) a" and "start \<noteq> lockVer" and "commit \<noteq> lockVer"
  shows "\<exists>s' a'. ResolveLock E s startKey endKey start commit = Some (None, s') \<and> abs_rel E (EDB s') a' \<and>
    (\<forall>k. case a_lock a k of
       Some l \<Rightarrow>
         if startTS l = start \<and> startKey \<le> k \<and> (endKey = [] \<or> k < endKey)
         then a_lock a' k = None \<and>
           a_writes a' k = put_version (if commit > 0 then commit_version l start commit else rollback_value start) (a_writes a k)
         else a_lock a' k = Some l \<and> a_writes a' k = a_writes a k
     | None \<Rightarrow> a_lock a' k = None \<and> a_writes a' k = a_writes a k)"
proof -
  have wf: "wf_astate a"
    using assms(2) by (rule abs_rel_wf)
  let ?tc = "[start \<mapsto> commit]" and ?ks = "range_keys a startKey endKey"
  have "resolve_ok a ?tc ?ks"
    using assms(3,4) by (auto simp: resolve_ok_def)
  then obtain db' where db': "BatchResolveLock E s startKey endKey ?tc = Some (None, s\<lparr>EDB := db'\<rparr>)"
    "abs_rel E db' (a_run (concat (map (a_resolve a ?tc) ?ks)) a)"
    using store_env.resolve_refines [OF assms(1,2)] by blast
  note key = a_resolve_key [OF assms(1) wf, of start commit startKey endKey]
  show ?thesis
    using db' key store_env.ResolveLock_Batch [OF assms(1), of s]
    by (intro exI [of _ "s\<lparr>EDB := db'\<rparr>"] exI [of _ "a_run (concat (map (a_resolve a ?tc) ?ks)) a"] conjI allI) simp_all
qed

theorem ScanLock_complete_witness:
  "\<exists>ls. ScanLock ref_env (ref_store [SetLock [7] (ex_lock 4 [7] [1])]) [] [] 9 = Some (Inr ls) \<and> (\<exists>li\<in>set ls. li_Key li = [7])"
proof -
  let ?ops = "[SetLock [7] (ex_lock 4 [7] [1])]"
  have r: "abs_rel ref_env (EDB (ref_store ?ops)) (a_run ?ops empty_astate)"
    by (rule ref_store_rel) simp
  obtain ls where "ScanLock ref_env (ref_store ?ops) [] [] 9 = Some (Inr ls)"
    "\<forall>k p st. (\<exists>li\<in>set ls. li_Key li = k \<and> li_PrimaryLock li = p \<and> li_LockVersion li = st) \<longleftrightarrow>
       (\<exists>l. a_lock (a_run ?ops empty_astate) k = Some l \<and> primary l = p \<and> startTS l = st \<and> st \<le> 9)"
    using ScanLock_complete [OF store_env_ref r, of "[]" "[]" 9] by auto
  moreover from this(2) have "\<exists>li\<in>set ls. li_Key li = [7] \<and> li_PrimaryLock li = [7] \<and> li_LockVersion li = 4"
    by simp
  ultimately show ?thesis by blast
qed

theorem ResolveLock_settles_witness:
  "\<exists>s' a'. ResolveLock ref_env (ref_store [SetLock [7] (ex_lock 4 [7] [1])]) [] [] 4 6 = Some (None, s') \<and>
     abs_rel ref_env (EDB s') a' \<and> a_lock a' [7] = None \<and> a_writes a' [7] = [commit_version (ex_lock 4 [7] [1]) 4 6]"
proof -
  let ?ops = "[SetLock [7] (ex_lock 4 [7] [1])]"
  have r: "abs_rel ref_env (EDB (ref_store ?ops)) (a_run ?ops empty_astate)"
    by (rule ref_store_rel) simp
  from ResolveLock_settles [OF store_env_ref r, of 4 6 "[]" "[]"] show ?thesis
    by simp (elim exE conjE, drule spec [of _ "[7]"], auto simp: empty_astate_def)
qed

lemma u64_le_pred: "(x :: u64) < y \<Longrightarrow> x \<le> y - 1"
  by (simp add: word_le_nat_alt word_less_nat_alt unat_sub_if')

lemma a_collect_Inl_iff: "(\<exists>e. a_collect f xs = Inl e) \<longleftrightarrow> (\<exists>x\<in>set xs. isl (f x))"
  by (induction xs) (auto split: sum.splits)

text \<open>What garbage collection leaves of a key: its lock, and what readers at or after the safe point find.\<close>

lemma a_GC_key:
  assumes "wf_astate a"
  shows "a_lock (a_run (snd (a_GC a sp ks)) a) k = a_lock a k"
    and "sp \<le> ts \<Longrightarrow> a_read ts (a_writes (a_run (snd (a_GC a sp ks)) a) k) = a_read ts (a_writes a k)"
    and "k \<notin> set ks \<or> fst (a_GC a sp ks) \<noteq> None \<Longrightarrow> a_writes (a_run (snd (a_GC a sp ks)) a) k = a_writes a k"
proof -
  have at: "\<forall>k ops. a_gc a sp k = Inr ops \<longrightarrow> at k ops \<and> idem ops"
    by (blast intro: at_ops idem_ops)
  have vs: "newest_first (a_writes a k)" "\<forall>v\<in>set (a_writes a k). value_ok v"
    using wf_astateD [OF assms] by blast+
  have *: "a_lock (a_run (snd (a_GC a sp ks)) a) k = a_lock a k \<and>
      (sp \<le> ts \<longrightarrow> a_read ts (a_writes (a_run (snd (a_GC a sp ks)) a) k) = a_read ts (a_writes a k)) \<and>
      (k \<notin> set ks \<or> fst (a_GC a sp ks) \<noteq> None \<longrightarrow> a_writes (a_run (snd (a_GC a sp ks)) a) k = a_writes a k)" for ts
  proof (cases "a_collect (a_gc a sp) ks")
    case (Inr ops)
    note run = a_run_collect [OF Inr at, of k a]
    have "a_lock (a_run ops a) k = a_lock a k \<and>
        (a_writes (a_run ops a) k = a_writes a k \<or> k \<in> set ks \<and> a_writes (a_run ops a) k = gc_survivors sp True (a_writes a k))"
      using run filter_gc_victims [OF vs(1), of sp True]
      by (cases "k \<in> set ks") (auto simp: a_gc_def a_run_DelWrites split: option.splits)
    then show ?thesis
      using Inr a_read_gc_survivors [OF vs(1) _ vs(2), of sp ts] by (auto simp: a_GC_def)
  qed (simp add: a_GC_def)
  then show "a_lock (a_run (snd (a_GC a sp ks)) a) k = a_lock a k"
    and "sp \<le> ts \<Longrightarrow> a_read ts (a_writes (a_run (snd (a_GC a sp ks)) a) k) = a_read ts (a_writes a k)"
    and "k \<notin> set ks \<or> fst (a_GC a sp ks) \<noteq> None \<Longrightarrow> a_writes (a_run (snd (a_GC a sp ks)) a) k = a_writes a k"
    by blast+
qed

text \<open>
  C13. Garbage collection up to a safe point preserves every snapshot at or after it: each key read at such a
  timestamp, at either isolation level, gives what it gave before, be it a value or the error of a lock; the
  collection refuses exactly when a lock of the range started at or before the safe point.
\<close>

theorem GC_keeps_snapshots:
  assumes "store_env E" and "abs_rel E (EDB s) a" and "GC E s startKey endKey safePoint = Some (er, s')"
  shows "(er = None \<longleftrightarrow> (\<forall>k l. startKey \<le> k \<and> (endKey = [] \<or> k < endKey) \<and> a_lock a k = Some l \<longrightarrow> safePoint < startTS l)) \<and>
    (safePoint \<le> ts \<longrightarrow> Get E s' k ts lv rl = Get E s k ts lv rl)"
proof -
  have wf: "wf_astate a"
    using assms(2) by (rule abs_rel_wf)
  let ?ks = "range_keys a startKey endKey"
  let ?r = "a_GC a safePoint ?ks"
  obtain db' where gc: "GC E s startKey endKey safePoint = Some (fst ?r, s\<lparr>EDB := db'\<rparr>)" and db': "abs_rel E db' (a_run (snd ?r) a)"
    using store_env.GC_refines [OF assms(1,2)] .
  then have er: "er = fst ?r" and s': "abs_rel E (EDB s') (a_run (snd ?r) a)"
    using assms(3) by auto
  have "er = None \<longleftrightarrow> \<not> (\<exists>k\<in>set ?ks. isl (a_gc a safePoint k))"
    using a_collect_Inl_iff [of "a_gc a safePoint" ?ks] er by (auto simp: a_GC_def split: sum.splits)
  moreover have "isl (a_gc a safePoint k) \<longleftrightarrow> (\<exists>l. a_lock a k = Some l \<and> startTS l \<le> safePoint)" for k
    by (cases "a_lock a k") (auto simp: a_gc_def under_safe_point_def)
  moreover have mem: "k \<in> set ?ks \<longleftrightarrow> startKey \<le> k \<and> (endKey = [] \<or> k < endKey)" if "a_lock a k = Some l" for k l
    using that range_keys_props(2) [OF wf, of startKey endKey] by (simp add: a_keys_def)
  ultimately have none: "er = None \<longleftrightarrow>
      (\<forall>k l. startKey \<le> k \<and> (endKey = [] \<or> k < endKey) \<and> a_lock a k = Some l \<longrightarrow> safePoint < startTS l)"
    unfolding not_le [symmetric] by blast
  note g = a_GC_key [OF wf, where sp = safePoint and ks = ?ks and k = k]
  have "a_read t (a_writes (a_run (snd ?r) a) k) = a_read t (a_writes a k)"
    if "safePoint \<le> ts" "a_lock a k = Some l" "lock_check E l ts k rl = Inr t" for l t
  proof (cases "t = ts")
    case False
    then have t: "t = startTS l - 1"
      using that(3) by (auto simp: lock_check_def split: if_splits)
    show ?thesis
    proof (cases "k \<in> set ?ks \<and> er = None")
      case True
      then have "safePoint < startTS l"
        using none mem [OF that(2)] that(2) by blast
      then have "safePoint \<le> t"
        unfolding t by (rule u64_le_pred)
      then show ?thesis
        by (rule g(2))
    qed (use g(3) er in auto)
  qed (use g(2) that(1) in simp)
  then show ?thesis
    using none g(1,2) store_env.db_getValue_refines [OF assms(1)] assms(2) s' by (auto simp: Get_def a_get_def split: option.splits sum.splits)
qed

theorem GC_keeps_snapshots_witness:
  "\<exists>s'. GC ref_env (ref_store [SetWrite [7] (put_at 3 5 [1]), SetWrite [7] (put_at 6 7 [2])]) [] [] 8 = Some (None, s') \<and>
     Get ref_env s' [7] 8 IsolationLevel_SI [] =
     Get ref_env (ref_store [SetWrite [7] (put_at 3 5 [1]), SetWrite [7] (put_at 6 7 [2])]) [7] 8 IsolationLevel_SI []"
proof -
  let ?ops = "[SetWrite [7] (put_at 3 5 [1]), SetWrite [7] (put_at 6 7 [2])]"
  have r: "abs_rel ref_env (EDB (ref_store ?ops)) (a_run ?ops empty_astate)"
    by (rule ref_store_rel) simp
  obtain er s' where s': "GC ref_env (ref_store ?ops) [] [] 8 = Some (er, s')"
    using store_env.GC_refines [OF store_env_ref r, of "[]" "[]" 8] by blast
  have "er = None"
    using GC_keeps_snapshots [OF store_env_ref r s', of 8 "[7]" IsolationLevel_SI "[]"] by (simp add: empty_astate_def)
  then show ?thesis
    using s' GC_keeps_snapshots [OF store_env_ref r s', of 8 "[7]" IsolationLevel_SI "[]"] by simp
qed

end
