(* ===== verification/Store_Locks.thy ===== *)
theory Store_Locks
  imports Store_Theorems
begin

text \<open>
  Theorems on pessimistic locks and on \<open>Cleanup\<close>.
\<close>

section \<open>Pessimistic locks\<close>

lemma a_conflict_loop_error: "a_conflict_loop m start nA nG nR rv vs = Inl e \<Longrightarrow> \<not> isErrLocked (Some e)"
  by (induction vs arbitrary: nA nG nR rv) (auto simp: Let_def split: if_splits)

lemma a_checkConflict_error: "a_checkConflict m f st g vs = Inl e \<Longrightarrow> \<not> isErrLocked (Some e)"
  by (cases vs) (auto simp: a_checkConflict_def dest: a_conflict_loop_error split: if_splits sum.splits simp del: a_conflict_loop.simps)

lemma convert_other: "\<not> isErrLocked (Some e) \<Longrightarrow> convertToKeyError E e \<noteq> None"
  by (cases e) auto


context codec
begin

lemma convert_lockErr: "convertToKeyError E (lockErr E l k) \<noteq> None"
  using DecodeBytes_Encode [of k] by (simp add: lockErr_def mvsr_oocEncode_eq MvccKey_Raw_def)

lemma a_pessimisticLock_error:
  "a_pessimisticLock E a dd m lctx = (Some e, ops, vals, dd') \<Longrightarrow> convertToKeyError E e \<noteq> None"
  using convert_lockErr
  by (auto simp: a_pessimisticLock_def dest!: a_checkConflict_error convert_other split: option.splits if_splits sum.splits prod.splits)

lemma a_pessimisticLocks_errors:
  "a_pessimisticLocks E wait a dd ms lctx = (ers, ops, vals, dd') \<Longrightarrow> Some e \<in> set ers \<Longrightarrow> convertToKeyError E e \<noteq> None"
proof (induction ms arbitrary: dd ers ops vals)
  case (Cons m ms)
  then show ?case
    by (auto dest: a_pessimisticLock_error split: prod.splits if_splits)
qed simp

end

lemma convertToKeyErrors_total:
  assumes "\<And>e. Some e \<in> set ers \<Longrightarrow> convertToKeyError E e \<noteq> None"
  shows "\<exists>kes. convertToKeyErrors E ers = Some kes \<and> length kes = length (filter (\<lambda>e. e \<noteq> None) ers)"
  using assms
proof (induction ers)
  case (Cons e ers)
  then obtain kes where "convertToKeyErrors E ers = Some kes" "length kes = length (filter (\<lambda>e. e \<noteq> None) ers)"
    by fastforce
  then show ?case
    using Cons.prems [of "the e"] by (cases e) auto
qed simp

lemma a_pessimisticLock_ops:
  assumes "a_pessimisticLock E a dd m lctx = (None, ops, vals, dd')"
  shows "\<forall>op\<in>set ops. \<exists>k l. op = SetLock k l \<and> startTS l = lc_startTS lctx"
    and "locked_by a (m_Key m) (lc_startTS lctx) \<noteq> None \<or> (\<exists>l. SetLock (m_Key m) l \<in> set ops)"
  using assms
  by (auto simp: a_pessimisticLock_def pessimistic_lock_def locked_by_def split: option.splits if_splits sum.splits prod.splits)

lemma a_pessimisticLocks_ops:
  assumes "a_pessimisticLocks E wait a dd ms lctx = (ers, ops, vals, dd')" and "\<forall>e\<in>set ers. e = None"
  shows "\<forall>op\<in>set ops. \<exists>k l. op = SetLock k l \<and> startTS l = lc_startTS lctx"
    and "m \<in> set ms \<Longrightarrow> locked_by a (m_Key m) (lc_startTS lctx) \<noteq> None \<or> (\<exists>l. SetLock (m_Key m) l \<in> set ops)"
proof -
  have "(\<forall>op\<in>set ops. \<exists>k l. op = SetLock k l \<and> startTS l = lc_startTS lctx) \<and>
      (\<forall>m\<in>set ms. locked_by a (m_Key m) (lc_startTS lctx) \<noteq> None \<or> (\<exists>l. SetLock (m_Key m) l \<in> set ops))"
    using assms
  proof (induction ms arbitrary: dd dd' ers ops vals)
    case (Cons m ms)
    obtain er ops1 vals1 dd1 where one: "a_pessimisticLock E a dd m lctx = (er, ops1, vals1, dd1)"
      by (cases "a_pessimisticLock E a dd m lctx")
    obtain ers2 ops2 vals2 dd2 where rest: "a_pessimisticLocks E wait a dd1 ms lctx = (ers2, ops2, vals2, dd2)"
      by (cases "a_pessimisticLocks E wait a dd1 ms lctx")
    have er: "er = None" "ers = er # ers2" "ops = ops1 @ ops2"
      using Cons.prems one rest by (auto split: if_splits)
    note ih = Cons.IH [OF rest]
    show ?case
      using ih er Cons.prems(2) a_pessimisticLock_ops [of E a dd m lctx ops1 vals1 dd1] one by auto
  qed simp
  then show "\<forall>op\<in>set ops. \<exists>k l. op = SetLock k l \<and> startTS l = lc_startTS lctx"
    and "m \<in> set ms \<Longrightarrow> locked_by a (m_Key m) (lc_startTS lctx) \<noteq> None \<or> (\<exists>l. SetLock (m_Key m) l \<in> set ops)"
    by blast+
qed

text \<open>
  C34. A pessimistic lock request answers without a panic and is all or nothing: with an error for any
  key the engine is unchanged and no value is returned; without one, every key of the request carries
  a lock of the transaction.
\<close>

theorem PessimisticLock_all_or_nothing:
  assumes "store_env E" and "abs_rel E (EDB s) a" and "slice_ok (pl_PrimaryLock req)"
  shows "\<exists>kes vals s'. PessimisticLock E s req = Some ((kes, vals), s') \<and>
    (if kes \<noteq> [] then EDB s' = EDB s \<and> vals = []
     else \<exists>a'. abs_rel E (EDB s') a' \<and>
       (\<forall>m\<in>set (pl_Mutations req). \<exists>l. a_lock a' (m_Key m) = Some l \<and> startTS l = pl_StartVersion req))"
proof -
  let ?lctx = "\<lparr>lc_startTS = pl_StartVersion req, lc_forUFIDelateTS = pl_ForUFIDelateTs req,
     lc_primary = pl_PrimaryLock req, lc_ttl = pl_LockTtl req, lc_minCommitTs = pl_MinCommitTs req,
     lc_returnValues = pl_ReturnValues req, lc_values = []\<rparr>"
  obtain ers ops vals dd' where p: "a_pessimisticLocks E (pl_WaitTimeout req) a (deadlockDetector s) (pl_Mutations req) ?lctx = (ers, ops, vals, dd')"
    by (cases "a_pessimisticLocks E (pl_WaitTimeout req) a (deadlockDetector s) (pl_Mutations req) ?lctx")
  note loop = store_env.pessimisticLock_loop_refines [OF assms(1,2), of "pl_WaitTimeout req" "[]" "pl_Mutations req" ?lctx "[]", unfolded p]
  have cd: "codec E"
    using assms(1) by (simp add: store_env_def)
  show ?thesis
  proof (cases "\<exists>e\<in>set ers. e \<noteq> None")
    case True
    obtain kes where kes: "convertToKeyErrors E ers = Some kes" "length kes = length (filter (\<lambda>e. e \<noteq> None) ers)"
      using convertToKeyErrors_total [of ers E] codec.a_pessimisticLocks_errors [OF cd p] by blast
    have "kes \<noteq> []"
      using kes(2) True by (auto simp: filter_empty_conv)
    moreover have "PessimisticLock E s req = Some ((kes, []), s\<lparr>deadlockDetector := dd'\<rparr>)"
      using loop True kes(1) by (simp add: PessimisticLock_def Let_def)
    ultimately show ?thesis
      by auto
  next
    case False
    then have none: "\<forall>e\<in>set ers. e = None"
      by blast
    have "\<forall>op\<in>set ops. aop_ok op"
      using store_env.a_pessimisticLocks_ok [OF assms(1) _ p] assms(3) by simp
    then obtain db' where w: "write_batch E s (map (enc_aop E) ops) = (None, s\<lparr>EDB := db'\<rparr>)" and a': "abs_rel E db' (a_run ops a)"
      using store_env.write_batch_refines [OF assms(1,2)] by blast
    have db': "ldb_Write E (EDB s) (map (enc_aop E) ops) = Inr db'" "abs_rel E db' (a_run ops a)"
      using arg_cong [OF w, of fst] arg_cong [OF w, of "EDB \<circ> snd"] a' by (auto simp: write_batch_def split: sum.splits)
    have "locked_by (a_run ops a) (m_Key m) (pl_StartVersion req) \<noteq> None" if "m \<in> set (pl_Mutations req)" for m
      using a_run_locks [of ops "pl_StartVersion req" a "m_Key m"] a_pessimisticLocks_ops [OF p none] that by simp
    then have l: "\<forall>m\<in>set (pl_Mutations req). \<exists>l. a_lock (a_run ops a) (m_Key m) = Some l \<and> startTS l = pl_StartVersion req"
      by (auto simp: locked_by_iff)
    have "PessimisticLock E s req = Some (([], if pl_ReturnValues req then vals else []), s\<lparr>EDB := db', deadlockDetector := dd'\<rparr>)"
      using loop False db'(1) by (auto simp: PessimisticLock_def Let_def)
    then show ?thesis
      using db'(2) l by auto
  qed
qed

definition ex_pessimistic :: "mutation list \<Rightarrow> u64 \<Rightarrow> PessimisticLockRequest" where
  "ex_pessimistic ms start = \<lparr>pl_Mutations = ms, pl_PrimaryLock = [7], pl_StartVersion = start, pl_LockTtl = 100,
     pl_ForUFIDelateTs = start, pl_WaitTimeout = 0, pl_ReturnValues = False, pl_MinCommitTs = 0\<rparr>"

theorem PessimisticLock_all_or_nothing_witness:
  "\<exists>kes vals s'. PessimisticLock ref_env (ref_store [SetLock [7] (ex_lock 4 [7] [1])]) (ex_pessimistic [ex_put [7] []] 6) = Some ((kes, vals), s')"
proof -
  let ?ops = "[SetLock [7] (ex_lock 4 [7] [1])]"
  have r: "abs_rel ref_env (EDB (ref_store ?ops)) (a_run ?ops empty_astate)"
    by (rule ref_store_rel) simp
  show ?thesis
    using PessimisticLock_all_or_nothing [OF store_env_ref r, of "ex_pessimistic [ex_put [7] []] 6"]
    by (auto simp: ex_pessimistic_def)
qed

text \<open>
  A pessimistic rollback removes, of the keys it names, exactly the transaction's own pessimistic
  locks taken for an update at or before the given timestamp; it writes no record and touches nothing else.
\<close>

theorem PessimisticRollback_exact:
  assumes "store_env E" and "abs_rel E (EDB s) a" and "PessimisticRollback E s ks start forTS = (errs, s')"
  shows "(\<forall>e\<in>set errs. e = None) \<and> (\<exists>a'. abs_rel E (EDB s') a' \<and> a_writes a' = a_writes a \<and>
    (\<forall>k. a_lock a' k =
       (case a_lock a k of
          Some l \<Rightarrow> if k \<in> set ks \<and> l_op l = Op_PessimisticLock \<and> startTS l = start \<and> forUFIDelateTS l \<le> forTS then None else Some l
        | None \<Rightarrow> None)))"
proof -
  let ?f = "a_pessimisticRollbackKey a start forTS"
  obtain db' where db': "PessimisticRollback E s ks start forTS = (replicate (length ks) None, s\<lparr>EDB := db'\<rparr>)"
    and a': "abs_rel E db' (a_run (concat (map ?f ks)) a)"
    using store_env.PessimisticRollback_refines [OF assms(1,2)] .
  have dels: "a_writes (a_run ops b) = a_writes b \<and> (\<forall>k. a_lock (a_run ops b) k = (if DelLock k \<in> set ops then None else a_lock b k))"
    if "\<forall>op\<in>set ops. \<exists>k. op = DelLock k" for ops b
    using that by (induction ops arbitrary: b) (auto split: if_splits)
  have mem: "op \<in> set (?f k) \<longleftrightarrow> op = DelLock k \<and>
      (\<exists>l. a_lock a k = Some l \<and> l_op l = Op_PessimisticLock \<and> startTS l = start \<and> forUFIDelateTS l \<le> forTS)" for op k
    by (cases "a_lock a k") (auto simp: a_pessimisticRollbackKey_def locked_by_def)
  have "\<forall>op\<in>set (concat (map ?f ks)). \<exists>k. op = DelLock k"
    using mem by auto
  from dels [OF this, of a]
  have "a_writes (a_run (concat (map ?f ks)) a) = a_writes a"
    and "\<forall>k. a_lock (a_run (concat (map ?f ks)) a) k =
       (case a_lock a k of
          Some l \<Rightarrow> if k \<in> set ks \<and> l_op l = Op_PessimisticLock \<and> startTS l = start \<and> forUFIDelateTS l \<le> forTS then None else Some l
        | None \<Rightarrow> None)"
    using mem by (auto split: option.split)
  then show ?thesis
    using db' a' assms(3) by auto
qed

definition ex_pess_lock :: "u64 \<Rightarrow> bytes \<Rightarrow> mvsr_oocLock" where
  "ex_pess_lock start prim = (ex_lock start prim [])\<lparr>l_op := Op_PessimisticLock\<rparr>"

theorem PessimisticRollback_exact_witness:
  "\<exists>errs s' a'. PessimisticRollback ref_env (ref_store [SetLock [7] (ex_pess_lock 4 [7])]) [[7]] 4 4 = (errs, s') \<and>
     abs_rel ref_env (EDB s') a' \<and> a_lock a' [7] = None"
proof -
  let ?ops = "[SetLock [7] (ex_pess_lock 4 [7])]"
  have r: "abs_rel ref_env (EDB (ref_store ?ops)) (a_run ?ops empty_astate)"
    by (rule ref_store_rel) (simp add: ex_pess_lock_def lock_ok_def)
  obtain errs s' where s': "PessimisticRollback ref_env (ref_store ?ops) [[7]] 4 4 = (errs, s')"
    by (cases "PessimisticRollback ref_env (ref_store ?ops) [[7]] 4 4")
  then show ?thesis
    using PessimisticRollback_exact [OF store_env_ref r s'] by (auto simp: ex_pess_lock_def)
qed

section \<open>Cleanup\<close>

text \<open>
  \<open>Cleanup\<close> of a transaction that left no lock and no record on the key reports success and leaves
  the engine as it is. The source builds a rollback record on this path and never writes it, so the
  transaction can still be prewritten on the key afterwards.
\<close>

theorem Cleanup_leaves_no_record:
  assumes "store_env E" and "abs_rel E (EDB s) a" and "a_lock a k = None"
    and "\<forall>v\<in>set (a_writes a k). v_startTS v \<noteq> start \<and> commitTS v \<le> start \<and> (valueType v = typeRollback \<longrightarrow> commitTS v \<noteq> start)"
    and "m_Key m = k" and "m_Op m \<noteq> Op_PessimisticLock" and "Cleanup E s k start currentTS = (er, s')"
  shows "er = None \<and> EDB s' = EDB s \<and>
    prewriteMutation E (EDB s') [] m start prim ttl0 tsize False minCommit =
      Inr [Put (mvsr_oocEncode E k lockVer) (Lock_MarshalBinary E (prewrite_lock m start prim ttl0 tsize minCommit))]"
proof -
  have "commit_info start (a_writes a k) = None"
    using assms(4) by (auto simp: commit_info_def find_None_iff)
  then have "a_cleanup E a k start currentTS = (None, [])"
    using assms(3) by (simp add: a_cleanup_def locked_by_def)
  then have c: "er = None" "EDB s' = EDB s"
    using assms(7) store_env.Cleanup_eq [OF assms(1,2)] by (auto simp: cleanUp_detector_def store_env.emit_def [OF assms(1)])
  have nf: "newest_first (a_writes a (m_Key m))"
    using assms(2) by (blast intro: abs_rel_wf wf_astateD)
  have l: "a_lock a (m_Key m) = None" and ww: "\<not> (\<exists>v\<in>set (a_writes a (m_Key m)). start < commitTS v)"
    "\<not> rolled_back start (a_writes a (m_Key m))"
    using assms(3-5) by (auto simp: not_less rolled_back_def)
  have "a_checkConflict m start start False (a_writes a (m_Key m)) = Inr None"
    using ww a_checkConflict_prewrite [OF assms(6) nf, of start] by simp
  then show ?thesis
    using c l assms(5) unfolding c store_env.prewriteMutation_refines [OF assms(1,2)] a_prewrite_def by simp
qed

theorem Cleanup_leaves_no_record_witness:
  "fst (Cleanup ref_env (ref_store [SetWrite [7] (put_at 3 5 [1])]) [7] 6 9) = None"
proof -
  let ?ops = "[SetWrite [7] (put_at 3 5 [1])]"
  have r: "abs_rel ref_env (EDB (ref_store ?ops)) (a_run ?ops empty_astate)"
    by (rule ref_store_rel) simp
  obtain er s' where s': "Cleanup ref_env (ref_store ?ops) [7] 6 9 = (er, s')"
    by (cases "Cleanup ref_env (ref_store ?ops) [7] 6 9")
  show ?thesis
    using s' Cleanup_leaves_no_record [OF store_env_ref r _ _ _ _ s', of "ex_put [7] [2]"]
    by (simp add: empty_astate_def ex_put_def)
qed

end
