(* ===== verification/Store_Isolation.thy ===== *)
theory Store_Isolation
  imports Store_Theorems
begin

text \<open>
  The states of the store that optimistic transactions reach, as an inductive predicate over the
  requests, and the isolation they give: no two committed writes of a key overlap in time.
\<close>

section \<open>Reachable states\<close>

text \<open>
  A client commits with a timestamp it took after its start (\<open>start < commit\<close>), resolves with zero or
  such a timestamp, and starts below the largest timestamp. \<open>Op_Rollback\<close> and \<open>Op_PessimisticLock\<close> are not
  operations of an optimistic mutation.
\<close>

definition optimistic :: "PrewriteRequest \<Rightarrow> bool" where
  "optimistic req = (prewrite_ok req \<and> pw_IsPessimisticLock req = [] \<and>
     (\<forall>m\<in>set (pw_Mutations req). m_Op m \<noteq> Op_PessimisticLock))"

inductive reachable :: "('db, 'dd) env \<Rightarrow> ('db, 'dd) MVCCLevelDB \<Rightarrow> bool" for E where
  r_open: "(\<forall>k. ldb_Get E (EDB s) k = None) \<Longrightarrow> reachable E s"
| r_Prewrite: "reachable E s \<Longrightarrow> optimistic req \<Longrightarrow> Prewrite E s req = Some (errs, s') \<Longrightarrow> reachable E s'"
| r_Commit: "reachable E s \<Longrightarrow> start < commit \<Longrightarrow> commit \<noteq> lockVer \<Longrightarrow> Commit E s ks start commit = (er, s') \<Longrightarrow> reachable E s'"
| r_Rollback: "reachable E s \<Longrightarrow> start \<noteq> lockVer \<Longrightarrow> Rollback E s ks start = (er, s') \<Longrightarrow> reachable E s'"
| r_Cleanup: "reachable E s \<Longrightarrow> start \<noteq> lockVer \<Longrightarrow> Cleanup E s k start currentTS = (er, s') \<Longrightarrow> reachable E s'"
| r_CheckTxnStatus: "reachable E s \<Longrightarrow> lockTS \<noteq> lockVer \<Longrightarrow>
    CheckTxnStatus E s k lockTS callerTS currentTS rb = (st, s') \<Longrightarrow> reachable E s'"
| r_TxnHeartBeat: "reachable E s \<Longrightarrow> TxnHeartBeat E s k start adviseTTL = (r, s') \<Longrightarrow> reachable E s'"
| r_ResolveLock: "reachable E s \<Longrightarrow> start \<noteq> lockVer \<Longrightarrow> commit \<noteq> lockVer \<Longrightarrow> commit = 0 \<or> start < commit \<Longrightarrow>
    ResolveLock E s startKey endKey start commit = Some (er, s') \<Longrightarrow> reachable E s'"
| r_GC: "reachable E s \<Longrightarrow> GC E s startKey endKey safePoint = Some (er, s') \<Longrightarrow> reachable E s'"

inductive_cases reachable_elim: "reachable E s"

section \<open>The invariant\<close>

definition real_version :: "mvsr_oocValue \<Rightarrow> bool" where
  "real_version v = (valueType v \<noteq> typeRollback)"

text \<open>
  Per key: committed versions start before they commit and their intervals are disjoint, the holder of
  the lock started after every committed version, and a rollback record stands at its start.
\<close>

definition key_inv :: "mvsr_oocLock option \<Rightarrow> mvsr_oocValue list \<Rightarrow> bool" where
  "key_inv lo vs =
     ((\<forall>v\<in>set vs. real_version v \<longrightarrow> v_startTS v < commitTS v) \<and>
      (\<forall>v\<in>set vs. \<not> real_version v \<longrightarrow> commitTS v = v_startTS v) \<and>
      (\<forall>v\<in>set vs. \<forall>w\<in>set vs. real_version v \<and> real_version w \<and> commitTS v < commitTS w \<longrightarrow> commitTS v \<le> v_startTS w) \<and>
      (\<forall>l v. lo = Some l \<and> v \<in> set vs \<and> real_version v \<longrightarrow> commitTS v \<le> startTS l))"

definition store_inv :: "astate \<Rightarrow> bool" where
  "store_inv a = (\<forall>k. key_inv (a_lock a k) (a_writes a k))"

text \<open>How an update may change a key while the invariant holds.\<close>

lemma key_inv_lock:
  assumes "key_inv lo vs" and "\<forall>v\<in>set vs. real_version v \<longrightarrow> commitTS v \<le> startTS l"
  shows "key_inv (Some l) vs"
  using assms by (auto simp: key_inv_def)

lemma key_inv_same_start:
  assumes "key_inv (Some l) vs" and "startTS l' = startTS l"
  shows "key_inv (Some l') vs"
  using assms by (auto simp: key_inv_def)

lemma key_inv_unlock: "key_inv lo vs \<Longrightarrow> key_inv None vs"
  by (auto simp: key_inv_def)

lemma key_inv_subset: "key_inv lo vs \<Longrightarrow> set ws \<subseteq> set vs \<Longrightarrow> key_inv lo ws"
  unfolding key_inv_def by blast

lemma key_inv_rollback:
  assumes "key_inv lo vs" and "newest_first vs"
  shows "key_inv lo (put_version (rollback_value start) vs)"
  using assms by (fastforce simp: key_inv_def set_put_version real_version_def)

lemma key_inv_commit:
  assumes "key_inv (Some l) vs" and "newest_first vs" and "startTS l = start" and "start < commit"
  shows "key_inv None (put_version (commit_version l start commit) vs)"
proof -
  have r: "real_version (commit_version l start commit)"
    by (simp add: real_version_def commit_version_def)
  have old: "commitTS v \<le> start" if "v \<in> set vs" "real_version v" for v
    using assms(1,3) that by (auto simp: key_inv_def)
  then have "commitTS v < commit" if "v \<in> set vs" "real_version v" for v
    using that assms(4) le_less_trans by blast
  then show ?thesis
    using assms(1,4) r old by (auto simp: key_inv_def set_put_version [OF assms(2)] dest: order.strict_trans)
qed

section \<open>The operations keep the invariant\<close>

lemma store_inv_key: "store_inv a \<Longrightarrow> key_inv (a_lock a k) (a_writes a k)"
  by (simp add: store_inv_def)

lemma a_run_locks_inv:
  assumes "\<forall>op\<in>set ops. \<exists>k l. op = SetLock k l \<and> (\<forall>v\<in>set (a_writes a k). real_version v \<longrightarrow> commitTS v \<le> startTS l)"
    and "store_inv a"
  shows "store_inv (a_run ops a)"
  using assms
proof (induction ops arbitrary: a)
  case (Cons op ops)
  obtain k l where op: "op = SetLock k l" "\<forall>v\<in>set (a_writes a k). real_version v \<longrightarrow> commitTS v \<le> startTS l"
    using Cons.prems(1) by auto
  have "store_inv (a_apply op a)"
    unfolding store_inv_def using op key_inv_lock [OF store_inv_key [OF Cons.prems(2), of k] op(2)] store_inv_key [OF Cons.prems(2)]
    by simp
  then show ?case
    using Cons op(1) by simp
qed simp

lemma a_prewrite_old_versions:
  assumes "wf_astate a" and "store_inv a" and "m_Op m \<noteq> Op_PessimisticLock"
    and "a_prewrite E a m start prim t z False c = Inr ops"
  shows "\<forall>op\<in>set ops. \<exists>k l. op = SetLock k l \<and> (\<forall>v\<in>set (a_writes a k). real_version v \<longrightarrow> commitTS v \<le> startTS l)"
proof (cases "a_lock a (m_Key m)")
  case None
  then have "\<not> (\<exists>v\<in>set (a_writes a (m_Key m)). commitTS v > start)"
    using assms(4) a_checkConflict_prewrite [OF assms(3) wf_astateD(3) [OF assms(1), of "m_Key m"], of start]
    by (auto simp: a_prewrite_def split: if_splits)
  then show ?thesis
    using None assms(4) by (auto simp: a_prewrite_def prewrite_lock_def not_less split: sum.splits)
next
  case (Some l)
  then have "\<forall>v\<in>set (a_writes a (m_Key m)). real_version v \<longrightarrow> commitTS v \<le> startTS l"
    using store_inv_key [OF assms(2), of "m_Key m"] by (auto simp: key_inv_def)
  then show ?thesis
    using Some assms(4) by (auto simp: a_prewrite_def prewrite_lock_def split: if_splits)
qed

lemma inv_Prewrite:
  assumes "wf_astate a" and "store_inv a" and "optimistic req" and "a_Prewrite E a req = (errs, a')"
  shows "store_inv a'"
proof (cases "\<exists>e\<in>set errs. e \<noteq> None")
  case True
  then show ?thesis
    using a_Prewrite_cases(3) [OF assms(4)] assms(2) by simp
next
  case False
  have "\<forall>op\<in>set (concat (map ops_of (a_prewrites E a req))).
      \<exists>k l. op = SetLock k l \<and> (\<forall>v\<in>set (a_writes a k). real_version v \<longrightarrow> commitTS v \<le> startTS l)"
  proof
    fix op
    assume "op \<in> set (concat (map ops_of (a_prewrites E a req)))"
    then obtain i m where im: "(i, m) \<in> set (enumerate 0 (pw_Mutations req))" "op \<in> set (ops_of (a_prewrite1 E a req (i, m)))"
      by (auto simp: a_prewrites_def)
    then obtain ops where ops: "a_prewrite E a m (pw_StartVersion req) (pw_PrimaryLock req) (pw_LockTtl req) (pw_TxnSize req)
        (is_pess req i) (pw_MinCommitTs req) = Inr ops" "op \<in> set ops"
      by (cases "a_prewrite E a m (pw_StartVersion req) (pw_PrimaryLock req) (pw_LockTtl req) (pw_TxnSize req)
          (is_pess req i) (pw_MinCommitTs req)") (auto simp: a_prewrite1_def split: option.splits if_splits)
    have "m \<in> set (pw_Mutations req)"
      using im(1) nth_mem [of i "pw_Mutations req"] by (auto simp: in_set_enumerate_eq simp del: nth_mem)
    then have "m_Op m \<noteq> Op_PessimisticLock" "is_pess req i = False"
      using assms(3) by (auto simp: optimistic_def is_pess_def)
    then show "\<exists>k l. op = SetLock k l \<and> (\<forall>v\<in>set (a_writes a k). real_version v \<longrightarrow> commitTS v \<le> startTS l)"
      using a_prewrite_old_versions [OF assms(1,2)] ops by metis
  qed
  then show ?thesis
    using a_Prewrite_cases(2) [OF assms(4)] False a_run_locks_inv [OF _ assms(2)] by simp
qed

lemma inv_Commit:
  assumes "wf_astate a" and "store_inv a" and "start < commit" and "a_commit a ks start commit = (er, a')"
  shows "store_inv a'"
proof (cases er)
  case None
  note c = a_commit_key [OF assms(4) [unfolded None]]
  have "key_inv (a_lock a' k) (a_writes a' k)" for k
  proof (cases "k \<in> set ks \<and> locked_by a k start \<noteq> None")
    case True
    then obtain l where "locked_by a k start = Some l"
      by blast
    then show ?thesis
      using c(1) [of k l] True store_inv_key [OF assms(2), of k] key_inv_commit [OF _ wf_astateD(3) [OF assms(1), of k] _ assms(3)]
      by (simp add: locked_by_iff)
  next
    case False
    then show ?thesis
      using c(2) [of k] store_inv_key [OF assms(2), of k] by auto
  qed
  then show ?thesis
    by (simp add: store_inv_def)
qed (use assms(2,4) in \<open>auto simp: a_commit_def split: sum.splits\<close>)

lemma inv_rolled:
  assumes "wf_astate a" and "store_inv a"
  shows "key_inv (a_lock a k) (put_version (rollback_value start) (a_writes a k))"
    and "key_inv None (put_version (rollback_value start) (a_writes a k))"
  using key_inv_rollback [OF store_inv_key [OF assms(2)] wf_astateD(3) [OF assms(1)]] key_inv_unlock by blast+

lemma inv_Rollback:
  assumes "wf_astate a" and "store_inv a" and "a_rollback a ks start = (er, a')"
  shows "store_inv a'"
proof (cases er)
  case None
  note c = a_rollback_key [OF assms(3) [unfolded None]]
  have "key_inv (a_lock a' k) (a_writes a' k)" for k
    using c [of k] inv_rolled [OF assms(1,2), where k = k and start = start] store_inv_key [OF assms(2), of k]
    by (cases "k \<in> set ks"; cases "locked_by a k start"; cases "commit_info start (a_writes a k)") auto
  then show ?thesis
    by (simp add: store_inv_def)
qed (use assms(2,3) in \<open>auto simp: a_rollback_def split: sum.splits\<close>)

lemma inv_one_key:
  assumes "store_inv a" and "at k ops" and "key_inv (a_lock (a_run ops a) k) (a_writes (a_run ops a) k)"
  shows "store_inv (a_run ops a)"
proof -
  have "key_inv (a_lock (a_run ops a) k') (a_writes (a_run ops a) k')" for k'
    using assms store_inv_key [OF assms(1), of k'] a_run_other [of ops k' a] by (cases "k' = k") (auto simp: at_def)
  then show ?thesis
    by (simp add: store_inv_def)
qed

lemma inv_Cleanup:
  assumes "wf_astate a" and "store_inv a"
  shows "store_inv (a_run (snd (a_cleanup E a k start currentTS)) a)"
proof (rule inv_one_key [OF assms(2)])
  have c: "snd (a_cleanup E a k start currentTS) \<in> {[], a_rollbackLock k start}"
    by (auto simp: a_cleanup_def split: option.splits if_splits)
  show "at k (snd (a_cleanup E a k start currentTS))"
    using c by auto
  show "key_inv (a_lock (a_run (snd (a_cleanup E a k start currentTS)) a) k) (a_writes (a_run (snd (a_cleanup E a k start currentTS)) a) k)"
    using c inv_rolled [OF assms, where k = k and start = start] store_inv_key [OF assms(2), of k] by (auto simp: a_rollbackLock_def)
qed

lemma inv_CheckTxnStatus:
  assumes "wf_astate a" and "store_inv a"
  shows "store_inv (a_run (snd (a_status E a k lockTS callerTS currentTS rb)) a)"
proof (rule inv_one_key [OF assms(2)])
  let ?ops = "snd (a_status E a k lockTS callerTS currentTS rb)"
  have c: "?ops \<in> {[], a_rollbackLock k lockTS, [SetWrite k (rollback_value lockTS)]} \<or>
      (\<exists>l l'. ?ops = [SetLock k l'] \<and> a_lock a k = Some l \<and> startTS l' = startTS l)"
    by (auto simp: a_status_def Let_def locked_by_def split: option.splits if_splits)
  show "at k ?ops"
    using c by auto
  show "key_inv (a_lock (a_run ?ops a) k) (a_writes (a_run ?ops a) k)"
    using c inv_rolled [OF assms, where k = k and start = lockTS] store_inv_key [OF assms(2), of k] key_inv_same_start by (auto simp: a_rollbackLock_def)
qed

lemma inv_TxnHeartBeat:
  assumes "store_inv a"
  shows "store_inv (a_run (snd (a_heartbeat a k start adviseTTL)) a)"
proof (rule inv_one_key [OF assms])
  let ?ops = "snd (a_heartbeat a k start adviseTTL)"
  have c: "?ops = [] \<or> (\<exists>l l'. ?ops = [SetLock k l'] \<and> a_lock a k = Some l \<and> startTS l' = startTS l)"
    by (auto simp: a_heartbeat_def locked_by_def split: option.splits if_splits)
  show "at k ?ops"
    using c by auto
  show "key_inv (a_lock (a_run ?ops a) k) (a_writes (a_run ?ops a) k)"
    using c store_inv_key [OF assms, of k] key_inv_same_start by auto
qed

lemma inv_ResolveLock:
  assumes "store_env E" and "wf_astate a" and "store_inv a" and "commit = 0 \<or> start < commit"
  shows "store_inv (a_run (concat (map (a_resolve a [start \<mapsto> commit]) (range_keys a startKey endKey))) a)"
  unfolding store_inv_def
proof
  fix k
  let ?a' = "a_run (concat (map (a_resolve a [start \<mapsto> commit]) (range_keys a startKey endKey))) a"
  note c = a_resolve_key [OF assms(1,2), where k = k and start = start and commit = commit and startKey = startKey and endKey = endKey]
  show "key_inv (a_lock ?a' k) (a_writes ?a' k)"
  proof (cases "a_lock a k")
    case None
    then show ?thesis
      using c store_inv_key [OF assms(3), of k] by simp
  next
    case (Some l)
    have "key_inv None (put_version (commit_version l start commit) (a_writes a k))" if "startTS l = start" "commit > 0"
      using key_inv_commit [OF _ wf_astateD(3) [OF assms(2), of k] that(1)] store_inv_key [OF assms(3), of k] assms(4) that Some
      by auto
    then show ?thesis
      using c Some store_inv_key [OF assms(3), of k] inv_rolled(2) [OF assms(2,3), where k = k and start = start]
      by (auto split: if_splits)
  qed
qed

lemma inv_GC:
  assumes "store_inv a"
  shows "store_inv (a_run (snd (a_GC a sp ks)) a)"
proof (cases "a_collect (a_gc a sp) ks")
  case (Inr ops)
  have "\<forall>k ops. a_gc a sp k = Inr ops \<longrightarrow> at k ops \<and> idem ops"
    by (blast intro: at_ops idem_ops)
  note run = a_run_collect [OF Inr this]
  have "key_inv (a_lock (a_run ops a) k) (a_writes (a_run ops a) k)" for k
  proof (cases "k \<in> set ks")
    case True
    then obtain ops' where "a_gc a sp k = Inr ops'" "a_lock (a_run ops a) k = a_lock (a_run ops' a) k"
      "a_writes (a_run ops a) k = a_writes (a_run ops' a) k"
      using run(2) by blast
    then have "a_lock (a_run ops a) k = a_lock a k" "set (a_writes (a_run ops a) k) \<subseteq> set (a_writes a k)"
      by (auto simp: a_gc_def a_run_DelWrites split: option.splits)
    then show ?thesis
      using key_inv_subset [OF store_inv_key [OF assms, of k]] by simp
  next
    case False
    then show ?thesis
      using run(1) store_inv_key [OF assms, of k] by simp
  qed
  then show ?thesis
    using Inr by (simp add: a_GC_def store_inv_def)
qed (simp add: a_GC_def assms)

lemma abs_rel_empty: "(\<forall>k. ldb_Get E db k = None) \<Longrightarrow> abs_rel E db empty_astate"
  by (simp add: abs_rel_def abs_map_def key_run_def empty_astate_def [abs_def] wf_empty_astate [unfolded empty_astate_def])

lemma store_inv_empty: "store_inv empty_astate"
  by (simp add: store_inv_def key_inv_def empty_astate_def)

lemma reachable_inv:
  assumes "store_env E" and "reachable E s"
  shows "\<exists>a. abs_rel E (EDB s) a \<and> store_inv a"
  using assms(2)
proof (induction rule: reachable.induct)
  case (r_open s)
  show ?case
    using abs_rel_empty [OF r_open] store_inv_empty by (intro exI [of _ empty_astate]) simp
next
  case (r_Prewrite s req errs s')
  then obtain a where a: "abs_rel E (EDB s) a" "store_inv a"
    by blast
  have "prewrite_ok req"
    using r_Prewrite.hyps by (simp add: optimistic_def)
  then obtain a' where "a_Prewrite E a req = (errs, a')" "abs_rel E (EDB s') a'"
    using Prewrite_simulates [OF assms(1) a(1) _ r_Prewrite.hyps(3)] by blast
  then show ?case
    using inv_Prewrite [OF abs_rel_wf [OF a(1)] a(2) r_Prewrite.hyps(2)] by blast
next
  case (r_Commit s start commit ks er s')
  then obtain a where a: "abs_rel E (EDB s) a" "store_inv a"
    by blast
  obtain a' where "a_commit a ks start commit = (er, a')" "abs_rel E (EDB s') a'"
    using Commit_simulates [OF assms(1) a(1) r_Commit.hyps(3,4)] .
  then show ?case
    using inv_Commit [OF abs_rel_wf [OF a(1)] a(2) r_Commit.hyps(2)] by blast
next
  case (r_Rollback s start ks er s')
  then obtain a where a: "abs_rel E (EDB s) a" "store_inv a"
    by blast
  obtain a' where "a_rollback a ks start = (er, a')" "abs_rel E (EDB s') a'"
    using Rollback_simulates [OF assms(1) a(1) r_Rollback.hyps(2,3)] .
  then show ?case
    using inv_Rollback [OF abs_rel_wf [OF a(1)] a(2)] by blast
next
  case (r_Cleanup s start k currentTS er s')
  then obtain a where a: "abs_rel E (EDB s) a" "store_inv a"
    by blast
  have "\<forall>op\<in>set (snd (a_cleanup E a k start currentTS)). aop_ok op"
    using r_Cleanup.hyps(2) by (auto simp: a_cleanup_def a_rollbackLock_def split: option.splits if_splits)
  then obtain db' where "store_env.emit E s (a_cleanup E a k start currentTS) = (fst (a_cleanup E a k start currentTS), s\<lparr>EDB := db'\<rparr>)"
    and "abs_rel E db' (a_run (snd (a_cleanup E a k start currentTS)) a)"
    using store_env.emit_refines [OF assms(1) a(1)] by blast
  then have "abs_rel E (EDB s') (a_run (snd (a_cleanup E a k start currentTS)) a)"
    using store_env.Cleanup_eq [OF assms(1) a(1)] r_Cleanup.hyps(3) by (auto simp: cleanUp_detector_def)
  then show ?case
    using inv_Cleanup [OF abs_rel_wf [OF a(1)] a(2)] by blast
next
  case (r_CheckTxnStatus s lockTS k callerTS currentTS rb st s')
  then obtain a where a: "abs_rel E (EDB s) a" "store_inv a"
    by blast
  have "locked_by a k lockTS = Some l \<Longrightarrow> lock_ok l" for l
    using wf_astateD(2) [OF abs_rel_wf [OF a(1)]] by (auto simp: locked_by_iff)
  then have "\<forall>op\<in>set (snd (a_status E a k lockTS callerTS currentTS rb)). aop_ok op"
    using r_CheckTxnStatus.hyps(2) by (auto simp: a_status_def Let_def a_rollbackLock_def lock_ok_def split: option.splits)
  from CheckTxnStatus_simulates(2) [OF assms(1) a(1) this r_CheckTxnStatus.hyps(3)] show ?case
    using inv_CheckTxnStatus [OF abs_rel_wf [OF a(1)] a(2)] by blast
next
  case (r_TxnHeartBeat s k start adviseTTL r s')
  then obtain a where a: "abs_rel E (EDB s) a" "store_inv a"
    by blast
  have "locked_by a k start = Some l \<Longrightarrow> lock_ok l" for l
    using wf_astateD(2) [OF abs_rel_wf [OF a(1)]] by (auto simp: locked_by_iff)
  then have "\<forall>op\<in>set (snd (a_heartbeat a k start adviseTTL)). aop_ok op"
    by (auto simp: a_heartbeat_def lock_ok_def split: option.splits)
  then obtain db' where "store_env.emit E s (a_heartbeat a k start adviseTTL) = (fst (a_heartbeat a k start adviseTTL), s\<lparr>EDB := db'\<rparr>)"
    and "abs_rel E db' (a_run (snd (a_heartbeat a k start adviseTTL)) a)"
    using store_env.emit_refines [OF assms(1) a(1)] by blast
  then have "abs_rel E (EDB s') (a_run (snd (a_heartbeat a k start adviseTTL)) a)"
    using store_env.TxnHeartBeat_eq [OF assms(1) a(1)] r_TxnHeartBeat.hyps(2) by auto
  then show ?case
    using inv_TxnHeartBeat [OF a(2)] by blast
next
  case (r_ResolveLock s start commit startKey endKey er s')
  then obtain a where a: "abs_rel E (EDB s) a" "store_inv a"
    by blast
  have "resolve_ok a [start \<mapsto> commit] (range_keys a startKey endKey)"
    using r_ResolveLock.hyps(2,3) by (auto simp: resolve_ok_def)
  then obtain db' where "BatchResolveLock E s startKey endKey [start \<mapsto> commit] = Some (None, s\<lparr>EDB := db'\<rparr>)"
    "abs_rel E db' (a_run (concat (map (a_resolve a [start \<mapsto> commit]) (range_keys a startKey endKey))) a)"
    using store_env.resolve_refines [OF assms(1) a(1)] by blast
  then have "abs_rel E (EDB s') (a_run (concat (map (a_resolve a [start \<mapsto> commit]) (range_keys a startKey endKey))) a)"
    using r_ResolveLock.hyps(5) store_env.ResolveLock_Batch [OF assms(1)] by auto
  then show ?case
    using inv_ResolveLock [OF assms(1) abs_rel_wf [OF a(1)] a(2) r_ResolveLock.hyps(4)] by blast
next
  case (r_GC s startKey endKey safePoint er s')
  then obtain a where a: "abs_rel E (EDB s) a" "store_inv a"
    by blast
  obtain db' where "GC E s startKey endKey safePoint = Some (fst (a_GC a safePoint (range_keys a startKey endKey)), s\<lparr>EDB := db'\<rparr>)"
    and "abs_rel E db' (a_run (snd (a_GC a safePoint (range_keys a startKey endKey))) a)"
    using store_env.GC_refines [OF assms(1) a(1)] .
  then show ?case
    using r_GC.hyps(2) inv_GC [OF a(2)] by auto
qed

text \<open>
  C2. First committer wins: in every state that optimistic transactions reach from an empty engine, the
  engine holds well-formed locks and versions; each committed write started before it committed; of two
  committed writes of a key one committed before the other started, so no update is lost; and a
  transaction that holds a key's lock started after every committed write of the key.
\<close>

theorem committed_writes_do_not_overlap:
  assumes "store_env E" and "reachable E s"
  shows "\<exists>a. abs_rel E (EDB s) a \<and> (\<forall>k. \<forall>v\<in>set (a_writes a k). valueType v \<noteq> typeRollback \<longrightarrow>
     v_startTS v < commitTS v \<and>
     (\<forall>w\<in>set (a_writes a k). valueType w \<noteq> typeRollback \<and> w \<noteq> v \<longrightarrow> commitTS v \<le> v_startTS w \<or> commitTS w \<le> v_startTS v) \<and>
     (\<forall>l. a_lock a k = Some l \<longrightarrow> commitTS v \<le> startTS l))"
proof -
  obtain a where a: "abs_rel E (EDB s) a" "store_inv a"
    using reachable_inv [OF assms] by blast
  have "commitTS v < commitTS w \<or> commitTS w < commitTS v" if "v \<in> set (a_writes a k)" "w \<in> set (a_writes a k)" "w \<noteq> v" for k v w
    using newest_first_inj [OF wf_astateD(3) [OF abs_rel_wf [OF a(1)]] that(1,2)] that(3) neq_iff by blast
  then show ?thesis
    using a store_inv_key [OF a(2)] unfolding key_inv_def real_version_def by (intro exI [of _ a]) blast
qed

theorem committed_writes_do_not_overlap_witness:
  "\<exists>errs s' a. Prewrite ref_env (ref_store []) (ex_prewrite [ex_put [7] [1]] 4) = Some (errs, s') \<and>
     reachable ref_env s' \<and> abs_rel ref_env (EDB s') a"
proof -
  let ?req = "ex_prewrite [ex_put [7] [1]] 4"
  have r: "abs_rel ref_env (EDB (ref_store [])) (a_run [] empty_astate)"
    by (rule ref_store_rel) simp
  have opt: "optimistic ?req"
    by (simp add: optimistic_def prewrite_ok_def ex_prewrite_def mutations_ok_def ex_put_def)
  then have "prewrite_ok ?req"
    by (simp add: optimistic_def)
  then obtain errs s' where s': "Prewrite ref_env (ref_store []) ?req = Some (errs, s')"
    using store_env.Prewrite_refines [OF store_env_ref r] by metis
  have "reachable ref_env (ref_store [])"
    by (rule r_open) (simp add: ref_store_def)
  then have "reachable ref_env s'"
    using opt s' by (rule r_Prewrite)
  then show ?thesis
    using s' committed_writes_do_not_overlap [OF store_env_ref] by blast
qed

end
