(* ===== verification/Store_Raw.thy ===== *)
theory Store_Raw
  imports Store_Theorems
begin

text \<open>
  Theorems on what surrounds the transactional operations: the encoded keys and records, the raw
  key-value interface, and the debugging reads.
\<close>

section \<open>Keys and records\<close>

text \<open>
  The encoded form of a key and a version decodes to them, and the engine's order of the encoded
  keys is the order of the keys and, for one key, the reverse order of the versions: a key's lock comes
  first, its newest version next.
\<close>

theorem encoded_keys_order:
  assumes "codec E"
  shows "mvsr_oocDecode E (mvsr_oocEncode E k v) = Inr (k, v) \<and>
    (mvsr_oocEncode E k v < mvsr_oocEncode E k' v' \<longleftrightarrow> k < k' \<or> k = k' \<and> v' < v) \<and>
    (v \<noteq> lockVer \<longrightarrow> mvsr_oocEncode E k lockVer < mvsr_oocEncode E k v)"
  using codec.mvsr_oocDecode_Encode [OF assms] codec.mvsr_oocEncode_less [OF assms]
  by (auto simp: lockVer_def word_order.not_eq_extremum)

theorem encoded_keys_order_witness: "mvsr_oocEncode ref_env [7] 9 < mvsr_oocEncode ref_env [7] 5"
  using encoded_keys_order [OF ref_codec, of "[7]" 9 "[7]" 5] by simp

text \<open>
  C35. A record that holds no slice above ten megabytes survives marshalling, whatever its numbers; a
  version whose value is larger is written but its bytes are rejected when read back.
\<close>

theorem records_roundtrip:
  assumes "codec E"
  shows "(lock_ok l \<longrightarrow> Lock_UnmarshalBinary E (Lock_MarshalBinary E l) = (l, None)) \<and>
    (value_ok v \<longrightarrow> Value_UnmarshalBinary (Value_MarshalBinary v) = (v, None)) \<and>
    (10485760 < length (v_value v) \<and> length (v_value v) < 2 ^ 64 \<longrightarrow> snd (Value_UnmarshalBinary (Value_MarshalBinary v)) \<noteq> None)"
proof (intro conjI impI)
  show "Lock_UnmarshalBinary E (Lock_MarshalBinary E l) = (l, None)" if "lock_ok l"
    using codec.Lock_roundtrip [OF assms that] .
  show "Value_UnmarshalBinary (Value_MarshalBinary v) = (v, None)" if "value_ok v"
    using that by (rule Value_Unmarshal_Marshal)
  show "snd (Value_UnmarshalBinary (Value_MarshalBinary v)) \<noteq> None"
    if l: "10485760 < length (v_value v) \<and> length (v_value v) < 2 ^ 64"
  proof -
    have "\<not> slice_ok (v_value v)"
      using l by (simp add: slice_ok_def)
    then have "fst (snd (ReadSlice (None, WriteSlice (v_value v) @ []) [])) \<noteq> None"
      using ReadSlice_too_large [of "v_value v" "[]" "[]"] l by (metis surjective_pairing)
    then show ?thesis
      by (auto simp: Value_UnmarshalBinary_def Value_MarshalBinary_def go_simps split: prod.splits)
  qed
qed

theorem records_roundtrip_witness:
  "Lock_UnmarshalBinary ref_env (Lock_MarshalBinary ref_env (ex_lock 4 [7] [1])) = (ex_lock 4 [7] [1], None)"
  using records_roundtrip [OF ref_codec, of "ex_lock 4 [7] [1]"] by simp

section \<open>Raw operations\<close>

lemma RawScan_loop_take:
  assumes "int (length ps) \<le> limit" and "key_sorted es"
  shows "RawScan_loop endKey limit es ps =
     take (nat limit) (ps @ map raw_pair (filter (\<lambda>e. endKey = [] \<or> fst e < endKey) es))"
  using assms
proof (induction es arbitrary: ps)
  case (Cons e es)
  consider "int (length ps) = limit" | "int (length ps) < limit" "endKey \<noteq> []" "\<not> fst e < endKey"
    | "int (length ps) < limit" "endKey = [] \<or> fst e < endKey"
    using Cons.prems(1) by linarith
  then show ?case
  proof cases
    case 2
    then have "filter (\<lambda>e. endKey = [] \<or> fst e < endKey) (e # es) = []"
      using Cons.prems(2) by (auto simp: filter_empty_conv not_less dest: order.strict_trans2)
    then show ?thesis
      using 2 by (simp add: not_less)
  next
    case 3
    then show ?thesis
      using Cons.IH [of "ps @ [raw_pair e]"] Cons.prems(2) by (auto simp: not_le simp del: take_append)
  qed (auto simp: nat_int_add)
qed (simp)

lemma RawReverseScan_loop_take:
  assumes "int (length ps) \<le> limit" and "sorted_wrt (>) (map fst es)"
  shows "RawReverseScan_loop endKey limit es ps = take (nat limit) (ps @ map raw_pair (filter (\<lambda>e. endKey \<le> fst e) es))"
  using assms
proof (induction es arbitrary: ps)
  case (Cons e es)
  consider "int (length ps) = limit" | "int (length ps) < limit" "fst e < endKey" | "int (length ps) < limit" "endKey \<le> fst e"
    using Cons.prems(1) by (meson not_le order_le_imp_less_or_eq)
  then show ?case
  proof cases
    case 2
    then have "filter (\<lambda>e. endKey \<le> fst e) (e # es) = []"
      using Cons.prems(2) by (auto simp: filter_empty_conv not_le dest: order.strict_trans)
    then show ?thesis
      using 2 by simp
  next
    case 3
    then show ?thesis
      using Cons.IH [of "ps @ [raw_pair e]"] Cons.prems(2) by (auto simp: not_less simp del: take_append)
  qed (auto simp: nat_int_add)
qed (simp)

lemma ref_leveldb_open [simp]: "leveldb_open ref_env"
  by (rule ref_leveldb)

context leveldb_open
begin

lemma raw_write_get: "ldb_Get E (EDB (raw_write E s b)) = apply_batch b (ldb_Get E (EDB s))"
  using write_ok [of "EDB s" b] write_get by (auto simp: raw_write_def write_batch_def)

lemma apply_deletes: "apply_batch (map Delete ks) m k = (if k \<in> set ks then None else m k)"
  by (induction ks arbitrary: m) (auto simp: apply_batch_def)

lemma rawBatchPut_loop_batch:
  "length ks = length vs \<Longrightarrow> rawBatchPut_loop ks vs b = Some (b @ map (\<lambda>(k, v). Put k (or_empty v)) (zip ks vs))"
  by (induction ks vs arbitrary: b rule: list_induct2) auto

lemma apply_puts:
  assumes "distinct ks" and "length ks = length vs"
  shows "apply_batch (map (\<lambda>(k, v). Put k (f v)) (zip ks vs)) m k = (if k \<in> set ks then map_option f (map_of (zip ks vs) k) else m k)"
  using assms(2,1)
proof (induction ks vs arbitrary: m rule: list_induct2)
  case (Cons k' ks v vs)
  then show ?case
    by (auto simp: apply_batch_def map_of_eq_None_iff)
qed (simp add: apply_batch_def)

end

text \<open>
  The raw interface is a map: after a batch put of distinct keys each of them reads back its value
  (a nil value as the empty one) and every other key is untouched; after a range deletion exactly the
  keys of the range are gone.
\<close>

theorem raw_map:
  assumes "leveldb_open E" and "length keys = length vals" and "distinct keys"
  shows "(\<exists>s'. RawBatchPut E s keys vals = Some s' \<and>
      (\<forall>k. RawGet E s' k = (if k \<in> set keys then map_option or_empty (map_of (zip keys vals) k) else RawGet E s k))) \<and>
    RawGet E (RawDeleteRange E s startKey endKey) k = (if in_range startKey endKey k then None else RawGet E s k)"
proof
  note put = leveldb_open.rawBatchPut_loop_batch [OF assms(1,2), of "[]"] leveldb_open.raw_write_get [OF assms(1)]
    leveldb_open.apply_puts [OF assms(1,3,2)]
  show "\<exists>s'. RawBatchPut E s keys vals = Some s' \<and>
      (\<forall>k. RawGet E s' k = (if k \<in> set keys then map_option or_empty (map_of (zip keys vals) k) else RawGet E s k))"
    using put by (simp add: RawBatchPut_def RawGet_def)
  have ldb: "leveldb E"
    using assms(1) by (simp add: leveldb_open_def)
  let ?es = "it_rest (ldb_NewIterator E (EDB s) startKey endKey)"
  have "ldb_Get E (EDB (raw_write E s (map Delete (map fst ?es)))) k = (if k \<in> set (map fst ?es) then None else ldb_Get E (EDB s) k)"
    unfolding leveldb_open.raw_write_get [OF assms(1)] leveldb_open.apply_deletes [OF assms(1)] ..
  moreover have "k \<in> set (map fst ?es) \<longleftrightarrow> ldb_Get E (EDB s) k \<noteq> None \<and> in_range startKey endKey k"
    by (force simp: leveldb.iterator_entries [OF ldb])
  ultimately show "RawGet E (RawDeleteRange E s startKey endKey) k = (if in_range startKey endKey k then None else RawGet E s k)"
    by (auto simp: RawGet_def RawDeleteRange_def doRawDeleteRange_def raw_write_def comp_def)
qed

theorem raw_map_witness:
  "\<exists>s'. RawBatchPut ref_env (ref_store []) [[1], [2]] [Some [3], None] = Some s' \<and> RawGet ref_env s' [1] = Some [3] \<and> RawGet ref_env s' [2] = Some []"
proof -
  obtain s' where s': "RawBatchPut ref_env (ref_store []) [[1], [2]] [Some [3], None] = Some s'"
    "\<forall>k. RawGet ref_env s' k = (if k \<in> set [[1], [2]] then map_option or_empty (map_of (zip [[1], [2]] [Some [3], None]) k)
       else RawGet ref_env (ref_store []) k)"
    using conjunct1 [OF raw_map [OF ref_leveldb_open, of "[[1], [2]]" "[Some [3], None]" "ref_store []" None None "[]"]] by auto
  have "RawGet ref_env s' [1] = Some [3]" "RawGet ref_env s' [2] = Some []"
    unfolding s'(2) [rule_format] by (simp_all add: or_empty_def)
  then show ?thesis
    using s'(1) by blast
qed

text \<open>
  A raw scan returns the first entries of its range in ascending key order, a reverse raw scan the
  last ones in descending order; both stop at the limit and at the bound of the range.
\<close>

theorem raw_scans:
  assumes "leveldb E" and "0 \<le> limit"
  shows "(\<exists>es. key_sorted es \<and>
      set es = {(k, v). ldb_Get E (EDB s) k = Some v \<and> lo \<le> k \<and> (hi = [] \<or> k < hi)} \<and>
      RawScan E s lo hi limit = map raw_pair (take (nat limit) es)) \<and>
    (\<exists>es. key_sorted es \<and>
      set es = {(k, v). ldb_Get E (EDB s) k = Some v \<and> lo \<le> k \<and> k < hi} \<and>
      RawReverseScan E s (Some hi) lo limit = map raw_pair (take (nat limit) (rev es)))"
proof
  let ?up = "it_rest (ldb_NewIterator E (EDB s) (Some lo) None)"
  have "RawScan E s lo hi limit = map raw_pair (take (nat limit) (filter (\<lambda>e. hi = [] \<or> fst e < hi) ?up))"
    using RawScan_loop_take [of "[]" limit ?up hi] leveldb.iterator_sorted [OF assms(1)] assms(2) by (simp add: RawScan_def take_map)
  moreover have "set (filter (\<lambda>e. hi = [] \<or> fst e < hi) ?up) = {(k, v). ldb_Get E (EDB s) k = Some v \<and> lo \<le> k \<and> (hi = [] \<or> k < hi)}"
    by (auto simp: leveldb.iterator_entries [OF assms(1)] in_range_def)
  moreover have "key_sorted (filter (\<lambda>e. hi = [] \<or> fst e < hi) ?up)"
    using leveldb.iterator_sorted [OF assms(1), of "EDB s" "Some lo" None] by (simp add: sorted_wrt_map sorted_wrt_filter)
  ultimately show "\<exists>es. key_sorted es \<and>
      set es = {(k, v). ldb_Get E (EDB s) k = Some v \<and> lo \<le> k \<and> (hi = [] \<or> k < hi)} \<and>
      RawScan E s lo hi limit = map raw_pair (take (nat limit) es)"
    by blast
  let ?dn = "it_rest (ldb_NewIterator E (EDB s) None (Some hi))"
  have srt: "sorted_wrt (>) (map fst (rev ?dn))"
    using leveldb.iterator_sorted [OF assms(1), of "EDB s" None "Some hi"] by (simp add: rev_map [symmetric] sorted_wrt_rev)
  have "RawReverseScan E s (Some hi) lo limit = map raw_pair (take (nat limit) (rev (filter (\<lambda>e. lo \<le> fst e) ?dn)))"
    using RawReverseScan_loop_take [OF _ srt, of "[]" limit lo] assms(2) by (simp add: RawReverseScan_def take_map rev_filter)
  moreover have "set (filter (\<lambda>e. lo \<le> fst e) ?dn) = {(k, v). ldb_Get E (EDB s) k = Some v \<and> lo \<le> k \<and> k < hi}"
    by (auto simp: leveldb.iterator_entries [OF assms(1)] in_range_def)
  moreover have "key_sorted (filter (\<lambda>e. lo \<le> fst e) ?dn)"
    using leveldb.iterator_sorted [OF assms(1), of "EDB s" None "Some hi"] by (simp add: sorted_wrt_map sorted_wrt_filter)
  ultimately show "\<exists>es. key_sorted es \<and>
      set es = {(k, v). ldb_Get E (EDB s) k = Some v \<and> lo \<le> k \<and> k < hi} \<and>
      RawReverseScan E s (Some hi) lo limit = map raw_pair (take (nat limit) (rev es))"
    by blast
qed

theorem raw_scans_witness:
  "\<exists>es. RawScan ref_env (ref_store []) [] [] 3 = map raw_pair (take 3 es)"
proof -
  have "leveldb ref_env"
    using ref_leveldb_open by (simp add: leveldb_open_def)
  from raw_scans [OF this, of 3 "ref_store []" "[]" "[]"] show ?thesis
    by auto
qed

end
