(* ===== verification/Keys.thy ===== *)
theory Keys
  imports External "HOL-Library.AList" "HOL-Library.Multiset" "HOL-Library.Sublist"
begin

text \<open>
  \<^verbatim>\<open>solomonkey/key.go\<close>: keys and their successors, key ranges, handles and the handle map. The codec
  functions of \<^verbatim>\<open>soliton/codec\<close> the handles call are parameters.
\<close>

section \<open>Keys\<close>

definition Key_Next :: "bytes \<Rightarrow> bytes" where
  "Key_Next k = k @ [0]"

text \<open>
  The loop of \<open>PrefixNext\<close>: it increments the bytes from the last one down until one does not wrap to
  zero. The second argument is \<open>i + 1\<close>; the flag says whether the loop was left by its break.
\<close>

fun PrefixNext_loop :: "bytes \<Rightarrow> nat \<Rightarrow> bytes \<times> bool" where
  "PrefixNext_loop buf 0 = (buf, False)"
| "PrefixNext_loop buf (Suc i) =
     (let buf' = buf[i := buf ! i + 1]
      in if buf' ! i \<noteq> 0 then (buf', True) else PrefixNext_loop buf' i)"

definition PrefixNext :: "bytes \<Rightarrow> bytes" where
  "PrefixNext k =
     (case PrefixNext_loop k (length k) of (buf, broke) \<Rightarrow> if broke then buf else k @ [0])"

definition Key_Cmp :: "bytes \<Rightarrow> bytes \<Rightarrow> int" where
  "Key_Cmp k another = bytes_Compare k another"

definition HasPrefix :: "bytes \<Rightarrow> bytes \<Rightarrow> bool" where
  "HasPrefix k p = (take (length p) k = p)"

definition Key_Clone :: "bytes \<Rightarrow> bytes" where
  "Key_Clone k = k"

text \<open>\<^verbatim>\<open>hex.EncodeToString\<close>, two lower-case digits a byte.\<close>

definition hex_digit :: "nat \<Rightarrow> char" where
  "hex_digit n = ''0123456789abcdef'' ! n"

definition Key_String :: "bytes \<Rightarrow> string" where
  "Key_String k = concat (map (\<lambda>b. [hex_digit (unat b div 16), hex_digit (unat b mod 16)]) k)"

record KeyRange =
  StartKey :: bytes
  EndKey :: bytes

text \<open>
  The loop of \<open>IsPoint\<close> over two keys of equal length: \<open>None\<close> is its return of false, \<open>Some i\<close> the index
  plus one it stops at.
\<close>

fun IsPoint_loop :: "bytes \<Rightarrow> bytes \<Rightarrow> nat \<Rightarrow> nat option" where
  "IsPoint_loop s e 0 = Some 0"
| "IsPoint_loop s e (Suc i) =
     (if s ! i \<noteq> 255 then Some (Suc i) else if e ! i \<noteq> 0 then None else IsPoint_loop s e i)"

definition IsPoint :: "KeyRange \<Rightarrow> bool" where
  "IsPoint r =
     (let s = StartKey r; e = EndKey r
      in if length s \<noteq> length e
         then length s + 1 = length e \<and> e ! length s = 0 \<and> take (length s) e = s
         else (case IsPoint_loop s e (length s) of
                 None \<Rightarrow> False
               | Some 0 \<Rightarrow> False
               | Some (Suc d) \<Rightarrow> s ! d + 1 = e ! d \<and> take d s = take d e))"

text \<open>Every key is all \<open>0xFF\<close>, or has a last byte that is not, followed by \<open>0xFF\<close> bytes.\<close>

lemma key_shape:
  obtains (all) n where "k = replicate n (255 :: byte)"
  | (some) xs b n where "k = xs @ b # replicate n 255" and "b \<noteq> 255"
proof (induction k arbitrary: thesis rule: rev_induct)
  case Nil
  then show ?case by (metis replicate_0)
next
  case (snoc x xs)
  show ?case
  proof (cases "x = 255")
    case False
    then show ?thesis using snoc.prems(2) [of xs x 0] by simp
  next
    case True
    show ?thesis
    proof (rule snoc.IH)
      fix n
      assume "xs = replicate n 255"
      then show thesis
        using snoc.prems(1) [of "Suc n"] True by (simp add: replicate_append_same)
    next
      fix ys b n
      assume "xs = ys @ b # replicate n 255" "b \<noteq> 255"
      then show thesis
        using snoc.prems(2) [of ys b "Suc n"] True by (simp add: replicate_append_same)
    qed
  qed
qed

lemma byte_255: "(255 :: byte) = - 1" "(256 :: byte) = 0"
  by (simp_all add: word_unat_eq_iff unsigned_minus_1_eq_mask mask_eq_exp_minus_1)

lemma byte_succ_zero: "(b :: byte) + 1 = 0 \<longleftrightarrow> b = 255"
  unfolding byte_255 by (metis add.right_inverse add_eq_0_iff add.commute)

lemma PrefixNext_step:
  "k ! i = 255 \<Longrightarrow> PrefixNext_loop k (Suc i) = PrefixNext_loop (k[i := 0]) i" if "i < length k" for k i
  using that by (simp add: byte_255)

lemma PrefixNext_stop:
  "k ! i \<noteq> 255 \<Longrightarrow> PrefixNext_loop k (Suc i) = (k[i := k ! i + 1], True)" if "i < length k" for k i
  using that by (simp add: byte_succ_zero)

lemma PrefixNext_loop_run:
  assumes "b \<noteq> 255"
  shows "PrefixNext_loop (xs @ b # replicate n 255 @ zs) (Suc (length xs + n)) = (xs @ (b + 1) # replicate n 0 @ zs, True)"
proof (induction n arbitrary: zs)
  case 0
  have "(xs @ b # zs) ! length xs = b"
    by simp
  then show ?case
    using PrefixNext_stop [of "length xs" "xs @ b # zs"] assms by (simp del: PrefixNext_loop.simps)
next
  case (Suc n)
  have sh: "replicate (Suc n) x @ zs = replicate n x @ x # zs" for x :: byte
    by (simp add: replicate_app_Cons_same)
  have "(xs @ b # replicate n 255 @ 255 # zs)[Suc (length xs + n) := 0] = xs @ b # replicate n 255 @ 0 # zs"
    by (simp add: list_update_append)
  moreover have "(xs @ b # replicate n 255 @ 255 # zs) ! Suc (length xs + n) = 255"
    by (simp add: nth_append)
  ultimately show ?case
    unfolding sh using Suc [of "0 # zs"] PrefixNext_step [of "Suc (length xs + n)" "xs @ b # replicate n 255 @ 255 # zs"]
    by (simp del: PrefixNext_loop.simps)
qed

lemma PrefixNext_loop_all: "PrefixNext_loop (replicate n 255 @ zs) n = (replicate n 0 @ zs, False)"
proof (induction n arbitrary: zs)
  case (Suc n)
  have sh: "replicate (Suc n) x @ zs = replicate n x @ x # zs" for x :: byte
    by (simp add: replicate_app_Cons_same)
  have "(replicate n 255 @ 255 # zs)[n := 0] = replicate n 255 @ 0 # zs"
    by (simp add: list_update_append)
  moreover have "(replicate n 255 @ 255 # zs) ! n = (255 :: byte)"
    by (simp add: nth_append)
  ultimately show ?case
    unfolding sh using Suc [of "0 # zs"] PrefixNext_step [of n "replicate n 255 @ 255 # zs"]
    by (simp del: PrefixNext_loop.simps)
qed simp

lemma PrefixNext_some: "b \<noteq> 255 \<Longrightarrow> PrefixNext (xs @ b # replicate n 255) = xs @ (b + 1) # replicate n 0"
  using PrefixNext_loop_run [of b xs n "[]"] by (simp add: PrefixNext_def)

lemma PrefixNext_all: "PrefixNext (replicate n 255) = replicate n 255 @ [0]"
  using PrefixNext_loop_all [of n "[]"] by (simp add: PrefixNext_def)

lemma less_succ_byte: "(b :: byte) \<noteq> 255 \<Longrightarrow> b < b + 1"
  using inc_less_eq_triv_imp [of b] by (force simp: byte_255 not_le [symmetric])

lemma bytes_0_le: "(0 :: byte) \<le> b"
  by simp

lemma replicate_0_least: "length xs = n \<Longrightarrow> replicate n (0 :: byte) \<le> xs"
proof (induction n arbitrary: xs)
  case (Suc n)
  then obtain y ys where "xs = y # ys" "length ys = n"
    by (cases xs) auto
  then show ?case
    using Suc.IH [of ys] by (cases "y = 0") (auto simp: word_gt_0)
qed simp

text \<open>A suffix of \<open>0xFF\<close> bytes is at most another byte string only if it is a prefix of it.\<close>

lemma replicate_255_le: "replicate n (255 :: byte) \<le> xs \<Longrightarrow> prefix (replicate n 255) xs"
proof (induction n arbitrary: xs)
  case (Suc n)
  then obtain y ys where y: "xs = y # ys"
    by (cases xs) auto
  have "\<not> (255 :: byte) < y"
    unfolding byte_255 by simp
  then have "y = 255" "replicate n 255 \<le> ys"
    using Suc.prems y by auto
  then show ?case
    using Suc.IH y by simp
qed simp

lemma less_append_zeros: "xs < replicate n (0 :: byte) \<Longrightarrow> length xs < n"
proof (induction n arbitrary: xs)
  case (Suc n)
  then show ?case
    by (cases xs) auto
qed simp

lemma IsPoint_loop_some:
  assumes "b \<noteq> 255" and "length e = length xs + 1 + n + length zs"
  shows "IsPoint_loop (xs @ b # replicate n 255 @ zs) e (Suc (length xs + n)) =
    (if \<forall>j. length xs < j \<and> j \<le> length xs + n \<longrightarrow> e ! j = 0 then Some (Suc (length xs)) else None)"
  using assms(2)
proof (induction n arbitrary: zs)
  case 0
  then show ?case
    using assms(1) by simp
next
  case (Suc n)
  let ?i = "Suc (length xs + n)"
  have sh: "replicate (Suc n) (255 :: byte) @ zs = replicate n 255 @ 255 # zs"
    by (simp add: replicate_app_Cons_same)
  have "(xs @ b # replicate n 255 @ 255 # zs) ! ?i = 255"
    by (simp add: nth_append)
  moreover have "(\<forall>j. length xs < j \<and> j \<le> length xs + Suc n \<longrightarrow> e ! j = 0) \<longleftrightarrow>
      e ! ?i = 0 \<and> (\<forall>j. length xs < j \<and> j \<le> length xs + n \<longrightarrow> e ! j = 0)"
    by (auto simp: le_Suc_eq)
  ultimately show ?case
    unfolding sh using Suc.IH [of "255 # zs"] Suc.prems by simp
qed

lemma IsPoint_loop_all: "IsPoint_loop (replicate n 255 @ zs) e n \<in> {None, Some 0}"
proof (induction n arbitrary: zs)
  case (Suc n)
  have sh: "replicate (Suc n) (255 :: byte) @ zs = replicate n 255 @ 255 # zs"
    by (simp add: replicate_app_Cons_same)
  have "(replicate n 255 @ 255 # zs) ! n = (255 :: byte)"
    by (simp add: nth_append)
  then show ?case
    unfolding sh using Suc.IH [of "255 # zs"] by simp
qed simp

lemma zeros_iff: "(\<forall>j. m < j \<and> j \<le> m + n \<longrightarrow> e ! j = (0 :: byte)) \<longleftrightarrow> drop (Suc m) e = replicate n 0"
  if "length e = Suc (m + n)" for e m n
proof
  assume z: "\<forall>j. m < j \<and> j \<le> m + n \<longrightarrow> e ! j = 0"
  show "drop (Suc m) e = replicate n 0"
    using that z by (intro nth_equalityI) auto
next
  assume "drop (Suc m) e = replicate n 0"
  then have d: "e ! (Suc m + i) = 0" if "i < n" for i
    using that \<open>length e = Suc (m + n)\<close> by (metis nth_drop nth_replicate le_add1 add_Suc)
  show "\<forall>j. m < j \<and> j \<le> m + n \<longrightarrow> e ! j = 0"
  proof (intro allI impI)
    fix j
    assume j: "m < j \<and> j \<le> m + n"
    then obtain i where "j = Suc (m + i)"
      using less_imp_Suc_add by blast
    then show "e ! j = 0"
      using d [of i] j by simp
  qed
qed

lemma IsPoint_same_length:
  assumes "length s = length e"
  shows "IsPoint \<lparr>StartKey = s, EndKey = e\<rparr> \<longleftrightarrow> e = PrefixNext s"
proof (cases s rule: key_shape)
  case (all n)
  then show ?thesis
    using IsPoint_loop_all [of n "[]" e] assms by (auto simp: IsPoint_def PrefixNext_all dest: arg_cong [of _ _ length])
next
  case (some xs b n)
  have len: "length e = Suc (length xs + n)"
    using assms some(1) by simp
  have l: "IsPoint_loop s e (length s) = (if drop (Suc (length xs)) e = replicate n 0 then Some (Suc (length xs)) else None)"
    using IsPoint_loop_some [OF some(2), of e xs n "[]"] len some(1) zeros_iff [OF len] by simp
  have e: "e = take (length xs) e @ e ! length xs # drop (Suc (length xs)) e"
    using len by (simp add: id_take_nth_drop)
  have "IsPoint \<lparr>StartKey = s, EndKey = e\<rparr> \<longleftrightarrow>
      drop (Suc (length xs)) e = replicate n 0 \<and> b + 1 = e ! length xs \<and> xs = take (length xs) e"
    using assms l some(1) by (simp add: IsPoint_def)
  also have "\<dots> \<longleftrightarrow> e = xs @ (b + 1) # replicate n 0"
  proof
    assume h: "drop (Suc (length xs)) e = replicate n 0 \<and> b + 1 = e ! length xs \<and> xs = take (length xs) e"
    have "e = take (length xs) e @ e ! length xs # drop (Suc (length xs)) e"
      by (rule e)
    also have "\<dots> = xs @ (b + 1) # replicate n 0"
      using h by metis
    finally show "e = xs @ (b + 1) # replicate n 0" .
  qed simp
  finally show ?thesis
    using PrefixNext_some [OF some(2)] some(1) by simp
qed

lemma IsPoint_other_length:
  assumes "length s \<noteq> length e"
  shows "IsPoint \<lparr>StartKey = s, EndKey = e\<rparr> \<longleftrightarrow> e = Key_Next s"
proof
  assume p: "IsPoint \<lparr>StartKey = s, EndKey = e\<rparr>"
  then have "length e = Suc (length s)" "e ! length s = 0" "take (length s) e = s"
    using assms by (auto simp: IsPoint_def Let_def split: if_splits)
  then show "e = Key_Next s"
    using take_Suc_conv_app_nth [of "length s" e] by (simp add: Key_Next_def)
qed (simp add: IsPoint_def Key_Next_def)

section \<open>Handles\<close>

datatype Handle = IntHandle u64 | CommonHandle (encoded: bytes) (colEndOffsets: "u16 list")

text \<open>
  An \<open>int64\<close> is a 64-bit word read as signed. A call of a method on the wrong kind of handle panics:
  \<open>None\<close>. \<open>EncodeInt\<close> and \<open>CutOne\<close> are the codec's.
\<close>

fun Handle_IsInt :: "Handle \<Rightarrow> bool" where
  "Handle_IsInt (IntHandle i) = True"
| "Handle_IsInt (CommonHandle enc offs) = False"

fun Handle_IntValue :: "Handle \<Rightarrow> u64 option" where
  "Handle_IntValue (IntHandle i) = Some i"
| "Handle_IntValue (CommonHandle enc offs) = None"

fun Handle_Next :: "Handle \<Rightarrow> Handle" where
  "Handle_Next (IntHandle i) = IntHandle (i + 1)"
| "Handle_Next (CommonHandle enc offs) = CommonHandle (PrefixNext enc) offs"

fun Handle_Encoded :: "(bytes \<Rightarrow> u64 \<Rightarrow> bytes) \<Rightarrow> Handle \<Rightarrow> bytes" where
  "Handle_Encoded EncodeInt (IntHandle i) = EncodeInt [] i"
| "Handle_Encoded EncodeInt (CommonHandle enc offs) = enc"

fun Handle_Equal :: "Handle \<Rightarrow> Handle \<Rightarrow> bool" where
  "Handle_Equal (IntHandle i) (IntHandle j) = (i = j)"
| "Handle_Equal (CommonHandle e _) (CommonHandle e' _) = (e = e')"
| "Handle_Equal _ _ = False"

fun Handle_Compare :: "Handle \<Rightarrow> Handle \<Rightarrow> int option" where
  "Handle_Compare (IntHandle i) (IntHandle j) =
     Some (if sint i > sint j then 1 else if sint i < sint j then -1 else 0)"
| "Handle_Compare (CommonHandle e _) (CommonHandle e' _) = Some (bytes_Compare e e')"
| "Handle_Compare _ _ = None"

fun Handle_Len :: "Handle \<Rightarrow> nat" where
  "Handle_Len (IntHandle i) = 8"
| "Handle_Len (CommonHandle enc offs) = length enc"

fun NumDefCauss :: "Handle \<Rightarrow> nat option" where
  "NumDefCauss (IntHandle i) = None"
| "NumDefCauss (CommonHandle enc offs) = Some (length offs)"

text \<open>The slice expression panics on bounds that are not ordered or lie behind the handle's bytes, which a handle built
  from encoded columns has none of; the bytes' spare capacity does not count.\<close>

fun EncodedDefCaus :: "Handle \<Rightarrow> nat \<Rightarrow> bytes option" where
  "EncodedDefCaus (IntHandle i) idx = None"
| "EncodedDefCaus (CommonHandle enc offs) idx =
     (if length offs \<le> idx then None
      else (let lo = (if idx > 0 then unat (offs ! (idx - 1)) else 0); hi = unat (offs ! idx)
            in if lo \<le> hi \<and> hi \<le> length enc then Some (take (hi - lo) (drop lo enc)) else None))"

text \<open>
  \<open>Data\<close> decodes the columns one by one; the values and their texts are those of the packages \<^verbatim>\<open>types\<close> and
  \<^verbatim>\<open>codec\<close>, so their operations are arguments. The inner sum carries the error, \<open>None\<close> a panic.
\<close>

fun decode_columns :: "(bytes \<Rightarrow> err + 'd) \<Rightarrow> Handle \<Rightarrow> nat list \<Rightarrow> 'd list \<Rightarrow> (err + 'd list) option" where
  "decode_columns DecodeOne h [] data = Some (Inr data)"
| "decode_columns DecodeOne h (i # is) data =
     (case EncodedDefCaus h i of
        None \<Rightarrow> None
      | Some encodedDefCaus \<Rightarrow>
          (case DecodeOne encodedDefCaus of
             Inl e \<Rightarrow> Some (Inl e)
           | Inr d \<Rightarrow> decode_columns DecodeOne h is (data @ [d])))"

fun Handle_Data :: "(u64 \<Rightarrow> 'd) \<Rightarrow> (bytes \<Rightarrow> err + 'd) \<Rightarrow> Handle \<Rightarrow> (err + 'd list) option" where
  "Handle_Data NewIntCauset DecodeOne (IntHandle i) = Some (Inr [NewIntCauset i])"
| "Handle_Data NewIntCauset DecodeOne (CommonHandle enc offs) =
     decode_columns DecodeOne (CommonHandle enc offs) [0..<length offs] []"

text \<open>Decimal numbers, \<^verbatim>\<open>strconv.FormatInt\<close> in base ten, and \<^verbatim>\<open>strings.Join\<close>.\<close>

fun decimal :: "nat \<Rightarrow> string" where
  "decimal n = (if n < 10 then [''0123456789'' ! n] else decimal (n div 10) @ [''0123456789'' ! (n mod 10)])"

declare decimal.simps [simp del]

definition FormatInt :: "u64 \<Rightarrow> string" where
  "FormatInt i = (if sint i < 0 then ''-'' @ decimal (nat (- sint i)) else decimal (nat (sint i)))"

fun join :: "string \<Rightarrow> string list \<Rightarrow> string" where
  "join sep [] = []"
| "join sep [s] = s"
| "join sep (s # ss) = s @ sep @ join sep ss"

fun column_texts :: "('d \<Rightarrow> err + string) \<Rightarrow> 'd list \<Rightarrow> string list \<Rightarrow> err + string list" where
  "column_texts ToString [] strs = Inr strs"
| "column_texts ToString (d # ds) strs =
     (case ToString d of Inl e \<Rightarrow> Inl e | Inr str \<Rightarrow> column_texts ToString ds (strs @ [str]))"

fun Handle_String :: "(err \<Rightarrow> string) \<Rightarrow> (u64 \<Rightarrow> 'd) \<Rightarrow> (bytes \<Rightarrow> err + 'd) \<Rightarrow> ('d \<Rightarrow> err + string) \<Rightarrow> Handle \<Rightarrow> string option" where
  "Handle_String Error NewIntCauset DecodeOne ToString (IntHandle i) = Some (FormatInt i)"
| "Handle_String Error NewIntCauset DecodeOne ToString (CommonHandle enc offs) =
     (case Handle_Data NewIntCauset DecodeOne (CommonHandle enc offs) of
        None \<Rightarrow> None
      | Some (Inl e) \<Rightarrow> Some (Error e)
      | Some (Inr data) \<Rightarrow>
          (case column_texts ToString data [] of
             Inl e \<Rightarrow> Some (Error e)
           | Inr strs \<Rightarrow> Some (''{'' @ join '', '' strs @ ''}'')))"

text \<open>
  The loop of \<open>NewCommonHandle\<close>. It ends only if the codec consumes something in each round; not
  returning is \<open>None\<close>.
\<close>

partial_function (option) handle_columns ::
  "(bytes \<Rightarrow> err + bytes \<times> bytes) \<Rightarrow> bytes \<Rightarrow> u16 \<Rightarrow> u16 list \<Rightarrow> (err + u16 list) option" where
  "handle_columns CutOne remain endOff offs =
     (if remain = [] then Some (Inr offs)
      else if hd remain = 0 then Some (Inr offs)
      else (case CutOne remain of
              Inl e \<Rightarrow> Some (Inl e)
            | Inr (col, remain') \<Rightarrow>
                handle_columns CutOne remain' (endOff + word_of_nat (length col)) (offs @ [endOff + word_of_nat (length col)])))"

definition NewCommonHandle :: "(bytes \<Rightarrow> err + bytes \<times> bytes) \<Rightarrow> bytes \<Rightarrow> (err + Handle) option" where
  "NewCommonHandle CutOne enc =
     (let padded = (if length enc < 9 then enc @ replicate (9 - length enc) 0 else enc)
      in map_option (map_sum id (CommonHandle padded)) (handle_columns CutOne enc 0 []))"

definition BuildHandleFromCausetRow ::
  "('d list \<Rightarrow> err + bytes) \<Rightarrow> (bytes \<Rightarrow> err + bytes \<times> bytes) \<Rightarrow> 'd list \<Rightarrow> nat list \<Rightarrow> (err + Handle) option" where
  "BuildHandleFromCausetRow EncodeKey CutOne event handleOrdinals =
     (if \<exists>o'\<in>set handleOrdinals. length event \<le> o' then None
      else (case EncodeKey (map (\<lambda>o'. event ! o') handleOrdinals) of
              Inl e \<Rightarrow> Some (Inl e)
            | Inr b \<Rightarrow> NewCommonHandle CutOne b))"

section \<open>The handle map\<close>

text \<open>Go maps are association lists with distinct keys; what does not depend on their order is the map.\<close>

record 'v HandleMap =
  ints :: "(u64 \<times> 'v) list"
  strs :: "(bytes \<times> Handle \<times> 'v) list"

definition NewHandleMap :: "'v HandleMap" where
  "NewHandleMap = \<lparr>ints = [], strs = []\<rparr>"

fun HandleMap_Get :: "'v HandleMap \<Rightarrow> Handle \<Rightarrow> 'v option" where
  "HandleMap_Get m (IntHandle i) = map_of (ints m) i"
| "HandleMap_Get m (CommonHandle e offs) = map_option snd (map_of (strs m) e)"

fun HandleMap_Set :: "'v HandleMap \<Rightarrow> Handle \<Rightarrow> 'v \<Rightarrow> 'v HandleMap" where
  "HandleMap_Set m (IntHandle i) v = m\<lparr>ints := AList.update i v (ints m)\<rparr>"
| "HandleMap_Set m (CommonHandle e offs) v = m\<lparr>strs := AList.update e (CommonHandle e offs, v) (strs m)\<rparr>"

fun HandleMap_Delete :: "'v HandleMap \<Rightarrow> Handle \<Rightarrow> 'v HandleMap" where
  "HandleMap_Delete m (IntHandle i) = m\<lparr>ints := AList.delete i (ints m)\<rparr>"
| "HandleMap_Delete m (CommonHandle e offs) = m\<lparr>strs := AList.delete e (strs m)\<rparr>"

definition HandleMap_Len :: "'v HandleMap \<Rightarrow> nat" where
  "HandleMap_Len m = length (ints m) + length (strs m)"

text \<open>
  \<open>Range\<close> calls the function on the entries, in the orders \<open>is\<close> and \<open>ss\<close> in which the two maps are visited,
  until it answers false; the model returns the calls made.
\<close>

fun range_visits :: "(Handle \<Rightarrow> 'v \<Rightarrow> bool) \<Rightarrow> (Handle \<times> 'v) list \<Rightarrow> (Handle \<times> 'v) list" where
  "range_visits f [] = []"
| "range_visits f ((h, v) # es) = (h, v) # (if f h v then range_visits f es else [])"

definition HandleMap_Range :: "(Handle \<Rightarrow> 'v \<Rightarrow> bool) \<Rightarrow> (u64 \<times> 'v) list \<Rightarrow> (bytes \<times> Handle \<times> 'v) list \<Rightarrow> (Handle \<times> 'v) list" where
  "HandleMap_Range f is ss = range_visits f (map (apfst IntHandle) is @ map snd ss)"

definition HandleMap_ok :: "'v HandleMap \<Rightarrow> bool" where
  "HandleMap_ok m = (distinct (map fst (ints m)) \<and> distinct (map fst (strs m)) \<and>
     (\<forall>(e, h, v)\<in>set (strs m). \<exists>offs. h = CommonHandle e offs))"

section \<open>Maps with a key equality\<close>

text \<open>
  The interface of a map whose keys count as equal when \<open>same\<close> says so: what its clients use, with the
  laws of the three operations and of the invariant its states keep.
\<close>

locale keyed_map =
  fixes get :: "'m \<Rightarrow> 'k \<Rightarrow> 'v option" and set_to :: "'m \<Rightarrow> 'k \<Rightarrow> 'v \<Rightarrow> 'm" and delete :: "'m \<Rightarrow> 'k \<Rightarrow> 'm"
    and same :: "'k \<Rightarrow> 'k \<Rightarrow> bool" and ok :: "'m \<Rightarrow> bool"
  assumes same_refl: "same k k" and same_sym: "same k k' \<Longrightarrow> same k' k"
    and same_trans: "same k k' \<Longrightarrow> same k' k'' \<Longrightarrow> same k k''"
    and get_same: "ok m \<Longrightarrow> same k k' \<Longrightarrow> get m k = get m k'"
    and get_set: "ok m \<Longrightarrow> get (set_to m k v) k' = (if same k k' then Some v else get m k')"
    and get_delete: "ok m \<Longrightarrow> get (delete m k) k' = (if same k k' then None else get m k')"
    and ok_set: "ok m \<Longrightarrow> ok (set_to m k v)"
    and ok_delete: "ok m \<Longrightarrow> ok (delete m k)"
begin

definition set_all :: "'m \<Rightarrow> ('k \<times> 'v) list \<Rightarrow> 'm" where
  "set_all m kvs = fold (\<lambda>(k, v) m. set_to m k v) kvs m"

lemma set_all_ok: "ok m \<Longrightarrow> ok (set_all m kvs)"
  unfolding set_all_def by (induction kvs arbitrary: m) (auto intro: ok_set)

text \<open>A sequence of stores leaves the last value stored under the key.\<close>

lemma get_set_all:
  "ok m \<Longrightarrow> get (set_all m kvs) k =
     (case find (\<lambda>kv. same (fst kv) k) (rev kvs) of Some kv \<Rightarrow> Some (snd kv) | None \<Rightarrow> get m k)"
proof (induction kvs rule: rev_induct)
  case (snoc kv kvs)
  have "get (set_all m (kvs @ [kv])) k = (if same (fst kv) k then Some (snd kv) else get (set_all m kvs) k)"
    using set_all_ok [OF snoc.prems, of kvs] by (simp add: set_all_def get_set split_beta)
  then show ?case
    using snoc by simp
qed (simp add: set_all_def)

lemma set_then_delete: "ok m \<Longrightarrow> get m k = None \<Longrightarrow> get (delete (set_to m k v) k) k' = get m k'"
  using get_same [of m k k'] by (simp add: get_delete get_set ok_set)

end

lemma set_update_subset: "set (AList.update k v xs) \<subseteq> insert (k, v) (set xs)"
  by (induction xs) auto

lemma set_delete_subset: "set (AList.delete k xs) \<subseteq> set xs"
  by (induction xs) auto

lemma HandleMap_ok_Set: "HandleMap_ok (HandleMap_Set m h v)" if ok: "HandleMap_ok m"
proof (cases h)
  case (CommonHandle e offs)
  have "\<exists>offs. h' = CommonHandle e' offs" if "(e', h', v') \<in> set (strs (HandleMap_Set m h v))" for e' h' v'
    using subsetD [OF set_update_subset that [unfolded CommonHandle, simplified]] ok
    unfolding HandleMap_ok_def by auto
  then show ?thesis
    using ok CommonHandle by (auto simp: HandleMap_ok_def distinct_update)
qed (use ok in \<open>simp add: HandleMap_ok_def distinct_update\<close>)

lemma HandleMap_ok_Delete: "HandleMap_ok (HandleMap_Delete m h)" if ok: "HandleMap_ok m"
proof (cases h)
  case (CommonHandle e offs)
  have "\<exists>offs. h' = CommonHandle e' offs" if "(e', h', v') \<in> set (strs (HandleMap_Delete m h))" for e' h' v'
    using subsetD [OF set_delete_subset that [unfolded CommonHandle, simplified]] ok
    unfolding HandleMap_ok_def by auto
  then show ?thesis
    using ok CommonHandle by (auto simp: HandleMap_ok_def distinct_delete)
qed (use ok in \<open>simp add: HandleMap_ok_def distinct_delete\<close>)

lemma NewHandleMap_ok: "HandleMap_ok NewHandleMap"
  by (simp add: HandleMap_ok_def NewHandleMap_def)

interpretation handle_map: keyed_map HandleMap_Get HandleMap_Set HandleMap_Delete Handle_Equal HandleMap_ok
proof
  show "Handle_Equal h h" for h
    by (cases h) auto
  show "Handle_Equal h h'" if "Handle_Equal h' h" for h h'
    using that by (cases h; cases h') auto
  show "Handle_Equal h h''" if "Handle_Equal h h'" "Handle_Equal h' h''" for h h' h''
    using that by (cases h; cases h'; cases h'') auto
  show "HandleMap_Get m h = HandleMap_Get m h'" if "Handle_Equal h h'" for m :: "'v HandleMap" and h h'
    using that by (cases h; cases h') auto
  show "HandleMap_Get (HandleMap_Set m h v) h' = (if Handle_Equal h h' then Some v else HandleMap_Get m h')"
    for m :: "'v HandleMap" and h v h'
    by (cases h; cases h') (auto simp: update_conv')
  show "HandleMap_Get (HandleMap_Delete m h) h' = (if Handle_Equal h h' then None else HandleMap_Get m h')"
    for m :: "'v HandleMap" and h h'
    by (cases h; cases h') (auto simp: delete_conv')
qed (simp_all add: HandleMap_ok_Set HandleMap_ok_Delete)

lemma map_of_None_fst: "map_of xs k = None \<longleftrightarrow> k \<notin> set (map fst xs)"
  by (simp add: map_of_eq_None_iff)

lemma length_update: "length (AList.update k v xs) = (if k \<in> set (map fst xs) then length xs else Suc (length xs))"
  by (induction xs) auto

lemma length_delete:
  "distinct (map fst xs) \<Longrightarrow> length xs = length (AList.delete k xs) + (if k \<in> set (map fst xs) then 1 else 0)"
proof (induction xs)
  case (Cons x xs)
  obtain a v where x: "x = (a, v)"
    by (cases x)
  have del: "AList.delete k xs = xs" if "k \<notin> set (map fst xs)" for xs :: "('a \<times> 'b) list"
    using that by (induction xs) auto
  show ?case
  proof (cases "a = k")
    case True
    then show ?thesis
      using Cons.prems x del [of xs] by simp
  next
    case False
    then show ?thesis
      using Cons False x by simp
  qed
qed simp

section \<open>The columns of a common handle\<close>

text \<open>What \<^verbatim>\<open>codec.CutOne\<close> promises: it splits a non-empty piece off the front.\<close>

definition cuts_front :: "(bytes \<Rightarrow> err + bytes \<times> bytes) \<Rightarrow> bool" where
  "cuts_front CutOne = (\<forall>b col rest. CutOne b = Inr (col, rest) \<longrightarrow> b = col @ rest \<and> col \<noteq> [])"

text \<open>The end offsets of consecutive columns, at the width the handle keeps them.\<close>

primrec column_ends :: "u16 \<Rightarrow> bytes list \<Rightarrow> u16 list" where
  "column_ends o' [] = []"
| "column_ends o' (c # cs) = (o' + word_of_nat (length c)) # column_ends (o' + word_of_nat (length c)) cs"

lemma length_column_ends [simp]: "length (column_ends o' cs) = length cs"
  by (induction cs arbitrary: o') auto

lemma nth_column_ends:
  "i < length cs \<Longrightarrow> column_ends o' cs ! i = o' + word_of_nat (length (concat (take (Suc i) cs)))"
proof (induction cs arbitrary: o' i)
  case (Cons c cs)
  then show ?case
    by (cases i) (auto simp: add.assoc)
qed simp

text \<open>
  The pieces the codec cuts off one after the other, what is left of the bytes when it stops, and the error if a cut
  fails. It stops at the end or at a zero byte, the padding.
\<close>

inductive cuts_into :: "(bytes \<Rightarrow> err + bytes \<times> bytes) \<Rightarrow> bytes \<Rightarrow> bytes list \<Rightarrow> bytes \<Rightarrow> err option \<Rightarrow> bool" for CutOne where
  cuts_end: "b = [] \<or> hd b = 0 \<Longrightarrow> cuts_into CutOne b [] b None"
| cuts_error: "b \<noteq> [] \<Longrightarrow> hd b \<noteq> 0 \<Longrightarrow> CutOne b = Inl e \<Longrightarrow> cuts_into CutOne b [] b (Some e)"
| cuts_piece: "b \<noteq> [] \<Longrightarrow> hd b \<noteq> 0 \<Longrightarrow> CutOne b = Inr (col, b') \<Longrightarrow> cuts_into CutOne b' cols rest out \<Longrightarrow>
    cuts_into CutOne b (col # cols) rest out"

inductive_simps cuts_into_Nil: "cuts_into CutOne [] cols rest out"
inductive_simps cuts_into_Cons: "cuts_into CutOne (x # b) cols rest out"

lemma cuts_into_unique: "cuts_into CutOne b cols rest out \<Longrightarrow> cuts_into CutOne b cols' rest' out' \<Longrightarrow> cols' = cols \<and> rest' = rest \<and> out' = out"
proof (induction arbitrary: cols' rest' out' rule: cuts_into.induct)
  case (cuts_end b)
  from cuts_end.prems cuts_end.hyps show ?case
    by (cases rule: cuts_into.cases) auto
next
  case (cuts_error b e)
  from cuts_error.prems cuts_error.hyps show ?case
    by (cases rule: cuts_into.cases) auto
next
  case (cuts_piece b col b' cols rest out)
  obtain cols'' where "cols' = col # cols''" "cuts_into CutOne b' cols'' rest' out'"
    using cuts_piece.prems cuts_piece.hyps(1-3) by (cases rule: cuts_into.cases) auto
  then show ?case
    using cuts_piece.IH by simp
qed

lemma cuts_into_concat: "cuts_front CutOne \<Longrightarrow> cuts_into CutOne b cols rest out \<Longrightarrow> b = concat cols @ rest"
  by (rotate_tac, induction rule: cuts_into.induct) (auto simp: cuts_front_def)

lemma cuts_into_ends: "cuts_front CutOne \<Longrightarrow> \<exists>cols rest out. cuts_into CutOne b cols rest out"
proof (induction "length b" arbitrary: b rule: less_induct)
  case less
  show ?case
  proof (cases "b = [] \<or> hd b = 0")
    case True
    then show ?thesis
      using cuts_end by blast
  next
    case False
    show ?thesis
    proof (cases "CutOne b")
      case (Inl e)
      then show ?thesis
        using cuts_error False by blast
    next
      case (Inr p)
      then obtain col b' where p: "CutOne b = Inr (col, b')"
        by (cases p) auto
      then have "length b' < length b"
        using less.prems by (force simp: cuts_front_def)
      then show ?thesis
        using less.hyps [of b'] less.prems False cuts_piece [of b CutOne col b'] p by blast
    qed
  qed
qed

lemma handle_columns_cuts:
  "cuts_into CutOne b cols rest out \<Longrightarrow>
    handle_columns CutOne b o' offs = Some (case out of None \<Rightarrow> Inr (offs @ column_ends o' cols) | Some e \<Rightarrow> Inl e)"
proof (induction arbitrary: o' offs rule: cuts_into.induct)
  case (cuts_piece b col b' cols rest out)
  then show ?case
    by (subst handle_columns.simps) (simp split: option.split)
qed (subst handle_columns.simps, auto)+

lemma EncodedDefCaus_column:
  assumes "i < length cols" and "length (concat cols) < 65536"
  shows "EncodedDefCaus (CommonHandle (concat cols @ rest) (column_ends 0 cols)) i = Some (cols ! i)"
proof -
  have split: "cols = take i cols @ cols ! i # drop (Suc i) cols"
    using assms(1) by (simp add: id_take_nth_drop)
  have len: "length (concat cols) = length (concat (take i cols)) + length (cols ! i) + length (concat (drop (Suc i) cols))"
    by (subst split) simp
  have take: "length (concat (take (Suc i) cols)) = length (concat (take i cols)) + length (cols ! i)"
    using assms(1) by (simp add: take_Suc_conv_app_nth)
  have hi: "unat (column_ends 0 cols ! i) = length (concat (take i cols)) + length (cols ! i)"
    unfolding nth_column_ends [OF assms(1)] take using len assms(2)
    by (simp add: unat_of_nat flip: of_nat_add)
  have lo: "(if i > 0 then unat (column_ends 0 cols ! (i - 1)) else 0) = length (concat (take i cols))"
  proof (cases i)
    case (Suc j)
    then show ?thesis
      using nth_column_ends [of j cols 0] assms len by (simp add: unat_of_nat)
  qed simp
  have "take (length (cols ! i)) (drop (length (concat (take i cols))) (concat cols @ rest)) = cols ! i"
    by (subst split) simp
  then show ?thesis
    using lo hi len assms(1) by (simp add: Let_def)
qed

section \<open>Theorems\<close>

text \<open>A key's successor is the least key above it.\<close>

lemma Key_Next_least: "Key_Next k \<le> k' \<longleftrightarrow> k < k'"
proof (induction k arbitrary: k')
  case Nil
  then show ?case
    by (cases k') (auto simp: Key_Next_def word_gt_0)
next
  case (Cons x k)
  then show ?case
    by (cases k') (auto simp: Key_Next_def)
qed

lemma prefix_le: "prefix k k' \<Longrightarrow> k \<le> (k' :: bytes)"
  using less_append_right by (auto simp: prefix_def le_less)

lemma common_prefix_between:
  "(xs @ as :: bytes) \<le> k \<Longrightarrow> k < xs @ bs \<Longrightarrow> length xs \<le> length k \<Longrightarrow> \<exists>ys. k = xs @ ys \<and> as \<le> ys \<and> ys < bs"
proof (induction xs arbitrary: k)
  case (Cons x xs)
  then obtain c k' where k: "k = c # k'"
    by (cases k) auto
  then have "c = x" "xs @ as \<le> k'" "k' < xs @ bs" "length xs \<le> length k'"
    using Cons.prems by auto
  then show ?case
    using Cons.IH k by auto
qed simp

lemma byte_between: "(b :: byte) \<le> c \<Longrightarrow> c < b + 1 \<Longrightarrow> c = b"
  by (metis inc_le leD word_order.not_eq_extremum order.not_eq_order_implies_strict linorder_neqE)

lemma prefix_range:
  assumes "\<exists>b\<in>set k. b \<noteq> 255"
  shows "(HasPrefix k' k \<longrightarrow> k \<le> k' \<and> k' < PrefixNext k) \<and>
    (k \<le> k' \<and> k' < PrefixNext k \<and> length k \<le> length k' \<longrightarrow> HasPrefix k' k)"
proof (cases k rule: key_shape)
  case (all n)
  then show ?thesis
    using assms by auto
next
  case (some xs b n)
  show ?thesis
  proof (intro conjI impI)
    assume "HasPrefix k' k"
    then obtain ys where ys: "k' = k @ ys"
      unfolding HasPrefix_def by (metis append_take_drop_id)
    show "k \<le> k'"
      unfolding ys by (intro prefix_le) simp
    show "k' < PrefixNext k"
      using less_succ_byte [OF some(2)] unfolding ys some(1) PrefixNext_some [OF some(2)] by simp
  next
    assume r: "k \<le> k' \<and> k' < PrefixNext k \<and> length k \<le> length k'"
    then obtain ys where ys: "k' = xs @ ys" "b # replicate n 255 \<le> ys" "ys < (b + 1) # replicate n 0"
      using common_prefix_between [of xs "b # replicate n 255" k' "(b + 1) # replicate n 0"]
      unfolding some(1) PrefixNext_some [OF some(2)] by auto
    then obtain c zs where c: "ys = c # zs"
      by (cases ys) auto
    then have len: "n \<le> length zs"
      using r ys(1) some(1) by simp
    have "\<not> zs < replicate n 0"
      using less_append_zeros [of zs n] len by auto
    then have "b \<le> c" "c < b + 1"
      using ys c by auto
    then have "c = b"
      by (rule byte_between)
    then have "prefix (replicate n 255) zs"
      using ys c by (intro replicate_255_le) auto
    then show "HasPrefix k' k"
      unfolding HasPrefix_def some(1) ys(1) c \<open>c = b\<close> by (auto simp: prefix_def)
  qed
qed

text \<open>
  C36. \<open>PrefixNext\<close> of a key that is not all \<open>0xFF\<close> closes the range of the keys with that prefix: every key
  with the prefix is in the range, and a key at least as long that is in the range has the prefix.
\<close>

theorem PrefixNext_closes_prefix_range:
  assumes "\<exists>b\<in>set k. b \<noteq> 255"
  shows "(HasPrefix k' k \<longrightarrow> k \<le> k' \<and> k' < PrefixNext k) \<and>
    (k \<le> k' \<and> k' < PrefixNext k \<and> length k \<le> length k' \<longrightarrow> HasPrefix k' k)"
  using prefix_range [OF assms] .

theorem PrefixNext_closes_prefix_range_witness: "[7, 255, 3] < PrefixNext [7, 255]"
  using PrefixNext_closes_prefix_range [of "[7, 255]" "[7, 255, 3]"] by (simp add: HasPrefix_def byte_255)

text \<open>
  \<open>IsPoint\<close> recognises exactly the ranges whose end is the successor or the prefix successor of their
  start, which is what its comments say it computes.
\<close>

theorem IsPoint_iff: "IsPoint r \<longleftrightarrow> EndKey r = Key_Next (StartKey r) \<or> EndKey r = PrefixNext (StartKey r)"
proof (cases r)
  case (fields s e)
  show ?thesis
  proof (cases "length s = length e")
    case True
    then show ?thesis
      using IsPoint_same_length [OF True] fields by (auto simp: Key_Next_def)
  next
    case False
    have "e = Key_Next s" if "e = PrefixNext s"
      by (cases s rule: key_shape) (use False that in \<open>auto simp: PrefixNext_some PrefixNext_all Key_Next_def\<close>)
    then show ?thesis
      using IsPoint_other_length [OF False] fields by auto
  qed
qed

text \<open>
  C37. Building a common handle returns whenever the codec cuts a non-empty piece off the front. Take the pieces it
  cuts one after the other, up to the padding: if a cut fails, its error is returned; else the handle's columns are
  exactly these pieces, in order, provided the bytes fit the 16-bit offsets, and its bytes are padded to nine.
\<close>

theorem NewCommonHandle_columns:
  assumes "cuts_front CutOne" and "length enc < 65536"
  shows "\<exists>cols rest out. cuts_into CutOne enc cols rest out \<and>
    (case out of
       Some e \<Rightarrow> NewCommonHandle CutOne enc = Some (Inl e)
     | None \<Rightarrow> \<exists>h. NewCommonHandle CutOne enc = Some (Inr h) \<and>
         NumDefCauss h = Some (length cols) \<and> (\<forall>i<length cols. EncodedDefCaus h i = Some (cols ! i)) \<and>
         Handle_Encoded EncodeInt h = enc @ replicate (9 - length enc) 0)"
proof -
  have pad: "(if length enc < 9 then enc @ replicate (9 - length enc) 0 else enc) = enc @ replicate (9 - length enc) 0"
    by simp
  obtain cols rest out where c: "cuts_into CutOne enc cols rest out"
    using cuts_into_ends [OF assms(1)] by blast
  note n = handle_columns_cuts [OF c, of 0 "[]"] and b = cuts_into_concat [OF assms(1) c]
  show ?thesis
  proof (cases out)
    case (Some e)
    then have "NewCommonHandle CutOne enc = Some (Inl e)"
      by (simp add: NewCommonHandle_def n)
    then show ?thesis
      using c Some by (intro exI [of _ cols] exI [of _ rest] exI [of _ out]) simp
  next
    case None
    let ?h = "CommonHandle (enc @ replicate (9 - length enc) 0) (column_ends 0 cols)"
    have "NewCommonHandle CutOne enc = Some (Inr ?h)"
      unfolding NewCommonHandle_def pad Let_def n by (simp add: None)
    moreover have "EncodedDefCaus ?h i = Some (cols ! i)" if "i < length cols" for i
      using EncodedDefCaus_column [OF that, of "rest @ replicate (9 - length enc) 0"] assms(2)
      by (simp add: b del: EncodedDefCaus.simps)
    ultimately show ?thesis
      using c None by (intro exI [of _ cols] exI [of _ rest] exI [of _ out]) simp
  qed
qed

definition ex_cut :: "bytes \<Rightarrow> err + bytes \<times> bytes" where
  "ex_cut b = (if length b < 2 then Inl ErrInvalidEncodedKey else Inr (take 2 b, drop 2 b))"

lemma ex_cut_front: "cuts_front ex_cut"
  by (auto simp: cuts_front_def ex_cut_def split: if_splits)

theorem NewCommonHandle_columns_witness:
  "\<exists>h. NewCommonHandle ex_cut [1, 5, 1, 6, 0] = Some (Inr h) \<and> NumDefCauss h = Some 2 \<and>
    EncodedDefCaus h 0 = Some [1, 5] \<and> EncodedDefCaus h 1 = Some [1, 6] \<and> Handle_Encoded (\<lambda>b i. b) h = [1, 5, 1, 6, 0, 0, 0, 0, 0]"
proof -
  let ?enc = "[1, 5, 1, 6, 0] :: bytes"
  have "cuts_into ex_cut ?enc [[1, 5], [1, 6]] [0] None"
    by (simp add: cuts_into_Cons ex_cut_def)
  moreover obtain cols rest out where c: "cuts_into ex_cut ?enc cols rest out"
    and h: "case out of Some e \<Rightarrow> NewCommonHandle ex_cut ?enc = Some (Inl e)
      | None \<Rightarrow> \<exists>h. NewCommonHandle ex_cut ?enc = Some (Inr h) \<and> NumDefCauss h = Some (length cols) \<and>
          (\<forall>i<length cols. EncodedDefCaus h i = Some (cols ! i)) \<and> Handle_Encoded (\<lambda>b i. b) h = ?enc @ replicate (9 - length ?enc) 0"
    using NewCommonHandle_columns [OF ex_cut_front, of ?enc "\<lambda>b i. b"] by auto
  ultimately have o': "cols = [[1, 5], [1, 6]]" "out = None"
    using cuts_into_unique by blast+
  then obtain h where "NewCommonHandle ex_cut ?enc = Some (Inr h)" "NumDefCauss h = Some (length cols)"
      "\<forall>i<length cols. EncodedDefCaus h i = Some (cols ! i)" "Handle_Encoded (\<lambda>b i. b) h = ?enc @ replicate (9 - length ?enc) 0"
    using h by auto
  moreover have "replicate (9 - length ?enc) 0 = [0, 0, 0, 0 :: byte]"
    by (simp add: numeral_eq_Suc)
  ultimately show ?thesis
    unfolding o' by (intro exI [of _ h]) (simp add: All_less_Suc numeral_2_eq_2 del: EncodedDefCaus.simps)
qed

text \<open>
  After any sequence of stores the handle map answers a look-up with the last value stored under an
  equal handle; a deletion forgets the handles equal to it and no other; the length counts the handles that
  are present.
\<close>

theorem HandleMap_is_a_map:
  assumes "HandleMap_ok m"
  shows "HandleMap_Get (fold (\<lambda>(h, v) m. HandleMap_Set m h v) hvs m) h =
      (case find (\<lambda>hv. Handle_Equal (fst hv) h) (rev hvs) of Some hv \<Rightarrow> Some (snd hv) | None \<Rightarrow> HandleMap_Get m h) \<and>
    HandleMap_Get (HandleMap_Delete m h') h = (if Handle_Equal h' h then None else HandleMap_Get m h) \<and>
    HandleMap_Len (HandleMap_Set m h v) = HandleMap_Len m + (if HandleMap_Get m h = None then 1 else 0) \<and>
    HandleMap_Len m = HandleMap_Len (HandleMap_Delete m h) + (if HandleMap_Get m h = None then 0 else 1) \<and>
    HandleMap_Len (NewHandleMap :: 'v HandleMap) = 0"
proof (intro conjI)
  show "HandleMap_Get (fold (\<lambda>(h, v) m. HandleMap_Set m h v) hvs m) h =
      (case find (\<lambda>hv. Handle_Equal (fst hv) h) (rev hvs) of Some hv \<Rightarrow> Some (snd hv) | None \<Rightarrow> HandleMap_Get m h)"
    using handle_map.get_set_all [OF assms, of hvs h] unfolding handle_map.set_all_def .
  show "HandleMap_Get (HandleMap_Delete m h') h = (if Handle_Equal h' h then None else HandleMap_Get m h)"
    by (rule handle_map.get_delete [OF assms])
  show "HandleMap_Len (HandleMap_Set m h v) = HandleMap_Len m + (if HandleMap_Get m h = None then 1 else 0)"
    by (cases h) (simp_all add: HandleMap_Len_def length_update map_of_None_fst)
  show "HandleMap_Len m = HandleMap_Len (HandleMap_Delete m h) + (if HandleMap_Get m h = None then 0 else 1)"
  proof -
    have d: "distinct (map fst (ints m))" "distinct (map fst (strs m))"
      using assms by (auto simp: HandleMap_ok_def)
    show ?thesis
    proof (cases h)
      case (IntHandle i)
      show ?thesis
        using length_delete [OF d(1), of i] by (simp add: IntHandle HandleMap_Len_def map_of_None_fst del: set_map)
    next
      case (CommonHandle e offs)
      show ?thesis
        using length_delete [OF d(2), of e] by (simp add: CommonHandle HandleMap_Len_def map_of_None_fst del: set_map)
    qed
  qed
qed (simp add: HandleMap_Len_def NewHandleMap_def)

theorem HandleMap_is_a_map_witness:
  "HandleMap_Get (HandleMap_Set (HandleMap_Set NewHandleMap (IntHandle 3) (CHR ''a'')) (CommonHandle [1] []) (CHR ''b'')) (IntHandle 3) = Some (CHR ''a'')"
  using HandleMap_is_a_map [OF NewHandleMap_ok, of "[(IntHandle 3, CHR ''a''), (CommonHandle [1] [], CHR ''b'')]" "IntHandle 3"] by auto

text \<open>
  \<open>Range\<close> with a function that never stops visits as many entries as the map holds, one for each
  handle that is present and with its value, in whatever order the two Go maps are visited.
\<close>

theorem HandleMap_Range_visits:
  assumes "HandleMap_ok m" and "mset is = mset (ints m)" and "mset ss = mset (strs m)"
  shows "length (HandleMap_Range (\<lambda>h v. True) is ss) = HandleMap_Len m \<and>
    (\<forall>h v. HandleMap_Get m h = Some v \<longleftrightarrow> (\<exists>h'. Handle_Equal h h' \<and> (h', v) \<in> set (HandleMap_Range (\<lambda>h v. True) is ss)))"
proof -
  have all: "range_visits (\<lambda>h v. True) es = es" for es :: "(Handle \<times> 'a) list"
    by (induction es) auto
  have sets: "set is = set (ints m)" "set ss = set (strs m)" and len: "length is = length (ints m)" "length ss = length (strs m)"
    using assms(2,3) by (auto dest: mset_eq_setD mset_eq_length)
  have visits: "set (HandleMap_Range (\<lambda>h v. True) is ss) = apfst IntHandle ` set (ints m) \<union> snd ` set (strs m)"
    unfolding HandleMap_Range_def all by (simp add: sets)
  have "HandleMap_Get m h = Some v \<longleftrightarrow> (\<exists>h'. Handle_Equal h h' \<and> (h', v) \<in> set (HandleMap_Range (\<lambda>h v. True) is ss))" for h v
  proof (cases h)
    case (IntHandle i)
    have no: "(h', v) \<notin> snd ` set (strs m)" if "Handle_Equal (IntHandle i) h'" for h'
      using that assms(1) by (auto simp: HandleMap_ok_def)
    have "map_of (ints m) i = Some v \<longleftrightarrow> (i, v) \<in> set (ints m)"
      using assms(1) by (simp add: HandleMap_ok_def)
    also have "\<dots> \<longleftrightarrow> (\<exists>h'. Handle_Equal (IntHandle i) h' \<and> (h', v) \<in> apfst IntHandle ` set (ints m))"
    proof
      assume "(i, v) \<in> set (ints m)"
      then have "(IntHandle i, v) \<in> apfst IntHandle ` set (ints m)"
        by force
      then show "\<exists>h'. Handle_Equal (IntHandle i) h' \<and> (h', v) \<in> apfst IntHandle ` set (ints m)"
        by (intro exI [of _ "IntHandle i"]) simp
    qed auto
    also have "\<dots> \<longleftrightarrow> (\<exists>h'. Handle_Equal h h' \<and> (h', v) \<in> set (HandleMap_Range (\<lambda>h v. True) is ss))"
      using no unfolding visits IntHandle by blast
    finally show ?thesis
      by (simp add: IntHandle)
  next
    case (CommonHandle e offs)
    have no: "(h', v) \<notin> apfst IntHandle ` set (ints m)" if "Handle_Equal (CommonHandle e offs) h'" for h'
      using that by auto
    have "map_of (strs m) e = Some x \<longleftrightarrow> (e, x) \<in> set (strs m)" for x
      using assms(1) by (simp add: HandleMap_ok_def)
    then have "HandleMap_Get m h = Some v \<longleftrightarrow> (\<exists>h'. (e, h', v) \<in> set (strs m))"
      by (auto simp: CommonHandle)
    also have "\<dots> \<longleftrightarrow> (\<exists>h'. Handle_Equal (CommonHandle e offs) h' \<and> (h', v) \<in> snd ` set (strs m))"
    proof
      assume "\<exists>h'. (e, h', v) \<in> set (strs m)"
      then obtain h' offs' where "(e, h', v) \<in> set (strs m)" "h' = CommonHandle e offs'"
        using assms(1) unfolding HandleMap_ok_def by blast
      then show "\<exists>h'. Handle_Equal (CommonHandle e offs) h' \<and> (h', v) \<in> snd ` set (strs m)"
        by (intro exI [of _ h']) (auto intro!: image_eqI [where x = "(e, h', v)"])
    next
      assume "\<exists>h'. Handle_Equal (CommonHandle e offs) h' \<and> (h', v) \<in> snd ` set (strs m)"
      then obtain e' h' where h': "Handle_Equal (CommonHandle e offs) h'" "(e', h', v) \<in> set (strs m)"
        by auto
      then obtain offs' where "h' = CommonHandle e' offs'"
        using assms(1) unfolding HandleMap_ok_def by blast
      then show "\<exists>h'. (e, h', v) \<in> set (strs m)"
        using h' by auto
    qed
    also have "\<dots> \<longleftrightarrow> (\<exists>h'. Handle_Equal h h' \<and> (h', v) \<in> set (HandleMap_Range (\<lambda>h v. True) is ss))"
      using no unfolding visits CommonHandle by blast
    finally show ?thesis .
  qed
  then show ?thesis
    using len by (simp add: HandleMap_Range_def all HandleMap_Len_def)
qed

theorem HandleMap_Range_visits_witness:
  "length (HandleMap_Range (\<lambda>h v. True) [(4, CHR ''b''), (3, CHR ''a'')] []) = HandleMap_Len \<lparr>ints = [(3, CHR ''a''), (4, CHR ''b'')], strs = []\<rparr>"
  using HandleMap_Range_visits [of "\<lparr>ints = [(3, CHR ''a''), (4, CHR ''b'')], strs = []\<rparr>" "[(4, CHR ''b''), (3, CHR ''a'')]" "[]"]
  by (simp add: HandleMap_ok_def)

text \<open>
  The remark on \<open>Equal\<close> says it panics on handles of different kinds; it returns false, and only \<open>Compare\<close>
  panics. The remark on \<open>Next\<close> promises the least greater handle; for a common handle there are handles in
  between.
\<close>

lemma Handle_Equal_mixed: "Handle_Equal (IntHandle i) (CommonHandle e offs) = False"
  by simp

lemma CommonHandle_Next_not_least:
  "Handle_Compare (CommonHandle [1] []) (CommonHandle [1, 0] []) = Some (- 1) \<and>
   Handle_Compare (CommonHandle [1, 0] []) (Handle_Next (CommonHandle [1] [])) = Some (- 1)"
  by (simp add: bytes_Compare_def PrefixNext_def)

end
