(* ===== verification/Cluster.thy ===== *)
theory Cluster
  imports Mvcc Keys "HOL-Library.Monad_Syntax"
begin

text \<open>
  \<^verbatim>\<open>mockeinsteindb/cluster.go\<close> and \<^verbatim>\<open>cluster_manipulate.go\<close>: the simulated cluster's stores, regions and
  peers, and the operations that look them up and change them. The locks serialise the operations, so each
  is a function on the cluster's state. The Go maps are maps; where the code ranges over one, the order in
  which its keys are visited is an argument, and the theorems hold for every such order. A panic is \<open>None\<close>.
  The records of the package \<^verbatim>\<open>metapb\<close> carry the fields the code reads or writes; clones are values.
\<close>

section \<open>State\<close>

record Peer =
  Peer_Id :: u64
  Peer_StoreId :: u64

record RegionEpoch =
  ConfVer :: u64
  Version :: u64

record RegionMeta =
  Region_Id :: u64
  Region_StartKey :: bytes
  Region_EndKey :: bytes
  Region_Epoch :: "RegionEpoch option"
  Region_Peers :: "Peer list"

record Region =
  Meta :: RegionMeta
  leader :: u64

datatype StoreState = StoreState_Up | StoreState_Offline | StoreState_Tombstone

record StoreMeta =
  Store_Id :: u64
  Store_Address :: string
  Store_Labels :: "(string \<times> string) list"
  Store_State :: StoreState

record CausetStore =
  store_meta :: StoreMeta
  cancel :: bool

record Cluster =
  cluster_id :: u64
  stores :: "u64 \<rightharpoonup> CausetStore"
  regions :: "u64 \<rightharpoonup> Region"
  delayEvents :: "u64 \<times> u64 \<rightharpoonup> int"

definition NewCluster :: Cluster where
  "NewCluster = \<lparr>cluster_id = 0, stores = Map.empty, regions = Map.empty, delayEvents = Map.empty\<rparr>"

text \<open>The values a map holds, in the order its keys are visited.\<close>

definition values_in :: "u64 list \<Rightarrow> (u64 \<rightharpoonup> 'a) \<Rightarrow> 'a list" where
  "values_in ord m = List.map_filter m ord"

definition visits :: "u64 list \<Rightarrow> (u64 \<rightharpoonup> 'a) \<Rightarrow> bool" where
  "visits ord m = (distinct ord \<and> set ord = dom m)"

section \<open>Regions\<close>

definition newPeerMeta :: "u64 \<Rightarrow> u64 \<Rightarrow> Peer" where
  "newPeerMeta peerID storeID = \<lparr>Peer_Id = peerID, Peer_StoreId = storeID\<rparr>"

definition newRegion :: "u64 \<Rightarrow> u64 list \<Rightarrow> u64 list \<Rightarrow> u64 \<Rightarrow> Region option" where
  "newRegion regionID storeIDs peerIDs leaderPeerID =
     (if length storeIDs \<noteq> length peerIDs then None
      else Some \<lparr>Meta = \<lparr>Region_Id = regionID, Region_StartKey = [], Region_EndKey = [], Region_Epoch = None,
              Region_Peers = map2 newPeerMeta peerIDs storeIDs\<rparr>, leader = leaderPeerID\<rparr>)"

definition GetConfVer :: "RegionEpoch option \<Rightarrow> u64" where
  "GetConfVer ep = (case ep of None \<Rightarrow> 0 | Some ep' \<Rightarrow> ConfVer ep')"

definition GetVersion :: "RegionEpoch option \<Rightarrow> u64" where
  "GetVersion ep = (case ep of None \<Rightarrow> 0 | Some ep' \<Rightarrow> Version ep')"

definition incConfVer :: "Region \<Rightarrow> Region" where
  "incConfVer r = r\<lparr>Meta := (Meta r)\<lparr>Region_Epoch := Some
     \<lparr>ConfVer = GetConfVer (Region_Epoch (Meta r)) + 1, Version = GetVersion (Region_Epoch (Meta r))\<rparr>\<rparr>\<rparr>"

definition incVersion :: "Region \<Rightarrow> Region" where
  "incVersion r = r\<lparr>Meta := (Meta r)\<lparr>Region_Epoch := Some
     \<lparr>ConfVer = GetConfVer (Region_Epoch (Meta r)), Version = GetVersion (Region_Epoch (Meta r)) + 1\<rparr>\<rparr>\<rparr>"

definition addPeer :: "u64 \<Rightarrow> u64 \<Rightarrow> Region \<Rightarrow> Region" where
  "addPeer peerID storeID r =
     incConfVer (r\<lparr>Meta := (Meta r)\<lparr>Region_Peers := Region_Peers (Meta r) @ [newPeerMeta peerID storeID]\<rparr>\<rparr>)"

fun removePeer_loop :: "u64 \<Rightarrow> Peer list \<Rightarrow> Peer list" where
  "removePeer_loop peerID [] = []"
| "removePeer_loop peerID (p # ps) = (if Peer_Id p = peerID then ps else p # removePeer_loop peerID ps)"

definition removePeer :: "u64 \<Rightarrow> Region \<Rightarrow> Region" where
  "removePeer peerID r =
     (let r1 = r\<lparr>Meta := (Meta r)\<lparr>Region_Peers := removePeer_loop peerID (Region_Peers (Meta r))\<rparr>\<rparr>;
          r2 = (if leader r1 = peerID then r1\<lparr>leader := 0\<rparr> else r1)
      in incConfVer r2)"

definition changeLeader :: "u64 \<Rightarrow> Region \<Rightarrow> Region" where
  "changeLeader leaderID r = r\<lparr>leader := leaderID\<rparr>"

definition leaderPeer :: "Region \<Rightarrow> Peer option" where
  "leaderPeer r = find (\<lambda>p. Peer_Id p = leader r) (Region_Peers (Meta r))"

definition uFIDelateKeyRange :: "bytes \<Rightarrow> bytes \<Rightarrow> Region \<Rightarrow> Region" where
  "uFIDelateKeyRange start end' r =
     incVersion (r\<lparr>Meta := (Meta r)\<lparr>Region_StartKey := start, Region_EndKey := end'\<rparr>\<rparr>)"

text \<open>\<open>split\<close> returns the region it creates; the region it is called on is cut at the key.\<close>

definition region_split :: "u64 \<Rightarrow> bytes \<Rightarrow> u64 list \<Rightarrow> u64 \<Rightarrow> Region \<Rightarrow> (Region \<times> Region) option" where
  "region_split newRegionID key peerIDs leaderPeerID r =
     (if length (Region_Peers (Meta r)) \<noteq> length peerIDs then None
      else do {
        region \<leftarrow> newRegion newRegionID (map Peer_StoreId (Region_Peers (Meta r))) peerIDs leaderPeerID;
        Some (uFIDelateKeyRange key (Region_EndKey (Meta r)) region,
              uFIDelateKeyRange (Region_StartKey (Meta r)) key r)
      })"

definition region_merge :: "bytes \<Rightarrow> Region \<Rightarrow> Region" where
  "region_merge endKey r = incVersion (r\<lparr>Meta := (Meta r)\<lparr>Region_EndKey := endKey\<rparr>\<rparr>)"

section \<open>Identifiers\<close>

definition allocID :: "Cluster \<Rightarrow> u64 \<times> Cluster" where
  "allocID c = (cluster_id c + 1, c\<lparr>cluster_id := cluster_id c + 1\<rparr>)"

definition AllocID :: "Cluster \<Rightarrow> u64 \<times> Cluster" where
  "AllocID c = allocID c"

fun AllocIDs_loop :: "nat \<Rightarrow> Cluster \<Rightarrow> u64 list \<times> Cluster" where
  "AllocIDs_loop 0 c = ([], c)"
| "AllocIDs_loop (Suc n) c =
     (let (i, c') = allocID c; (is, c'') = AllocIDs_loop n c' in (i # is, c''))"

definition AllocIDs :: "int \<Rightarrow> Cluster \<Rightarrow> u64 list \<times> Cluster" where
  "AllocIDs n c = AllocIDs_loop (nat n) c"

section \<open>Stores\<close>

definition newStore :: "u64 \<Rightarrow> string \<Rightarrow> (string \<times> string) list \<Rightarrow> CausetStore" where
  "newStore storeID addr labels =
     \<lparr>store_meta = \<lparr>Store_Id = storeID, Store_Address = addr, Store_Labels = labels, Store_State = StoreState_Up\<rparr>, cancel = False\<rparr>"

definition GetStore :: "u64 \<Rightarrow> Cluster \<Rightarrow> StoreMeta option" where
  "GetStore storeID c = map_option store_meta (stores c storeID)"

definition GetAllStores :: "u64 list \<Rightarrow> Cluster \<Rightarrow> StoreMeta list" where
  "GetAllStores ord c = map store_meta (values_in ord (stores c))"

definition on_store :: "u64 \<Rightarrow> (CausetStore \<Rightarrow> CausetStore) \<Rightarrow> Cluster \<Rightarrow> Cluster" where
  "on_store storeID f c =
     (case stores c storeID of None \<Rightarrow> c | Some s \<Rightarrow> c\<lparr>stores := (stores c)(storeID \<mapsto> f s)\<rparr>)"

definition StopStore :: "u64 \<Rightarrow> Cluster \<Rightarrow> Cluster" where
  "StopStore storeID = on_store storeID (\<lambda>s. s\<lparr>store_meta := (store_meta s)\<lparr>Store_State := StoreState_Offline\<rparr>\<rparr>)"

definition StartStore :: "u64 \<Rightarrow> Cluster \<Rightarrow> Cluster" where
  "StartStore storeID = on_store storeID (\<lambda>s. s\<lparr>store_meta := (store_meta s)\<lparr>Store_State := StoreState_Up\<rparr>\<rparr>)"

definition CancelStore :: "u64 \<Rightarrow> Cluster \<Rightarrow> Cluster" where
  "CancelStore storeID = on_store storeID (\<lambda>s. s\<lparr>cancel := True\<rparr>)"

definition UnCancelStore :: "u64 \<Rightarrow> Cluster \<Rightarrow> Cluster" where
  "UnCancelStore storeID = on_store storeID (\<lambda>s. s\<lparr>cancel := False\<rparr>)"

definition GetStoreByAddr :: "u64 list \<Rightarrow> string \<Rightarrow> Cluster \<Rightarrow> StoreMeta option" where
  "GetStoreByAddr ord addr c =
     map_option store_meta (find (\<lambda>s. Store_Address (store_meta s) = addr) (values_in ord (stores c)))"

text \<open>\<^verbatim>\<open>context.Canceled\<close> is the standard library's error with this text.\<close>

fun GetAndCheckStoreByAddr_loop :: "string \<Rightarrow> CausetStore list \<Rightarrow> err + StoreMeta option" where
  "GetAndCheckStoreByAddr_loop addr [] = Inr None"
| "GetAndCheckStoreByAddr_loop addr (s # ss) =
     (if cancel s then Inl (Err_New ''context canceled'')
      else if Store_Address (store_meta s) = addr then Inr (Some (store_meta s))
      else GetAndCheckStoreByAddr_loop addr ss)"

definition GetAndCheckStoreByAddr :: "u64 list \<Rightarrow> string \<Rightarrow> Cluster \<Rightarrow> err + StoreMeta option" where
  "GetAndCheckStoreByAddr ord addr c = GetAndCheckStoreByAddr_loop addr (values_in ord (stores c))"

definition AddStore :: "u64 \<Rightarrow> string \<Rightarrow> Cluster \<Rightarrow> Cluster" where
  "AddStore storeID addr c = c\<lparr>stores := (stores c)(storeID \<mapsto> newStore storeID addr [])\<rparr>"

definition RemoveStore :: "u64 \<Rightarrow> Cluster \<Rightarrow> Cluster" where
  "RemoveStore storeID c = c\<lparr>stores := (stores c)(storeID := None)\<rparr>"

definition UFIDelateStoreAddr :: "u64 \<Rightarrow> string \<Rightarrow> (string \<times> string) list \<Rightarrow> Cluster \<Rightarrow> Cluster" where
  "UFIDelateStoreAddr storeID addr labels c = c\<lparr>stores := (stores c)(storeID \<mapsto> newStore storeID addr labels)\<rparr>"

definition firstStoreID :: "u64 list \<Rightarrow> u64" where
  "firstStoreID ord = (case ord of [] \<Rightarrow> 0 | i # _ \<Rightarrow> i)"

section \<open>Looking up regions\<close>

definition GetAllRegions :: "u64 list \<Rightarrow> Cluster \<Rightarrow> Region list" where
  "GetAllRegions ord c = values_in ord (regions c)"

definition GetRegion :: "u64 \<Rightarrow> Cluster \<Rightarrow> RegionMeta option \<times> u64" where
  "GetRegion regionID c =
     (case regions c regionID of None \<Rightarrow> (None, 0) | Some r \<Rightarrow> (Some (Meta r), leader r))"

text \<open>The loops of the look-ups return the first region that passes their test, and its leader.\<close>

definition region_where :: "u64 list \<Rightarrow> (Region \<Rightarrow> bool) \<Rightarrow> Cluster \<Rightarrow> RegionMeta option \<times> Peer option" where
  "region_where ord p c =
     (case find p (values_in ord (regions c)) of None \<Rightarrow> (None, None) | Some r \<Rightarrow> (Some (Meta r), leaderPeer r))"

definition region_contains :: "bytes \<Rightarrow> Region \<Rightarrow> bool" where
  "region_contains key r = regionContains (Region_StartKey (Meta r)) (Region_EndKey (Meta r)) key"

definition GetRegionByKey :: "u64 list \<Rightarrow> bytes \<Rightarrow> Cluster \<Rightarrow> RegionMeta option \<times> Peer option" where
  "GetRegionByKey ord key c = region_where ord (region_contains key) c"

text \<open>Without a region that contains the key the code reads the start key of nil.\<close>

definition GetPrevRegionByKey :: "u64 list \<Rightarrow> u64 list \<Rightarrow> bytes \<Rightarrow> Cluster \<Rightarrow> (RegionMeta option \<times> Peer option) option" where
  "GetPrevRegionByKey ord ord' key c =
     (case fst (GetRegionByKey ord key c) of
        None \<Rightarrow> None
      | Some currentRegion \<Rightarrow>
          if length (Region_StartKey currentRegion) = 0 then Some (None, None)
          else Some (region_where ord' (\<lambda>r. Region_EndKey (Meta r) = Region_StartKey currentRegion) c))"

definition GetRegionByID :: "u64 list \<Rightarrow> u64 \<Rightarrow> Cluster \<Rightarrow> RegionMeta option \<times> Peer option" where
  "GetRegionByID ord regionID c = region_where ord (\<lambda>r. Region_Id (Meta r) = regionID) c"

text \<open>\<^verbatim>\<open>sort.Search\<close> of the standard library.\<close>

function Search_loop :: "(nat \<Rightarrow> bool) \<Rightarrow> nat \<Rightarrow> nat \<Rightarrow> nat" where
  "Search_loop f i j =
     (if i < j then (let h = (i + j) div 2 in if \<not> f h then Search_loop f (h + 1) j else Search_loop f i h) else i)"
  by pat_completeness auto
termination
  by (relation "measure (\<lambda>(f, i, j). j - i)") auto

declare Search_loop.simps [simp del]

definition Search :: "nat \<Rightarrow> (nat \<Rightarrow> bool) \<Rightarrow> nat" where
  "Search n f = Search_loop f 0 n"

text \<open>
  \<^verbatim>\<open>sort.Slice\<close> with the order on start keys. Regions with equal start keys come in any order: the sort
  here is stable and the order of the visits arbitrary.
\<close>

definition ScanRegions :: "u64 list \<Rightarrow> bytes \<Rightarrow> bytes \<Rightarrow> int \<Rightarrow> Cluster \<Rightarrow> (RegionMeta \<times> Peer) list" where
  "ScanRegions ord startKey endKey limit c =
     (let rs = sort_key (\<lambda>r. Region_StartKey (Meta r)) (values_in ord (regions c));
          startPos = Search (length rs) (\<lambda>i. if length (Region_EndKey (Meta (rs ! i))) = 0 then True
                                            else bytes_Compare (Region_EndKey (Meta (rs ! i))) startKey > 0);
          rs1 = drop startPos rs;
          rs2 = (if length endKey > 0
                 then (let endPos = Search (length rs1) (\<lambda>i. bytes_Compare (Region_StartKey (Meta (rs1 ! i))) endKey \<ge> 0)
                       in if endPos > 0 then take endPos rs1 else rs1)
                 else rs1);
          rs3 = (if limit > 0 \<and> int (length rs2) > limit then take (nat limit) rs2 else rs2)
      in map (\<lambda>r. (Meta r, case leaderPeer r of None \<Rightarrow> \<lparr>Peer_Id = 0, Peer_StoreId = 0\<rparr> | Some p \<Rightarrow> p)) rs3)"

section \<open>Changing regions\<close>

definition put_region :: "u64 \<Rightarrow> Region \<Rightarrow> Cluster \<Rightarrow> Cluster" where
  "put_region i r c = c\<lparr>regions := (regions c)(i \<mapsto> r)\<rparr>"

definition del_region :: "u64 \<Rightarrow> Cluster \<Rightarrow> Cluster" where
  "del_region i c = c\<lparr>regions := (regions c)(i := None)\<rparr>"

definition Bootstrap :: "u64 \<Rightarrow> u64 list \<Rightarrow> u64 list \<Rightarrow> u64 \<Rightarrow> Cluster \<Rightarrow> Cluster option" where
  "Bootstrap regionID storeIDs peerIDs leaderPeerID c =
     (if length storeIDs \<noteq> length peerIDs then None
      else map_option (\<lambda>r. put_region regionID r c) (newRegion regionID storeIDs peerIDs leaderPeerID))"

definition AddPeer :: "u64 \<Rightarrow> u64 \<Rightarrow> u64 \<Rightarrow> Cluster \<Rightarrow> Cluster option" where
  "AddPeer regionID storeID peerID c =
     map_option (\<lambda>r. put_region regionID (addPeer peerID storeID r) c) (regions c regionID)"

text \<open>\<open>RemovePeer\<close> hands its second argument, named \<open>storeID\<close>, on as the identifier of the peer.\<close>

definition RemovePeer :: "u64 \<Rightarrow> u64 \<Rightarrow> Cluster \<Rightarrow> Cluster option" where
  "RemovePeer regionID storeID c =
     map_option (\<lambda>r. put_region regionID (removePeer storeID r) c) (regions c regionID)"

definition ChangeLeader :: "u64 \<Rightarrow> u64 \<Rightarrow> Cluster \<Rightarrow> Cluster option" where
  "ChangeLeader regionID leaderPeerID c =
     map_option (\<lambda>r. put_region regionID (changeLeader leaderPeerID r) c) (regions c regionID)"

definition GiveUpLeader :: "u64 \<Rightarrow> Cluster \<Rightarrow> Cluster option" where
  "GiveUpLeader regionID c = ChangeLeader regionID 0 c"

definition SplitRaw :: "u64 \<Rightarrow> u64 \<Rightarrow> bytes \<Rightarrow> u64 list \<Rightarrow> u64 \<Rightarrow> Cluster \<Rightarrow> (RegionMeta \<times> Cluster) option" where
  "SplitRaw regionID newRegionID rawKey peerIDs leaderPeerID c =
     do {
       r \<leftarrow> regions c regionID;
       (new, r') \<leftarrow> region_split newRegionID rawKey peerIDs leaderPeerID r;
       Some (Meta new, put_region newRegionID new (put_region regionID r' c))
     }"

definition Split :: "('db, 'dd) env \<Rightarrow> u64 \<Rightarrow> u64 \<Rightarrow> bytes \<Rightarrow> u64 list \<Rightarrow> u64 \<Rightarrow> Cluster \<Rightarrow> Cluster option" where
  "Split E regionID newRegionID key peerIDs leaderPeerID c =
     map_option snd (SplitRaw regionID newRegionID (NewMvccKey E key) peerIDs leaderPeerID c)"

definition Merge :: "u64 \<Rightarrow> u64 \<Rightarrow> Cluster \<Rightarrow> Cluster option" where
  "Merge regionID1 regionID2 c =
     do {
       r1 \<leftarrow> regions c regionID1;
       r2 \<leftarrow> regions c regionID2;
       Some (del_region regionID2 (put_region regionID1 (region_merge (Region_EndKey (Meta r2)) r1) c))
     }"

section \<open>Splitting a range\<close>

definition getRegionsCoverRange :: "u64 list \<Rightarrow> bytes \<Rightarrow> bytes \<Rightarrow> Cluster \<Rightarrow> Region list" where
  "getRegionsCoverRange ord start end' c =
     filter (\<lambda>r. let onRight = bytes_Compare end' (Region_StartKey (Meta r)) \<le> 0;
                     onLeft = bytes_Compare (Region_EndKey (Meta r)) start \<le> 0;
                     onLeft' = (if length (Region_EndKey (Meta r)) = 0 then False else onLeft)
                 in \<not> (onLeft' \<or> onRight)) (values_in ord (regions c))"

text \<open>
  The loop of \<open>evacuateOldRegionRanges\<close> over the old regions. It changes the regions it visits in place,
  so a change shows in the map unless the region's entry has been replaced since: \<open>made\<close> holds the
  identifiers of the regions the loop has made. The n-th round visits the stores in the order \<open>sord n\<close>.
\<close>

definition put_old :: "u64 list \<Rightarrow> Region \<Rightarrow> Cluster \<Rightarrow> Cluster" where
  "put_old made r c = (if Region_Id (Meta r) \<in> set made then c else put_region (Region_Id (Meta r)) r c)"

definition new_single_region :: "u64 list \<Rightarrow> Cluster \<Rightarrow> (Region \<times> Cluster) option" where
  "new_single_region sord c =
     (let (peerID, c1) = allocID c; (regionID, c2) = allocID c1
      in map_option (\<lambda>r. (r, c2)) (newRegion regionID [firstStoreID sord] [peerID] peerID))"

fun evacuate_loop ::
  "(nat \<Rightarrow> u64 list) \<Rightarrow> bytes \<Rightarrow> bytes \<Rightarrow> Region list \<Rightarrow> nat \<Rightarrow> u64 list \<Rightarrow> Cluster \<Rightarrow> Cluster option" where
  "evacuate_loop sord start end' [] n made c = Some c"
| "evacuate_loop sord start end' (r # rs) n made c =
     (let startCmp = bytes_Compare (Region_StartKey (Meta r)) start;
          endCmp = (if length (Region_EndKey (Meta r)) = 0 then 1 else bytes_Compare (Region_EndKey (Meta r)) end')
      in if startCmp \<ge> 0 \<and> endCmp \<le> 0 then
           evacuate_loop sord start end' rs (Suc n) made (del_region (Region_Id (Meta r)) c)
         else if startCmp < 0 \<and> endCmp > 0 then
           (let oldEnd = Region_EndKey (Meta r);
                c1 = put_old made (uFIDelateKeyRange (Region_StartKey (Meta r)) start r) c
            in (case new_single_region (sord n) c1 of
                  None \<Rightarrow> None
                | Some (new, c2) \<Rightarrow>
                    let new' = uFIDelateKeyRange end' oldEnd new
                    in evacuate_loop sord start end' rs (Suc n) (Region_Id (Meta new') # made)
                         (put_region (Region_Id (Meta new')) new' c2)))
         else if startCmp < 0 then
           evacuate_loop sord start end' rs (Suc n) made
             (put_old made (uFIDelateKeyRange (Region_StartKey (Meta r)) start r) c)
         else
           evacuate_loop sord start end' rs (Suc n) made
             (put_old made (uFIDelateKeyRange end' (Region_EndKey (Meta r)) r) c))"

definition evacuateOldRegionRanges :: "u64 list \<Rightarrow> (nat \<Rightarrow> u64 list) \<Rightarrow> bytes \<Rightarrow> bytes \<Rightarrow> Cluster \<Rightarrow> Cluster option" where
  "evacuateOldRegionRanges ord sord start end' c =
     evacuate_loop sord start end' (getRegionsCoverRange ord start end' c) 0 [] c"

text \<open>The loop of \<open>getEntriesGroupByRegions\<close> on the pairs from index \<open>i\<close> on; not returning is \<open>None\<close>.\<close>

partial_function (option) group_pairs ::
  "nat \<Rightarrow> nat \<Rightarrow> pair list \<Rightarrow> pair list list \<Rightarrow> pair list list option" where
  "group_pairs quot rem' pairs regionEntriesSlice =
     (if pairs = [] then Some regionEntriesSlice
      else (let regionEntryCount = (if rem' > 0 then quot + 1 else quot);
                rem1 = (if rem' > 0 then rem' - 1 else rem')
            in if regionEntryCount > length pairs then None
               else group_pairs quot rem1 (drop regionEntryCount pairs)
                      (regionEntriesSlice @ [take regionEntryCount pairs])))"

type_synonym scan_method = "bytes \<Rightarrow> bytes \<Rightarrow> int \<Rightarrow> u64 \<Rightarrow> IsolationLevel \<Rightarrow> u64 list \<Rightarrow> pair list option"

text \<open>
  The store's \<open>Scan\<close> is an argument; its \<open>None\<close> is its panic. A count that is not positive panics: zero in the
  division, a negative one in \<open>make\<close>.
\<close>

definition getEntriesGroupByRegions ::
  "('db, 'dd) env \<Rightarrow> scan_method \<Rightarrow> bytes \<Rightarrow> bytes \<Rightarrow> int \<Rightarrow> pair list list option" where
  "getEntriesGroupByRegions E store_Scan start end' cnt =
     do {
       startRaw \<leftarrow> MvccKey_Raw E start;
       endRaw \<leftarrow> MvccKey_Raw E end';
       pairs \<leftarrow> store_Scan startRaw endRaw 2147483647 (-1) IsolationLevel_SI [];
       if cnt \<le> 0 then None
       else group_pairs (length pairs div nat cnt) (length pairs mod nat cnt) pairs []
     }"

definition first_key :: "('db, 'dd) env \<Rightarrow> pair list \<Rightarrow> bytes option" where
  "first_key E ps = (case ps of [] \<Rightarrow> None | p # _ \<Rightarrow> Some (NewMvccKey E (p_Key p)))"

fun createNewRegions_loop ::
  "('db, 'dd) env \<Rightarrow> (nat \<Rightarrow> u64 list) \<Rightarrow> bytes \<Rightarrow> bytes \<Rightarrow> pair list list \<Rightarrow> nat \<Rightarrow> Cluster \<Rightarrow> Cluster option" where
  "createNewRegions_loop E sord start end' [] i c = Some c"
| "createNewRegions_loop E sord start end' (g # gs) i c =
     do {
       (new, c1) \<leftarrow> new_single_region (sord i) c;
       regionStartKey \<leftarrow> (if i = 0 then Some start else first_key E g);
       regionEndKey \<leftarrow> (case gs of [] \<Rightarrow> Some end' | g' # _ \<Rightarrow> first_key E g');
       let new' = uFIDelateKeyRange regionStartKey regionEndKey new;
       createNewRegions_loop E sord start end' gs (Suc i) (put_region (Region_Id (Meta new')) new' c1)
     }"

definition createNewRegions ::
  "('db, 'dd) env \<Rightarrow> (nat \<Rightarrow> u64 list) \<Rightarrow> pair list list \<Rightarrow> bytes \<Rightarrow> bytes \<Rightarrow> Cluster \<Rightarrow> Cluster option" where
  "createNewRegions E sord regionPairs start end' c = createNewRegions_loop E sord start end' regionPairs 0 c"

definition splitRange ::
  "('db, 'dd) env \<Rightarrow> scan_method \<Rightarrow> u64 list \<Rightarrow> (nat \<Rightarrow> u64 list) \<Rightarrow> (nat \<Rightarrow> u64 list) \<Rightarrow>
     bytes \<Rightarrow> bytes \<Rightarrow> int \<Rightarrow> Cluster \<Rightarrow> Cluster option" where
  "splitRange E store_Scan ord sord sord' start end' cnt c =
     do {
       c1 \<leftarrow> evacuateOldRegionRanges ord sord start end' c;
       regionPairs \<leftarrow> getEntriesGroupByRegions E store_Scan start end' cnt;
       createNewRegions E sord' regionPairs start end' c1
     }"

definition SplitKeys ::
  "('db, 'dd) env \<Rightarrow> scan_method \<Rightarrow> u64 list \<Rightarrow> (nat \<Rightarrow> u64 list) \<Rightarrow> (nat \<Rightarrow> u64 list) \<Rightarrow>
     bytes \<Rightarrow> bytes \<Rightarrow> int \<Rightarrow> Cluster \<Rightarrow> Cluster option" where
  "SplitKeys E store_Scan ord sord sord' start end' cnt c =
     splitRange E store_Scan ord sord sord' (NewMvccKey E start) (NewMvccKey E end') cnt c"

text \<open>The prefixes of a block's records and of an index come from \<^verbatim>\<open>blockcodec\<close>, which is a parameter.\<close>

definition SplitTable ::
  "('db, 'dd) env \<Rightarrow> (u64 \<Rightarrow> bytes) \<Rightarrow> scan_method \<Rightarrow> u64 list \<Rightarrow> (nat \<Rightarrow> u64 list) \<Rightarrow> (nat \<Rightarrow> u64 list) \<Rightarrow>
     u64 \<Rightarrow> int \<Rightarrow> Cluster \<Rightarrow> Cluster option" where
  "SplitTable E GenTableRecordPrefix store_Scan ord sord sord' blockID cnt c =
     (let blockStart = GenTableRecordPrefix blockID; blockEnd = PrefixNext blockStart
      in splitRange E store_Scan ord sord sord' (NewMvccKey E blockStart) (NewMvccKey E blockEnd) cnt c)"

definition SplitIndex ::
  "('db, 'dd) env \<Rightarrow> (u64 \<Rightarrow> u64 \<Rightarrow> bytes) \<Rightarrow> scan_method \<Rightarrow> u64 list \<Rightarrow> (nat \<Rightarrow> u64 list) \<Rightarrow> (nat \<Rightarrow> u64 list) \<Rightarrow>
     u64 \<Rightarrow> u64 \<Rightarrow> int \<Rightarrow> Cluster \<Rightarrow> Cluster option" where
  "SplitIndex E EncodeTableIndexPrefix store_Scan ord sord sord' blockID indexID cnt c =
     (let indexStart = EncodeTableIndexPrefix blockID indexID; indexEnd = PrefixNext indexStart
      in splitRange E store_Scan ord sord sord' (NewMvccKey E indexStart) (NewMvccKey E indexEnd) cnt c)"

section \<open>Delays\<close>

definition ScheduleDelay :: "u64 \<Rightarrow> u64 \<Rightarrow> int \<Rightarrow> Cluster \<Rightarrow> Cluster" where
  "ScheduleDelay ts regionID dur c = c\<lparr>delayEvents := (delayEvents c)((ts, regionID) \<mapsto> dur)\<rparr>"

text \<open>The time the caller sleeps for is the first result.\<close>

definition handleDelay :: "u64 \<Rightarrow> u64 \<Rightarrow> Cluster \<Rightarrow> int option \<times> Cluster" where
  "handleDelay ts regionID c =
     (case delayEvents c (ts, regionID) of
        None \<Rightarrow> (None, c)
      | Some dur \<Rightarrow> (Some dur, c\<lparr>delayEvents := (delayEvents c)((ts, regionID) := None)\<rparr>))"

section \<open>Bootstrapping\<close>

text \<open>\<^verbatim>\<open>fmt.Sprintf\<close> with the verb for decimals.\<close>

definition store_addr :: "u64 \<Rightarrow> string" where
  "store_addr storeID = ''causetstore'' @ decimal (unat storeID)"

definition BootstrapWithSingleStore :: "Cluster \<Rightarrow> (u64 \<times> u64 \<times> u64 \<times> Cluster) option" where
  "BootstrapWithSingleStore c =
     (case AllocIDs 3 c of (ids, c1) \<Rightarrow>
        let storeID = ids ! 0; peerID = ids ! 1; regionID = ids ! 2;
            c2 = AddStore storeID (store_addr storeID) c1
        in map_option (\<lambda>c3. (storeID, peerID, regionID, c3)) (Bootstrap regionID [storeID] [peerID] peerID c2))"

definition BootstrapWithMultiStores :: "int \<Rightarrow> Cluster \<Rightarrow> (u64 list \<times> u64 list \<times> u64 \<times> u64 \<times> Cluster) option" where
  "BootstrapWithMultiStores n c =
     (case AllocIDs n c of (storeIDs, c1) \<Rightarrow>
      case AllocIDs n c1 of (peerIDs, c2) \<Rightarrow>
        if peerIDs = [] then None
        else (let leaderPeer' = peerIDs ! 0; (regionID, c3) = AllocID c2;
                  c4 = fold (\<lambda>storeID. AddStore storeID (store_addr storeID)) storeIDs c3
              in map_option (\<lambda>c5. (storeIDs, peerIDs, regionID, leaderPeer', c5))
                   (Bootstrap regionID storeIDs peerIDs leaderPeer' c4)))"

fun split_at_keys :: "('db, 'dd) env \<Rightarrow> u64 list \<Rightarrow> u64 list \<Rightarrow> nat \<Rightarrow> bytes list \<Rightarrow> Cluster \<Rightarrow> Cluster option" where
  "split_at_keys E regionIDs peerIDs i [] c = Some c"
| "split_at_keys E regionIDs peerIDs i (k # ks) c =
     do {
       c' \<leftarrow> Split E (regionIDs ! i) (regionIDs ! (i + 1)) k [peerIDs ! i] (peerIDs ! i) c;
       split_at_keys E regionIDs peerIDs (Suc i) ks c'
     }"

definition BootstrapWithMultiRegions ::
  "('db, 'dd) env \<Rightarrow> bytes list \<Rightarrow> Cluster \<Rightarrow> (u64 \<times> u64 list \<times> u64 list \<times> Cluster) option" where
  "BootstrapWithMultiRegions E splitKeys c =
     do {
       (storeID, firstPeerID, firstRegionID, c1) \<leftarrow> BootstrapWithSingleStore c;
       let (ids, c2) = AllocIDs (int (length splitKeys)) c1;
       let (ids', c3) = AllocIDs (int (length splitKeys)) c2;
       let regionIDs = firstRegionID # ids;
       let peerIDs = firstPeerID # ids';
       map_option (\<lambda>c4. (storeID, regionIDs, peerIDs, c4)) (split_at_keys E regionIDs peerIDs 0 splitKeys c3)
     }"

end
