(* ===== verification/Cluster_Facts.thy ===== *)
theory Cluster_Facts
  imports Cluster
begin

text \<open>
  What the cluster's operations promise: its regions tile the space of keys. The predicates of this
  theory are the specification; the lemmas say what the operations do to them.
\<close>

section \<open>Ranges\<close>

definition range_ok :: "Region \<Rightarrow> bool" where
  "range_ok r = (Region_EndKey (Meta r) = [] \<or> Region_StartKey (Meta r) < Region_EndKey (Meta r))"

text \<open>Region \<open>i\<close> of the cluster holds the key.\<close>

definition holds :: "Cluster \<Rightarrow> bytes \<Rightarrow> u64 \<Rightarrow> bool" where
  "holds c k i = (\<exists>r. regions c i = Some r \<and> region_contains k r)"

text \<open>Every region is stored under its identifier and has a range, and every key is in exactly one.\<close>

definition regions_ok :: "Cluster \<Rightarrow> bool" where
  "regions_ok c = (\<forall>i r. regions c i = Some r \<longrightarrow> Region_Id (Meta r) = i \<and> range_ok r)"

definition tiled :: "Cluster \<Rightarrow> bool" where
  "tiled c = (regions_ok c \<and> (\<forall>k. \<exists>!i. holds c k i))"

named_theorems region_simps

lemma region_contains_iff [region_simps]:
  "region_contains k r \<longleftrightarrow> Region_StartKey (Meta r) \<le> k \<and> (k < Region_EndKey (Meta r) \<or> Region_EndKey (Meta r) = [])"
  by (simp add: region_contains_def regionContains_def)

lemma contains_start: "range_ok r \<Longrightarrow> region_contains (Region_StartKey (Meta r)) r"
  by (auto simp: range_ok_def region_simps)

lemma uFIDelateKeyRange_simps [simp]:
  "Region_Id (Meta (uFIDelateKeyRange s e r)) = Region_Id (Meta r)"
  "Region_StartKey (Meta (uFIDelateKeyRange s e r)) = s"
  "Region_EndKey (Meta (uFIDelateKeyRange s e r)) = e"
  "Region_Peers (Meta (uFIDelateKeyRange s e r)) = Region_Peers (Meta r)"
  "leader (uFIDelateKeyRange s e r) = leader r"
  by (simp_all add: uFIDelateKeyRange_def incVersion_def)

lemma region_merge_simps [simp]:
  "Region_Id (Meta (region_merge e r)) = Region_Id (Meta r)"
  "Region_StartKey (Meta (region_merge e r)) = Region_StartKey (Meta r)"
  "Region_EndKey (Meta (region_merge e r)) = e"
  by (simp_all add: region_merge_def incVersion_def)

lemma put_region_simps [simp]:
  "regions (put_region i r c) = (regions c)(i \<mapsto> r)" "cluster_id (put_region i r c) = cluster_id c"
  "regions (del_region i c) = (regions c)(i := None)" "cluster_id (del_region i c) = cluster_id c"
  by (simp_all add: put_region_def del_region_def)

lemma newRegion_some:
  "newRegion i ss ps l = Some r \<Longrightarrow> Region_Id (Meta r) = i \<and> Region_StartKey (Meta r) = [] \<and> Region_EndKey (Meta r) = []"
  by (auto simp: newRegion_def split: if_splits)

lemma newRegion_isSome: "length ss = length ps \<Longrightarrow> \<exists>r. newRegion i ss ps l = Some r"
  by (simp add: newRegion_def)

lemma regions_okD: "regions_ok c \<Longrightarrow> regions c i = Some r \<Longrightarrow> Region_Id (Meta r) = i \<and> range_ok r"
  by (simp add: regions_ok_def)

lemma tiled_ok: "tiled c \<Longrightarrow> regions c i = Some r \<Longrightarrow> Region_Id (Meta r) = i \<and> range_ok r"
  by (simp add: tiled_def regions_ok_def)

lemma tiled_unique: "tiled c \<Longrightarrow> holds c k i \<Longrightarrow> holds c k j \<Longrightarrow> i = j"
  unfolding tiled_def by blast

lemma tiledI:
  assumes "regions_ok c" and "\<And>k. \<exists>i. holds c k i" and "\<And>k i j. holds c k i \<Longrightarrow> holds c k j \<Longrightarrow> i = j"
  shows "tiled c"
  using assms unfolding tiled_def by blast

lemma tiled_cong:
  assumes "tiled c" and "regions_ok c'" and "\<And>k i. holds c' k i \<longleftrightarrow> holds c k i"
  shows "tiled c'"
proof (rule tiledI)
  show "\<exists>i. holds c' k i" for k
    using assms(1) unfolding assms(3) tiled_def by blast
  show "i = j" if "holds c' k i" "holds c' k j" for k i j
    using that unfolding assms(3) by (rule tiled_unique [OF assms(1)])
qed (rule assms(2))

section \<open>Visiting a map\<close>

lemma set_values_in: "set (values_in ord m) = {v. \<exists>k\<in>set ord. m k = Some v}"
  by (force simp: values_in_def map_filter_def image_iff)

lemma set_values_visits: "visits ord m \<Longrightarrow> set (values_in ord m) = ran m"
  by (auto simp: set_values_in visits_def ran_def dom_def)

lemma map_values_in:
  "(\<And>k v. m k = Some v \<Longrightarrow> f v = k) \<Longrightarrow> map f (values_in ord m) = filter (\<lambda>k. m k \<noteq> None) ord"
  unfolding values_in_def map_filter_def by (induction ord) auto

lemma distinct_values:
  assumes "visits ord m" and "\<And>k v. m k = Some v \<Longrightarrow> f v = k"
  shows "distinct (map f (values_in ord m))"
  using assms by (simp add: visits_def map_values_in)

lemma find_unique: "x \<in> set xs \<Longrightarrow> P x \<Longrightarrow> (\<And>y. y \<in> set xs \<Longrightarrow> P y \<Longrightarrow> y = x) \<Longrightarrow> find P xs = Some x"
proof (cases "find P xs")
  case None
  then show "x \<in> set xs \<Longrightarrow> P x \<Longrightarrow> find P xs = Some x"
    by (auto simp: find_None_iff)
next
  case (Some y)
  then have "y \<in> set xs" "P y"
    by (auto simp: find_Some_iff)
  then show "(\<And>y. y \<in> set xs \<Longrightarrow> P y \<Longrightarrow> y = x) \<Longrightarrow> find P xs = Some x"
    using Some by simp
qed

lemma region_where_unique:
  assumes "visits ord (regions c)" and "regions c i = Some r" and "p r"
    and "\<And>j r'. regions c j = Some r' \<Longrightarrow> p r' \<Longrightarrow> r' = r"
  shows "region_where ord p c = (Some (Meta r), leaderPeer r)"
proof -
  have "find p (values_in ord (regions c)) = Some r"
  proof (rule find_unique)
    show "r \<in> set (values_in ord (regions c))"
      using assms(1,2) by (auto simp: set_values_visits intro: ranI)
    show "p r"
      by fact
    show "y = r" if "y \<in> set (values_in ord (regions c))" "p y" for y
      using that assms(1,4) by (auto simp: set_values_visits ran_def)
  qed
  then show ?thesis
    by (simp add: region_where_def)
qed

section \<open>Neighbours in a tiling\<close>

lemma tiled_holder:
  assumes "tiled c"
  obtains i r where "regions c i = Some r" and "region_contains k r" and "range_ok r" and "Region_Id (Meta r) = i"
  using assms unfolding tiled_def holds_def regions_ok_def by metis

lemma tiled_same:
  assumes "tiled c" and "regions c i = Some r" and "regions c j = Some r'" and "region_contains k r" and "region_contains k r'"
  shows "r = r'"
  using tiled_unique [OF assms(1), of k i j] assms by (auto simp: holds_def)

text \<open>A region that starts below another ends where that starts or before.\<close>

lemma tiled_order:
  assumes t: "tiled c" and r: "regions c i = Some r" "regions c j = Some r'"
    and less: "Region_StartKey (Meta r) < Region_StartKey (Meta r')"
  shows "Region_EndKey (Meta r) \<noteq> [] \<and> Region_EndKey (Meta r) \<le> Region_StartKey (Meta r')"
proof (rule ccontr)
  assume "\<not> ?thesis"
  then have "region_contains (Region_StartKey (Meta r')) r"
    using less by (auto simp: region_simps not_le)
  moreover have "region_contains (Region_StartKey (Meta r')) r'"
    using tiled_ok [OF t r(2)] by (intro contains_start) simp
  ultimately show False
    using tiled_same [OF t r] less by auto
qed

lemma tiled_start_inj:
  assumes "tiled c" and "regions c i = Some r" "regions c j = Some r'"
    and "Region_StartKey (Meta r) = Region_StartKey (Meta r')"
  shows "r = r'"
proof -
  have "region_contains (Region_StartKey (Meta r)) r" "region_contains (Region_StartKey (Meta r)) r'"
    using tiled_ok assms contains_start [of r] contains_start [of r'] by simp_all
  then show ?thesis
    using tiled_same [OF assms(1-3)] by blast
qed

text \<open>A region that does not start at the beginning has a neighbour that ends where it starts.\<close>

lemma tiled_previous:
  assumes t: "tiled c" and r: "regions c i = Some r" and s: "Region_StartKey (Meta r) \<noteq> []"
  obtains j p where "regions c j = Some p" and "Region_EndKey (Meta p) = Region_StartKey (Meta r)"
proof -
  let ?S = "{Region_StartKey (Meta p) |p. p \<in> ran (regions c) \<and> Region_StartKey (Meta p) < Region_StartKey (Meta r)}"
  have "finite (ran (regions c))"
    by (rule finite_ran) (rule finite)
  then have fin: "finite ?S"
    by simp
  obtain i0 r0 where r0: "regions c i0 = Some r0" "region_contains [] r0"
    using tiled_holder [OF t] by metis
  then have "Region_StartKey (Meta r0) = []"
    by (simp add: region_simps)
  moreover have "[] < Region_StartKey (Meta r)"
    using s by (cases "Region_StartKey (Meta r)") auto
  ultimately have ne: "?S \<noteq> {}"
    using r0 by (auto intro: ranI)
  from Max_in [OF fin ne] obtain j p where p: "regions c j = Some p"
    and top: "Max ?S = Region_StartKey (Meta p)" and below: "Region_StartKey (Meta p) < Region_StartKey (Meta r)"
    unfolding ran_def by auto
  let ?e = "Region_EndKey (Meta p)"
  have e: "?e \<noteq> [] \<and> ?e \<le> Region_StartKey (Meta r)"
    by (rule tiled_order [OF t p r below])
  moreover have "\<not> ?e < Region_StartKey (Meta r)"
  proof
    assume lt: "?e < Region_StartKey (Meta r)"
    obtain m q where q: "regions c m = Some q" "region_contains ?e q"
      using tiled_holder [OF t] by metis
    have "Region_StartKey (Meta q) < Region_StartKey (Meta r)"
      using q(2) lt by (auto simp: region_simps)
    then have "Region_StartKey (Meta q) \<le> Region_StartKey (Meta p)"
      using Max_ge [OF fin, of "Region_StartKey (Meta q)"] q(1) top by (auto simp: ran_def)
    moreover have "Region_StartKey (Meta p) < ?e"
      using tiled_ok [OF t p] e unfolding range_ok_def by blast
    ultimately have "region_contains (Region_StartKey (Meta p)) q"
      using q(2) by (auto simp: region_simps)
    moreover have "region_contains (Region_StartKey (Meta p)) p"
      using tiled_ok [OF t p] by (intro contains_start) simp
    ultimately have "q = p"
      using tiled_same [OF t q(1) p] by blast
    then show False
      using q(2) e by (auto simp: region_simps)
  qed
  ultimately show ?thesis
    using that p by fastforce
qed

lemma tiled_end_unique:
  assumes t: "tiled c" and r: "regions c i = Some r" "regions c j = Some r'"
    and e: "Region_EndKey (Meta r) = Region_EndKey (Meta r')"
  shows "r = r'"
proof -
  have ok: "range_ok r" "range_ok r'"
    using tiled_ok [OF t] r by auto
  show ?thesis
  proof (cases "Region_StartKey (Meta r)" "Region_StartKey (Meta r')" rule: linorder_cases)
    case less
    then show ?thesis
      using tiled_order [OF t r less] e ok(2) by (auto simp: range_ok_def)
  next
    case equal
    then show ?thesis
      by (rule tiled_start_inj [OF t r])
  next
    case greater
    then show ?thesis
      using tiled_order [OF t r(2,1) greater] e ok(1) by (auto simp: range_ok_def)
  qed
qed

section \<open>Binary search\<close>

text \<open>On a predicate that stays true, \<open>Search\<close> finds the least index it holds at, or the length.\<close>

definition stays :: "nat \<Rightarrow> (nat \<Rightarrow> bool) \<Rightarrow> bool" where
  "stays n f = (\<forall>a b. a \<le> b \<and> b < n \<and> f a \<longrightarrow> f b)"

lemma Search_loop_step:
  "i < j \<Longrightarrow> Search_loop f i j =
     (if f ((i + j) div 2) then Search_loop f i ((i + j) div 2) else Search_loop f ((i + j) div 2 + 1) j)"
  "\<not> i < j \<Longrightarrow> Search_loop f i j = i"
  by (simp_all add: Search_loop.simps [of f i j] Let_def)

lemma Search_loop_least:
  assumes "stays n f" and "i \<le> j" and "j \<le> n" and "\<forall>a<i. \<not> f a" and "\<forall>a. j \<le> a \<and> a < n \<longrightarrow> f a"
  shows "Search_loop f i j \<le> n \<and> (\<forall>a<Search_loop f i j. \<not> f a) \<and> (\<forall>a. Search_loop f i j \<le> a \<and> a < n \<longrightarrow> f a)"
  using assms(2-)
proof (induction "j - i" arbitrary: i j rule: less_induct)
  case less
  show ?case
  proof (cases "i < j")
    case False
    then show ?thesis
      using less.prems Search_loop_step(2) [OF False] by simp
  next
    case True
    define h where "h = (i + j) div 2"
    have h: "i \<le> h" "h < j"
      using True unfolding h_def by auto
    show ?thesis
    proof (cases "f h")
      case fh: True
      have "\<forall>a. h \<le> a \<and> a < n \<longrightarrow> f a"
        using assms(1) fh unfolding stays_def by blast
      moreover have step: "Search_loop f i j = Search_loop f i h"
        using Search_loop_step(1) [OF True, of f] fh unfolding h_def by simp
      ultimately show ?thesis
        unfolding step using h less.prems by (intro less.hyps) simp_all
    next
      case fh: False
      have "\<forall>a<h + 1. \<not> f a"
      proof (intro allI impI notI)
        fix a
        assume "a < h + 1" "f a"
        then have "f h"
          using h less.prems(2) by (intro assms(1) [unfolded stays_def, rule_format, of a h]) auto
        then show False
          using fh by simp
      qed
      moreover have step: "Search_loop f i j = Search_loop f (h + 1) j"
        using Search_loop_step(1) [OF True, of f] fh unfolding h_def by simp
      ultimately show ?thesis
        unfolding step using h less.prems by (intro less.hyps) simp_all
    qed
  qed
qed

lemma Search_filter:
  assumes "stays (length xs) (\<lambda>i. P (xs ! i))"
  shows "drop (Search (length xs) (\<lambda>i. P (xs ! i))) xs = filter P xs"
    and "take (Search (length xs) (\<lambda>i. P (xs ! i))) xs = filter (\<lambda>x. \<not> P x) xs"
proof -
  define p where "p = Search (length xs) (\<lambda>i. P (xs ! i))"
  have p: "p \<le> length xs" "\<forall>a<p. \<not> P (xs ! a)" "\<forall>a. p \<le> a \<and> a < length xs \<longrightarrow> P (xs ! a)"
  proof -
    have "p \<le> length xs \<and> (\<forall>a<p. \<not> P (xs ! a)) \<and> (\<forall>a. p \<le> a \<and> a < length xs \<longrightarrow> P (xs ! a))"
      unfolding p_def Search_def by (rule Search_loop_least [OF assms]) auto
    then show "p \<le> length xs" "\<forall>a<p. \<not> P (xs ! a)" "\<forall>a. p \<le> a \<and> a < length xs \<longrightarrow> P (xs ! a)"
      by blast+
  qed
  have t: "\<forall>x\<in>set (take p xs). \<not> P x"
  proof
    fix x
    assume "x \<in> set (take p xs)"
    then obtain i where "i < p" "x = xs ! i"
      by (auto simp: in_set_conv_nth)
    then show "\<not> P x"
      using p(2) by simp
  qed
  have d: "\<forall>x\<in>set (drop p xs). P x"
  proof
    fix x
    assume "x \<in> set (drop p xs)"
    then obtain i where "i < length xs - p" "x = xs ! (p + i)"
      by (auto simp: in_set_conv_nth)
    then show "P x"
      using p(3) [rule_format, of "p + i"] by simp
  qed
  have "filter P xs = filter P (take p xs) @ filter P (drop p xs)"
    "filter (\<lambda>x. \<not> P x) xs = filter (\<lambda>x. \<not> P x) (take p xs) @ filter (\<lambda>x. \<not> P x) (drop p xs)"
    unfolding filter_append [symmetric] append_take_drop_id by (rule refl)+
  moreover have "filter P (take p xs) = []" "filter (\<lambda>x. \<not> P x) (take p xs) = take p xs"
    using t by (simp_all add: filter_empty_conv filter_id_conv)
  moreover have "filter P (drop p xs) = drop p xs" "filter (\<lambda>x. \<not> P x) (drop p xs) = []"
    using d by (simp_all add: filter_empty_conv filter_id_conv)
  ultimately show "drop p xs = filter P xs" "take p xs = filter (\<lambda>x. \<not> P x) xs"
    by simp_all
qed

lemma stays_sorted:
  assumes "sorted_wrt R xs" and "\<And>x y. x \<in> set xs \<Longrightarrow> y \<in> set xs \<Longrightarrow> R x y \<Longrightarrow> P x \<Longrightarrow> P y"
  shows "stays (length xs) (\<lambda>i. P (xs ! i))"
proof (unfold stays_def, intro allI impI)
  fix a b
  assume ab: "a \<le> b \<and> b < length xs \<and> P (xs ! a)"
  show "P (xs ! b)"
  proof (cases "a = b")
    case False
    then have "R (xs ! a) (xs ! b)"
      using ab by (intro sorted_wrt_nth_less [OF assms(1)]) auto
    then show ?thesis
      using assms(2) [of "xs ! a" "xs ! b"] ab by simp
  qed (use ab in simp)
qed

section \<open>Encoded keys\<close>

context codec
begin

lemma NewMvccKey_less: "k < k' \<Longrightarrow> NewMvccKey E k < NewMvccKey E k'"
proof (cases k)
  case Nil
  assume "k < k'"
  then have ne: "k' \<noteq> []"
    by auto
  moreover have "EncodeBytes E [] k' \<noteq> []"
    using EncodeBytes_less [of "[]" k' "[]" "[]"] ne by (cases k') auto
  ultimately show ?thesis
    using Nil by (cases "EncodeBytes E [] k'") (auto simp: NewMvccKey_def)
next
  case (Cons b bs)
  assume "k < k'"
  moreover have "k' \<noteq> []"
    using \<open>k < k'\<close> by auto
  ultimately show ?thesis
    using EncodeBytes_less [of k k' "[]" "[]"] Cons by (auto simp: NewMvccKey_def)
qed

lemma NewMvccKey_le: "k \<le> k' \<Longrightarrow> NewMvccKey E k \<le> NewMvccKey E k'"
  using NewMvccKey_less by (auto simp: le_less)

end

end
