(* ===== verification/Cluster_Theorems.thy ===== *)
theory Cluster_Theorems
  imports Cluster_Facts
begin

text \<open>Theorems on the simulated cluster: looking up regions, splitting and merging them.\<close>

section \<open>Looking up\<close>

text \<open>
  C19. When the regions tile the keys, looking a key up finds the region that holds it and its leader, and
  looking up the region before it finds the one that ends where that region starts, in whatever order
  the maps are visited; at the first region there is none before.
\<close>

theorem lookups_find_the_holder:
  assumes t: "tiled c" and v: "visits ord (regions c)" "visits ord' (regions c)"
  shows "\<exists>i r. regions c i = Some r \<and> region_contains k r \<and>
     GetRegionByKey ord k c = (Some (Meta r), leaderPeer r) \<and> GetRegionByID ord' i c = (Some (Meta r), leaderPeer r) \<and>
     (if Region_StartKey (Meta r) = [] then GetPrevRegionByKey ord ord' k c = Some (None, None)
      else (\<exists>j p. regions c j = Some p \<and> Region_EndKey (Meta p) = Region_StartKey (Meta r) \<and>
              GetPrevRegionByKey ord ord' k c = Some (Some (Meta p), leaderPeer p)))"
proof -
  obtain i r where r: "regions c i = Some r" "region_contains k r" "Region_Id (Meta r) = i"
    using tiled_holder [OF t] by metis
  have key: "GetRegionByKey ord k c = (Some (Meta r), leaderPeer r)"
    unfolding GetRegionByKey_def
    by (rule region_where_unique [where i = i and p = "region_contains k", OF v(1) r(1,2)])
      (rule tiled_same [OF t _ r(1) _ r(2)])
  have id: "GetRegionByID ord' i c = (Some (Meta r), leaderPeer r)"
    unfolding GetRegionByID_def
  proof (rule region_where_unique [where i = i and p = "\<lambda>r. Region_Id (Meta r) = i", OF v(2) r(1) r(3)])
    show "r' = r" if "regions c j = Some r'" "Region_Id (Meta r') = i" for j r'
      using that tiled_ok [OF t that(1)] r(1) by simp
  qed
  have prev: "GetPrevRegionByKey ord ord' k c =
      (if Region_StartKey (Meta r) = [] then Some (None, None)
       else Some (region_where ord' (\<lambda>p. Region_EndKey (Meta p) = Region_StartKey (Meta r)) c))"
    by (simp add: GetPrevRegionByKey_def key)
  have before: "\<exists>j p. regions c j = Some p \<and> Region_EndKey (Meta p) = Region_StartKey (Meta r) \<and>
      GetPrevRegionByKey ord ord' k c = Some (Some (Meta p), leaderPeer p)"
    if s: "Region_StartKey (Meta r) \<noteq> []"
  proof -
    obtain j p where p: "regions c j = Some p" "Region_EndKey (Meta p) = Region_StartKey (Meta r)"
      using tiled_previous [OF t r(1) s] .
    have "region_where ord' (\<lambda>p. Region_EndKey (Meta p) = Region_StartKey (Meta r)) c = (Some (Meta p), leaderPeer p)"
    proof (rule region_where_unique [where i = j and p = "\<lambda>p. Region_EndKey (Meta p) = Region_StartKey (Meta r)", OF v(2) p])
      show "r' = p" if "regions c j' = Some r'" "Region_EndKey (Meta r') = Region_StartKey (Meta r)" for j' r'
        using that p(2) by (intro tiled_end_unique [OF t that(1) p(1)]) simp
    qed
    then show ?thesis
      using p prev s by auto
  qed
  show ?thesis
    using r key id prev before by (intro exI [of _ i] exI [of _ r]) simp
qed

text \<open>A cluster with one store and one region.\<close>

definition ex_region :: Region where
  "ex_region = \<lparr>Meta = \<lparr>Region_Id = 3, Region_StartKey = [], Region_EndKey = [], Region_Epoch = None,
     Region_Peers = [newPeerMeta 2 1]\<rparr>, leader = 2\<rparr>"

definition ex_cluster :: Cluster where
  "ex_cluster = \<lparr>cluster_id = 3, stores = [1 \<mapsto> newStore 1 ''s'' []], regions = [3 \<mapsto> ex_region], delayEvents = Map.empty\<rparr>"

lemma tiled_single:
  assumes "regions c = [i \<mapsto> r]" and "Region_Id (Meta r) = i" "Region_StartKey (Meta r) = []" "Region_EndKey (Meta r) = []"
  shows "tiled c"
proof (rule tiledI)
  show "regions_ok c"
    using assms by (simp add: regions_ok_def range_ok_def)
  show "\<exists>j. holds c k j" for k
    using assms by (intro exI [of _ i]) (simp add: holds_def region_simps)
  show "j = j'" if "holds c k j" "holds c k j'" for k j j'
    using that assms(1) by (auto simp: holds_def split: if_splits)
qed

lemma ex_cluster_tiled: "tiled ex_cluster"
  by (rule tiled_single [of _ 3 ex_region]) (simp_all add: ex_cluster_def ex_region_def)

lemma ex_cluster_visits: "visits [3] (regions ex_cluster)"
  by (auto simp: visits_def ex_cluster_def)

lemma ex_region_in: "regions ex_cluster 3 = Some ex_region"
  by (simp add: ex_cluster_def)

theorem lookups_find_the_holder_witness: "GetPrevRegionByKey [3] [3] [9] ex_cluster = Some (None, None)"
  using lookups_find_the_holder [OF ex_cluster_tiled ex_cluster_visits ex_cluster_visits, of "[9]"]
  by (auto simp: ex_cluster_def ex_region_def split: if_splits)

lemma tiled_Bootstrap:
  assumes "regions c = Map.empty" and "length ss = length ps"
  shows "\<exists>c'. Bootstrap i ss ps l c = Some c' \<and> tiled c' \<and> dom (regions c') = {i}"
proof -
  obtain r where r: "newRegion i ss ps l = Some r"
    using newRegion_isSome [OF assms(2)] by blast
  note keys = newRegion_some [OF r]
  have "tiled (put_region i r c)"
    by (rule tiled_single [of _ i r]) (use keys assms(1) in simp_all)
  then show ?thesis
    using assms r by (simp add: Bootstrap_def)
qed

section \<open>Splitting and merging\<close>

text \<open>What one split does, with the regions it leaves.\<close>

lemma SplitRaw_run:
  assumes t: "tiled c" and r: "regions c i = Some r" and new: "regions c j = None"
    and key: "Region_StartKey (Meta r) < k" "Region_EndKey (Meta r) = [] \<or> k < Region_EndKey (Meta r)"
    and peers: "length (Region_Peers (Meta r)) = length peerIDs"
  obtains n where "SplitRaw i j k peerIDs l c = Some (Meta n, put_region j n (put_region i (uFIDelateKeyRange (Region_StartKey (Meta r)) k r) c))"
    and "Region_StartKey (Meta n) = k" "Region_EndKey (Meta n) = Region_EndKey (Meta r)" "Region_Id (Meta n) = j"
    and "length (Region_Peers (Meta n)) = length peerIDs"
    and "tiled (put_region j n (put_region i (uFIDelateKeyRange (Region_StartKey (Meta r)) k r) c))"
    and "\<And>k' i'. holds (put_region j n (put_region i (uFIDelateKeyRange (Region_StartKey (Meta r)) k r) c)) k' i' \<longleftrightarrow>
      (if holds c k' i \<and> k \<le> k' then i' = j else holds c k' i')"
proof -
  obtain n0 where n0: "newRegion j (map Peer_StoreId (Region_Peers (Meta r))) peerIDs l = Some n0"
    using newRegion_isSome [of "map Peer_StoreId (Region_Peers (Meta r))" peerIDs] peers by auto
  let ?n = "uFIDelateKeyRange k (Region_EndKey (Meta r)) n0"
  let ?r = "uFIDelateKeyRange (Region_StartKey (Meta r)) k r"
  let ?c1 = "put_region j ?n (put_region i ?r c)"
  have ij: "i \<noteq> j"
    using r new by auto
  have k: "k \<noteq> []"
    using key(1) by (cases k) auto
  have split: "SplitRaw i j k peerIDs l c = Some (Meta ?n, ?c1)"
    using r n0 peers by (simp add: SplitRaw_def region_split_def)
  have h1: "holds ?c1 k' i' \<longleftrightarrow> (if holds c k' i \<and> k \<le> k' then i' = j else holds c k' i')" for k' i'
  proof -
    have i: "holds c k' i \<longleftrightarrow> Region_StartKey (Meta r) \<le> k' \<and> (k' < Region_EndKey (Meta r) \<or> Region_EndKey (Meta r) = [])"
      using r by (simp add: holds_def region_simps)
    have j: "\<not> holds c k' j"
      using new by (simp add: holds_def)
    have "holds ?c1 k' i' \<longleftrightarrow> (if i' = j then k \<le> k' \<and> (k' < Region_EndKey (Meta r) \<or> Region_EndKey (Meta r) = [])
        else if i' = i then Region_StartKey (Meta r) \<le> k' \<and> k' < k else holds c k' i')"
      using ij k by (simp add: holds_def region_simps)
    then show ?thesis
      using i j key tiled_unique [OF t, of k' i i'] by (auto simp: not_le split: if_splits)
  qed
  have ok: "regions_ok ?c1"
    using tiled_ok [OF t] r key newRegion_some [OF n0] ij by (auto simp: regions_ok_def range_ok_def)
  have ex: "\<exists>i'. holds ?c1 k' i'" for k'
    using t h1 unfolding tiled_def by metis
  have t1: "tiled ?c1"
    using ok ex by (rule tiledI) (use h1 tiled_unique [OF t] in \<open>metis\<close>)
  have "length (Region_Peers (Meta ?n)) = length peerIDs"
    using n0 peers by (auto simp: newRegion_def)
  then show ?thesis
    using that [OF split _ _ _ _ t1 h1] newRegion_some [OF n0] by simp
qed

text \<open>
  C38. Splitting a region at a key inside it gives a region under the new identifier that takes over the keys
  from the split key on; every other key stays where it was, and the regions still tile the keys. Merging
  the two again gives the first region its range back.
\<close>

theorem SplitRaw_then_Merge:
  assumes t: "tiled c" and r: "regions c i = Some r" and new: "regions c j = None"
    and key: "Region_StartKey (Meta r) < k" "Region_EndKey (Meta r) = [] \<or> k < Region_EndKey (Meta r)"
    and peers: "length (Region_Peers (Meta r)) = length peerIDs"
  shows "\<exists>m c1 c2. SplitRaw i j k peerIDs l c = Some (m, c1) \<and> tiled c1 \<and>
     (\<forall>k' i'. holds c1 k' i' \<longleftrightarrow> (if holds c k' i \<and> k \<le> k' then i' = j else holds c k' i')) \<and>
     Merge i j c1 = Some c2 \<and> tiled c2 \<and> (\<forall>k' i'. holds c2 k' i' \<longleftrightarrow> holds c k' i')"
proof -
  let ?r = "uFIDelateKeyRange (Region_StartKey (Meta r)) k r"
  obtain n where split: "SplitRaw i j k peerIDs l c = Some (Meta n, put_region j n (put_region i ?r c))"
    and n: "Region_EndKey (Meta n) = Region_EndKey (Meta r)" and t1: "tiled (put_region j n (put_region i ?r c))"
    and h1: "\<And>k' i'. holds (put_region j n (put_region i ?r c)) k' i' \<longleftrightarrow> (if holds c k' i \<and> k \<le> k' then i' = j else holds c k' i')"
    by (rule SplitRaw_run [OF t r new key peers, where l = l]) (rule that)
  let ?c1 = "put_region j n (put_region i ?r c)"
  let ?c2 = "del_region j (put_region i (region_merge (Region_EndKey (Meta r)) ?r) ?c1)"
  have ij: "i \<noteq> j"
    using r new by auto
  have merge: "Merge i j ?c1 = Some ?c2"
    using ij n by (simp add: Merge_def)
  have h2: "holds ?c2 k' i' \<longleftrightarrow> holds c k' i'" for k' i'
    using ij r new by (simp add: holds_def region_simps)
  have "regions_ok ?c2"
    using tiled_ok [OF t] r ij by (auto simp: regions_ok_def range_ok_def)
  then have "tiled ?c2"
    by (rule tiled_cong [OF t _ h2])
  then show ?thesis
    using split t1 h1 merge h2 by (intro exI [of _ "Meta n"] exI [of _ ?c1] exI [of _ ?c2]) blast
qed

theorem SplitRaw_then_Merge_witness:
  "\<exists>m c1. SplitRaw 3 4 [7] [5] 5 ex_cluster = Some (m, c1) \<and> tiled c1 \<and> holds c1 [8] 4 \<and> holds c1 [6] 3"
proof -
  have "holds ex_cluster k 3" for k
    by (simp add: holds_def ex_cluster_def ex_region_def region_simps)
  then show ?thesis
    using SplitRaw_then_Merge [OF ex_cluster_tiled ex_region_in, of 4 "[7]" "[5]" 5]
    by (fastforce simp: ex_region_def ex_cluster_def)
qed

section \<open>Scanning regions\<close>

lemma tiled_sorted_stays:
  assumes t: "tiled c" and v: "visits ord (regions c)"
  shows "stays (length (sort_key (\<lambda>r. Region_StartKey (Meta r)) (values_in ord (regions c))))
    (\<lambda>i. Region_EndKey (Meta (sort_key (\<lambda>r. Region_StartKey (Meta r)) (values_in ord (regions c)) ! i)) = [] \<or>
         s < Region_EndKey (Meta (sort_key (\<lambda>r. Region_StartKey (Meta r)) (values_in ord (regions c)) ! i)))"
proof (rule stays_sorted)
  let ?rs = "sort_key (\<lambda>r. Region_StartKey (Meta r)) (values_in ord (regions c))"
  show "sorted_wrt (\<lambda>a b. Region_StartKey (Meta a) \<le> Region_StartKey (Meta b)) ?rs"
    using sorted_sort_key [of "\<lambda>r. Region_StartKey (Meta r)" "values_in ord (regions c)"] by (simp add: sorted_map)
  fix a b
  assume "a \<in> set ?rs" "b \<in> set ?rs" and le: "Region_StartKey (Meta a) \<le> Region_StartKey (Meta b)"
    and a: "Region_EndKey (Meta a) = [] \<or> s < Region_EndKey (Meta a)"
  then obtain i j where ij: "regions c i = Some a" "regions c j = Some b"
    using v by (auto simp: set_values_visits ran_def)
  show "Region_EndKey (Meta b) = [] \<or> s < Region_EndKey (Meta b)"
  proof (cases "Region_StartKey (Meta a) = Region_StartKey (Meta b)")
    case True
    then show ?thesis
      using tiled_start_inj [OF t ij] a by simp
  next
    case False
    then have "Region_EndKey (Meta a) \<noteq> [] \<and> Region_EndKey (Meta a) \<le> Region_StartKey (Meta b)"
      using le by (intro tiled_order [OF t ij]) simp
    then show ?thesis
      using a tiled_ok [OF t ij(2)] unfolding range_ok_def by (metis le_less_trans less_imp_le order_le_less_trans)
  qed
qed

text \<open>
  When the regions tile the keys, scanning the regions from a key up to a later one, or without an end,
  gives the regions whose ranges meet the scanned one, by ascending start key, the first \<open>limit\<close> of them if a
  limit is set, each with its leader or an empty peer.
\<close>

theorem ScanRegions_in_range:
  assumes t: "tiled c" and v: "visits ord (regions c)" and se: "endKey = [] \<or> startKey < endKey"
  shows "ScanRegions ord startKey endKey limit c =
    map (\<lambda>r. (Meta r, case leaderPeer r of None \<Rightarrow> \<lparr>Peer_Id = 0, Peer_StoreId = 0\<rparr> | Some p \<Rightarrow> p))
      (take (if limit > 0 then nat limit else length ord)
        (sort_key (\<lambda>r. Region_StartKey (Meta r))
          (filter (\<lambda>r. (Region_EndKey (Meta r) = [] \<or> startKey < Region_EndKey (Meta r)) \<and>
                       (endKey = [] \<or> Region_StartKey (Meta r) < endKey)) (values_in ord (regions c)))))"
proof -
  let ?rs = "sort_key (\<lambda>r. Region_StartKey (Meta r)) (values_in ord (regions c))"
  let ?P = "\<lambda>r. Region_EndKey (Meta r) = [] \<or> startKey < Region_EndKey (Meta r)"
  let ?Q = "\<lambda>r. endKey \<le> Region_StartKey (Meta r)"
  define rs1 where "rs1 = filter ?P ?rs"
  have first: "drop (Search (length ?rs) (\<lambda>i. ?P (?rs ! i))) ?rs = rs1"
    unfolding rs1_def by (rule Search_filter(1)) (rule tiled_sorted_stays [OF t v])
  have "sorted_wrt (\<lambda>a b. Region_StartKey (Meta a) \<le> Region_StartKey (Meta b)) rs1"
    unfolding rs1_def filter_sort using sorted_sort_key [of "\<lambda>r. Region_StartKey (Meta r)" "filter ?P (values_in ord (regions c))"]
    by (simp add: sorted_map)
  then have "stays (length rs1) (\<lambda>i. ?Q (rs1 ! i))"
    by (rule stays_sorted) (rule order_trans)
  from Search_filter(2) [OF this]
  have last: "take (Search (length rs1) (\<lambda>i. ?Q (rs1 ! i))) rs1 = filter (\<lambda>r. \<not> ?Q r) rs1" .
  have pos: "Search (length rs1) (\<lambda>i. ?Q (rs1 ! i)) > 0" if "endKey \<noteq> []"
  proof -
    obtain i r where r: "regions c i = Some r" "region_contains startKey r"
      using tiled_holder [OF t] by metis
    have "r \<in> set (filter (\<lambda>r. \<not> ?Q r) rs1)"
      using r that se v unfolding rs1_def by (auto simp: set_values_visits region_simps intro!: ranI)
    then show ?thesis
      unfolding last [symmetric] by (auto intro: Nat.gr0I)
  qed
  have ends: "(if length endKey > 0
        then (let endPos = Search (length rs1) (\<lambda>i. ?Q (rs1 ! i)) in if endPos > 0 then take endPos rs1 else rs1)
        else rs1) = filter (\<lambda>r. endKey = [] \<or> Region_StartKey (Meta r) < endKey) rs1"
    using pos last by (cases endKey) (simp_all add: not_le)
  have all: "filter (\<lambda>r. endKey = [] \<or> Region_StartKey (Meta r) < endKey) rs1 =
      sort_key (\<lambda>r. Region_StartKey (Meta r))
        (filter (\<lambda>r. ?P r \<and> (endKey = [] \<or> Region_StartKey (Meta r) < endKey)) (values_in ord (regions c)))"
    unfolding rs1_def filter_sort filter_filter by (simp add: conj_commute)
  define hits where "hits = sort_key (\<lambda>r. Region_StartKey (Meta r))
        (filter (\<lambda>r. ?P r \<and> (endKey = [] \<or> Region_StartKey (Meta r) < endKey)) (values_in ord (regions c)))"
  have "length (values_in ord (regions c)) \<le> length ord"
    by (simp add: values_in_def map_filter_def)
  then have len: "length hits \<le> length ord"
    unfolding hits_def length_sort by (rule order_trans [OF length_filter_le])
  have P: "(if length e = 0 then True else bytes_Compare e startKey > 0) \<longleftrightarrow> e = [] \<or> startKey < e" for e
    by simp
  have Q: "bytes_Compare e endKey \<ge> 0 \<longleftrightarrow> endKey \<le> e" for e
    by simp
  have "ScanRegions ord startKey endKey limit c =
     map (\<lambda>r. (Meta r, case leaderPeer r of None \<Rightarrow> \<lparr>Peer_Id = 0, Peer_StoreId = 0\<rparr> | Some p \<Rightarrow> p))
       (if limit > 0 \<and> int (length hits) > limit then take (nat limit) hits else hits)"
    unfolding ScanRegions_def Let_def P Q first ends [unfolded Let_def] all hits_def by (rule refl)
  also have "(if limit > 0 \<and> int (length hits) > limit then take (nat limit) hits else hits) =
      take (if limit > 0 then nat limit else length ord) hits"
    using len by auto
  finally show ?thesis
    unfolding hits_def .
qed

theorem ScanRegions_in_range_witness:
  "ScanRegions [3] [5] [9] 1 ex_cluster = [(Meta ex_region, newPeerMeta 2 1)]"
  using ScanRegions_in_range [OF ex_cluster_tiled ex_cluster_visits, of "[9]" "[5]" 1]
  by (simp add: ex_cluster_def ex_region_def values_in_def map_filter_def leaderPeer_def newPeerMeta_def)

text \<open>
  An end key at or below the start of the first region found cuts nothing off: the scan from a key up to
  that key itself, an empty range, returns every region from there on.
\<close>

lemma ScanRegions_empty_range:
  "map (\<lambda>p. Region_Id (fst p)) (case SplitRaw 3 4 [7] [5] 5 ex_cluster of None \<Rightarrow> [] | Some (m, c1) \<Rightarrow> ScanRegions [3, 4] [7] [7] 0 c1) = [4]"
  by code_simp

section \<open>Changes of the membership and of the ranges\<close>

text \<open>The two counters of a region's epoch.\<close>

definition epoch_of :: "Region \<Rightarrow> u64 \<times> u64" where
  "epoch_of r = (GetConfVer (Region_Epoch (Meta r)), GetVersion (Region_Epoch (Meta r)))"

text \<open>
  A change of a region's peers raises the first counter of its epoch and a change of its range the second,
  by one; changing the leader raises neither. Each leaves the range, or the peers, and every other region
  alone, and panics on a region that does not exist. Removing the leader's peer leaves the region
  without a leader.
\<close>

theorem region_changes_and_epochs:
  "(regions c i = None \<longrightarrow> AddPeer i s p c = None \<and> RemovePeer i p c = None \<and> ChangeLeader i p c = None \<and> Merge i j c = None) \<and>
   (\<forall>r. regions c i = Some r \<longrightarrow>
     (\<exists>r'. AddPeer i s p c = Some (c\<lparr>regions := (regions c)(i \<mapsto> r')\<rparr>) \<and>
        Region_Peers (Meta r') = Region_Peers (Meta r) @ [newPeerMeta p s] \<and> leader r' = leader r \<and>
        epoch_of r' = (fst (epoch_of r) + 1, snd (epoch_of r)) \<and> (\<forall>k. region_contains k r' = region_contains k r)) \<and>
     (\<exists>r'. RemovePeer i p c = Some (c\<lparr>regions := (regions c)(i \<mapsto> r')\<rparr>) \<and>
        Region_Peers (Meta r') = removePeer_loop p (Region_Peers (Meta r)) \<and> leader r' = (if leader r = p then 0 else leader r) \<and>
        epoch_of r' = (fst (epoch_of r) + 1, snd (epoch_of r)) \<and> (\<forall>k. region_contains k r' = region_contains k r)) \<and>
     (\<exists>r'. ChangeLeader i p c = Some (c\<lparr>regions := (regions c)(i \<mapsto> r')\<rparr>) \<and> Meta r' = Meta r \<and> leader r' = p) \<and>
     (\<forall>k ps l m c'. SplitRaw i j k ps l c = Some (m, c') \<and> i \<noteq> j \<longrightarrow>
        (\<exists>r'. regions c' i = Some r' \<and> Region_Peers (Meta r') = Region_Peers (Meta r) \<and> leader r' = leader r \<and>
           epoch_of r' = (fst (epoch_of r), snd (epoch_of r) + 1) \<and> (\<forall>i'. i' \<noteq> i \<and> i' \<noteq> j \<longrightarrow> regions c' i' = regions c i'))))"
  by (auto simp: AddPeer_def RemovePeer_def ChangeLeader_def Merge_def SplitRaw_def region_split_def put_region_def
      addPeer_def removePeer_def changeLeader_def incConfVer_def incVersion_def uFIDelateKeyRange_def Let_def
      epoch_of_def GetConfVer_def GetVersion_def region_contains_def split: bind_splits)

theorem region_changes_and_epochs_witness:
  "RemovePeer 3 2 ex_cluster = Some (ex_cluster\<lparr>regions := [3 \<mapsto> ex_region\<lparr>Meta := (Meta ex_region)\<lparr>Region_Peers := [],
     Region_Epoch := Some \<lparr>ConfVer = 1, Version = 0\<rparr>\<rparr>, leader := 0\<rparr>]\<rparr>)"
proof -
  have "regions ex_cluster 3 = Some ex_region"
    by (rule ex_region_in)
  from region_changes_and_epochs [of ex_cluster 3 1 2 4] this show ?thesis
    by (auto simp: ex_cluster_def ex_region_def RemovePeer_def put_region_def removePeer_def incConfVer_def
        GetConfVer_def GetVersion_def newPeerMeta_def Let_def)
qed

end
