(* ===== verification/Cluster_Split.thy ===== *)
theory Cluster_Split
  imports Cluster_Theorems Store_Theorems
begin

text \<open>
  Splitting a range of the keys into regions: the old regions are evacuated from the range and new ones
  created in it, and the regions tile the keys again.
\<close>

section \<open>Tilings with a gap\<close>

text \<open>Every key outside the range is in exactly one region, no key in the range is in any.\<close>

definition tiled_but :: "bytes \<Rightarrow> bytes \<Rightarrow> Cluster \<Rightarrow> bool" where
  "tiled_but s e c = (regions_ok c \<and> (\<forall>k i j. holds c k i \<and> holds c k j \<longrightarrow> i = j) \<and>
     (\<forall>k. (\<exists>i. holds c k i) \<longleftrightarrow> \<not> (s \<le> k \<and> k < e)))"

text \<open>The identifiers in use are those handed out so far, and \<open>n\<close> more can be.\<close>

definition ids_left :: "nat \<Rightarrow> Cluster \<Rightarrow> bool" where
  "ids_left n c = ((\<forall>i\<in>dom (regions c). i \<le> cluster_id c) \<and> unat (cluster_id c) + n < 2 ^ 64)"

lemma ids_left_mono: "ids_left n c \<Longrightarrow> m \<le> n \<Longrightarrow> ids_left m c"
  by (auto simp: ids_left_def)

lemma unat_add_small: "unat (i :: u64) + n < 2 ^ 64 \<Longrightarrow> unat (i + word_of_nat n) = unat i + n"
  by (simp add: unat_word_ariths unat_of_nat)

text \<open>A new region takes two identifiers, its own the second.\<close>

lemma new_single_region:
  assumes "ids_left (n + 2) c"
  obtains r c' where "new_single_region sord c = Some (r, c')" and "regions c' = regions c"
    and "Region_Id (Meta r) \<notin> dom (regions c)"
    and "\<And>q. ids_left n (put_region (Region_Id (Meta r)) q c')"
proof -
  let ?i = "cluster_id c"
  have two: "unat (?i + 2) = unat ?i + 2"
    using unat_add_small [of ?i 2] assms by (simp add: ids_left_def)
  obtain r where r: "newRegion (?i + 1 + 1) [firstStoreID sord] [?i + 1] (?i + 1) = Some r"
    using newRegion_isSome [of "[firstStoreID sord]" "[?i + 1]"] by auto
  have id: "Region_Id (Meta r) = ?i + 2"
    using newRegion_some [OF r] by simp
  have run: "new_single_region sord c = Some (r, c\<lparr>cluster_id := ?i + 1 + 1\<rparr>)"
    using r by (simp add: new_single_region_def allocID_def)
  have less: "?i < ?i + 2"
    by (simp add: word_less_nat_alt two)
  then have new: "Region_Id (Meta r) \<notin> dom (regions c)"
    using assms unfolding id ids_left_def by (metis leD)
  define j where "j = ?i + 2"
  have j: "?i < j" "unat j = unat ?i + 2" "?i + 1 + 1 = j" "Region_Id (Meta r) = j"
    using less two id by (simp_all add: j_def)
  have "ids_left n (put_region j q (c\<lparr>cluster_id := j\<rparr>))" for q
    unfolding ids_left_def
  proof (intro conjI ballI)
    fix i
    assume "i \<in> dom (regions (put_region j q (c\<lparr>cluster_id := j\<rparr>)))"
    then have "i = j \<or> i \<in> dom (regions c)"
      by (auto simp: put_region_def)
    then have "i \<le> j"
      using assms j(1) unfolding ids_left_def by (auto intro: order_trans less_imp_le)
    then show "i \<le> cluster_id (put_region j q (c\<lparr>cluster_id := j\<rparr>))"
      by simp
  next
    show "unat (cluster_id (put_region j q (c\<lparr>cluster_id := j\<rparr>))) + n < 2 ^ 64"
      using assms j(2) by (simp add: ids_left_def)
  qed
  then show ?thesis
    using that run new j by simp
qed

section \<open>Evacuating a range\<close>

text \<open>
  The loop's invariant: the regions still to visit are unchanged, a key is in one region at most, the
  keys outside the range are in one, and a region that holds a key of the range is still to be visited.
\<close>

definition evacuating :: "bytes \<Rightarrow> bytes \<Rightarrow> Region list \<Rightarrow> u64 list \<Rightarrow> Cluster \<Rightarrow> bool" where
  "evacuating s e rs made c =
     (regions_ok c \<and> (\<forall>r\<in>set rs. regions c (Region_Id (Meta r)) = Some r) \<and>
      distinct (map (\<lambda>r. Region_Id (Meta r)) rs) \<and> set made \<inter> (\<lambda>r. Region_Id (Meta r)) ` set rs = {} \<and>
      (\<forall>r\<in>set rs. Region_StartKey (Meta r) < e \<and> (Region_EndKey (Meta r) = [] \<or> s < Region_EndKey (Meta r))) \<and>
      (\<forall>k i j. holds c k i \<and> holds c k j \<longrightarrow> i = j) \<and>
      (\<forall>k. \<not> (s \<le> k \<and> k < e) \<longrightarrow> (\<exists>i. holds c k i)) \<and>
      (\<forall>k i. s \<le> k \<and> k < e \<and> holds c k i \<longrightarrow> i \<in> (\<lambda>r. Region_Id (Meta r)) ` set rs))"

lemma evacuatingD:
  assumes "evacuating s e rs made c"
  shows "regions_ok c" and "\<And>r. r \<in> set rs \<Longrightarrow> regions c (Region_Id (Meta r)) = Some r"
    and "distinct (map (\<lambda>r. Region_Id (Meta r)) rs)"
    and "set made \<inter> (\<lambda>r. Region_Id (Meta r)) ` set rs = {}"
    and "\<And>r. r \<in> set rs \<Longrightarrow> Region_StartKey (Meta r) < e \<and> (Region_EndKey (Meta r) = [] \<or> s < Region_EndKey (Meta r))"
    and "\<And>k i j. holds c k i \<Longrightarrow> holds c k j \<Longrightarrow> i = j"
    and "\<And>k. \<not> (s \<le> k \<and> k < e) \<Longrightarrow> \<exists>i. holds c k i"
    and "\<And>k i. s \<le> k \<Longrightarrow> k < e \<Longrightarrow> holds c k i \<Longrightarrow> i \<in> (\<lambda>r. Region_Id (Meta r)) ` set rs"
  using assms unfolding evacuating_def by blast+

text \<open>
  One round replaces what the visited region holds: outside the range by what the region and possibly a
  new one hold, inside by nothing.
\<close>

lemma evacuating_step:
  assumes inv: "evacuating s e (r # rs) made c" and ok: "regions_ok c'"
    and same: "\<And>i. i \<noteq> Region_Id (Meta r) \<Longrightarrow> i \<noteq> n \<Longrightarrow> regions c' i = regions c i"
    and new: "n \<noteq> Region_Id (Meta r) \<Longrightarrow> regions c n = None"
    and at: "\<And>k. holds c' k (Region_Id (Meta r)) \<or> holds c' k n \<longleftrightarrow> region_contains k r \<and> \<not> (s \<le> k \<and> k < e)"
    and one: "\<And>k. n \<noteq> Region_Id (Meta r) \<Longrightarrow> \<not> (holds c' k (Region_Id (Meta r)) \<and> holds c' k n)"
    and made: "set made' \<subseteq> insert n (set made)"
  shows "evacuating s e rs made' c'"
proof -
  let ?i = "Region_Id (Meta r)"
  have r: "regions c ?i = Some r"
    using evacuatingD(2) [OF inv, of r] by simp
  have hr: "holds c k ?i \<longleftrightarrow> region_contains k r" for k
    using r by (simp add: holds_def)
  have other: "holds c' k i \<longleftrightarrow> holds c k i" if "i \<noteq> ?i" "i \<noteq> n" for k i
    using same that by (simp add: holds_def)
  have fresh: "\<not> holds c k n" if "n \<noteq> ?i" for k
    using new [OF that] by (simp add: holds_def)
  define own where "own i = (if i = n then ?i else i)" for i
  have own: "holds c k (own i)" if "holds c' k i" for k i
    using that at [of k] other [of i k] hr by (auto simp: own_def)
  have rest: "Region_Id (Meta q) \<noteq> ?i \<and> Region_Id (Meta q) \<noteq> n" if "q \<in> set rs" for q
  proof -
    have q: "regions c (Region_Id (Meta q)) = Some q"
      using evacuatingD(2) [OF inv, of q] that by simp
    have "?i \<notin> (\<lambda>r. Region_Id (Meta r)) ` set rs"
      using evacuatingD(3) [OF inv] by simp
    then have "Region_Id (Meta q) \<noteq> ?i"
      using that by (metis image_eqI)
    then show ?thesis
      using new q by (metis option.distinct(1))
  qed
  show ?thesis
    unfolding evacuating_def
  proof (intro conjI allI impI ballI)
    show "regions_ok c'"
      by (rule ok)
    show "regions c' (Region_Id (Meta q)) = Some q" if "q \<in> set rs" for q
      using evacuatingD(2) [OF inv, of q] that same rest [OF that] by simp
    show "distinct (map (\<lambda>r. Region_Id (Meta r)) rs)"
      using evacuatingD(3) [OF inv] by simp
    show "set made' \<inter> (\<lambda>r. Region_Id (Meta r)) ` set rs = {}"
    proof -
      have "set made \<inter> (\<lambda>r. Region_Id (Meta r)) ` set (r # rs) = {}"
        by (rule evacuatingD(4) [OF inv])
      then have "set made \<inter> (\<lambda>r. Region_Id (Meta r)) ` set rs = {}"
        unfolding list.set by blast
      moreover have "n \<notin> (\<lambda>r. Region_Id (Meta r)) ` set rs"
        using rest by blast
      ultimately show ?thesis
        using made by blast
    qed
    show "Region_StartKey (Meta q) < e" if "q \<in> set rs" for q
      using evacuatingD(5) [OF inv, of q] that by simp
    show "Region_EndKey (Meta q) = [] \<or> s < Region_EndKey (Meta q)" if "q \<in> set rs" for q
      using evacuatingD(5) [OF inv, of q] that by simp
    show "i = j" if "holds c' k i \<and> holds c' k j" for k i j
    proof -
      have "own i = own j"
        using evacuatingD(6) [OF inv] own that by blast
      then show ?thesis
        using that one [of k] unfolding own_def by (metis (full_types))
    qed
    show "\<exists>i. holds c' k i" if out: "\<not> (s \<le> k \<and> k < e)" for k
    proof -
      obtain i where i: "holds c k i"
        using evacuatingD(7) [OF inv out] by blast
      show ?thesis
      proof (cases "i = ?i")
        case True
        then show ?thesis
          using at [of k] i hr out by blast
      next
        case False
        then show ?thesis
          using other [of i k] i fresh [of k] by (cases "i = n") auto
      qed
    qed
    show "i \<in> (\<lambda>r. Region_Id (Meta r)) ` set rs" if k: "s \<le> k \<and> k < e \<and> holds c' k i" for k i
    proof -
      have "i \<noteq> ?i" "i \<noteq> n"
        using at [of k] k by auto
      then have "holds c k i"
        using other k by blast
      then have "i \<in> (\<lambda>r. Region_Id (Meta r)) ` set (r # rs)"
        using evacuatingD(8) [OF inv] k by blast
      then show ?thesis
        using \<open>i \<noteq> ?i\<close> by auto
    qed
  qed
qed

lemma evacuating_done: "evacuating s e [] made c \<Longrightarrow> tiled_but s e c"
  unfolding evacuating_def tiled_but_def by auto

lemma ids_left_del: "ids_left n c \<Longrightarrow> ids_left n (del_region i c)"
  by (auto simp: ids_left_def)

lemma ids_left_put: "ids_left n c \<Longrightarrow> i \<in> dom (regions c) \<Longrightarrow> ids_left n (put_region i r c)"
  by (auto simp: ids_left_def)

lemma regions_ok_del: "regions_ok c \<Longrightarrow> regions_ok (del_region i c)"
  by (simp add: regions_ok_def)

lemma regions_ok_put: "regions_ok c \<Longrightarrow> Region_Id (Meta r) = i \<Longrightarrow> range_ok r \<Longrightarrow> regions_ok (put_region i r c)"
  by (simp add: regions_ok_def)

lemma holds_put: "holds (put_region i r c) k j \<longleftrightarrow> (if j = i then region_contains k r else holds c k j)"
  by (simp add: holds_def)

lemma holds_del: "holds (del_region i c) k j \<longleftrightarrow> j \<noteq> i \<and> holds c k j"
  by (simp add: holds_def)

text \<open>The rounds that change the visited region alone, and the one that makes a second region.\<close>

lemma evacuating_del:
  assumes "evacuating s e (r # rs) made c" and "\<And>k. region_contains k r \<Longrightarrow> s \<le> k \<and> k < e"
  shows "evacuating s e rs made (del_region (Region_Id (Meta r)) c)"
  by (rule evacuating_step [where n = "Region_Id (Meta r)", OF assms(1) regions_ok_del [OF evacuatingD(1) [OF assms(1)]]])
    (use assms(2) in \<open>auto simp: holds_del\<close>)

lemma evacuating_cut:
  assumes "evacuating s e (r # rs) made c" and "range_ok (uFIDelateKeyRange a b r)"
    and "\<And>k. region_contains k (uFIDelateKeyRange a b r) \<longleftrightarrow> region_contains k r \<and> \<not> (s \<le> k \<and> k < e)"
  shows "evacuating s e rs made (put_region (Region_Id (Meta r)) (uFIDelateKeyRange a b r) c)"
proof (rule evacuating_step [where n = "Region_Id (Meta r)", OF assms(1)])
  show "regions_ok (put_region (Region_Id (Meta r)) (uFIDelateKeyRange a b r) c)"
    by (rule regions_ok_put [OF evacuatingD(1) [OF assms(1)] _ assms(2)]) simp
qed (use assms(3) in \<open>auto simp: holds_put\<close>)

lemma evacuating_two:
  assumes "evacuating s e (r # rs) made c" and "range_ok (uFIDelateKeyRange a s r)" and "range_ok (uFIDelateKeyRange e b q)"
    and "regions c2 = regions (put_region (Region_Id (Meta r)) (uFIDelateKeyRange a s r) c)"
    and new: "Region_Id (Meta q) \<notin> dom (regions c2)" and se: "s < e"
    and "\<And>k. region_contains k (uFIDelateKeyRange a s r) \<or> region_contains k (uFIDelateKeyRange e b q) \<longleftrightarrow>
      region_contains k r \<and> \<not> (s \<le> k \<and> k < e)"
    and a: "a < s"
  shows "evacuating s e rs (Region_Id (Meta q) # made) (put_region (Region_Id (Meta q)) (uFIDelateKeyRange e b q) c2)"
proof (rule evacuating_step [where n = "Region_Id (Meta q)", OF assms(1)])
  let ?i = "Region_Id (Meta r)" and ?n = "Region_Id (Meta q)"
  have n: "?n \<noteq> ?i" "regions c ?n = None"
    using new unfolding assms(4) by (auto split: if_splits)
  have c2: "holds c2 k j \<longleftrightarrow> (if j = ?i then region_contains k (uFIDelateKeyRange a s r) else holds c k j)" for k j
    unfolding holds_def assms(4) by simp
  have "regions_ok (put_region ?i (uFIDelateKeyRange a s r) c)"
    by (rule regions_ok_put [OF evacuatingD(1) [OF assms(1)] _ assms(2)]) simp
  then have "regions_ok c2"
    unfolding regions_ok_def assms(4) .
  then show "regions_ok (put_region ?n (uFIDelateKeyRange e b q) c2)"
    by (rule regions_ok_put) (use assms(3) in simp_all)
  show "regions (put_region ?n (uFIDelateKeyRange e b q) c2) i = regions c i" if "i \<noteq> ?i" "i \<noteq> ?n" for i
    using that by (simp add: assms(4))
  show "regions c ?n = None"
    by (rule n(2))
  show "holds (put_region ?n (uFIDelateKeyRange e b q) c2) k ?i \<or> holds (put_region ?n (uFIDelateKeyRange e b q) c2) k ?n \<longleftrightarrow>
      region_contains k r \<and> \<not> (s \<le> k \<and> k < e)" for k
    using n(1) assms(7) [of k] by (simp add: holds_put c2)
  show "\<not> (holds (put_region ?n (uFIDelateKeyRange e b q) c2) k ?i \<and> holds (put_region ?n (uFIDelateKeyRange e b q) c2) k ?n)" for k
    using n(1) se a by (auto simp: holds_put c2 region_simps)
qed auto

lemma evacuate_loop_ok:
  assumes se: "s < e"
  shows "evacuating s e rs made c \<Longrightarrow> ids_left (2 * length rs + n) c \<Longrightarrow>
    \<exists>c'. evacuate_loop sord s e rs m made c = Some c' \<and> tiled_but s e c' \<and> ids_left n c'"
proof (induction rs arbitrary: made c m)
  case Nil
  then show ?case
    by (simp add: evacuating_done)
next
  case (Cons r rs)
  let ?i = "Region_Id (Meta r)" and ?a = "Region_StartKey (Meta r)" and ?b = "Region_EndKey (Meta r)"
  note inv = Cons.prems(1)
  have r: "regions c ?i = Some r" "range_ok r" "?a < e" "?b = [] \<or> s < ?b" "?i \<notin> set made"
    using evacuatingD(2,4,5) [OF inv] regions_okD [OF evacuatingD(1) [OF inv]] by auto
  have e: "e \<noteq> []"
    using se by auto
  have old_in: "?i \<in> dom (regions c)"
    using r(1) by blast
  have few: "ids_left (2 * length rs + n) c"
    using Cons.prems(2) by (rule ids_left_mono) simp
  have old: "put_old made (uFIDelateKeyRange a b r) c = put_region ?i (uFIDelateKeyRange a b r) c" for a b
    using r(5) by (simp add: put_old_def)
  consider (inside) "s \<le> ?a" "?b \<noteq> []" "?b \<le> e" | (around) "?a < s" "?b = [] \<or> e < ?b"
    | (left) "?a < s" "?b \<noteq> []" "?b \<le> e" | (right) "s \<le> ?a" "?b = [] \<or> e < ?b"
    by (meson not_le)
  then show ?case
  proof cases
    case inside
    have "evacuating s e rs made (del_region ?i c)"
      by (rule evacuating_del [OF inv]) (use inside in \<open>auto simp: region_simps\<close>)
    then show ?thesis
      using Cons.IH [OF _ ids_left_del [OF few]] inside by (simp add: Let_def)
  next
    case left
    have "evacuating s e rs made (put_region ?i (uFIDelateKeyRange ?a s r) c)"
      by (rule evacuating_cut [OF inv]) (use left r(4) e in \<open>auto simp: region_simps range_ok_def\<close>)
    then show ?thesis
      using Cons.IH [OF _ ids_left_put [OF few old_in], of made "uFIDelateKeyRange ?a s r" "Suc m"] left
      by (auto simp: Let_def old)
  next
    case right
    have "evacuating s e rs made (put_region ?i (uFIDelateKeyRange e ?b r) c)"
      by (rule evacuating_cut [OF inv]) (use right r(3) se e in \<open>auto simp: region_simps range_ok_def\<close>)
    then show ?thesis
      using Cons.IH [OF _ ids_left_put [OF few old_in], of made "uFIDelateKeyRange e ?b r" "Suc m"] right
      by (auto simp: Let_def old)
  next
    case around
    let ?c1 = "put_region ?i (uFIDelateKeyRange ?a s r) c"
    have "ids_left (2 * length rs + n + 2) ?c1"
      by (rule ids_left_put) (use Cons.prems(2) r(1) in auto)
    then obtain q c2 where q: "new_single_region (sord m) ?c1 = Some (q, c2)" "regions c2 = regions ?c1"
      "Region_Id (Meta q) \<notin> dom (regions ?c1)"
      and ids: "\<And>p. ids_left (2 * length rs + n) (put_region (Region_Id (Meta q)) p c2)"
      by (rule new_single_region [where sord = "sord m"]) (rule that)
    have "evacuating s e rs (Region_Id (Meta q) # made) (put_region (Region_Id (Meta q)) (uFIDelateKeyRange e ?b q) c2)"
    proof (rule evacuating_two [OF inv _ _ q(2) _ se])
      show "Region_Id (Meta q) \<notin> dom (regions c2)"
        using q(2,3) by simp
    qed (use around se e in \<open>auto simp: region_simps range_ok_def\<close>)
    then have "\<exists>c'. evacuate_loop sord s e rs (Suc m) (Region_Id (Meta q) # made)
        (put_region (Region_Id (Meta q)) (uFIDelateKeyRange e ?b q) c2) = Some c' \<and> tiled_but s e c' \<and> ids_left n c'"
      by (rule Cons.IH) (rule ids)
    moreover have "evacuate_loop sord s e (r # rs) m made c = evacuate_loop sord s e rs (Suc m) (Region_Id (Meta q) # made)
        (put_region (Region_Id (Meta q)) (uFIDelateKeyRange e ?b q) c2)"
      by (cases "?b = []") (use around q(1) in \<open>auto simp: Let_def old not_le\<close>)
    ultimately show ?thesis
      by simp
  qed
qed

lemma evacuating_start:
  assumes t: "tiled c" and v: "visits ord (regions c)" and se: "s < e"
  shows "evacuating s e (getRegionsCoverRange ord s e c) [] c"
proof -
  let ?meets = "\<lambda>r. Region_StartKey (Meta r) < e \<and> (Region_EndKey (Meta r) = [] \<or> s < Region_EndKey (Meta r))"
  have olds: "getRegionsCoverRange ord s e c = filter ?meets (values_in ord (regions c))"
    unfolding getRegionsCoverRange_def by (rule filter_cong) (auto simp: Let_def not_le)
  have ids: "\<And>i r. regions c i = Some r \<Longrightarrow> Region_Id (Meta r) = i"
    using tiled_ok [OF t] by blast
  have set: "r \<in> set (getRegionsCoverRange ord s e c) \<longleftrightarrow> regions c (Region_Id (Meta r)) = Some r \<and> ?meets r" for r
    unfolding olds using ids by (auto simp: set_values_visits [OF v] ran_def)
  have "distinct (map (\<lambda>r. Region_Id (Meta r)) (getRegionsCoverRange ord s e c))"
    unfolding olds using distinct_values [OF v, of "\<lambda>r. Region_Id (Meta r)"] ids by (intro distinct_map_filter) blast
  moreover have "i \<in> (\<lambda>r. Region_Id (Meta r)) ` set (getRegionsCoverRange ord s e c)"
    if "s \<le> k" "k < e" "holds c k i" for k i
  proof -
    obtain r where r: "regions c i = Some r" "region_contains k r"
      using \<open>holds c k i\<close> by (auto simp: holds_def)
    then have "r \<in> set (getRegionsCoverRange ord s e c)"
      using set [of r] ids [OF r(1)] that by (auto simp: region_simps)
    then show ?thesis
      using ids [OF r(1)] by (metis image_eqI)
  qed
  moreover have "\<exists>i. holds c k i" for k
    using t unfolding tiled_def by blast
  ultimately show ?thesis
    unfolding evacuating_def using t set tiled_unique [OF t] by (simp add: tiled_def) blast
qed

section \<open>Grouping the pairs\<close>

text \<open>The sizes of the groups, while groups with one more pair are left to make.\<close>

lemma group_pairs_even:
  assumes "length ps = q * n + m" and "m \<le> n" and "q = 0 \<Longrightarrow> m = n"
  shows "\<exists>gs. group_pairs q m ps acc = Some (acc @ gs) \<and> concat gs = ps \<and>
    length gs = n \<and> map length gs = replicate m (q + 1) @ replicate (n - m) q"
  using assms
proof (induction n arbitrary: m ps acc)
  case 0
  then show ?case
    by (simp add: group_pairs.simps)
next
  case (Suc n)
  let ?k = "if m > 0 then q + 1 else q"
  have k: "?k > 0" "?k \<le> length ps"
    using Suc.prems by (auto simp: algebra_simps)
  then have ne: "ps \<noteq> []"
    by auto
  have "length (drop ?k ps) = q * n + (m - 1)"
    using Suc.prems by (auto simp: algebra_simps)
  moreover have "m - 1 \<le> n" "q = 0 \<Longrightarrow> m - 1 = n"
    using Suc.prems by auto
  ultimately obtain gs where gs: "group_pairs q (m - 1) (drop ?k ps) (acc @ [take ?k ps]) = Some ((acc @ [take ?k ps]) @ gs)"
    "concat gs = drop ?k ps" "length gs = n" "map length gs = replicate (m - 1) (q + 1) @ replicate (n - (m - 1)) q"
    using Suc.IH [of "drop ?k ps" "m - 1" "acc @ [take ?k ps]"] by blast
  have rem: "(if m > 0 then m - 1 else m) = m - 1"
    by simp
  have "group_pairs q m ps acc = Some (acc @ take ?k ps # gs)"
    using gs(1) k(2) ne by (subst group_pairs.simps) (simp add: Let_def rem not_less)
  moreover have "map length (take ?k ps # gs) = replicate m (q + 1) @ replicate (Suc n - m) q"
    using gs(4) k(2) Suc.prems(2) by (cases m) (auto simp: Suc_diff_le)
  moreover have "concat (take ?k ps # gs) = ps"
    using gs(2) by simp
  ultimately show ?case
    using gs(3) by (intro exI [of _ "take ?k ps # gs"]) simp
qed

section \<open>Creating the new regions\<close>

lemma tiled_but_fill:
  assumes t: "tiled_but lo e c" and new: "Region_Id (Meta q) \<notin> dom (regions c2)" and same: "regions c2 = regions c"
    and le: "lo < hi" "hi \<le> e"
  shows "tiled_but hi e (put_region (Region_Id (Meta q)) (uFIDelateKeyRange lo hi q) c2)"
proof -
  let ?n = "Region_Id (Meta q)"
  have hi: "hi \<noteq> []"
    using le by auto
  have h: "holds (put_region ?n (uFIDelateKeyRange lo hi q) c2) k i \<longleftrightarrow>
      (if i = ?n then lo \<le> k \<and> k < hi else holds c k i)" for k i
    using hi by (auto simp: holds_put region_simps holds_def same)
  have fresh: "\<not> holds c k ?n" for k
    using new same by (auto simp: holds_def)
  have gap: "(\<exists>i. holds c k i) \<longleftrightarrow> \<not> (lo \<le> k \<and> k < e)" for k
    using t by (simp add: tiled_but_def)
  have "regions_ok c2"
    using t unfolding tiled_but_def regions_ok_def same by blast
  then have "regions_ok (put_region ?n (uFIDelateKeyRange lo hi q) c2)"
    by (rule regions_ok_put) (use le in \<open>auto simp: range_ok_def\<close>)
  moreover have "i = j" if "holds (put_region ?n (uFIDelateKeyRange lo hi q) c2) k i"
    "holds (put_region ?n (uFIDelateKeyRange lo hi q) c2) k j" for k i j
  proof -
    have "holds c k i \<Longrightarrow> holds c k j \<Longrightarrow> i = j"
      using t unfolding tiled_but_def by blast
    then show ?thesis
      using that gap [of k] le unfolding h by (metis order_less_le_trans)
  qed
  moreover have "(\<exists>i. holds (put_region ?n (uFIDelateKeyRange lo hi q) c2) k i) \<longleftrightarrow> \<not> (hi \<le> k \<and> k < e)" for k
  proof -
    have "(\<exists>i. holds (put_region ?n (uFIDelateKeyRange lo hi q) c2) k i) \<longleftrightarrow> lo \<le> k \<and> k < hi \<or> (\<exists>i. holds c k i)"
      unfolding h using fresh by metis
    also have "\<dots> \<longleftrightarrow> \<not> (hi \<le> k \<and> k < e)"
      unfolding gap using le by (meson not_le order.strict_trans order.strict_trans1 order.strict_trans2)
    finally show ?thesis .
  qed
  ultimately show ?thesis
    unfolding tiled_but_def by blast
qed

text \<open>The bounds of the new regions: the first keys of the groups but the first, and the end.\<close>

fun bounds :: "('db, 'dd) env \<Rightarrow> pair list list \<Rightarrow> bytes \<Rightarrow> bytes list" where
  "bounds E [] e = [e]"
| "bounds E (g # gs) e = NewMvccKey E (p_Key (hd g)) # bounds E gs e"

lemma tiled_but_empty: "tiled_but e e c \<Longrightarrow> tiled c"
  unfolding tiled_but_def by (intro tiledI) (auto simp: not_le)

lemma last_bounds: "sorted_wrt (<) (b # bounds E gs e) \<Longrightarrow> b < e"
  by (induction gs arbitrary: b) auto



lemma createNewRegions_step:
  assumes "g \<noteq> []" and "g' \<noteq> []"
  shows "createNewRegions_loop E sord s e (g # g' # gs) i c =
    (case new_single_region (sord i) c of
       None \<Rightarrow> None
     | Some (q, c2) \<Rightarrow> createNewRegions_loop E sord s e (g' # gs) (Suc i)
         (put_region (Region_Id (Meta q))
           (uFIDelateKeyRange (if i = 0 then s else NewMvccKey E (p_Key (hd g))) (NewMvccKey E (p_Key (hd g'))) q) c2))"
proof -
  have "first_key E g = Some (NewMvccKey E (p_Key (hd g)))" "first_key E g' = Some (NewMvccKey E (p_Key (hd g')))"
    using assms by (cases g; cases g'; simp add: first_key_def)+
  then show ?thesis
    by (subst createNewRegions_loop.simps(2))
      (simp add: Let_def split: option.split prod.split del: createNewRegions_loop.simps)
qed

lemma createNewRegions_ok:
  assumes "tiled_but lo e c" and "ids_left (2 * length (g # gs) + n) c" and "[] \<notin> set (g # gs)"
    and "sorted_wrt (<) (lo # bounds E gs e)" and "lo = (if i = 0 then s else NewMvccKey E (p_Key (hd g)))"
  shows "\<exists>c'. createNewRegions_loop E sord s e (g # gs) i c = Some c' \<and> tiled c'"
  using assms
proof (induction gs arbitrary: g i c lo)
  case Nil
  then have "ids_left (n + 2) c"
    by (simp add: add.commute)
  then obtain q c2 where q: "new_single_region (sord i) c = Some (q, c2)" "regions c2 = regions c"
    "Region_Id (Meta q) \<notin> dom (regions c)" "\<And>p. ids_left n (put_region (Region_Id (Meta q)) p c2)"
    by (rule new_single_region [where sord = "sord i"]) (rule that)
  have "tiled_but e e (put_region (Region_Id (Meta q)) (uFIDelateKeyRange lo e q) c2)"
    by (rule tiled_but_fill [OF Nil.prems(1)]) (use q Nil.prems(4) in auto)
  from tiled_but_empty [OF this] show ?case
    using q(1) Nil.prems(3,5) by (cases g) (auto simp: first_key_def Let_def)
next
  case (Cons g' gs)
  let ?hi = "NewMvccKey E (p_Key (hd g'))"
  have ids: "ids_left ((2 * length (g' # gs) + n) + 2) c"
    using Cons.prems(2) by (simp add: algebra_simps)
  then obtain q c2 where q: "new_single_region (sord i) c = Some (q, c2)" "regions c2 = regions c"
    "Region_Id (Meta q) \<notin> dom (regions c)"
    and left: "\<And>p. ids_left (2 * length (g' # gs) + n) (put_region (Region_Id (Meta q)) p c2)"
    by (rule new_single_region [where sord = "sord i"]) (rule that)
  have hi: "lo < ?hi" "?hi \<le> e" "sorted_wrt (<) (?hi # bounds E gs e)"
    using Cons.prems(4) last_bounds [of ?hi E gs e] by auto
  have "tiled_but ?hi e (put_region (Region_Id (Meta q)) (uFIDelateKeyRange lo ?hi q) c2)"
    by (rule tiled_but_fill [OF Cons.prems(1)]) (use q hi in auto)
  from Cons.IH [OF this left _ hi(3), of "Suc i"] Cons.prems(3) obtain c' where
    "createNewRegions_loop E sord s e (g' # gs) (Suc i) (put_region (Region_Id (Meta q)) (uFIDelateKeyRange lo ?hi q) c2) = Some c'"
    "tiled c'"
    by auto
  then show ?case
    using q(1) Cons.prems(3,5) by (subst createNewRegions_step) auto
qed

section \<open>Splitting\<close>

text \<open>
  What splitting needs of the store's scan: ascending keys, from the start key on and below the end key.
\<close>

definition scan_in_order :: "bytes \<Rightarrow> bytes \<Rightarrow> pair list \<Rightarrow> bool" where
  "scan_in_order s e ps = (sorted_wrt (<) (map p_Key ps) \<and> (\<forall>p\<in>set ps. s \<le> p_Key p \<and> (e \<noteq> [] \<longrightarrow> p_Key p < e)))"

locale scanned_store = codec E for E :: "('db, 'dd) env" +
  fixes store_Scan :: scan_method
  assumes scan_order: "store_Scan s e limit ts lv rl = Some ps \<Longrightarrow> scan_in_order s e ps"
begin

lemma bounds_sorted:
  assumes "sorted_wrt (<) (map p_Key (concat gs))" and "[] \<notin> set gs" and "\<forall>p\<in>set (concat gs). p_Key p < e"
    and "\<forall>p\<in>set (concat gs). lo < p_Key p" and "lo < e"
  shows "sorted_wrt (<) (NewMvccKey E lo # bounds E gs (NewMvccKey E e))"
  using assms
proof (induction gs arbitrary: lo)
  case Nil
  then show ?case
    by (simp add: NewMvccKey_less)
next
  case (Cons g gs)
  then obtain p ps where g: "g = p # ps"
    by (cases g) auto
  have "sorted_wrt (<) (NewMvccKey E (p_Key p) # bounds E gs (NewMvccKey E e))"
    by (rule Cons.IH) (use Cons.prems g in \<open>auto simp: sorted_wrt_append\<close>)
  moreover have "NewMvccKey E lo < NewMvccKey E (p_Key p)"
    by (rule NewMvccKey_less) (use Cons.prems g in auto)
  ultimately show ?case
    using g by (auto intro: less_trans)
qed

text \<open>The groups a scan's pairs are cut into: all non-empty, as many as asked for if there are enough pairs.\<close>

lemma groups_made:
  assumes ps: "store_Scan s e 2147483647 (-1) IsolationLevel_SI [] = Some ps" and cnt: "0 < cnt"
  obtains gs where "getEntriesGroupByRegions E store_Scan (NewMvccKey E s) (NewMvccKey E e) cnt = Some gs"
    and "concat gs = ps" and "length gs = min (nat cnt) (length ps)" and "[] \<notin> set gs"
    and "\<forall>g\<in>set gs. length g = length ps div nat cnt \<or> length g = length ps div nat cnt + 1"
proof -
  let ?q = "length ps div nat cnt" and ?m = "length ps mod nat cnt"
  let ?n = "if ?q = 0 then ?m else nat cnt"
  have A: "length ps = ?q * ?n + ?m"
    using div_mult_mod_eq [of "length ps" "nat cnt"] by (auto simp: div_eq_0_iff)
  have B: "?m \<le> ?n"
    using cnt by (auto intro: less_imp_le)
  have C: "?q = 0 \<Longrightarrow> ?m = ?n"
    by simp
  from group_pairs_even [OF A B C, of "[]"] obtain gs where gs: "group_pairs ?q ?m ps [] = Some ([] @ gs)" "concat gs = ps" "length gs = ?n"
    "map length gs = replicate ?m (?q + 1) @ replicate (?n - ?m) ?q"
    by blast
  have len: "?n = min (nat cnt) (length ps)"
    using cnt by (auto simp: div_eq_0_iff min_def not_less)
  have sizes: "length g = ?q \<or> length g = ?q + 1" if "g \<in> set gs" for g
  proof -
    have "length g \<in> set (replicate ?m (?q + 1) @ replicate (?n - ?m) ?q)"
      unfolding gs(4) [symmetric] using that by auto
    then show ?thesis
      by auto
  qed
  have "[] \<notin> set gs"
  proof
    assume "[] \<in> set gs"
    then have "0 \<in> set (map length gs)"
      by force
    then show False
      unfolding gs(4) by (auto split: if_splits)
  qed
  then show ?thesis
    using that [of gs] gs ps cnt len sizes by (simp add: getEntriesGroupByRegions_def)
qed

lemma evacuated:
  assumes t: "tiled c" and v: "visits ord (regions c)" and less: "s < e" and ids: "ids_left (2 * length ord + n) c"
  shows "\<exists>c1. evacuateOldRegionRanges ord sord s e c = Some c1 \<and> tiled_but s e c1 \<and> ids_left n c1"
proof -
  have "length (getRegionsCoverRange ord s e c) \<le> length ord"
    unfolding getRegionsCoverRange_def values_in_def map_filter_def
    by (rule order_trans [OF length_filter_le]) simp
  then have "ids_left (2 * length (getRegionsCoverRange ord s e c) + n) c"
    by (intro ids_left_mono [OF ids]) simp
  from evacuate_loop_ok [OF less evacuating_start [OF t v less] this] show ?thesis
    unfolding evacuateOldRegionRanges_def by blast
qed

lemma SplitKeys_run:
  assumes t: "tiled c" and v: "visits ord (regions c)" and se: "s < e"
    and ps: "store_Scan s e 2147483647 (-1) IsolationLevel_SI [] = Some ps" "ps \<noteq> []" and cnt: "0 < cnt"
    and ids: "ids_left (2 * length ord + 2 * length ps) c"
  shows "\<exists>c'. SplitKeys E store_Scan ord sord sord' s e cnt c = Some c' \<and> tiled c'"
proof -
  let ?s = "NewMvccKey E s" and ?e = "NewMvccKey E e"
  have ne: "e \<noteq> []"
    using se by auto
  obtain c1 where c1: "evacuateOldRegionRanges ord sord ?s ?e c = Some c1" "tiled_but ?s ?e c1" "ids_left (2 * length ps) c1"
    using evacuated [OF t v NewMvccKey_less [OF se] ids] by blast
  obtain gs where gs: "getEntriesGroupByRegions E store_Scan ?s ?e cnt = Some gs" "concat gs = ps"
    "length gs = min (nat cnt) (length ps)" "[] \<notin> set gs"
    using groups_made [OF ps(1) cnt] by metis
  obtain g gs' where g: "gs = g # gs'"
    using gs(2) ps(2) by (cases gs) auto
  then obtain p g' where p: "g = p # g'"
    using gs(4) by (cases g) auto
  have order: "sorted_wrt (<) (map p_Key ps)" "\<forall>p\<in>set ps. s \<le> p_Key p \<and> p_Key p < e"
    using scan_order [OF ps(1)] ne by (auto simp: scan_in_order_def)
  have pps: "ps = p # g' @ concat gs'"
    using gs(2) g p by simp
  have "sorted_wrt (<) (NewMvccKey E (p_Key p) # bounds E gs' ?e)"
    by (rule bounds_sorted) (use order gs(4) g pps in \<open>auto simp: sorted_wrt_append\<close>)
  moreover have "?s \<le> NewMvccKey E (p_Key p)"
    using order(2) pps by (intro NewMvccKey_le) simp
  ultimately have "sorted_wrt (<) (?s # bounds E gs' ?e)"
    by (auto intro: order_le_less_trans)
  moreover have "ids_left (2 * length (g # gs') + 0) c1"
    using gs(3) g by (intro ids_left_mono [OF c1(3)]) simp
  ultimately obtain c2 where "createNewRegions E sord' gs ?s ?e c1 = Some c2" "tiled c2"
    using createNewRegions_ok [OF c1(2), of g gs' 0 E 0 ?s sord'] gs(4) g unfolding createNewRegions_def by auto
  then show ?thesis
    using c1(1) gs(1) by (simp add: SplitKeys_def splitRange_def)
qed

lemma SplitKeys_no_pairs:
  assumes t: "tiled c" and v: "visits ord (regions c)" and se: "s < e"
    and ps: "store_Scan s e 2147483647 (-1) IsolationLevel_SI [] = Some []" and cnt: "0 < cnt"
    and ids: "ids_left (2 * length ord) c"
  shows "\<exists>c'. SplitKeys E store_Scan ord sord sord' s e cnt c = Some c' \<and>
    (\<forall>k i. NewMvccKey E s \<le> k \<and> k < NewMvccKey E e \<longrightarrow> \<not> holds c' k i)"
proof -
  obtain c1 where c1: "evacuateOldRegionRanges ord sord (NewMvccKey E s) (NewMvccKey E e) c = Some c1"
    "tiled_but (NewMvccKey E s) (NewMvccKey E e) c1"
    using evacuated [OF t v NewMvccKey_less [OF se], of 0] ids by auto
  obtain gs where "getEntriesGroupByRegions E store_Scan (NewMvccKey E s) (NewMvccKey E e) cnt = Some gs" "length gs = 0"
    using groups_made [OF ps cnt] by (metis list.size(3) min_0R)
  then show ?thesis
    using c1 by (auto simp: SplitKeys_def splitRange_def createNewRegions_def tiled_but_def)
qed

end

text \<open>The store on LevelDB is such a store, in every state that represents a multi-version map.\<close>

locale mvcc_leveldb = store_env E for E :: "('db, 'dd) env" +
  fixes st :: "('db, 'dd) MVCCLevelDB" and a :: astate
  assumes represents: "abs_rel E (EDB st) a"

lemma scan_append_keys: "scan_append [] k r = [] \<or> (\<exists>p. scan_append [] k r = [p] \<and> p_Key p = k)"
  by (simp add: scan_append_def split: sum.split option.split)

lemma a_pairs_order: "sorted_wrt (<) ks \<Longrightarrow> sorted_wrt (<) (map p_Key (a_pairs E a ts lv rl ks)) \<and> p_Key ` set (a_pairs E a ts lv rl ks) \<subseteq> set ks"
proof (induction ks)
  case (Cons k ks)
  have split: "a_pairs E a ts lv rl (k # ks) = scan_append [] k (a_get E a k ts lv rl) @ a_pairs E a ts lv rl ks"
    by (simp add: a_pairs_def)
  have IH: "sorted_wrt (<) (map p_Key (a_pairs E a ts lv rl ks))" "p_Key ` set (a_pairs E a ts lv rl ks) \<subseteq> set ks"
    using Cons by auto
  have below: "\<forall>x\<in>set ks. k < x"
    using Cons.prems by simp
  from scan_append_keys [of k "a_get E a k ts lv rl"] show ?case
  proof (elim disjE exE conjE)
    assume "scan_append [] k (a_get E a k ts lv rl) = []"
    then show ?thesis
      unfolding split using IH by auto
  next
    fix p
    assume "scan_append [] k (a_get E a k ts lv rl) = [p]" "p_Key p = k"
    then show ?thesis
      unfolding split using IH below by auto
  qed
qed (simp add: a_pairs_def)

sublocale mvcc_leveldb < scanned_store E "Scan E st"
proof
  fix s e limit ts lv rl ps
  let ?ks = "range_keys a s e"
  assume "Scan E st s e limit ts lv rl = Some ps"
  then have ps: "ps = a_scan E a limit ts lv rl ?ks []"
    using Scan_refines [OF represents] by simp
  note keys = range_keys_props [OF abs_rel_wf [OF represents], of s e]
  show "scan_in_order s e ps"
  proof (cases "0 \<le> limit")
    case True
    have "ps = take (nat limit) (a_pairs E a ts lv rl ?ks)"
      using True unfolding ps by (simp add: a_scan_take)
    then show ?thesis
      using a_pairs_order [of ?ks E a ts lv rl] keys unfolding scan_in_order_def
      by (auto simp: sorted_wrt_take take_map [symmetric] dest!: in_set_takeD)
  next
    case False
    then have "ps = []"
      unfolding ps by (cases ?ks) auto
    then show ?thesis
      by (simp add: scan_in_order_def)
  qed
qed

context mvcc_leveldb
begin

lemma scanned: "scanned_store E (Scan E st)"
  by (rule scanned_store_axioms)

end

lemma mvcc_leveldb_I: "store_env E \<Longrightarrow> abs_rel E (EDB st) a \<Longrightarrow> mvcc_leveldb E st a"
  by (simp add: mvcc_leveldb_def mvcc_leveldb_axioms_def)

abbreviation ex_ops :: "aop list" where
  "ex_ops \<equiv> [SetWrite [7] (put_at 3 5 [1]), SetWrite [8] (put_at 3 5 [2])]"

interpretation ref_ldb: mvcc_leveldb ref_env "ref_store ex_ops" "a_run ex_ops empty_astate"
  by unfold_locales (rule ref_store_rel, simp)

text \<open>
  C11. Splitting a range that holds a key into a positive number of regions returns, and leaves the regions
  tiling the keys: the old regions give up the range and the new ones fill it exactly, whatever the
  orders the maps are visited in and however the old regions lie to the range.
\<close>

theorem SplitKeys_keeps_tiling:
  assumes "store_env E" and "abs_rel E (EDB st) a" and "tiled c" and "visits ord (regions c)" and "start < end'"
    and "Scan E st start end' 2147483647 (-1) IsolationLevel_SI [] = Some ps" and "ps \<noteq> []" and "0 < cnt"
    and "ids_left (2 * length ord + 2 * length ps) c"
  shows "\<exists>c'. SplitKeys E (Scan E st) ord sord sord' start end' cnt c = Some c' \<and> tiled c'"
proof -
  have "scanned_store E (Scan E st)"
    using mvcc_leveldb.scanned [OF mvcc_leveldb_I [OF assms(1,2)]] .
  then show ?thesis
    by (rule scanned_store.SplitKeys_run) (rule assms)+
qed

theorem SplitKeys_keeps_tiling_witness:
  "\<exists>c'. SplitKeys ref_env (Scan ref_env (ref_store ex_ops)) [3] (\<lambda>n. [1]) (\<lambda>n. [1]) [5] [9] 2 ex_cluster = Some c' \<and> tiled c'"
proof (rule SplitKeys_keeps_tiling [OF ref.store_env_axioms ref_store_rel ex_cluster_tiled ex_cluster_visits])
  let ?a = "a_run ex_ops empty_astate"
  have "a_keys ?a = {[7], [8]}"
    by (auto simp: a_keys_def empty_astate_def)
  then have k: "range_keys ?a [5] [9] = [[7], [8]]"
    by (simp add: range_keys_def sorted_keys_def)
  show "Scan ref_env (ref_store ex_ops) [5] [9] 2147483647 (-1) IsolationLevel_SI [] =
      Some [\<lparr>p_Key = [7], p_Value = Some [1], p_Err = None\<rparr>, \<lparr>p_Key = [8], p_Value = Some [2], p_Err = None\<rparr>]"
    using store_env.Scan_refines [OF store_env_ref ref_ldb.represents, of "[5]" "[9]"] k
    by (simp add: scan_append_def a_get_def empty_astate_def a_read_Cons)
qed (simp_all add: ids_left_def ex_cluster_def)

text \<open>
  Grouping the pairs of a range returns for every positive number of regions, as many groups as asked for
  or as there are pairs, which hold the scan's pairs in order and differ in size by one at most; it panics for
  a number that is not positive.
\<close>

theorem getEntriesGroupByRegions_even:
  assumes "store_env E" and "abs_rel E (EDB st) a"
    and "Scan E st start end' 2147483647 (-1) IsolationLevel_SI [] = Some ps"
  shows "(cnt \<le> 0 \<longrightarrow> getEntriesGroupByRegions E (Scan E st) (NewMvccKey E start) (NewMvccKey E end') cnt = None) \<and>
    (0 < cnt \<longrightarrow> (\<exists>gs. getEntriesGroupByRegions E (Scan E st) (NewMvccKey E start) (NewMvccKey E end') cnt = Some gs \<and>
      concat gs = ps \<and> length gs = min (nat cnt) (length ps) \<and>
      (\<forall>g\<in>set gs. length g = length ps div nat cnt \<or> length g = length ps div nat cnt + 1)))"
proof (intro conjI impI)
  have s: "scanned_store E (Scan E st)"
    using mvcc_leveldb.scanned [OF mvcc_leveldb_I [OF assms(1,2)]] .
  show "getEntriesGroupByRegions E (Scan E st) (NewMvccKey E start) (NewMvccKey E end') cnt = None" if "cnt \<le> 0"
    using that by (simp add: getEntriesGroupByRegions_def split: bind_splits)
  show "\<exists>gs. getEntriesGroupByRegions E (Scan E st) (NewMvccKey E start) (NewMvccKey E end') cnt = Some gs \<and>
      concat gs = ps \<and> length gs = min (nat cnt) (length ps) \<and>
      (\<forall>g\<in>set gs. length g = length ps div nat cnt \<or> length g = length ps div nat cnt + 1)" if "0 < cnt"
    using scanned_store.groups_made [OF s assms(3) that] by metis
qed

theorem getEntriesGroupByRegions_even_witness:
  "getEntriesGroupByRegions ref_env (Scan ref_env (ref_store ex_ops)) (NewMvccKey ref_env [5]) (NewMvccKey ref_env [9]) 0 = None"
  using getEntriesGroupByRegions_even [OF ref.store_env_axioms ref_ldb.represents, of "[5]" "[9]" _ 0]
    store_env.Scan_refines [OF store_env_ref ref_ldb.represents, of "[5]" "[9]"] by blast

text \<open>
  A range without keys gets no region: after the split its keys are in none, and looking one up finds nothing.
\<close>

lemma SplitKeys_without_keys:
  assumes "store_env E" and "abs_rel E (EDB st) a" and "tiled c" and "visits ord (regions c)" and "start < end'"
    and "Scan E st start end' 2147483647 (-1) IsolationLevel_SI [] = Some []" and "0 < cnt" and "ids_left (2 * length ord) c"
  shows "\<exists>c'. SplitKeys E (Scan E st) ord sord sord' start end' cnt c = Some c' \<and>
    (\<forall>k i. NewMvccKey E start \<le> k \<and> k < NewMvccKey E end' \<longrightarrow> \<not> holds c' k i)"
proof -
  have "scanned_store E (Scan E st)"
    using mvcc_leveldb.scanned [OF mvcc_leveldb_I [OF assms(1,2)]] .
  then show ?thesis
    by (rule scanned_store.SplitKeys_no_pairs) (rule assms)+
qed

end
