(* ===== verification/Cluster_Bootstrap.thy ===== *)
theory Cluster_Bootstrap
  imports Cluster_Theorems Reference_Env
begin

text \<open>The helpers that build a cluster: identifiers, stores and regions cut at given keys.\<close>

section \<open>Identifiers\<close>

text \<open>The identifiers handed out after one another.\<close>

definition next_ids :: "nat \<Rightarrow> u64 \<Rightarrow> u64 list" where
  "next_ids n i = map (\<lambda>j. i + word_of_nat (Suc j)) [0..<n]"

lemma next_ids_Suc: "next_ids (Suc n) i = (i + 1) # next_ids n (i + 1)"
proof -
  have "map (\<lambda>j. i + word_of_nat (Suc j)) [0..<Suc n] =
      (i + word_of_nat (Suc 0)) # map (\<lambda>j. i + word_of_nat (Suc (Suc j))) [0..<n]"
    by (subst upt_conv_Cons) (simp_all add: map_Suc_upt [symmetric] del: upt_Suc)
  then show ?thesis
    by (simp add: next_ids_def add_ac)
qed

lemma length_next_ids [simp]: "length (next_ids n i) = n"
  by (simp add: next_ids_def)

lemma AllocIDs_loop_eq: "AllocIDs_loop n c = (next_ids n (cluster_id c), c\<lparr>cluster_id := cluster_id c + word_of_nat n\<rparr>)"
proof (induction n arbitrary: c)
  case (Suc n)
  then show ?case
    by (simp add: allocID_def next_ids_Suc add_ac)
qed (simp add: next_ids_def)

lemma nth_next_ids: "j < n \<Longrightarrow> next_ids n i ! j = i + word_of_nat (Suc j)"
  by (simp add: next_ids_def)

lemma unat_id: "unat (i :: u64) + n < 2 ^ 64 \<Longrightarrow> unat (i + word_of_nat n) = unat i + n"
  by (simp add: unat_word_ariths unat_of_nat)

lemma distinct_next_ids:
  assumes "unat i + n < 2 ^ 64"
  shows "distinct (next_ids n i)" and "j \<in> set (next_ids n i) \<Longrightarrow> unat i < unat j \<and> unat j \<le> unat i + n"
proof -
  have u: "unat (i + word_of_nat (Suc j)) = unat i + Suc j" if "j < n" for j
    using that assms by (intro unat_id) simp
  have "inj_on (\<lambda>j. i + word_of_nat (Suc j)) (set [0..<n])"
  proof (rule inj_onI)
    fix x y
    assume "x \<in> set [0..<n]" "y \<in> set [0..<n]" "i + word_of_nat (Suc x) = i + word_of_nat (Suc y)"
    then have "unat i + Suc x = unat i + Suc y"
      using u [of x] u [of y] by (metis atLeastLessThan_iff set_upt)
    then show "x = y"
      by simp
  qed
  then show "distinct (next_ids n i)"
    by (simp add: next_ids_def distinct_map)
  show "unat i < unat j \<and> unat j \<le> unat i + n" if "j \<in> set (next_ids n i)"
    using that u by (auto simp: next_ids_def simp del: of_nat_Suc)
qed

section \<open>One store, one region\<close>

lemma BootstrapWithSingleStore_run:
  "\<exists>c'. BootstrapWithSingleStore c = Some (cluster_id c + 1, cluster_id c + 2, cluster_id c + 3, c') \<and>
     cluster_id c' = cluster_id c + 3 \<and>
     (\<exists>r. regions c' = (regions c)(cluster_id c + 3 \<mapsto> r) \<and> Region_Id (Meta r) = cluster_id c + 3 \<and>
        Region_StartKey (Meta r) = [] \<and> Region_EndKey (Meta r) = [] \<and>
        Region_Peers (Meta r) = [newPeerMeta (cluster_id c + 2) (cluster_id c + 1)] \<and> leader r = cluster_id c + 2)"
proof -
  have ids: "AllocIDs 3 c = ([cluster_id c + 1, cluster_id c + 2, cluster_id c + 3], c\<lparr>cluster_id := cluster_id c + 3\<rparr>)"
    by (simp add: AllocIDs_def AllocIDs_loop_eq next_ids_def upt_rec numeral_3_eq_3)
  show ?thesis
    by (simp add: BootstrapWithSingleStore_def ids AddStore_def Bootstrap_def newRegion_def put_region_def Let_def)
      (intro exI conjI, rule refl, simp_all)
qed

section \<open>Many regions\<close>

text \<open>
  The loop of \<open>BootstrapWithMultiRegions\<close>: the i-th region is the last and open-ended, the later
  identifiers are unused, and the remaining keys ascend above its start.
\<close>

lemma split_at_keys_run:
  assumes "codec E"
  shows "tiled c \<Longrightarrow> regions c (rids ! i) = Some r \<Longrightarrow> Region_EndKey (Meta r) = [] \<Longrightarrow> length (Region_Peers (Meta r)) = 1 \<Longrightarrow>
    sorted_wrt (<) (Region_StartKey (Meta r) # map (NewMvccKey E) ks) \<Longrightarrow> length rids = i + length ks + 1 \<Longrightarrow> distinct rids \<Longrightarrow>
    dom (regions c) = set (take (Suc i) rids) \<Longrightarrow>
    \<exists>c'. split_at_keys E rids pids i ks c = Some c' \<and> tiled c' \<and> dom (regions c') = set rids \<and>
      (\<forall>k. (\<exists>n\<le>length ks. holds c k (rids ! i) \<longrightarrow>
         holds c' k (rids ! (i + n)) \<and> (n = 0 \<or> NewMvccKey E (ks ! (n - 1)) \<le> k) \<and> (n = length ks \<or> k < NewMvccKey E (ks ! n)))) \<and>
      (\<forall>k j. \<not> holds c k (rids ! i) \<longrightarrow> holds c' k j = holds c k j)"
proof (induction ks arbitrary: c i r)
  case Nil
  then show ?case
    by auto
next
  case (Cons key ks)
  let ?i = "rids ! i" and ?j = "rids ! Suc i" and ?k = "NewMvccKey E key"
  have len: "Suc i < length rids"
    using Cons.prems(6) by simp
  have "?j \<notin> set (take (Suc i) rids)"
    using Cons.prems(7) len by (simp add: in_set_conv_nth nth_eq_iff_index_eq)
  then have "?j \<notin> dom (regions c)"
    using Cons.prems(8) by simp
  then have new: "regions c ?j = None"
    by (auto simp: domIff)
  have key: "Region_StartKey (Meta r) < ?k" "Region_EndKey (Meta r) = [] \<or> ?k < Region_EndKey (Meta r)"
    using Cons.prems(3,5) by auto
  let ?r = "uFIDelateKeyRange (Region_StartKey (Meta r)) ?k r"
  have peers: "length (Region_Peers (Meta r)) = length [pids ! i]"
    using Cons.prems(4) by simp
  obtain n where split: "SplitRaw ?i ?j ?k [pids ! i] (pids ! i) c = Some (Meta n, put_region ?j n (put_region ?i ?r c))"
    and n0: "Region_StartKey (Meta n) = ?k" "Region_EndKey (Meta n) = Region_EndKey (Meta r)" "Region_Id (Meta n) = ?j"
      "length (Region_Peers (Meta n)) = length [pids ! i]"
    and t1: "tiled (put_region ?j n (put_region ?i ?r c))"
    and h1: "\<And>k' i'. holds (put_region ?j n (put_region ?i ?r c)) k' i' \<longleftrightarrow> (if holds c k' ?i \<and> ?k \<le> k' then i' = ?j else holds c k' i')"
    by (rule SplitRaw_run [OF Cons.prems(1,2) new key peers, where l = "pids ! i"]) (rule that)
  have n: "Region_StartKey (Meta n) = ?k" "Region_EndKey (Meta n) = []" "length (Region_Peers (Meta n)) = 1"
    using n0 Cons.prems(3) by simp_all
  let ?c1 = "put_region ?j n (put_region ?i ?r c)"
  have so: "sorted_wrt (<) (Region_StartKey (Meta n) # map (NewMvccKey E) ks)"
    using Cons.prems(5) n by simp
  have "?i \<in> dom (regions c)"
    using Cons.prems(2) by blast
  then have "dom (regions ?c1) = insert ?j (dom (regions c))"
    by auto
  then have dom: "dom (regions ?c1) = set (take (Suc (Suc i)) rids)"
    using Cons.prems(8) len by (simp add: take_Suc_conv_app_nth [of "Suc i"])
  have at: "regions ?c1 ?j = Some n"
    by simp
  have le: "length rids = Suc i + length ks + 1"
    using Cons.prems(6) by simp
  from Cons.IH [OF t1 at n(2,3) so le Cons.prems(7) dom] obtain c' where c': "split_at_keys E rids pids (Suc i) ks ?c1 = Some c'" "tiled c'" "dom (regions c') = set rids"
    and in': "\<And>k. \<exists>m\<le>length ks. holds ?c1 k ?j \<longrightarrow> holds c' k (rids ! (Suc i + m)) \<and>
        (m = 0 \<or> NewMvccKey E (ks ! (m - 1)) \<le> k) \<and> (m = length ks \<or> k < NewMvccKey E (ks ! m))"
    and out': "\<And>k j. \<not> holds ?c1 k ?j \<Longrightarrow> holds c' k j = holds ?c1 k j"
    by blast
  have run: "split_at_keys E rids pids i (key # ks) c = Some c'"
    using c'(1) split by (simp add: Split_def)
  have no_j: "\<not> holds c k ?j" for k
    using new by (simp add: holds_def)
  have "\<exists>m\<le>length (key # ks). holds c k ?i \<longrightarrow> holds c' k (rids ! (i + m)) \<and>
        (m = 0 \<or> NewMvccKey E ((key # ks) ! (m - 1)) \<le> k) \<and> (m = length (key # ks) \<or> k < NewMvccKey E ((key # ks) ! m))" for k
  proof (cases "holds c k ?i \<and> ?k \<le> k")
    case True
    then have j: "holds ?c1 k ?j"
      using h1 by simp
    obtain m where m: "m \<le> length ks" "holds c' k (rids ! (Suc i + m))" "m = 0 \<or> NewMvccKey E (ks ! (m - 1)) \<le> k"
      "m = length ks \<or> k < NewMvccKey E (ks ! m)"
      using in' [of k] j by blast
    then show ?thesis
      using True by (intro exI [of _ "Suc m"]) (auto simp: nth_Cons' )
  next
    case False
    then have "\<not> holds ?c1 k ?j"
      using h1 no_j by simp
    then show ?thesis
      using out' h1 False by (intro exI [of _ 0]) (auto simp: not_le)
  qed
  moreover have "holds c' k j = holds c k j" if "\<not> holds c k ?i" for k j
    using that h1 out' no_j by simp
  ultimately show ?case
    using run c'(2,3) by blast
qed

text \<open>
  C39. Bootstrapping an empty cluster with ascending keys gives one region more than keys, which tile the
  keys: the n-th region in the returned list is the one between the n-th key before it and the key after it.
\<close>

theorem BootstrapWithMultiRegions_tiles:
  assumes E: "codec E" and empty: "regions c = Map.empty" and ks: "sorted_wrt (<) ks" "[] \<notin> set ks"
    and few: "unat (cluster_id c) + 3 + length ks < 2 ^ 64"
  shows "\<exists>storeID regionIDs peerIDs c'. BootstrapWithMultiRegions E ks c = Some (storeID, regionIDs, peerIDs, c') \<and>
    tiled c' \<and> length regionIDs = length ks + 1 \<and> distinct regionIDs \<and> dom (regions c') = set regionIDs \<and>
    (\<forall>k. \<exists>n\<le>length ks. holds c' k (regionIDs ! n) \<and>
       (n = 0 \<or> NewMvccKey E (ks ! (n - 1)) \<le> k) \<and> (n = length ks \<or> k < NewMvccKey E (ks ! n)))"
proof -
  let ?i = "cluster_id c" and ?n = "length ks"
  obtain c1 r where one: "BootstrapWithSingleStore c = Some (?i + 1, ?i + 2, ?i + 3, c1)" "cluster_id c1 = ?i + 3"
    "regions c1 = [?i + 3 \<mapsto> r]" "Region_Id (Meta r) = ?i + 3" "Region_StartKey (Meta r) = []" "Region_EndKey (Meta r) = []"
    and peers: "length (Region_Peers (Meta r)) = 1"
    using BootstrapWithSingleStore_run [of c] empty by auto
  define rids where "rids = (?i + 3) # next_ids ?n (?i + 3)"
  define pids where "pids = (?i + 2) # next_ids ?n (?i + 3 + word_of_nat ?n)"
  define c3 where "c3 = c1\<lparr>cluster_id := ?i + 3 + word_of_nat ?n + word_of_nat ?n\<rparr>"
  have run: "BootstrapWithMultiRegions E ks c =
      map_option (\<lambda>c4. (?i + 1, rids, pids, c4)) (split_at_keys E rids pids 0 ks c3)"
    by (simp add: BootstrapWithMultiRegions_def one AllocIDs_def AllocIDs_loop_eq rids_def pids_def c3_def Let_def)
  have t: "tiled c3"
    by (rule tiled_single [of _ "?i + 3" r]) (simp_all add: c3_def one)
  have three: "unat (?i + 3) = unat ?i + 3"
    using unat_id [of ?i 3] few by simp
  have d: "distinct rids"
    using distinct_next_ids [of "?i + 3" ?n] few three unfolding rids_def by force
  have "sorted_wrt (<) (map (NewMvccKey E) ks)"
    using ks(1) codec.NewMvccKey_less [OF E] by (simp add: sorted_wrt_map sorted_wrt_mono_rel [of _ "(<)"])
  moreover have "[] < NewMvccKey E k" if "k \<in> set ks" for k
  proof -
    have "[] < k"
    proof (cases k)
      case Nil
      then show ?thesis
        using that ks(2) by blast
    qed simp
    then show ?thesis
      using codec.NewMvccKey_less [OF E, of "[]" k] by (simp add: NewMvccKey_def)
  qed
  ultimately have so: "sorted_wrt (<) (Region_StartKey (Meta r) # map (NewMvccKey E) ks)"
    using one(5) by simp
  have at: "regions c3 (rids ! 0) = Some r" and len: "length rids = 0 + ?n + 1"
    and dom: "dom (regions c3) = set (take (Suc 0) rids)"
    by (simp_all add: c3_def one rids_def)
  from split_at_keys_run [OF E t at one(6) peers so len d dom] obtain c' where
    c': "split_at_keys E rids pids 0 ks c3 = Some c'" "tiled c'" "dom (regions c') = set rids"
    and where_k: "\<And>k. \<exists>n\<le>?n. holds c3 k (rids ! 0) \<longrightarrow> holds c' k (rids ! (0 + n)) \<and>
      (n = 0 \<or> NewMvccKey E (ks ! (n - 1)) \<le> k) \<and> (n = ?n \<or> k < NewMvccKey E (ks ! n))"
    by blast
  have "holds c3 k (rids ! 0)" for k
    by (simp add: holds_def at region_simps one)
  then have "\<exists>n\<le>?n. holds c' k (rids ! n) \<and>
      (n = 0 \<or> NewMvccKey E (ks ! (n - 1)) \<le> k) \<and> (n = ?n \<or> k < NewMvccKey E (ks ! n))" for k
    using where_k [of k] by simp
  then show ?thesis
    using run c' d len by (intro exI [of _ "?i + 1"] exI [of _ rids] exI [of _ pids] exI [of _ c']) simp
qed

theorem BootstrapWithMultiRegions_tiles_witness:
  "\<exists>storeID regionIDs peerIDs c'. BootstrapWithMultiRegions ref_env [[3], [7]] NewCluster = Some (storeID, regionIDs, peerIDs, c') \<and>
     tiled c' \<and> length regionIDs = 3"
  using BootstrapWithMultiRegions_tiles [OF ref_codec, of NewCluster "[[3], [7]]"] by (auto simp: NewCluster_def)

text \<open>
  The loop hands the new region the identifier of the old region's peer: the two regions' peers are told
  apart by nothing, and the last identifier returned for a peer belongs to none.
\<close>

lemma BootstrapWithMultiRegions_shares_peers:
  "\<exists>c r r'. BootstrapWithMultiRegions E [[7]] NewCluster = Some (1, [3, 4], [2, 5], c) \<and>
     regions c 3 = Some r \<and> regions c 4 = Some r' \<and>
     Region_Peers (Meta r) = [newPeerMeta 2 1] \<and> Region_Peers (Meta r') = [newPeerMeta 2 1]"
  by (simp add: BootstrapWithMultiRegions_def BootstrapWithSingleStore_def AllocIDs_def allocID_def NewCluster_def numeral_3_eq_3
      AddStore_def Bootstrap_def newRegion_def put_region_def Split_def SplitRaw_def region_split_def newPeerMeta_def
      uFIDelateKeyRange_def incVersion_def Let_def)

end
