(* ===== verification/Rpc.thy ===== *)
theory Rpc
  imports Cluster Leveldb_Store
begin

text \<open>
  \<^verbatim>\<open>mockeinsteindb/rpc.go\<close>: the request handlers of the simulated server and the client that dispatches to
  them. The interfaces \<open>MVCCStore\<close>, \<open>RawKV\<close> and \<open>MVCCDebugger\<close> of \<^verbatim>\<open>mvcc.go\<close> are records of methods, the
  type assertions of the handlers the optional fields; \<open>leveldb_store\<close> is the implementation the
  repository has. A panic is \<open>None\<close>. The requests of \<^verbatim>\<open>kvrpcpb\<close> carry the fields the handlers read.
\<close>

section \<open>The interfaces of the store\<close>

record 's RawKV =
  raw_Get :: "'s \<Rightarrow> bytes \<Rightarrow> bytes option"
  raw_BatchGet :: "'s \<Rightarrow> bytes list \<Rightarrow> bytes option list"
  raw_Scan :: "'s \<Rightarrow> bytes \<Rightarrow> bytes \<Rightarrow> int \<Rightarrow> pair list"
  raw_ReverseScan :: "'s \<Rightarrow> bytes option \<Rightarrow> bytes \<Rightarrow> int \<Rightarrow> pair list"
  raw_Put :: "'s \<Rightarrow> bytes \<Rightarrow> bytes option \<Rightarrow> 's"
  raw_BatchPut :: "'s \<Rightarrow> bytes list \<Rightarrow> bytes option list \<Rightarrow> 's option"
  raw_Delete :: "'s \<Rightarrow> bytes \<Rightarrow> 's"
  raw_BatchDelete :: "'s \<Rightarrow> bytes list \<Rightarrow> 's"
  raw_DeleteRange :: "'s \<Rightarrow> bytes option \<Rightarrow> bytes option \<Rightarrow> 's"

record 's MVCCDebugger =
  dbg_MvccGetByStartTS :: "'s \<Rightarrow> u64 \<Rightarrow> (MvccInfo option \<times> bytes) option"
  dbg_MvccGetByKey :: "'s \<Rightarrow> bytes \<Rightarrow> MvccInfo option option"

record 's MVCCStore =
  mvcc_Get :: "'s \<Rightarrow> bytes \<Rightarrow> u64 \<Rightarrow> IsolationLevel \<Rightarrow> u64 list \<Rightarrow> err + bytes option"
  mvcc_Scan :: "'s \<Rightarrow> bytes \<Rightarrow> bytes \<Rightarrow> int \<Rightarrow> u64 \<Rightarrow> IsolationLevel \<Rightarrow> u64 list \<Rightarrow> pair list option"
  mvcc_ReverseScan :: "'s \<Rightarrow> bytes \<Rightarrow> bytes \<Rightarrow> int \<Rightarrow> u64 \<Rightarrow> IsolationLevel \<Rightarrow> u64 list \<Rightarrow> pair list option"
  mvcc_BatchGet :: "'s \<Rightarrow> bytes list \<Rightarrow> u64 \<Rightarrow> IsolationLevel \<Rightarrow> u64 list \<Rightarrow> pair list"
  mvcc_PessimisticLock :: "'s \<Rightarrow> PessimisticLockRequest \<Rightarrow> ((KeyError list \<times> bytes option list) \<times> 's) option"
  mvcc_PessimisticRollback :: "'s \<Rightarrow> bytes list \<Rightarrow> u64 \<Rightarrow> u64 \<Rightarrow> err option list \<times> 's"
  mvcc_Prewrite :: "'s \<Rightarrow> PrewriteRequest \<Rightarrow> (err option list \<times> 's) option"
  mvcc_Commit :: "'s \<Rightarrow> bytes list \<Rightarrow> u64 \<Rightarrow> u64 \<Rightarrow> err option \<times> 's"
  mvcc_Rollback :: "'s \<Rightarrow> bytes list \<Rightarrow> u64 \<Rightarrow> err option \<times> 's"
  mvcc_Cleanup :: "'s \<Rightarrow> bytes \<Rightarrow> u64 \<Rightarrow> u64 \<Rightarrow> err option \<times> 's"
  mvcc_ScanLock :: "'s \<Rightarrow> bytes \<Rightarrow> bytes \<Rightarrow> u64 \<Rightarrow> (err + LockInfo list) option"
  mvcc_TxnHeartBeat :: "'s \<Rightarrow> bytes \<Rightarrow> u64 \<Rightarrow> u64 \<Rightarrow> (err + u64) \<times> 's"
  mvcc_ResolveLock :: "'s \<Rightarrow> bytes \<Rightarrow> bytes \<Rightarrow> u64 \<Rightarrow> u64 \<Rightarrow> (err option \<times> 's) option"
  mvcc_GC :: "'s \<Rightarrow> bytes \<Rightarrow> bytes \<Rightarrow> u64 \<Rightarrow> (err option \<times> 's) option"
  mvcc_DeleteRange :: "'s \<Rightarrow> bytes \<Rightarrow> bytes \<Rightarrow> err option \<times> 's"
  mvcc_CheckTxnStatus :: "'s \<Rightarrow> bytes \<Rightarrow> u64 \<Rightarrow> u64 \<Rightarrow> u64 \<Rightarrow> bool \<Rightarrow> txn_status \<times> 's"
  as_RawKV :: "'s RawKV option"
  as_MVCCDebugger :: "'s MVCCDebugger option"

definition leveldb_store :: "('db, 'dd) env \<Rightarrow> ('db, 'dd) MVCCLevelDB MVCCStore" where
  "leveldb_store E =
     \<lparr>mvcc_Get = Get E, mvcc_Scan = Scan E, mvcc_ReverseScan = ReverseScan E, mvcc_BatchGet = BatchGet E,
      mvcc_PessimisticLock = PessimisticLock E, mvcc_PessimisticRollback = PessimisticRollback E,
      mvcc_Prewrite = Prewrite E, mvcc_Commit = Commit E, mvcc_Rollback = Rollback E, mvcc_Cleanup = Cleanup E,
      mvcc_ScanLock = ScanLock E, mvcc_TxnHeartBeat = TxnHeartBeat E, mvcc_ResolveLock = ResolveLock E, mvcc_GC = GC E,
      mvcc_DeleteRange = DeleteRange E, mvcc_CheckTxnStatus = CheckTxnStatus E,
      as_RawKV = Some \<lparr>raw_Get = RawGet E, raw_BatchGet = RawBatchGet E, raw_Scan = RawScan E,
        raw_ReverseScan = RawReverseScan E, raw_Put = RawPut E, raw_BatchPut = RawBatchPut E, raw_Delete = RawDelete E,
        raw_BatchDelete = RawBatchDelete E, raw_DeleteRange = RawDeleteRange E\<rparr>,
      as_MVCCDebugger = Some \<lparr>dbg_MvccGetByStartTS = MvccGetByStartTS E, dbg_MvccGetByKey = MvccGetByKey E\<rparr>\<rparr>"

section \<open>Requests, responses and errors\<close>

record Context =
  ctx_RegionId :: u64
  ctx_RegionEpoch :: "RegionEpoch option"
  ctx_Peer :: "Peer option"
  ctx_IsolationLevel :: IsolationLevel
  ctx_ResolvedLocks :: "u64 list"

text \<open>The errors of \<^verbatim>\<open>errorpb\<close> the handlers build: the text and which detail is set.\<close>

datatype ErrorDetail =
    NoDetail | StoreNotMatch | RegionNotFound u64 | NotLeader u64 "Peer option"
  | EpochNotMatch "RegionMeta list" | RaftEntryTooLarge | ServerIsBusy

record ErrorPb =
  Message :: string
  detail :: ErrorDetail

record KvPair =
  kv_Key :: bytes
  kv_Value :: "bytes option"
  kv_Error :: "KeyError option"

datatype Request =
    CmdGet (g_Key: bytes) (g_Version: u64) "u64 list"
  | CmdScan (s_StartKey: bytes) (s_EndKey: bytes) (s_Limit: u32) (s_Version: u64) (s_Reverse: bool) "u64 list"
  | CmdPrewrite u64 PrewriteRequest
  | CmdPessimisticLock u64 PessimisticLockRequest
  | CmdPessimisticRollback "bytes list" u64 u64
  | CmdCommit "bytes list" u64 u64
  | CmdCleanup bytes u64 u64
  | CmdCheckTxnStatus bytes u64 u64 u64 bool
  | CmdTxnHeartBeat bytes u64 u64
  | CmdBatchGet "bytes list" u64 "u64 list"
  | CmdBatchRollback "bytes list" u64
  | CmdScanLock u64
  | CmdResolveLock u64 u64
  | CmdGC u64
  | CmdDeleteRange bytes bytes
  | CmdRawGet bytes
  | CmdRawBatchGet "bytes list"
  | CmdRawPut bytes "bytes option"
  | CmdRawBatchPut "(bytes \<times> bytes option) list"
  | CmdRawDelete bytes
  | CmdRawBatchDelete "bytes list"
  | CmdRawDeleteRange "bytes option" "bytes option"
  | CmdRawScan "bytes option" bytes u32 bool
  | CmdUnsafeDestroyRange
  | CmdRegisterLockObserver
  | CmdCheckLockObserver
  | CmdRemoveLockObserver
  | CmdPhysicalScanLock
  | CmdMvccGetByKey bytes
  | CmdMvccGetByStartTs u64
  | CmdSplitRegion "bytes list"
  | CmdDebugGetRegionProperties u64
  | CmdOther nat

datatype Response =
    Resp_RegionError ErrorPb
  | GetResponse "KeyError option" "bytes option"
  | ScanResponse "KvPair list"
  | PrewriteResponse "KeyError list"
  | PessimisticLockResponse "KeyError list" "bytes option list"
  | PessimisticRollbackResponse "KeyError list"
  | CommitResponse "KeyError option"
  | CleanupResponse "KeyError option" u64
  | CheckTxnStatusResponse "KeyError option" u64 u64 CausetAction
  | TxnHeartBeatResponse "KeyError option" u64
  | BatchGetResponse "KvPair list"
  | BatchRollbackResponse "KeyError option"
  | ScanLockResponse "KeyError option" "LockInfo list"
  | ResolveLockResponse "KeyError option"
  | GCResponse "KeyError option"
  | DeleteRangeResponse "err option"
  | RawGetResponse string "bytes option"
  | RawBatchGetResponse "KvPair option list"
  | RawPutResponse string
  | RawBatchPutResponse string
  | RawDeleteResponse string
  | RawBatchDeleteResponse string
  | RawDeleteRangeResponse string
  | RawScanResponse "KvPair list"
  | MvccGetByKeyResponse string "MvccInfo option"
  | MvccGetByStartTsResponse string "MvccInfo option" bytes
  | SplitRegionResponse "RegionMeta list"
  | GetRegionPropertiesResponse string string

fun convertToPbPairs :: "('db, 'dd) env \<Rightarrow> pair list \<Rightarrow> KvPair list option" where
  "convertToPbPairs E [] = Some []"
| "convertToPbPairs E (p # ps) =
     do {
       kvPair \<leftarrow> (case p_Err p of
          None \<Rightarrow> Some \<lparr>kv_Key = p_Key p, kv_Value = p_Value p, kv_Error = None\<rparr>
        | Some e \<Rightarrow> map_option (\<lambda>ke. \<lparr>kv_Key = [], kv_Value = None, kv_Error = Some ke\<rparr>) (convertToKeyError E e));
       map_option (Cons kvPair) (convertToPbPairs E ps)
     }"

text \<open>The error of a call, converted if there is one.\<close>

definition key_error :: "('db, 'dd) env \<Rightarrow> err option \<Rightarrow> KeyError option option" where
  "key_error E er = (case er of None \<Rightarrow> Some None | Some e \<Rightarrow> map_option Some (convertToKeyError E e))"

section \<open>The handler\<close>

text \<open>
  The handler's own fields; the cluster and the store it points to are the state its operations take and
  return. The fields of the interlocking requests are left out with them.
\<close>

record rpcHandler =
  rh_storeID :: u64
  rh_startKey :: bytes
  rh_endKey :: bytes
  rh_isolationLevel :: IsolationLevel
  rh_resolvedLocks :: "u64 list"

text \<open>
  The orders the cluster's maps are visited in: the stores, and the regions in the n-th look-up, which may
  depend on the map it finds.
\<close>

record orders =
  ord_stores :: "u64 list"
  ord_regions :: "nat \<Rightarrow> (u64 \<rightharpoonup> Region) \<Rightarrow> u64 list"

definition isTiFlashStore :: "StoreMeta option \<Rightarrow> bool" where
  "isTiFlashStore causetstore =
     (case causetstore of None \<Rightarrow> False | Some st \<Rightarrow> (\<exists>l\<in>set (Store_Labels st). fst l = ''engine'' \<and> snd l = ''tiflash''))"

text \<open>The loop over the region's peers keeps the last that matches.\<close>

definition last_peer :: "(Peer \<Rightarrow> bool) \<Rightarrow> Peer list \<Rightarrow> Peer option" where
  "last_peer P ps = fold (\<lambda>p acc. if P p then Some p else acc) ps None"

definition checkRequestContext :: "orders \<Rightarrow> Cluster \<Rightarrow> rpcHandler \<Rightarrow> Context \<Rightarrow> ErrorPb + rpcHandler" where
  "checkRequestContext o' c h ctx =
     (let fail = (\<lambda>msg d. Inl \<lparr>Message = msg, detail = d\<rparr>); regionID = ctx_RegionId ctx
      in if \<exists>p. ctx_Peer ctx = Some p \<and> Peer_StoreId p \<noteq> rh_storeID h then fail ''causetstore not match'' StoreNotMatch
         else (case GetRegion regionID c of
             (None, leaderID) \<Rightarrow> fail ''region not found'' (RegionNotFound regionID)
           | (Some region, leaderID) \<Rightarrow>
               (let storePeer = last_peer (\<lambda>p. Peer_StoreId p = rh_storeID h) (Region_Peers region);
                    leaderPeer' = last_peer (\<lambda>p. Peer_Id p = leaderID) (Region_Peers region)
                in (case storePeer of
                      None \<Rightarrow> fail ''region not found'' (RegionNotFound regionID)
                    | Some sp \<Rightarrow>
                        (case leaderPeer' of
                           None \<Rightarrow> fail ''no leader'' (NotLeader regionID None)
                         | Some lp \<Rightarrow>
                             if Peer_Id sp \<noteq> Peer_Id lp \<and> \<not> isTiFlashStore (GetStore (Peer_StoreId sp) c) then
                               fail ''not leader'' (NotLeader regionID (Some lp))
                             else if Region_Epoch region \<noteq> ctx_RegionEpoch ctx then
                               (case fst (GetRegionByKey (ord_regions o' 0 (regions c)) (Region_EndKey region) c) of
                                  None \<Rightarrow> fail ''epoch not match'' (EpochNotMatch [region])
                                | Some nextRegion \<Rightarrow> fail ''epoch not match'' (EpochNotMatch [region, nextRegion]))
                             else Inr (h\<lparr>rh_startKey := Region_StartKey region, rh_endKey := Region_EndKey region,
                                         rh_isolationLevel := ctx_IsolationLevel ctx, rh_resolvedLocks := ctx_ResolvedLocks ctx\<rparr>))))))"

definition requestMaxSize :: int where
  "requestMaxSize = 8 * 1024 * 1024"

definition checkRequestSize :: "int \<Rightarrow> ErrorPb option" where
  "checkRequestSize sz = (if sz \<ge> requestMaxSize then Some \<lparr>Message = '''', detail = RaftEntryTooLarge\<rparr> else None)"

definition checkRequest :: "orders \<Rightarrow> Cluster \<Rightarrow> rpcHandler \<Rightarrow> Context \<Rightarrow> int \<Rightarrow> ErrorPb + rpcHandler" where
  "checkRequest o' c h ctx sz =
     (case checkRequestContext o' c h ctx of
        Inl e \<Rightarrow> Inl e
      | Inr h' \<Rightarrow> (case checkRequestSize sz of Some e \<Rightarrow> Inl e | None \<Rightarrow> Inr h'))"

definition checkKeyInRegion :: "('db, 'dd) env \<Rightarrow> rpcHandler \<Rightarrow> bytes \<Rightarrow> bool" where
  "checkKeyInRegion E h key = regionContains (rh_startKey h) (rh_endKey h) (NewMvccKey E key)"

section \<open>Handlers that read\<close>

definition handleKvGet ::
  "('db, 'dd) env \<Rightarrow> 's MVCCStore \<Rightarrow> rpcHandler \<Rightarrow> 's \<Rightarrow> bytes \<Rightarrow> u64 \<Rightarrow> u64 list \<Rightarrow> Response option" where
  "handleKvGet E M h s key version resolved =
     (if \<not> checkKeyInRegion E h key then None
      else (case mvcc_Get M s key version (rh_isolationLevel h) resolved of
              Inl e \<Rightarrow> map_option (\<lambda>ke. GetResponse (Some ke) None) (convertToKeyError E e)
            | Inr v \<Rightarrow> Some (GetResponse None v)))"

definition handleKvScan ::
  "('db, 'dd) env \<Rightarrow> 's MVCCStore \<Rightarrow> rpcHandler \<Rightarrow> 's \<Rightarrow> bytes \<Rightarrow> bytes \<Rightarrow> u32 \<Rightarrow> u64 \<Rightarrow> bool \<Rightarrow> u64 list \<Rightarrow> Response option" where
  "handleKvScan E M h s startKey endKey limit version reverse resolved =
     do {
       regionEnd \<leftarrow> MvccKey_Raw E (rh_endKey h);
       pairs \<leftarrow>
         (if \<not> reverse then
            (if \<not> checkKeyInRegion E h startKey then None
             else (let end' = (if length endKey > 0 \<and> (length regionEnd = 0 \<or> bytes_Compare (NewMvccKey E endKey) (rh_endKey h) < 0)
                               then endKey else regionEnd)
                   in mvcc_Scan M s startKey end' (int (unat limit)) version (rh_isolationLevel h) resolved))
          else
            (if \<not> checkKeyInRegion E h endKey then None
             else (let end' = (if length startKey > 0 \<and> (length regionEnd = 0 \<or> bytes_Compare (NewMvccKey E startKey) (rh_endKey h) < 0)
                               then startKey else regionEnd)
                   in mvcc_ReverseScan M s endKey end' (int (unat limit)) version (rh_isolationLevel h) resolved)));
       map_option ScanResponse (convertToPbPairs E pairs)
     }"

definition handleKvBatchGet ::
  "('db, 'dd) env \<Rightarrow> 's MVCCStore \<Rightarrow> rpcHandler \<Rightarrow> 's \<Rightarrow> bytes list \<Rightarrow> u64 \<Rightarrow> u64 list \<Rightarrow> Response option" where
  "handleKvBatchGet E M h s keys version resolved =
     (if \<exists>k\<in>set keys. \<not> checkKeyInRegion E h k then None
      else map_option BatchGetResponse (convertToPbPairs E (mvcc_BatchGet M s keys version (rh_isolationLevel h) resolved)))"

definition handleKvScanLock :: "('db, 'dd) env \<Rightarrow> 's MVCCStore \<Rightarrow> rpcHandler \<Rightarrow> 's \<Rightarrow> u64 \<Rightarrow> Response option" where
  "handleKvScanLock E M h s maxVersion =
     do {
       startKey \<leftarrow> MvccKey_Raw E (rh_startKey h);
       endKey \<leftarrow> MvccKey_Raw E (rh_endKey h);
       r \<leftarrow> mvcc_ScanLock M s startKey endKey maxVersion;
       (case r of
          Inl e \<Rightarrow> map_option (\<lambda>ke. ScanLockResponse (Some ke) []) (convertToKeyError E e)
        | Inr locks \<Rightarrow> Some (ScanLockResponse None locks))
     }"

definition handleMvccGetByKey :: "('db, 'dd) env \<Rightarrow> 's MVCCStore \<Rightarrow> rpcHandler \<Rightarrow> 's \<Rightarrow> bytes \<Rightarrow> Response option" where
  "handleMvccGetByKey E M h s key =
     (case as_MVCCDebugger M of
        None \<Rightarrow> Some (MvccGetByKeyResponse ''not implement'' None)
      | Some debugger \<Rightarrow>
          if \<not> checkKeyInRegion E h key then None
          else map_option (MvccGetByKeyResponse '''') (dbg_MvccGetByKey debugger s key))"

definition handleMvccGetByStartTS :: "'s MVCCStore \<Rightarrow> 's \<Rightarrow> u64 \<Rightarrow> Response option" where
  "handleMvccGetByStartTS M s start =
     (case as_MVCCDebugger M of
        None \<Rightarrow> Some (MvccGetByStartTsResponse ''not implement'' None [])
      | Some debugger \<Rightarrow> map_option (\<lambda>(info, key). MvccGetByStartTsResponse '''' info key) (dbg_MvccGetByStartTS debugger s start))"

definition handleKvRawGet :: "'s MVCCStore \<Rightarrow> 's \<Rightarrow> bytes \<Rightarrow> Response" where
  "handleKvRawGet M s key =
     (case as_RawKV M of
        None \<Rightarrow> RawGetResponse ''not implemented'' None
      | Some rawKV \<Rightarrow> RawGetResponse '''' (raw_Get rawKV s key))"

text \<open>The response has a pair for each value; more keys than values panic, more values leave nil pairs.\<close>

definition handleKvRawBatchGet :: "'s MVCCStore \<Rightarrow> 's \<Rightarrow> bytes list \<Rightarrow> Response option" where
  "handleKvRawBatchGet M s keys =
     (case as_RawKV M of
        None \<Rightarrow> Some (Resp_RegionError \<lparr>Message = ''not implemented'', detail = NoDetail\<rparr>)
      | Some rawKV \<Rightarrow>
          (let values = raw_BatchGet rawKV s keys
           in if length values < length keys then None
              else Some (RawBatchGetResponse (map2 (\<lambda>k v. Some \<lparr>kv_Key = k, kv_Value = v, kv_Error = None\<rparr>) keys values @
                           replicate (length values - length keys) None))))"

definition handleKvRawScan ::
  "('db, 'dd) env \<Rightarrow> 's MVCCStore \<Rightarrow> rpcHandler \<Rightarrow> 's \<Rightarrow> bytes option \<Rightarrow> bytes \<Rightarrow> u32 \<Rightarrow> bool \<Rightarrow> Response option" where
  "handleKvRawScan E M h s startKey endKey limit reverse =
     (case as_RawKV M of
        None \<Rightarrow> Some (Resp_RegionError \<lparr>Message = ''not implemented'', detail = NoDetail\<rparr>)
      | Some rawKV \<Rightarrow>
          (let pairs =
             (if reverse then
                (let lowerBound = (if bytes_Compare endKey (rh_startKey h) > 0 then endKey else rh_startKey h)
                 in raw_ReverseScan rawKV s startKey lowerBound (int (unat limit)))
              else
                (let upperBound = (if length endKey > 0 \<and> (length (rh_endKey h) = 0 \<or> bytes_Compare endKey (rh_endKey h) < 0)
                                   then endKey else rh_endKey h)
                 in raw_Scan rawKV s (or_empty startKey) upperBound (int (unat limit))))
           in map_option RawScanResponse (convertToPbPairs E pairs)))"

section \<open>Handlers that write\<close>

definition handleKvPrewrite ::
  "('db, 'dd) env \<Rightarrow> 's MVCCStore \<Rightarrow> rpcHandler \<Rightarrow> Cluster \<Rightarrow> 's \<Rightarrow> u64 \<Rightarrow> PrewriteRequest \<Rightarrow> (Response \<times> Cluster \<times> 's) option" where
  "handleKvPrewrite E M h c s regionID req =
     (let (slept, c') = handleDelay (pw_StartVersion req) regionID c
      in if \<exists>m\<in>set (pw_Mutations req). \<not> checkKeyInRegion E h (m_Key m) then None
         else do {
           (errs, s') \<leftarrow> mvcc_Prewrite M s req;
           kes \<leftarrow> convertToKeyErrors E errs;
           Some (PrewriteResponse kes, c', s')
         })"

definition handleKvPessimisticLock ::
  "('db, 'dd) env \<Rightarrow> 's MVCCStore \<Rightarrow> rpcHandler \<Rightarrow> Cluster \<Rightarrow> 's \<Rightarrow> u64 \<Rightarrow> PessimisticLockRequest \<Rightarrow> (Response \<times> Cluster \<times> 's) option" where
  "handleKvPessimisticLock E M h c s regionID req =
     (if \<exists>m\<in>set (pl_Mutations req). \<not> checkKeyInRegion E h (m_Key m) then None
      else (let (slept, c') = handleDelay (pl_StartVersion req) regionID c
            in map_option (\<lambda>((kes, values), s'). (PessimisticLockResponse kes values, c', s')) (mvcc_PessimisticLock M s req)))"

text \<open>
  \<open>simulateServerSideWaitLock\<close> sleeps five milliseconds if an error is a lock; the result says whether.
\<close>

definition simulateServerSideWaitLock :: "err option list \<Rightarrow> bool" where
  "simulateServerSideWaitLock errs = (\<exists>e\<in>set errs. isErrLocked e)"

definition handleKvPessimisticRollback ::
  "('db, 'dd) env \<Rightarrow> 's MVCCStore \<Rightarrow> rpcHandler \<Rightarrow> 's \<Rightarrow> bytes list \<Rightarrow> u64 \<Rightarrow> u64 \<Rightarrow> (Response \<times> 's) option" where
  "handleKvPessimisticRollback E M h s keys start forUFIDelateTS' =
     (if \<exists>k\<in>set keys. \<not> checkKeyInRegion E h k then None
      else (let (errs, s') = mvcc_PessimisticRollback M s keys start forUFIDelateTS'
            in map_option (\<lambda>kes. (PessimisticRollbackResponse kes, s')) (convertToKeyErrors E errs)))"

definition handleKvCommit ::
  "('db, 'dd) env \<Rightarrow> 's MVCCStore \<Rightarrow> rpcHandler \<Rightarrow> 's \<Rightarrow> bytes list \<Rightarrow> u64 \<Rightarrow> u64 \<Rightarrow> (Response \<times> 's) option" where
  "handleKvCommit E M h s keys start commit =
     (if \<exists>k\<in>set keys. \<not> checkKeyInRegion E h k then None
      else (let (er, s') = mvcc_Commit M s keys start commit
            in map_option (\<lambda>ke. (CommitResponse ke, s')) (key_error E er)))"

definition handleKvCleanup ::
  "('db, 'dd) env \<Rightarrow> 's MVCCStore \<Rightarrow> rpcHandler \<Rightarrow> 's \<Rightarrow> bytes \<Rightarrow> u64 \<Rightarrow> u64 \<Rightarrow> (Response \<times> 's) option" where
  "handleKvCleanup E M h s key start currentTs =
     (if \<not> checkKeyInRegion E h key then None
      else (let (er, s') = mvcc_Cleanup M s key start currentTs
            in (case er of
                  None \<Rightarrow> Some (CleanupResponse None 0, s')
                | Some (ErrAlreadyCommitted committed) \<Rightarrow> Some (CleanupResponse None committed, s')
                | Some e \<Rightarrow> map_option (\<lambda>ke. (CleanupResponse (Some ke) 0, s')) (convertToKeyError E e))))"

definition handleKvCheckTxnStatus ::
  "('db, 'dd) env \<Rightarrow> 's MVCCStore \<Rightarrow> rpcHandler \<Rightarrow> 's \<Rightarrow> bytes \<Rightarrow> u64 \<Rightarrow> u64 \<Rightarrow> u64 \<Rightarrow> bool \<Rightarrow> (Response \<times> 's) option" where
  "handleKvCheckTxnStatus E M h s primaryKey lockTs callerStartTs currentTs rollbackIfNotExist =
     (if \<not> checkKeyInRegion E h primaryKey then None
      else (let (st, s') = mvcc_CheckTxnStatus M s primaryKey lockTs callerStartTs currentTs rollbackIfNotExist
            in (case ts_err st of
                  Some e \<Rightarrow> map_option (\<lambda>ke. (CheckTxnStatusResponse (Some ke) 0 0 CausetAction_NoCausetAction, s')) (convertToKeyError E e)
                | None \<Rightarrow> Some (CheckTxnStatusResponse None (ts_ttl st) (ts_commitTS st) (ts_action st), s'))))"

definition handleTxnHeartBeat ::
  "('db, 'dd) env \<Rightarrow> 's MVCCStore \<Rightarrow> rpcHandler \<Rightarrow> 's \<Rightarrow> bytes \<Rightarrow> u64 \<Rightarrow> u64 \<Rightarrow> (Response \<times> 's) option" where
  "handleTxnHeartBeat E M h s primaryLock start adviseTTL =
     (if \<not> checkKeyInRegion E h primaryLock then None
      else (let (r, s') = mvcc_TxnHeartBeat M s primaryLock start adviseTTL
            in (case r of
                  Inl e \<Rightarrow> map_option (\<lambda>ke. (TxnHeartBeatResponse (Some ke) 0, s')) (convertToKeyError E e)
                | Inr ttl' \<Rightarrow> Some (TxnHeartBeatResponse None ttl', s'))))"

text \<open>Unlike the others this handler does not check its keys.\<close>

definition handleKvBatchRollback :: "('db, 'dd) env \<Rightarrow> 's MVCCStore \<Rightarrow> 's \<Rightarrow> bytes list \<Rightarrow> u64 \<Rightarrow> (Response \<times> 's) option" where
  "handleKvBatchRollback E M s keys start =
     (let (er, s') = mvcc_Rollback M s keys start
      in map_option (\<lambda>ke. (BatchRollbackResponse ke, s')) (key_error E er))"

definition handleKvResolveLock ::
  "('db, 'dd) env \<Rightarrow> 's MVCCStore \<Rightarrow> rpcHandler \<Rightarrow> 's \<Rightarrow> u64 \<Rightarrow> u64 \<Rightarrow> (Response \<times> 's) option" where
  "handleKvResolveLock E M h s start commit =
     do {
       startKey \<leftarrow> MvccKey_Raw E (rh_startKey h);
       endKey \<leftarrow> MvccKey_Raw E (rh_endKey h);
       (er, s') \<leftarrow> mvcc_ResolveLock M s startKey endKey start commit;
       map_option (\<lambda>ke. (ResolveLockResponse ke, s')) (key_error E er)
     }"

definition handleKvGC :: "('db, 'dd) env \<Rightarrow> 's MVCCStore \<Rightarrow> rpcHandler \<Rightarrow> 's \<Rightarrow> u64 \<Rightarrow> (Response \<times> 's) option" where
  "handleKvGC E M h s safePoint =
     do {
       startKey \<leftarrow> MvccKey_Raw E (rh_startKey h);
       endKey \<leftarrow> MvccKey_Raw E (rh_endKey h);
       (er, s') \<leftarrow> mvcc_GC M s startKey endKey safePoint;
       map_option (\<lambda>ke. (GCResponse ke, s')) (key_error E er)
     }"

definition handleKvDeleteRange ::
  "('db, 'dd) env \<Rightarrow> 's MVCCStore \<Rightarrow> rpcHandler \<Rightarrow> 's \<Rightarrow> bytes \<Rightarrow> bytes \<Rightarrow> (Response \<times> 's) option" where
  "handleKvDeleteRange E M h s startKey endKey =
     (if \<not> checkKeyInRegion E h startKey then None
      else (let (er, s') = mvcc_DeleteRange M s startKey endKey in Some (DeleteRangeResponse er, s')))"

definition handleKvRawPut :: "'s MVCCStore \<Rightarrow> 's \<Rightarrow> bytes \<Rightarrow> bytes option \<Rightarrow> Response \<times> 's" where
  "handleKvRawPut M s key val =
     (case as_RawKV M of
        None \<Rightarrow> (RawPutResponse ''not implemented'', s)
      | Some rawKV \<Rightarrow> (RawPutResponse '''', raw_Put rawKV s key val))"

definition handleKvRawBatchPut :: "'s MVCCStore \<Rightarrow> 's \<Rightarrow> (bytes \<times> bytes option) list \<Rightarrow> (Response \<times> 's) option" where
  "handleKvRawBatchPut M s pairs =
     (case as_RawKV M of
        None \<Rightarrow> Some (RawBatchPutResponse ''not implemented'', s)
      | Some rawKV \<Rightarrow> map_option (Pair (RawBatchPutResponse '''')) (raw_BatchPut rawKV s (map fst pairs) (map snd pairs)))"

definition handleKvRawDelete :: "'s MVCCStore \<Rightarrow> 's \<Rightarrow> bytes \<Rightarrow> Response \<times> 's" where
  "handleKvRawDelete M s key =
     (case as_RawKV M of
        None \<Rightarrow> (RawDeleteResponse ''not implemented'', s)
      | Some rawKV \<Rightarrow> (RawDeleteResponse '''', raw_Delete rawKV s key))"

definition handleKvRawBatchDelete :: "'s MVCCStore \<Rightarrow> 's \<Rightarrow> bytes list \<Rightarrow> Response \<times> 's" where
  "handleKvRawBatchDelete M s keys =
     (case as_RawKV M of
        None \<Rightarrow> (RawBatchDeleteResponse ''not implemented'', s)
      | Some rawKV \<Rightarrow> (RawBatchDeleteResponse '''', raw_BatchDelete rawKV s keys))"

definition handleKvRawDeleteRange :: "'s MVCCStore \<Rightarrow> 's \<Rightarrow> bytes option \<Rightarrow> bytes option \<Rightarrow> Response \<times> 's" where
  "handleKvRawDeleteRange M s startKey endKey =
     (case as_RawKV M of
        None \<Rightarrow> (RawDeleteRangeResponse ''not implemented'', s)
      | Some rawKV \<Rightarrow> (RawDeleteRangeResponse '''', raw_DeleteRange rawKV s startKey endKey))"

section \<open>Splitting regions on request\<close>

text \<open>
  The loop of \<open>handleSplitRegion\<close>: it compares the start key of the region, which is encoded, with the key
  of the request, which is not. A key in no region panics unless it is empty.
\<close>

fun handleSplitRegion_loop ::
  "('db, 'dd) env \<Rightarrow> orders \<Rightarrow> nat \<Rightarrow> bytes list \<Rightarrow> RegionMeta list \<Rightarrow> Cluster \<Rightarrow> (RegionMeta list \<times> Cluster) option" where
  "handleSplitRegion_loop E o' i [] regs c = Some (regs, c)"
| "handleSplitRegion_loop E o' i (key # keys) regs c =
     (let k = NewMvccKey E key
      in (case fst (GetRegionByKey (ord_regions o' i (regions c)) k c) of
            None \<Rightarrow> (if key = [] then handleSplitRegion_loop E o' (Suc i) keys regs c else None)
          | Some region \<Rightarrow>
              if Region_StartKey region = key then handleSplitRegion_loop E o' (Suc i) keys regs c
              else (let regs1 = (if i = 0 then regs @ [region] else regs);
                        (newRegionID, c1) = AllocID c;
                        (newPeerIDs, c2) = AllocIDs (int (length (Region_Peers region))) c1
                    in if newPeerIDs = [] then None
                       else do {
                         (new, c3) \<leftarrow> SplitRaw (Region_Id region) newRegionID k newPeerIDs (newPeerIDs ! 0) c2;
                         handleSplitRegion_loop E o' (Suc i) keys (regs1 @ [new]) c3
                       })))"

definition handleSplitRegion ::
  "('db, 'dd) env \<Rightarrow> orders \<Rightarrow> bytes list \<Rightarrow> Cluster \<Rightarrow> (Response \<times> Cluster) option" where
  "handleSplitRegion E o' keys c =
     map_option (\<lambda>(regs, c'). (SplitRegionResponse regs, c')) (handleSplitRegion_loop E o' 0 keys [] c)"

section \<open>The client\<close>

definition client_getAndCheckStoreByAddr :: "orders \<Rightarrow> string \<Rightarrow> Cluster \<Rightarrow> err + StoreMeta" where
  "client_getAndCheckStoreByAddr o' addr c =
     (case GetAndCheckStoreByAddr (ord_stores o') addr c of
        Inl e \<Rightarrow> Inl e
      | Inr None \<Rightarrow> Inl (Err_New ''connect fail'')
      | Inr (Some st) \<Rightarrow>
          if Store_State st = StoreState_Offline \<or> Store_State st = StoreState_Tombstone
          then Inl (Err_New ''connection refused'') else Inr st)"

text \<open>\<open>ctxErr\<close> is the error of a context that is done. A new handler has the zero values but for its store.\<close>

definition checkArgs :: "orders \<Rightarrow> err option \<Rightarrow> string \<Rightarrow> Cluster \<Rightarrow> err + rpcHandler" where
  "checkArgs o' ctxErr addr c =
     (case ctxErr of
        Some e \<Rightarrow> Inl e
      | None \<Rightarrow>
          (case client_getAndCheckStoreByAddr o' addr c of
             Inl e \<Rightarrow> Inl e
           | Inr st \<Rightarrow> Inr \<lparr>rh_storeID = Store_Id st, rh_startKey = [], rh_endKey = [],
                            rh_isolationLevel = IsolationLevel_SI, rh_resolvedLocks = []\<rparr>))"

text \<open>The failpoints of the tests and what they are set to.\<close>

record failpoints =
  fp_rpcServerBusy :: bool
  fp_rpcPrewriteResult :: "string option"
  fp_rpcCommitResult :: "string option"
  fp_rpcCommitTimeout :: bool

definition no_failpoints :: failpoints where
  "no_failpoints = \<lparr>fp_rpcServerBusy = False, fp_rpcPrewriteResult = None, fp_rpcCommitResult = None, fp_rpcCommitTimeout = False\<rparr>"

definition undeterminedErr :: err where
  "undeterminedErr = Err_External ''ErrResultUndetermined''"

type_synonym 's outcome = "((err + Response) \<times> Cluster \<times> 's) option"

text \<open>The three shapes of a case of \<open>SendRequest\<close>: a read, a write to the store, the check before either.\<close>

definition reads :: "Cluster \<Rightarrow> 's \<Rightarrow> Response option \<Rightarrow> 's outcome" where
  "reads c s r = map_option (\<lambda>resp. (Inr resp, c, s)) r"

definition writes :: "Cluster \<Rightarrow> (Response \<times> 's) option \<Rightarrow> 's outcome" where
  "writes c r = map_option (\<lambda>(resp, s'). (Inr resp, c, s')) r"

definition checked :: "orders \<Rightarrow> rpcHandler \<Rightarrow> Context \<Rightarrow> int \<Rightarrow> Cluster \<Rightarrow> 's \<Rightarrow> (rpcHandler \<Rightarrow> 's outcome) \<Rightarrow> 's outcome" where
  "checked o' h ctx sz c s k =
     (case checkRequest o' c h ctx sz of Inl e \<Rightarrow> Some (Inr (Resp_RegionError e), c, s) | Inr h' \<Rightarrow> k h')"

definition notLeaderError :: ErrorPb where
  "notLeaderError = \<lparr>Message = '''', detail = NotLeader 0 None\<rparr>"

text \<open>The case of a commit: a failpoint can answer for it, or hide the answer once it is done.\<close>

definition send_commit :: "failpoints \<Rightarrow> Cluster \<Rightarrow> 's \<Rightarrow> 's outcome \<Rightarrow> 's outcome" where
  "send_commit fp c s run =
     (if fp_rpcCommitResult fp = Some ''timeout'' then Some (Inl (Err_New ''timeout''), c, s)
      else if fp_rpcCommitResult fp = Some ''notLeader'' then Some (Inr (Resp_RegionError notLeaderError), c, s)
      else if fp_rpcCommitResult fp = Some ''keyError'' then Some (Inr (CommitResponse (Some (KE_Abort (Err_New '''')))), c, s)
      else (case run of
              None \<Rightarrow> None
            | Some (Inr (Resp_RegionError e), c', s') \<Rightarrow> Some (Inr (Resp_RegionError e), c', s')
            | Some (r, c', s') \<Rightarrow> Some (if fp_rpcCommitTimeout fp then Inl undeterminedErr else r, c', s')))"

text \<open>
  \<open>DebugGetRegionProperties\<close> scans with the handler as it was made, without a check, and panics on a
  region that does not exist.
\<close>

definition send_region_properties ::
  "('db, 'dd) env \<Rightarrow> 's MVCCStore \<Rightarrow> rpcHandler \<Rightarrow> Cluster \<Rightarrow> 's \<Rightarrow> u64 \<Rightarrow> Response option" where
  "send_region_properties E M h c s regionID =
     do {
       region \<leftarrow> fst (GetRegion regionID c);
       startKey \<leftarrow> MvccKey_Raw E (Region_StartKey region);
       endKey \<leftarrow> MvccKey_Raw E (Region_EndKey region);
       scanResp \<leftarrow> handleKvScan E M h s startKey endKey 4294967295 (-1) False [];
       (case scanResp of
          ScanResponse pairs \<Rightarrow> Some (GetRegionPropertiesResponse ''mvsr-ooc.num_rows'' (decimal (length pairs)))
        | _ \<Rightarrow> None)
     }"

text \<open>
  The switch of \<open>SendRequest\<close>. \<open>Size\<close> is the size the generated code computes for a request. The case of
  \<open>RawBatchDelete\<close> has no return after its check: the request is carried out and its answer replaces the
  region error.
\<close>

primrec dispatch ::
  "('db, 'dd) env \<Rightarrow> 's MVCCStore \<Rightarrow> orders \<Rightarrow> failpoints \<Rightarrow> (Request \<Rightarrow> int) \<Rightarrow> rpcHandler \<Rightarrow> Context \<Rightarrow> Cluster \<Rightarrow> 's \<Rightarrow> Request \<Rightarrow> 's outcome" where
  "dispatch E M o' fp sz h ctx c s (CmdGet key v rl) =
     checked o' h ctx (sz (CmdGet key v rl)) c s (\<lambda>h. reads c s (handleKvGet E M h s key v rl))"
| "dispatch E M o' fp sz h ctx c s (CmdScan sk ek l v rev' rl) =
     checked o' h ctx (sz (CmdScan sk ek l v rev' rl)) c s (\<lambda>h. reads c s (handleKvScan E M h s sk ek l v rev' rl))"
| "dispatch E M o' fp sz h ctx c s (CmdPrewrite rid req) =
     (if fp_rpcPrewriteResult fp = Some ''notLeader'' then Some (Inr (Resp_RegionError notLeaderError), c, s)
      else checked o' h ctx (sz (CmdPrewrite rid req)) c s
             (\<lambda>h. map_option (apfst Inr) (handleKvPrewrite E M h c s rid req)))"
| "dispatch E M o' fp sz h ctx c s (CmdPessimisticLock rid req) =
     checked o' h ctx (sz (CmdPessimisticLock rid req)) c s
       (\<lambda>h. map_option (apfst Inr) (handleKvPessimisticLock E M h c s rid req))"
| "dispatch E M o' fp sz h ctx c s (CmdPessimisticRollback ks st f) =
     checked o' h ctx (sz (CmdPessimisticRollback ks st f)) c s (\<lambda>h. writes c (handleKvPessimisticRollback E M h s ks st f))"
| "dispatch E M o' fp sz h ctx c s (CmdCommit ks st cm) =
     send_commit fp c s (checked o' h ctx (sz (CmdCommit ks st cm)) c s (\<lambda>h. writes c (handleKvCommit E M h s ks st cm)))"
| "dispatch E M o' fp sz h ctx c s (CmdCleanup k st cu) =
     checked o' h ctx (sz (CmdCleanup k st cu)) c s (\<lambda>h. writes c (handleKvCleanup E M h s k st cu))"
| "dispatch E M o' fp sz h ctx c s (CmdCheckTxnStatus k l ca cu rb) =
     checked o' h ctx (sz (CmdCheckTxnStatus k l ca cu rb)) c s (\<lambda>h. writes c (handleKvCheckTxnStatus E M h s k l ca cu rb))"
| "dispatch E M o' fp sz h ctx c s (CmdTxnHeartBeat k st t) =
     checked o' h ctx (sz (CmdTxnHeartBeat k st t)) c s (\<lambda>h. writes c (handleTxnHeartBeat E M h s k st t))"
| "dispatch E M o' fp sz h ctx c s (CmdBatchGet ks v rl) =
     checked o' h ctx (sz (CmdBatchGet ks v rl)) c s (\<lambda>h. reads c s (handleKvBatchGet E M h s ks v rl))"
| "dispatch E M o' fp sz h ctx c s (CmdBatchRollback ks st) =
     checked o' h ctx (sz (CmdBatchRollback ks st)) c s (\<lambda>h. writes c (handleKvBatchRollback E M s ks st))"
| "dispatch E M o' fp sz h ctx c s (CmdScanLock mx) =
     checked o' h ctx (sz (CmdScanLock mx)) c s (\<lambda>h. reads c s (handleKvScanLock E M h s mx))"
| "dispatch E M o' fp sz h ctx c s (CmdResolveLock st cm) =
     checked o' h ctx (sz (CmdResolveLock st cm)) c s (\<lambda>h. writes c (handleKvResolveLock E M h s st cm))"
| "dispatch E M o' fp sz h ctx c s (CmdGC sp) =
     checked o' h ctx (sz (CmdGC sp)) c s (\<lambda>h. writes c (handleKvGC E M h s sp))"
| "dispatch E M o' fp sz h ctx c s (CmdDeleteRange sk ek) =
     checked o' h ctx (sz (CmdDeleteRange sk ek)) c s (\<lambda>h. writes c (handleKvDeleteRange E M h s sk ek))"
| "dispatch E M o' fp sz h ctx c s (CmdRawGet k) =
     checked o' h ctx (sz (CmdRawGet k)) c s (\<lambda>h. reads c s (Some (handleKvRawGet M s k)))"
| "dispatch E M o' fp sz h ctx c s (CmdRawBatchGet ks) =
     checked o' h ctx (sz (CmdRawBatchGet ks)) c s (\<lambda>h. reads c s (handleKvRawBatchGet M s ks))"
| "dispatch E M o' fp sz h ctx c s (CmdRawPut k v) =
     checked o' h ctx (sz (CmdRawPut k v)) c s (\<lambda>h. writes c (Some (handleKvRawPut M s k v)))"
| "dispatch E M o' fp sz h ctx c s (CmdRawBatchPut ps) =
     checked o' h ctx (sz (CmdRawBatchPut ps)) c s (\<lambda>h. writes c (handleKvRawBatchPut M s ps))"
| "dispatch E M o' fp sz h ctx c s (CmdRawDelete k) =
     checked o' h ctx (sz (CmdRawDelete k)) c s (\<lambda>h. writes c (Some (handleKvRawDelete M s k)))"
| "dispatch E M o' fp sz h ctx c s (CmdRawBatchDelete ks) = writes c (Some (handleKvRawBatchDelete M s ks))"
| "dispatch E M o' fp sz h ctx c s (CmdRawDeleteRange sk ek) =
     checked o' h ctx (sz (CmdRawDeleteRange sk ek)) c s (\<lambda>h. writes c (Some (handleKvRawDeleteRange M s sk ek)))"
| "dispatch E M o' fp sz h ctx c s (CmdRawScan sk ek l rev') =
     checked o' h ctx (sz (CmdRawScan sk ek l rev')) c s (\<lambda>h. reads c s (handleKvRawScan E M h s sk ek l rev'))"
| "dispatch E M o' fp sz h ctx c s CmdUnsafeDestroyRange = None"
| "dispatch E M o' fp sz h ctx c s CmdRegisterLockObserver = Some (Inl (Err_New ''unimplemented''), c, s)"
| "dispatch E M o' fp sz h ctx c s CmdCheckLockObserver = Some (Inl (Err_New ''unimplemented''), c, s)"
| "dispatch E M o' fp sz h ctx c s CmdRemoveLockObserver = Some (Inl (Err_New ''unimplemented''), c, s)"
| "dispatch E M o' fp sz h ctx c s CmdPhysicalScanLock = Some (Inl (Err_New ''unimplemented''), c, s)"
| "dispatch E M o' fp sz h ctx c s (CmdMvccGetByKey k) =
     checked o' h ctx (sz (CmdMvccGetByKey k)) c s (\<lambda>h. reads c s (handleMvccGetByKey E M h s k))"
| "dispatch E M o' fp sz h ctx c s (CmdMvccGetByStartTs st) =
     checked o' h ctx (sz (CmdMvccGetByStartTs st)) c s (\<lambda>h. reads c s (handleMvccGetByStartTS M s st))"
| "dispatch E M o' fp sz h ctx c s (CmdSplitRegion ks) =
     checked o' h ctx (sz (CmdSplitRegion ks)) c s
       (\<lambda>h. map_option (\<lambda>(resp, c'). (Inr resp, c', s)) (handleSplitRegion E o' ks c))"
| "dispatch E M o' fp sz h ctx c s (CmdDebugGetRegionProperties rid) =
     reads c s (send_region_properties E M h c s rid)"
| "dispatch E M o' fp sz h ctx c s (CmdOther n) = Some (Inl (Err_New ''unsupported this request type''), c, s)"

text \<open>
  \<open>SendRequest\<close>. A request for a store of type MilevaDB goes to another server, the argument \<open>redirect\<close>.
\<close>

definition SendRequest ::
  "('db, 'dd) env \<Rightarrow> 's MVCCStore \<Rightarrow> orders \<Rightarrow> failpoints \<Rightarrow> (Request \<Rightarrow> int) \<Rightarrow> (string \<Rightarrow> Request \<Rightarrow> err + Response) option \<Rightarrow>
     err option \<Rightarrow> string \<Rightarrow> bool \<Rightarrow> Context \<Rightarrow> Request \<Rightarrow> Cluster \<Rightarrow> 's \<Rightarrow> 's outcome" where
  "SendRequest E M o' fp sz redirect ctxErr addr toMilevaDB ctx req c s =
     (if fp_rpcServerBusy fp then Some (Inr (Resp_RegionError \<lparr>Message = '''', detail = ServerIsBusy\<rparr>), c, s)
      else if toMilevaDB then
        Some (case redirect of None \<Rightarrow> Inl (Err_New ''GRPCClientFactory is nil'') | Some send \<Rightarrow> send addr req, c, s)
      else (case checkArgs o' ctxErr addr c of
              Inl e \<Rightarrow> Some (Inl e, c, s)
            | Inr h \<Rightarrow> dispatch E M o' fp sz h ctx c s req))"

end
