(* ===== verification/Rpc_Theorems.thy ===== *)
theory Rpc_Theorems
  imports Rpc Cluster_Split
begin

text \<open>
  Theorems on the request handlers and the client: which requests a store serves, what a refused or failed
  request leaves behind, and how locating a region, committing and reading fit together.
\<close>

section \<open>The check of a request\<close>

lemma last_peer_append: "fold (\<lambda>p acc. if P p then Some p else acc) ps a =
    (if \<exists>p\<in>set ps. P p then Some (last (filter P ps)) else a)"
  by (induction ps arbitrary: a) (auto simp: filter_empty_conv)

lemma last_peer_eq: "last_peer P ps = (if \<exists>p\<in>set ps. P p then Some (last (filter P ps)) else None)"
  by (simp add: last_peer_def last_peer_append)

lemma last_peer_mem:
  assumes "last_peer P ps = Some p"
  shows "p \<in> set ps \<and> P p"
proof -
  have "filter P ps \<noteq> []" and "p = last (filter P ps)"
    using assms by (auto simp: last_peer_eq filter_empty_conv split: if_splits)
  then have "p \<in> set (filter P ps)"
    using last_in_set by metis
  then show ?thesis
    by simp
qed

lemma last_peer_None: "last_peer P ps = None \<longleftrightarrow> (\<forall>p\<in>set ps. \<not> P p)"
  by (simp add: last_peer_eq)

text \<open>
  A store may serve a context: the region exists, has a peer on the store that is its leader or belongs to a
  TiFlash store, the leader is among the peers, and the epochs agree.
\<close>

definition may_serve :: "Cluster \<Rightarrow> u64 \<Rightarrow> Context \<Rightarrow> RegionMeta \<Rightarrow> bool" where
  "may_serve c st ctx region =
     (\<exists>leaderID. GetRegion (ctx_RegionId ctx) c = (Some region, leaderID) \<and>
        (\<forall>p. ctx_Peer ctx = Some p \<longrightarrow> Peer_StoreId p = st) \<and>
        (\<exists>sp\<in>set (Region_Peers region). Peer_StoreId sp = st \<and> (Peer_Id sp = leaderID \<or> isTiFlashStore (GetStore st c))) \<and>
        (\<exists>lp\<in>set (Region_Peers region). Peer_Id lp = leaderID) \<and>
        Region_Epoch region = ctx_RegionEpoch ctx)"

definition in_region :: "RegionMeta \<Rightarrow> Context \<Rightarrow> rpcHandler \<Rightarrow> rpcHandler" where
  "in_region region ctx h = h\<lparr>rh_startKey := Region_StartKey region, rh_endKey := Region_EndKey region,
     rh_isolationLevel := ctx_IsolationLevel ctx, rh_resolvedLocks := ctx_ResolvedLocks ctx\<rparr>"

lemma checkRequestContext_serves:
  assumes "checkRequestContext o' c h ctx = Inr h'"
  shows "\<exists>region. may_serve c (rh_storeID h) ctx region \<and> h' = in_region region ctx h"
proof -
  obtain region leaderID where r: "GetRegion (ctx_RegionId ctx) c = (Some region, leaderID)"
    using assms by (auto simp: checkRequestContext_def Let_def split: if_splits prod.splits option.splits)
  let ?P = "\<lambda>p. Peer_StoreId p = rh_storeID h" and ?Q = "\<lambda>p. Peer_Id p = leaderID"
  obtain sp lp where sp: "last_peer ?P (Region_Peers region) = Some sp" and lp: "last_peer ?Q (Region_Peers region) = Some lp"
    using assms r by (auto simp: checkRequestContext_def Let_def split: if_splits option.splits)
  have "\<not> (\<exists>p. ctx_Peer ctx = Some p \<and> Peer_StoreId p \<noteq> rh_storeID h)"
    and "Peer_Id sp = Peer_Id lp \<or> isTiFlashStore (GetStore (Peer_StoreId sp) c)"
    and "Region_Epoch region = ctx_RegionEpoch ctx" and "h' = in_region region ctx h"
    using assms r sp lp by (auto simp: checkRequestContext_def Let_def in_region_def split: if_splits option.splits)
  then show ?thesis
    using r last_peer_mem [OF sp] last_peer_mem [OF lp] by (auto simp: may_serve_def)
qed

lemma same_peer:
  assumes "distinct (map f ps)" and "p \<in> set ps" and "q \<in> set ps" and "f p = f q"
  shows "p = q"
  using assms by (metis distinct_map inj_onD)

lemma checkRequestContext_served:
  assumes "may_serve c (rh_storeID h) ctx region" and d: "distinct (map Peer_StoreId (Region_Peers region))"
  shows "checkRequestContext o' c h ctx = Inr (in_region region ctx h)"
proof -
  obtain leaderID where r: "GetRegion (ctx_RegionId ctx) c = (Some region, leaderID)"
    and peer: "\<forall>p. ctx_Peer ctx = Some p \<longrightarrow> Peer_StoreId p = rh_storeID h"
    and sp: "\<exists>sp\<in>set (Region_Peers region). Peer_StoreId sp = rh_storeID h \<and> (Peer_Id sp = leaderID \<or> isTiFlashStore (GetStore (rh_storeID h) c))"
    and lp: "\<exists>lp\<in>set (Region_Peers region). Peer_Id lp = leaderID"
    and ep: "Region_Epoch region = ctx_RegionEpoch ctx"
    using assms(1) by (auto simp: may_serve_def)
  let ?P = "\<lambda>p. Peer_StoreId p = rh_storeID h" and ?Q = "\<lambda>p. Peer_Id p = leaderID"
  obtain s where s: "last_peer ?P (Region_Peers region) = Some s"
    using sp last_peer_None [of ?P "Region_Peers region"] by (cases "last_peer ?P (Region_Peers region)") auto
  obtain l where l: "last_peer ?Q (Region_Peers region) = Some l"
    using lp last_peer_None [of ?Q "Region_Peers region"] by (cases "last_peer ?Q (Region_Peers region)") auto
  have "Peer_Id s = leaderID \<or> isTiFlashStore (GetStore (rh_storeID h) c)"
    using sp last_peer_mem [OF s] same_peer [OF d] by metis
  then have "Peer_Id s = Peer_Id l \<or> isTiFlashStore (GetStore (Peer_StoreId s) c)"
    using last_peer_mem [OF s] last_peer_mem [OF l] by simp
  moreover have "\<not> (\<exists>p. ctx_Peer ctx = Some p \<and> Peer_StoreId p \<noteq> rh_storeID h)"
    using peer by blast
  ultimately show ?thesis
    using r s l ep by (auto simp: checkRequestContext_def Let_def in_region_def)
qed

text \<open>
  With at most one peer of a region per store, a store accepts the context of a request exactly when it
  may serve it, and the handler then works on the range of that region.
\<close>

theorem checkRequestContext_exact:
  assumes "\<forall>region. fst (GetRegion (ctx_RegionId ctx) c) = Some region \<longrightarrow> distinct (map Peer_StoreId (Region_Peers region))"
  shows "checkRequestContext o' c h ctx = Inr h' \<longleftrightarrow>
     (\<exists>region. may_serve c (rh_storeID h) ctx region \<and> h' = in_region region ctx h)"
proof
  assume "\<exists>region. may_serve c (rh_storeID h) ctx region \<and> h' = in_region region ctx h"
  then obtain region where region: "may_serve c (rh_storeID h) ctx region" and h': "h' = in_region region ctx h"
    by blast
  then have "fst (GetRegion (ctx_RegionId ctx) c) = Some region"
    by (auto simp: may_serve_def)
  then have "distinct (map Peer_StoreId (Region_Peers region))"
    using assms by blast
  then show "checkRequestContext o' c h ctx = Inr h'"
    unfolding h' by (rule checkRequestContext_served [OF region])
qed (rule checkRequestContext_serves)

text \<open>The context a client makes for a region it has located, and a handler on the store of a peer.\<close>

definition located :: "RegionMeta \<Rightarrow> Peer \<Rightarrow> Context" where
  "located region p = \<lparr>ctx_RegionId = Region_Id region, ctx_RegionEpoch = Region_Epoch region, ctx_Peer = Some p,
     ctx_IsolationLevel = IsolationLevel_SI, ctx_ResolvedLocks = []\<rparr>"

definition new_handler :: "u64 \<Rightarrow> rpcHandler" where
  "new_handler st = \<lparr>rh_storeID = st, rh_startKey = [], rh_endKey = [], rh_isolationLevel = IsolationLevel_SI, rh_resolvedLocks = []\<rparr>"

definition ex_orders :: orders where
  "ex_orders = \<lparr>ord_stores = [1], ord_regions = (\<lambda>n m. [3])\<rparr>"

theorem checkRequestContext_exact_witness:
  "checkRequestContext ex_orders ex_cluster (new_handler 1) (located (Meta ex_region) (newPeerMeta 2 1)) =
     Inr (in_region (Meta ex_region) (located (Meta ex_region) (newPeerMeta 2 1)) (new_handler 1)) \<and>
   isl (checkRequestContext ex_orders ex_cluster (new_handler 1)
     ((located (Meta ex_region) (newPeerMeta 2 1))\<lparr>ctx_RegionEpoch := Some \<lparr>ConfVer = 1, Version = 1\<rparr>\<rparr>))"
proof -
  let ?ctx = "located (Meta ex_region) (newPeerMeta 2 1)"
  let ?old = "?ctx\<lparr>ctx_RegionEpoch := Some \<lparr>ConfVer = 1, Version = 1\<rparr>\<rparr>"
  note defs = located_def may_serve_def GetRegion_def ex_cluster_def ex_region_def newPeerMeta_def new_handler_def
  have "checkRequestContext ex_orders ex_cluster (new_handler 1) ?ctx = Inr (in_region (Meta ex_region) ?ctx (new_handler 1))"
    by (subst checkRequestContext_exact) (simp_all add: defs)
  moreover have "checkRequestContext ex_orders ex_cluster (new_handler 1) ?old \<noteq> Inr h'" for h'
    by (subst checkRequestContext_exact) (simp_all add: defs)
  ultimately show ?thesis
    by (metis sum.collapse(2))
qed

section \<open>Requests a store does not serve\<close>

text \<open>The requests that are answered without a check, or whatever it says.\<close>

fun unguarded :: "Request \<Rightarrow> bool" where
  "unguarded (CmdRawBatchDelete ks) = True"
| "unguarded CmdUnsafeDestroyRange = True"
| "unguarded (CmdDebugGetRegionProperties rid) = True"
| "unguarded req = False"

fun refuses :: "err + Response \<Rightarrow> bool" where
  "refuses (Inr (Resp_RegionError e)) = True"
| "refuses (Inl e) = True"
| "refuses r = False"

lemma checkRequest_cases:
  "checkRequest o' c h ctx sz =
    (case checkRequestContext o' c h ctx of
       Inl e \<Rightarrow> Inl e
     | Inr h' \<Rightarrow> if sz \<ge> requestMaxSize then Inl \<lparr>Message = '''', detail = RaftEntryTooLarge\<rparr> else Inr h')"
  by (simp add: checkRequest_def checkRequestSize_def split: sum.splits)

lemma checked_refused:
  assumes "checkRequest o' c h ctx sz = Inl e"
  shows "checked o' h ctx sz c s k = Some (Inr (Resp_RegionError e), c, s)"
  using assms by (simp add: checked_def)

lemma dispatch_refused:
  assumes "checkRequest o' c h ctx (sz req) = Inl e" and "\<not> unguarded req"
  shows "\<exists>r. dispatch E M o' no_failpoints sz h ctx c s req = Some (r, c, s) \<and> refuses r"
  using assms by (cases req) (simp_all add: checked_refused send_commit_def no_failpoints_def)

lemma not_served:
  assumes "\<nexists>region. may_serve c (rh_storeID h) ctx region"
  shows "\<exists>e. checkRequest o' c h ctx sz = Inl e"
  using assms checkRequestContext_serves [of o' c h ctx]
  by (cases "checkRequestContext o' c h ctx") (auto simp: checkRequest_def)


lemma ex_refused:
  "\<forall>h. checkArgs ex_orders None ''s'' ex_cluster = Inr h \<longrightarrow>
      (\<nexists>region. may_serve ex_cluster (rh_storeID h) (located (Meta ex_region) (newPeerMeta 9 4)) region) \<or> requestMaxSize \<le> 20"
  "\<exists>h. checkArgs ex_orders None ''s'' ex_cluster = Inr h"
  by (simp_all add: checkArgs_def client_getAndCheckStoreByAddr_def GetAndCheckStoreByAddr_def values_in_def map_filter_def
      ex_orders_def ex_cluster_def newStore_def may_serve_def located_def newPeerMeta_def)


section \<open>Locating a region, committing and reading\<close>

lemma regionContains_key: "checkKeyInRegion E (in_region (Meta r) ctx h) key = region_contains (NewMvccKey E key) r"
  by (simp add: checkKeyInRegion_def in_region_def region_contains_def)

lemma region_where_mem:
  assumes "region_where ord p c = (Some m, lp)"
  obtains i r where "regions c i = Some r" and "p r" and "m = Meta r" and "lp = leaderPeer r"
proof -
  obtain r where r: "find p (values_in ord (regions c)) = Some r" and m: "m = Meta r" "lp = leaderPeer r"
    using assms by (auto simp: region_where_def split: option.splits)
  have "r \<in> set (values_in ord (regions c)) \<and> p r"
    using r by (auto simp: find_Some_iff)
  then show ?thesis
    using m that by (auto simp: set_values_in)
qed

text \<open>A request for a key that goes to the leader of the region the look-up finds passes the check.\<close>

lemma located_served:
  assumes t: "tiled c" and l: "GetRegionByKey ord (NewMvccKey E key) c = (Some region, Some p)"
    and d: "distinct (map Peer_StoreId (Region_Peers region))" and h: "rh_storeID h = Peer_StoreId p" and sz: "n < requestMaxSize"
  shows "checkRequest o' c h (located region p) n = Inr (in_region region (located region p) h) \<and>
    checkKeyInRegion E (in_region region (located region p) h) key"
proof -
  obtain i r where r: "regions c i = Some r" "region_contains (NewMvccKey E key) r" "region = Meta r" "Some p = leaderPeer r"
    using region_where_mem [OF l [unfolded GetRegionByKey_def]] by blast
  have i: "Region_Id region = i"
    using tiled_ok [OF t r(1)] r(3) by simp
  have p: "p \<in> set (Region_Peers region)" "Peer_Id p = leader r"
    using r(3) r(4) [symmetric] by (auto simp: leaderPeer_def find_Some_iff)
  have "may_serve c (rh_storeID h) (located region p) region"
    using r i p h by (auto simp: may_serve_def located_def GetRegion_def)
  then have "checkRequestContext o' c h (located region p) = Inr (in_region region (located region p) h)"
    by (rule checkRequestContext_served [OF _ d])
  then show ?thesis
    using sz r(2,3) by (simp add: checkRequest_cases regionContains_key)
qed

lemma SendRequest_served:
  assumes "checkArgs o' None addr c = Inr h" and "checkRequest o' c h ctx (sz req) = Inr h'"
  shows "SendRequest E M o' no_failpoints sz redirect None addr False ctx req c s = dispatch E M o' no_failpoints sz h ctx c s req"
  using assms by (simp add: SendRequest_def no_failpoints_def)

lemma Commit_succeeds:
  assumes "store_env E" and "abs_rel E (EDB s) a" and "commit \<noteq> lockVer"
    and "\<forall>k\<in>set ks. \<exists>l. locked_by a k start = Some l \<and> minCommitTS l \<le> commit"
  obtains s' where "Commit E s ks start commit = (None, s')"
proof -
  have "\<exists>ops. a_collect (\<lambda>k. a_commitKey a k start commit) ks = Inr ops"
    using assms(4) a_collect_Inl_iff [of "\<lambda>k. a_commitKey a k start commit" ks]
    by (cases "a_collect (\<lambda>k. a_commitKey a k start commit) ks") (auto simp: a_commitKey_def split: if_splits)
  then have "fst (a_commit a ks start commit) = None"
    by (auto simp: a_commit_def)
  then show ?thesis
    using store_env.Commit_refines [OF assms(1-3), of ks start] that by metis
qed

text \<open>
  C7. Commit and read through the client: in a cluster whose regions tile the keys, look up the region of a
  key, whose peers are on different stores, and send its leader's store a commit of a transaction that holds the
  key's lock, with a commit timestamp later than every version of the key. The request is accepted. If the lock
  demands a later commit timestamp, the answer is the error that says so and the engine is as before. Else the
  commit succeeds, and a read sent the same way at the commit timestamp or later, answered by the store the
  commit left, returns the committed value: the lock's for a put, nothing for a deletion, and the value from
  before for a lock without data. Neither request changes the cluster.
\<close>

theorem commit_then_get_through_the_client:
  assumes E: "store_env E" and a: "abs_rel E (EDB s) a" and t: "tiled c"
    and loc: "GetRegionByKey ord (NewMvccKey E key) c = (Some region, Some p)"
    and d: "distinct (map Peer_StoreId (Region_Peers region))"
    and st: "client_getAndCheckStoreByAddr o' addr c = Inr st" "Store_Id st = Peer_StoreId p"
    and sz: "sz (CmdCommit [key] start commit) < requestMaxSize" "sz (CmdGet key ts rl) < requestMaxSize"
    and lock: "a_lock a key = Some l" "startTS l = start"
    and ts: "commit \<noteq> lockVer" "\<forall>v\<in>set (a_writes a key). commitTS v < commit" "commit \<le> ts"
  shows "\<exists>s1. if commit < minCommitTS l
    then SendRequest E (leveldb_store E) o' no_failpoints sz redirect None addr False (located region p)
        (CmdCommit [key] start commit) c s = Some (Inr (CommitResponse (Some (KE_CommitTsExpired start commit key (minCommitTS l)))), c, s1) \<and>
      EDB s1 = EDB s
    else SendRequest E (leveldb_store E) o' no_failpoints sz redirect None addr False (located region p)
        (CmdCommit [key] start commit) c s = Some (Inr (CommitResponse None), c, s1) \<and>
      SendRequest E (leveldb_store E) o' no_failpoints sz redirect None addr False (located region p)
        (CmdGet key ts rl) c s1 =
          Some (Inr (GetResponse None (if l_op l = Op_Put then Some (l_value l) else if l_op l = Op_Lock then a_read ts (a_writes a key) else None)), c, s1)"
proof -
  let ?h = "new_handler (Peer_StoreId p)"
  have h: "checkArgs o' None addr c = Inr ?h"
    using st by (simp add: checkArgs_def new_handler_def)
  have served: "checkRequest o' c ?h (located region p) n = Inr (in_region region (located region p) ?h) \<and>
      checkKeyInRegion E (in_region region (located region p) ?h) key" if "n < requestMaxSize" for n
    by (rule located_served [OF t loc d _ that]) (simp add: new_handler_def)
  have commit: "SendRequest E (leveldb_store E) o' no_failpoints sz redirect None addr False (located region p) (CmdCommit [key] start commit) c s =
      Some (Inr (CommitResponse ke), c, s1)" if "Commit E s [key] start commit = (er, s1)" "key_error E er = Some ke" for er ke s1
  proof -
    have "dispatch E (leveldb_store E) o' no_failpoints sz ?h (located region p) c s (CmdCommit [key] start commit) =
        Some (Inr (CommitResponse ke), c, s1)"
      using served [OF sz(1)] that
      by (simp add: checked_def writes_def handleKvCommit_def leveldb_store_def send_commit_def no_failpoints_def)
    then show ?thesis
      using SendRequest_served [OF h] served sz by metis
  qed
  show ?thesis
  proof (cases "commit < minCommitTS l")
    case True
    then show ?thesis
      using expired_commit [OF E a lock] commit by (fastforce simp: key_error_def)
  next
    case False
    obtain s1 where s1: "Commit E s [key] start commit = (None, s1)"
      by (rule Commit_succeeds [OF E a ts(1), of "[key]" start]) (use lock False in \<open>auto simp: locked_by_iff not_less\<close>)
    have iso: "rh_isolationLevel (in_region region (located region p) ?h) = IsolationLevel_SI"
      by (simp add: in_region_def located_def)
    have "Get E s1 key ts IsolationLevel_SI rl =
        Inr (if l_op l = Op_Put then Some (l_value l) else if l_op l = Op_Lock then a_read ts (a_writes a key) else None)"
      by (rule committed_read(1) [OF E a ts(1) s1 _ lock ts(2,3)]) simp
    then have "dispatch E (leveldb_store E) o' no_failpoints sz ?h (located region p) c s1 (CmdGet key ts rl) =
        Some (Inr (GetResponse None (if l_op l = Op_Put then Some (l_value l) else if l_op l = Op_Lock then a_read ts (a_writes a key) else None)), c, s1)"
      using served [OF sz(2)] iso by (simp add: checked_def reads_def handleKvGet_def leveldb_store_def)
    then have "SendRequest E (leveldb_store E) o' no_failpoints sz redirect None addr False (located region p) (CmdGet key ts rl) c s1 =
        Some (Inr (GetResponse None (if l_op l = Op_Put then Some (l_value l) else if l_op l = Op_Lock then a_read ts (a_writes a key) else None)), c, s1)"
      using SendRequest_served [OF h] served sz by metis
    then show ?thesis
      using False commit [OF s1] by (auto simp: key_error_def)
  qed
qed

lemma ex_located: "GetRegionByKey [3] k ex_cluster = (Some (Meta ex_region), Some (newPeerMeta 2 1))"
proof -
  have "region_contains k ex_region"
    by (simp add: ex_region_def region_simps)
  then show ?thesis
    by (simp add: GetRegionByKey_def region_where_def values_in_def map_filter_def ex_cluster_def leaderPeer_def)
      (simp add: ex_region_def newPeerMeta_def)
qed

lemma ex_store: "client_getAndCheckStoreByAddr ex_orders ''s'' ex_cluster = Inr (store_meta (newStore 1 ''s'' []))"
  by (simp add: client_getAndCheckStoreByAddr_def GetAndCheckStoreByAddr_def values_in_def map_filter_def ex_orders_def
      ex_cluster_def newStore_def)

theorem commit_then_get_through_the_client_witness:
  "\<exists>s1. SendRequest ref_env (leveldb_store ref_env) ex_orders no_failpoints (\<lambda>r. 20) None None ''s'' False
      (located (Meta ex_region) (newPeerMeta 2 1)) (CmdGet [7] 8 []) ex_cluster s1 =
    Some (Inr (GetResponse None (Some [1])), ex_cluster, s1)"
proof -
  let ?ops = "[SetLock [7] (ex_lock 4 [7] [1])]"
  have r: "abs_rel ref_env (EDB (ref_store ?ops)) (a_run ?ops empty_astate)"
    by (rule ref_store_rel) simp
  show ?thesis
    using commit_then_get_through_the_client
      [where key = "[7]" and sz = "\<lambda>r. 20" and start = 4 and commit = 6 and ts = 8 and rl = "[]" and l = "ex_lock 4 [7] [1]"
        and redirect = None, OF store_env_ref r ex_cluster_tiled ex_located _ ex_store]
    by (auto simp: requestMaxSize_def newPeerMeta_def newStore_def ex_lock_def ex_region_def empty_astate_def)
qed

section \<open>Failed requests\<close>

text \<open>The answers that report an error.\<close>

primrec reports_error :: "Response \<Rightarrow> bool" where
  "reports_error (Resp_RegionError e) = True"
| "reports_error (GetResponse e v) = (e \<noteq> None)"
| "reports_error (ScanResponse ps) = (\<exists>p\<in>set ps. kv_Error p \<noteq> None)"
| "reports_error (PrewriteResponse es) = (es \<noteq> [])"
| "reports_error (PessimisticLockResponse es vs) = (es \<noteq> [])"
| "reports_error (PessimisticRollbackResponse es) = (es \<noteq> [])"
| "reports_error (CommitResponse e) = (e \<noteq> None)"
| "reports_error (CleanupResponse e v) = (e \<noteq> None)"
| "reports_error (CheckTxnStatusResponse e t v a) = (e \<noteq> None)"
| "reports_error (TxnHeartBeatResponse e t) = (e \<noteq> None)"
| "reports_error (BatchGetResponse ps) = (\<exists>p\<in>set ps. kv_Error p \<noteq> None)"
| "reports_error (BatchRollbackResponse e) = (e \<noteq> None)"
| "reports_error (ScanLockResponse e ls) = (e \<noteq> None)"
| "reports_error (ResolveLockResponse e) = (e \<noteq> None)"
| "reports_error (GCResponse e) = (e \<noteq> None)"
| "reports_error (DeleteRangeResponse e) = (e \<noteq> None)"
| "reports_error (RawGetResponse msg v) = (msg \<noteq> '''')"
| "reports_error (RawBatchGetResponse ps) = False"
| "reports_error (RawPutResponse msg) = (msg \<noteq> '''')"
| "reports_error (RawBatchPutResponse msg) = (msg \<noteq> '''')"
| "reports_error (RawDeleteResponse msg) = (msg \<noteq> '''')"
| "reports_error (RawBatchDeleteResponse msg) = (msg \<noteq> '''')"
| "reports_error (RawDeleteRangeResponse msg) = (msg \<noteq> '''')"
| "reports_error (RawScanResponse ps) = (\<exists>p\<in>set ps. kv_Error p \<noteq> None)"
| "reports_error (MvccGetByKeyResponse msg i) = (msg \<noteq> '''')"
| "reports_error (MvccGetByStartTsResponse msg i k) = (msg \<noteq> '''')"
| "reports_error (SplitRegionResponse rs) = False"
| "reports_error (GetRegionPropertiesResponse n v) = False"

text \<open>
  What the handlers rely on from a store: a call that writes either succeeds or leaves what the store
  holds, its \<open>view\<close>, as it is.
\<close>

locale atomic_store =
  fixes M :: "'s MVCCStore" and view :: "'s \<Rightarrow> 'v"
  assumes Prewrite_atomic: "mvcc_Prewrite M s req = Some (errs, s') \<Longrightarrow> Some e \<in> set errs \<Longrightarrow> view s' = view s"
    and PessimisticLock_atomic: "mvcc_PessimisticLock M s lreq = Some ((kes, vs), s') \<Longrightarrow> kes \<noteq> [] \<Longrightarrow> view s' = view s"
    and PessimisticRollback_atomic:
      "mvcc_PessimisticRollback M s ks st cm = (errs, s') \<Longrightarrow> Some e \<in> set errs \<Longrightarrow> view s' = view s"
    and Commit_atomic: "mvcc_Commit M s ks st cm = (Some e, s') \<Longrightarrow> view s' = view s"
    and Rollback_atomic: "mvcc_Rollback M s ks st = (Some e, s') \<Longrightarrow> view s' = view s"
    and Cleanup_atomic: "mvcc_Cleanup M s k st cm = (Some e, s') \<Longrightarrow> view s' = view s"
    and CheckTxnStatus_atomic: "mvcc_CheckTxnStatus M s k st cs cm rb = (ts, s') \<Longrightarrow> ts_err ts \<noteq> None \<Longrightarrow> view s' = view s"
    and TxnHeartBeat_atomic: "mvcc_TxnHeartBeat M s k st t = (Inl e, s') \<Longrightarrow> view s' = view s"
    and ResolveLock_atomic: "mvcc_ResolveLock M s k k' st cm = Some (Some e, s') \<Longrightarrow> view s' = view s"
    and GC_atomic: "mvcc_GC M s k k' sp = Some (Some e, s') \<Longrightarrow> view s' = view s"
    and DeleteRange_atomic: "mvcc_DeleteRange M s k k' = (Some e, s') \<Longrightarrow> view s' = view s"

lemma convertToKeyErrors_nonempty:
  "convertToKeyErrors E errs = Some kes \<Longrightarrow> kes \<noteq> [] \<Longrightarrow> \<exists>e. Some e \<in> set errs"
  by (induction errs arbitrary: kes rule: convertToKeyErrors.induct) auto


lemma key_error_Some: "key_error E er = Some (Some ke) \<Longrightarrow> \<exists>e. er = Some e"
  by (cases er) (simp_all add: key_error_def)

lemma write_batch_atomic: "write_batch E s b = (Some e, s') \<Longrightarrow> s' = s"
  by (auto simp: write_batch_def split: sum.splits)

lemma cleanUp_EDB [simp]: "EDB (cleanUp_detector E st s) = EDB s"
  by (simp add: cleanUp_detector_def)

text \<open>The leveldb store keeps its side.\<close>

lemma prewrite_loop_no_error:
  assumes "prewrite_loop E db req i b ms errs anyError = Some (errs', b', anyError')"
    and "anyError \<or> set errs \<subseteq> {None}"
  shows "anyError' \<or> set errs' \<subseteq> {None}"
  using assms
proof (induction ms arbitrary: i b errs anyError)
  case (Cons m ms)
  have step: "anyError' \<or> set errs' \<subseteq> {None}"
    if "prewrite_loop E db req (Suc i) b1 ms errs1 any1 = Some (errs', b', anyError')" "any1 \<or> set errs1 \<subseteq> {None}" for b1 errs1 any1
    using Cons.IH [OF that] .
  show ?case
    using Cons.prems
    by (simp only: prewrite_loop.simps Let_def split: option.splits if_splits sum.splits)
      (auto elim!: step)
qed simp

lemma Prewrite_error:
  assumes "Prewrite E s req = Some (errs, s')" and "Some e \<in> set errs"
  shows "s' = s"
proof -
  obtain errs0 b anyError where run: "prewrite_loop E (EDB s) req 0 [] (pw_Mutations req) [] False = Some (errs0, b, anyError)"
    using assms(1) by (auto simp: Prewrite_def split: option.splits)
  show ?thesis
  proof (cases anyError)
    case False
    then have "Some e \<notin> set errs0"
      using prewrite_loop_no_error [OF run] by auto
    then show ?thesis
      using assms run False by (auto simp: Prewrite_def split: sum.splits)
  qed (use assms(1) run in \<open>simp add: Prewrite_def\<close>)
qed

interpretation ldb_atomic: atomic_store "leveldb_store E" EDB for E :: "('db, 'dd) env"
proof (unfold_locales, goal_cases)
  case (1 s req errs s' e)
  then show ?case
    using Prewrite_error [of E s req errs s' e] by (simp add: leveldb_store_def)
next
  case (2 s lreq kes vs s')
  then show ?case
    by (auto simp: leveldb_store_def PessimisticLock_def Let_def split: prod.splits if_splits sum.splits)
next
  case (3 s ks st cm errs s' e)
  then show ?case
    by (auto simp: leveldb_store_def PessimisticRollback_def split: prod.splits if_splits sum.splits)
next
  case (4 s ks st cm e s')
  then show ?case
    by (auto simp: leveldb_store_def Commit_def apsnd_def map_prod_def dest: write_batch_atomic split: sum.splits prod.splits)
next
  case (5 s ks st e s')
  then show ?case
    by (auto simp: leveldb_store_def Rollback_def apsnd_def map_prod_def dest: write_batch_atomic split: sum.splits prod.splits)
next
  case (6 s k st cm e s')
  then show ?case
    by (auto simp: leveldb_store_def Cleanup_def apsnd_def map_prod_def Let_def dest: write_batch_atomic
        split: sum.splits prod.splits option.splits if_splits)
next
  case (7 s k st cs cm rb ts s')
  then show ?case
    by (auto simp: leveldb_store_def CheckTxnStatus_def Let_def dest: write_batch_atomic
        split: sum.splits prod.splits option.splits if_splits)
next
  case (8 s k st t e s')
  then show ?case
    by (auto simp: leveldb_store_def TxnHeartBeat_def Let_def dest: write_batch_atomic
        split: sum.splits prod.splits option.splits if_splits)
next
  case (9 s k k' st cm e s')
  then show ?case
    by (auto simp: leveldb_store_def ResolveLock_def dest: write_batch_atomic split: sum.splits prod.splits if_splits)
next
  case (10 s k k' sp e s')
  then show ?case
    by (auto simp: leveldb_store_def GC_def dest: write_batch_atomic split: sum.splits prod.splits if_splits)
next
  case (11 s k k' e s')
  then show ?case
    by (auto simp: leveldb_store_def DeleteRange_def doRawDeleteRange_def dest: write_batch_atomic)
qed


text \<open>
  A reply to a request: the store it leaves and, if it reports an error, that this store holds what the one
  before held.
\<close>

definition harmless :: "('s \<Rightarrow> 'v) \<Rightarrow> 's \<Rightarrow> 's outcome \<Rightarrow> bool" where
  "harmless view s out = (\<forall>r c' s'. out = Some (r, c', s') \<and> (\<forall>resp. r = Inr resp \<longrightarrow> reports_error resp) \<longrightarrow> view s' = view s)"

lemma harmless_reads [simp]: "harmless view s (reads c s r)"
  by (auto simp: harmless_def reads_def)

lemma harmless_same [simp]: "harmless view s (Some (r, c, s))" "harmless view s None"
  by (auto simp: harmless_def)

lemma harmless_checked: "(\<And>h'. harmless view s (k h')) \<Longrightarrow> harmless view s (checked o' h ctx n c s k)"
  by (auto simp: checked_def split: sum.splits)

lemma harmless_writes:
  assumes "\<And>resp s'. r = Some (resp, s') \<Longrightarrow> reports_error resp \<Longrightarrow> view s' = view s"
  shows "harmless view s (writes c r)"
  using assms by (auto simp: harmless_def writes_def)

lemma harmless_call:
  assumes "\<And>resp c' s'. r = Some (resp, c', s') \<Longrightarrow> reports_error resp \<Longrightarrow> view s' = view s"
  shows "harmless view s (map_option (apfst Inr) r)"
  using assms by (auto simp: harmless_def)

lemma harmless_commit:
  assumes "\<not> fp_rpcCommitTimeout fp" and "harmless view s run"
  shows "harmless view s (send_commit fp c s run)"
proof (cases run)
  case (Some x)
  then show ?thesis
    using assms by (cases x) (auto simp: send_commit_def split: sum.splits Response.splits)
qed (auto simp: send_commit_def)

context atomic_store
begin

lemma harmless_dispatch:
  assumes "\<not> fp_rpcCommitTimeout fp"
  shows "harmless view s (dispatch E M o' fp sz h ctx c s req)"
proof (cases req)
  case (CmdPrewrite rid preq)
  then show ?thesis
    by (auto intro!: harmless_checked harmless_call simp: handleKvPrewrite_def Let_def bind_eq_Some_conv
        dest!: convertToKeyErrors_nonempty
        split: if_splits prod.splits)
      (blast intro: Prewrite_atomic)+
next
  case (CmdPessimisticLock rid preq)
  then show ?thesis
    by (auto intro!: harmless_checked harmless_call simp: handleKvPessimisticLock_def Let_def split: if_splits prod.splits)
      (rule PessimisticLock_atomic)
next
  case (CmdPessimisticRollback ks st f)
  then show ?thesis
    by (auto intro!: harmless_checked harmless_writes simp: handleKvPessimisticRollback_def Let_def
        dest!: convertToKeyErrors_nonempty
        split: if_splits prod.splits)
      (blast intro: PessimisticRollback_atomic)+
next
  case (CmdCommit ks st cm)
  then show ?thesis
    using assms by (auto intro!: harmless_commit harmless_checked harmless_writes simp: handleKvCommit_def Let_def
        dest!: key_error_Some
        split: if_splits prod.splits)
      (blast intro: Commit_atomic)+
next
  case (CmdCleanup k st cu)
  then show ?thesis
    by (auto intro!: harmless_checked harmless_writes simp: handleKvCleanup_def Let_def
        split: if_splits prod.splits option.splits err.splits)
      (blast intro: Cleanup_atomic)+
next
  case (CmdCheckTxnStatus k st cs cu rb)
  then show ?thesis
    by (auto intro!: harmless_checked harmless_writes simp: handleKvCheckTxnStatus_def Let_def
        split: if_splits prod.splits option.splits)
      (blast intro: CheckTxnStatus_atomic)+
next
  case (CmdTxnHeartBeat k st t)
  then show ?thesis
    by (auto intro!: harmless_checked harmless_writes simp: handleTxnHeartBeat_def Let_def
        split: if_splits prod.splits sum.splits)
      (blast intro: TxnHeartBeat_atomic)+
next
  case (CmdBatchRollback ks st)
  then show ?thesis
    by (auto intro!: harmless_checked harmless_writes simp: handleKvBatchRollback_def Let_def
        dest!: key_error_Some
        split: prod.splits)
      (blast intro: Rollback_atomic)+
next
  case (CmdResolveLock st cm)
  then show ?thesis
    by (auto intro!: harmless_checked harmless_writes simp: handleKvResolveLock_def bind_eq_Some_conv
        dest!: key_error_Some)
      (blast intro: ResolveLock_atomic)+
next
  case (CmdGC sp)
  then show ?thesis
    by (auto intro!: harmless_checked harmless_writes simp: handleKvGC_def bind_eq_Some_conv
        dest!: key_error_Some)
      (blast intro: GC_atomic)+
next
  case (CmdDeleteRange k k')
  then show ?thesis
    by (auto intro!: harmless_checked harmless_writes simp: handleKvDeleteRange_def Let_def
        split: if_splits prod.splits)
      (blast intro: DeleteRange_atomic)+
qed (auto intro!: harmless_checked harmless_writes simp: handleKvRawPut_def handleKvRawBatchPut_def handleKvRawDelete_def
    handleKvRawBatchDelete_def handleKvRawDeleteRange_def harmless_def [of view s "map_option f r" for f r] split: option.splits)

end


text \<open>
  C10. Through the client no request that fails changes the data: whatever the request and however it is
  checked, if the answer is an error or reports one, the engine holds what it held before. Only the
  failpoint that hides the answer of a commit that was done is left out.
\<close>

theorem error_reply_changes_nothing:
  assumes "SendRequest E (leveldb_store E) o' fp sz redirect ctxErr addr toMilevaDB ctx req c s = Some (r, c', s')"
    and "\<forall>resp. r = Inr resp \<longrightarrow> reports_error resp" and "\<not> fp_rpcCommitTimeout fp"
  shows "EDB s' = EDB s"
proof -
  have "harmless EDB s (dispatch E (leveldb_store E) o' fp sz h ctx c s req)" for h
    by (rule ldb_atomic.harmless_dispatch [OF assms(3)])
  then show ?thesis
    using assms(1,2) by (auto simp: SendRequest_def harmless_def split: if_splits sum.splits)
qed

theorem error_reply_changes_nothing_witness:
  "\<exists>r s'. SendRequest ref_env (leveldb_store ref_env) ex_orders no_failpoints (\<lambda>r. 20) None None ''s'' False
     (located (Meta ex_region) (newPeerMeta 2 1)) (CmdTxnHeartBeat [7] 4 9) ex_cluster (ref_store []) =
       Some (Inr (TxnHeartBeatResponse r 0), ex_cluster, s') \<and> r \<noteq> None \<and> EDB s' = EDB (ref_store [])"
proof -
  have "checkRequest ex_orders ex_cluster (new_handler 1) (located (Meta ex_region) (newPeerMeta 2 1)) 20 =
      Inr (in_region (Meta ex_region) (located (Meta ex_region) (newPeerMeta 2 1)) (new_handler 1)) \<and>
      checkKeyInRegion ref_env (in_region (Meta ex_region) (located (Meta ex_region) (newPeerMeta 2 1)) (new_handler 1)) [7]"
    by (rule located_served [OF ex_cluster_tiled ex_located])
      (simp_all add: ex_region_def new_handler_def newPeerMeta_def requestMaxSize_def)
  moreover have "checkArgs ex_orders None ''s'' ex_cluster = Inr (new_handler 1)"
    using ex_store by (simp add: checkArgs_def new_handler_def newStore_def)
  moreover have "TxnHeartBeat ref_env (ref_store []) [7] 4 9 = (Inl (Err_New ''dagger doesn't exist''), ref_store [])"
  proof -
    have r: "abs_rel ref_env (EDB (ref_store [])) (a_run [] empty_astate)"
      by (rule ref_store_rel) simp
    show ?thesis
      using store_env.TxnHeartBeat_eq [OF store_env_ref r, of "[7]" 4 9]
      by (simp add: a_heartbeat_def locked_by_def empty_astate_def store_env.emit_def [OF store_env_ref])
  qed
  ultimately obtain ke where sent: "SendRequest ref_env (leveldb_store ref_env) ex_orders no_failpoints (\<lambda>r. 20) None None ''s'' False
     (located (Meta ex_region) (newPeerMeta 2 1)) (CmdTxnHeartBeat [7] 4 9) ex_cluster (ref_store []) =
       Some (Inr (TxnHeartBeatResponse (Some ke) 0), ex_cluster, ref_store [])"
    by (simp add: SendRequest_served checked_def writes_def handleTxnHeartBeat_def leveldb_store_def)
  then show ?thesis
    using error_reply_changes_nothing [OF sent] by (auto simp: no_failpoints_def)
qed

end
