(* ===== verification/Rpc_Split.thy ===== *)
theory Rpc_Split
  imports Rpc_Theorems Cluster_Bootstrap
begin

text \<open>Splitting regions on request: the boundaries it makes, and the tiling it keeps.\<close>

section \<open>Boundaries\<close>

definition starts :: "Cluster \<Rightarrow> bytes set" where
  "starts c = {Region_StartKey (Meta r) | r. r \<in> ran (regions c)}"

lemma startsI: "regions c i = Some r \<Longrightarrow> Region_StartKey (Meta r) \<in> starts c"
  by (auto simp: starts_def ran_def)

lemma startsE:
  assumes "x \<in> starts c"
  obtains i r where "regions c i = Some r" and "x = Region_StartKey (Meta r)"
  using assms by (auto simp: starts_def ran_def)

lemma starts_split:
  assumes r: "regions c j = Some r" and free: "regions c i = None"
  shows "starts (put_region i new (put_region j (uFIDelateKeyRange (Region_StartKey (Meta r)) k r) c)) =
    insert (Region_StartKey (Meta new)) (starts c)" (is "starts ?c = _")
proof (intro equalityI subsetI)
  fix x
  assume "x \<in> starts ?c"
  then obtain i' r' where "regions ?c i' = Some r'" "x = Region_StartKey (Meta r')"
    by (rule startsE)
  then show "x \<in> insert (Region_StartKey (Meta new)) (starts c)"
    using startsI [OF r] by (auto intro: startsI split: if_splits)
next
  fix x
  assume "x \<in> insert (Region_StartKey (Meta new)) (starts c)"
  moreover have "Region_StartKey (Meta new) \<in> starts ?c"
    by (rule startsI [of _ i]) simp
  moreover have "x \<in> starts ?c" if mem: "x \<in> starts c"
  proof -
    obtain i' r' where r': "regions c i' = Some r'" "x = Region_StartKey (Meta r')"
      by (rule startsE [OF mem])
    have "regions ?c i' = Some (if i' = j then uFIDelateKeyRange (Region_StartKey (Meta r)) k r else r')"
      using r' free by auto
    then show ?thesis
      using startsI [of ?c i'] r r' by (force split: if_splits)
  qed
  ultimately show "x \<in> starts ?c"
    by blast
qed

text \<open>Every region has a peer and at most \<open>n\<close>.\<close>

definition peers_upto :: "nat \<Rightarrow> Cluster \<Rightarrow> bool" where
  "peers_upto n c = (\<forall>i r. regions c i = Some r \<longrightarrow> 0 < length (Region_Peers (Meta r)) \<and> length (Region_Peers (Meta r)) \<le> n)"

lemma peers_upto_put:
  "peers_upto n c \<Longrightarrow> 0 < length (Region_Peers (Meta r)) \<Longrightarrow> length (Region_Peers (Meta r)) \<le> n \<Longrightarrow> peers_upto n (put_region i r c)"
  by (simp add: peers_upto_def)

lemma tiled_same_regions: "regions c' = regions c \<Longrightarrow> tiled c \<Longrightarrow> tiled c'"
  by (simp add: tiled_def regions_ok_def holds_def)

lemma AllocIDs_eq: "AllocIDs (int n) c = (next_ids n (cluster_id c), c\<lparr>cluster_id := cluster_id c + word_of_nat n\<rparr>)"
  by (simp add: AllocIDs_def AllocIDs_loop_eq)

lemma new_id_free:
  assumes "ids_left (Suc n) c"
  shows "regions c (cluster_id c + 1) = None" and "ids_left n (c\<lparr>cluster_id := cluster_id c + 1\<rparr>)"
    and "unat (cluster_id c + 1) = Suc (unat (cluster_id c))"
proof -
  show u: "unat (cluster_id c + 1) = Suc (unat (cluster_id c))"
    using assms unat_add_small [of "cluster_id c" 1] by (simp add: ids_left_def)
  then have "\<not> cluster_id c + 1 \<le> cluster_id c"
    by (simp add: word_le_nat_alt)
  then show "regions c (cluster_id c + 1) = None"
    using assms by (auto simp: ids_left_def dom_def)
  have "i \<le> cluster_id c + 1" if "i \<le> cluster_id c" for i
    using that u by (simp add: word_le_nat_alt)
  then show "ids_left n (c\<lparr>cluster_id := cluster_id c + 1\<rparr>)"
    using assms u by (simp add: ids_left_def)
qed

lemma ids_left_alloc:
  assumes "ids_left (m + n) c"
  shows "ids_left n (c\<lparr>cluster_id := cluster_id c + word_of_nat m\<rparr>)"
proof -
  have u: "unat (cluster_id c + word_of_nat m) = unat (cluster_id c) + m"
    using assms by (intro unat_add_small) (simp add: ids_left_def)
  have "i \<le> cluster_id c + word_of_nat m" if "i \<le> cluster_id c" for i
    using that u by (simp add: word_le_nat_alt)
  then show ?thesis
    using assms u by (simp add: ids_left_def add.assoc)
qed

section \<open>One key\<close>

lemma lookup_holder:
  assumes t: "tiled c" and v: "visits ord (regions c)"
  obtains i r where "regions c i = Some r" and "region_contains k r" and "Region_Id (Meta r) = i"
    and "GetRegionByKey ord k c = (Some (Meta r), leaderPeer r)"
proof -
  obtain i r where r: "regions c i = Some r" "region_contains k r" "Region_Id (Meta r) = i"
    using tiled_holder [OF t] by metis
  have "GetRegionByKey ord k c = (Some (Meta r), leaderPeer r)"
    unfolding GetRegionByKey_def
    by (rule region_where_unique [where i = i and p = "region_contains k", OF v r(1,2)])
      (rule tiled_same [OF t _ r(1) _ r(2)])
  then show ?thesis
    using r that by blast
qed

lemma split_step:
  assumes E: "codec E" and t: "tiled c" and v: "visits (ord_regions o' i (regions c)) (regions c)"
    and ids: "ids_left (Suc n + m) c" and p: "peers_upto n c"
    and key: "key \<noteq> []" "NewMvccKey E key \<notin> starts c" "key \<notin> starts c"
  obtains region new c3 where
    "handleSplitRegion_loop E o' i (key # keys) regs c =
       handleSplitRegion_loop E o' (Suc i) keys (regs @ (if i = 0 then [region] else []) @ [new]) c3"
    and "tiled c3" "ids_left m c3" "peers_upto n c3" "starts c3 = insert (NewMvccKey E key) (starts c)"
    and "Region_StartKey new = NewMvccKey E key"
proof -
  let ?k = "NewMvccKey E key"
  have k: "?k \<noteq> []"
    using codec.NewMvccKey_less [OF E, of "[]" key] key(1) by (cases key) auto
  obtain j r where r: "regions c j = Some r" "region_contains ?k r" "Region_Id (Meta r) = j"
    and look: "GetRegionByKey (ord_regions o' i (regions c)) ?k c = (Some (Meta r), leaderPeer r)"
    by (rule lookup_holder [OF t v, where k = ?k]) (rule that)
  have s: "Region_StartKey (Meta r) \<in> starts c"
    by (rule startsI [OF r(1)])
  then have lt: "Region_StartKey (Meta r) < ?k" "Region_EndKey (Meta r) = [] \<or> ?k < Region_EndKey (Meta r)"
    using r(2) key(2) by (auto simp: region_simps order.order_iff_strict)
  let ?n = "length (Region_Peers (Meta r))"
  have n: "0 < ?n" "?n \<le> n"
    using p r(1) by (auto simp: peers_upto_def)
  let ?id = "cluster_id c + 1" and ?c1 = "c\<lparr>cluster_id := cluster_id c + 1\<rparr>"
  let ?pids = "next_ids ?n ?id" and ?c2 = "?c1\<lparr>cluster_id := ?id + word_of_nat ?n\<rparr>"
  have free: "regions c ?id = None" and ids1: "ids_left (n + m) ?c1"
    using new_id_free [of "n + m" c] ids by simp_all
  then have ids2: "ids_left m ?c2"
    using ids_left_alloc [of ?n m ?c1] ids_left_mono [of "n + m" ?c1 "?n + m"] n(2) by simp
  have t2: "tiled ?c2"
    by (rule tiled_same_regions [OF _ t]) simp
  have r2: "regions ?c2 j = Some r" and free2: "regions ?c2 ?id = None"
    using r(1) free by simp_all
  let ?r = "uFIDelateKeyRange (Region_StartKey (Meta r)) ?k r"
  obtain new where split: "SplitRaw j ?id ?k ?pids (?pids ! 0) ?c2 = Some (Meta new, put_region ?id new (put_region j ?r ?c2))"
    and new: "Region_StartKey (Meta new) = ?k" "length (Region_Peers (Meta new)) = length ?pids"
    and t3: "tiled (put_region ?id new (put_region j ?r ?c2))"
    by (rule SplitRaw_run [OF t2 r2 free2 lt, where peerIDs = ?pids and l = "?pids ! 0"]) (simp, rule that)
  let ?c3 = "put_region ?id new (put_region j ?r ?c2)"
  have ne: "j \<noteq> ?id"
    using r(1) free by auto
  have ids_dom: "ids_left m (put_region j ?r ?c2)"
    using ids_left_put [OF ids2] r2 by blast
  have id_le: "?id \<le> cluster_id ?c2"
  proof -
    have "unat (?id + word_of_nat ?n) = unat ?id + ?n"
      by (rule unat_add_small) (use ids1 n(2) in \<open>simp add: ids_left_def\<close>)
    then show ?thesis
      by (simp add: word_le_nat_alt)
  qed
  have "ids_left m ?c3"
    using ids_dom id_le by (auto simp: ids_left_def)
  moreover have "peers_upto n ?c3"
    using p r(1) n new(2) by (auto simp: peers_upto_def)
  moreover have "starts ?c3 = insert ?k (starts c)"
    using starts_split [OF r2 free2, of new ?k] new(1) by (simp add: starts_def)
  moreover have "handleSplitRegion_loop E o' i (key # keys) regs c =
       handleSplitRegion_loop E o' (Suc i) keys (regs @ (if i = 0 then [Meta r] else []) @ [Meta new]) ?c3"
  proof -
    have "Region_StartKey (Meta r) \<noteq> key"
      using s key(3) by blast
    moreover have "?pids \<noteq> []"
      using n(1) by (metis length_0_conv length_next_ids less_irrefl)
    ultimately show ?thesis
      using look split r(3) by (simp add: AllocID_def allocID_def AllocIDs_eq Let_def)
  qed
  ultimately show ?thesis
    using that t3 new(1) by blast
qed

section \<open>Splitting at keys\<close>

lemma split_run:
  assumes "codec E" and "\<forall>n m. visits (ord_regions o' n m) m"
  shows "tiled c \<Longrightarrow> ids_left (length keys * Suc n) c \<Longrightarrow> peers_upto n c \<Longrightarrow> distinct keys \<Longrightarrow>
    \<forall>key\<in>set keys. key \<noteq> [] \<and> NewMvccKey E key \<notin> starts c \<and> key \<notin> starts c \<union> NewMvccKey E ` set keys \<Longrightarrow>
    \<exists>rs c'. handleSplitRegion_loop E o' i keys regs c = Some (regs @ rs, c') \<and> tiled c' \<and>
      starts c' = starts c \<union> NewMvccKey E ` set keys \<and>
      map Region_StartKey (if i = 0 then tl rs else rs) = map (NewMvccKey E) keys"
proof (induction keys arbitrary: i regs c)
  case (Cons key keys)
  have inj: "inj (NewMvccKey E)"
    by (rule linorder_injI) (use codec.NewMvccKey_less [OF assms(1)] in \<open>metis less_irrefl\<close>)
  have ids: "ids_left (Suc n + length keys * Suc n) c"
    using Cons.prems(2) by (simp add: algebra_simps)
  have key: "key \<noteq> []" "NewMvccKey E key \<notin> starts c" "key \<notin> starts c"
    using Cons.prems(5) by simp_all
  have v: "visits (ord_regions o' i (regions c)) (regions c)"
    using assms(2) by blast
  obtain region new c1 where step: "handleSplitRegion_loop E o' i (key # keys) regs c =
       handleSplitRegion_loop E o' (Suc i) keys (regs @ (if i = 0 then [region] else []) @ [new]) c1"
    and c1: "tiled c1" "ids_left (length keys * Suc n) c1" "peers_upto n c1" "starts c1 = insert (NewMvccKey E key) (starts c)"
    and new: "Region_StartKey new = NewMvccKey E key"
    by (rule split_step [OF assms(1) Cons.prems(1) v ids Cons.prems(3) key, where regs = regs and keys = keys]) (rule that)
  have "\<forall>k\<in>set keys. k \<noteq> [] \<and> NewMvccKey E k \<notin> starts c1 \<and> k \<notin> starts c1 \<union> NewMvccKey E ` set keys"
    using Cons.prems(4,5) c1(4) inj_eq [OF inj] by auto
  moreover have "distinct keys"
    using Cons.prems(4) by simp
  ultimately obtain rs c' where
    "handleSplitRegion_loop E o' (Suc i) keys (regs @ (if i = 0 then [region] else []) @ [new]) c1 =
       Some ((regs @ (if i = 0 then [region] else []) @ [new]) @ rs, c')"
    and c': "tiled c'" "starts c' = starts c1 \<union> NewMvccKey E ` set keys" "map Region_StartKey rs = map (NewMvccKey E) keys"
    using Cons.IH [OF c1(1-3), of "Suc i" "regs @ (if i = 0 then [region] else []) @ [new]"] by fastforce
  then have "handleSplitRegion_loop E o' i (key # keys) regs c = Some (regs @ ((if i = 0 then [region] else []) @ [new] @ rs), c')"
    using step by simp
  then show ?case
    using c' c1(4) new by (intro exI [of _ "(if i = 0 then [region] else []) @ [new] @ rs"] exI [of _ c']) auto
qed (auto simp: exI)

text \<open>
  C40. A split request for new keys, none of them a boundary already in its encoded or its raw form, makes a
  region start at each of them: the boundaries are the old ones and the encoded keys, the regions tile the
  key space as before, and the answer lists, after the leftmost region, the new regions in the order of the
  keys, whatever the order the region map is visited in.
\<close>

theorem handleSplitRegion_splits_at_the_keys:
  assumes "codec E" and "tiled c" and "\<forall>n m. visits (ord_regions o' n m) m"
    and "peers_upto n c" and "ids_left (length keys * Suc n) c" and "distinct keys"
    and "\<forall>key\<in>set keys. key \<noteq> [] \<and> NewMvccKey E key \<notin> starts c \<and> key \<notin> starts c \<union> NewMvccKey E ` set keys"
  shows "\<exists>rs c'. handleSplitRegion E o' keys c = Some (SplitRegionResponse rs, c') \<and> tiled c' \<and>
     starts c' = starts c \<union> NewMvccKey E ` set keys \<and> map Region_StartKey (tl rs) = map (NewMvccKey E) keys"
  using split_run [OF assms(1,3,2,5,4,6,7), of 0 "[]"] by (auto simp: handleSplitRegion_def)

text \<open>An order for every map: the identifiers in ascending order.\<close>

definition ex_orders_any :: orders where
  "ex_orders_any = \<lparr>ord_stores = [1], ord_regions = (\<lambda>n m. sorted_list_of_set (dom m))\<rparr>"

lemma ex_orders_any_visits: "visits (ord_regions ex_orders_any n m) m"
  by (simp add: visits_def ex_orders_any_def)

lemma ex_starts: "starts ex_cluster = {[]}"
  by (auto simp: starts_def ran_def ex_cluster_def ex_region_def)

theorem handleSplitRegion_splits_at_the_keys_witness:
  "\<exists>rs c'. handleSplitRegion ref_env ex_orders_any [[7], [5]] ex_cluster = Some (SplitRegionResponse rs, c') \<and> tiled c' \<and>
     starts c' = {[], NewMvccKey ref_env [7], NewMvccKey ref_env [5]}"
proof -
  have keys: "NewMvccKey ref_env [7] = [1, 7, 0]" "NewMvccKey ref_env [5] = [1, 5, 0]"
    by (simp_all add: NewMvccKey_def ref_env_def)
  have "peers_upto 1 ex_cluster" and "ids_left (2 * Suc 1) ex_cluster"
    by (auto simp: peers_upto_def ids_left_def ex_cluster_def ex_region_def)
  then show ?thesis
    using handleSplitRegion_splits_at_the_keys [OF ref_codec ex_cluster_tiled _ \<open>peers_upto 1 ex_cluster\<close>, of ex_orders_any "[[7], [5]]"]
    by (fastforce simp: ex_orders_any_visits ex_starts keys numeral_eq_Suc)
qed

text \<open>
  At a key that already is a boundary the comparison of the raw key with the encoded start key fails, and
  the region that starts there is split at its own start: it keeps an empty range.
\<close>

lemma split_at_a_boundary:
  assumes "regions c i = Some r" and "Region_StartKey (Meta r) = k" and "i \<noteq> j"
    and "SplitRaw i j k ps l c = Some (new, c')"
  shows "\<exists>r'. regions c' i = Some r' \<and> Region_StartKey (Meta r') = k \<and> Region_EndKey (Meta r') = k"
  using assms by (auto simp: SplitRaw_def region_split_def bind_eq_Some_conv split: if_splits)

end
