(* ===== verification/Memdb_Arena.thy ===== *)
theory Memdb_Arena
  imports Prelude "HOL-Library.Monad_Syntax"
begin

text \<open>
  \<^verbatim>\<open>memdb_arena.go\<close>: addresses, the arena of byte blocks with its allocator and checkpoints, and the part of
  the value log that only needs the log: its entries, a value on top of a header that names its length, the
  value it replaced and its node, and the chains of older values. An index out of range, a failed allocation
  and a loop that does not end are \<open>None\<close>.
\<close>

section \<open>Addresses\<close>

record memdbMemCamAddr =
  idx :: u32
  off :: u32

definition nullAddr :: memdbMemCamAddr where
  "nullAddr = \<lparr>idx = 4294967295, off = 4294967295\<rparr>"

definition addr_store :: "memdbMemCamAddr \<Rightarrow> bytes" where
  "addr_store addr = le_bytes 4 (ucast (idx addr)) @ le_bytes 4 (ucast (off addr))"

text \<open>\<^verbatim>\<open>endian.Uint32\<close> reads the first four bytes and panics on fewer.\<close>

definition Uint32 :: "bytes \<Rightarrow> u32 option" where
  "Uint32 src = (if length src < 4 then None else Some (ucast (le_word (take 4 src))))"

definition addr_load :: "bytes \<Rightarrow> memdbMemCamAddr option" where
  "addr_load src =
     do {
       i \<leftarrow> Uint32 src;
       j \<leftarrow> Uint32 (drop 4 src);
       Some \<lparr>idx = i, off = j\<rparr>
     }"

section \<open>Blocks\<close>

definition maxBlockSize :: nat where
  "maxBlockSize = 134217728"

definition initBlockSize :: nat where
  "initBlockSize = 4096"

definition alignMask :: u64 where
  "alignMask = 4294967288"

text \<open>\<open>blen\<close> is the field \<open>length\<close>: how many bytes of the block are in use.\<close>

record memdbMemCamBlock =
  buf :: bytes
  blen :: nat

text \<open>An allocation in a block gives its offset; \<open>None\<close> stands for \<open>nullBlockOffset\<close>, the block is full.\<close>

definition block_alloc :: "nat \<Rightarrow> bool \<Rightarrow> memdbMemCamBlock \<Rightarrow> (u32 \<times> memdbMemCamBlock) option" where
  "block_alloc sz align a =
     (let offset = (if align then unat ((word_of_nat (blen a + 7) :: u64) AND alignMask) else blen a);
          newLen = offset + sz
      in if newLen > length (buf a) then None else Some (word_of_nat offset, a\<lparr>blen := newLen\<rparr>))"

section \<open>The arena\<close>

record memdbMemCam =
  blockSize :: nat
  blocks :: "memdbMemCamBlock list"

definition empty_cam :: memdbMemCam where
  "empty_cam = \<lparr>blockSize = 0, blocks = []\<rparr>"

text \<open>The loop that doubles the block size; from a size of zero it would not end.\<close>

partial_function (option) grow :: "nat \<Rightarrow> nat \<Rightarrow> nat option" where
  "grow allocSize bs = (if bs \<le> allocSize then grow allocSize (2 * bs) else Some bs)"

definition enlarge :: "nat \<Rightarrow> nat \<Rightarrow> memdbMemCam \<Rightarrow> memdbMemCam option" where
  "enlarge allocSize bs a =
     map_option (\<lambda>n. let m = (if n > maxBlockSize then maxBlockSize else n)
       in \<lparr>blockSize = m, blocks = blocks a @ [\<lparr>buf = replicate m 0, blen = 0\<rparr>]\<rparr>) (grow allocSize bs)"

definition allocInLastBlock :: "nat \<Rightarrow> bool \<Rightarrow> memdbMemCam \<Rightarrow> (memdbMemCamAddr \<times> memdbMemCam) option" where
  "allocInLastBlock sz align a =
     (let i = length (blocks a) - 1
      in map_option (\<lambda>(offset, b). (\<lparr>idx = word_of_nat i, off = offset\<rparr>, a\<lparr>blocks := (blocks a)[i := b]\<rparr>))
           (block_alloc sz align (blocks a ! i)))"

definition alloc :: "nat \<Rightarrow> bool \<Rightarrow> memdbMemCam \<Rightarrow> (memdbMemCamAddr \<times> memdbMemCam) option" where
  "alloc sz align a =
     (if sz > maxBlockSize then None
      else do {
        a0 \<leftarrow> (if blocks a = [] then enlarge sz initBlockSize a else Some a);
        (case allocInLastBlock sz align a0 of
           Some r \<Rightarrow> Some r
         | None \<Rightarrow> do {
             a1 \<leftarrow> enlarge sz (2 * blockSize a0) a0;
             allocInLastBlock sz align a1
           })
      })"

text \<open>The bytes of an allocation are written into the buffer of its block.\<close>

definition write_bytes :: "bytes \<Rightarrow> nat \<Rightarrow> bytes \<Rightarrow> bytes" where
  "write_bytes dst n src = take n dst @ src @ drop (n + length src) dst"

definition write_at :: "nat \<Rightarrow> nat \<Rightarrow> bytes \<Rightarrow> memdbMemCam \<Rightarrow> memdbMemCam" where
  "write_at i n src a = a\<lparr>blocks := (blocks a)[i := (blocks a ! i)\<lparr>buf := write_bytes (buf (blocks a ! i)) n src\<rparr>]\<rparr>"

definition block_buf :: "memdbMemCam \<Rightarrow> int \<Rightarrow> bytes option" where
  "block_buf a i = (if 0 \<le> i \<and> i < int (length (blocks a)) then Some (buf (blocks a ! nat i)) else None)"

section \<open>Checkpoints\<close>

record memdbCheckpoint =
  cp_blockSize :: nat
  cp_blocks :: int
  cp_offsetInBlock :: int

definition isSamePosition :: "memdbCheckpoint \<Rightarrow> memdbCheckpoint \<Rightarrow> bool" where
  "isSamePosition cp other = (cp_blocks cp = cp_blocks other \<and> cp_offsetInBlock cp = cp_offsetInBlock other)"

definition checkpoint :: "memdbMemCam \<Rightarrow> memdbCheckpoint" where
  "checkpoint a =
     \<lparr>cp_blockSize = blockSize a, cp_blocks = int (length (blocks a)),
      cp_offsetInBlock = (if length (blocks a) > 0 then int (blen (last (blocks a))) else 0)\<rparr>"

text \<open>Cutting the blocks back to a checkpoint panics on a checkpoint with more blocks than there are.\<close>

definition cam_truncate :: "memdbCheckpoint \<Rightarrow> memdbMemCam \<Rightarrow> memdbMemCam option" where
  "cam_truncate snap a =
     (if cp_blocks snap < 0 \<or> cp_blocks snap > int (length (blocks a)) then None
      else (let bs = take (nat (cp_blocks snap)) (blocks a);
                bs' = (if length bs > 0 then butlast bs @ [(last bs)\<lparr>blen := nat (cp_offsetInBlock snap)\<rparr>] else bs)
            in Some (a\<lparr>blocks := bs', blockSize := cp_blockSize snap\<rparr>)))"

definition cam_reset :: "memdbMemCam \<Rightarrow> memdbMemCam" where
  "cam_reset a = a\<lparr>blocks := [], blockSize := 0\<rparr>"

section \<open>The value log\<close>

definition memdbVlogHdrSize :: nat where
  "memdbVlogHdrSize = 20"

record memdbVlogHdr =
  hdr_nodeAddr :: memdbMemCamAddr
  hdr_oldValue :: memdbMemCamAddr
  hdr_valueLen :: u32

definition hdr_store :: "memdbVlogHdr \<Rightarrow> bytes" where
  "hdr_store hdr = le_bytes 4 (ucast (hdr_valueLen hdr)) @ addr_store (hdr_oldValue hdr) @ addr_store (hdr_nodeAddr hdr)"

definition hdr_load :: "bytes \<Rightarrow> memdbVlogHdr option" where
  "hdr_load src =
     do {
       n \<leftarrow> Uint32 src;
       old \<leftarrow> addr_load (drop 4 src);
       node \<leftarrow> addr_load (drop 12 src);
       Some \<lparr>hdr_nodeAddr = node, hdr_oldValue = old, hdr_valueLen = n\<rparr>
     }"

text \<open>The address of an entry is where it ends.\<close>

definition appendValue :: "memdbMemCamAddr \<Rightarrow> memdbMemCamAddr \<Rightarrow> bytes \<Rightarrow> memdbMemCam \<Rightarrow> (memdbMemCamAddr \<times> memdbMemCam) option" where
  "appendValue nodeAddr oldValue value l =
     (let sz = memdbVlogHdrSize + length value
      in do {
        (addr, l1) \<leftarrow> alloc sz False l;
        let hdr = \<lparr>hdr_nodeAddr = nodeAddr, hdr_oldValue = oldValue, hdr_valueLen = word_of_nat (length value)\<rparr>;
        Some (addr\<lparr>off := off addr + word_of_nat sz\<rparr>,
              write_at (unat (idx addr)) (unat (off addr)) (value @ hdr_store hdr) l1)
      })"

text \<open>The slice \<open>block[valueOff:lenOff]\<close> panics on bounds in the wrong order or past the block.\<close>

definition slice :: "bytes \<Rightarrow> nat \<Rightarrow> nat \<Rightarrow> bytes option" where
  "slice b i j = (if i \<le> j \<and> j \<le> length b then Some (take (j - i) (drop i b)) else None)"

definition tombstone :: bytes where
  "tombstone = []"

definition getValue :: "memdbMemCam \<Rightarrow> memdbMemCamAddr \<Rightarrow> bytes option" where
  "getValue l addr =
     (let lenOff = off addr - word_of_nat memdbVlogHdrSize
      in do {
        block \<leftarrow> block_buf l (uint (idx addr));
        valueLen \<leftarrow> Uint32 (drop (unat lenOff) block);
        if valueLen = 0 then Some tombstone
        else slice block (unat (lenOff - valueLen)) (unat lenOff)
      })"

text \<open>Whether the value at an address is newer than the checkpoint, if there is one.\<close>

definition canModify :: "memdbCheckpoint option \<Rightarrow> memdbMemCamAddr \<Rightarrow> bool" where
  "canModify cp' addr =
     (case cp' of
        None \<Rightarrow> True
      | Some cp \<Rightarrow>
          if uint (idx addr) > cp_blocks cp - 1 then True
          else uint (idx addr) = cp_blocks cp - 1 \<and> uint (off addr) > cp_offsetInBlock cp)"

text \<open>The newest value of a chain that is not newer than the snapshot.\<close>

partial_function (option) getSnapshotValue :: "memdbMemCam \<Rightarrow> memdbCheckpoint \<Rightarrow> memdbMemCamAddr \<Rightarrow> bytes option option" where
  "getSnapshotValue l snap addr =
     (if addr = nullAddr then Some None
      else if \<not> canModify (Some snap) addr then map_option Some (getValue l addr)
      else do {
        block \<leftarrow> block_buf l (uint (idx addr));
        hdr \<leftarrow> hdr_load (drop (unat (off addr - word_of_nat memdbVlogHdrSize)) block);
        getSnapshotValue l snap (hdr_oldValue hdr)
      })"

definition moveBackCursor :: "memdbMemCam \<Rightarrow> memdbVlogHdr \<Rightarrow> memdbCheckpoint \<Rightarrow> memdbCheckpoint option" where
  "moveBackCursor l hdr cursor =
     (let o1 = cp_offsetInBlock cursor - (int memdbVlogHdrSize + uint (hdr_valueLen hdr));
          c1 = cursor\<lparr>cp_offsetInBlock := o1\<rparr>
      in if o1 = 0 then
           (let c2 = c1\<lparr>cp_blocks := cp_blocks c1 - 1\<rparr>
            in if cp_blocks c2 > 0 then
                 (if cp_blocks c2 \<le> int (length (blocks l))
                  then Some (c2\<lparr>cp_offsetInBlock := int (blen (blocks l ! nat (cp_blocks c2 - 1)))\<rparr>) else None)
               else Some c2)
         else Some c1)"

text \<open>The header below a cursor, with the bytes of the block it is in.\<close>

definition hdr_below :: "memdbMemCam \<Rightarrow> memdbCheckpoint \<Rightarrow> (memdbVlogHdr \<times> bytes) option" where
  "hdr_below l cursor =
     (let hdrOff = cp_offsetInBlock cursor - int memdbVlogHdrSize
      in do {
        block \<leftarrow> block_buf l (cp_blocks cursor - 1);
        hdr \<leftarrow> (if 0 \<le> hdrOff then hdr_load (drop (nat hdrOff) block) else None);
        Some (hdr, block)
      })"

end
