(* ===== verification/Memdb.thy ===== *)
theory Memdb
  imports Memdb_Arena
begin

text \<open>
  \<^verbatim>\<open>memdb.go\<close>, the transaction's buffer: a red-black tree whose nodes live in one arena and whose values
  live in a log in another, so that the values, but not the flags, can be rolled back to a checkpoint. The
  memory of the nodes is a function from addresses to records, where a pointer to a node is its address; the
  null address is the dummy node that ends the tree. Fresh memory is zero. The loops follow pointers and
  need not end for every memory: they are partial functions, and \<open>None\<close> is a panic or a loop without end.
  The locks serialise the operations and are left out.
\<close>

section \<open>Key flags\<close>

type_synonym KeyFlags = u8

definition flagPresumeKNE :: KeyFlags where "flagPresumeKNE = 1"
definition flagKeyLocked :: KeyFlags where "flagKeyLocked = 2"
definition flagKeyLockedValExist :: KeyFlags where "flagKeyLockedValExist = 4"
definition flagNeedCheckExists :: KeyFlags where "flagNeedCheckExists = 8"
definition flagNoNeedCommit :: KeyFlags where "flagNoNeedCommit = 16"

definition persistentFlags :: KeyFlags where
  "persistentFlags = flagKeyLocked OR flagKeyLockedValExist"

definition nodeDefCausorBit :: u8 where
  "nodeDefCausorBit = 128"

definition nodeFlagsMask :: u8 where
  "nodeFlagsMask = NOT nodeDefCausorBit"

definition HasPresumeKeyNotExists :: "KeyFlags \<Rightarrow> bool" where
  "HasPresumeKeyNotExists f = (f AND flagPresumeKNE \<noteq> 0)"

definition HasLocked :: "KeyFlags \<Rightarrow> bool" where
  "HasLocked f = (f AND flagKeyLocked \<noteq> 0)"

definition HasLockedValueExists :: "KeyFlags \<Rightarrow> bool" where
  "HasLockedValueExists f = (f AND flagKeyLockedValExist \<noteq> 0)"

definition HasNeedCheckExists :: "KeyFlags \<Rightarrow> bool" where
  "HasNeedCheckExists f = (f AND flagNeedCheckExists \<noteq> 0)"

definition HasNoNeedCommit :: "KeyFlags \<Rightarrow> bool" where
  "HasNoNeedCommit f = (f AND flagNoNeedCommit \<noteq> 0)"

datatype FlagsOp =
    SetPresumeKeyNotExists | DelPresumeKeyNotExists | SetKeyLocked | DelKeyLocked
  | SetKeyLockedValueExists | SetKeyLockedValueNotExists | DelNeedCheckExists | SetNoNeedCommit

fun applyFlagsOp :: "FlagsOp \<Rightarrow> KeyFlags \<Rightarrow> KeyFlags" where
  "applyFlagsOp SetPresumeKeyNotExists origin = origin OR (flagPresumeKNE OR flagNeedCheckExists)"
| "applyFlagsOp DelPresumeKeyNotExists origin = origin AND NOT (flagPresumeKNE OR flagNeedCheckExists)"
| "applyFlagsOp SetKeyLocked origin = origin OR flagKeyLocked"
| "applyFlagsOp DelKeyLocked origin = origin AND NOT flagKeyLocked"
| "applyFlagsOp SetKeyLockedValueExists origin = origin OR flagKeyLockedValExist"
| "applyFlagsOp DelNeedCheckExists origin = origin AND NOT flagNeedCheckExists"
| "applyFlagsOp SetKeyLockedValueNotExists origin = origin AND NOT flagKeyLockedValExist"
| "applyFlagsOp SetNoNeedCommit origin = origin OR flagNoNeedCommit"

definition applyFlagsOps :: "KeyFlags \<Rightarrow> FlagsOp list \<Rightarrow> KeyFlags" where
  "applyFlagsOps origin ops = fold applyFlagsOp ops origin"

section \<open>Nodes\<close>

text \<open>The bytes of the key follow the node in memory: \<open>nkey\<close> are the ones that were copied there.\<close>

record memdbNode =
  up :: memdbMemCamAddr
  left :: memdbMemCamAddr
  right :: memdbMemCamAddr
  vptr :: memdbMemCamAddr
  klen :: u16
  flags :: u8
  nkey :: bytes

definition zeroNode :: memdbNode where
  "zeroNode = (let z = \<lparr>idx = 0, off = 0\<rparr>
    in \<lparr>up = z, left = z, right = z, vptr = z, klen = 0, flags = 0, nkey = []\<rparr>)"

definition nullNode :: memdbNode where
  "nullNode = \<lparr>up = nullAddr, left = nullAddr, right = nullAddr, vptr = nullAddr, klen = 0, flags = 0, nkey = []\<rparr>"

definition isRed :: "memdbNode \<Rightarrow> bool" where
  "isRed n = (flags n AND nodeDefCausorBit \<noteq> 0)"

definition isBlack :: "memdbNode \<Rightarrow> bool" where
  "isBlack n = (\<not> isRed n)"

definition paintRed :: "memdbNode \<Rightarrow> memdbNode" where
  "paintRed n = n\<lparr>flags := flags n OR nodeDefCausorBit\<rparr>"

definition paintBlack :: "memdbNode \<Rightarrow> memdbNode" where
  "paintBlack n = n\<lparr>flags := flags n AND NOT nodeDefCausorBit\<rparr>"

definition getKey :: "memdbNode \<Rightarrow> bytes" where
  "getKey n = take (unat (klen n)) (nkey n)"

definition getKeyFlags :: "memdbNode \<Rightarrow> KeyFlags" where
  "getKeyFlags n = flags n AND nodeFlagsMask"

definition setKeyFlags :: "KeyFlags \<Rightarrow> memdbNode \<Rightarrow> memdbNode" where
  "setKeyFlags f n = n\<lparr>flags := ((NOT nodeFlagsMask) AND flags n) OR f\<rparr>"

section \<open>State\<close>

record memdb =
  root :: memdbMemCamAddr
  allocator :: memdbMemCam
  mem :: "memdbMemCamAddr \<Rightarrow> memdbNode"
  vlog :: memdbMemCam
  entrySizeLimit :: u64
  bufferSizeLimit :: u64
  db_count :: int
  db_size :: int
  vlogInvalid :: bool
  dirty :: bool
  stages :: "memdbCheckpoint list"
  testMode :: bool

datatype memdb_err = ErrNotExist | ErrCannotSetNilValue | ErrEntryTooLarge u64 u64 | ErrTxnTooLarge int

definition fresh_mem :: "memdbMemCamAddr \<Rightarrow> memdbNode" where
  "fresh_mem = (\<lambda>a. zeroNode)(nullAddr := nullNode)"

text \<open>The two limits are the package's variables at the time, \<open>test\<close> its variable \<open>testMode\<close>.\<close>

definition newMemDB :: "u64 \<Rightarrow> u64 \<Rightarrow> bool \<Rightarrow> memdb" where
  "newMemDB entryLimit totalLimit test =
     \<lparr>root = nullAddr, allocator = empty_cam, mem = fresh_mem, vlog = empty_cam, entrySizeLimit = entryLimit,
      bufferSizeLimit = totalLimit, db_count = 0, db_size = 0, vlogInvalid = False, dirty = False, stages = [], testMode = test\<rparr>"

definition on_node :: "memdbMemCamAddr \<Rightarrow> (memdbNode \<Rightarrow> memdbNode) \<Rightarrow> memdb \<Rightarrow> memdb" where
  "on_node a f db = db\<lparr>mem := (mem db)(a := f (mem db a))\<rparr>"

definition set_up :: "memdbMemCamAddr \<Rightarrow> memdbMemCamAddr \<Rightarrow> memdb \<Rightarrow> memdb" where
  "set_up a b = on_node a (\<lambda>n. n\<lparr>up := b\<rparr>)"

definition set_left :: "memdbMemCamAddr \<Rightarrow> memdbMemCamAddr \<Rightarrow> memdb \<Rightarrow> memdb" where
  "set_left a b = on_node a (\<lambda>n. n\<lparr>left := b\<rparr>)"

definition set_right :: "memdbMemCamAddr \<Rightarrow> memdbMemCamAddr \<Rightarrow> memdb \<Rightarrow> memdb" where
  "set_right a b = on_node a (\<lambda>n. n\<lparr>right := b\<rparr>)"

definition set_vptr :: "memdbMemCamAddr \<Rightarrow> memdbMemCamAddr \<Rightarrow> memdb \<Rightarrow> memdb" where
  "set_vptr a b = on_node a (\<lambda>n. n\<lparr>vptr := b\<rparr>)"

definition setRed :: "memdbMemCamAddr \<Rightarrow> memdb \<Rightarrow> memdb" where
  "setRed a = on_node a paintRed"

definition setBlack :: "memdbMemCamAddr \<Rightarrow> memdb \<Rightarrow> memdb" where
  "setBlack a = on_node a paintBlack"

section \<open>Rotations\<close>

definition leftRotate :: "memdbMemCamAddr \<Rightarrow> memdb \<Rightarrow> memdb" where
  "leftRotate x db =
     (let y = right (mem db x);
          db1 = set_right x (left (mem db y)) db;
          db2 = (if left (mem db1 y) \<noteq> nullAddr then set_up (left (mem db1 y)) x db1 else db1);
          db3 = set_up y (up (mem db2 x)) db2;
          xUp = up (mem db3 x);
          db4 = (if xUp = nullAddr then db3\<lparr>root := y\<rparr>
                 else if x = left (mem db3 xUp) then set_left xUp y db3
                 else set_right xUp y db3);
          db5 = set_left y x db4
      in set_up x y db5)"

definition rightRotate :: "memdbMemCamAddr \<Rightarrow> memdb \<Rightarrow> memdb" where
  "rightRotate y db =
     (let x = left (mem db y);
          db1 = set_left y (right (mem db x)) db;
          db2 = (if right (mem db1 x) \<noteq> nullAddr then set_up (right (mem db1 x)) y db1 else db1);
          db3 = set_up x (up (mem db2 y)) db2;
          yUp = up (mem db3 y);
          db4 = (if yUp = nullAddr then db3\<lparr>root := x\<rparr>
                 else if y = left (mem db3 yUp) then set_left yUp x db3
                 else set_right yUp x db3);
          db5 = set_right x y db4
      in set_up y x db5)"

section \<open>Finding and inserting a node\<close>

text \<open>The walk down: the node of the key, or null, and the last node seen.\<close>

partial_function (option) walk ::
  "memdb \<Rightarrow> bytes \<Rightarrow> memdbMemCamAddr \<Rightarrow> memdbMemCamAddr \<Rightarrow> (memdbMemCamAddr \<times> memdbMemCamAddr) option" where
  "walk db key x y =
     (if x = nullAddr then Some (x, y)
      else if bytes_Compare key (getKey (mem db x)) < 0 then walk db key (left (mem db x)) x
      else if bytes_Compare key (getKey (mem db x)) > 0 then walk db key (right (mem db x)) x
      else Some (x, x))"

definition allocNode :: "bytes \<Rightarrow> memdb \<Rightarrow> (memdbMemCamAddr \<times> memdb) option" where
  "allocNode key db =
     (let nodeSize = 8 * 4 + 2 + 1 + length key; n = word_of_nat (length key)
      in map_option (\<lambda>(a, al).
           (a, db\<lparr>allocator := al, db_size := db_size db + int (length key), db_count := db_count db + 1,
                  mem := (mem db)(a := zeroNode\<lparr>vptr := nullAddr, klen := n, nkey := take (unat n) key\<rparr>)\<rparr>))
           (alloc nodeSize True (allocator db)))"

text \<open>The walk up that balances the tree after a red node was added.\<close>

partial_function (option) insertFix :: "memdbMemCamAddr \<Rightarrow> memdb \<Rightarrow> memdb option" where
  "insertFix x db =
     (if x = root db then Some db
      else (let xUp = up (mem db x)
            in if isBlack (mem db xUp) then Some db
               else (let xUpUp = up (mem db xUp)
                     in if xUp = left (mem db xUpUp) then
                          (let y = right (mem db xUpUp)
                           in if isRed (mem db y) then
                                insertFix xUpUp (setRed xUpUp (setBlack y (setBlack xUp db)))
                              else if x = right (mem db xUp) then
                                (let db1 = leftRotate xUp db; xUp1 = up (mem db1 xUp); xUpUp1 = up (mem db1 xUp1)
                                 in insertFix xUp (rightRotate xUpUp1 (setRed xUpUp1 (setBlack xUp1 db1))))
                              else insertFix x (rightRotate xUpUp (setRed xUpUp (setBlack xUp db))))
                        else
                          (let y = left (mem db xUpUp)
                           in if isRed (mem db y) then
                                insertFix xUpUp (setRed xUpUp (setBlack y (setBlack xUp db)))
                              else if x = left (mem db xUp) then
                                (let db1 = rightRotate xUp db; xUp1 = up (mem db1 xUp); xUpUp1 = up (mem db1 xUp1)
                                 in insertFix xUp (leftRotate xUpUp1 (setRed xUpUp1 (setBlack xUp1 db1))))
                              else insertFix x (leftRotate xUpUp (setRed xUpUp (setBlack xUp db)))))))"

definition traverse :: "bytes \<Rightarrow> bool \<Rightarrow> memdb \<Rightarrow> (memdbMemCamAddr \<times> memdb) option" where
  "traverse key ins db =
     do {
       (x, y) \<leftarrow> walk db key (root db) nullAddr;
       if x \<noteq> nullAddr \<or> \<not> ins then Some (x, db)
       else do {
         (z, db1) \<leftarrow> allocNode key db;
         let db2 = set_up z y db1;
         let db3 = (if y = nullAddr then db2\<lparr>root := z\<rparr>
                    else if bytes_Compare (getKey (mem db2 z)) (getKey (mem db2 y)) < 0 then set_left y z db2
                    else set_right y z db2);
         let db4 = setRed z (set_right z nullAddr (set_left z nullAddr db3));
         db5 \<leftarrow> insertFix z db4;
         Some (z, setBlack (root db5) db5)
       }
     }"

section \<open>Neighbours\<close>

partial_function (option) leftmost :: "memdb \<Rightarrow> memdbMemCamAddr \<Rightarrow> memdbMemCamAddr option" where
  "leftmost db y = (if left (mem db y) \<noteq> nullAddr then leftmost db (left (mem db y)) else Some y)"

partial_function (option) rightmost :: "memdb \<Rightarrow> memdbMemCamAddr \<Rightarrow> memdbMemCamAddr option" where
  "rightmost db y = (if right (mem db y) \<noteq> nullAddr then rightmost db (right (mem db y)) else Some y)"

partial_function (option) up_from_right :: "memdb \<Rightarrow> memdbMemCamAddr \<Rightarrow> memdbMemCamAddr \<Rightarrow> memdbMemCamAddr option" where
  "up_from_right db x y =
     (if y \<noteq> nullAddr \<and> x = right (mem db y) then up_from_right db y (up (mem db y)) else Some y)"

partial_function (option) up_from_left :: "memdb \<Rightarrow> memdbMemCamAddr \<Rightarrow> memdbMemCamAddr \<Rightarrow> memdbMemCamAddr option" where
  "up_from_left db x y =
     (if y \<noteq> nullAddr \<and> x = left (mem db y) then up_from_left db y (up (mem db y)) else Some y)"

definition successor :: "memdb \<Rightarrow> memdbMemCamAddr \<Rightarrow> memdbMemCamAddr option" where
  "successor db x =
     (if right (mem db x) \<noteq> nullAddr then leftmost db (right (mem db x)) else up_from_right db x (up (mem db x)))"

definition predecessor :: "memdb \<Rightarrow> memdbMemCamAddr \<Rightarrow> memdbMemCamAddr option" where
  "predecessor db x =
     (if left (mem db x) \<noteq> nullAddr then rightmost db (left (mem db x)) else up_from_left db x (up (mem db x)))"

section \<open>Deleting a node\<close>

definition replaceNode :: "memdbMemCamAddr \<Rightarrow> memdbMemCamAddr \<Rightarrow> memdb \<Rightarrow> memdb" where
  "replaceNode old new db =
     (let oldUp = up (mem db old);
          db1 = (if oldUp \<noteq> nullAddr
                 then (if old = left (mem db oldUp) then set_left oldUp new db else set_right oldUp new db)
                 else db\<lparr>root := new\<rparr>);
          db2 = set_up new (up (mem db1 old)) db1;
          db3 = set_up (left (mem db2 old)) new db2;
          db4 = set_left new (left (mem db3 old)) db3;
          db5 = set_up (right (mem db4 old)) new db4;
          db6 = set_right new (right (mem db5 old)) db5
      in if isBlack (mem db6 old) then setBlack new db6 else setRed new db6)"

partial_function (option) deleteNodeFix :: "memdbMemCamAddr \<Rightarrow> memdb \<Rightarrow> memdb option" where
  "deleteNodeFix x db =
     (if x \<noteq> root db \<and> isBlack (mem db x) then
        (let xUp = up (mem db x)
         in if x = left (mem db xUp) then
              (let w0 = right (mem db xUp);
                   db1 = (if isRed (mem db w0) then leftRotate xUp (setRed xUp (setBlack w0 db)) else db);
                   w = (if isRed (mem db w0) then right (mem db1 (up (mem db1 x))) else w0)
               in if isBlack (mem db1 (left (mem db1 w))) \<and> isBlack (mem db1 (right (mem db1 w))) then
                    (let db2 = setRed w db1 in deleteNodeFix (up (mem db2 x)) db2)
                  else
                    (let far = isBlack (mem db1 (right (mem db1 w)));
                         db2 = (if far then rightRotate w (setRed w (setBlack (left (mem db1 w)) db1)) else db1);
                         w' = (if far then right (mem db2 (up (mem db2 x))) else w);
                         xUp' = up (mem db2 x);
                         db3 = (if isBlack (mem db2 xUp') then setBlack w' db2 else setRed w' db2);
                         db4 = setBlack xUp' db3;
                         db5 = setBlack (right (mem db4 w')) db4;
                         db6 = leftRotate xUp' db5
                     in deleteNodeFix (root db6) db6))
            else
              (let w0 = left (mem db xUp);
                   db1 = (if isRed (mem db w0) then rightRotate xUp (setRed xUp (setBlack w0 db)) else db);
                   w = (if isRed (mem db w0) then left (mem db1 (up (mem db1 x))) else w0)
               in if isBlack (mem db1 (right (mem db1 w))) \<and> isBlack (mem db1 (left (mem db1 w))) then
                    (let db2 = setRed w db1 in deleteNodeFix (up (mem db2 x)) db2)
                  else
                    (let far = isBlack (mem db1 (left (mem db1 w)));
                         db2 = (if far then leftRotate w (setRed w (setBlack (right (mem db1 w)) db1)) else db1);
                         w' = (if far then left (mem db2 (up (mem db2 x))) else w);
                         xUp' = up (mem db2 x);
                         db3 = (if isBlack (mem db2 xUp') then setBlack w' db2 else setRed w' db2);
                         db4 = setBlack xUp' db3;
                         db5 = setBlack (left (mem db4 w')) db4;
                         db6 = rightRotate xUp' db5
                     in deleteNodeFix (root db6) db6)))
      else Some (setBlack x db))"

text \<open>A freed node is kept; in test mode its pointers are spoilt.\<close>

definition freeNode :: "memdbMemCamAddr \<Rightarrow> memdb \<Rightarrow> memdb" where
  "freeNode a db =
     (if testMode db
      then (let bad = nullAddr\<lparr>idx := idx nullAddr - 1\<rparr>
            in on_node a (\<lambda>n. n\<lparr>left := bad, right := bad, up := bad, vptr := bad\<rparr>) db)
      else db)"

definition deleteNode :: "memdbMemCamAddr \<Rightarrow> memdb \<Rightarrow> memdb option" where
  "deleteNode z db =
     (let db0 = db\<lparr>db_count := db_count db - 1, db_size := db_size db - uint (klen (mem db z))\<rparr>
      in do {
        y \<leftarrow> (if left (mem db0 z) = nullAddr \<or> right (mem db0 z) = nullAddr then Some z else successor db0 z);
        let x = (if left (mem db0 y) \<noteq> nullAddr then left (mem db0 y) else right (mem db0 y));
        let db1 = set_up x (up (mem db0 y)) db0;
        let yUp = up (mem db1 y);
        let db2 = (if yUp = nullAddr then db1\<lparr>root := x\<rparr>
                   else if y = left (mem db1 yUp) then set_left yUp x db1
                   else set_right yUp x db1);
        let needFix = isBlack (mem db2 y);
        let db3 = (if y \<noteq> z then replaceNode z y db2 else db2);
        db4 \<leftarrow> (if needFix then deleteNodeFix x db3 else Some db3);
        Some (freeNode z db4)
      })"

section \<open>Reading and writing\<close>

definition memdb_Get :: "bytes \<Rightarrow> memdb \<Rightarrow> (memdb_err + bytes) option" where
  "memdb_Get key db =
     (if vlogInvalid db then None
      else do {
        (x, db') \<leftarrow> traverse key False db;
        if x = nullAddr then Some (Inl ErrNotExist)
        else if vptr (mem db x) = nullAddr then Some (Inl ErrNotExist)
        else map_option Inr (getValue (vlog db) (vptr (mem db x)))
      })"

definition GetFlags :: "bytes \<Rightarrow> memdb \<Rightarrow> (memdb_err + KeyFlags) option" where
  "GetFlags key db =
     do {
       (x, db') \<leftarrow> traverse key False db;
       if x = nullAddr then Some (Inl ErrNotExist) else Some (Inr (getKeyFlags (mem db x)))
     }"

text \<open>A value of the length of the one it replaces is copied over it if no checkpoint protects that one.\<close>

definition setValue :: "memdbMemCamAddr \<Rightarrow> bytes \<Rightarrow> memdb \<Rightarrow> memdb option" where
  "setValue x v db =
     (let activeCp = (if length (stages db) > 0 then Some (last (stages db)) else None);
          old = vptr (mem db x)
      in do {
        oldVal \<leftarrow> (if old \<noteq> nullAddr then getValue (vlog db) old else Some []);
        if length oldVal > 0 \<and> canModify activeCp old \<and> length oldVal = length v
        then Some (db\<lparr>vlog := write_at (unat (idx old))
               (unat (off old - word_of_nat memdbVlogHdrSize - word_of_nat (length oldVal))) v (vlog db)\<rparr>)
        else do {
          (a, l) \<leftarrow> appendValue x old v (vlog db);
          Some ((set_vptr x a (db\<lparr>vlog := l\<rparr>))\<lparr>db_size := db_size db - int (length oldVal) + int (length v)\<rparr>)
        }
      })"

text \<open>The parts of \<open>set\<close>: the flags of the node, and its value.\<close>

definition set_flags :: "memdbMemCamAddr \<Rightarrow> FlagsOp list \<Rightarrow> memdb \<Rightarrow> memdb" where
  "set_flags x ops db =
     (if length ops \<noteq> 0
      then (let f = applyFlagsOps (getKeyFlags (mem db x)) ops;
                db' = (if f AND persistentFlags \<noteq> 0 then db\<lparr>dirty := True\<rparr> else db)
            in on_node x (setKeyFlags f) db')
      else db)"

definition set_node_value :: "memdbMemCamAddr \<Rightarrow> bytes option \<Rightarrow> memdb \<Rightarrow> (memdb_err option \<times> memdb) option" where
  "set_node_value x v' db =
     (case v' of
        None \<Rightarrow> Some (None, db)
      | Some v \<Rightarrow>
          map_option (\<lambda>db'. (if word_of_int (db_size db') > bufferSizeLimit db' then Some (ErrTxnTooLarge (db_size db')) else None, db'))
            (setValue x v db))"

definition entry_size :: "bytes \<Rightarrow> bytes option \<Rightarrow> u64" where
  "entry_size key v' = (case v' of None \<Rightarrow> 0 | Some v \<Rightarrow> word_of_nat (length key + length v))"

definition set_entry :: "bytes \<Rightarrow> bytes option \<Rightarrow> FlagsOp list \<Rightarrow> memdb \<Rightarrow> (memdb_err option \<times> memdb) option" where
  "set_entry key v' ops db =
     (if vlogInvalid db then None
      else if v' \<noteq> None \<and> entry_size key v' > entrySizeLimit db
      then Some (Some (ErrEntryTooLarge (entrySizeLimit db) (entry_size key v')), db)
      else do {
        (x, db1) \<leftarrow> traverse key True (if length (stages db) = 0 then db\<lparr>dirty := True\<rparr> else db);
        set_node_value x v' (set_flags x ops db1)
      })"

definition UFIDelateFlags :: "bytes \<Rightarrow> FlagsOp list \<Rightarrow> memdb \<Rightarrow> memdb option" where
  "UFIDelateFlags key ops db = map_option snd (set_entry key None ops db)"

definition memdb_Set :: "bytes \<Rightarrow> bytes \<Rightarrow> memdb \<Rightarrow> (memdb_err option \<times> memdb) option" where
  "memdb_Set key v db = (if length v = 0 then Some (Some ErrCannotSetNilValue, db) else set_entry key (Some v) [] db)"

definition SetWithFlags :: "bytes \<Rightarrow> bytes \<Rightarrow> FlagsOp list \<Rightarrow> memdb \<Rightarrow> (memdb_err option \<times> memdb) option" where
  "SetWithFlags key v ops db = (if length v = 0 then Some (Some ErrCannotSetNilValue, db) else set_entry key (Some v) ops db)"

definition memdb_Delete :: "bytes \<Rightarrow> memdb \<Rightarrow> (memdb_err option \<times> memdb) option" where
  "memdb_Delete key db = set_entry key (Some tombstone) [] db"

definition Len :: "memdb \<Rightarrow> int" where
  "Len db = db_count db"

definition Size :: "memdb \<Rightarrow> int" where
  "Size db = db_size db"

definition Dirty :: "memdb \<Rightarrow> bool" where
  "Dirty db = dirty db"

section \<open>Staging\<close>

definition Staging :: "memdb \<Rightarrow> int \<times> memdb" where
  "Staging db = (let st = stages db @ [checkpoint (vlog db)] in (int (length st), db\<lparr>stages := st\<rparr>))"

definition Release :: "int \<Rightarrow> memdb \<Rightarrow> memdb option" where
  "Release h db =
     (if h \<noteq> int (length (stages db)) \<or> h = 0 then None
      else (let tail = checkpoint (vlog db);
                db1 = (if h = 1 \<and> \<not> isSamePosition (hd (stages db)) tail then db\<lparr>dirty := True\<rparr> else db)
            in Some (db1\<lparr>stages := butlast (stages db1)\<rparr>)))"

text \<open>The entries of the log after the checkpoint are undone, the newest first.\<close>

partial_function (option) revertToCheckpoint :: "memdbCheckpoint \<Rightarrow> memdbCheckpoint \<Rightarrow> memdb \<Rightarrow> memdb option" where
  "revertToCheckpoint cp cursor db =
     (if isSamePosition cp cursor then Some db
      else do {
        (hdr, block) \<leftarrow> hdr_below (vlog db) cursor;
        let node = hdr_nodeAddr hdr;
        let old = hdr_oldValue hdr;
        let db1 = (set_vptr node old db)\<lparr>db_size := db_size db - uint (hdr_valueLen hdr)\<rparr>;
        db2 \<leftarrow> (if old = nullAddr
                then (let keptFlags = getKeyFlags (mem db1 node) AND persistentFlags
                      in if keptFlags = 0 then deleteNode node db1
                         else Some ((on_node node (setKeyFlags keptFlags) db1)\<lparr>dirty := True\<rparr>))
                else map_option (\<lambda>v. db1\<lparr>db_size := db_size db1 + int (length v)\<rparr>) (getValue (vlog db1) old));
        cursor' \<leftarrow> moveBackCursor (vlog db2) hdr cursor;
        revertToCheckpoint cp cursor' db2
      })"

definition memdb_Cleanup :: "int \<Rightarrow> memdb \<Rightarrow> memdb option" where
  "memdb_Cleanup h db =
     (if h > int (length (stages db)) then Some db
      else if h < int (length (stages db)) \<or> h = 0 then None
      else do {
        let cp = last (stages db);
        db1 \<leftarrow> (if \<not> vlogInvalid db
                then do {
                  db' \<leftarrow> revertToCheckpoint cp (checkpoint (vlog db)) db;
                  l \<leftarrow> cam_truncate cp (vlog db');
                  Some (db'\<lparr>vlog := l\<rparr>)
                }
                else Some db);
        Some (db1\<lparr>stages := butlast (stages db1)\<rparr>)
      })"

definition Reset :: "memdb \<Rightarrow> memdb" where
  "Reset db = db\<lparr>root := nullAddr, stages := [], dirty := False, vlogInvalid := False, db_size := 0, db_count := 0,
     vlog := cam_reset (vlog db), allocator := cam_reset (allocator db), mem := fresh_mem\<rparr>"

definition DiscardValues :: "memdb \<Rightarrow> memdb" where
  "DiscardValues db = db\<lparr>vlogInvalid := True, vlog := cam_reset (vlog db)\<rparr>"

text \<open>The calls \<open>InspectStage\<close> makes of its function, in order.\<close>

partial_function (option) inspectKVInLog ::
  "memdb \<Rightarrow> memdbCheckpoint \<Rightarrow> memdbCheckpoint \<Rightarrow> (bytes \<times> KeyFlags \<times> bytes) list option" where
  "inspectKVInLog db head cursor =
     (if isSamePosition head cursor then Some []
      else do {
        let cursorAddr = \<lparr>idx = word_of_int (cp_blocks cursor - 1), off = word_of_int (cp_offsetInBlock cursor)\<rparr>;
        (hdr, block) \<leftarrow> hdr_below (vlog db) cursor;
        let node = mem db (hdr_nodeAddr hdr);
        let hdrOff = off cursorAddr - word_of_nat memdbVlogHdrSize;
        calls \<leftarrow> (if vptr node = cursorAddr
                  then map_option (\<lambda>v. [(getKey node, getKeyFlags node, v)]) (slice block (unat (hdrOff - hdr_valueLen hdr)) (unat hdrOff))
                  else Some []);
        cursor' \<leftarrow> moveBackCursor (vlog db) hdr cursor;
        rest \<leftarrow> inspectKVInLog db head cursor';
        Some (calls @ rest)
      })"

definition InspectStage :: "int \<Rightarrow> memdb \<Rightarrow> (bytes \<times> KeyFlags \<times> bytes) list option" where
  "InspectStage h db =
     (if 1 \<le> h \<and> h \<le> int (length (stages db))
      then inspectKVInLog db (stages db ! nat (h - 1)) (checkpoint (vlog db)) else None)"

end
