(* ===== verification/Memdb_Iter.thy ===== *)
theory Memdb_Iter
  imports Memdb
begin

text \<open>
  \<^verbatim>\<open>memdb_iterator.go\<close> and \<^verbatim>\<open>memdb_snapshot.go\<close>: iterators over the buffer in either direction, with or without the nodes
  that only have flags, and the reads and iterators of the values at the first stage. The buffer an iterator
  points to is an argument of its methods. A slice that may be nil is an option where nil and empty differ.
\<close>

section \<open>Iterators\<close>

record memdbIterator =
  curr :: memdbMemCamAddr
  start :: bytes
  iend :: "bytes option"
  reverse :: bool
  includeFlags :: bool

definition isFlagsOnly :: "memdb \<Rightarrow> memdbIterator \<Rightarrow> bool" where
  "isFlagsOnly db i = (curr i \<noteq> nullAddr \<and> vptr (mem db (curr i)) = nullAddr)"

definition it_Key :: "memdb \<Rightarrow> memdbIterator \<Rightarrow> bytes" where
  "it_Key db i = getKey (mem db (curr i))"

definition it_Value :: "memdb \<Rightarrow> memdbIterator \<Rightarrow> bytes option" where
  "it_Value db i = getValue (vlog db) (vptr (mem db (curr i)))"

definition it_Flags :: "memdb \<Rightarrow> memdbIterator \<Rightarrow> KeyFlags" where
  "it_Flags db i = getKeyFlags (mem db (curr i))"

definition it_HasValue :: "memdb \<Rightarrow> memdbIterator \<Rightarrow> bool" where
  "it_HasValue db i = (\<not> isFlagsOnly db i)"

definition it_Valid :: "memdb \<Rightarrow> memdbIterator \<Rightarrow> bool" where
  "it_Valid db i =
     (if \<not> reverse i
      then curr i \<noteq> nullAddr \<and> (case iend i of None \<Rightarrow> True | Some e \<Rightarrow> bytes_Compare (it_Key db i) e < 0)
      else curr i \<noteq> nullAddr)"

partial_function (option) it_Next :: "memdb \<Rightarrow> memdbIterator \<Rightarrow> memdbIterator option" where
  "it_Next db i =
     do {
       c \<leftarrow> (if reverse i then predecessor db (curr i) else successor db (curr i));
       let i' = i\<lparr>curr := c\<rparr>;
       if includeFlags i' \<or> \<not> isFlagsOnly db i' then Some i' else it_Next db i'
     }"

partial_function (option) to_first :: "memdb \<Rightarrow> memdbMemCamAddr \<Rightarrow> memdbMemCamAddr \<Rightarrow> memdbMemCamAddr option" where
  "to_first db x y = (if x \<noteq> nullAddr then to_first db (left (mem db x)) x else Some y)"

partial_function (option) to_last :: "memdb \<Rightarrow> memdbMemCamAddr \<Rightarrow> memdbMemCamAddr \<Rightarrow> memdbMemCamAddr option" where
  "to_last db x y = (if x \<noteq> nullAddr then to_last db (right (mem db x)) x else Some y)"

definition seekToFirst :: "memdb \<Rightarrow> memdbIterator \<Rightarrow> memdbIterator option" where
  "seekToFirst db i = map_option (\<lambda>c. i\<lparr>curr := c\<rparr>) (to_first db (root db) nullAddr)"

definition seekToLast :: "memdb \<Rightarrow> memdbIterator \<Rightarrow> memdbIterator option" where
  "seekToLast db i = map_option (\<lambda>c. i\<lparr>curr := c\<rparr>) (to_last db (root db) nullAddr)"

text \<open>The search of \<open>seek\<close>: the last node it saw and the last comparison.\<close>

partial_function (option) seek_loop ::
  "memdb \<Rightarrow> bytes \<Rightarrow> memdbMemCamAddr \<Rightarrow> memdbMemCamAddr \<Rightarrow> int \<Rightarrow> (memdbMemCamAddr \<times> int) option" where
  "seek_loop db key x y cmp =
     (if x = nullAddr then Some (y, cmp)
      else let cmp' = bytes_Compare key (getKey (mem db x))
           in if cmp' < 0 then seek_loop db key (left (mem db x)) x cmp'
              else if cmp' > 0 then seek_loop db key (right (mem db x)) x cmp'
              else Some (x, cmp'))"

definition seek :: "memdb \<Rightarrow> bytes \<Rightarrow> memdbIterator \<Rightarrow> memdbIterator option" where
  "seek db key i =
     do {
       (y, cmp) \<leftarrow> seek_loop db key (root db) nullAddr 0;
       c \<leftarrow> (if \<not> reverse i then (if cmp > 0 then successor db y else Some y)
             else if cmp \<le> 0 \<and> y \<noteq> nullAddr then predecessor db y else Some y);
       Some (i\<lparr>curr := c\<rparr>)
     }"

definition it_init :: "memdb \<Rightarrow> memdbIterator \<Rightarrow> memdbIterator option" where
  "it_init db i =
     do {
       i1 \<leftarrow> (if reverse i
              then (case iend i of
                      Some e \<Rightarrow> if length e = 0 then seekToLast db i else seek db e i
                    | None \<Rightarrow> seekToLast db i)
              else if length (start i) = 0 then seekToFirst db i else seek db (start i) i);
       if isFlagsOnly db i1 \<and> \<not> includeFlags i1 then it_Next db i1 else Some i1
     }"

definition Iter :: "memdb \<Rightarrow> bytes \<Rightarrow> bytes option \<Rightarrow> memdbIterator option" where
  "Iter db k upperBound = it_init db \<lparr>curr = nullAddr, start = k, iend = upperBound, reverse = False, includeFlags = False\<rparr>"

definition IterReverse :: "memdb \<Rightarrow> bytes option \<Rightarrow> memdbIterator option" where
  "IterReverse db k = it_init db \<lparr>curr = nullAddr, start = [], iend = k, reverse = True, includeFlags = False\<rparr>"

definition IterWithFlags :: "memdb \<Rightarrow> bytes \<Rightarrow> bytes option \<Rightarrow> memdbIterator option" where
  "IterWithFlags db k upperBound = it_init db \<lparr>curr = nullAddr, start = k, iend = upperBound, reverse = False, includeFlags = True\<rparr>"

definition IterReverseWithFlags :: "memdb \<Rightarrow> bytes option \<Rightarrow> memdbIterator option" where
  "IterReverseWithFlags db k = it_init db \<lparr>curr = nullAddr, start = [], iend = k, reverse = True, includeFlags = True\<rparr>"

section \<open>Snapshots\<close>

definition getSnapshot :: "memdb \<Rightarrow> memdbCheckpoint" where
  "getSnapshot db = (if length (stages db) > 0 then hd (stages db) else checkpoint (vlog db))"

text \<open>The getter of a snapshot is its checkpoint.\<close>

definition SnapshotGetter :: "memdb \<Rightarrow> memdbCheckpoint" where
  "SnapshotGetter db = getSnapshot db"

definition snap_Get :: "memdbCheckpoint \<Rightarrow> bytes \<Rightarrow> memdb \<Rightarrow> (memdb_err + bytes) option" where
  "snap_Get cp key db =
     do {
       (x, db') \<leftarrow> traverse key False db;
       if x = nullAddr then Some (Inl ErrNotExist)
       else if vptr (mem db x) = nullAddr then Some (Inl ErrNotExist)
       else map_option (\<lambda>r. case r of None \<Rightarrow> Inl ErrNotExist | Some v \<Rightarrow> Inr v) (getSnapshotValue (vlog db) cp (vptr (mem db x)))
     }"

record memdbSnapIter =
  snap_it :: memdbIterator
  snap_value :: "bytes option"
  snap_cp :: memdbCheckpoint

definition snap_setValue :: "memdb \<Rightarrow> memdbSnapIter \<Rightarrow> (bool \<times> memdbSnapIter) option" where
  "snap_setValue db i =
     (if \<not> it_Valid db (snap_it i) then Some (False, i)
      else map_option (\<lambda>r. case r of Some v \<Rightarrow> (True, i\<lparr>snap_value := Some v\<rparr>) | None \<Rightarrow> (False, i))
             (getSnapshotValue (vlog db) (snap_cp i) (vptr (mem db (curr (snap_it i))))))"

partial_function (option) snap_loop :: "memdb \<Rightarrow> memdbSnapIter \<Rightarrow> memdbSnapIter option" where
  "snap_loop db i =
     (if it_Valid db (snap_it i)
      then do {
        it \<leftarrow> it_Next db (snap_it i);
        (ok, i') \<leftarrow> snap_setValue db (i\<lparr>snap_it := it\<rparr>);
        if ok then Some i' else snap_loop db i'
      }
      else Some i)"

definition snap_Next :: "memdb \<Rightarrow> memdbSnapIter \<Rightarrow> memdbSnapIter option" where
  "snap_Next db i = snap_loop db (i\<lparr>snap_value := None\<rparr>)"

definition snap_init :: "memdb \<Rightarrow> memdbSnapIter \<Rightarrow> memdbSnapIter option" where
  "snap_init db i =
     do {
       it \<leftarrow> (if length (start (snap_it i)) = 0 then seekToFirst db (snap_it i) else seek db (start (snap_it i)) (snap_it i));
       (ok, i') \<leftarrow> snap_setValue db (i\<lparr>snap_it := it\<rparr>);
       if ok then Some i' else snap_Next db i'
     }"

definition SnapshotIter :: "memdb \<Rightarrow> bytes \<Rightarrow> bytes option \<Rightarrow> memdbSnapIter option" where
  "SnapshotIter db k upperBound =
     snap_init db
       \<lparr>snap_it = \<lparr>curr = nullAddr, start = k, iend = upperBound, reverse = False, includeFlags = False\<rparr>,
        snap_value = None, snap_cp = getSnapshot db\<rparr>"

end
