(* ===== verification/Union.thy ===== *)
theory Union
  imports Memdb_Iter
begin

text \<open>
  \<^verbatim>\<open>union_iter.go\<close>, \<^verbatim>\<open>union_store.go\<close> and \<^verbatim>\<open>iter.go\<close>: the store of a transaction, which reads the buffer first and then
  a snapshot, and the iterator that merges the two. An interface of the code is a record of its methods; the
  snapshot is not part of the repository's sources and is an argument. \<open>None\<close> stands for a panic or a loop that
  does not end.
\<close>

section \<open>The iterator interface\<close>

record ('i, 'e) Iterator =
  I_Valid :: "'i \<Rightarrow> bool"
  I_Key :: "'i \<Rightarrow> bytes"
  I_Value :: "'i \<Rightarrow> bytes option"
  I_Next :: "'i \<Rightarrow> ('e option \<times> 'i) option"

text \<open>The iterators of the buffer and of its snapshot; their \<open>Next\<close> never returns an error.\<close>

definition memdbIterator_methods :: "memdb \<Rightarrow> (memdbIterator, 'e) Iterator" where
  "memdbIterator_methods db =
     \<lparr>I_Valid = it_Valid db, I_Key = it_Key db, I_Value = it_Value db, I_Next = (\<lambda>i. map_option (\<lambda>i'. (None, i')) (it_Next db i))\<rparr>"

definition memdbSnapIter_methods :: "memdb \<Rightarrow> (memdbSnapIter, 'e) Iterator" where
  "memdbSnapIter_methods db =
     \<lparr>I_Valid = (\<lambda>i. it_Valid db (snap_it i)), I_Key = (\<lambda>i. it_Key db (snap_it i)), I_Value = snap_value,
      I_Next = (\<lambda>i. map_option (\<lambda>i'. (None, i')) (snap_Next db i))\<rparr>"

partial_function (option) NextUntil :: "('i, 'e) Iterator \<Rightarrow> (bytes \<Rightarrow> bool) \<Rightarrow> 'i \<Rightarrow> ('e option \<times> 'i) option" where
  "NextUntil M fn it =
     (if I_Valid M it \<and> \<not> fn (I_Key M it)
      then do {
        (err, it') \<leftarrow> I_Next M it;
        case err of Some e \<Rightarrow> Some (Some e, it') | None \<Rightarrow> NextUntil M fn it'
      }
      else Some (None, it))"

section \<open>The union iterator\<close>

record ('d, 's) UnionIter =
  dirtyIt :: 'd
  snapshotIt :: 's
  dirtyValid :: bool
  snapshotValid :: bool
  curIsDirty :: bool
  isValid :: bool
  u_reverse :: bool

definition dirtyNext :: "('d, 'e) Iterator \<Rightarrow> ('d, 's) UnionIter \<Rightarrow> ('e option \<times> ('d, 's) UnionIter) option" where
  "dirtyNext D iter =
     do { (err, d) \<leftarrow> I_Next D (dirtyIt iter); Some (err, iter\<lparr>dirtyIt := d, dirtyValid := I_Valid D d\<rparr>) }"

definition snapshotNext :: "('s, 'e) Iterator \<Rightarrow> ('d, 's) UnionIter \<Rightarrow> ('e option \<times> ('d, 's) UnionIter) option" where
  "snapshotNext S iter =
     do { (err, s) \<leftarrow> I_Next S (snapshotIt iter); Some (err, iter\<lparr>snapshotIt := s, snapshotValid := I_Valid S s\<rparr>) }"

partial_function (option) uFIDelateCur_loop ::
  "('d, 'e) Iterator \<Rightarrow> ('s, 'e) Iterator \<Rightarrow> ('d, 's) UnionIter \<Rightarrow> ('e option \<times> ('d, 's) UnionIter) option" where
  "uFIDelateCur_loop D S iter =
     (if \<not> dirtyValid iter \<and> \<not> snapshotValid iter then Some (None, iter\<lparr>isValid := False\<rparr>)
      else if \<not> dirtyValid iter then Some (None, iter\<lparr>curIsDirty := False\<rparr>)
      else if \<not> snapshotValid iter then
        do {
          let iter1 = iter\<lparr>curIsDirty := True\<rparr>;
          v \<leftarrow> I_Value D (dirtyIt iter1);
          if length v = 0
          then do {
            (err, iter2) \<leftarrow> dirtyNext D iter1;
            case err of Some e \<Rightarrow> Some (Some e, iter2) | None \<Rightarrow> uFIDelateCur_loop D S iter2
          }
          else Some (None, iter1)
        }
      else
        do {
          let cmp0 = bytes_Compare (I_Key D (dirtyIt iter)) (I_Key S (snapshotIt iter));
          let cmp = (if u_reverse iter then - cmp0 else cmp0);
          if cmp = 0 then
            do {
              v \<leftarrow> I_Value D (dirtyIt iter);
              if length v = 0
              then do {
                (err, iter1) \<leftarrow> dirtyNext D iter;
                case err of Some e \<Rightarrow> Some (Some e, iter1)
                | None \<Rightarrow> do {
                    (err', iter2) \<leftarrow> snapshotNext S iter1;
                    case err' of Some e \<Rightarrow> Some (Some e, iter2) | None \<Rightarrow> uFIDelateCur_loop D S iter2
                  }
              }
              else do {
                (err, iter1) \<leftarrow> snapshotNext S iter;
                case err of Some e \<Rightarrow> Some (Some e, iter1) | None \<Rightarrow> Some (None, iter1\<lparr>curIsDirty := True\<rparr>)
              }
            }
          else if cmp > 0 then Some (None, iter\<lparr>curIsDirty := False\<rparr>)
          else
            do {
              v \<leftarrow> I_Value D (dirtyIt iter);
              if length v = 0
              then do {
                (err, iter1) \<leftarrow> dirtyNext D iter;
                case err of Some e \<Rightarrow> Some (Some e, iter1) | None \<Rightarrow> uFIDelateCur_loop D S iter1
              }
              else Some (None, iter\<lparr>curIsDirty := True\<rparr>)
            }
        })"

definition uFIDelateCur ::
  "('d, 'e) Iterator \<Rightarrow> ('s, 'e) Iterator \<Rightarrow> ('d, 's) UnionIter \<Rightarrow> ('e option \<times> ('d, 's) UnionIter) option" where
  "uFIDelateCur D S iter = uFIDelateCur_loop D S (iter\<lparr>isValid := True\<rparr>)"

definition NewUnionIter ::
  "('d, 'e) Iterator \<Rightarrow> ('s, 'e) Iterator \<Rightarrow> 'd \<Rightarrow> 's \<Rightarrow> bool \<Rightarrow> ('e + ('d, 's) UnionIter) option" where
  "NewUnionIter D S d s rv =
     do {
       (err, it) \<leftarrow> uFIDelateCur D S
         \<lparr>dirtyIt = d, snapshotIt = s, dirtyValid = I_Valid D d, snapshotValid = I_Valid S s, curIsDirty = False, isValid = False, u_reverse = rv\<rparr>;
       case err of Some e \<Rightarrow> Some (Inl e) | None \<Rightarrow> Some (Inr it)
     }"

definition union_Next ::
  "('d, 'e) Iterator \<Rightarrow> ('s, 'e) Iterator \<Rightarrow> ('d, 's) UnionIter \<Rightarrow> ('e option \<times> ('d, 's) UnionIter) option" where
  "union_Next D S iter =
     do {
       (err, iter1) \<leftarrow> (if \<not> curIsDirty iter then snapshotNext S iter else dirtyNext D iter);
       case err of Some e \<Rightarrow> Some (Some e, iter1) | None \<Rightarrow> uFIDelateCur D S iter1
     }"

definition union_Value :: "('d, 'e) Iterator \<Rightarrow> ('s, 'e) Iterator \<Rightarrow> ('d, 's) UnionIter \<Rightarrow> bytes option" where
  "union_Value D S iter = (if \<not> curIsDirty iter then I_Value S (snapshotIt iter) else I_Value D (dirtyIt iter))"

definition union_Key :: "('d, 'e) Iterator \<Rightarrow> ('s, 'e) Iterator \<Rightarrow> ('d, 's) UnionIter \<Rightarrow> bytes" where
  "union_Key D S iter = (if \<not> curIsDirty iter then I_Key S (snapshotIt iter) else I_Key D (dirtyIt iter))"

definition union_Valid :: "('d, 's) UnionIter \<Rightarrow> bool" where
  "union_Valid iter = isValid iter"

definition UnionIter_methods :: "('d, 'e) Iterator \<Rightarrow> ('s, 'e) Iterator \<Rightarrow> (('d, 's) UnionIter, 'e) Iterator" where
  "UnionIter_methods D S = \<lparr>I_Valid = union_Valid, I_Key = union_Key D S, I_Value = union_Value D S, I_Next = union_Next D S\<rparr>"

section \<open>The union store\<close>

text \<open>The snapshot: its methods, and those of its iterators.\<close>

record ('s, 'e) Snapshot =
  S_Get :: "bytes \<Rightarrow> ('e + bytes) option"
  S_BatchGet :: "bytes list \<Rightarrow> ('e + (bytes \<rightharpoonup> bytes)) option"
  S_Iter :: "bytes \<Rightarrow> bytes option \<Rightarrow> ('e + 's) option"
  S_IterReverse :: "bytes option \<Rightarrow> ('e + 's) option"
  S_Iterator :: "('s, 'e) Iterator"

record ('s, 'e, 'o, 'v) unionStore =
  memBuffer :: memdb
  snapshot :: "('s, 'e) Snapshot"
  idxNameCache :: "int \<times> int \<rightharpoonup> string"
  opts :: "'o \<rightharpoonup> 'v"

definition NewUnionStore :: "u64 \<Rightarrow> u64 \<Rightarrow> bool \<Rightarrow> ('s, 'e) Snapshot \<Rightarrow> ('s, 'e, 'o, 'v) unionStore" where
  "NewUnionStore entryLimit bufferLimit test sn =
     \<lparr>memBuffer = newMemDB entryLimit bufferLimit test, snapshot = sn, idxNameCache = Map.empty, opts = Map.empty\<rparr>"

text \<open>The errors of the store: those of the buffer and those of the snapshot.\<close>

datatype 'e union_err = BufErr memdb_err | SnapErr 'e

definition us_Get :: "bytes \<Rightarrow> ('s, 'e, 'o, 'v) unionStore \<Rightarrow> ('e union_err + bytes) option" where
  "us_Get k us =
     do {
       r0 \<leftarrow> memdb_Get k (memBuffer us);
       r \<leftarrow> (case r0 of
               Inl ErrNotExist \<Rightarrow> map_option (map_sum SnapErr id) (S_Get (snapshot us) k)
             | Inl e \<Rightarrow> Some (Inl (BufErr e))
             | Inr v \<Rightarrow> Some (Inr v));
       case r of
         Inl e \<Rightarrow> Some (Inl e)
       | Inr v \<Rightarrow> if length v = 0 then Some (Inl (BufErr ErrNotExist)) else Some (Inr v)
     }"

definition us_Iter :: "bytes \<Rightarrow> bytes option \<Rightarrow> ('s, 'e, 'o, 'v) unionStore \<Rightarrow> ('e + (memdbIterator, 's) UnionIter) option" where
  "us_Iter k upperBound us =
     do {
       bufferIt \<leftarrow> Iter (memBuffer us) k upperBound;
       r \<leftarrow> S_Iter (snapshot us) k upperBound;
       case r of
         Inl e \<Rightarrow> Some (Inl e)
       | Inr retrieverIt \<Rightarrow>
           NewUnionIter (memdbIterator_methods (memBuffer us)) (S_Iterator (snapshot us)) bufferIt retrieverIt False
     }"

definition us_IterReverse :: "bytes option \<Rightarrow> ('s, 'e, 'o, 'v) unionStore \<Rightarrow> ('e + (memdbIterator, 's) UnionIter) option" where
  "us_IterReverse k us =
     do {
       bufferIt \<leftarrow> IterReverse (memBuffer us) k;
       r \<leftarrow> S_IterReverse (snapshot us) k;
       case r of
         Inl e \<Rightarrow> Some (Inl e)
       | Inr retrieverIt \<Rightarrow>
           NewUnionIter (memdbIterator_methods (memBuffer us)) (S_Iterator (snapshot us)) bufferIt retrieverIt True
     }"

definition us_HasPresumeKeyNotExists :: "bytes \<Rightarrow> ('s, 'e, 'o, 'v) unionStore \<Rightarrow> bool option" where
  "us_HasPresumeKeyNotExists k us =
     map_option (\<lambda>r. case r of Inl e \<Rightarrow> False | Inr f \<Rightarrow> HasPresumeKeyNotExists f) (GetFlags k (memBuffer us))"

definition UnmarkPresumeKeyNotExists :: "bytes \<Rightarrow> ('s, 'e, 'o, 'v) unionStore \<Rightarrow> ('s, 'e, 'o, 'v) unionStore option" where
  "UnmarkPresumeKeyNotExists k us =
     map_option (\<lambda>db. us\<lparr>memBuffer := db\<rparr>) (UFIDelateFlags k [DelPresumeKeyNotExists] (memBuffer us))"

definition GetIndexName :: "int \<Rightarrow> int \<Rightarrow> ('s, 'e, 'o, 'v) unionStore \<Rightarrow> string" where
  "GetIndexName blockID indexID us = (case idxNameCache us (blockID, indexID) of None \<Rightarrow> ''UNKNOWN'' | Some name \<Rightarrow> name)"

definition CacheIndexName :: "int \<Rightarrow> int \<Rightarrow> string \<Rightarrow> ('s, 'e, 'o, 'v) unionStore \<Rightarrow> ('s, 'e, 'o, 'v) unionStore" where
  "CacheIndexName blockID indexID name us = us\<lparr>idxNameCache := (idxNameCache us)((blockID, indexID) \<mapsto> name)\<rparr>"

definition SetOption :: "'o \<Rightarrow> 'v \<Rightarrow> ('s, 'e, 'o, 'v) unionStore \<Rightarrow> ('s, 'e, 'o, 'v) unionStore" where
  "SetOption opt val us = us\<lparr>opts := (opts us)(opt \<mapsto> val)\<rparr>"

definition DelOption :: "'o \<Rightarrow> ('s, 'e, 'o, 'v) unionStore \<Rightarrow> ('s, 'e, 'o, 'v) unionStore" where
  "DelOption opt us = us\<lparr>opts := (opts us)(opt := None)\<rparr>"

text \<open>\<open>GetOption\<close> returns nil for an option that is not set; \<open>options.Get\<close> also says whether it is.\<close>

definition GetOption :: "'o \<Rightarrow> ('s, 'e, 'o, 'v) unionStore \<Rightarrow> 'v option" where
  "GetOption opt us = opts us opt"

end
