(* ===== verification/Kv_Utils.thy ===== *)
theory Kv_Utils
  imports Union
begin

text \<open>
  \<^verbatim>\<open>utils.go\<close>: counters stored as decimal numbers, the walk over a buffer and the batch reads through a buffer,
  with the two functions of \<^verbatim>\<open>strconv\<close> they use.
\<close>

section \<open>Decimal numbers\<close>

text \<open>The bytes of \<^verbatim>\<open>strconv.FormatInt\<close> in base ten, from the digits of a number, the last first.\<close>

function digits_rev :: "nat \<Rightarrow> bytes" where
  "digits_rev n = (if n < 10 then [of_nat (48 + n)] else of_nat (48 + n mod 10) # digits_rev (n div 10))"
  by auto
termination
  by (relation "measure id") auto

declare digits_rev.simps [simp del]

definition FormatInt_bytes :: "int \<Rightarrow> bytes" where
  "FormatInt_bytes i = (if i < 0 then 45 # rev (digits_rev (nat (- i))) else rev (digits_rev (nat i)))"

datatype num_err = ErrSyntax | ErrRange

text \<open>The loop of \<open>ParseUint\<close> in base ten and 64 bits.\<close>

primrec ParseUint_loop :: "bytes \<Rightarrow> nat \<Rightarrow> num_err + nat" where
  "ParseUint_loop [] n = Inr n"
| "ParseUint_loop (c # cs) n =
     (if 48 \<le> c \<and> c \<le> 57
      then if 10 * n + unat (c - 48) < 2 ^ 64 then ParseUint_loop cs (10 * n + unat (c - 48)) else Inl ErrRange
      else Inl ErrSyntax)"

definition ParseUint :: "bytes \<Rightarrow> num_err + nat" where
  "ParseUint s = (if s = [] then Inl ErrSyntax else ParseUint_loop s 0)"

text \<open>The value and the error; a number out of range gives the nearest bound.\<close>

definition ParseInt :: "bytes \<Rightarrow> int \<times> num_err option" where
  "ParseInt s =
     (if s = [] then (0, Some ErrSyntax)
      else let neg = (hd s = 45); s' = (if hd s = 43 \<or> hd s = 45 then tl s else s)
           in case ParseUint s' of
                Inl ErrSyntax \<Rightarrow> (0, Some ErrSyntax)
              | Inl ErrRange \<Rightarrow> (if neg then - (2 ^ 63) else 2 ^ 63 - 1, Some ErrRange)
              | Inr un \<Rightarrow>
                  if \<not> neg \<and> 2 ^ 63 \<le> un then (2 ^ 63 - 1, Some ErrRange)
                  else if neg \<and> 2 ^ 63 < un then (- (2 ^ 63), Some ErrRange)
                  else (if neg then - int un else int un, None))"

section \<open>Counters\<close>

text \<open>A store that reads and writes; \<open>IsErrNotFound\<close> says which of its errors means that there is no such key.\<close>

record ('s, 'e) RetrieverMutator =
  rm_Get :: "bytes \<Rightarrow> 's \<Rightarrow> ('e + bytes) option"
  rm_Set :: "bytes \<Rightarrow> bytes \<Rightarrow> 's \<Rightarrow> ('e option \<times> 's) option"
  rm_IsErrNotFound :: "'e \<Rightarrow> bool"

definition memdb_methods :: "(memdb, memdb_err) RetrieverMutator" where
  "memdb_methods = \<lparr>rm_Get = memdb_Get, rm_Set = memdb_Set, rm_IsErrNotFound = (\<lambda>e. e = ErrNotExist)\<rparr>"

datatype 'e util_err = KvErr 'e | NumErr num_err

text \<open>The sum wraps at 64 bits.\<close>

definition int64_add :: "int \<Rightarrow> int \<Rightarrow> int" where
  "int64_add a b = sint (word_of_int (a + b) :: 64 word)"

definition IncInt64_store :: "('s, 'e) RetrieverMutator \<Rightarrow> bytes \<Rightarrow> int \<Rightarrow> 's \<Rightarrow> ((int \<times> 'e util_err option) \<times> 's) option" where
  "IncInt64_store M k v s =
     do { (err, s') \<leftarrow> rm_Set M k (FormatInt_bytes v) s; Some (case err of Some e \<Rightarrow> (0, Some (KvErr e)) | None \<Rightarrow> (v, None), s') }"

definition IncInt64 :: "('s, 'e) RetrieverMutator \<Rightarrow> bytes \<Rightarrow> int \<Rightarrow> 's \<Rightarrow> ((int \<times> 'e util_err option) \<times> 's) option" where
  "IncInt64 M k step s =
     do {
       r \<leftarrow> rm_Get M k s;
       case r of
         Inl e \<Rightarrow> if rm_IsErrNotFound M e then IncInt64_store M k step s else Some ((0, Some (KvErr e)), s)
       | Inr val \<Rightarrow>
           (let (intVal, err) = ParseInt val
            in case err of
                 Some e \<Rightarrow> Some ((0, Some (NumErr e)), s)
               | None \<Rightarrow> IncInt64_store M k (int64_add intVal step) s)
     }"

definition GetInt64 :: "('s, 'e) RetrieverMutator \<Rightarrow> bytes \<Rightarrow> 's \<Rightarrow> (int \<times> 'e util_err option) option" where
  "GetInt64 M k s =
     do {
       r \<leftarrow> rm_Get M k s;
       Some (case r of
               Inl e \<Rightarrow> if rm_IsErrNotFound M e then (0, None) else (0, Some (KvErr e))
             | Inr val \<Rightarrow> (let (intVal, err) = ParseInt val in (intVal, map_option NumErr err)))
     }"

section \<open>Walking and batch reads\<close>

partial_function (option) WalkMemBuffer_loop ::
  "('i, 'e) Iterator \<Rightarrow> (bytes \<Rightarrow> bytes \<Rightarrow> 'st \<Rightarrow> 'e option \<times> 'st) \<Rightarrow> 'i \<Rightarrow> 'st \<Rightarrow> ('e option \<times> 'st) option" where
  "WalkMemBuffer_loop M f iter st =
     (if I_Valid M iter
      then do {
        v \<leftarrow> I_Value M iter;
        let r = f (I_Key M iter) v st;
        case fst r of
          Some e \<Rightarrow> Some (Some e, snd r)
        | None \<Rightarrow> do {
            (err', iter') \<leftarrow> I_Next M iter;
            case err' of Some e \<Rightarrow> Some (Some e, snd r) | None \<Rightarrow> WalkMemBuffer_loop M f iter' (snd r)
          }
      }
      else Some (None, st))"

definition WalkMemBuffer :: "memdb \<Rightarrow> (bytes \<Rightarrow> bytes \<Rightarrow> 'st \<Rightarrow> 'e option \<times> 'st) \<Rightarrow> 'st \<Rightarrow> ('e option \<times> 'st) option" where
  "WalkMemBuffer db f st = do { iter \<leftarrow> Iter db [] None; WalkMemBuffer_loop (memdbIterator_methods db) f iter st }"

record ('s, 'e) BufferBatchGetter =
  buffer :: memdb
  midbse :: "(bytes \<Rightarrow> ('e + bytes) option) option"
  bbg_snapshot :: "('s, 'e) Snapshot"

definition NewBufferBatchGetter :: "memdb \<Rightarrow> (bytes \<Rightarrow> ('e + bytes) option) option \<Rightarrow> ('s, 'e) Snapshot \<Rightarrow> ('s, 'e) BufferBatchGetter" where
  "NewBufferBatchGetter b mid sn = \<lparr>buffer = b, midbse = mid, bbg_snapshot = sn\<rparr>"

text \<open>The value of a key in the buffer or in the cache, if there is one.\<close>

definition batch_lookup :: "('s, 'e) BufferBatchGetter \<Rightarrow> bytes \<Rightarrow> ('e union_err + bytes option) option" where
  "batch_lookup b key =
     do {
       r \<leftarrow> memdb_Get key (buffer b);
       case r of
         Inr val \<Rightarrow> Some (Inr (Some val))
       | Inl ErrNotExist \<Rightarrow>
           (case midbse b of
              None \<Rightarrow> Some (Inr None)
            | Some get \<Rightarrow> do { r' \<leftarrow> get key; Some (Inr (case r' of Inr val \<Rightarrow> Some val | Inl e \<Rightarrow> None)) })
       | Inl e \<Rightarrow> Some (Inl (BufErr e))
     }"

text \<open>The first loop: the values found, by position, and the keys left for the snapshot.\<close>

primrec batch_loop ::
  "('s, 'e) BufferBatchGetter \<Rightarrow> bytes list \<Rightarrow> bytes option list \<Rightarrow> bytes list \<Rightarrow> ('e union_err + bytes option list \<times> bytes list) option" where
  "batch_loop b [] bufferValues shrinkKeys = Some (Inr (bufferValues, shrinkKeys))"
| "batch_loop b (key # keys) bufferValues shrinkKeys =
     do {
       r \<leftarrow> batch_lookup b key;
       case r of
         Inl e \<Rightarrow> Some (Inl e)
       | Inr (Some val) \<Rightarrow> batch_loop b keys (bufferValues @ [Some val]) shrinkKeys
       | Inr None \<Rightarrow> batch_loop b keys (bufferValues @ [None]) (shrinkKeys @ [key])
     }"

text \<open>The second loop: the values found go into the snapshot's map, empty and missing ones are skipped.\<close>

definition batch_fill :: "(bytes \<times> bytes option) list \<Rightarrow> (bytes \<rightharpoonup> bytes) \<Rightarrow> bytes \<rightharpoonup> bytes" where
  "batch_fill kvs m = fold (\<lambda>(key, bv) m. case bv of None \<Rightarrow> m | Some v \<Rightarrow> if length v = 0 then m else m(key \<mapsto> v)) kvs m"

definition bbg_BatchGet :: "('s, 'e) BufferBatchGetter \<Rightarrow> bytes list \<Rightarrow> ('e union_err + (bytes \<rightharpoonup> bytes)) option" where
  "bbg_BatchGet b keys =
     (if Len (buffer b) = 0 then map_option (map_sum SnapErr id) (S_BatchGet (bbg_snapshot b) keys)
      else do {
        r \<leftarrow> batch_loop b keys [] [];
        case r of
          Inl e \<Rightarrow> Some (Inl e)
        | Inr (bufferValues, shrinkKeys) \<Rightarrow>
            map_option (map_sum SnapErr (batch_fill (zip keys bufferValues))) (S_BatchGet (bbg_snapshot b) shrinkKeys)
      })"

end
