(* ===== verification/Memdb_Tree.thy ===== *)
theory Memdb_Tree
  imports Memdb
begin

text \<open>
  The tree in the buffer's memory: which tree of addresses hangs below an address, which context surrounds
  it, and what a rotation does to them.
\<close>

section \<open>Trees and contexts of addresses\<close>

type_synonym addr = memdbMemCamAddr

datatype ptree = Tip | Br ptree addr ptree

text \<open>A frame is a node without the child the focus is: the address and the other child.\<close>

datatype frame = LeftOf addr ptree | RightOf ptree addr

fun addrs :: "ptree \<Rightarrow> addr list" where
  "addrs Tip = []"
| "addrs (Br l a r) = addrs l @ a # addrs r"

fun frame_addr :: "frame \<Rightarrow> addr" where
  "frame_addr (LeftOf a t) = a"
| "frame_addr (RightOf t a) = a"

fun frame_tree :: "frame \<Rightarrow> ptree" where
  "frame_tree (LeftOf a t) = t"
| "frame_tree (RightOf t a) = t"

fun plug1 :: "frame \<Rightarrow> ptree \<Rightarrow> ptree" where
  "plug1 (LeftOf a r) t = Br t a r"
| "plug1 (RightOf l a) t = Br l a t"

fun plug :: "frame list \<Rightarrow> ptree \<Rightarrow> ptree" where
  "plug [] t = t"
| "plug (f # c) t = plug c (plug1 f t)"

text \<open>The addresses of a context before and after its focus, in order.\<close>

fun before :: "frame list \<Rightarrow> addr list" where
  "before [] = []"
| "before (LeftOf a r # c) = before c"
| "before (RightOf l a # c) = before c @ addrs l @ [a]"

fun after :: "frame list \<Rightarrow> addr list" where
  "after [] = []"
| "after (LeftOf a r # c) = a # addrs r @ after c"
| "after (RightOf l a # c) = after c"

lemma addrs_plug: "addrs (plug c t) = before c @ addrs t @ after c"
proof (induction c t rule: plug.induct)
  case (2 f c t)
  then show ?case
    by (cases f) simp_all
qed simp

definition ctx_addrs :: "frame list \<Rightarrow> addr set" where
  "ctx_addrs c = set (before c) \<union> set (after c)"

lemma ctx_addrs_simps [simp]:
  "ctx_addrs [] = {}"
  "ctx_addrs (f # c) = insert (frame_addr f) (set (addrs (frame_tree f)) \<union> ctx_addrs c)"
  by (auto simp: ctx_addrs_def) (cases f; auto)+

section \<open>Trees in memory\<close>

fun shape :: "(addr \<Rightarrow> memdbNode) \<Rightarrow> addr \<Rightarrow> addr \<Rightarrow> ptree \<Rightarrow> bool" where
  "shape m p a Tip = (a = nullAddr)"
| "shape m p a (Br l b r) =
     (a = b \<and> b \<noteq> nullAddr \<and> up (m b) = p \<and> shape m b (left (m b)) l \<and> shape m b (right (m b)) r)"

text \<open>The focus has address \<open>a\<close> and its parent is \<open>p\<close>.\<close>

fun ctx :: "(addr \<Rightarrow> memdbNode) \<Rightarrow> addr \<Rightarrow> addr \<Rightarrow> addr \<Rightarrow> frame list \<Rightarrow> bool" where
  "ctx m rt p a [] = (p = nullAddr \<and> a = rt)"
| "ctx m rt p a (LeftOf b r # c) =
     (p = b \<and> b \<noteq> nullAddr \<and> left (m b) = a \<and> shape m b (right (m b)) r \<and> ctx m rt (up (m b)) b c)"
| "ctx m rt p a (RightOf l b # c) =
     (p = b \<and> b \<noteq> nullAddr \<and> right (m b) = a \<and> shape m b (left (m b)) l \<and> ctx m rt (up (m b)) b c)"

lemma shape_root: "shape m p a t \<Longrightarrow> (a = nullAddr \<longleftrightarrow> t = Tip)"
  by (cases t) auto

lemma shape_null: "shape m p a t \<Longrightarrow> nullAddr \<notin> set (addrs t)"
  by (induction m p a t rule: shape.induct) auto

lemma shape_mem: "shape m p a t \<Longrightarrow> t \<noteq> Tip \<Longrightarrow> a \<in> set (addrs t)"
  by (cases t) auto

lemma ctx_parent: "ctx m rt p a c \<Longrightarrow> (p = nullAddr \<longleftrightarrow> c = []) \<and> (c \<noteq> [] \<longrightarrow> p = frame_addr (hd c))"
  by (induction m rt p a c rule: ctx.induct) auto

text \<open>A tree in memory is a focus in its context.\<close>

lemma shape_plug: "shape m nullAddr rt (plug c t) \<longleftrightarrow> (\<exists>p a. shape m p a t \<and> ctx m rt p a c)"
proof (induction c arbitrary: t)
  case (Cons f c)
  show ?case
  proof (cases f)
    case (LeftOf b r)
    then show ?thesis
      using Cons.IH [of "Br t b r"] by auto
  next
    case (RightOf l b)
    then show ?thesis
      using Cons.IH [of "Br l b t"] by auto
  qed
qed simp

text \<open>
  A change of memory keeps a tree if it keeps the links of its nodes; the parent of its root may change
  with the context.
\<close>

definition same_links :: "(addr \<Rightarrow> memdbNode) \<Rightarrow> (addr \<Rightarrow> memdbNode) \<Rightarrow> addr \<Rightarrow> bool" where
  "same_links m m' b = (up (m' b) = up (m b) \<and> left (m' b) = left (m b) \<and> right (m' b) = right (m b))"

lemma shape_same: "shape m p a t \<Longrightarrow> (\<And>b. b \<in> set (addrs t) \<Longrightarrow> same_links m m' b) \<Longrightarrow> shape m' p a t"
  by (induction m p a t rule: shape.induct) (auto simp: same_links_def)

lemma shape_reroot:
  assumes "shape m p a t" and "distinct (addrs t)"
    and "\<And>b. b \<in> set (addrs t) \<Longrightarrow> b \<noteq> a \<Longrightarrow> same_links m m' b"
    and "t \<noteq> Tip \<Longrightarrow> up (m' a) = p' \<and> left (m' a) = left (m a) \<and> right (m' a) = right (m a)"
  shows "shape m' p' a t"
proof (cases t)
  case (Br l b r)
  have "shape m' b (left (m b)) l" "shape m' b (right (m b)) r"
    using assms Br by (auto intro!: shape_same [of m])
  then show ?thesis
    using assms Br by simp
qed (use assms in simp)

lemma ctx_same: "ctx m rt p a c \<Longrightarrow> (\<And>b. b \<in> ctx_addrs c \<Longrightarrow> same_links m m' b) \<Longrightarrow> ctx m' rt p a c"
proof (induction m rt p a c rule: ctx.induct)
  case (2 m rt p a b r c)
  then show ?case
    by (auto simp: same_links_def intro: shape_same [of m, unfolded same_links_def])
next
  case (3 m rt p a l b c)
  then show ?case
    by (auto simp: same_links_def intro: shape_same [of m, unfolded same_links_def])
qed simp

text \<open>The parent gets another child in the place of the focus.\<close>

definition child_of :: "frame \<Rightarrow> memdbNode \<Rightarrow> addr" where
  "child_of f n = (case f of LeftOf a t \<Rightarrow> left n | RightOf t a \<Rightarrow> right n)"

definition sibling_of :: "frame \<Rightarrow> memdbNode \<Rightarrow> addr" where
  "sibling_of f n = (case f of LeftOf a t \<Rightarrow> right n | RightOf t a \<Rightarrow> left n)"

lemma child_of_simps [simp]:
  "child_of (LeftOf a t) n = left n" "child_of (RightOf t a) n = right n"
  "sibling_of (LeftOf a t) n = right n" "sibling_of (RightOf t a) n = left n"
  by (simp_all add: child_of_def sibling_of_def)

lemma ctx_Cons:
  "ctx m rt p a (f # c) \<longleftrightarrow> p = frame_addr f \<and> p \<noteq> nullAddr \<and> child_of f (m p) = a \<and>
     shape m p (sibling_of f (m p)) (frame_tree f) \<and> ctx m rt (up (m p)) p c"
  by (cases f) auto

lemma ctx_refocus:
  assumes "ctx m rt p a c" and "p \<notin> ctx_addrs (tl c) \<and> (c \<noteq> [] \<longrightarrow> p \<notin> set (addrs (frame_tree (hd c))))"
    and "\<And>b. b \<in> ctx_addrs c \<Longrightarrow> b \<noteq> p \<Longrightarrow> same_links m m' b"
    and "c \<noteq> [] \<Longrightarrow> up (m' p) = up (m p) \<and> child_of (hd c) (m' p) = a' \<and> sibling_of (hd c) (m' p) = sibling_of (hd c) (m p)"
    and "rt' = (if c = [] then a' else rt)"
  shows "ctx m' rt' p a' c"
proof (cases c)
  case (Cons f c')
  have p: "p = frame_addr f" "p \<noteq> nullAddr" "shape m p (sibling_of f (m p)) (frame_tree f)" "ctx m rt (up (m p)) p c'"
    using assms(1) Cons by (auto simp: ctx_Cons)
  have "shape m' p (sibling_of f (m p)) (frame_tree f)"
    using p(3) by (rule shape_same) (use assms(2,3) Cons in auto)
  moreover have "ctx m' rt (up (m p)) p c'"
    using p(4) by (rule ctx_same) (use assms(2,3) Cons in auto)
  ultimately show ?thesis
    using assms(4,5) Cons p by (simp add: ctx_Cons)
qed (use assms in auto)

section \<open>Rotations\<close>

lemmas link_defs = set_up_def set_left_def set_right_def on_node_def

text \<open>An operation on the links alone.\<close>

definition relinks :: "memdb \<Rightarrow> memdb \<Rightarrow> bool" where
  "relinks db db' = (db' = db\<lparr>mem := mem db', root := root db'\<rparr> \<and> mem db' nullAddr = mem db nullAddr \<and>
     (\<forall>a. vptr (mem db' a) = vptr (mem db a) \<and> klen (mem db' a) = klen (mem db a) \<and> flags (mem db' a) = flags (mem db a) \<and>
        nkey (mem db' a) = nkey (mem db a)))"

definition rotated_left :: "addr \<Rightarrow> (addr \<Rightarrow> memdbNode) \<Rightarrow> addr \<Rightarrow> memdbNode" where
  "rotated_left x m a =
     (let y = right (m x); b = left (m y); p = up (m x)
      in if a = x then (m x)\<lparr>right := b, up := y\<rparr>
         else if a = y then (m y)\<lparr>up := p, left := x\<rparr>
         else if a = b \<and> b \<noteq> nullAddr then (m b)\<lparr>up := x\<rparr>
         else if a = p \<and> p \<noteq> nullAddr then (if x = left (m p) then (m p)\<lparr>left := y\<rparr> else (m p)\<lparr>right := y\<rparr>)
         else m a)"

definition rotated_right :: "addr \<Rightarrow> (addr \<Rightarrow> memdbNode) \<Rightarrow> addr \<Rightarrow> memdbNode" where
  "rotated_right y m a =
     (let x = left (m y); b = right (m x); p = up (m y)
      in if a = y then (m y)\<lparr>left := b, up := x\<rparr>
         else if a = x then (m x)\<lparr>up := p, right := y\<rparr>
         else if a = b \<and> b \<noteq> nullAddr then (m b)\<lparr>up := y\<rparr>
         else if a = p \<and> p \<noteq> nullAddr then (if y = left (m p) then (m p)\<lparr>left := x\<rparr> else (m p)\<lparr>right := x\<rparr>)
         else m a)"

lemma leftRotate_eq:
  assumes "right (mem db x) = y" "left (mem db y) = b" "up (mem db x) = p"
    and "x \<noteq> y" "b \<noteq> x" "b \<noteq> y" "p \<noteq> x" "p \<noteq> y" "p = b \<longrightarrow> p = nullAddr"
  shows "leftRotate x db = db\<lparr>mem := rotated_left x (mem db), root := (if p = nullAddr then y else root db)\<rparr>"
proof -
  have ne: "y \<noteq> x" "x \<noteq> b" "y \<noteq> b" "x \<noteq> p" "y \<noteq> p" "b \<noteq> p \<or> p = nullAddr"
    using assms by auto
  define db1 where "db1 = set_right x b db"
  define db2 where "db2 = (if b \<noteq> nullAddr then set_up b x db1 else db1)"
  define db3 where "db3 = set_up y p db2"
  define db4 where "db4 = (if p = nullAddr then db3\<lparr>root := y\<rparr> else if x = left (mem db p) then set_left p y db3 else set_right p y db3)"
  have m1: "left (mem db1 y) = b" "up (mem db2 x) = p" "up (mem db3 x) = p" "p \<noteq> nullAddr \<Longrightarrow> left (mem db3 p) = left (mem db p)"
    using ne assms(1-3) by (simp_all add: db1_def db2_def db3_def link_defs)
  have e1: "leftRotate x db = set_up x y (set_left y x db4)"
    unfolding leftRotate_def Let_def assms(1,2) db1_def [symmetric] m1(1) db2_def [symmetric] m1(2) db3_def [symmetric] m1(3)
    by (cases "p = nullAddr") (simp_all only: db4_def m1(4) if_True if_False simp_thms)
  have e2: "set_up x y (set_left y x db4) = db\<lparr>mem := mem (set_up x y (set_left y x db4)), root := (if p = nullAddr then y else root db)\<rparr>"
    by (simp add: link_defs db1_def db2_def db3_def db4_def)
  have e3: "mem (set_up x y (set_left y x db4)) a = rotated_left x (mem db) a" for a
  proof -
    have "mem db1 a = (if a = x then (mem db x)\<lparr>right := b\<rparr> else mem db a)" for a
      by (simp add: db1_def link_defs)
    then have "mem db2 a = (if a = b \<and> b \<noteq> nullAddr then (mem db b)\<lparr>up := x\<rparr>
        else if a = x then (mem db x)\<lparr>right := b\<rparr> else mem db a)" for a
      using ne by (simp add: db2_def link_defs)
    then have m3: "mem db3 a = (if a = y then (mem db y)\<lparr>up := p\<rparr> else if a = b \<and> b \<noteq> nullAddr then (mem db b)\<lparr>up := x\<rparr>
        else if a = x then (mem db x)\<lparr>right := b\<rparr> else mem db a)" for a
      using ne by (simp add: db3_def link_defs)
    have m4: "mem db4 a = (if a = p \<and> p \<noteq> nullAddr then (if x = left (mem db p) then (mem db p)\<lparr>left := y\<rparr> else (mem db p)\<lparr>right := y\<rparr>)
        else mem db3 a)" for a
      using ne by (cases "p = nullAddr") (simp_all add: db4_def link_defs m3)
    have "mem (set_up x y (set_left y x db4)) a =
        (if a = x then (mem db4 x)\<lparr>up := y\<rparr> else if a = y then (mem db4 y)\<lparr>left := x\<rparr> else mem db4 a)"
      using ne by (simp add: link_defs)
    also have "\<dots> = rotated_left x (mem db) a"
    proof -
      have vx: "mem db4 x = (mem db x)\<lparr>right := b\<rparr>" and vy: "mem db4 y = (mem db y)\<lparr>up := p\<rparr>"
        using ne by (simp_all add: m4 m3)
      have vb: "mem db4 b = (mem db b)\<lparr>up := x\<rparr>" if "b \<noteq> nullAddr"
        unfolding m4 m3 using ne that by auto
      have vo: "mem db4 a = mem db a" if "a \<noteq> x" "a \<noteq> y" "\<not> (a = b \<and> b \<noteq> nullAddr)" "\<not> (a = p \<and> p \<noteq> nullAddr)"
        unfolding m4 m3 using that by (simp only: if_False simp_thms)
      show ?thesis
        unfolding rotated_left_def assms(1-3) Let_def
      proof (intro if_cong refl)
        show "(mem db4 x)\<lparr>up := y\<rparr> = (mem db x)\<lparr>right := b, up := y\<rparr>"
          unfolding vx by (rule refl)
        show "(mem db4 y)\<lparr>left := x\<rparr> = (mem db y)\<lparr>up := p, left := x\<rparr>"
          unfolding vy by (rule refl)
        show "mem db4 a = (if a = b \<and> b \<noteq> nullAddr then (mem db b)\<lparr>up := x\<rparr>
            else if a = p \<and> p \<noteq> nullAddr then (if x = left (mem db p) then (mem db p)\<lparr>left := y\<rparr> else (mem db p)\<lparr>right := y\<rparr>)
            else mem db a)" if "a \<noteq> x" "a \<noteq> y"
          using that vb vo m4 [of p] by (cases "a = b \<and> b \<noteq> nullAddr"; cases "a = p \<and> p \<noteq> nullAddr") (simp_all only: if_True if_False simp_thms)
      qed
    qed
    finally show ?thesis .
  qed
  show ?thesis
    unfolding e1 by (subst e2) (simp only: ext [OF e3])
qed

lemma rightRotate_eq:
  assumes "left (mem db y) = x" "right (mem db x) = b" "up (mem db y) = p"
    and "y \<noteq> x" "b \<noteq> x" "b \<noteq> y" "p \<noteq> x" "p \<noteq> y" "p = b \<longrightarrow> p = nullAddr"
  shows "rightRotate y db = db\<lparr>mem := rotated_right y (mem db), root := (if p = nullAddr then x else root db)\<rparr>"
proof -
  have ne: "y \<noteq> x" "x \<noteq> b" "y \<noteq> b" "x \<noteq> p" "y \<noteq> p" "b \<noteq> p \<or> p = nullAddr"
    using assms by auto
  define db1 where "db1 = set_left y b db"
  define db2 where "db2 = (if b \<noteq> nullAddr then set_up b y db1 else db1)"
  define db3 where "db3 = set_up x p db2"
  define db4 where "db4 = (if p = nullAddr then db3\<lparr>root := x\<rparr> else if y = left (mem db p) then set_left p x db3 else set_right p x db3)"
  have m1: "right (mem db1 x) = b" "up (mem db2 y) = p" "up (mem db3 y) = p" "p \<noteq> nullAddr \<Longrightarrow> left (mem db3 p) = left (mem db p)"
    using ne assms(1-3) by (simp_all add: db1_def db2_def db3_def link_defs)
  have e1: "rightRotate y db = set_up y x (set_right x y db4)"
    unfolding rightRotate_def Let_def assms(1,2) db1_def [symmetric] m1(1) db2_def [symmetric] m1(2) db3_def [symmetric] m1(3)
    by (cases "p = nullAddr") (simp_all only: db4_def m1(4) if_True if_False simp_thms)
  have e2: "set_up y x (set_right x y db4) = db\<lparr>mem := mem (set_up y x (set_right x y db4)), root := (if p = nullAddr then x else root db)\<rparr>"
    by (simp add: link_defs db1_def db2_def db3_def db4_def)
  have e3: "mem (set_up y x (set_right x y db4)) a = rotated_right y (mem db) a" for a
  proof -
    have "mem db1 a = (if a = y then (mem db y)\<lparr>left := b\<rparr> else mem db a)" for a
      by (simp add: db1_def link_defs)
    then have "mem db2 a = (if a = b \<and> b \<noteq> nullAddr then (mem db b)\<lparr>up := y\<rparr>
        else if a = y then (mem db y)\<lparr>left := b\<rparr> else mem db a)" for a
      using ne by (simp add: db2_def link_defs)
    then have m3: "mem db3 a = (if a = x then (mem db x)\<lparr>up := p\<rparr> else if a = b \<and> b \<noteq> nullAddr then (mem db b)\<lparr>up := y\<rparr>
        else if a = y then (mem db y)\<lparr>left := b\<rparr> else mem db a)" for a
      using ne by (simp add: db3_def link_defs)
    have m4: "mem db4 a = (if a = p \<and> p \<noteq> nullAddr then (if y = left (mem db p) then (mem db p)\<lparr>left := x\<rparr> else (mem db p)\<lparr>right := x\<rparr>)
        else mem db3 a)" for a
      using ne by (cases "p = nullAddr") (simp_all add: db4_def link_defs m3)
    have "mem (set_up y x (set_right x y db4)) a =
        (if a = y then (mem db4 y)\<lparr>up := x\<rparr> else if a = x then (mem db4 x)\<lparr>right := y\<rparr> else mem db4 a)"
      using ne by (simp add: link_defs)
    also have "\<dots> = rotated_right y (mem db) a"
    proof -
      have vx: "mem db4 y = (mem db y)\<lparr>left := b\<rparr>" and vy: "mem db4 x = (mem db x)\<lparr>up := p\<rparr>"
        using ne by (simp_all add: m4 m3)
      have vb: "mem db4 b = (mem db b)\<lparr>up := y\<rparr>" if "b \<noteq> nullAddr"
        unfolding m4 m3 using ne that by auto
      have vo: "mem db4 a = mem db a" if "a \<noteq> y" "a \<noteq> x" "\<not> (a = b \<and> b \<noteq> nullAddr)" "\<not> (a = p \<and> p \<noteq> nullAddr)"
        unfolding m4 m3 using that by (simp only: if_False simp_thms)
      show ?thesis
        unfolding rotated_right_def assms(1-3) Let_def
      proof (intro if_cong refl)
        show "(mem db4 y)\<lparr>up := x\<rparr> = (mem db y)\<lparr>left := b, up := x\<rparr>"
          unfolding vx by (rule refl)
        show "(mem db4 x)\<lparr>right := y\<rparr> = (mem db x)\<lparr>up := p, right := y\<rparr>"
          unfolding vy by (rule refl)
        show "mem db4 a = (if a = b \<and> b \<noteq> nullAddr then (mem db b)\<lparr>up := y\<rparr>
            else if a = p \<and> p \<noteq> nullAddr then (if y = left (mem db p) then (mem db p)\<lparr>left := x\<rparr> else (mem db p)\<lparr>right := x\<rparr>)
            else mem db a)" if "a \<noteq> y" "a \<noteq> x"
          using that vb vo m4 [of p] by (cases "a = b \<and> b \<noteq> nullAddr"; cases "a = p \<and> p \<noteq> nullAddr") (simp_all only: if_True if_False simp_thms)
      qed
    qed
    finally show ?thesis .
  qed
  show ?thesis
    unfolding e1 by (subst e2) (simp only: ext [OF e3])
qed

lemma rotated_left_at:
  assumes "right (m x) = y" "left (m y) = b" "up (m x) = p"
    and "x \<noteq> y" "b \<noteq> x" "b \<noteq> y" "p \<noteq> x" "p \<noteq> y" "p = b \<longrightarrow> p = nullAddr"
  shows "rotated_left x m x = (m x)\<lparr>right := b, up := y\<rparr>"
    and "rotated_left x m y = (m y)\<lparr>up := p, left := x\<rparr>"
    and "b \<noteq> nullAddr \<Longrightarrow> rotated_left x m b = (m b)\<lparr>up := x\<rparr>"
    and "p \<noteq> nullAddr \<Longrightarrow> rotated_left x m p = (if x = left (m p) then (m p)\<lparr>left := y\<rparr> else (m p)\<lparr>right := y\<rparr>)"
    and "a \<noteq> x \<Longrightarrow> a \<noteq> y \<Longrightarrow> a \<noteq> b \<or> a = nullAddr \<Longrightarrow> a \<noteq> p \<or> a = nullAddr \<Longrightarrow> rotated_left x m a = m a"
  unfolding rotated_left_def Let_def assms(1-3) using assms(4-) by auto

lemma rotated_right_at:
  assumes "left (m y) = x" "right (m x) = b" "up (m y) = p"
    and "y \<noteq> x" "b \<noteq> x" "b \<noteq> y" "p \<noteq> x" "p \<noteq> y" "p = b \<longrightarrow> p = nullAddr"
  shows "rotated_right y m y = (m y)\<lparr>left := b, up := x\<rparr>"
    and "rotated_right y m x = (m x)\<lparr>up := p, right := y\<rparr>"
    and "b \<noteq> nullAddr \<Longrightarrow> rotated_right y m b = (m b)\<lparr>up := y\<rparr>"
    and "p \<noteq> nullAddr \<Longrightarrow> rotated_right y m p = (if y = left (m p) then (m p)\<lparr>left := x\<rparr> else (m p)\<lparr>right := x\<rparr>)"
    and "a \<noteq> x \<Longrightarrow> a \<noteq> y \<Longrightarrow> a \<noteq> b \<or> a = nullAddr \<Longrightarrow> a \<noteq> p \<or> a = nullAddr \<Longrightarrow> rotated_right y m a = m a"
  unfolding rotated_right_def Let_def assms(1-3) using assms(4-) by auto

text \<open>A node, its subtrees and its context have different addresses.\<close>

definition separate :: "frame list \<Rightarrow> ptree \<Rightarrow> bool" where
  "separate c t = distinct (addrs (plug c t))"

lemma separate_focus: "separate c t \<Longrightarrow> distinct (addrs t) \<and> set (addrs t) \<inter> ctx_addrs c = {}"
  by (auto simp: separate_def addrs_plug ctx_addrs_def)

lemma separate_hd:
  assumes "separate (f # c) t"
  shows "frame_addr f \<notin> ctx_addrs c \<and> frame_addr f \<notin> set (addrs (frame_tree f))"
  using assms by (cases f) (auto simp: separate_def addrs_plug ctx_addrs_def)

lemma ctx_parent_addr: "ctx m rt p a c \<Longrightarrow> c \<noteq> [] \<Longrightarrow> p \<in> ctx_addrs c"
  by (cases c) (auto simp: ctx_Cons)

lemma ctx_addrs_null: "ctx m rt p a c \<Longrightarrow> nullAddr \<notin> ctx_addrs c"
  by (induction m rt p a c rule: ctx.induct) (auto dest: shape_null)

lemma ctx_child_left:
  assumes "ctx m rt p x c" and "c \<noteq> []" and "x \<notin> ctx_addrs c" and "x \<noteq> nullAddr"
  shows "(x = left (m p)) = (\<exists>b t. hd c = LeftOf b t)"
proof (cases c)
  case (Cons f c')
  show ?thesis
  proof (cases f)
    case (RightOf t b)
    then have s: "shape m p (left (m p)) t" and "x \<notin> set (addrs t)"
      using assms Cons by auto
    then have "left (m p) \<noteq> x"
      using shape_root [OF s] shape_mem [OF s] assms(4) by blast
    then show ?thesis
      using Cons RightOf by auto
  qed (use assms Cons in auto)
qed (use assms in simp)

lemma leftRotate_shape:
  assumes c: "ctx (mem db) (root db) p x c" and s: "shape (mem db) p x (Br A x (Br B y C))"
    and d: "separate c (Br A x (Br B y C))"
  shows "ctx (mem (leftRotate x db)) (root (leftRotate x db)) p y c"
    and "shape (mem (leftRotate x db)) p y (Br (Br A x B) y C)"
    and "relinks db (leftRotate x db)"
proof -
  let ?m = "mem db" and ?m' = "rotated_left x (mem db)" and ?b = "left (mem db y)"
  have links: "right (?m x) = y" "up (?m x) = p" "x \<noteq> nullAddr" "y \<noteq> nullAddr" "up (?m y) = x"
    and sub: "shape ?m x (left (?m x)) A" "shape ?m y ?b B" "shape ?m y (right (?m y)) C"
    using s by simp_all
  have dist: "distinct (addrs (Br A x (Br B y C)))" "x \<notin> ctx_addrs c" "y \<notin> ctx_addrs c"
      "set (addrs A) \<inter> ctx_addrs c = {}" "set (addrs B) \<inter> ctx_addrs c = {}" "set (addrs C) \<inter> ctx_addrs c = {}"
    using separate_focus [OF d] by auto
  have b: "?b = nullAddr \<and> B = Tip \<or> ?b \<in> set (addrs B)"
    using shape_root [OF sub(2)] shape_mem [OF sub(2)] by blast
  have p: "p = nullAddr \<and> c = [] \<or> p \<in> ctx_addrs c"
    using ctx_parent [OF c] ctx_parent_addr [OF c] by blast
  have ne: "x \<noteq> y" "?b \<noteq> x" "?b \<noteq> y" "p \<noteq> x" "p \<noteq> y" "p = ?b \<longrightarrow> p = nullAddr"
    using links(3,4) dist b p by auto
  note eq = leftRotate_eq [OF links(1) refl links(2) ne] and at = rotated_left_at [of ?m, OF links(1) refl links(2) ne]
  have keep: "same_links ?m ?m' a" if "a \<noteq> x" "a \<noteq> y" "a \<noteq> ?b" "a \<noteq> p" for a
    using at(5) [of a] that by (simp add: same_links_def)
  note nulls = shape_null [OF sub(1)] shape_null [OF sub(2)] shape_null [OF sub(3)] ctx_addrs_null [OF c]
  have A: "shape ?m' x (left (?m x)) A"
    by (rule shape_same [OF sub(1)], rule keep) (use dist b p nulls in auto)
  have C: "shape ?m' y (right (?m y)) C"
    by (rule shape_same [OF sub(3)], rule keep) (use dist b p nulls in auto)
  have B: "shape ?m' x ?b B"
  proof (rule shape_reroot [OF sub(2)])
    show "same_links ?m ?m' a" if "a \<in> set (addrs B)" "a \<noteq> ?b" for a
      by (rule keep) (use that dist p nulls in auto)
    show "up (?m' ?b) = x \<and> left (?m' ?b) = left (?m ?b) \<and> right (?m' ?b) = right (?m ?b)" if "B \<noteq> Tip"
      using that b at(3) shape_root [OF sub(2)] by simp
  qed (use dist in simp)
  show "shape (mem (leftRotate x db)) p y (Br (Br A x B) y C)"
    using A B C links at(1,2) by (simp add: eq)
  have "ctx ?m' (if c = [] then y else root db) p y c"
  proof (rule ctx_refocus [OF c])
    show "p \<notin> ctx_addrs (tl c) \<and> (c \<noteq> [] \<longrightarrow> p \<notin> set (addrs (frame_tree (hd c))))"
      using c d ctx_parent [OF c] separate_hd by (cases c) (auto simp: ctx_Cons)
    show "same_links ?m ?m' a" if "a \<in> ctx_addrs c" "a \<noteq> p" for a
      by (rule keep) (use that dist b nulls in auto)
    show "up (?m' p) = up (?m p) \<and> child_of (hd c) (?m' p) = y \<and> sibling_of (hd c) (?m' p) = sibling_of (hd c) (?m p)"
      if "c \<noteq> []"
    proof -
      have "?m' p = (if x = left (?m p) then (?m p)\<lparr>left := y\<rparr> else (?m p)\<lparr>right := y\<rparr>)"
        using at(4) that ctx_parent [OF c] by blast
      then show ?thesis
        using ctx_child_left [OF c that dist(2) links(3)] by (cases "hd c") auto
    qed
  qed simp
  then show "ctx (mem (leftRotate x db)) (root (leftRotate x db)) p y c"
    using ctx_parent [OF c] by (simp add: eq)
  have "?m' nullAddr = ?m nullAddr"
    using at(5) [of nullAddr] links by simp
  then show "relinks db (leftRotate x db)"
    by (auto simp: eq relinks_def rotated_left_def Let_def)
qed

lemma rightRotate_shape:
  assumes c: "ctx (mem db) (root db) p y c" and s: "shape (mem db) p y (Br (Br A x B) y C)"
    and d: "separate c (Br (Br A x B) y C)"
  shows "ctx (mem (rightRotate y db)) (root (rightRotate y db)) p x c"
    and "shape (mem (rightRotate y db)) p x (Br A x (Br B y C))"
    and "relinks db (rightRotate y db)"
proof -
  let ?m = "mem db" and ?m' = "rotated_right y (mem db)" and ?b = "right (mem db x)"
  have links: "left (?m y) = x" "up (?m y) = p" "x \<noteq> nullAddr" "y \<noteq> nullAddr" "up (?m x) = y"
    and sub: "shape ?m y (right (?m y)) C" "shape ?m x ?b B" "shape ?m x (left (?m x)) A"
    using s by simp_all
  have dist: "distinct (addrs (Br (Br A x B) y C))" "x \<notin> ctx_addrs c" "y \<notin> ctx_addrs c"
      "set (addrs A) \<inter> ctx_addrs c = {}" "set (addrs B) \<inter> ctx_addrs c = {}" "set (addrs C) \<inter> ctx_addrs c = {}"
    using separate_focus [OF d] by auto
  have b: "?b = nullAddr \<and> B = Tip \<or> ?b \<in> set (addrs B)"
    using shape_root [OF sub(2)] shape_mem [OF sub(2)] by blast
  have p: "p = nullAddr \<and> c = [] \<or> p \<in> ctx_addrs c"
    using ctx_parent [OF c] ctx_parent_addr [OF c] by blast
  have ne: "y \<noteq> x" "?b \<noteq> x" "?b \<noteq> y" "p \<noteq> x" "p \<noteq> y" "p = ?b \<longrightarrow> p = nullAddr"
    using links(3,4) dist b p by auto
  note eq = rightRotate_eq [OF links(1) refl links(2) ne] and at = rotated_right_at [of ?m, OF links(1) refl links(2) ne]
  have keep: "same_links ?m ?m' a" if "a \<noteq> x" "a \<noteq> y" "a \<noteq> ?b" "a \<noteq> p" for a
    using at(5) [of a] that by (simp add: same_links_def)
  note nulls = shape_null [OF sub(1)] shape_null [OF sub(2)] shape_null [OF sub(3)] ctx_addrs_null [OF c]
  have A: "shape ?m' y (right (?m y)) C"
    by (rule shape_same [OF sub(1)], rule keep) (use dist b p nulls in auto)
  have C: "shape ?m' x (left (?m x)) A"
    by (rule shape_same [OF sub(3)], rule keep) (use dist b p nulls in auto)
  have B: "shape ?m' y ?b B"
  proof (rule shape_reroot [OF sub(2)])
    show "same_links ?m ?m' a" if "a \<in> set (addrs B)" "a \<noteq> ?b" for a
      by (rule keep) (use that dist p nulls in auto)
    show "up (?m' ?b) = y \<and> left (?m' ?b) = left (?m ?b) \<and> right (?m' ?b) = right (?m ?b)" if "B \<noteq> Tip"
      using that b at(3) shape_root [OF sub(2)] by simp
  qed (use dist in simp)
  show "shape (mem (rightRotate y db)) p x (Br A x (Br B y C))"
    using A B C links at(1,2) by (simp add: eq)
  have "ctx ?m' (if c = [] then x else root db) p x c"
  proof (rule ctx_refocus [OF c])
    show "p \<notin> ctx_addrs (tl c) \<and> (c \<noteq> [] \<longrightarrow> p \<notin> set (addrs (frame_tree (hd c))))"
      using c d ctx_parent [OF c] separate_hd by (cases c) (auto simp: ctx_Cons)
    show "same_links ?m ?m' a" if "a \<in> ctx_addrs c" "a \<noteq> p" for a
      by (rule keep) (use that dist b nulls in auto)
    show "up (?m' p) = up (?m p) \<and> child_of (hd c) (?m' p) = x \<and> sibling_of (hd c) (?m' p) = sibling_of (hd c) (?m p)"
      if "c \<noteq> []"
    proof -
      have "?m' p = (if y = left (?m p) then (?m p)\<lparr>left := x\<rparr> else (?m p)\<lparr>right := x\<rparr>)"
        using at(4) that ctx_parent [OF c] by blast
      then show ?thesis
        using ctx_child_left [OF c that dist(3) links(4)] by (cases "hd c") auto
    qed
  qed simp
  then show "ctx (mem (rightRotate y db)) (root (rightRotate y db)) p x c"
    using ctx_parent [OF c] by (simp add: eq)
  have "?m' nullAddr = ?m nullAddr"
    using at(5) [of nullAddr] links by simp
  then show "relinks db (rightRotate y db)"
    by (auto simp: eq relinks_def rotated_right_def Let_def)
qed

end
