(* ===== verification/Memdb_Insert.thy ===== *)
theory Memdb_Insert
  imports Memdb_Tree
begin

text \<open>The colours of the tree, and the walk up after an insertion: it ends and leaves a red-black tree.\<close>

section \<open>Colours\<close>

definition red :: "memdb \<Rightarrow> addr \<Rightarrow> bool" where
  "red db a = isRed (mem db a)"

lemma paint_simps [simp]:
  "isRed (paintRed n)" "\<not> isRed (paintBlack n)"
  "up (paintRed n) = up n" "left (paintRed n) = left n" "right (paintRed n) = right n"
  "up (paintBlack n) = up n" "left (paintBlack n) = left n" "right (paintBlack n) = right n"
  "vptr (paintRed n) = vptr n" "vptr (paintBlack n) = vptr n" "klen (paintRed n) = klen n" "klen (paintBlack n) = klen n"
  "nkey (paintRed n) = nkey n" "nkey (paintBlack n) = nkey n"
proof -
  show "isRed (paintRed n)"
    by (simp add: isRed_def paintRed_def nodeDefCausorBit_def bit_eq_iff bit_simps) (rule exI [of _ 7], simp)
  show "\<not> isRed (paintBlack n)"
    by (simp add: isRed_def paintBlack_def) (rule bit_eqI, simp add: bit_simps)
qed (simp_all add: paintRed_def paintBlack_def)

lemma paint_flags [simp]: "getKeyFlags (paintRed n) = getKeyFlags n" "getKeyFlags (paintBlack n) = getKeyFlags n"
  by (simp_all add: getKeyFlags_def paintRed_def paintBlack_def nodeFlagsMask_def)
    (rule bit_eqI, auto simp: bit_simps)+

lemma red_set [simp]: "red (setRed a db) = (red db)(a := True)" "red (setBlack a db) = (red db)(a := False)"
  by (simp_all add: red_def setRed_def setBlack_def on_node_def fun_eq_iff)

lemma links_set [simp]:
  "up (mem (setRed a db) b) = up (mem db b)" "left (mem (setRed a db) b) = left (mem db b)" "right (mem (setRed a db) b) = right (mem db b)"
  "up (mem (setBlack a db) b) = up (mem db b)" "left (mem (setBlack a db) b) = left (mem db b)" "right (mem (setBlack a db) b) = right (mem db b)"
  "root (setRed a db) = root db" "root (setBlack a db) = root db"
  by (simp_all add: setRed_def setBlack_def on_node_def)

lemma shape_links:
  "(\<And>b. same_links m m' b) \<Longrightarrow> shape m' p a t = shape m p a t" "(\<And>b. same_links m m' b) \<Longrightarrow> ctx m' rt p a c = ctx m rt p a c"
proof -
  assume s: "\<And>b. same_links m m' b"
  then have s': "same_links m' m b" for b
    by (simp add: same_links_def)
  show "shape m' p a t = shape m p a t"
    using shape_same [of m p a t m'] shape_same [of m' p a t m] s s' by blast
  show "ctx m' rt p a c = ctx m rt p a c"
    using ctx_same [of m rt p a c m'] ctx_same [of m' rt p a c m] s s' by blast
qed

lemma shape_set [simp]:
  "shape (mem (setRed a db)) p b t = shape (mem db) p b t" "shape (mem (setBlack a db)) p b t = shape (mem db) p b t"
  "ctx (mem (setRed a db)) rt p b c = ctx (mem db) rt p b c" "ctx (mem (setBlack a db)) rt p b c = ctx (mem db) rt p b c"
  by (rule shape_links; simp add: same_links_def)+

lemma relinks_red: "relinks db db' \<Longrightarrow> red db' = red db"
  by (auto simp: relinks_def red_def isRed_def fun_eq_iff)

text \<open>What balancing keeps: everything but links, colours and the root.\<close>

definition keeps :: "memdb \<Rightarrow> memdb \<Rightarrow> bool" where
  "keeps db db' = (db' = db\<lparr>mem := mem db', root := root db'\<rparr> \<and>
     (\<forall>a. vptr (mem db' a) = vptr (mem db a) \<and> klen (mem db' a) = klen (mem db a) \<and> nkey (mem db' a) = nkey (mem db a) \<and>
        getKeyFlags (mem db' a) = getKeyFlags (mem db a)))"

lemma keeps_refl [simp]: "keeps db db"
  by (simp add: keeps_def)

lemma keeps_trans: "keeps db db' \<Longrightarrow> keeps db' db'' \<Longrightarrow> keeps db db''"
  by (cases db; cases db'; cases db'') (simp add: keeps_def)

lemma keeps_relinks: "relinks db db' \<Longrightarrow> keeps db db'"
  by (simp add: keeps_def relinks_def getKeyFlags_def)

lemma keeps_set [simp]: "keeps db (setRed a db)" "keeps db (setBlack a db)"
  by (simp_all add: keeps_def setRed_def setBlack_def on_node_def)

section \<open>Red-black trees\<close>

fun rootred :: "(addr \<Rightarrow> bool) \<Rightarrow> ptree \<Rightarrow> bool" where
  "rootred R Tip = False"
| "rootred R (Br l a r) = R a"

text \<open>\<open>rb R t h\<close>: no red node has a red child, and every path down meets \<open>h\<close> black nodes.\<close>

fun rb :: "(addr \<Rightarrow> bool) \<Rightarrow> ptree \<Rightarrow> nat \<Rightarrow> bool" where
  "rb R Tip h = (h = 0)"
| "rb R (Br l a r) h =
     (if R a then \<not> rootred R l \<and> \<not> rootred R r \<and> rb R l h \<and> rb R r h
      else (case h of 0 \<Rightarrow> False | Suc n \<Rightarrow> rb R l n \<and> rb R r n))"

definition topred :: "(addr \<Rightarrow> bool) \<Rightarrow> frame list \<Rightarrow> bool" where
  "topred R c = (case c of [] \<Rightarrow> False | f # c' \<Rightarrow> R (frame_addr f))"

lemma topred_simps [simp]: "\<not> topred R []" "topred R (f # c) = R (frame_addr f)"
  by (simp_all add: topred_def)

text \<open>A context that makes a red-black tree with a black root of a focus of black height \<open>h\<close>.\<close>

fun cok :: "(addr \<Rightarrow> bool) \<Rightarrow> nat \<Rightarrow> frame list \<Rightarrow> bool" where
  "cok R h [] = True"
| "cok R h (f # c) =
     (rb R (frame_tree f) h \<and> (R (frame_addr f) \<longrightarrow> \<not> rootred R (frame_tree f) \<and> c \<noteq> [] \<and> \<not> topred R c) \<and>
      cok R (if R (frame_addr f) then h else Suc h) c)"

lemma rootred_upd: "a \<notin> set (addrs t) \<Longrightarrow> rootred (R(a := v)) t = rootred R t"
  by (cases t) auto

lemma rb_upd: "a \<notin> set (addrs t) \<Longrightarrow> rb (R(a := v)) t h = rb R t h"
  by (induction R t h rule: rb.induct) (auto simp: rootred_upd split: nat.splits)

lemma topred_upd: "a \<notin> ctx_addrs c \<Longrightarrow> topred (R(a := v)) c = topred R c"
  by (cases c) auto

lemma cok_upd: "a \<notin> ctx_addrs c \<Longrightarrow> cok (R(a := v)) h c = cok R h c"
  by (induction R h c rule: cok.induct) (auto simp: rootred_upd rb_upd topred_upd)

lemmas color_upd = rootred_upd rb_upd topred_upd cok_upd

lemma rb_plug1: "rb R t h \<Longrightarrow> rb R (frame_tree f) h \<Longrightarrow> (R (frame_addr f) \<longrightarrow> \<not> rootred R t \<and> \<not> rootred R (frame_tree f)) \<Longrightarrow>
    rb R (plug1 f t) (if R (frame_addr f) then h else Suc h)"
  by (cases f) auto

lemma rootred_plug1: "rootred R (plug1 f t) = R (frame_addr f)"
  by (cases f) auto

lemma rb_plug: "rb R t h \<Longrightarrow> cok R h c \<Longrightarrow> (topred R c \<longrightarrow> \<not> rootred R t) \<Longrightarrow> \<exists>h'. rb R (plug c t) h'"
proof (induction c arbitrary: t h)
  case (Cons f c)
  have "rb R (plug1 f t) (if R (frame_addr f) then h else Suc h)"
    by (rule rb_plug1) (use Cons.prems in auto)
  then show ?case
    using Cons.IH [of "plug1 f t"] Cons.prems(2) by (auto simp: rootred_plug1)
qed auto

lemma ctx_root: "ctx m rt p a c \<Longrightarrow> c \<noteq> [] \<Longrightarrow> rt \<in> ctx_addrs c"
  by (induction m rt p a c rule: ctx.induct) (use ctx.simps(1) in \<open>fastforce\<close>)+

section \<open>A focus in the buffer's tree\<close>

definition focused :: "memdb \<Rightarrow> addr \<Rightarrow> addr \<Rightarrow> frame list \<Rightarrow> ptree \<Rightarrow> bool" where
  "focused db p x c t = (ctx (mem db) (root db) p x c \<and> shape (mem db) p x t \<and> separate c t \<and> \<not> red db nullAddr)"

lemma separate_plug1: "separate (f # c) t = separate c (plug1 f t)"
  by (simp add: separate_def)

lemma focused_up: "focused db p x (f # c) t \<Longrightarrow> focused db (up (mem db p)) p c (plug1 f t)"
  by (cases f) (auto simp: focused_def ctx_Cons separate_plug1)

lemma focused_left: "focused db p x c (Br l x r) \<Longrightarrow> focused db x (left (mem db x)) (LeftOf x r # c) l"
  by (auto simp: focused_def separate_plug1)

lemma focused_right: "focused db p x c (Br l x r) \<Longrightarrow> focused db x (right (mem db x)) (RightOf l x # c) r"
  by (auto simp: focused_def separate_plug1)

lemma focused_set: "focused db p x c t \<Longrightarrow> focused (setBlack a db) p x c t"
  "focused db p x c t \<Longrightarrow> a \<noteq> nullAddr \<Longrightarrow> focused (setRed a db) p x c t"
  by (auto simp: focused_def)

lemma rootred_shape: "shape (mem db) p a t \<Longrightarrow> \<not> red db nullAddr \<Longrightarrow> red db a = rootred (red db) t"
  by (cases t) auto

lemma focused_sibling: "focused db p x (f # c) t \<Longrightarrow> red db (sibling_of f (mem db p)) = rootred (red db) (frame_tree f)"
  using rootred_shape unfolding focused_def ctx_Cons by blast

lemma focused_mem: "focused db p x c t \<Longrightarrow> t \<noteq> Tip \<Longrightarrow> x \<in> set (addrs t) \<and> x \<noteq> nullAddr"
  using shape_mem shape_root unfolding focused_def by blast

lemma focused_left_child: "focused db p x (f # c) t \<Longrightarrow> t \<noteq> Tip \<Longrightarrow> (x = left (mem db p)) = (\<exists>b r. f = LeftOf b r)"
proof -
  assume f: "focused db p x (f # c) t" and t: "t \<noteq> Tip"
  then have "x \<in> set (addrs t)" "x \<noteq> nullAddr"
    using focused_mem by blast+
  then have "x \<notin> ctx_addrs (f # c)"
    using f separate_focus [of "f # c" t] by (auto simp: focused_def)
  then show ?thesis
    using f ctx_child_left [of "mem db" "root db" p x "f # c"] \<open>x \<noteq> nullAddr\<close> by (simp add: focused_def)
qed

lemma focused_right_child: "focused db p x (f # c) t \<Longrightarrow> t \<noteq> Tip \<Longrightarrow> (x = right (mem db p)) = (\<exists>b r. f = RightOf r b)"
proof -
  assume f: "focused db p x (f # c) t" and t: "t \<noteq> Tip"
  then have x: "x \<in> set (addrs t)" "x \<noteq> nullAddr"
    using focused_mem by blast+
  show ?thesis
  proof (cases f)
    case (LeftOf b r)
    then have s: "shape (mem db) p (right (mem db p)) r" and "x \<notin> set (addrs r)"
      using f x separate_focus [of "f # c" t] by (auto simp: focused_def)
    then have "right (mem db p) \<noteq> x"
      using shape_root [OF s] shape_mem [OF s] x(2) by blast
    then show ?thesis
      using LeftOf by auto
  qed (use f in \<open>auto simp: focused_def\<close>)
qed

lemma focused_leftRotate:
  assumes "focused db p x c (Br A x (Br B y C))"
  shows "focused (leftRotate x db) p y c (Br (Br A x B) y C)" and "red (leftRotate x db) = red db" and "keeps db (leftRotate x db)"
  using assms leftRotate_shape [of db p x c A B y C] relinks_red keeps_relinks
  by (auto simp: focused_def separate_def addrs_plug)

lemma focused_rightRotate:
  assumes "focused db p y c (Br (Br A x B) y C)"
  shows "focused (rightRotate y db) p x c (Br A x (Br B y C))" and "red (rightRotate y db) = red db" and "keeps db (rightRotate y db)"
  using assms rightRotate_shape [of db p y c A x B C] relinks_red keeps_relinks
  by (auto simp: focused_def separate_def addrs_plug)

text \<open>What balancing ends with.\<close>

definition balanced_to :: "memdb \<Rightarrow> addr list \<Rightarrow> memdb \<Rightarrow> bool" where
  "balanced_to db as db' = (\<exists>t h. shape (mem db') nullAddr (root db') t \<and> addrs t = as \<and> rb (red db') t h \<and>
     \<not> red db' nullAddr \<and> keeps db db')"

lemma balanced_toI:
  assumes "focused db' p a c t" and "rb (red db') t h" and "cok (red db') h c" and "topred (red db') c \<longrightarrow> \<not> rootred (red db') t"
    and "keeps db db'" and "addrs (plug c t) = as"
  shows "balanced_to db as db'"
proof -
  have "shape (mem db') nullAddr (root db') (plug c t)"
    using assms(1) by (auto simp: shape_plug focused_def)
  moreover obtain h' where "rb (red db') (plug c t) h'"
    using rb_plug [OF assms(2-4)] by blast
  ultimately show ?thesis
    using assms unfolding balanced_to_def focused_def by blast
qed

lemma balanced_to_trans: "keeps db db' \<Longrightarrow> balanced_to db' as db'' \<Longrightarrow> balanced_to db as db''"
  unfolding balanced_to_def using keeps_trans by blast

section \<open>The walk up\<close>

lemma insertFix_stop: "x = root db \<or> \<not> red db (up (mem db x)) \<Longrightarrow> insertFix x db = Some db"
  by (auto simp: insertFix.simps red_def isBlack_def)

text \<open>The last rotation: the red node under a red left child of a black node.\<close>

lemma last_rightRotate:
  assumes f: "focused db q g c (Br (Br (Br l x r) p B) g U)"
    and rbs: "rb (red db) (Br l x r) h" "rb (red db) B h" "rb (red db) U h" "\<not> rootred (red db) B" "\<not> rootred (red db) U"
    and c: "cok (red db) (Suc h) c"
  shows "\<exists>db'. insertFix x (rightRotate g (setRed g (setBlack p db))) = Some db' \<and>
    balanced_to db (addrs (plug c (Br (Br (Br l x r) p B) g U))) db'"
proof -
  let ?db1 = "setRed g (setBlack p db)"
  let ?db2 = "rightRotate g ?db1"
  have dist: "g \<noteq> nullAddr" "distinct (addrs (Br (Br (Br l x r) p B) g U))"
      "p \<notin> ctx_addrs c" "g \<notin> ctx_addrs c"
    using f separate_focus [of c "Br (Br (Br l x r) p B) g U"] by (auto simp: focused_def)
  have f1: "focused ?db1 q g c (Br (Br (Br l x r) p B) g U)"
    using f dist(1) by (simp add: focused_set)
  note f2 = focused_rightRotate [OF f1]
  have red2: "red ?db2 = (red db)(p := False, g := True)"
    by (simp add: f2(2))
  have "insertFix x ?db2 = Some ?db2"
    by (rule insertFix_stop) (use f2(1) red2 dist in \<open>auto simp: focused_def\<close>)
  moreover have "balanced_to db (addrs (plug c (Br (Br (Br l x r) p B) g U))) ?db2"
  proof (rule balanced_toI [OF f2(1)])
    have "p \<notin> set (addrs (Br l x r))" "g \<notin> set (addrs (Br l x r))"
      using dist(2) by auto
    then have up1: "rb (red ?db2) (Br l x r) h"
      unfolding red2 using rbs(1) by (simp only: rb_upd not_False_eq_True)
    have up2: "rb (red ?db2) B h" "rb (red ?db2) U h" "\<not> rootred (red ?db2) B" "\<not> rootred (red ?db2) U"
      unfolding red2 using dist rbs by (simp_all add: color_upd)
    show "rb (red ?db2) (Br (Br l x r) p (Br B g U)) (Suc h)"
    proof -
      have "red ?db2 p = False" "red ?db2 g = True"
        unfolding red2 using dist(2) by auto
      then show ?thesis
        using up1 up2 by (simp only: rb.simps rootred.simps if_True if_False nat.case simp_thms)
    qed
    show "cok (red ?db2) (Suc h) c"
      unfolding red2 using dist c by (simp add: color_upd)
    show "keeps db ?db2"
      using f2(3) keeps_set keeps_trans by blast
  qed (use dist red2 in \<open>auto simp: addrs_plug\<close>)
  ultimately show ?thesis
    by blast
qed

lemma last_leftRotate:
  assumes f: "focused db q g c (Br U g (Br B p (Br l x r)))"
    and rbs: "rb (red db) (Br l x r) h" "rb (red db) B h" "rb (red db) U h" "\<not> rootred (red db) B" "\<not> rootred (red db) U"
    and c: "cok (red db) (Suc h) c"
  shows "\<exists>db'. insertFix x (leftRotate g (setRed g (setBlack p db))) = Some db' \<and>
    balanced_to db (addrs (plug c (Br U g (Br B p (Br l x r))))) db'"
proof -
  let ?db1 = "setRed g (setBlack p db)"
  let ?db2 = "leftRotate g ?db1"
  have dist: "g \<noteq> nullAddr" "distinct (addrs (Br U g (Br B p (Br l x r))))"
      "p \<notin> ctx_addrs c" "g \<notin> ctx_addrs c"
    using f separate_focus [of c "Br U g (Br B p (Br l x r))"] by (auto simp: focused_def)
  have f1: "focused ?db1 q g c (Br U g (Br B p (Br l x r)))"
    using f dist(1) by (simp add: focused_set)
  note f2 = focused_leftRotate [OF f1]
  have red2: "red ?db2 = (red db)(p := False, g := True)"
    by (simp add: f2(2))
  have "insertFix x ?db2 = Some ?db2"
    by (rule insertFix_stop) (use f2(1) red2 dist in \<open>auto simp: focused_def\<close>)
  moreover have "balanced_to db (addrs (plug c (Br U g (Br B p (Br l x r))))) ?db2"
  proof (rule balanced_toI [OF f2(1)])
    have "p \<notin> set (addrs (Br l x r))" "g \<notin> set (addrs (Br l x r))"
      using dist(2) by auto
    then have up1: "rb (red ?db2) (Br l x r) h"
      unfolding red2 using rbs(1) by (simp only: rb_upd not_False_eq_True)
    have up2: "rb (red ?db2) B h" "rb (red ?db2) U h" "\<not> rootred (red ?db2) B" "\<not> rootred (red ?db2) U"
      unfolding red2 using dist rbs by (simp_all add: color_upd)
    show "rb (red ?db2) (Br (Br U g B) p (Br l x r)) (Suc h)"
    proof -
      have "red ?db2 p = False" "red ?db2 g = True"
        unfolding red2 using dist(2) by auto
      then show ?thesis
        using up1 up2 by (simp only: rb.simps rootred.simps if_True if_False nat.case simp_thms)
    qed
    show "cok (red ?db2) (Suc h) c"
      unfolding red2 using dist c by (simp add: color_upd)
    show "keeps db ?db2"
      using f2(3) keeps_set keeps_trans by blast
  qed (use dist red2 in \<open>auto simp: addrs_plug\<close>)
  ultimately show ?thesis
    by blast
qed

text \<open>The red uncle: colours change and the walk goes on two levels up.\<close>

lemma recolour:
  assumes f: "focused db p x (f # g # c) (Br l x r)"
    and reds: "red db x" "red db p" "rootred (red db) (frame_tree g)"
    and rbs: "rb (red db) (Br l x r) h" "cok (red db) h (f # g # c)"
  defines "gp \<equiv> frame_addr g"
  defines "y \<equiv> sibling_of g (mem db gp)"
  defines "db' \<equiv> setRed gp (setBlack y (setBlack p db))"
  shows "\<exists>q l' r'. focused db' q gp c (Br l' gp r') \<and> red db' gp \<and> rb (red db') (Br l' gp r') (Suc h) \<and> cok (red db') (Suc h) c \<and>
    plug1 g (plug1 f (Br l x r)) = Br l' gp r' \<and> keeps db db'"
proof -
  let ?t = "plug1 f (Br l x r)"
  have p: "p = frame_addr f"
    using f by (simp add: focused_def ctx_Cons)
  have f1: "focused db gp p (g # c) ?t" and f2: "focused db (up (mem db gp)) gp c (plug1 g ?t)"
    using focused_up [OF f] focused_up [OF focused_up [OF f]] by (auto simp: focused_def ctx_Cons gp_def)
  have u: "shape (mem db) gp y (frame_tree g)" and gp0: "gp \<noteq> nullAddr"
    using f1 by (auto simp: focused_def ctx_Cons gp_def y_def)
  obtain lu ru where ut: "frame_tree g = Br lu y ru"
    using u reds(3) by (cases "frame_tree g") auto
  have dist: "distinct (addrs (plug1 g ?t))" "set (addrs (plug1 g ?t)) \<inter> ctx_addrs c = {}"
    using f2 separate_focus [of c "plug1 g ?t"] by (auto simp: focused_def)
  have r': "red db' = (red db)(p := False, y := False, gp := True)"
    by (simp add: db'_def)
  have col: "\<not> red db gp" "cok (red db) (Suc h) c" "rb (red db) (frame_tree f) h" "\<not> rootred (red db) (frame_tree f)" "rb (red db) (Br lu y ru) h"
    using rbs(2) reds(2) by (auto simp: p gp_def ut)
  have "p \<notin> set (addrs (Br l x r))" "y \<notin> set (addrs (Br l x r))" "gp \<notin> set (addrs (Br l x r))"
    and "p \<notin> set (addrs (frame_tree f))" "y \<notin> set (addrs (frame_tree f))" "gp \<notin> set (addrs (frame_tree f))"
    and "p \<noteq> y" "p \<noteq> gp" "y \<noteq> gp"
    and "p \<notin> set (addrs lu)" "y \<notin> set (addrs lu)" "gp \<notin> set (addrs lu)" "p \<notin> set (addrs ru)" "y \<notin> set (addrs ru)" "gp \<notin> set (addrs ru)"
    using dist(1) ut unfolding p gp_def by (cases f; cases g; auto)+
  note d = this
  have rs: "rb (red db') (Br l x r) h" "rb (red db') (frame_tree f) h"
    unfolding r' using d rbs(1) col(3) by (simp_all only: color_upd not_False_eq_True)
  have t: "rb (red db') ?t (Suc h)" "\<not> rootred (red db') ?t"
    using rb_plug1 [OF rs] d(7,8) by (simp_all add: r' p [symmetric] rootred_plug1 del: rb.simps)
  have "rb (red db') (Br lu y ru) (Suc h)"
    using col(5) reds(3) ut d by (auto simp: r' color_upd)
  then have "rb (red db') (plug1 g ?t) (Suc h)"
    using t rb_plug1 [OF t(1), of g] by (simp add: gp_def [symmetric] ut r' d)
  moreover have "plug1 g ?t = Br (case g of LeftOf a s \<Rightarrow> ?t | RightOf s a \<Rightarrow> s) gp (case g of LeftOf a s \<Rightarrow> s | RightOf s a \<Rightarrow> ?t)"
    by (cases g) (auto simp: gp_def)
  moreover have "focused db' (up (mem db gp)) gp c (plug1 g ?t)"
    unfolding db'_def by (intro focused_set f2 gp0)
  moreover have "cok (red db') (Suc h) c"
  proof -
    have "p \<notin> ctx_addrs c" "y \<notin> ctx_addrs c" "gp \<notin> ctx_addrs c"
      using dist(2) ut unfolding p gp_def by (cases f; cases g; auto)+
    then show ?thesis
      unfolding r' using col(2) by (simp only: color_upd not_False_eq_True)
  qed
  moreover have "keeps db db'"
    unfolding db'_def using keeps_set keeps_trans by blast
  ultimately show ?thesis
    by (metis fun_upd_same r')
qed

theorem insertFix_balances:
  assumes "focused db p x c (Br l x r)" and "red db x" and "rb (red db) (Br l x r) h" and "cok (red db) h c"
  shows "\<exists>db'. insertFix x db = Some db' \<and> balanced_to db (addrs (plug c (Br l x r))) db'"
  using assms
proof (induction "length c" arbitrary: db p x c l r h rule: less_induct)
  case less
  note f = less.prems(1) and rbs = less.prems(3,4)
  show ?case
  proof (cases "c = [] \<or> \<not> topred (red db) c")
    case True
    then have "x = root db \<or> \<not> red db (up (mem db x))"
      using f by (cases c) (auto simp: focused_def ctx_Cons)
    moreover have "balanced_to db (addrs (plug c (Br l x r))) db"
      using balanced_toI [OF f rbs] True by auto
    ultimately show ?thesis
      using insertFix_stop by blast
  next
    case False
    then obtain f1 g c' where c: "c = f1 # g # c'" and redp: "red db (frame_addr f1)"
      using rbs(2) by (cases c; cases "tl c") auto
    note f0 = f [unfolded c]
    define gp where "gp = frame_addr g"
    have p: "p = frame_addr f1" "up (mem db x) = p"
      using f0 by (auto simp: focused_def ctx_Cons)
    have fp: "focused db gp p (g # c') (plug1 f1 (Br l x r))"
      using focused_up [OF f0] by (auto simp: focused_def ctx_Cons gp_def)
    have fg: "focused db (up (mem db gp)) gp c' (plug1 g (plug1 f1 (Br l x r)))"
      by (rule focused_up [OF fp])
    have gp: "up (mem db p) = gp" "gp \<noteq> nullAddr"
      using fp f0 by (auto simp: focused_def ctx_Cons gp_def)
    have xroot: "x \<noteq> root db"
    proof
      assume "x = root db"
      then have "x \<in> ctx_addrs c"
        using f ctx_root [of "mem db" "root db" p x c] c by (auto simp: focused_def)
      then show False
        using f separate_focus [of c "Br l x r"] by (auto simp: focused_def)
    qed
    have pl: "(p = left (mem db gp)) = (\<exists>b s. g = LeftOf b s)"
      by (rule focused_left_child [OF fp]) (cases f1; simp)
    have xl: "(x = left (mem db p)) = (\<exists>b s. f1 = LeftOf b s)" "(x = right (mem db p)) = (\<exists>b s. f1 = RightOf s b)"
      using focused_left_child [OF f0] focused_right_child [OF f0] by auto
    define y where "y = sibling_of g (mem db gp)"
    have ry: "red db y = rootred (red db) (frame_tree g)"
      unfolding y_def by (rule focused_sibling [OF fp])
    have bp: "\<not> isBlack (mem db (up (mem db x)))"
      using redp p by (simp add: isBlack_def red_def)
    have col: "rb (red db) (frame_tree f1) h" "rb (red db) (frame_tree g) h" "\<not> red db gp" "\<not> rootred (red db) (frame_tree f1)"
        "cok (red db) (Suc h) c'"
      using rbs(2) redp by (auto simp: c gp_def)
    have inner: "rb (red db) l h" "rb (red db) r h" "\<not> rootred (red db) l" "\<not> rootred (red db) r"
      using rbs(1) less.prems(2) by auto
    show ?thesis
    proof (cases "red db y")
      case True
      define db' where "db' = setRed gp (setBlack y (setBlack p db))"
      have e: "insertFix x db = insertFix gp db'"
        unfolding insertFix.simps [of x db] using xroot bp True p gp pl
        by (cases g) (simp_all add: Let_def red_def y_def db'_def)
      obtain q l' r' where n: "focused db' q gp c' (Br l' gp r')" "red db' gp" "rb (red db') (Br l' gp r') (Suc h)"
          "cok (red db') (Suc h) c'" "plug1 g (plug1 f1 (Br l x r)) = Br l' gp r'" "keeps db db'"
        using recolour [OF f0 less.prems(2), of h] redp True ry rbs unfolding c p(1) [symmetric] gp_def db'_def y_def by blast
      have "\<exists>db''. insertFix gp db' = Some db'' \<and> balanced_to db' (addrs (plug c' (Br l' gp r'))) db''"
        by (rule less.hyps [OF _ n(1-4)]) (simp add: c)
      then show ?thesis
        using e n(5,6) balanced_to_trans by (fastforce simp: c)
    next
      case False
      then have ub: "\<not> rootred (red db) (frame_tree g)" and ib: "\<not> isRed (mem db y)"
        using ry by (auto simp: red_def)
      show ?thesis
      proof (cases g; cases f1)
        fix b U b' B
        assume gf: "g = LeftOf b U" "f1 = LeftOf b' B"
        have e: "insertFix x db = insertFix x (rightRotate gp (setRed gp (setBlack p db)))"
          unfolding insertFix.simps [of x db] using xroot bp ib p gp pl xl gf
          by (simp add: Let_def y_def)
        show ?thesis
          using last_rightRotate [of db _ gp c' l x r p B U h] fg rbs(1) col ub e unfolding c gf gp_def p(1) by simp
      next
        fix b U B b'
        assume gf: "g = RightOf U b" "f1 = RightOf B b'"
        have e: "insertFix x db = insertFix x (leftRotate gp (setRed gp (setBlack p db)))"
          unfolding insertFix.simps [of x db] using xroot bp ib p gp pl xl gf
          by (simp add: Let_def y_def)
        show ?thesis
          using last_leftRotate [of db _ gp c' U B p l x r h] fg rbs(1) col ub e unfolding c gf gp_def p(1) by simp
      next
        fix b U B b'
        assume gf: "g = LeftOf b U" "f1 = RightOf B b'"
        define db1 where "db1 = leftRotate p db"
        have "focused db gp p (g # c') (Br B p (Br l x r))"
          using fp gf p by simp
        note r1 = focused_leftRotate [OF this, folded db1_def]
        have l1: "up (mem db1 p) = x" "up (mem db1 x) = gp"
          using r1(1) by (auto simp: focused_def)
        have f1': "focused db1 (up (mem db1 gp)) gp c' (Br (Br (Br B p l) x r) b U)"
          using focused_up [OF r1(1)] gf by simp
        have e: "insertFix x db = insertFix p (rightRotate gp (setRed gp (setBlack x db1)))"
          unfolding insertFix.simps [of x db] using xroot bp ib p gp pl xl gf l1
          by (simp add: Let_def y_def db1_def)
        have "\<exists>db'. insertFix p (rightRotate gp (setRed gp (setBlack x db1))) = Some db' \<and>
            balanced_to db1 (addrs (plug c' (Br (Br (Br B p l) x r) gp U))) db'"
          by (rule last_rightRotate [where h = h])
            (use f1' rbs(1) col ub inner redp in \<open>simp_all add: r1(2) gf gp_def p(1)\<close>)
        then show ?thesis
          using e balanced_to_trans [OF r1(3)] by (fastforce simp: c gf gp_def p(1) addrs_plug)
      next
        fix b U B b'
        assume gf: "g = RightOf U b" "f1 = LeftOf b' B"
        define db1 where "db1 = rightRotate p db"
        have "focused db gp p (g # c') (Br (Br l x r) p B)"
          using fp gf p by simp
        note r1 = focused_rightRotate [OF this, folded db1_def]
        have l1: "up (mem db1 p) = x" "up (mem db1 x) = gp"
          using r1(1) by (auto simp: focused_def)
        have f1': "focused db1 (up (mem db1 gp)) gp c' (Br U b (Br l x (Br r p B)))"
          using focused_up [OF r1(1)] gf by simp
        have e: "insertFix x db = insertFix p (leftRotate gp (setRed gp (setBlack x db1)))"
          unfolding insertFix.simps [of x db] using xroot bp ib p gp pl xl gf l1
          by (simp add: Let_def y_def db1_def)
        have "\<exists>db'. insertFix p (leftRotate gp (setRed gp (setBlack x db1))) = Some db' \<and>
            balanced_to db1 (addrs (plug c' (Br U gp (Br l x (Br r p B))))) db'"
          by (rule last_leftRotate [where h = h])
            (use f1' rbs(1) col ub inner redp in \<open>simp_all add: r1(2) gf gp_def p(1)\<close>)
        then show ?thesis
          using e balanced_to_trans [OF r1(3)] by (fastforce simp: c gf gp_def p(1) addrs_plug)
      qed
    qed
  qed
qed

end
