(* ===== verification/Memdb_Arena_Facts.thy ===== *)
theory Memdb_Arena_Facts
  imports Memdb_Arena
begin

text \<open>The allocator of the arena: it finds room for everything up to a block, and never twice the same.\<close>

section \<open>Alignment\<close>

lemma align_up:
  assumes "n \<le> maxBlockSize"
  shows "unat ((word_of_nat (n + 7) :: u64) AND alignMask) = 8 * ((n + 7) div 8)"
proof -
  have n: "n + 7 < 2 ^ 32"
    using assms by (simp add: maxBlockSize_def)
  define w where "w = (word_of_nat (n + 7) :: u64)"
  have u: "unat w = n + 7"
    unfolding w_def using n by (simp add: unat_of_nat take_bit_nat_eq_self del: of_nat_add)
  have high: "i < 32" if "bit w i" for i
  proof -
    have "take_bit 32 w = w"
      using n u by (simp add: word_unat_eq_iff unsigned_take_bit_eq take_bit_nat_eq_self)
    then show ?thesis
      using that by (metis bit_take_bit_iff)
  qed
  have mask: "bit alignMask i \<longleftrightarrow> 3 \<le> i \<and> i < 32" for i
  proof -
    have e: "alignMask = push_bit 3 (mask 29)"
      by (simp add: alignMask_def mask_eq_exp_minus_1)
    show ?thesis
      unfolding e by (simp only: bit_push_bit_iff bit_mask_iff) auto
  qed
  have "w AND alignMask = push_bit 3 (drop_bit 3 w)"
    by (rule bit_word_eqI) (use high mask in \<open>auto simp: bit_simps\<close>)
  also have "unat \<dots> = 8 * ((n + 7) div 8)"
  proof -
    have "unat (drop_bit 3 w) = (n + 7) div 8"
      by (simp add: drop_bit_eq_div unat_div u)
    then show ?thesis
      using n by (simp add: push_bit_eq_mult unat_word_ariths mult.commute)
  qed
  finally show ?thesis
    unfolding w_def .
qed

section \<open>Blocks and arenas in order\<close>

definition cam_ok :: "memdbMemCam \<Rightarrow> bool" where
  "cam_ok a = ((blocks a \<noteq> [] \<longrightarrow> 0 < blockSize a) \<and>
     (\<forall>b \<in> set (blocks a). blen b \<le> length (buf b) \<and> length (buf b) \<le> maxBlockSize))"

text \<open>Every block has an index that is not the one of the null address.\<close>

definition cam_room :: "memdbMemCam \<Rightarrow> bool" where
  "cam_room a = (length (blocks a) < 4294967295)"

lemma cam_ok_empty [simp]: "cam_ok empty_cam" "cam_ok (cam_reset a)" "cam_room empty_cam" "cam_room (cam_reset a)"
  by (simp_all add: cam_ok_def empty_cam_def cam_reset_def cam_room_def)

lemma grow_doubles: "0 < bs \<Longrightarrow> \<exists>n. grow sz bs = Some n \<and> sz < n \<and> bs \<le> n"
proof (induction "Suc sz - bs" arbitrary: bs rule: less_induct)
  case less
  show ?case
  proof (cases "bs \<le> sz")
    case True
    then have "\<exists>n. grow sz (2 * bs) = Some n \<and> sz < n \<and> 2 * bs \<le> n"
      using less.prems by (intro less.hyps) auto
    then show ?thesis
      using True by (auto simp: grow.simps [of sz bs])
  qed (auto simp: grow.simps [of sz bs])
qed

lemma enlarge_spec:
  assumes "0 < bs" and "sz \<le> maxBlockSize"
  shows "\<exists>m. enlarge sz bs a = Some \<lparr>blockSize = m, blocks = blocks a @ [\<lparr>buf = replicate m 0, blen = 0\<rparr>]\<rparr> \<and>
    sz \<le> m \<and> m \<le> maxBlockSize \<and> 0 < m"
proof -
  obtain n where "grow sz bs = Some n" "sz < n"
    using grow_doubles [OF assms(1)] by blast
  then show ?thesis
    using assms by (auto simp: enlarge_def Let_def maxBlockSize_def)
qed

text \<open>An allocation takes bytes above the used ones of the last block, or of a new one.\<close>

definition allocated_in :: "memdbMemCam \<Rightarrow> nat \<Rightarrow> memdbMemCamAddr \<Rightarrow> memdbMemCam \<Rightarrow> memdbMemCamBlock list \<Rightarrow> memdbMemCamBlock \<Rightarrow> nat \<Rightarrow> bool" where
  "allocated_in a sz ad a' bs b n =
     (blocks a' = bs @ [b\<lparr>blen := n + sz\<rparr>] \<and> (blocks a = bs @ [b] \<or> blocks a = bs \<and> blen b = 0) \<and>
      blen b \<le> n \<and> n + sz \<le> length (buf b) \<and> length (buf b) \<le> maxBlockSize \<and> 0 < blockSize a' \<and>
      ad = \<lparr>idx = word_of_nat (length bs), off = word_of_nat n\<rparr>)"

lemma allocInLastBlock_spec:
  assumes "blocks a = bs @ [b]" and "blen b \<le> length (buf b)" and "length (buf b) \<le> maxBlockSize" and "0 < blockSize a"
  shows "allocInLastBlock sz al a = None \<or>
    (\<exists>ad a' n. allocInLastBlock sz al a = Some (ad, a') \<and> allocated_in a sz ad a' bs b n \<and> (\<not> al \<longrightarrow> n = blen b))"
proof -
  define n where "n = (if al then unat ((word_of_nat (blen b + 7) :: u64) AND alignMask) else blen b)"
  have "blen b \<le> n"
    using align_up [of "blen b"] assms(2,3) by (auto simp: n_def)
  then show ?thesis
    using assms unfolding allocInLastBlock_def block_alloc_def
    by (cases "n + sz \<le> length (buf b)") (auto simp: Let_def n_def [symmetric] allocated_in_def intro!: exI [of _ n], auto simp: n_def)
qed

lemma alloc_spec:
  assumes ok: "cam_ok a" and sz: "sz \<le> maxBlockSize"
  shows "\<exists>ad a' bs b n. alloc sz al a = Some (ad, a') \<and> allocated_in a sz ad a' bs b n \<and> (\<not> al \<longrightarrow> n = blen b)"
proof -
  have fresh: "\<exists>ad a' n. allocInLastBlock sz al a1 = Some (ad, a') \<and> allocated_in a0 sz ad a' (blocks a0) \<lparr>buf = replicate m 0, blen = 0\<rparr> n \<and>
      (\<not> al \<longrightarrow> n = 0)"
    if a1: "a1 = \<lparr>blockSize = m, blocks = blocks a0 @ [\<lparr>buf = replicate m 0, blen = 0\<rparr>]\<rparr>" and m: "sz \<le> m" "m \<le> maxBlockSize" "0 < m"
    for a0 a1 m
  proof -
    have "allocInLastBlock sz al a1 \<noteq> None"
      using m align_up [of 0] by (auto simp: allocInLastBlock_def block_alloc_def a1 Let_def maxBlockSize_def)
    then show ?thesis
      using allocInLastBlock_spec [of a1 "blocks a0" "\<lparr>buf = replicate m 0, blen = 0\<rparr>" sz al] m by (auto simp: a1 allocated_in_def)
  qed
  show ?thesis
  proof (cases "blocks a = []")
    case True
    obtain m where e: "enlarge sz initBlockSize a = Some \<lparr>blockSize = m, blocks = blocks a @ [\<lparr>buf = replicate m 0, blen = 0\<rparr>]\<rparr>"
        and m: "sz \<le> m" "m \<le> maxBlockSize" "0 < m"
      using enlarge_spec [of initBlockSize sz a] sz by (auto simp: initBlockSize_def)
    show ?thesis
      using fresh [OF refl m, of a] e True sz by (fastforce simp: alloc_def)
  next
    case False
    then obtain bs b where b: "blocks a = bs @ [b]"
      by (metis append_butlast_last_id)
    have bok: "blen b \<le> length (buf b)" "length (buf b) \<le> maxBlockSize" "0 < blockSize a"
      using ok b by (auto simp: cam_ok_def)
    show ?thesis
    proof (cases "allocInLastBlock sz al a")
      case None
      obtain m where e: "enlarge sz (2 * blockSize a) a = Some \<lparr>blockSize = m, blocks = blocks a @ [\<lparr>buf = replicate m 0, blen = 0\<rparr>]\<rparr>"
          and m: "sz \<le> m" "m \<le> maxBlockSize" "0 < m"
        using enlarge_spec [of "2 * blockSize a" sz a] sz bok by auto
      show ?thesis
        using fresh [OF refl m, of a] e False None sz by (fastforce simp: alloc_def)
    next
      case (Some r)
      then show ?thesis
        using allocInLastBlock_spec [OF b bok, of sz al] False sz by (fastforce simp: alloc_def)
    qed
  qed
qed

section \<open>Allocated addresses\<close>

definition allocated :: "memdbMemCam \<Rightarrow> memdbMemCamAddr \<Rightarrow> bool" where
  "allocated a ad = (unat (idx ad) < length (blocks a) \<and> unat (off ad) < blen (blocks a ! unat (idx ad)))"

lemma alloc_fresh:
  assumes "allocated_in a sz ad a' bs b n" and "0 < sz" and "cam_ok a" and "cam_room a"
  shows "cam_ok a'" and "ad \<noteq> nullAddr" and "\<not> allocated a ad" and "allocated a' ad"
    and "\<And>x. allocated a x \<Longrightarrow> allocated a' x"
proof -
  have i: "unat (idx ad) = length bs" and o: "unat (off ad) = n"
    using assms(1,4) by (auto simp: allocated_in_def cam_room_def maxBlockSize_def unat_of_nat take_bit_nat_eq_self)
  show "cam_ok a'"
    using assms(1,3) by (auto simp: allocated_in_def cam_ok_def)
  show "ad \<noteq> nullAddr"
    using assms(1) o by (auto simp: allocated_in_def maxBlockSize_def nullAddr_def)
  show "\<not> allocated a ad" "allocated a' ad"
    using assms(1,2) i o by (auto simp: allocated_in_def allocated_def)
  show "allocated a' x" if "allocated a x" for x
    using that assms(1) by (auto simp: allocated_in_def allocated_def nth_append split: if_splits)
qed

end
