(* ===== verification/Memdb_Find.thy ===== *)
theory Memdb_Find
  imports Memdb_Insert Memdb_Arena_Facts
begin

text \<open>
  The invariant of the buffer's tree, and the search for a key: it finds the key's node if there is one
  and inserts one otherwise.
\<close>

section \<open>The invariant of the tree\<close>

definition node_key :: "memdb \<Rightarrow> addr \<Rightarrow> bytes" where
  "node_key db a = getKey (mem db a)"

definition keys_sorted :: "memdb \<Rightarrow> addr list \<Rightarrow> bool" where
  "keys_sorted db as = sorted_wrt (<) (map (node_key db) as)"

text \<open>The tree hangs below the root, it is a red-black tree with a black root, and its keys are in order.\<close>

definition rb_tree :: "memdb \<Rightarrow> ptree \<Rightarrow> bool" where
  "rb_tree db t =
     (shape (mem db) nullAddr (root db) t \<and> \<not> red db nullAddr \<and> (\<exists>h. rb (red db) t h) \<and> \<not> rootred (red db) t \<and>
      keys_sorted db (addrs t))"

lemma keys_sorted_append:
  "keys_sorted db (as @ bs) \<longleftrightarrow> keys_sorted db as \<and> keys_sorted db bs \<and> (\<forall>a \<in> set as. \<forall>b \<in> set bs. node_key db a < node_key db b)"
  by (auto simp: keys_sorted_def sorted_wrt_append)

lemma keys_sorted_Cons: "keys_sorted db (a # as) \<longleftrightarrow> (\<forall>b \<in> set as. node_key db a < node_key db b) \<and> keys_sorted db as"
  by (auto simp: keys_sorted_def)

lemma keys_sorted_Nil [simp]: "keys_sorted db []"
  by (simp add: keys_sorted_def)

lemmas keys_sorted_simps = keys_sorted_append keys_sorted_Cons

lemma keys_sorted_distinct: "keys_sorted db as \<Longrightarrow> distinct as"
  by (induction as) (auto simp: keys_sorted_Cons)

lemma keys_sorted_inj: "keys_sorted db as \<Longrightarrow> a \<in> set as \<Longrightarrow> b \<in> set as \<Longrightarrow> node_key db a = node_key db b \<Longrightarrow> a = b"
  by (induction as) (auto simp: keys_sorted_Cons)

lemma keys_sorted_cong: "(\<And>a. a \<in> set as \<Longrightarrow> node_key db' a = node_key db a) \<Longrightarrow> keys_sorted db' as = keys_sorted db as"
  by (simp add: keys_sorted_def cong: map_cong)

lemma keeps_key: "keeps db db' \<Longrightarrow> node_key db' a = node_key db a"
  by (simp add: keeps_def node_key_def getKey_def)

section \<open>The walk down\<close>

lemma walk_found:
  "shape (mem db) p x t \<Longrightarrow> keys_sorted db (addrs t) \<Longrightarrow> a \<in> set (addrs t) \<Longrightarrow> walk db (node_key db a) x y = Some (a, a)"
proof (induction t arbitrary: p x y)
  case (Br l b r)
  have x: "x = b" "b \<noteq> nullAddr"
    using Br.prems(1) by auto
  consider "a \<in> set (addrs l)" | "a = b" | "a \<in> set (addrs r)"
    using Br.prems(3) by auto
  then show ?case
  proof cases
    case 1
    then have "node_key db a < node_key db b"
      using Br.prems(2) by (simp add: keys_sorted_simps)
    then show ?thesis
      using 1 Br.prems Br.IH(1) [of b "left (mem db b)" b] x
      by (simp add: walk.simps [of db _ b] node_key_def [of db b, symmetric] keys_sorted_simps)
  next
    case 2
    then show ?thesis
      using x by (simp add: walk.simps [of db _ b] node_key_def [of db b, symmetric])
  next
    case 3
    then have "node_key db b < node_key db a" "\<not> node_key db a < node_key db b"
      using Br.prems(2) by (auto simp: keys_sorted_simps)
    then show ?thesis
      using 3 Br.prems Br.IH(2) [of b "right (mem db b)" b] x
      by (simp add: walk.simps [of db _ b] node_key_def [of db b, symmetric] keys_sorted_simps)
  qed
qed simp

text \<open>A key that is not there: the walk ends below the node that will be its parent.\<close>

lemma walk_missing:
  assumes "ctx (mem db) (root db) p x c" and "shape (mem db) p x t" and "keys_sorted db (addrs t)" and "k \<notin> node_key db ` set (addrs t)"
    and "\<forall>a \<in> set (before c). node_key db a < k" and "\<forall>a \<in> set (after c). k < node_key db a"
  shows "\<exists>q c'. walk db k x p = Some (nullAddr, q) \<and> ctx (mem db) (root db) q nullAddr c' \<and> plug c' Tip = plug c t \<and>
    (\<forall>a \<in> set (before c'). node_key db a < k) \<and> (\<forall>a \<in> set (after c'). k < node_key db a) \<and>
    (c' \<noteq> [] \<longrightarrow> (k < node_key db q \<longleftrightarrow> (\<exists>b s. hd c' = LeftOf b s)))"
  using assms
proof (induction t arbitrary: p x c)
  case Tip
  have "k < node_key db p \<longleftrightarrow> (\<exists>b s. hd c = LeftOf b s)" if "c \<noteq> []"
  proof (cases c)
    case (Cons f c')
    then show ?thesis
      using Tip.prems by (cases f) auto
  qed (use that in simp)
  then show ?case
    using Tip.prems by (auto simp: walk.simps [of db k nullAddr p] intro!: exI [of _ c])
next
  case (Br l b r)
  have x: "x = b" "b \<noteq> nullAddr" "up (mem db b) = p"
    using Br.prems(2) by auto
  show ?case
  proof (cases "k < node_key db b")
    case True
    have "\<exists>q c'. walk db k (left (mem db b)) b = Some (nullAddr, q) \<and> ctx (mem db) (root db) q nullAddr c' \<and>
        plug c' Tip = plug (LeftOf b r # c) l \<and> (\<forall>a \<in> set (before c'). node_key db a < k) \<and> (\<forall>a \<in> set (after c'). k < node_key db a) \<and>
        (c' \<noteq> [] \<longrightarrow> (k < node_key db q \<longleftrightarrow> (\<exists>b s. hd c' = LeftOf b s)))"
      by (rule Br.IH(1)) (use Br.prems x True in \<open>auto simp: keys_sorted_simps intro: less_trans\<close>)
    then show ?thesis
      using True x by (simp add: walk.simps [of db k b] node_key_def [of db b, symmetric])
  next
    case False
    then have less: "node_key db b < k"
      using Br.prems(4) by (auto simp: not_less order_le_less)
    have "\<exists>q c'. walk db k (right (mem db b)) b = Some (nullAddr, q) \<and> ctx (mem db) (root db) q nullAddr c' \<and>
        plug c' Tip = plug (RightOf l b # c) r \<and> (\<forall>a \<in> set (before c'). node_key db a < k) \<and> (\<forall>a \<in> set (after c'). k < node_key db a) \<and>
        (c' \<noteq> [] \<longrightarrow> (k < node_key db q \<longleftrightarrow> (\<exists>b s. hd c' = LeftOf b s)))"
      by (rule Br.IH(2)) (use Br.prems x less in \<open>auto simp: keys_sorted_simps intro: less_trans\<close>)
    then show ?thesis
      using False less x by (simp add: walk.simps [of db k b] node_key_def [of db b, symmetric])
  qed
qed

text \<open>The steps of the walk are bounded by the height, and the height by the logarithm of the size.\<close>

fun height :: "ptree \<Rightarrow> nat" where
  "height Tip = 0"
| "height (Br l a r) = Suc (max (height l) (height r))"

lemma rb_height: "rb R t h \<Longrightarrow> height t \<le> 2 * h + (if rootred R t then 1 else 0)"
  by (induction R t h rule: rb.induct) (auto split: nat.splits if_splits)

lemma rb_size: "rb R t h \<Longrightarrow> 2 ^ h \<le> length (addrs t) + 1"
proof (induction R t h rule: rb.induct)
  case (2 R l a r h)
  then show ?case
    by (fastforce split: nat.splits if_splits)
qed simp

section \<open>The search\<close>

lemma traverse_found:
  assumes "rb_tree db t" and "a \<in> set (addrs t)"
  shows "traverse (node_key db a) ins db = Some (a, db)"
proof -
  have "a \<noteq> nullAddr"
    using assms shape_null by (auto simp: rb_tree_def)
  moreover have "walk db (node_key db a) (root db) nullAddr = Some (a, a)"
    by (rule walk_found) (use assms in \<open>auto simp: rb_tree_def\<close>)
  ultimately show ?thesis
    by (simp add: traverse_def)
qed

lemma traverse_missing_read:
  assumes "rb_tree db t" and "k \<notin> node_key db ` set (addrs t)"
  shows "traverse k False db = Some (nullAddr, db)"
proof -
  have "\<exists>q. walk db k (root db) nullAddr = Some (nullAddr, q)"
    using walk_missing [of db nullAddr "root db" "[]" t k] assms by (auto simp: rb_tree_def)
  then show ?thesis
    by (auto simp: traverse_def)
qed

lemma rb_unplug:
  "rb R (plug c t) h0 \<Longrightarrow> \<not> rootred R (plug c t) \<Longrightarrow> \<exists>h. rb R t h \<and> cok R h c \<and> (topred R c \<longrightarrow> \<not> rootred R t)"
proof (induction c arbitrary: t)
  case (Cons f c)
  obtain h where h: "rb R (plug1 f t) h" "cok R h c" "topred R c \<longrightarrow> \<not> rootred R (plug1 f t)"
    using Cons.IH [of "plug1 f t"] Cons.prems by auto
  have nonempty: "c \<noteq> []" if "R (frame_addr f)"
    using that Cons.prems(2) by (auto simp: rootred_plug1)
  show ?case
    using h nonempty by (cases f) (auto simp: rootred_plug1 split: if_splits nat.splits)
qed auto

lemma keys_sorted_insert:
  assumes "keys_sorted db (as @ bs)" and "\<forall>a \<in> set as. node_key db a < node_key db z" and "\<forall>a \<in> set bs. node_key db z < node_key db a"
  shows "keys_sorted db (as @ z # bs)"
  using assms by (auto simp: keys_sorted_simps)

lemma rb_blacken: "rb R (Br l a r) h \<Longrightarrow> distinct (addrs (Br l a r)) \<Longrightarrow> \<exists>h'. rb (R(a := False)) (Br l a r) h'"
  by (cases "R a") (force simp: color_upd intro: exI [of _ "Suc h"], auto simp: fun_upd_idem)

lemma balanced_rb_tree:
  assumes b: "balanced_to db as db'" and ne: "as \<noteq> []" and s: "keys_sorted db as"
  shows "\<exists>t. rb_tree (setBlack (root db') db') t \<and> addrs t = as"
proof -
  obtain t h where t: "shape (mem db') nullAddr (root db') t" "addrs t = as" "rb (red db') t h" "\<not> red db' nullAddr" "keeps db db'"
    using b by (auto simp: balanced_to_def)
  obtain l r where br: "t = Br l (root db') r" "root db' \<noteq> nullAddr"
    using t(1,2) ne by (cases t) auto
  have s': "keys_sorted db' (addrs t)"
    using s t(2) keys_sorted_cong [of as db' db] keeps_key [OF t(5)] by simp
  have "\<exists>h'. rb ((red db')(root db' := False)) t h'"
    using rb_blacken t(3) keys_sorted_distinct [OF s'] unfolding br(1) by blast
  moreover have "keys_sorted (setBlack (root db') db') (addrs t)"
    using s' keys_sorted_cong [of "addrs t" "setBlack (root db') db'" db'] keeps_key [OF keeps_set(2)] by blast
  ultimately have "rb_tree (setBlack (root db') db') t"
    using t(1,4) br by (auto simp: rb_tree_def)
  then show ?thesis
    using t(2) by blast
qed

definition newNode :: "bytes \<Rightarrow> memdbNode" where
  "newNode k = zeroNode\<lparr>vptr := nullAddr, klen := word_of_nat (length k), nkey := take (unat (word_of_nat (length k) :: u16)) k\<rparr>"

definition grown :: "addr \<Rightarrow> memdbMemCam \<Rightarrow> bytes \<Rightarrow> memdb \<Rightarrow> memdb" where
  "grown z al k db = db\<lparr>allocator := al, db_size := db_size db + int (length k), db_count := db_count db + 1,
     mem := (mem db)(z := newNode k)\<rparr>"

text \<open>The new node, linked below its parent.\<close>

definition linked :: "addr \<Rightarrow> addr \<Rightarrow> bool \<Rightarrow> memdb \<Rightarrow> memdb" where
  "linked z y lt db2 =
     setRed z (set_right z nullAddr (set_left z nullAddr
       (if y = nullAddr then (set_up z y db2)\<lparr>root := z\<rparr> else if lt then set_left y z (set_up z y db2) else set_right y z (set_up z y db2))))"

lemma linked_fields:
  assumes "y \<noteq> z"
  shows "mem (linked z y lt db) z = paintRed ((mem db z)\<lparr>up := y, left := nullAddr, right := nullAddr\<rparr>)"
    and "y \<noteq> nullAddr \<Longrightarrow> mem (linked z y lt db) y = (if lt then (mem db y)\<lparr>left := z\<rparr> else (mem db y)\<lparr>right := z\<rparr>)"
    and "a \<noteq> z \<Longrightarrow> a \<noteq> y \<or> y = nullAddr \<Longrightarrow> mem (linked z y lt db) a = mem db a"
    and "root (linked z y lt db) = (if y = nullAddr then z else root db)"
    and "red (linked z y lt db) = (red db)(z := True)"
    and "keeps db (linked z y lt db)"
proof -
  have flags: "isRed (n\<lparr>up := a\<rparr>) = isRed n" "isRed (n\<lparr>left := a\<rparr>) = isRed n" "isRed (n\<lparr>right := a\<rparr>) = isRed n"
    "getKeyFlags (n\<lparr>up := a\<rparr>) = getKeyFlags n" "getKeyFlags (n\<lparr>left := a\<rparr>) = getKeyFlags n" "getKeyFlags (n\<lparr>right := a\<rparr>) = getKeyFlags n"
    for n a
    by (simp_all add: isRed_def getKeyFlags_def)
  show "red (linked z y lt db) = (red db)(z := True)"
    using assms by (auto simp: linked_def setRed_def link_defs red_def fun_eq_iff flags)
  show "keeps db (linked z y lt db)"
    using assms by (auto simp: linked_def setRed_def link_defs keeps_def flags)
qed (use assms in \<open>auto simp: linked_def setRed_def link_defs\<close>)

lemma newNode_simps [simp]:
  "length k < 65536 \<Longrightarrow> getKey (newNode k) = k" "vptr (newNode k) = nullAddr" "getKeyFlags (newNode k) = 0" "\<not> isRed (newNode k)"
  by (simp_all add: newNode_def zeroNode_def Let_def getKey_def getKeyFlags_def isRed_def unat_of_nat take_bit_nat_eq_self)

lemma grown_simps [simp]:
  "mem (grown z al k db) = (mem db)(z := newNode k)" "root (grown z al k db) = root db"
  "red (grown z al k db) = (red db)(z := isRed (newNode k))"
  by (simp_all add: grown_def red_def fun_eq_iff)

lemma allocNode_spec:
  assumes "cam_ok (allocator db)" and "cam_room (allocator db)" and "length k < 65536"
  shows "\<exists>z al. allocNode k db = Some (z, grown z al k db) \<and> z \<noteq> nullAddr \<and> \<not> allocated (allocator db) z \<and> allocated al z \<and>
    cam_ok al \<and> (\<forall>x. allocated (allocator db) x \<longrightarrow> allocated al x) \<and> length (blocks al) \<le> Suc (length (blocks (allocator db)))"
proof -
  obtain z al bs b n where "alloc (35 + length k) True (allocator db) = Some (z, al)" and a: "allocated_in (allocator db) (35 + length k) z al bs b n"
    using alloc_spec [of "allocator db" "35 + length k" True] assms(1,3) by (auto simp: maxBlockSize_def)
  moreover have "length (blocks al) \<le> Suc (length (blocks (allocator db)))"
    using a by (auto simp: allocated_in_def)
  ultimately show ?thesis
    using alloc_fresh [OF a _ assms(1,2)] by (auto simp: allocNode_def grown_def newNode_def Let_def)
qed

text \<open>The insertion of a key that is not there.\<close>

theorem traverse_inserts:
  assumes t: "rb_tree db t" and k: "k \<notin> node_key db ` set (addrs t)" "length k < 65536"
    and al: "cam_ok (allocator db)" "cam_room (allocator db)" "\<forall>a \<in> set (addrs t). allocated (allocator db) a"
  shows "\<exists>z al db' t'. traverse k True db = Some (z, db') \<and> rb_tree db' t' \<and> set (addrs t') = insert z (set (addrs t)) \<and>
    z \<notin> set (addrs t) \<and> z \<noteq> nullAddr \<and> keeps (grown z al k db) db' \<and>
    \<not> allocated (allocator db) z \<and> allocated al z \<and> cam_ok al \<and>
    (\<forall>x. allocated (allocator db) x \<longrightarrow> allocated al x) \<and> length (blocks al) \<le> Suc (length (blocks (allocator db)))"
proof -
  obtain z al where a: "allocNode k db = Some (z, grown z al k db)" "z \<noteq> nullAddr" "\<not> allocated (allocator db) z" "allocated al z" "cam_ok al"
      "\<forall>x. allocated (allocator db) x \<longrightarrow> allocated al x" "length (blocks al) \<le> Suc (length (blocks (allocator db)))"
    using allocNode_spec [OF al(1,2) k(2)] by blast
  have zt: "z \<notin> set (addrs t)"
    using a(3) al(3) by blast
  have sh: "shape (mem db) nullAddr (root db) t" and ks: "keys_sorted db (addrs t)" and nn: "\<not> red db nullAddr"
    using t by (auto simp: rb_tree_def)
  obtain y c where w: "walk db k (root db) nullAddr = Some (nullAddr, y)" and c: "ctx (mem db) (root db) y nullAddr c"
      and plug: "plug c Tip = t" and bef: "\<forall>a \<in> set (before c). node_key db a < k" and aft: "\<forall>a \<in> set (after c). k < node_key db a"
      and dir: "c \<noteq> [] \<longrightarrow> (k < node_key db y \<longleftrightarrow> (\<exists>b s. hd c = LeftOf b s))"
    using walk_missing [of db nullAddr "root db" "[]" t k] sh ks k(1) by auto
  have as: "addrs t = before c @ after c"
    using plug addrs_plug [of c Tip] by simp
  have zc: "z \<notin> ctx_addrs c"
    using zt as by (simp add: ctx_addrs_def)
  have y: "y = nullAddr \<longleftrightarrow> c = []" "c \<noteq> [] \<longrightarrow> y \<in> ctx_addrs c"
    using ctx_parent [OF c] ctx_parent_addr [OF c] by blast+
  have yz: "y \<noteq> z"
    using y zc a(2) by blast
  define db1 where "db1 = grown z al k db"
  define db4 where "db4 = linked z y (k < node_key db y) db1"
  note lf = linked_fields [OF yz, where lt = "k < node_key db y" and db = db1, folded db4_def]
  have b4: "bytes_Compare (getKey (mem (set_up z y db1) z)) (getKey (mem (set_up z y db1) y)) < 0 \<longleftrightarrow> k < node_key db y"
    using yz k(2) by (simp add: link_defs db1_def node_key_def getKey_def [of "n\<lparr>up := x\<rparr>" for n x]) (simp add: getKey_def [symmetric])
  have tr: "traverse k True db = map_option (\<lambda>db5. (z, setBlack (root db5) db5)) (insertFix z db4)"
    unfolding traverse_def w
    by (simp add: a(1) db1_def [symmetric] Let_def b4 [unfolded bytes_Compare_simps] db4_def linked_def map_option_case) (auto split: bind_splits)
  have d4: "mem db4 a = mem db a" if "a \<noteq> z" "a \<noteq> y \<or> y = nullAddr" for a
    using that lf(3) by (simp add: db1_def)
  have f4: "focused db4 y z c (Br Tip z Tip)"
    unfolding focused_def
  proof (intro conjI)
    show "ctx (mem db4) (root db4) y z c"
    proof (rule ctx_refocus [OF c])
      show "y \<notin> ctx_addrs (tl c) \<and> (c \<noteq> [] \<longrightarrow> y \<notin> set (addrs (frame_tree (hd c))))"
      proof (cases c)
        case (Cons f c')
        have "separate c Tip"
          using keys_sorted_distinct [OF ks] plug by (simp add: separate_def)
        then show ?thesis
          using separate_hd [of f c' Tip] c Cons by (auto simp: ctx_Cons)
      qed (use y in simp)
      show "same_links (mem db) (mem db4) b" if "b \<in> ctx_addrs c" "b \<noteq> y" for b
      proof -
        have "b \<noteq> z"
          using that(1) zc by blast
        then show ?thesis
          using d4 [of b] that(2) by (simp add: same_links_def)
      qed
      show "up (mem db4 y) = up (mem db y) \<and> child_of (hd c) (mem db4 y) = z \<and> sibling_of (hd c) (mem db4 y) = sibling_of (hd c) (mem db y)"
        if "c \<noteq> []"
        using lf(2) y(1) dir that yz by (cases "hd c") (auto simp: db1_def)
    qed (use lf(4) y(1) in \<open>simp add: db1_def\<close>)
    show "shape (mem db4) y z (Br Tip z Tip)"
      using a(2) lf(1) by simp
    show "separate c (Br Tip z Tip)"
      using keys_sorted_distinct [OF ks] zt as by (auto simp: separate_def addrs_plug)
    show "\<not> red db4 nullAddr"
      using lf(5) a(2) nn by (simp add: db1_def)
  qed
  have r4: "red db4 = (red db)(z := True)"
    by (simp add: lf(5) db1_def)
  obtain h where h: "rb (red db) Tip h" "cok (red db) h c"
    using rb_unplug [of "red db" c Tip] t plug by (auto simp: rb_tree_def)
  have "cok (red db4) 0 c"
    using h zc by (simp add: r4 cok_upd)
  then obtain db5 where i: "insertFix z db4 = Some db5" and b: "balanced_to db4 (before c @ z # after c) db5"
    using insertFix_balances [OF f4, of 0] by (auto simp: r4 addrs_plug)
  have k4: "keeps db1 db4"
    by (rule lf(6))
  have nk: "node_key db4 a = (if a = z then k else node_key db a)" for a
    using keeps_key [OF k4, of a] k(2) by (simp add: db1_def node_key_def)
  have "keys_sorted db4 (before c @ after c)"
  proof -
    have "node_key db4 a = node_key db a" if "a \<in> set (addrs t)" for a
      using that zt nk by auto
    then show ?thesis
      using ks as keys_sorted_cong [of "addrs t" db4 db] by simp
  qed
  then have "keys_sorted db4 (before c @ z # after c)"
    by (rule keys_sorted_insert) (use bef aft zc in \<open>auto simp: nk ctx_addrs_def\<close>)
  then obtain t' where t': "rb_tree (setBlack (root db5) db5) t'" "addrs t' = before c @ z # after c"
    using balanced_rb_tree [OF b] by auto
  have "keeps db1 (setBlack (root db5) db5)"
    using k4 b keeps_set(2) keeps_trans unfolding balanced_to_def by blast
  then show ?thesis
    using tr i t' a zt as by (intro exI [of _ z] exI [of _ al] exI [of _ "setBlack (root db5) db5"] exI [of _ t']) (auto simp: db1_def)
qed

end
