(* ===== verification/Memdb_Delete.thy ===== *)
theory Memdb_Delete
  imports Memdb_Find
begin

text \<open>
  The removal of a node. The two halves of the loop that balances the tree are mirror images, so they are
  one definition with the side as a parameter, and the proofs are about either side.
\<close>

section \<open>Sides\<close>

text \<open>A side is true for left: the child on it, a node with its children by side, a frame, a rotation.\<close>

definition ch :: "bool \<Rightarrow> memdbNode \<Rightarrow> addr" where
  "ch s n = (if s then left n else right n)"

definition br :: "bool \<Rightarrow> ptree \<Rightarrow> addr \<Rightarrow> ptree \<Rightarrow> ptree" where
  "br s l a r = (if s then Br l a r else Br r a l)"

definition fr :: "bool \<Rightarrow> addr \<Rightarrow> ptree \<Rightarrow> frame" where
  "fr s a t = (if s then LeftOf a t else RightOf t a)"

definition rot :: "bool \<Rightarrow> addr \<Rightarrow> memdb \<Rightarrow> memdb" where
  "rot s x db = (if s then leftRotate x db else rightRotate x db)"

lemmas side_defs = ch_def br_def fr_def rot_def

lemma side_simps [simp]:
  "frame_addr (fr s a t) = a" "frame_tree (fr s a t) = t" "plug1 (fr s a t) u = br s u a t" "br (\<not> s) l a r = br s r a l"
  "set (addrs (br s l a r)) = insert a (set (addrs l) \<union> set (addrs r))" "rootred R (br s l a r) = R a" "br s l a r \<noteq> Tip"
  by (auto simp: side_defs)

lemma distinct_br: "distinct (addrs (br s l a r)) \<longleftrightarrow> distinct (addrs l) \<and> distinct (addrs r) \<and> a \<notin> set (addrs l) \<and> a \<notin> set (addrs r) \<and>
    set (addrs l) \<inter> set (addrs r) = {}"
  by (auto simp: side_defs)

lemma rb_br: "rb R (br s l a r) h \<longleftrightarrow>
    (if R a then \<not> rootred R l \<and> \<not> rootred R r \<and> rb R l h \<and> rb R r h else (\<exists>n. h = Suc n \<and> rb R l n \<and> rb R r n))"
  by (auto simp: side_defs split: nat.splits)

lemma shape_br: "shape m p a (br s l b r) \<longleftrightarrow> a = b \<and> b \<noteq> nullAddr \<and> up (m b) = p \<and> shape m b (ch s (m b)) l \<and> shape m b (ch (\<not> s) (m b)) r"
  by (auto simp: side_defs)

lemma ctx_fr: "ctx m rt p a (fr s b t # c) \<longleftrightarrow> p = b \<and> b \<noteq> nullAddr \<and> ch s (m b) = a \<and> shape m b (ch (\<not> s) (m b)) t \<and> ctx m rt (up (m b)) b c"
  by (auto simp: side_defs)

lemma br_cases: "t \<noteq> Tip \<Longrightarrow> \<exists>l a r. t = br s l a r"
  by (cases t; cases s) (auto simp: br_def)

lemma addrs_rot: "addrs (br s (br s A x B) y C) = addrs (br s A x (br s B y C))"
  by (simp add: br_def)

lemma addrs_plug_cong: "addrs t = addrs u \<Longrightarrow> addrs (plug c t) = addrs (plug c u)"
  by (simp add: addrs_plug)

section \<open>A focus that may be empty\<close>

text \<open>The dummy node stands for the empty focus, and its parent is the focus's.\<close>

definition dfocus :: "memdb \<Rightarrow> addr \<Rightarrow> addr \<Rightarrow> frame list \<Rightarrow> ptree \<Rightarrow> bool" where
  "dfocus db p x c t = (focused db p x c t \<and> up (mem db x) = p)"

lemma dfocusI: "focused db p x c t \<Longrightarrow> (t = Tip \<Longrightarrow> up (mem db nullAddr) = p) \<Longrightarrow> dfocus db p x c t"
  by (cases t) (auto simp: dfocus_def focused_def)

lemma dfocus_set: "dfocus db p x c t \<Longrightarrow> dfocus (setBlack a db) p x c t" "dfocus db p x c t \<Longrightarrow> a \<noteq> nullAddr \<Longrightarrow> dfocus (setRed a db) p x c t"
  by (auto simp: dfocus_def focused_set)

lemma focused_rot:
  assumes "focused db p x c (br s A x (br s B y C))"
  shows "focused (rot s x db) p y c (br s (br s A x B) y C)" and "red (rot s x db) = red db" and "keeps db (rot s x db)"
    and "mem (rot s x db) nullAddr = mem db nullAddr"
  using assms focused_leftRotate [of db p x c A B y C] focused_rightRotate [of db p x c C y B A]
    leftRotate_shape(3) [of db p x c A B y C] rightRotate_shape(3) [of db p x c C y B A]
  by (cases s; simp add: side_defs focused_def relinks_def)+

lemma focused_fr: "focused db p x (fr s a S # c) t \<Longrightarrow> p = a \<and> focused db (up (mem db p)) p c (br s t p S)"
  using focused_up [of db p x "fr s a S" c t] by (auto simp: focused_def ctx_fr)

lemma focused_br: "focused db p x c (br s l x r) \<Longrightarrow> focused db x (ch s (mem db x)) (fr s x r # c) l"
  "focused db p x c (br s l x r) \<Longrightarrow> focused db x (ch (\<not> s) (mem db x)) (fr (\<not> s) x l # c) r"
  using focused_left [of db p x c] focused_right [of db p x c] by (auto simp: side_defs)

lemma focused_sib: "focused db p x (fr s p S # c) t \<Longrightarrow> shape (mem db) p (ch (\<not> s) (mem db p)) S"
  by (simp add: focused_def ctx_fr)

lemma red_child: "shape (mem db) p a t \<Longrightarrow> \<not> red db nullAddr \<Longrightarrow> isRed (mem db a) = rootred (red db) t"
  using rootred_shape by (auto simp: red_def)

section \<open>One turn of the loop\<close>

text \<open>The sibling made black, then the case analysis on its children: the node to go on with.\<close>

definition del_first :: "bool \<Rightarrow> addr \<Rightarrow> memdb \<Rightarrow> addr \<times> memdb" where
  "del_first s x db =
     (let xUp = up (mem db x); w = ch (\<not> s) (mem db xUp)
      in if isRed (mem db w)
         then (let db1 = rot s xUp (setRed xUp (setBlack w db)) in (ch (\<not> s) (mem db1 (up (mem db1 x))), db1))
         else (w, db))"

definition del_last :: "bool \<Rightarrow> addr \<Rightarrow> addr \<Rightarrow> memdb \<Rightarrow> addr \<times> memdb" where
  "del_last s x w db =
     (let xUp = up (mem db x);
          db3 = (if isBlack (mem db xUp) then setBlack w db else setRed w db);
          db4 = setBlack xUp db3;
          db5 = setBlack (ch (\<not> s) (mem db4 w)) db4;
          db6 = rot s xUp db5
      in (root db6, db6))"

definition del_rest :: "bool \<Rightarrow> addr \<Rightarrow> addr \<Rightarrow> memdb \<Rightarrow> addr \<times> memdb" where
  "del_rest s x w db =
     (if isBlack (mem db (ch s (mem db w))) \<and> isBlack (mem db (ch (\<not> s) (mem db w)))
      then (let db2 = setRed w db in (up (mem db2 x), db2))
      else if isBlack (mem db (ch (\<not> s) (mem db w)))
      then (let db2 = rot (\<not> s) w (setRed w (setBlack (ch s (mem db w)) db))
            in del_last s x (ch (\<not> s) (mem db2 (up (mem db2 x)))) db2)
      else del_last s x w db)"

lemma deleteNodeFix_turn:
  "deleteNodeFix x db =
     (if x \<noteq> root db \<and> isBlack (mem db x)
      then (let s = (x = left (mem db (up (mem db x)))); (w, db1) = del_first s x db; (x', db') = del_rest s x w db1
            in deleteNodeFix x' db')
      else Some (setBlack x db))"
  unfolding deleteNodeFix.simps [of x db]
  by (cases "x = left (mem db (up (mem db x)))")
    (simp_all add: Let_def del_first_def del_rest_def del_last_def side_defs if_distrib [of fst] if_distrib [of snd])

lemma shape_addr: "shape m p a t \<Longrightarrow> shape m' p' a' t \<Longrightarrow> a = a'"
  by (cases t) auto

lemma rb_not_Tip: "rb R t (Suc h) \<Longrightarrow> t \<noteq> Tip"
  by auto

text \<open>The addresses of a node beside the focus are different.\<close>

lemma focused_distinct:
  assumes "focused db p x (fr s p (br s A w B) # c) t"
  shows "distinct (addrs (br s t p (br s A w B)))" and "set (addrs (br s t p (br s A w B))) \<inter> ctx_addrs c = {}"
    and "p \<noteq> nullAddr" and "w \<noteq> nullAddr" and "ch (\<not> s) (mem db p) = w" and "\<not> red db nullAddr"
    and "isRed (mem db (ch s (mem db w))) = rootred (red db) A" and "isRed (mem db (ch (\<not> s) (mem db w))) = rootred (red db) B"
proof -
  have sep: "separate c (br s t p (br s A w B))"
    using assms separate_plug1 [of "fr s p (br s A w B)" c t] by (simp add: focused_def)
  then show "distinct (addrs (br s t p (br s A w B)))" "set (addrs (br s t p (br s A w B))) \<inter> ctx_addrs c = {}"
    using separate_focus by blast+
  have sh: "shape (mem db) p (ch (\<not> s) (mem db p)) (br s A w B)"
    by (rule focused_sib [OF assms])
  show "p \<noteq> nullAddr" "\<not> red db nullAddr"
    using assms by (auto simp: focused_def ctx_fr)
  show "w \<noteq> nullAddr" "ch (\<not> s) (mem db p) = w"
    using sh by (auto simp: shape_br)
  show "isRed (mem db (ch s (mem db w))) = rootred (red db) A" "isRed (mem db (ch (\<not> s) (mem db w))) = rootred (red db) B"
    using sh assms red_child by (auto simp: shape_br focused_def)
qed

lemma del_first_black:
  assumes f: "dfocus db p x (fr s p S # c) t" and t: "rb (red db) t h" and ck: "cok (red db) (Suc h) (fr s p S # c)"
  shows "\<exists>A w B c' db1. del_first s x db = (w, db1) \<and> dfocus db1 p x (fr s p (br s A w B) # c') t \<and> \<not> red db1 w \<and>
    rb (red db1) t h \<and> cok (red db1) (Suc h) (fr s p (br s A w B) # c') \<and>
    addrs (plug (fr s p (br s A w B) # c') t) = addrs (plug (fr s p S # c) t) \<and> keeps db db1 \<and> (c' = c \<or> red db1 p)"
proof -
  have fo: "focused db p x (fr s p S # c) t" and upx: "up (mem db x) = p"
    using f by (auto simp: dfocus_def)
  obtain A w B where S: "S = br s A w B"
    using ck rb_not_Tip br_cases [of S s] by auto
  note d = focused_distinct [OF fo [unfolded S]]
  show ?thesis
  proof (cases "red db w")
    case False
    then have "del_first s x db = (w, db)"
      using d(5) by (simp add: del_first_def upx red_def)
    then show ?thesis
      using f t ck False keeps_refl unfolding S by blast
  next
    case True
    have col: "\<not> red db p" "\<not> rootred (red db) A" "rb (red db) A (Suc h)" "rb (red db) B (Suc h)" "cok (red db) (Suc (Suc h)) c"
      using ck True by (auto simp: S rb_br)
    obtain A1 w1 B1 where A: "A = br s A1 w1 B1"
      using col(3) rb_not_Tip br_cases [of A s] by blast
    define db0 where "db0 = setRed p (setBlack w db)"
    define db1 where "db1 = rot s p db0"
    have "focused db0 (up (mem db p)) p c (br s t p (br s A w B))"
      using focused_fr [OF fo] d(3) by (simp add: db0_def focused_set S)
    note r = focused_rot [OF this, folded db1_def]
    have "ch s (mem db1 w) = p"
      using r(1) by (auto simp: focused_def shape_br)
    then have fp: "focused db1 w p (fr s w B # c) (br s t p A)"
      using focused_br(1) [OF r(1)] by simp
    have "ch s (mem db1 p) = x"
      using focused_br(1) [OF fp] fo shape_addr [of "mem db1" p _ t "mem db" p x] by (auto simp: focused_def)
    then have fx: "focused db1 p x (fr s p A # fr s w B # c) t"
      using focused_br(1) [OF fp] by simp
    have dx: "dfocus db1 p x (fr s p A # fr s w B # c) t"
      using fx upx r(4) fo by (intro dfocusI) (auto simp: db0_def focused_def)
    have df: "del_first s x db = (ch (\<not> s) (mem db1 (up (mem db1 x))), db1)"
      using True d(5) by (simp add: del_first_def upx red_def Let_def db0_def db1_def)
    have w1: "ch (\<not> s) (mem db1 (up (mem db1 x))) = w1"
      using focused_sib [OF fx] dx by (simp add: dfocus_def A shape_br)
    have R: "red db1 = (red db)(w := False, p := True)"
      by (simp add: r(2) db0_def)
    have upd: "rb (red db1) t h = rb (red db) t h" "rb (red db1) A (Suc h) = rb (red db) A (Suc h)" "rb (red db1) B (Suc h) = rb (red db) B (Suc h)"
        "rootred (red db1) A = rootred (red db) A" "cok (red db1) (Suc (Suc h)) c = cok (red db) (Suc (Suc h)) c"
      unfolding R using d(1,2) by (auto simp: color_upd distinct_br)
    have colours: "red db1 p" "\<not> red db1 w"
      using d(1) by (auto simp: R distinct_br)
    have "cok (red db1) (Suc h) (fr s p A # fr s w B # c)"
      using col upd colours by simp
    moreover have "\<not> red db1 w1"
      using upd(4) col(2) A by simp
    moreover have "addrs (plug (fr s p A # fr s w B # c) t) = addrs (plug (fr s p S # c) t)"
      using addrs_rot [of s t p A w B] by (simp add: S addrs_plug)
    moreover have "keeps db db1"
      using r(3) keeps_set keeps_trans unfolding db0_def by blast
    ultimately show ?thesis
      using df w1 dx upd(1) t colours(1) unfolding A by blast
  qed
qed

text \<open>What the loop ends with: a balanced tree with a black root.\<close>

definition rebalanced :: "memdb \<Rightarrow> addr list \<Rightarrow> memdb \<Rightarrow> bool" where
  "rebalanced db as db' = (balanced_to db as db' \<and> \<not> red db' (root db'))"

lemma cok_root: "cok R h c \<Longrightarrow> c \<noteq> [] \<Longrightarrow> \<not> rootred R (plug c t)"
proof (induction c arbitrary: h t)
  case (Cons f c)
  show ?case
  proof (cases "c = []")
    case False
    then show ?thesis
      using Cons.IH [of _ "plug1 f t"] Cons.prems by auto
  qed (use Cons.prems in \<open>auto simp: rootred_plug1\<close>)
qed simp

lemma rebalancedI:
  assumes "focused db' p a c t" and "rb (red db') t h" and "cok (red db') h c" and "topred (red db') c \<or> c = [] \<longrightarrow> \<not> rootred (red db') t"
    and "keeps db db'" and "addrs (plug c t) = as"
  shows "rebalanced db as db'"
proof -
  have "shape (mem db') nullAddr (root db') (plug c t)"
    using assms(1) by (auto simp: shape_plug focused_def)
  moreover have "\<not> rootred (red db') (plug c t)"
    using cok_root [OF assms(3)] assms(4) by (cases "c = []") auto
  ultimately have "\<not> red db' (root db')"
    using rootred_shape assms(1) by (auto simp: focused_def)
  then show ?thesis
    using balanced_toI [OF assms(1-3) _ assms(5,6)] assms(4) by (auto simp: rebalanced_def)
qed

lemma rebalanced_trans: "keeps db db' \<Longrightarrow> rebalanced db' as db'' \<Longrightarrow> rebalanced db as db''"
  using balanced_to_trans by (auto simp: rebalanced_def)

lemma rebalanced_setBlack: "rebalanced db as db' \<Longrightarrow> rebalanced db as (setBlack (root db') db')"
  unfolding rebalanced_def balanced_to_def using keeps_trans [OF _ keeps_set(2)] by (fastforce simp: fun_upd_idem)

lemma focused_again:
  assumes "focused db' q p c (br s t p S)" and "focused db p x (fr s p S' # c') t"
  shows "focused db' p x (fr s p S # c) t"
proof -
  have "ch s (mem db' p) = x"
    using focused_br(1) [OF assms(1)] assms(2) shape_addr [of "mem db'" p _ t "mem db" p x] by (auto simp: focused_def)
  then show ?thesis
    using focused_br(1) [OF assms(1)] by simp
qed

lemma del_last_balances:
  assumes f: "dfocus db p x (fr s p (br s A w B) # c) t"
    and rbs: "rb (red db) t h" "rb (red db) A h" "rb (red db) B h" "rootred (red db) B"
    and c: "cok (red db) (if red db p then Suc h else Suc (Suc h)) c" "red db p \<longrightarrow> c \<noteq> [] \<and> \<not> topred (red db) c"
  shows "\<exists>db'. del_last s x w db = (root db', db') \<and> rebalanced db (addrs (plug (fr s p (br s A w B) # c) t)) db'"
proof -
  have fo: "focused db p x (fr s p (br s A w B) # c) t" and upx: "up (mem db x) = p"
    using f by (auto simp: dfocus_def)
  note d = focused_distinct [OF fo]
  obtain Bl b Br' where B: "B = br s Bl b Br'"
    using rbs(4) br_cases [of B s] by (cases B) auto
  have chw: "ch (\<not> s) (mem db w) = b"
    using focused_sib [OF fo] by (simp add: shape_br B)
  define db5 where "db5 = setBlack b (setBlack p (if isBlack (mem db p) then setBlack w db else setRed w db))"
  define db6 where "db6 = rot s p db5"
  have "focused db (up (mem db p)) p c (br s t p (br s A w B))"
    using focused_fr [OF fo] by simp
  then have "focused db5 (up (mem db p)) p c (br s t p (br s A w B))"
    using d(4) by (auto simp: db5_def focused_set)
  note r = focused_rot [OF this, folded db6_def]
  have e: "del_last s x w db = (root db6, db6)"
    by (simp add: del_last_def upx Let_def db6_def db5_def if_distrib [of mem] ch_def links_set flip: chw)
  have R: "red db6 = (red db)(w := red db p, p := False, b := False)"
    by (auto simp: r(2) db5_def isBlack_def red_def [of db p])
  have ne: "p \<noteq> w" "p \<noteq> b" "w \<noteq> b"
    using d(1) by (auto simp: distinct_br B)
  have upd: "rb (red db6) t h" "rb (red db6) A h" "rb (red db6) Bl h" "rb (red db6) Br' h" "rb (red db6) B (Suc h)"
  proof -
    show "rb (red db6) t h" "rb (red db6) A h"
      unfolding R using d(1) rbs by (auto simp: color_upd distinct_br B)
    show lr: "rb (red db6) Bl h" "rb (red db6) Br' h"
      unfolding R using d(1) rbs(3,4) by (auto simp: color_upd distinct_br B rb_br)
    show "rb (red db6) B (Suc h)"
      using lr by (simp add: B rb_br R)
  qed
  have tree: "rb (red db6) (br s (br s t p A) w B) (if red db p then Suc h else Suc (Suc h))"
  proof -
    have "red db6 p = False" "red db6 w = red db p" "rootred (red db6) B = False"
      unfolding R using ne by (auto simp: B)
    then show ?thesis
      using upd by (simp add: rb_br)
  qed
  have cc: "cok (red db6) (if red db p then Suc h else Suc (Suc h)) c" "topred (red db6) c = topred (red db) c"
    unfolding R using c(1) d(2) by (auto simp: color_upd B)
  have "rebalanced db (addrs (plug (fr s p (br s A w B) # c) t)) db6"
  proof (rule rebalancedI [OF r(1) tree cc(1)])
    show "topred (red db6) c \<or> c = [] \<longrightarrow> \<not> rootred (red db6) (br s (br s t p A) w B)"
      using c(2) cc(2) ne by (auto simp: R)
    have "keeps db (if isBlack (mem db p) then setBlack w db else setRed w db)"
      by simp
    then have "keeps db db5"
      unfolding db5_def using keeps_set keeps_trans by blast
    then show "keeps db db6"
      using r(3) keeps_trans by blast
  qed (simp add: addrs_plug addrs_rot)
  then show ?thesis
    using e by blast
qed

lemma del_rest_turns:
  assumes f: "dfocus db p x (fr s p (br s A w B) # c) t" and w: "\<not> red db w"
    and t: "rb (red db) t h" and ck: "cok (red db) (Suc h) (fr s p (br s A w B) # c)"
  shows "\<exists>x' db'. del_rest s x w db = (x', db') \<and>
    (deleteNodeFix x' db' = Some (setBlack x' db') \<and> rebalanced db (addrs (plug (fr s p (br s A w B) # c) t)) (setBlack x' db') \<or>
     \<not> red db p \<and> (\<exists>q T. dfocus db' q x' c T \<and> rb (red db') T (Suc h) \<and> cok (red db') (Suc (Suc h)) c \<and>
       addrs T = addrs (br s t p (br s A w B)) \<and> keeps db db'))"
proof -
  have fo: "focused db p x (fr s p (br s A w B) # c) t" and upx: "up (mem db x) = p"
    using f by (auto simp: dfocus_def)
  note d = focused_distinct [OF fo] and fp = conjunct2 [OF focused_fr [OF fo]]
  have sub: "rb (red db) A h" "rb (red db) B h"
    and c: "cok (red db) (if red db p then Suc h else Suc (Suc h)) c" "red db p \<longrightarrow> c \<noteq> [] \<and> \<not> topred (red db) c"
    using ck w by (auto simp: rb_br)
  have stop: "deleteNodeFix (root db') db' = Some (setBlack (root db') db')" for db'
    by (simp add: deleteNodeFix.simps)
  have last: "\<exists>db'. del_last s x w' db1 = (root db', db') \<and> rebalanced db (addrs (plug (fr s p (br s A w B) # c) t)) (setBlack (root db') db')"
    if "dfocus db1 p x (fr s p (br s A' w' B') # c) t" "rb (red db1) t h" "rb (red db1) A' h" "rb (red db1) B' h" "rootred (red db1) B'"
      "cok (red db1) (if red db1 p then Suc h else Suc (Suc h)) c" "red db1 p \<longrightarrow> c \<noteq> [] \<and> \<not> topred (red db1) c"
      "addrs (br s A' w' B') = addrs (br s A w B)" "keeps db db1" for w' db1 A' B'
  proof -
    have "addrs (plug (fr s p (br s A' w' B') # c) t) = addrs (plug (fr s p (br s A w B) # c) t)"
      using that(8) by (simp add: addrs_plug) (auto simp: br_def)
    then show ?thesis
      using del_last_balances [OF that(1-7)] rebalanced_trans [OF that(9)] rebalanced_setBlack by metis
  qed
  show ?thesis
  proof (cases "rootred (red db) B")
    case True
    then have "del_rest s x w db = del_last s x w db"
      using d(8) by (simp add: del_rest_def isBlack_def)
    then show ?thesis
      using last [OF f t sub True c refl keeps_refl] stop by metis
  next
    case nB: False
    show ?thesis
    proof (cases "rootred (red db) A")
      case True
      then obtain A1 a A2 where A: "A = br s A1 a A2"
        using br_cases [of A s] by (cases A) auto
      have aw: "ch s (mem db w) = a"
        using focused_sib [OF fo] by (simp add: shape_br A)
      define db1 where "db1 = setRed w (setBlack a db)"
      define db2 where "db2 = rot (\<not> s) w db1"
      have "focused db p w (fr (\<not> s) p t # c) (br s A w B)"
        using focused_br(2) [OF fp] d(5) by simp
      then have "focused db1 p w (fr (\<not> s) p t # c) (br (\<not> s) B w (br (\<not> s) A2 a A1))"
        using d(4) by (simp add: db1_def focused_set A)
      note r = focused_rot [OF this, folded db2_def]
      have "focused db2 (up (mem db2 p)) p c (br s t p (br s A1 a (br s A2 w B)))"
        using conjunct2 [OF focused_fr [OF r(1)]] by simp
      then have f2: "focused db2 p x (fr s p (br s A1 a (br s A2 w B)) # c) t"
        by (rule focused_again [OF _ fo])
      have d2: "dfocus db2 p x (fr s p (br s A1 a (br s A2 w B)) # c) t"
        using f2 r(4) upx fo by (intro dfocusI) (auto simp: db1_def focused_def)
      have "ch (\<not> s) (mem db2 (up (mem db2 x))) = a"
        using focused_distinct(5) [OF f2] d2 by (simp add: dfocus_def)
      then have e: "del_rest s x w db = del_last s x a db2"
        using True nB d(7,8) aw by (simp add: del_rest_def isBlack_def Let_def db2_def db1_def)
      have R: "red db2 = (red db)(a := False, w := True)"
        by (simp add: r(2) db1_def)
      have colours: "rb (red db2) t h" "rb (red db2) A1 h" "rb (red db2) A2 h" "rb (red db2) B h" "\<not> rootred (red db2) A2" "\<not> rootred (red db2) B"
          "red db2 p = red db p" "red db2 w" "cok (red db2) n c = cok (red db) n c" "topred (red db2) c = topred (red db) c" for n
        unfolding R using d(1,2) t sub True nB by (auto simp: color_upd distinct_br A rb_br)
      have "\<exists>db'. del_last s x a db2 = (root db', db') \<and> rebalanced db (addrs (plug (fr s p (br s A w B) # c) t)) (setBlack (root db') db')"
      proof (rule last [OF d2 colours(1,2)])
        show "keeps db db2"
          using r(3) keeps_set keeps_trans unfolding db1_def by blast
      qed (use colours c addrs_rot [of s A1 a A2 w B] in \<open>auto simp: rb_br A\<close>)
      then show ?thesis
        using e stop by metis
    next
      case nA: False
      define db2 where "db2 = setRed w db"
      have e: "del_rest s x w db = (p, db2)"
        using nA nB d(7,8) upx by (simp add: del_rest_def isBlack_def Let_def db2_def)
      have R: "red db2 = (red db)(w := True)"
        by (simp add: db2_def)
      have colours: "rb (red db2) t h" "rb (red db2) A h" "rb (red db2) B h" "\<not> rootred (red db2) A" "\<not> rootred (red db2) B"
          "red db2 p = red db p" "red db2 w"
        unfolding R using d(1) t sub nA nB by (auto simp: color_upd distinct_br)
      have fp2: "focused db2 (up (mem db p)) p c (br s t p (br s A w B))"
        using fp d(4) by (simp add: db2_def focused_set)
      have k2: "keeps db db2"
        by (simp add: db2_def)
      show ?thesis
      proof (cases "red db p")
        case False
        have "rb (red db2) (br s t p (br s A w B)) (Suc h)"
          using colours False by (simp add: rb_br)
        moreover have "cok (red db2) (Suc (Suc h)) c"
          unfolding R using c(1) d(2) False by (auto simp: color_upd)
        moreover have "dfocus db2 (up (mem db p)) p c (br s t p (br s A w B))"
          by (rule dfocusI [OF fp2]) simp
        ultimately show ?thesis
          using e k2 False by blast
      next
        case True
        have "deleteNodeFix p db2 = Some (setBlack p db2)"
          using True colours(6) by (simp add: deleteNodeFix.simps isBlack_def red_def)
        moreover have "rebalanced db (addrs (plug (fr s p (br s A w B) # c) t)) (setBlack p db2)"
        proof (rule rebalancedI [OF focused_set(1) [OF fp2], where h = "Suc h"])
          have "rb ((red db2)(p := False)) t h" "rb ((red db2)(p := False)) A h" "rb ((red db2)(p := False)) B h"
              "\<not> rootred ((red db2)(p := False)) A" "\<not> rootred ((red db2)(p := False)) B" "p \<noteq> w"
            using colours d(1) by (auto simp: color_upd distinct_br)
          then show "rb (red (setBlack p db2)) (br s t p (br s A w B)) (Suc h)"
            using colours(7) by (simp add: rb_br)
          show "cok (red (setBlack p db2)) (Suc h) c"
            using c(1) d(2) True by (auto simp: R color_upd)
          show "keeps db (setBlack p db2)"
            using k2 keeps_set keeps_trans by blast
        qed simp_all
        ultimately show ?thesis
          using e by blast
      qed
    qed
  qed
qed

section \<open>The loop\<close>

lemma fr_cases: "\<exists>s. f = fr s (frame_addr f) (frame_tree f) \<and> (s \<longleftrightarrow> (\<exists>b r. f = LeftOf b r))"
  by (cases f) (auto simp: fr_def intro: exI [of _ True] exI [of _ False])

text \<open>The side of an empty focus is told by its sibling, which is not empty.\<close>

lemma dfocus_side:
  assumes "dfocus db p x (fr s p S # c) t" and "S \<noteq> Tip"
  shows "(x = left (mem db p)) = s"
proof -
  have fo: "focused db p x (fr s p S # c) t"
    using assms(1) by (simp add: dfocus_def)
  obtain l w r where "S = br s l w r"
    using br_cases [OF assms(2), of s] by blast
  note d = focused_distinct [OF fo [unfolded this]]
  have x: "ch s (mem db p) = x" "x = nullAddr \<or> x \<in> set (addrs t)"
    using fo shape_root [of "mem db" p x t] shape_mem [of "mem db" p x t] by (auto simp: focused_def ctx_fr)
  then have "x \<noteq> w"
    using d(1,4) by (auto simp: distinct_br)
  then show ?thesis
    using x(1) d(5) by (auto simp: ch_def split: if_splits)
qed

theorem deleteNodeFix_balances:
  assumes "dfocus db p x c t" and "rb (red db) t h" and "cok (red db) (Suc h) c"
  shows "\<exists>db'. deleteNodeFix x db = Some db' \<and> rebalanced db (addrs (plug c t)) db'"
  using assms
proof (induction "length c" arbitrary: db p x c t h rule: less_induct)
  case less
  note f = less.prems(1) and t = less.prems(2) and ck = less.prems(3)
  have fo: "focused db p x c t" and upx: "up (mem db x) = p"
    using f by (auto simp: dfocus_def)
  have xred: "red db x = rootred (red db) t"
    using fo rootred_shape by (auto simp: focused_def)
  show ?case
  proof (cases "c = [] \<or> red db x")
    case True
    have e: "deleteNodeFix x db = Some (setBlack x db)"
      using True fo by (auto simp: deleteNodeFix.simps isBlack_def red_def focused_def)
    have R: "\<exists>h'. rb (red (setBlack x db)) t h' \<and> (c = [] \<or> h' = Suc h) \<and> \<not> rootred (red (setBlack x db)) t"
    proof (cases t)
      case Tip
      then show ?thesis
        using True xred t by auto
    next
      case (Br l a r)
      then have a: "x = a" "distinct (addrs t)"
        using fo separate_focus [of c t] by (auto simp: focused_def)
      then show ?thesis
        using t True Br by (cases "red db a") (force simp: color_upd intro: exI [of _ "Suc h"], auto simp: fun_upd_idem)
    qed
    then obtain h' where h': "rb (red (setBlack x db)) t h'" "c = [] \<or> h' = Suc h" "\<not> rootred (red (setBlack x db)) t"
      by blast
    have "x \<notin> ctx_addrs c"
      using fo separate_focus [of c t] shape_root [of "mem db" p x t] shape_mem [of "mem db" p x t] ctx_addrs_null by (auto simp: focused_def)
    then have "cok (red (setBlack x db)) h' c"
      using h'(2) ck by (auto simp: cok_upd)
    then have "rebalanced db (addrs (plug c t)) (setBlack x db)"
      using rebalancedI [OF focused_set(1) [OF fo] h'(1)] h'(3) by auto
    then show ?thesis
      using e by blast
  next
    case False
    then obtain fr0 c' where "c = fr0 # c'"
      by (cases c) auto
    moreover obtain s where "fr0 = fr s (frame_addr fr0) (frame_tree fr0)"
      using fr_cases by blast
    ultimately obtain S where c: "c = fr s p S # c'"
      using fo by (metis ctx_fr focused_def)
    have "x \<noteq> root db"
    proof
      assume x: "x = root db"
      have "root db \<in> ctx_addrs c" "x = nullAddr \<or> x \<in> set (addrs t)"
        using fo ctx_root [of "mem db" "root db" p x c] c shape_root [of "mem db" p x t] shape_mem [of "mem db" p x t] by (auto simp: focused_def)
      then show False
        using fo x separate_focus [of c t] ctx_addrs_null by (auto simp: focused_def)
    qed
    moreover have "(x = left (mem db (up (mem db x)))) = s"
      unfolding upx by (rule dfocus_side [OF f [unfolded c]]) (use ck c in auto)
    ultimately have turn: "deleteNodeFix x db = (let (w, db1) = del_first s x db; (x', db') = del_rest s x w db1 in deleteNodeFix x' db')"
      using False by (simp add: deleteNodeFix_turn [of x db] isBlack_def red_def)
    obtain A w B c1 db1 where one: "del_first s x db = (w, db1)" "dfocus db1 p x (fr s p (br s A w B) # c1) t" "\<not> red db1 w"
        "rb (red db1) t h" "cok (red db1) (Suc h) (fr s p (br s A w B) # c1)"
        "addrs (plug (fr s p (br s A w B) # c1) t) = addrs (plug c t)" "keeps db db1" "c1 = c' \<or> red db1 p"
      using del_first_black [OF f [unfolded c] t ck [unfolded c]] unfolding c by blast
    obtain x' db2 where two: "del_rest s x w db1 = (x', db2)"
      and alt: "deleteNodeFix x' db2 = Some (setBlack x' db2) \<and> rebalanced db1 (addrs (plug c t)) (setBlack x' db2) \<or>
        \<not> red db1 p \<and> (\<exists>q T. dfocus db2 q x' c1 T \<and> rb (red db2) T (Suc h) \<and> cok (red db2) (Suc (Suc h)) c1 \<and>
          addrs T = addrs (br s t p (br s A w B)) \<and> keeps db1 db2)"
      using del_rest_turns [OF one(2-5)] unfolding one(6) by blast
    have turn': "deleteNodeFix x db = deleteNodeFix x' db2"
      by (simp add: turn one(1) two)
    show ?thesis
      using alt
    proof
      assume "deleteNodeFix x' db2 = Some (setBlack x' db2) \<and> rebalanced db1 (addrs (plug c t)) (setBlack x' db2)"
      then show ?thesis
        using turn' rebalanced_trans [OF one(7)] by auto
    next
      assume "\<not> red db1 p \<and> (\<exists>q T. dfocus db2 q x' c1 T \<and> rb (red db2) T (Suc h) \<and> cok (red db2) (Suc (Suc h)) c1 \<and>
          addrs T = addrs (br s t p (br s A w B)) \<and> keeps db1 db2)"
      then obtain q T where n: "c1 = c'" "dfocus db2 q x' c1 T" "rb (red db2) T (Suc h)" "cok (red db2) (Suc (Suc h)) c1"
          "addrs T = addrs (br s t p (br s A w B))" "keeps db1 db2"
        using one(8) by blast
      have "\<exists>db'. deleteNodeFix x' db2 = Some db' \<and> rebalanced db2 (addrs (plug c1 T)) db'"
        by (rule less.hyps [OF _ n(2-4)]) (simp add: c n(1))
      moreover have "addrs (plug c1 T) = addrs (plug c t)"
        using one(6) addrs_plug_cong [OF n(5), of c1] by simp
      ultimately show ?thesis
        using turn' rebalanced_trans [OF keeps_trans [OF one(7) n(6)]] by auto
    qed
  qed
qed

end
