(* ===== verification/Memdb_Remove.thy ===== *)
theory Memdb_Remove
  imports Memdb_Delete
begin

text \<open>\<open>deleteNode\<close>: the node is taken out of the tree, or its successor is put in its place.\<close>

section \<open>Taking a node with one child out\<close>

definition unlink :: "addr \<Rightarrow> addr \<Rightarrow> memdb \<Rightarrow> memdb" where
  "unlink y x db0 =
     (let db1 = set_up x (up (mem db0 y)) db0; yUp = up (mem db1 y)
      in if yUp = nullAddr then db1\<lparr>root := x\<rparr>
         else if y = left (mem db1 yUp) then set_left yUp x db1
         else set_right yUp x db1)"

lemma unlink_focus:
  assumes f: "focused db p y c (Br l y r)" and lr: "l = Tip \<or> r = Tip"
  defines "x \<equiv> (if left (mem db y) \<noteq> nullAddr then left (mem db y) else right (mem db y))"
  defines "t \<equiv> (if l \<noteq> Tip then l else r)"
  shows "dfocus (unlink y x db) p x c t" and "red (unlink y x db) = red db" and "keeps db (unlink y x db)"
    and "isBlack (mem (unlink y x db) y) = (\<not> red db y)"
proof -
  let ?m = "mem db"
  have c: "ctx ?m (root db) p y c" and s: "shape ?m p y (Br l y r)" and d: "separate c (Br l y r)" and nn: "\<not> red db nullAddr"
    using f by (auto simp: focused_def)
  have y: "up (?m y) = p" "y \<noteq> nullAddr" "shape ?m y (left (?m y)) l" "shape ?m y (right (?m y)) r"
    using s by auto
  have dist: "distinct (addrs (Br l y r))" "set (addrs (Br l y r)) \<inter> ctx_addrs c = {}"
    using separate_focus [OF d] by blast+
  have x: "shape ?m y x t"
    using y(3,4) shape_root [OF y(3)] shape_root [OF y(4)] lr by (auto simp: x_def t_def)
  have xt: "x = nullAddr \<and> t = Tip \<or> x \<noteq> nullAddr \<and> x \<in> set (addrs t)"
    using shape_root [OF x] shape_mem [OF x] by blast
  have tsub: "set (addrs t) \<subseteq> set (addrs (Br l y r)) - {y}" "distinct (addrs t)"
    using dist(1) by (auto simp: t_def)
  have p: "p = nullAddr \<and> c = [] \<or> p \<noteq> nullAddr \<and> p \<in> ctx_addrs c \<and> c \<noteq> []"
    using ctx_parent [OF c] ctx_parent_addr [OF c] by blast
  have ne: "x \<noteq> y" "p \<noteq> y" "p = x \<longrightarrow> p = nullAddr"
    using xt tsub y(2) p dist(2) by auto
  let ?db = "unlink y x db"
  define db1 where "db1 = set_up x p db"
  have at1: "mem db1 a = (if a = x then (?m x)\<lparr>up := p\<rparr> else ?m a)" for a
    by (simp add: db1_def link_defs)
  have "up (mem db1 y) = p" "p \<noteq> nullAddr \<Longrightarrow> left (mem db1 p) = left (?m p)"
    using ne y(1) by (simp_all add: at1)
  then have e: "?db = (if p = nullAddr then db1\<lparr>root := x\<rparr> else if y = left (?m p) then set_left p x db1 else set_right p x db1)"
    unfolding unlink_def y(1) db1_def [symmetric] Let_def by presburger
  have mx: "mem ?db x = (?m x)\<lparr>up := p\<rparr>"
    using ne(3) unfolding e by (cases "x = p") (simp_all add: link_defs at1)
  have mp: "mem ?db p = (if y = left (?m p) then (?m p)\<lparr>left := x\<rparr> else (?m p)\<lparr>right := x\<rparr>)" if "p \<noteq> nullAddr"
    using ne(3) that unfolding e by (cases "x = p") (simp_all add: link_defs at1)
  have mo: "mem ?db a = ?m a" if "a \<noteq> x" "a \<noteq> p \<or> p = nullAddr" for a
    using that unfolding e by (simp add: link_defs at1)
  have rt: "root ?db = (if p = nullAddr then x else root db)"
    unfolding e by (simp add: link_defs db1_def)
  have sh: "shape (mem ?db) p x t"
  proof (rule shape_reroot [OF x tsub(2)])
    show "same_links ?m (mem ?db) a" if "a \<in> set (addrs t)" "a \<noteq> x" for a
    proof -
      have "a \<noteq> p \<or> p = nullAddr"
        using that tsub(1) dist(2) p by auto
      then show ?thesis
        using mo [OF that(2)] by (simp add: same_links_def)
    qed
    show "up (mem ?db x) = p \<and> left (mem ?db x) = left (?m x) \<and> right (mem ?db x) = right (?m x)"
      by (simp add: mx)
  qed
  have cx: "ctx (mem ?db) (if c = [] then x else root db) p x c"
  proof (rule ctx_refocus [OF c])
    show "p \<notin> ctx_addrs (tl c) \<and> (c \<noteq> [] \<longrightarrow> p \<notin> set (addrs (frame_tree (hd c))))"
      using c d ctx_parent [OF c] separate_hd by (cases c) (auto simp: ctx_Cons)
    show "same_links ?m (mem ?db) a" if "a \<in> ctx_addrs c" "a \<noteq> p" for a
    proof -
      have "a \<noteq> x"
        using that(1) xt tsub(1) dist(2) ctx_addrs_null [OF c] by auto
      then show ?thesis
        using mo that(2) by (simp add: same_links_def)
    qed
    show "up (mem ?db p) = up (?m p) \<and> child_of (hd c) (mem ?db p) = x \<and> sibling_of (hd c) (mem ?db p) = sibling_of (hd c) (?m p)"
      if "c \<noteq> []"
    proof -
      have "y \<notin> ctx_addrs c"
        using dist(2) by auto
      then show ?thesis
        using mp p that ctx_child_left [OF c that _ y(2)] by (cases "hd c") auto
    qed
  qed simp
  have flags: "isRed (n\<lparr>up := a\<rparr>) = isRed n" "isRed (n\<lparr>left := a\<rparr>) = isRed n" "isRed (n\<lparr>right := a\<rparr>) = isRed n"
    "getKeyFlags (n\<lparr>up := a\<rparr>) = getKeyFlags n" "getKeyFlags (n\<lparr>left := a\<rparr>) = getKeyFlags n" "getKeyFlags (n\<lparr>right := a\<rparr>) = getKeyFlags n"
    for n a
    by (simp_all add: isRed_def getKeyFlags_def)
  show red: "red ?db = red db"
    unfolding e by (simp add: db1_def link_defs red_def fun_eq_iff flags)
  show "keeps db ?db"
    unfolding e by (simp add: db1_def link_defs keeps_def flags)
  have "separate c t"
    using d by (auto simp: separate_def addrs_plug t_def)
  then have "focused ?db p x c t"
    using cx sh nn p rt red by (auto simp: focused_def)
  then show "dfocus ?db p x c t"
    by (simp add: dfocus_def mx)
  show "isBlack (mem ?db y) = (\<not> red db y)"
    using fun_cong [OF red, of y] by (simp add: isBlack_def red_def)
qed

section \<open>Putting a node in the place of another\<close>

lemma replaceNode_focus:
  assumes f: "focused db q z c (Br l z r)" and l: "l \<noteq> Tip" and y: "y \<notin> set (addrs (plug c (Br l z r)))" "y \<noteq> nullAddr"
  shows "focused (replaceNode z y db) q y c (Br l y r)" and "red (replaceNode z y db) = (red db)(y := red db z)"
    and "keeps db (replaceNode z y db)" and "up (mem (replaceNode z y db) nullAddr) = (if r = Tip then y else up (mem db nullAddr))"
proof -
  let ?m = "mem db" and ?db = "replaceNode z y db"
  let ?m' = "mem ?db" and ?a = "left (mem db z)" and ?b = "right (mem db z)"
  have c: "ctx ?m (root db) q z c" and s: "shape ?m q z (Br l z r)" and d: "separate c (Br l z r)" and nn: "\<not> red db nullAddr"
    using f by (auto simp: focused_def)
  have z: "up (?m z) = q" "z \<noteq> nullAddr" "shape ?m z ?a l" "shape ?m z ?b r"
    using s by auto
  have dist: "distinct (addrs (Br l z r))" "set (addrs (Br l z r)) \<inter> ctx_addrs c = {}"
    using separate_focus [OF d] by blast+
  have yn: "y \<notin> ctx_addrs c" "y \<notin> set (addrs (Br l z r))"
    using y(1) by (auto simp: addrs_plug ctx_addrs_def)
  have a: "?a \<noteq> nullAddr" "?a \<in> set (addrs l)"
    using shape_root [OF z(3)] shape_mem [OF z(3)] l by auto
  have b: "?b = nullAddr \<and> r = Tip \<or> ?b \<noteq> nullAddr \<and> r \<noteq> Tip \<and> ?b \<in> set (addrs r)"
    using shape_root [OF z(4)] shape_mem [OF z(4)] by blast
  have q: "q = nullAddr \<and> c = [] \<or> q \<noteq> nullAddr \<and> q \<in> ctx_addrs c \<and> c \<noteq> []"
    using ctx_parent [OF c] ctx_parent_addr [OF c] by blast
  have ne: "?a \<noteq> z" "?a \<noteq> y" "?a \<noteq> q" "?a \<noteq> ?b" "?b \<noteq> z" "?b \<noteq> y" "q \<noteq> z" "q \<noteq> y" "y \<noteq> z" "q = ?b \<longrightarrow> q = nullAddr"
    using a b q z(2) dist yn y(2) by auto
  have flags: "isRed (n\<lparr>up := v\<rparr>) = isRed n" "isRed (n\<lparr>left := v\<rparr>) = isRed n" "isRed (n\<lparr>right := v\<rparr>) = isRed n"
    "getKeyFlags (n\<lparr>up := v\<rparr>) = getKeyFlags n" "getKeyFlags (n\<lparr>left := v\<rparr>) = getKeyFlags n" "getKeyFlags (n\<lparr>right := v\<rparr>) = getKeyFlags n"
    for n v
    by (simp_all add: isRed_def getKeyFlags_def)
  define db1 where "db1 = (if q \<noteq> nullAddr then (if z = left (?m q) then set_left q y db else set_right q y db) else db\<lparr>root := y\<rparr>)"
  define db6 where "db6 = set_right y ?b (set_up ?b y (set_left y ?a (set_up ?a y (set_up y q db1))))"
  have at1: "mem db1 v = (if v = q \<and> q \<noteq> nullAddr then (if z = left (?m q) then (?m q)\<lparr>left := y\<rparr> else (?m q)\<lparr>right := y\<rparr>) else ?m v)" for v
    by (simp add: db1_def link_defs)
  have "mem db1 y = ?m y" "mem db1 ?a = ?m ?a" "mem db1 ?b = ?m ?b"
    using ne by (auto simp: at1)
  then have at6: "mem db6 v = (if v = y then (?m y)\<lparr>up := q, left := ?a, right := ?b\<rparr> else if v = ?a then (?m ?a)\<lparr>up := y\<rparr>
      else if v = ?b then (?m ?b)\<lparr>up := y\<rparr> else mem db1 v)" for v
    using ne by (simp add: db6_def link_defs)
  have e: "?db = (if isBlack (?m z) then setBlack y db6 else setRed y db6)"
  proof -
    have "mem db1 z = ?m z" "mem (set_up y q db1) z = ?m z" "mem (set_up ?a y (set_up y q db1)) z = ?m z"
        "mem (set_left y ?a (set_up ?a y (set_up y q db1))) z = ?m z"
        "mem (set_up ?b y (set_left y ?a (set_up ?a y (set_up y q db1)))) z = ?m z" "mem db6 z = ?m z"
      using ne by (simp_all add: link_defs at1 at6)
    then show ?thesis
      unfolding replaceNode_def Let_def z(1) db1_def [symmetric] by (simp add: z(1) db6_def [symmetric])
  qed
  have links: "same_links (mem db6) ?m' v" for v
    by (simp add: e same_links_def)
  have sh: "shape ?m' q y (Br l y r)"
  proof -
    have "shape ?m' y ?a l"
    proof (rule shape_reroot [OF z(3)])
      show "same_links ?m ?m' v" if "v \<in> set (addrs l)" "v \<noteq> ?a" for v
      proof -
        have "v \<noteq> y" "v \<noteq> ?b" "v \<noteq> q \<or> q = nullAddr"
          using that(1) yn b q dist shape_null [OF z(3)] by auto
        then show ?thesis
          using links [of v] that(2) by (auto simp: same_links_def at6 at1)
      qed
    qed (use links [of ?a] ne dist in \<open>simp_all add: same_links_def at6\<close>)
    moreover have "shape ?m' y ?b r"
    proof (rule shape_reroot [OF z(4)])
      show "same_links ?m ?m' v" if "v \<in> set (addrs r)" "v \<noteq> ?b" for v
      proof -
        have "v \<noteq> y" "v \<noteq> ?a" "v \<noteq> q \<or> q = nullAddr"
          using that(1) yn a q dist by auto
        then show ?thesis
          using links [of v] that(2) by (auto simp: same_links_def at6 at1)
      qed
    qed (use links [of ?b] ne dist in \<open>simp_all add: same_links_def at6\<close>)
    ultimately show ?thesis
      using links [of y] y(2) by (simp add: same_links_def at6)
  qed
  have cx: "ctx ?m' (if c = [] then y else root db) q y c"
  proof (rule ctx_refocus [OF c])
    show "q \<notin> ctx_addrs (tl c) \<and> (c \<noteq> [] \<longrightarrow> q \<notin> set (addrs (frame_tree (hd c))))"
      using c d ctx_parent [OF c] separate_hd by (cases c) (auto simp: ctx_Cons)
    show "same_links ?m ?m' v" if "v \<in> ctx_addrs c" "v \<noteq> q" for v
    proof -
      have "v \<noteq> y" "v \<noteq> ?a" "v \<noteq> ?b"
        using that(1) yn a b dist ctx_addrs_null [OF c] by auto
      then show ?thesis
        using links [of v] that(2) by (auto simp: same_links_def at6 at1)
    qed
    show "up (?m' q) = up (?m q) \<and> child_of (hd c) (?m' q) = y \<and> sibling_of (hd c) (?m' q) = sibling_of (hd c) (?m q)"
      if "c \<noteq> []"
    proof -
      have "z \<notin> ctx_addrs c" "q \<noteq> nullAddr" "q \<noteq> ?b"
        using dist(2) that q ne by auto
      then show ?thesis
        using links [of q] ne ctx_child_left [OF c that _ z(2)] by (cases "hd c") (auto simp: same_links_def at6 at1)
    qed
  qed simp
  have rt: "root ?db = (if c = [] then y else root db)"
    using q by (auto simp: e db6_def db1_def link_defs)
  have r6: "red db6 = red db"
    by (auto simp: red_def fun_eq_iff at6 at1 flags)
  show red: "red ?db = (red db)(y := red db z)"
    by (auto simp: e r6 isBlack_def red_def [of db z])
  have "keeps db db6"
    by (auto simp: keeps_def at6 at1 flags) (auto simp: db6_def db1_def link_defs)
  then show "keeps db ?db"
    using keeps_trans keeps_set by (auto simp: e)
  have "separate c (Br l y r)"
    using d yn by (auto simp: separate_def addrs_plug ctx_addrs_def)
  then show "focused ?db q y c (Br l y r)"
    using sh cx rt red y(2) nn by (simp add: focused_def)
  show "up (?m' nullAddr) = (if r = Tip then y else up (?m nullAddr))"
    using links [of nullAddr] b a(1) y(2) by (auto simp: same_links_def at6 at1)
qed

section \<open>The successor\<close>

lemma plug_append: "plug (c @ c') t = plug c' (plug c t)"
  by (induction c arbitrary: t) auto

lemma plug_not_Tip: "t \<noteq> Tip \<Longrightarrow> plug c t \<noteq> Tip"
proof (induction c arbitrary: t)
  case (Cons f c)
  then show ?case
    by (cases f) auto
qed simp

lemma addr_context: "a \<in> set (addrs t) \<Longrightarrow> \<exists>c l r. t = plug c (Br l a r)"
proof (induction t)
  case (Br l b r)
  consider "a = b" | "a \<in> set (addrs l)" | "a \<in> set (addrs r)"
    using Br.prems by auto
  then show ?case
  proof cases
    case 1
    then show ?thesis
      by (metis plug.simps(1))
  next
    case 2
    then show ?thesis
      using Br.IH(1) by (metis plug1.simps(1) plug.simps plug_append)
  next
    case 3
    then show ?thesis
      using Br.IH(2) by (metis plug1.simps(2) plug.simps plug_append)
  qed
qed simp

lemma ctx_addrs_append [simp]: "ctx_addrs (c @ c') = ctx_addrs c \<union> ctx_addrs c'"
  by (induction c) auto

lemma before_append: "before (c @ c') = before c' @ before c"
  by (induction c rule: before.induct) auto

lemma leftmost_spec:
  "shape (mem db) p a t \<Longrightarrow> t \<noteq> Tip \<Longrightarrow> \<exists>cy y r. leftmost db a = Some y \<and> t = plug cy (Br Tip y r) \<and> before cy = []"
proof (induction t arbitrary: p a)
  case (Br l b r)
  have a: "a = b" "shape (mem db) b (left (mem db b)) l"
    using Br.prems(1) by auto
  show ?case
  proof (cases "l = Tip")
    case True
    then show ?thesis
      using a by (auto simp: leftmost.simps [of db b] intro!: exI [of _ "[]"])
  next
    case False
    then obtain cy y r' where "leftmost db (left (mem db b)) = Some y" "l = plug cy (Br Tip y r')" "before cy = []"
      using Br.IH(1) [OF a(2)] by blast
    then show ?thesis
      using a(1) False shape_root [OF a(2)] by (auto simp: leftmost.simps [of db b] plug_append before_append intro!: exI [of _ "cy @ [LeftOf b r]"])
  qed
qed simp

lemma focused_plug:
  assumes "focused db q a c (plug cy t)"
  shows "\<exists>p x. focused db p x (cy @ c) t"
proof -
  have "shape (mem db) nullAddr (root db) (plug (cy @ c) t)" "distinct (addrs (plug (cy @ c) t))"
    using assms unfolding plug_append focused_def separate_def by (auto simp: shape_plug)
  then show ?thesis
    using assms by (auto simp: shape_plug focused_def separate_def)
qed

lemma focused_unplug:
  assumes "focused db p x (cy @ c) t"
  shows "\<exists>q a. focused db q a c (plug cy t)"
proof -
  have "shape (mem db) nullAddr (root db) (plug c (plug cy t))" "distinct (addrs (plug c (plug cy t)))"
    using assms unfolding plug_append [symmetric] focused_def separate_def by (auto simp: shape_plug)
  then show ?thesis
    using assms by (auto simp: shape_plug focused_def separate_def)
qed

text \<open>The colours of a context in which a node has taken the place of another.\<close>

lemma cok_replace:
  assumes "cok R h (cy @ RightOf l z # c)" and "y \<notin> ctx_addrs (cy @ RightOf l z # c)" and R': "R' = R(y := R z)"
  shows "cok R' h (cy @ RightOf l y # c)"
  using assms(1,2)
proof (induction cy arbitrary: h)
  case Nil
  then have "y \<notin> set (addrs l)" "y \<notin> ctx_addrs c"
    by auto
  then have "rb R' l h = rb R l h" "rootred R' l = rootred R l" "topred R' c = topred R c" "cok R' n c = cok R n c" for n
    unfolding R' by (simp_all only: color_upd not_False_eq_True)
  moreover have "R' y = R z"
    by (simp add: R')
  ultimately show ?case
    using Nil.prems(1) by simp
next
  case (Cons f cy)
  have "topred R' (cy @ RightOf l y # c) = topred R (cy @ RightOf l z # c)"
    using Cons.prems(2) by (cases cy) (auto simp: R')
  moreover have "R' (frame_addr f) = R (frame_addr f)"
    using Cons.prems(2) by (auto simp: R')
  moreover have "y \<notin> set (addrs (frame_tree f))"
    using Cons.prems(2) by auto
  then have "rb R' (frame_tree f) h = rb R (frame_tree f) h" "rootred R' (frame_tree f) = rootred R (frame_tree f)"
    unfolding R' by (simp_all only: color_upd not_False_eq_True)
  ultimately show ?case
    using Cons.IH Cons.prems by simp
qed

section \<open>Removing a node\<close>

definition uncounted :: "addr \<Rightarrow> memdb \<Rightarrow> memdb" where
  "uncounted z db = db\<lparr>db_count := db_count db - 1, db_size := db_size db - uint (klen (mem db z))\<rparr>"

lemma uncounted_simps [simp]: "mem (uncounted z db) = mem db" "root (uncounted z db) = root db" "red (uncounted z db) = red db"
  "focused (uncounted z db) p x c t = focused db p x c t"
proof -
  show f: "mem (uncounted z db) = mem db" "root (uncounted z db) = root db" "red (uncounted z db) = red db"
    by (simp_all add: uncounted_def red_def fun_eq_iff)
  show "focused (uncounted z db) p x c t = focused db p x c t"
    by (simp add: focused_def f)
qed

lemma deleteNode_eq:
  "deleteNode z db =
     (let db0 = uncounted z db
      in do {
        y \<leftarrow> (if left (mem db z) = nullAddr \<or> right (mem db z) = nullAddr then Some z else successor db0 z);
        let x = (if left (mem db y) \<noteq> nullAddr then left (mem db y) else right (mem db y));
        let db2 = unlink y x db0;
        let db3 = (if y \<noteq> z then replaceNode z y db2 else db2);
        db4 \<leftarrow> (if isBlack (mem db2 y) then deleteNodeFix x db3 else Some db3);
        Some (freeNode z db4)
      })"
  unfolding deleteNode_def unlink_def Let_def uncounted_def [symmetric] uncounted_simps(1) by (rule refl)

text \<open>A node without one of its children.\<close>

lemma delete_simple:
  assumes f: "focused db p z c (Br l z r)" and lr: "l = Tip \<or> r = Tip"
    and rbs: "rb (red db) (Br l z r) h" "cok (red db) h c" "c = [] \<longrightarrow> \<not> red db z"
  shows "\<exists>db'. deleteNode z db = Some (freeNode z db') \<and> rebalanced (uncounted z db) (before c @ addrs l @ addrs r @ after c) db'"
proof -
  let ?db0 = "uncounted z db"
  let ?x = "if left (mem db z) \<noteq> nullAddr then left (mem db z) else right (mem db z)"
  let ?t = "if l \<noteq> Tip then l else r"
  let ?db2 = "unlink z ?x ?db0"
  have f0: "focused ?db0 p z c (Br l z r)"
    using f by simp
  note u = unlink_focus [OF f0 lr, unfolded uncounted_simps]
  have sh: "shape (mem db) z (left (mem db z)) l" "shape (mem db) z (right (mem db z)) r"
    using f by (auto simp: focused_def)
  then have kids: "left (mem db z) = nullAddr \<or> right (mem db z) = nullAddr"
    using lr by auto
  have e: "deleteNode z db = map_option (freeNode z) (if \<not> red db z then deleteNodeFix ?x ?db2 else Some ?db2)"
    using kids u(4) by (simp add: deleteNode_eq Let_def map_option_case) (auto split: bind_splits option.splits)
  have as: "addrs (plug c ?t) = before c @ addrs l @ addrs r @ after c"
    using lr by (auto simp: addrs_plug)
  have "\<exists>db'. (if \<not> red db z then deleteNodeFix ?x ?db2 else Some ?db2) = Some db' \<and> rebalanced ?db0 (addrs (plug c ?t)) db'"
  proof (cases "red db z")
    case True
    then have t: "rb (red ?db2) ?t h" "\<not> rootred (red ?db2) ?t"
      using rbs(1) u(2) by auto
    have "rebalanced ?db0 (addrs (plug c ?t)) ?db2"
    proof (rule rebalancedI [OF _ t(1)])
      show "focused ?db2 p ?x c ?t"
        using u(1) by (simp add: dfocus_def)
      show "cok (red ?db2) h c"
        using rbs(2) u(2) by simp
    qed (use t(2) u(3) in auto)
    then show ?thesis
      using True by auto
  next
    case False
    then obtain h' where h': "h = Suc h'" "rb (red ?db2) ?t h'"
      using rbs(1) u(2) by (auto split: nat.splits)
    have "\<exists>db'. deleteNodeFix ?x ?db2 = Some db' \<and> rebalanced ?db2 (addrs (plug c ?t)) db'"
      by (rule deleteNodeFix_balances [OF u(1) h'(2)]) (use rbs(2) u(2) h'(1) in simp)
    then show ?thesis
      using False rebalanced_trans [OF u(3)] by auto
  qed
  then show ?thesis
    unfolding e as by auto
qed

text \<open>A node with both children: its successor takes its place.\<close>

lemma delete_with_successor:
  assumes f: "focused db p z c (Br l z r)" and lr: "l \<noteq> Tip" "r \<noteq> Tip"
    and rbs: "rb (red db) (plug c (Br l z r)) h" "\<not> rootred (red db) (plug c (Br l z r))"
  shows "\<exists>db'. deleteNode z db = Some (freeNode z db') \<and> rebalanced (uncounted z db) (before c @ addrs l @ addrs r @ after c) db'"
proof -
  let ?db0 = "uncounted z db"
  have f0: "focused ?db0 p z c (Br l z r)" and z: "z \<noteq> nullAddr" "shape (mem db) z (left (mem db z)) l" "shape (mem db) z (right (mem db z)) r"
    using f by (auto simp: focused_def)
  have kids: "left (mem db z) \<noteq> nullAddr" "right (mem db z) \<noteq> nullAddr"
    using lr shape_root [OF z(2)] shape_root [OF z(3)] by auto
  obtain cy y ry where lm: "leftmost ?db0 (right (mem db z)) = Some y" and r: "r = plug cy (Br Tip y ry)" "before cy = []"
    using leftmost_spec [of ?db0 z "right (mem db z)" r] z(3) lr(2) by auto
  have succ: "successor ?db0 z = Some y"
    using kids lm by (simp add: successor_def)
  define C where "C = cy @ RightOf l z # c"
  have whole: "plug C (Br Tip y ry) = plug c (Br l z r)"
    by (simp add: C_def plug_append r(1))
  have d: "distinct (addrs (plug C (Br Tip y ry)))"
    using f unfolding whole by (simp add: focused_def separate_def)
  obtain py y' where "focused ?db0 py y' C (Br Tip y ry)"
    using focused_plug [of ?db0 z "right (mem db z)" "RightOf l z # c" cy "Br Tip y ry"] focused_right [OF f0] r(1) unfolding C_def by auto
  then have fy: "focused ?db0 py y C (Br Tip y ry)"
    by (auto simp: focused_def)
  have ly: "left (mem db y) = nullAddr"
    using fy by (auto simp: focused_def)
  let ?x = "right (mem db y)"
  let ?db2 = "unlink y ?x ?db0"
  note u = unlink_focus [OF fy, unfolded uncounted_simps, simplified ly, simplified]
  define db3 where "db3 = replaceNode z y ?db2"
  have yC: "y \<notin> ctx_addrs C" "y \<notin> set (addrs ry)" "y \<noteq> nullAddr" "y \<noteq> z"
    using separate_focus [of C "Br Tip y ry"] fy by (auto simp: focused_def C_def ctx_addrs_append)
  have "focused ?db2 py ?x ((cy @ [RightOf l z]) @ c) ry"
    using u(1) by (simp add: dfocus_def C_def)
  then obtain q z' where "focused ?db2 q z' c (plug (cy @ [RightOf l z]) ry)"
    using focused_unplug by blast
  then have fz: "focused ?db2 q z c (Br l z (plug cy ry))"
    by (auto simp: plug_append focused_def)
  have yn: "y \<notin> set (addrs (plug c (Br l z (plug cy ry))))"
  proof -
    have "plug c (Br l z (plug cy ry)) = plug C ry"
      by (simp add: C_def plug_append)
    then show ?thesis
      using yC(1,2) by (simp add: addrs_plug ctx_addrs_def)
  qed
  note r3 = replaceNode_focus [OF fz lr(1) yn yC(3), folded db3_def]
  define C' where "C' = cy @ RightOf l y # c"
  have "focused db3 q y c (plug (cy @ [RightOf l y]) ry)"
    using r3(1) by (simp add: plug_append)
  then obtain p3 x3 where f3: "focused db3 p3 x3 C' ry"
    using focused_plug [of db3 q y c "cy @ [RightOf l y]" ry] by (auto simp: C'_def)
  have x3: "x3 = ?x"
    using f3 u(1) shape_addr [of "mem db3" p3 x3 ry "mem ?db2" py ?x] by (auto simp: focused_def dfocus_def)
  have "up (mem db3 nullAddr) = p3" if "ry = Tip"
  proof (cases cy)
    case Nil
    then show ?thesis
      using r3(4) that f3 by (simp add: focused_def C'_def)
  next
    case (Cons f cy')
    then have "plug cy ry \<noteq> Tip"
      by (cases f) (auto simp: plug_not_Tip)
    moreover have "p3 = frame_addr f" "py = frame_addr f"
      using f3 u(1) Cons by (auto simp: focused_def dfocus_def ctx_Cons C_def C'_def)
    moreover have "up (mem ?db2 nullAddr) = py"
      using u(1) that by (auto simp: dfocus_def focused_def)
    ultimately show ?thesis
      using r3(4) by simp
  qed
  then have d3: "dfocus db3 p3 ?x C' ry"
    using f3 x3 by (intro dfocusI) auto
  obtain hy where hy: "rb (red db) (Br Tip y ry) hy" "cok (red db) hy C"
    using rb_unplug [of "red db" C "Br Tip y ry"] rbs unfolding whole by blast
  have R3: "red db3 = (red db)(y := red db z)"
    by (simp add: r3(2) u(2))
  have ck: "cok (red db3) hy C'"
    unfolding C'_def by (rule cok_replace [OF _ _ R3]) (use hy(2) yC(1) in \<open>simp_all add: C_def\<close>)
  have ry: "rb (red db3) ry n = rb (red db) ry n" "rootred (red db3) ry = rootred (red db) ry" for n
    unfolding R3 using yC(2) by (simp_all only: color_upd not_False_eq_True)
  have e: "deleteNode z db = map_option (freeNode z) (if \<not> red db y then deleteNodeFix ?x db3 else Some db3)"
    using kids ly succ u(4) yC(4) by (simp add: deleteNode_eq Let_def db3_def map_option_case) (auto split: bind_splits option.splits)
  have as: "addrs (plug C' ry) = before c @ addrs l @ addrs r @ after c"
    using r by (simp add: addrs_plug C'_def plug_append)
  have k3: "keeps ?db0 db3"
    using u(3) r3(3) keeps_trans by blast
  have "\<exists>db'. (if \<not> red db y then deleteNodeFix ?x db3 else Some db3) = Some db' \<and> rebalanced ?db0 (addrs (plug C' ry)) db'"
  proof (cases "red db y")
    case True
    have "rebalanced ?db0 (addrs (plug C' ry)) db3"
      by (rule rebalancedI [OF f3 _ ck _ k3 refl]) (use True hy(1) ry in \<open>auto\<close>)
    then show ?thesis
      using True by auto
  next
    case False
    then obtain h' where h': "hy = Suc h'" "rb (red db3) ry h'"
      using hy(1) ry(1) by (auto split: nat.splits)
    have "\<exists>db'. deleteNodeFix ?x db3 = Some db' \<and> rebalanced db3 (addrs (plug C' ry)) db'"
      by (rule deleteNodeFix_balances [OF d3 h'(2)]) (use ck h'(1) in simp)
    then show ?thesis
      using False rebalanced_trans [OF k3] by auto
  qed
  then show ?thesis
    unfolding e as by auto
qed

text \<open>Freeing the node does not touch the tree it is no longer in.\<close>

lemma freeNode_tree: "rb_tree db t \<Longrightarrow> z \<notin> set (addrs t) \<Longrightarrow> z \<noteq> nullAddr \<Longrightarrow> rb_tree (freeNode z db) t"
proof -
  assume t: "rb_tree db t" and z: "z \<notin> set (addrs t)" "z \<noteq> nullAddr"
  let ?db = "freeNode z db"
  have m: "mem ?db a = mem db a" if "a \<noteq> z" for a
    using that by (simp add: freeNode_def Let_def on_node_def)
  have red: "red ?db = red db" and k: "node_key ?db = node_key db" and rt: "root ?db = root db"
    by (auto simp: freeNode_def Let_def on_node_def red_def isRed_def node_key_def getKey_def fun_eq_iff)
  have "shape (mem ?db) nullAddr (root ?db) t"
    unfolding rt
  proof (rule shape_same [of "mem db"])
    show "shape (mem db) nullAddr (root db) t"
      using t by (simp add: rb_tree_def)
    show "same_links (mem db) (mem ?db) b" if "b \<in> set (addrs t)" for b
    proof -
      have "b \<noteq> z"
        using that z(1) by blast
      then show ?thesis
        by (simp add: m same_links_def)
    qed
  qed
  moreover have "keys_sorted ?db (addrs t)"
    using t keys_sorted_cong [of "addrs t" ?db db] k by (simp add: rb_tree_def)
  ultimately show ?thesis
    using t red by (simp add: rb_tree_def)
qed

theorem deleteNode_removes:
  assumes t: "rb_tree db t" and z: "z \<in> set (addrs t)"
  shows "\<exists>db' t'. deleteNode z db = Some (freeNode z db') \<and> rb_tree (freeNode z db') t' \<and> addrs t' = removeAll z (addrs t) \<and>
    keeps (uncounted z db) db'"
proof -
  obtain c l r where tc: "t = plug c (Br l z r)"
    using addr_context [OF z] by blast
  have dt: "distinct (addrs t)"
    using t keys_sorted_distinct by (auto simp: rb_tree_def)
  obtain p where f: "focused db p z c (Br l z r)"
    using t dt by (auto simp: rb_tree_def tc shape_plug focused_def separate_def)
  have z0: "z \<noteq> nullAddr"
    using f by (simp add: focused_def)
  obtain h where h: "rb (red db) t h" "\<not> rootred (red db) t"
    using t by (auto simp: rb_tree_def)
  obtain hz where hz: "rb (red db) (Br l z r) hz" "cok (red db) hz c"
    using rb_unplug [of "red db" c "Br l z r"] h tc by blast
  have "\<exists>db'. deleteNode z db = Some (freeNode z db') \<and> rebalanced (uncounted z db) (before c @ addrs l @ addrs r @ after c) db'"
  proof (cases "l = Tip \<or> r = Tip")
    case True
    then show ?thesis
      by (rule delete_simple [OF f _ hz]) (use h tc in auto)
  next
    case False
    then show ?thesis
      using delete_with_successor [OF f] h tc by auto
  qed
  moreover have as: "before c @ addrs l @ addrs r @ after c = removeAll z (addrs t)"
    using dt unfolding tc by (auto simp: addrs_plug removeAll_id)
  ultimately obtain db' where e: "deleteNode z db = Some (freeNode z db')" and b: "rebalanced (uncounted z db) (removeAll z (addrs t)) db'"
    by auto
  obtain t' n where t': "shape (mem db') nullAddr (root db') t'" "addrs t' = removeAll z (addrs t)" "rb (red db') t' n" "\<not> red db' nullAddr"
      "keeps (uncounted z db) db'" "\<not> red db' (root db')"
    using b by (auto simp: rebalanced_def balanced_to_def)
  have "keys_sorted db (removeAll z (addrs t))"
    using t by (auto simp: rb_tree_def keys_sorted_def removeAll_filter_not_eq sorted_wrt_map intro: sorted_wrt_filter)
  moreover have "node_key db' a = node_key db a" for a
    using keeps_key [OF t'(5)] by (simp add: node_key_def)
  ultimately have "keys_sorted db' (addrs t')"
    using keys_sorted_cong [of "addrs t'" db' db] t'(2) by simp
  then have "rb_tree db' t'"
    using t' rootred_shape [OF t'(1,4)] by (auto simp: rb_tree_def)
  then have "rb_tree (freeNode z db') t'"
    by (rule freeNode_tree) (use t'(2) z0 in auto)
  then show ?thesis
    using e t'(2,5) by blast
qed

end
