(* ===== verification/Memdb_Log.thy ===== *)
theory Memdb_Log
  imports Memdb_Arena_Facts
begin

text \<open>
  The value log as a stack of entries. An entry is a block, a header and a value; the newest comes first.
  The facts say what appending, reading, overwriting, the cursor and the truncation do to the stack.
\<close>

type_synonym ent = "nat \<times> memdbVlogHdr \<times> bytes"

abbreviation e_blk :: "ent \<Rightarrow> nat" where "e_blk e \<equiv> fst e"
abbreviation e_hdr :: "ent \<Rightarrow> memdbVlogHdr" where "e_hdr e \<equiv> fst (snd e)"
abbreviation e_val :: "ent \<Rightarrow> bytes" where "e_val e \<equiv> snd (snd e)"
abbreviation e_node :: "ent \<Rightarrow> memdbMemCamAddr" where "e_node e \<equiv> hdr_nodeAddr (e_hdr e)"
abbreviation e_old :: "ent \<Rightarrow> memdbMemCamAddr" where "e_old e \<equiv> hdr_oldValue (e_hdr e)"

definition enc :: "ent \<Rightarrow> bytes" where
  "enc e = e_val e @ hdr_store (e_hdr e)"

lemma length_hdr_store [simp]: "length (hdr_store h) = 20"
  by (simp add: hdr_store_def addr_store_def)

lemma hdr_store_not_Nil [simp]: "hdr_store h \<noteq> []"
  using length_hdr_store [of h] by (metis list.size(3) zero_neq_numeral)

lemma length_enc [simp]: "length (enc e) = length (e_val e) + 20"
  by (simp add: enc_def)

text \<open>The bytes a stack leaves in a block.\<close>

primrec in_blk :: "nat \<Rightarrow> ent list \<Rightarrow> bytes" where
  "in_blk i [] = []"
| "in_blk i (e # es) = in_blk i es @ (if e_blk e = i then enc e else [])"

text \<open>The blocks are filled one after the other, and a header names the length of its value.\<close>

primrec stacked :: "ent list \<Rightarrow> bool" where
  "stacked [] = True"
| "stacked (e # es) =
     (stacked es \<and> (case es of [] \<Rightarrow> e_blk e = 0 | f # _ \<Rightarrow> e_blk e = e_blk f \<or> e_blk e = Suc (e_blk f)) \<and>
      length (e_val e) = unat (hdr_valueLen (e_hdr e)))"

definition n_blocks :: "ent list \<Rightarrow> nat" where
  "n_blocks es = (case es of [] \<Rightarrow> 0 | e # _ \<Rightarrow> Suc (e_blk e))"

lemma n_blocks_simps [simp]: "n_blocks [] = 0" "n_blocks (e # es) = Suc (e_blk e)"
  by (simp_all add: n_blocks_def)

definition log_ok :: "memdbMemCam \<Rightarrow> ent list \<Rightarrow> bool" where
  "log_ok l es =
     (cam_ok l \<and> stacked es \<and> length (blocks l) = n_blocks es \<and>
      (\<forall>i < length (blocks l). take (blen (blocks l ! i)) (buf (blocks l ! i)) = in_blk i es))"

lemma log_ok_empty [simp]: "log_ok empty_cam []" "log_ok (cam_reset l) []"
  by (simp_all add: log_ok_def) (simp_all add: empty_cam_def cam_reset_def)

section \<open>Headers in memory\<close>

lemma Uint32_le [simp]: "Uint32 (le_bytes 4 (ucast x) @ bs) = Some x"
  by (simp add: Uint32_def)

lemma addr_load_store [simp]: "addr_load (addr_store a @ bs) = Some a"
  by (simp add: addr_load_def addr_store_def)

lemma length_addr_store [simp]: "length (addr_store a) = 8"
  by (simp add: addr_store_def)

lemma hdr_load_store [simp]: "hdr_load (hdr_store h @ bs) = Some h"
proof -
  have "hdr_load (hdr_store h @ bs) = hdr_load (le_bytes 4 (ucast (hdr_valueLen h)) @ addr_store (hdr_oldValue h) @ addr_store (hdr_nodeAddr h) @ bs)"
    by (simp add: hdr_store_def)
  also have "\<dots> = Some h"
    by (simp add: hdr_load_def)
  finally show ?thesis .
qed

lemma Uint32_hdr [simp]: "Uint32 (hdr_store h @ bs) = Some (hdr_valueLen h)"
  by (simp add: hdr_store_def)

section \<open>Stacks\<close>

lemma stacked_appendD: "stacked (new @ es) \<Longrightarrow> stacked es"
  by (induction new) auto

lemma stacked_blk_le: "stacked (e # es) \<Longrightarrow> f \<in> set es \<Longrightarrow> e_blk f \<le> e_blk e"
proof (induction es arbitrary: e)
  case (Cons g es)
  then have "e_blk g \<le> e_blk e"
    by auto
  moreover have "e_blk f \<le> e_blk g"
    using Cons.IH [of g] Cons.prems by (cases "f = g") simp_all
  ultimately show ?case
    by simp
qed simp

lemma in_blk_append: "in_blk i (new @ es) = in_blk i es @ in_blk i new"
  by (induction new) auto

lemma in_blk_none: "(\<forall>e \<in> set es. e_blk e \<noteq> i) \<longleftrightarrow> in_blk i es = []"
  by (induction es) (auto simp: enc_def)

lemma in_blk_next: "stacked es \<Longrightarrow> in_blk (n_blocks es) es = []"
proof (cases es)
  case (Cons e es')
  assume "stacked es"
  then have "e_blk f \<le> e_blk e" if "f \<in> set es" for f
    using stacked_blk_le [of e es' f] that Cons by auto
  then show ?thesis
    using Cons by (fastforce simp: in_blk_none [symmetric] simp del: in_blk.simps)
qed simp

text \<open>The blocks below the top one of a stack do not grow any more.\<close>

lemma stacked_more_blk: "stacked (new @ f # es) \<Longrightarrow> e \<in> set new \<Longrightarrow> e_blk f \<le> e_blk e"
proof (induction new)
  case (Cons g new)
  show ?case
  proof (cases "e = g")
    case True
    then show ?thesis
      using stacked_blk_le [of g "new @ f # es" f] Cons.prems by simp
  qed (use Cons in auto)
qed simp

lemma in_blk_below: "stacked (new @ es) \<Longrightarrow> Suc i < n_blocks es \<Longrightarrow> in_blk i (new @ es) = in_blk i es"
proof -
  assume s: "stacked (new @ es)" and i: "Suc i < n_blocks es"
  then obtain f es' where es: "es = f # es'" "i < e_blk f"
    by (cases es) auto
  have "e_blk e \<noteq> i" if "e \<in> set new" for e
    using stacked_more_blk [of new f es' e] s es that by auto
  then have "in_blk i new = []"
    by (simp add: in_blk_none [symmetric])
  then show ?thesis
    by (simp add: in_blk_append)
qed

text \<open>The position of the top of a stack: the number of blocks and the bytes in the last.\<close>

definition top_len :: "ent list \<Rightarrow> nat" where
  "top_len es = length (in_blk (n_blocks es - 1) es)"

definition pos_less :: "ent list \<Rightarrow> ent list \<Rightarrow> bool" where
  "pos_less es es' = (n_blocks es < n_blocks es' \<or> n_blocks es = n_blocks es' \<and> top_len es < top_len es')"

lemma top_len_simps [simp]: "top_len [] = 0" "top_len (e # es) = length (in_blk (e_blk e) es) + length (e_val e) + 20"
  by (simp_all add: top_len_def)

lemma pos_less_Cons: "stacked (e # es) \<Longrightarrow> pos_less es (e # es)"
  by (cases es) (auto simp: pos_less_def top_len_def)

lemma pos_less_trans: "pos_less a b \<Longrightarrow> pos_less b c \<Longrightarrow> pos_less a c"
  by (auto simp: pos_less_def)

lemma pos_less_append: "stacked (new @ es) \<Longrightarrow> new \<noteq> [] \<Longrightarrow> pos_less es (new @ es)"
proof (induction new)
  case (Cons e new)
  then show ?case
    using pos_less_Cons [of e "new @ es"] pos_less_trans by (cases "new = []") auto
qed simp

text \<open>The address of an entry is the position it ends at.\<close>

definition top_addr :: "ent list \<Rightarrow> memdbMemCamAddr" where
  "top_addr es = \<lparr>idx = word_of_nat (n_blocks es - 1), off = word_of_nat (top_len es)\<rparr>"

lemma log_len:
  assumes "log_ok l es" and "i < length (blocks l)"
  shows "length (in_blk i es) = blen (blocks l ! i)" and "blen (blocks l ! i) \<le> length (buf (blocks l ! i))"
    and "length (buf (blocks l ! i)) \<le> maxBlockSize"
proof -
  have "blocks l ! i \<in> set (blocks l)"
    using assms(2) by simp
  then show le: "blen (blocks l ! i) \<le> length (buf (blocks l ! i))" "length (buf (blocks l ! i)) \<le> maxBlockSize"
    using assms(1) unfolding log_ok_def cam_ok_def by blast+
  show "length (in_blk i es) = blen (blocks l ! i)"
    using assms le by (simp add: log_ok_def flip: min_def) (metis length_take min.absorb2)
qed

lemma n_blocks_mono: "stacked (new @ es) \<Longrightarrow> n_blocks es \<le> n_blocks (new @ es)"
  by (cases "new = []") (auto dest!: pos_less_append simp: pos_less_def)

lemma log_block:
  assumes "log_ok l (new @ e # es)"
  shows "e_blk e < length (blocks l)"
    and "\<exists>rest. buf (blocks l ! e_blk e) = in_blk (e_blk e) es @ e_val e @ hdr_store (e_hdr e) @ rest"
    and "length (in_blk (e_blk e) es) + length (e_val e) + 20 \<le> maxBlockSize"
proof -
  have s: "stacked (new @ e # es)" and n: "length (blocks l) = n_blocks (new @ e # es)"
    using assms by (auto simp: log_ok_def)
  show lt: "e_blk e < length (blocks l)"
    using n_blocks_mono [OF s] n by simp
  let ?B = "blocks l ! e_blk e"
  have "take (blen ?B) (buf ?B) = in_blk (e_blk e) (new @ e # es)"
    using assms lt by (simp add: log_ok_def)
  then have "buf ?B = in_blk (e_blk e) (new @ e # es) @ drop (blen ?B) (buf ?B)"
    by (metis append_take_drop_id)
  then show "\<exists>rest. buf ?B = in_blk (e_blk e) es @ e_val e @ hdr_store (e_hdr e) @ rest"
    by (auto simp: in_blk_append enc_def)
  show "length (in_blk (e_blk e) es) + length (e_val e) + 20 \<le> maxBlockSize"
    using log_len [OF assms lt] by (simp add: in_blk_append)
qed

lemma top_addr_unat:
  assumes "log_ok l (new @ e # es)" and "cam_room l"
  shows "unat (idx (top_addr (e # es))) = e_blk e" and "unat (off (top_addr (e # es))) = top_len (e # es)"
    and "top_addr (e # es) \<noteq> nullAddr"
    and "unat (off (top_addr (e # es)) - word_of_nat memdbVlogHdrSize) = length (in_blk (e_blk e) es) + length (e_val e)"
proof -
  note b = log_block [OF assms(1)]
  show i: "unat (idx (top_addr (e # es))) = e_blk e"
    using b(1) assms(2) by (simp add: top_addr_def cam_room_def unat_of_nat take_bit_nat_eq_self)
  have t: "top_len (e # es) \<le> 134217728"
    using b(3) by (simp add: maxBlockSize_def)
  show o: "unat (off (top_addr (e # es))) = top_len (e # es)"
    using t by (simp add: top_addr_def unat_of_nat take_bit_nat_eq_self del: top_len_simps)
  have "e_blk e < 4294967295"
    using b(1) assms(2) by (simp add: cam_room_def)
  then show "top_addr (e # es) \<noteq> nullAddr"
    using i by (auto simp: nullAddr_def)
  have "(word_of_nat memdbVlogHdrSize :: u32) \<le> off (top_addr (e # es))"
    using o by (simp add: word_le_nat_alt memdbVlogHdrSize_def)
  then show "unat (off (top_addr (e # es)) - word_of_nat memdbVlogHdrSize) = length (in_blk (e_blk e) es) + length (e_val e)"
    using o by (simp add: unat_sub memdbVlogHdrSize_def)
qed

section \<open>Reading\<close>

lemma stacked_len: "stacked (new @ e # es) \<Longrightarrow> length (e_val e) = unat (hdr_valueLen (e_hdr e))"
  using stacked_appendD [of new "e # es"] by simp

lemma getValue_entry:
  assumes "log_ok l (new @ e # es)" and "cam_room l"
  shows "getValue l (top_addr (e # es)) = Some (e_val e)"
proof -
  note b = log_block [OF assms(1)] and t = top_addr_unat [OF assms]
  obtain rest where r: "buf (blocks l ! e_blk e) = in_blk (e_blk e) es @ e_val e @ hdr_store (e_hdr e) @ rest"
    using b(2) by blast
  let ?a = "off (top_addr (e # es)) - word_of_nat memdbVlogHdrSize"
  have bb: "block_buf l (uint (idx (top_addr (e # es)))) = Some (buf (blocks l ! e_blk e))"
    using b(1) t(1) by (simp add: block_buf_def uint_nat)
  have len: "length (e_val e) = unat (hdr_valueLen (e_hdr e))"
    using assms(1) stacked_len [of new e es] unfolding log_ok_def by blast
  have "hdr_valueLen (e_hdr e) \<le> ?a"
    using t(4) len by (simp add: word_le_nat_alt)
  then have s: "unat (?a - hdr_valueLen (e_hdr e)) = length (in_blk (e_blk e) es)"
    using t(4) len by (simp add: unat_sub)
  have "e_val e = []" if "hdr_valueLen (e_hdr e) = 0"
    using len that by simp
  then show ?thesis
    unfolding getValue_def Let_def bb t(4) s by (simp add: r t(4) s slice_def tombstone_def)
qed

text \<open>The newest entry of a node, as its address and as its value.\<close>

primrec vp :: "ent list \<Rightarrow> memdbMemCamAddr \<Rightarrow> memdbMemCamAddr" where
  "vp [] n = nullAddr"
| "vp (e # es) n = (if e_node e = n then top_addr (e # es) else vp es n)"

primrec lval :: "ent list \<Rightarrow> memdbMemCamAddr \<Rightarrow> bytes option" where
  "lval [] n = None"
| "lval (e # es) n = (if e_node e = n then Some (e_val e) else lval es n)"

lemma vp_value:
  assumes "log_ok l (new @ es)" and "cam_room l"
  shows "vp es n = nullAddr \<and> lval es n = None \<or> vp es n \<noteq> nullAddr \<and> (\<exists>v. lval es n = Some v \<and> getValue l (vp es n) = Some v)"
  using assms
proof (induction es arbitrary: new)
  case (Cons e es)
  show ?case
  proof (cases "e_node e = n")
    case True
    then show ?thesis
      using getValue_entry [OF Cons.prems] top_addr_unat(3) [OF Cons.prems] by simp
  next
    case False
    then show ?thesis
      using Cons.IH [of "new @ [e]"] Cons.prems by simp
  qed
qed simp

lemma vp_split:
  assumes "vp es n \<noteq> nullAddr"
  shows "\<exists>newer e older. es = newer @ e # older \<and> e_node e = n \<and> vp es n = top_addr (e # older) \<and> (\<forall>f \<in> set newer. e_node f \<noteq> n)"
  using assms
proof (induction es)
  case (Cons e es)
  show ?case
  proof (cases "e_node e = n")
    case True
    then show ?thesis
      by (intro exI [of _ "[]"]) auto
  next
    case False
    then obtain newer f older where "es = newer @ f # older" "e_node f = n" "vp es n = top_addr (f # older)" "\<forall>f \<in> set newer. e_node f \<noteq> n"
      using Cons by auto
    then show ?thesis
      using False by (intro exI [of _ "e # newer"]) auto
  qed
qed simp

text \<open>Each entry names the one it replaced.\<close>

primrec chained :: "ent list \<Rightarrow> bool" where
  "chained [] = True"
| "chained (e # es) = (chained es \<and> e_old e = vp es (e_node e))"

lemma chained_appendD: "chained (new @ es) \<Longrightarrow> chained es"
  by (induction new) auto

section \<open>Appending\<close>

lemma length_write_bytes: "n + length src \<le> length dst \<Longrightarrow> length (write_bytes dst n src) = length dst"
  by (simp add: write_bytes_def)

lemma appendValue_pushes:
  assumes ok: "log_ok l es" and room: "cam_room l" and len: "length v + 20 \<le> maxBlockSize"
  shows "\<exists>l' i. let e = (i, \<lparr>hdr_nodeAddr = n, hdr_oldValue = old, hdr_valueLen = word_of_nat (length v)\<rparr>, v)
    in appendValue n old v l = Some (top_addr (e # es), l') \<and> log_ok l' (e # es) \<and> length (blocks l') \<le> Suc (length (blocks l))"
proof -
  have cam: "cam_ok l" and st: "stacked es" and nb: "length (blocks l) = n_blocks es"
    and blks: "\<And>i. i < length (blocks l) \<Longrightarrow> take (blen (blocks l ! i)) (buf (blocks l ! i)) = in_blk i es"
    using ok by (auto simp: log_ok_def)
  define sz where "sz = memdbVlogHdrSize + length v"
  obtain ad l1 bs b k where al: "alloc sz False l = Some (ad, l1)" and "allocated_in l sz ad l1 bs b k" "k = blen b"
    using alloc_spec [OF cam, of sz False] len by (auto simp: sz_def memdbVlogHdrSize_def)
  then have a: "allocated_in l sz ad l1 bs b (blen b)"
    by simp
  define h where "h = \<lparr>hdr_nodeAddr = n, hdr_oldValue = old, hdr_valueLen = word_of_nat (length v)\<rparr>"
  define e where "e = (length bs, h, v)"
  define l' where "l' = write_at (unat (idx ad)) (unat (off ad)) (v @ hdr_store h) l1"
  have sizes: "blen b + sz \<le> length (buf b)" "length (buf b) \<le> maxBlockSize" "blocks l1 = bs @ [b\<lparr>blen := blen b + sz\<rparr>]"
      "blocks l = bs @ [b] \<or> blocks l = bs \<and> blen b = 0" "0 < blockSize l1"
    using a by (auto simp: allocated_in_def)
  have io: "unat (idx ad) = length bs" "unat (off ad) = blen b"
    using a room sizes by (auto simp: allocated_in_def cam_room_def maxBlockSize_def unat_of_nat take_bit_nat_eq_self)
  have szl: "sz = length (v @ hdr_store h)"
    by (simp add: sz_def memdbVlogHdrSize_def)
  have bl': "blocks l' = bs @ [b\<lparr>buf := write_bytes (buf b) (blen b) (v @ hdr_store h), blen := blen b + sz\<rparr>]"
    by (simp add: l'_def write_at_def io sizes(3))
  have prev: "take (blen b) (buf b) = in_blk (length bs) es" "length (in_blk (length bs) es) = blen b"
  proof -
    show "take (blen b) (buf b) = in_blk (length bs) es"
      using sizes(4)
    proof
      assume "blocks l = bs @ [b]"
      then show ?thesis
        using blks [of "length bs"] by (simp add: nth_append)
    next
      assume "blocks l = bs \<and> blen b = 0"
      then show ?thesis
        using in_blk_next [OF st] nb by simp
    qed
    then show "length (in_blk (length bs) es) = blen b"
      using sizes(1) by (metis add_leD1 length_take min.absorb2)
  qed
  have "log_ok l' (e # es)"
    unfolding log_ok_def
  proof (intro conjI allI impI)
    show "cam_ok l'"
      using alloc_fresh(1) [OF a _ cam room] sizes szl
      by (auto simp: cam_ok_def bl' length_write_bytes sz_def memdbVlogHdrSize_def) (simp_all add: l'_def write_at_def)
    show "stacked (e # es)"
      using st nb sizes(4) len by (cases es) (auto simp: e_def h_def unat_of_nat take_bit_nat_eq_self maxBlockSize_def)
    show "length (blocks l') = n_blocks (e # es)"
      by (simp add: bl' e_def)
    show "take (blen (blocks l' ! i)) (buf (blocks l' ! i)) = in_blk i (e # es)" if "i < length (blocks l')" for i
    proof (cases "i = length bs")
      case True
      then show ?thesis
        using prev sizes(1) szl by (simp add: bl' write_bytes_def e_def enc_def)
    next
      case False
      then have "i < length bs"
        using that by (simp add: bl')
      then show ?thesis
        using blks [of i] sizes(4) by (auto simp: bl' nth_append e_def)
    qed
  qed
  moreover have "appendValue n old v l = Some (top_addr (e # es), l')"
  proof -
    have "ad\<lparr>off := off ad + word_of_nat sz\<rparr> = top_addr (e # es)"
      using a prev(2) by (simp add: allocated_in_def top_addr_def e_def szl)
    then show ?thesis
      using al by (simp add: appendValue_def Let_def sz_def [symmetric] h_def [symmetric] l'_def)
  qed
  moreover have "length (blocks l') \<le> Suc (length (blocks l))"
    using sizes(4) by (auto simp: bl')
  ultimately show ?thesis
    unfolding Let_def e_def h_def by blast
qed

section \<open>Overwriting a value with one of its length\<close>

definition revalue :: "bytes \<Rightarrow> ent \<Rightarrow> ent" where
  "revalue v e = (e_blk e, e_hdr e, v)"

lemma revalue_simps [simp]: "e_blk (revalue v e) = e_blk e" "e_hdr (revalue v e) = e_hdr e" "e_val (revalue v e) = v"
  by (simp_all add: revalue_def)

lemma revalue_len: "length v = length (e_val e) \<Longrightarrow> length (in_blk i (new @ revalue v e # es)) = length (in_blk i (new @ e # es))"
  by (simp add: in_blk_append)

lemma revalue_top:
  assumes "length v = length (e_val e)"
  shows "n_blocks (new @ revalue v e # es) = n_blocks (new @ e # es)" and "top_len (new @ revalue v e # es) = top_len (new @ e # es)"
    and "top_addr (new @ revalue v e # es) = top_addr (new @ e # es)"
proof -
  show n: "n_blocks (new @ revalue v e # es) = n_blocks (new @ e # es)"
    by (cases new) simp_all
  show "top_len (new @ revalue v e # es) = top_len (new @ e # es)"
    unfolding top_len_def n by (rule revalue_len [OF assms])
  then show "top_addr (new @ revalue v e # es) = top_addr (new @ e # es)"
    by (simp add: top_addr_def n)
qed

lemma revalue_vp:
  assumes "length v = length (e_val e)"
  shows "vp (new @ revalue v e # es) n = vp (new @ e # es) n"
proof (induction new)
  case (Cons f new)
  then show ?case
    using revalue_top(3) [OF assms, of "f # new" es] by simp
qed (use revalue_top(3) [OF assms, of "[]" es] in simp)

lemma revalue_chained: "length v = length (e_val e) \<Longrightarrow> chained (new @ revalue v e # es) = chained (new @ e # es)"
  by (induction new) (simp_all add: revalue_vp)

lemma revalue_stacked: "length v = length (e_val e) \<Longrightarrow> stacked (new @ revalue v e # es) = stacked (new @ e # es)"
proof (induction new)
  case (Cons f new)
  then show ?case
    by (cases new) simp_all
qed (auto split: list.splits)

lemma revalue_lval:
  assumes "\<forall>f \<in> set new. e_node f \<noteq> e_node e"
  shows "lval (new @ revalue v e # es) n = (if n = e_node e then Some v else lval (new @ e # es) n)"
  using assms by (induction new) auto

lemma write_entry:
  assumes ok: "log_ok l (new @ e # es)" and room: "cam_room l" and len: "length v = length (e_val e)"
  defines "a \<equiv> top_addr (e # es)"
  shows "log_ok (write_at (unat (idx a)) (unat (off a - word_of_nat memdbVlogHdrSize - word_of_nat (length (e_val e)))) v l) (new @ revalue v e # es)"
proof -
  note t = top_addr_unat [OF ok room, folded a_def] and b = log_block [OF ok]
  let ?i = "e_blk e" and ?n = "length (in_blk (e_blk e) es)"
  have u: "unat (word_of_nat (length (e_val e)) :: u32) = length (e_val e)"
    using b(3) by (simp add: unat_of_nat take_bit_nat_eq_self maxBlockSize_def)
  then have "(word_of_nat (length (e_val e)) :: u32) \<le> off a - word_of_nat memdbVlogHdrSize"
    using t(4) by (simp add: word_le_nat_alt)
  then have n: "unat (off a - word_of_nat memdbVlogHdrSize - word_of_nat (length (e_val e))) = ?n"
    using t(4) u by (simp add: unat_sub)
  obtain rest where r: "buf (blocks l ! ?i) = in_blk ?i es @ e_val e @ hdr_store (e_hdr e) @ rest"
    using b(2) by blast
  let ?l = "write_at ?i ?n v l"
  have bl: "blocks ?l = (blocks l)[?i := (blocks l ! ?i)\<lparr>buf := in_blk ?i es @ v @ hdr_store (e_hdr e) @ rest\<rparr>]"
    using len by (simp add: write_at_def write_bytes_def r)
  have lens: "length (in_blk ?i es @ v @ hdr_store (e_hdr e) @ rest) = length (buf (blocks l ! ?i))"
    using len by (simp add: r)
  have "log_ok ?l (new @ revalue v e # es)"
    unfolding log_ok_def
  proof (intro conjI allI impI)
    have "blocks l ! ?i \<in> set (blocks l)"
      using b(1) by simp
    then have "blen (blocks l ! ?i) \<le> length (buf (blocks l ! ?i)) \<and> length (buf (blocks l ! ?i)) \<le> maxBlockSize" "blocks l \<noteq> []"
      using ok by (auto simp: log_ok_def cam_ok_def)
    moreover have "blockSize ?l = blockSize l"
      by (simp add: write_at_def)
    ultimately show "cam_ok ?l"
      using ok lens set_update_subset_insert [of "blocks l" ?i] unfolding log_ok_def cam_ok_def bl by fastforce
    show "stacked (new @ revalue v e # es)"
      using ok revalue_stacked [OF len] by (simp add: log_ok_def)
    show "length (blocks ?l) = n_blocks (new @ revalue v e # es)"
      using ok revalue_top(1) [OF len] by (simp add: log_ok_def bl)
    show "take (blen (blocks ?l ! i)) (buf (blocks ?l ! i)) = in_blk i (new @ revalue v e # es)" if "i < length (blocks ?l)" for i
    proof (cases "i = ?i")
      case False
      then have "in_blk i (new @ revalue v e # es) = in_blk i (new @ e # es)"
        by (simp add: in_blk_append)
      then show ?thesis
        using ok that False by (simp add: log_ok_def bl)
    next
      case True
      have blen: "blen (blocks l ! ?i) = length (in_blk ?i (new @ e # es))"
        using log_len(1) [OF ok b(1)] by simp
      have "take (blen (blocks l ! ?i)) (buf (blocks l ! ?i)) = in_blk ?i (new @ e # es)"
        using ok b(1) by (simp add: log_ok_def)
      then have "take (length (in_blk ?i new)) rest = in_blk ?i new"
        by (simp add: blen r in_blk_append enc_def)
      then show ?thesis
        using True b(1) by (simp add: bl blen in_blk_append enc_def len)
    qed
  qed
  then show ?thesis
    by (simp add: n t(1))
qed

section \<open>Positions\<close>

definition at_top :: "memdbCheckpoint \<Rightarrow> ent list \<Rightarrow> bool" where
  "at_top cp es = (cp_blocks cp = int (n_blocks es) \<and> cp_offsetInBlock cp = int (top_len es))"

lemma checkpoint_at_top: "log_ok l es \<Longrightarrow> at_top (checkpoint l) es"
proof -
  assume ok: "log_ok l es"
  have "int (blen (last (blocks l))) = int (top_len es)" if "blocks l \<noteq> []"
    using log_len(1) [OF ok, of "length (blocks l) - 1"] that ok by (simp add: last_conv_nth top_len_def log_ok_def)
  moreover have "blocks l = [] \<Longrightarrow> es = []"
    using ok by (cases es) (auto simp: log_ok_def)
  ultimately show ?thesis
    using ok by (cases "blocks l = []") (auto simp: at_top_def checkpoint_def log_ok_def)
qed

text \<open>Of two ends of a list the longer has the shorter as an end.\<close>

lemma suffix_split: "as @ bs = cs @ ds \<Longrightarrow> length bs \<le> length ds \<Longrightarrow> \<exists>mid. ds = mid @ bs"
  by (auto simp: append_eq_append_conv2)

lemma same_position:
  assumes "at_top cp es" and "at_top cursor (new @ es)" and "stacked (new @ es)"
  shows "isSamePosition cp cursor \<longleftrightarrow> new = []"
  using assms pos_less_append [OF assms(3)] by (cases "new = []") (auto simp: isSamePosition_def at_top_def pos_less_def)

lemma hdr_below_top:
  assumes "log_ok l (new @ e # es)" and "at_top cursor (e # es)"
  shows "hdr_below l cursor = Some (e_hdr e, buf (blocks l ! e_blk e))"
proof -
  note b = log_block [OF assms(1)]
  obtain rest where r: "buf (blocks l ! e_blk e) = in_blk (e_blk e) es @ e_val e @ hdr_store (e_hdr e) @ rest"
    using b(2) by blast
  have bb: "block_buf l (cp_blocks cursor - 1) = Some (buf (blocks l ! e_blk e))"
    using assms(2) b(1) by (simp add: block_buf_def at_top_def)
  have o: "cp_offsetInBlock cursor - int memdbVlogHdrSize = int (length (in_blk (e_blk e) es @ e_val e))"
    using assms(2) by (simp add: at_top_def memdbVlogHdrSize_def)
  show ?thesis
    unfolding hdr_below_def Let_def o bb by (simp add: r del: of_nat_add length_append) (simp add: r)
qed

lemma moveBackCursor_pops:
  assumes ok: "log_ok l (new @ e # es)" and at: "at_top cursor (e # es)"
  shows "\<exists>c. moveBackCursor l (e_hdr e) cursor = Some c \<and> at_top c es \<and> cp_blockSize c = cp_blockSize cursor"
proof -
  have st: "stacked (new @ e # es)" "stacked (e # es)"
    using ok stacked_appendD [of new "e # es"] unfolding log_ok_def by blast+
  have len: "length (e_val e) = unat (hdr_valueLen (e_hdr e))"
    using st(2) by simp
  have o1: "cp_offsetInBlock cursor - (int memdbVlogHdrSize + uint (hdr_valueLen (e_hdr e))) = int (length (in_blk (e_blk e) es))"
  proof -
    have "uint (hdr_valueLen (e_hdr e)) = int (length (e_val e))"
      by (simp only: uint_nat len)
    then show ?thesis
      using at by (simp add: at_top_def memdbVlogHdrSize_def)
  qed
  have cb: "cp_blocks cursor = int (Suc (e_blk e))"
    using at by (simp add: at_top_def)
  show ?thesis
  proof (cases es)
    case Nil
    then have "e_blk e = 0"
      using st(2) by simp
    then show ?thesis
      using Nil by (simp add: moveBackCursor_def Let_def o1 cb at_top_def)
  next
    case (Cons f es')
    then consider "e_blk e = e_blk f" | "e_blk e = Suc (e_blk f)"
      using st(2) by auto
    then show ?thesis
    proof cases
      case 1
      then have "in_blk (e_blk e) es \<noteq> []"
        using Cons by (simp add: enc_def)
      then show ?thesis
        using 1 Cons by (simp add: moveBackCursor_def Let_def o1 cb at_top_def top_len_def)
    next
      case 2
      then have emp: "in_blk (e_blk e) es = []"
        using in_blk_next [of es] st(2) Cons by simp
      have fl: "e_blk f < length (blocks l)"
        using log_block(1) [OF ok] 2 by simp
      have "in_blk (e_blk f) (new @ e # es) = in_blk (e_blk f) (e # es)"
        by (rule in_blk_below [OF st(1)]) (use 2 in simp)
      then have "blen (blocks l ! e_blk f) = length (in_blk (e_blk f) es)"
        using log_len(1) [OF ok fl] 2 by simp
      then show ?thesis
        using 2 Cons emp fl by (simp add: moveBackCursor_def Let_def o1 cb at_top_def top_len_def)
    qed
  qed
qed

lemma canModify_newer:
  assumes ok: "log_ok l (new @ e # es)" "cam_room l" and cp: "at_top cp base"
  shows "canModify (Some cp) (top_addr (e # es)) \<longleftrightarrow> pos_less base (e # es)"
proof -
  have "uint (idx (top_addr (e # es))) = int (e_blk e)" "uint (off (top_addr (e # es))) = int (top_len (e # es))"
    using top_addr_unat(1,2) [OF ok] by (simp_all only: uint_nat)
  then show ?thesis
    using cp by (auto simp: canModify_def at_top_def pos_less_def)
qed

lemma canModify_suffix:
  assumes ok: "log_ok l es" "cam_room l" and cp: "at_top cp base" and es: "es = new @ e # older" "es = newer @ base"
  shows "canModify (Some cp) (top_addr (e # older)) \<longleftrightarrow> length base \<le> length older"
proof (cases "length base \<le> length older")
  case True
  then obtain mid where "e # older = mid @ base" "mid \<noteq> []"
    using suffix_split [of newer base new "e # older"] es by fastforce
  moreover have "stacked (e # older)"
    using ok(1) es(1) stacked_appendD unfolding log_ok_def by blast
  ultimately have "pos_less base (e # older)"
    using pos_less_append [of mid base] by metis
  then show ?thesis
    using canModify_newer [OF _ ok(2) cp] ok(1) es(1) True by blast
next
  case False
  then obtain mid where b: "base = mid @ e # older"
    using suffix_split [of new "e # older" newer base] es by fastforce
  then have "stacked (mid @ e # older)"
    using ok(1) es(2) stacked_appendD unfolding log_ok_def by blast
  then have "\<not> pos_less base (e # older)"
    using pos_less_append [of mid "e # older"] b by (cases "mid = []") (auto simp: pos_less_def)
  then show ?thesis
    using canModify_newer [OF _ ok(2) cp] ok(1) es(1) False by blast
qed

section \<open>Cutting back to a position\<close>

lemma truncate_pops:
  assumes ok: "log_ok l (new @ es)" and cp: "at_top cp es" and bs: "es \<noteq> [] \<longrightarrow> 0 < cp_blockSize cp"
  shows "\<exists>l'. cam_truncate cp l = Some l' \<and> log_ok l' es \<and> length (blocks l') \<le> length (blocks l)"
proof -
  have st: "stacked (new @ es)" "stacked es" and nb: "length (blocks l) = n_blocks (new @ es)"
    using ok stacked_appendD by (auto simp: log_ok_def)
  have le: "n_blocks es \<le> length (blocks l)"
    using n_blocks_mono [OF st(1)] nb by simp
  show ?thesis
  proof (cases es)
    case Nil
    then have "cam_truncate cp l = Some (l\<lparr>blocks := [], blockSize := cp_blockSize cp\<rparr>)"
      using cp by (simp add: cam_truncate_def at_top_def)
    then show ?thesis
      using Nil by (auto simp: log_ok_def cam_ok_def)
  next
    case (Cons f es')
    define m where "m = e_blk f"
    have m: "m < length (blocks l)"
      using le Cons by (simp add: m_def)
    define l' where "l' = l\<lparr>blocks := take m (blocks l) @ [(blocks l ! m)\<lparr>blen := top_len es\<rparr>], blockSize := cp_blockSize cp\<rparr>"
    have "take (Suc m) (blocks l) = take m (blocks l) @ [blocks l ! m]"
      by (rule take_Suc_conv_app_nth [OF m])
    moreover have "nat (cp_blocks cp) = Suc m"
      using cp Cons by (simp add: at_top_def m_def)
    moreover have "blocks l \<noteq> []"
      using m by auto
    ultimately have tr: "cam_truncate cp l = Some l'"
      using cp le Cons by (simp add: cam_truncate_def at_top_def m_def [symmetric] l'_def Let_def del: top_len_simps)
    have full: "take (blen (blocks l ! m)) (buf (blocks l ! m)) = in_blk m es @ in_blk m new"
      using ok m by (simp add: log_ok_def in_blk_append)
    have tl: "top_len es = length (in_blk m es)"
      using Cons by (simp add: top_len_def m_def)
    have tle: "top_len es \<le> blen (blocks l ! m)"
      using log_len(1) [OF ok m] by (simp add: tl in_blk_append)
    have "log_ok l' es"
      unfolding log_ok_def
    proof (intro conjI allI impI)
      have bm: "blocks l ! m \<in> set (blocks l)"
        using m by simp
      show "cam_ok l'"
        using ok bs Cons bm tle set_take_subset [of m "blocks l"] unfolding log_ok_def cam_ok_def l'_def by fastforce
      show "length (blocks l') = n_blocks es"
        using Cons m by (simp add: l'_def m_def)
      show "take (blen (blocks l' ! i)) (buf (blocks l' ! i)) = in_blk i es" if "i < length (blocks l')" for i
      proof (cases "i = m")
        case True
        have "take (top_len es) (buf (blocks l ! m)) = take (top_len es) (take (blen (blocks l ! m)) (buf (blocks l ! m)))"
          using tle by (simp add: min_absorb1)
        also have "\<dots> = in_blk m es"
          unfolding full by (simp add: tl)
        finally show ?thesis
          using True m by (simp add: l'_def nth_append)
      next
        case False
        then have i: "i < m"
          using that m by (simp add: l'_def)
        then have "in_blk i (new @ es) = in_blk i es"
          using in_blk_below [OF st(1), of i] Cons by (simp add: m_def)
        then show ?thesis
          using ok i m by (simp add: l'_def nth_append log_ok_def)
      qed
    qed (rule st(2))
    then show ?thesis
      using tr m by (auto simp: l'_def)
  qed
qed

section \<open>The values at a snapshot\<close>

lemma hdr_at_entry:
  assumes "log_ok l (new @ e # es)" and "cam_room l"
  shows "block_buf l (uint (idx (top_addr (e # es)))) = Some (buf (blocks l ! e_blk e))"
    and "hdr_load (drop (unat (off (top_addr (e # es)) - word_of_nat memdbVlogHdrSize)) (buf (blocks l ! e_blk e))) = Some (e_hdr e)"
proof -
  note b = log_block [OF assms(1)] and t = top_addr_unat [OF assms]
  show "block_buf l (uint (idx (top_addr (e # es)))) = Some (buf (blocks l ! e_blk e))"
    using b(1) t(1) by (simp add: block_buf_def uint_nat)
  show "hdr_load (drop (unat (off (top_addr (e # es)) - word_of_nat memdbVlogHdrSize)) (buf (blocks l ! e_blk e))) = Some (e_hdr e)"
    using b(2) t(4) by auto
qed

lemma getSnapshotValue_spec:
  assumes ok: "log_ok l (newer @ base)" "cam_room l" "chained (newer @ base)" and cp: "at_top cp base"
    and suf: "newer @ base = pre @ es"
  shows "getSnapshotValue l cp (vp es n) = Some (lval (if length es \<le> length base then es else base) n)"
  using suf
proof (induction "length es" arbitrary: es pre rule: less_induct)
  case less
  note okes = ok(1) [unfolded less.prems]
  show ?case
  proof (cases "vp es n = nullAddr")
    case True
    then have "lval es n = None"
      using vp_value [OF okes ok(2), of n] by auto
    moreover have "lval base n = None" if "\<not> length es \<le> length base"
    proof -
      have "length base \<le> length es"
        using that by simp
      then obtain mid where "es = mid @ base"
        using suffix_split [OF less.prems] by blast
      moreover have "lval (mid @ base) n = None \<Longrightarrow> lval base n = None" for mid
        by (induction mid) (auto split: if_splits)
      ultimately show ?thesis
        using \<open>lval es n = None\<close> by simp
    qed
    ultimately show ?thesis
      using True by (simp add: getSnapshotValue.simps)
  next
    case False
    then obtain nw e older where sp: "es = nw @ e # older" "e_node e = n" "vp es n = top_addr (e # older)" "\<forall>f \<in> set nw. e_node f \<noteq> n"
      using vp_split by blast
    have lv: "lval (nw' @ e # older) n = Some (e_val e)" if "\<forall>f \<in> set nw'. e_node f \<noteq> n" for nw'
      using that sp(2) by (induction nw') auto
    have oke: "log_ok l ((pre @ nw) @ e # older)"
      using okes sp(1) by simp
    have cm: "canModify (Some cp) (top_addr (e # older)) \<longleftrightarrow> length base \<le> length older"
      by (rule canModify_suffix [OF ok(1,2) cp, of "pre @ nw" _ _ newer]) (use less.prems sp(1) in simp_all)
    show ?thesis
    proof (cases "length base \<le> length older")
      case True
      have ch: "e_old e = vp older n"
        using ok(3) less.prems sp(1,2) chained_appendD [of "pre @ nw" "e # older"] by simp
      have "getSnapshotValue l cp (vp es n) = getSnapshotValue l cp (vp older n)"
        using False True cm hdr_at_entry [OF oke ok(2)] ch by (simp add: getSnapshotValue.simps [of l cp "top_addr (e # older)"] sp(3))
      also have "\<dots> = Some (lval (if length older \<le> length base then older else base) n)"
        by (rule less.hyps [of older "pre @ nw @ [e]"]) (use less.prems sp(1) in simp_all)
      also have "(if length older \<le> length base then older else base) = (if length es \<le> length base then es else base)"
        using True sp(1) suffix_split [of newer base "pre @ nw @ [e]" older] less.prems by auto
      finally show ?thesis .
    next
      case nocm: False
      then have "getSnapshotValue l cp (vp es n) = Some (Some (e_val e))"
        using False cm getValue_entry [OF oke ok(2)] by (simp add: getSnapshotValue.simps [of l cp "top_addr (e # older)"] sp(3))
      moreover have "lval (if length es \<le> length base then es else base) n = Some (e_val e)"
      proof (cases "length es \<le> length base")
        case False
        then have "length base \<le> length es"
          by simp
        then obtain mid where es: "es = mid @ base"
          using suffix_split [OF less.prems] by blast
        then obtain mid' where b: "base = mid' @ e # older"
          using nocm sp(1) suffix_split [of nw "e # older" mid base] by fastforce
        then have "nw = mid @ mid'"
          using es sp(1) by simp
        then show ?thesis
          using False b lv [of mid'] sp(4) by simp
      qed (use lv [of nw] sp in simp)
      ultimately show ?thesis
        by simp
    qed
  qed
qed

end
