(* ===== verification/Memdb_Map.thy ===== *)
theory Memdb_Map
  imports Memdb_Remove Memdb_Log "HOL-Library.Sublist"
begin

text \<open>
  The buffer as a map that can be rolled back: the invariant that ties the tree, the log and the stages
  together, and what every operation does to the map of values and to the stack of saved maps.
\<close>

section \<open>The invariant\<close>

text \<open>The nodes point to their newest entries, and the entries belong to nodes of the tree.\<close>

definition linked_log :: "memdb \<Rightarrow> ptree \<Rightarrow> ent list \<Rightarrow> bool" where
  "linked_log db t es = (chained es \<and> (\<forall>a \<in> set (addrs t). vptr (mem db a) = vp es a) \<and> (\<forall>e \<in> set es. e_node e \<in> set (addrs t)))"

definition node_size :: "memdb \<Rightarrow> ent list \<Rightarrow> addr \<Rightarrow> int" where
  "node_size db es a = int (length (node_key db a)) + (case lval es a of None \<Rightarrow> 0 | Some v \<Rightarrow> int (length v))"

definition buf_ok :: "nat \<Rightarrow> memdb \<Rightarrow> ptree \<Rightarrow> ent list \<Rightarrow> bool" where
  "buf_ok n db t es =
     (rb_tree db t \<and> cam_ok (allocator db) \<and> length (blocks (allocator db)) \<le> n \<and> (\<forall>a \<in> set (addrs t). allocated (allocator db) a) \<and>
      linked_log db t es \<and> (\<forall>a \<in> set (addrs t). length (nkey (mem db a)) = unat (klen (mem db a))) \<and>
      db_count db = int (length (addrs t)) \<and> db_size db = (\<Sum>a \<in> set (addrs t). node_size db es a))"

text \<open>A stage is the position of a stack of entries that the later stages and the log extend.\<close>

definition stages_ok :: "memdbCheckpoint list \<Rightarrow> ent list list \<Rightarrow> ent list \<Rightarrow> bool" where
  "stages_ok sts bases es = (list_all2 (\<lambda>cp b. at_top cp b \<and> (b \<noteq> [] \<longrightarrow> 0 < cp_blockSize cp)) sts bases \<and> sorted_wrt suffix (bases @ [es]))"

definition memdb_inv :: "nat \<Rightarrow> memdb \<Rightarrow> ptree \<Rightarrow> ent list \<Rightarrow> ent list list \<Rightarrow> bool" where
  "memdb_inv n db t es bases =
     (buf_ok n db t es \<and> log_ok (vlog db) es \<and> length (blocks (vlog db)) \<le> n \<and> stages_ok (stages db) bases es \<and> \<not> vlogInvalid db)"

text \<open>The values by key.\<close>

primrec kval :: "(addr \<Rightarrow> bytes) \<Rightarrow> ent list \<Rightarrow> bytes \<rightharpoonup> bytes" where
  "kval f [] = Map.empty"
| "kval f (e # es) = (kval f es)(f (e_node e) \<mapsto> e_val e)"

text \<open>\<open>represents n db m st\<close>: the buffer holds the map \<open>m\<close>, its stages saved the maps \<open>st\<close>, the oldest first.\<close>

definition represents :: "nat \<Rightarrow> memdb \<Rightarrow> (bytes \<rightharpoonup> bytes) \<Rightarrow> (bytes \<rightharpoonup> bytes) list \<Rightarrow> bool" where
  "represents n db m st = (\<exists>t es bases. memdb_inv n db t es bases \<and> m = kval (node_key db) es \<and> st = map (kval (node_key db)) bases)"

lemma representsI: "memdb_inv n db t es bases \<Longrightarrow> kval (node_key db) es = m \<Longrightarrow> map (kval (node_key db)) bases = st \<Longrightarrow> represents n db m st"
  by (auto simp: represents_def)

definition max_blocks :: nat where
  "max_blocks = 4294967295"

lemma kval_cong: "(\<And>e. e \<in> set es \<Longrightarrow> f (e_node e) = g (e_node e)) \<Longrightarrow> kval f es = kval g es"
  by (induction es) auto

lemma kval_lval:
  assumes "inj_on f A" and "\<forall>e \<in> set es. e_node e \<in> A" and "a \<in> A"
  shows "kval f es (f a) = lval es a"
  using assms(2)
proof (induction es)
  case (Cons e es)
  have "e_node e = a" if "f (e_node e) = f a"
    using assms(1,3) Cons.prems that by (simp add: inj_on_eq_iff)
  then show ?case
    using Cons by auto
qed simp

lemma kval_other: "k \<notin> f ` A \<Longrightarrow> \<forall>e \<in> set es. e_node e \<in> A \<Longrightarrow> kval f es k = None"
  by (induction es) auto

lemma rb_tree_inj: "rb_tree db t \<Longrightarrow> inj_on (node_key db) (set (addrs t))"
  by (auto simp: rb_tree_def inj_on_def intro: keys_sorted_inj)

lemma vp_none: "\<forall>e \<in> set es. e_node e \<noteq> a \<Longrightarrow> vp es a = nullAddr \<and> lval es a = None"
  by (induction es) auto

lemma lval_none: "lval es a = None \<longleftrightarrow> (\<forall>e \<in> set es. e_node e \<noteq> a)"
  by (induction es) auto

lemma inv_room: "memdb_inv n db t es bases \<Longrightarrow> n < max_blocks \<Longrightarrow> cam_room (allocator db) \<and> cam_room (vlog db)"
  by (simp add: memdb_inv_def buf_ok_def cam_room_def max_blocks_def)

lemma inv_mono: "memdb_inv n db t es bases \<Longrightarrow> n \<le> n' \<Longrightarrow> memdb_inv n' db t es bases"
  by (auto simp: memdb_inv_def buf_ok_def)

lemma represents_mono: "represents n db m st \<Longrightarrow> n \<le> n' \<Longrightarrow> represents n' db m st"
  unfolding represents_def using inv_mono by blast

section \<open>Changes that touch neither tree nor values\<close>

definition retags :: "memdb \<Rightarrow> memdb \<Rightarrow> bool" where
  "retags db db' = (db' = db\<lparr>mem := mem db', dirty := dirty db'\<rparr> \<and>
     (\<forall>a. same_links (mem db) (mem db') a \<and> vptr (mem db' a) = vptr (mem db a) \<and> klen (mem db' a) = klen (mem db a) \<and>
        nkey (mem db' a) = nkey (mem db a) \<and> isRed (mem db' a) = isRed (mem db a)))"

lemma retags_fields:
  assumes "retags db db'"
  shows "root db' = root db" "allocator db' = allocator db" "vlog db' = vlog db" "db_count db' = db_count db" "db_size db' = db_size db"
    "stages db' = stages db" "vlogInvalid db' = vlogInvalid db" "entrySizeLimit db' = entrySizeLimit db" "bufferSizeLimit db' = bufferSizeLimit db"
  using assms by (cases db; cases db'; simp add: retags_def)+

lemma retags_buf_ok:
  assumes r: "retags db db'" and b: "buf_ok n db t es"
  shows "buf_ok n db' t es" and "node_key db' = node_key db"
proof -
  have each: "same_links (mem db) (mem db') a" "vptr (mem db' a) = vptr (mem db a)" "klen (mem db' a) = klen (mem db a)"
      "nkey (mem db' a) = nkey (mem db a)" "isRed (mem db' a) = isRed (mem db a)" for a
    using r by (auto simp: retags_def)
  show k: "node_key db' = node_key db"
    by (simp add: node_key_def getKey_def each fun_eq_iff)
  have red: "red db' = red db"
    by (simp add: red_def each fun_eq_iff)
  have "shape (mem db') p a u = shape (mem db) p a u" for p a u
    by (rule shape_links(1) [OF each(1)])
  then have "rb_tree db' t"
    using b k red retags_fields(1) [OF r] keys_sorted_cong [of "addrs t" db' db] by (simp add: buf_ok_def rb_tree_def)
  then show "buf_ok n db' t es"
    using b retags_fields [OF r] by (simp add: buf_ok_def linked_log_def each node_size_def k)
qed

lemma retags_inv:
  assumes "retags db db'" and "memdb_inv n db t es bases"
  shows "memdb_inv n db' t es bases" and "node_key db' = node_key db"
  using assms retags_buf_ok retags_fields [OF assms(1)] by (auto simp: memdb_inv_def)

lemma retags_trans: "retags db db' \<Longrightarrow> retags db' db'' \<Longrightarrow> retags db db''"
  by (cases db; cases db'; cases db'') (simp add: retags_def same_links_def)

lemma retags_dirty: "retags db (db\<lparr>dirty := b\<rparr>)"
  by (simp add: retags_def same_links_def)

lemma buf_ok_fields:
  assumes "mem db' = mem db" "root db' = root db" "allocator db' = allocator db" "db_count db' = db_count db" "db_size db' = db_size db"
  shows "buf_ok n db' t es = buf_ok n db t es" and "node_key db' = node_key db"
proof -
  show k: "node_key db' = node_key db"
    by (simp add: node_key_def assms fun_eq_iff)
  have "red db' = red db" "keys_sorted db' as = keys_sorted db as" for as
    by (simp_all add: red_def keys_sorted_def k assms fun_eq_iff)
  then show "buf_ok n db' t es = buf_ok n db t es"
    by (simp add: buf_ok_def rb_tree_def linked_log_def node_size_def k assms)
qed

text \<open>The operations on flags never touch the bit of the colour.\<close>

lemma color_bit: "bit nodeDefCausorBit i \<longleftrightarrow> i = 7"
proof -
  have e: "nodeDefCausorBit = push_bit 7 1"
    by (simp add: nodeDefCausorBit_def)
  show ?thesis
    unfolding e by (simp only: bit_push_bit_iff bit_1_iff) auto
qed

lemma flag_bit:
  "\<not> bit (getKeyFlags n) 7" "\<not> bit f 7 \<Longrightarrow> \<not> bit (applyFlagsOp op f) 7" "\<not> bit f 7 \<Longrightarrow> isRed (setKeyFlags f n) = isRed n"
proof -
  note c = color_bit
  show "\<not> bit (getKeyFlags n) 7"
    by (simp add: getKeyFlags_def nodeFlagsMask_def bit_and_iff bit_not_iff c)
  show "\<not> bit f 7 \<Longrightarrow> \<not> bit (applyFlagsOp op f) 7"
    by (cases op)
      (simp_all add: bit_simps flagPresumeKNE_def flagKeyLocked_def flagKeyLockedValExist_def flagNeedCheckExists_def flagNoNeedCommit_def)
  have red: "isRed m \<longleftrightarrow> bit (flags m) 7" for m
  proof -
    have "flags m AND nodeDefCausorBit = (if bit (flags m) 7 then nodeDefCausorBit else 0)"
      by (rule bit_word_eqI) (auto simp: bit_and_iff c)
    then show ?thesis
      by (simp add: isRed_def nodeDefCausorBit_def)
  qed
  show "\<not> bit f 7 \<Longrightarrow> isRed (setKeyFlags f n) = isRed n"
    by (simp add: red setKeyFlags_def bit_or_iff bit_and_iff bit_not_iff nodeFlagsMask_def c)
qed

lemma applyFlagsOps_bit: "\<not> bit f 7 \<Longrightarrow> \<not> bit (applyFlagsOps f ops) 7"
  by (induction ops arbitrary: f) (simp_all add: applyFlagsOps_def flag_bit)

lemma on_node_retags: "\<not> bit f 7 \<Longrightarrow> retags db (on_node x (setKeyFlags f) db)"
  using flag_bit(3) by (simp add: retags_def on_node_def same_links_def setKeyFlags_def)

lemma set_flags_retags: "retags db (set_flags x ops db)"
proof -
  let ?f = "applyFlagsOps (getKeyFlags (mem db x)) ops"
  have "retags db d \<Longrightarrow> retags db (on_node x (setKeyFlags ?f) d)" for d
    using retags_trans on_node_retags applyFlagsOps_bit flag_bit(1) by blast
  then show ?thesis
    using retags_dirty by (auto simp: set_flags_def Let_def) (auto simp: retags_def same_links_def)
qed

section \<open>Reading\<close>

lemma inv_tree: "memdb_inv n db t es bases \<Longrightarrow> rb_tree db t"
  by (simp add: memdb_inv_def buf_ok_def)

lemma inv_nodes: "memdb_inv n db t es bases \<Longrightarrow> \<forall>e \<in> set es. e_node e \<in> set (addrs t)"
  by (simp add: memdb_inv_def buf_ok_def linked_log_def)

theorem Get_reads_the_map:
  assumes r: "represents n db m st" and n: "n < max_blocks"
  shows "memdb_Get k db = Some (case m k of None \<Rightarrow> Inl ErrNotExist | Some v \<Rightarrow> Inr v)"
proof -
  obtain t es bases where i: "memdb_inv n db t es bases" and m: "m = kval (node_key db) es"
    using r by (auto simp: represents_def)
  note t = inv_tree [OF i] and nodes = inv_nodes [OF i]
  have iv: "\<not> vlogInvalid db" "log_ok (vlog db) es" "cam_room (vlog db)"
    using i inv_room [OF i n] by (auto simp: memdb_inv_def)
  show ?thesis
  proof (cases "k \<in> node_key db ` set (addrs t)")
    case True
    then obtain a where a: "a \<in> set (addrs t)" "k = node_key db a"
      by auto
    have a0: "a \<noteq> nullAddr"
      using a(1) t shape_null by (auto simp: rb_tree_def)
    have "vptr (mem db a) = vp es a"
      using i a(1) by (simp add: memdb_inv_def buf_ok_def linked_log_def)
    moreover have "m k = lval es a"
      using kval_lval [OF rb_tree_inj [OF t] nodes a(1)] m a(2) by simp
    ultimately show ?thesis
      using traverse_found [OF t a(1), of False] a0 iv vp_value [of "vlog db" "[]" es a] by (auto simp: memdb_Get_def a(2))
  next
    case False
    then show ?thesis
      using traverse_missing_read [OF t False] iv(1) kval_other [OF False nodes] m by (simp add: memdb_Get_def)
  qed
qed

section \<open>The node of a key\<close>

definition same_limits :: "memdb \<Rightarrow> memdb \<Rightarrow> bool" where
  "same_limits db db' = (entrySizeLimit db' = entrySizeLimit db \<and> bufferSizeLimit db' = bufferSizeLimit db)"

lemma same_limits_refl [simp]: "same_limits db db"
  by (simp add: same_limits_def)

lemma same_limits_trans: "same_limits db db' \<Longrightarrow> same_limits db' db'' \<Longrightarrow> same_limits db db''"
  by (simp add: same_limits_def)

lemma node_size_sum_insert:
  assumes "z \<notin> set as" and "set bs = insert z (set as)" and "\<And>a. a \<in> set as \<Longrightarrow> f a = g a"
  shows "(\<Sum>a \<in> set bs. f a) = f z + (\<Sum>a \<in> set as. g (a::addr) :: int)"
  using assms by simp

lemma traverse_inv:
  assumes i: "memdb_inv n db t es bases" and n: "n < max_blocks" and k: "length k < 65536"
  shows "\<exists>z db' t'. traverse k True db = Some (z, db') \<and> memdb_inv (Suc n) db' t' es bases \<and> z \<in> set (addrs t') \<and> node_key db' z = k \<and>
    set (addrs t') = insert z (set (addrs t)) \<and> (\<forall>a \<in> set (addrs t). node_key db' a = node_key db a) \<and>
    same_limits db db'"
proof (cases "k \<in> node_key db ` set (addrs t)")
  case True
  then obtain a where a: "a \<in> set (addrs t)" "k = node_key db a"
    by auto
  then show ?thesis
    using traverse_found [OF inv_tree [OF i] a(1), of True] inv_mono [OF i, of "Suc n"]
    by (intro exI [of _ a] exI [of _ db] exI [of _ t]) auto
next
  case False
  note t = inv_tree [OF i] and nodes = inv_nodes [OF i]
  have al: "cam_ok (allocator db)" "cam_room (allocator db)" "\<forall>a \<in> set (addrs t). allocated (allocator db) a"
    using i inv_room [OF i n] by (auto simp: memdb_inv_def buf_ok_def)
  obtain z al db' t' where tr: "traverse k True db = Some (z, db')" "rb_tree db' t'" "set (addrs t') = insert z (set (addrs t))"
      "z \<notin> set (addrs t)" "z \<noteq> nullAddr" and kp: "keeps (grown z al k db) db'"
      and ali: "allocated al z" "cam_ok al" "\<forall>x. allocated (allocator db) x \<longrightarrow> allocated al x"
        "length (blocks al) \<le> Suc (length (blocks (allocator db)))"
    using traverse_inserts [OF t False k al] by blast
  have fields: "allocator db' = al" "vlog db' = vlog db" "stages db' = stages db" "vlogInvalid db' = vlogInvalid db"
      "same_limits db db'" "db_count db' = db_count db + 1" "db_size db' = db_size db + int (length k)"
    using kp by (cases db'; simp add: keeps_def grown_def same_limits_def)+
  have node: "vptr (mem db' a) = vptr (((mem db)(z := newNode k)) a)" "klen (mem db' a) = klen (((mem db)(z := newNode k)) a)"
      "nkey (mem db' a) = nkey (((mem db)(z := newNode k)) a)" for a
    using kp by (simp_all add: keeps_def del: fun_upd_apply)
  have key: "node_key db' a = (if a = z then k else node_key db a)" for a
    using keeps_key [OF kp, of a] k by (simp add: node_key_def)
  have vz: "vp es z = nullAddr" "lval es z = None"
    using vp_none [of es z] nodes tr(4) by auto
  have dist: "distinct (addrs t)" "distinct (addrs t')"
    using t tr(2) keys_sorted_distinct by (auto simp: rb_tree_def)
  have len: "length (addrs t') = Suc (length (addrs t))"
    using dist tr(3,4) by (metis card_insert_disjoint distinct_card List.finite_set)
  have size: "(\<Sum>a \<in> set (addrs t'). node_size db' es a) = int (length k) + (\<Sum>a \<in> set (addrs t). node_size db es a)"
  proof -
    have "(\<Sum>a \<in> set (addrs t'). node_size db' es a) = node_size db' es z + (\<Sum>a \<in> set (addrs t). node_size db es a)"
      by (rule node_size_sum_insert [OF tr(4,3)]) (use tr(4) in \<open>auto simp: node_size_def key\<close>)
    then show ?thesis
      by (simp add: node_size_def key vz)
  qed
  have "buf_ok (Suc n) db' t' es"
    unfolding buf_ok_def
  proof (intro conjI)
    show "linked_log db' t' es"
      using i tr(3,4) nodes by (auto simp: memdb_inv_def buf_ok_def linked_log_def node vz)
    show "\<forall>a \<in> set (addrs t'). length (nkey (mem db' a)) = unat (klen (mem db' a))"
      using i tr(3) k by (auto simp: memdb_inv_def buf_ok_def node newNode_def zeroNode_def Let_def unat_of_nat take_bit_nat_eq_self)
    show "db_size db' = (\<Sum>a \<in> set (addrs t'). node_size db' es a)"
      using i by (simp add: size fields memdb_inv_def buf_ok_def)
  qed (use i tr ali fields len in \<open>auto simp: memdb_inv_def buf_ok_def\<close>)
  then have "memdb_inv (Suc n) db' t' es bases"
    using i fields by (auto simp: memdb_inv_def)
  then show ?thesis
    using tr fields key by (intro exI [of _ z] exI [of _ db'] exI [of _ t']) auto
qed

section \<open>Writing a value\<close>

text \<open>A change of one node's vptr, of the log and of the size.\<close>

lemma buf_ok_value:
  assumes b: "buf_ok n db t es" and x: "x \<in> set (addrs t)"
    and mem: "\<And>a. mem db' a = (if a = x then (mem db x)\<lparr>vptr := p\<rparr> else mem db a)"
    and fields: "root db' = root db" "allocator db' = allocator db" "db_count db' = db_count db"
    and size: "db_size db' = db_size db - node_size db es x + node_size db es' x"
    and log: "chained es'" "\<And>a. vp es' a = (if a = x then p else vp es a)" "\<forall>e \<in> set es'. e_node e \<in> set (addrs t)"
      "\<And>a. a \<noteq> x \<Longrightarrow> lval es' a = lval es a"
  shows "buf_ok n db' t es'" and "node_key db' = node_key db"
proof -
  have links: "same_links (mem db) (mem db') a" for a
    by (simp add: mem same_links_def)
  show k: "node_key db' = node_key db"
    by (simp add: node_key_def getKey_def mem fun_eq_iff)
  have red: "red db' = red db"
    by (simp add: red_def isRed_def mem fun_eq_iff)
  have "shape (mem db') p a u = shape (mem db) p a u" for p a u
    by (rule shape_links(1) [OF links])
  then have tree: "rb_tree db' t"
    using b k red fields(1) keys_sorted_cong [of "addrs t" db' db] by (simp add: buf_ok_def rb_tree_def)
  have ns: "node_size db' es' a = (if a = x then node_size db es' x else node_size db es a)" for a
    using log(4) by (simp add: node_size_def k)
  have sums: "(\<Sum>a \<in> set (addrs t). f a) = f x + (\<Sum>a \<in> set (addrs t) - {x}. f a)" for f :: "addr \<Rightarrow> int"
    using x by (simp add: sum.remove)
  have "(\<Sum>a \<in> set (addrs t). node_size db' es' a) = node_size db es' x + (\<Sum>a \<in> set (addrs t) - {x}. node_size db es a)"
    unfolding sums [of "node_size db' es'"] by (simp add: ns)
  moreover have "db_size db = node_size db es x + (\<Sum>a \<in> set (addrs t) - {x}. node_size db es a)"
    using b sums [of "node_size db es"] by (simp add: buf_ok_def)
  ultimately have "db_size db' = (\<Sum>a \<in> set (addrs t). node_size db' es' a)"
    using size by simp
  then show "buf_ok n db' t es'"
    using b tree fields log by (simp add: buf_ok_def linked_log_def mem)
qed

lemma stages_last:
  assumes "stages_ok sts bases es" and "sts \<noteq> []"
  shows "bases \<noteq> []" and "at_top (last sts) (last bases)" and "suffix (last bases) es" and "\<And>b. b \<in> set bases \<Longrightarrow> suffix b (last bases)"
proof -
  have l: "list_all2 (\<lambda>cp b. at_top cp b \<and> (b \<noteq> [] \<longrightarrow> 0 < cp_blockSize cp)) sts bases" and s: "sorted_wrt suffix (bases @ [es])"
    using assms(1) by (auto simp: stages_ok_def)
  show ne: "bases \<noteq> []"
    using l assms(2) by auto
  obtain bs b where bb: "bases = bs @ [b]"
    using ne by (metis append_butlast_last_id)
  show "at_top (last sts) (last bases)"
    using l assms(2) ne by (metis (no_types, lifting) list_all2_conv_all_nth last_conv_nth diff_less length_greater_0_conv zero_less_one)
  show "suffix (last bases) es" "\<And>b. b \<in> set bases \<Longrightarrow> suffix b (last bases)"
    using s bb by (auto simp: sorted_wrt_append)
qed

lemma stages_ok_log: "stages_ok sts bases es \<Longrightarrow> (bases \<noteq> [] \<Longrightarrow> suffix (last bases) es') \<Longrightarrow> stages_ok sts bases es'"
proof (cases "bases = []")
  case False
  assume s: "stages_ok sts bases es" and "bases \<noteq> [] \<Longrightarrow> suffix (last bases) es'"
  moreover obtain bs b where "bases = bs @ [b]"
    using False by (metis append_butlast_last_id)
  ultimately show ?thesis
    by (auto simp: stages_ok_def sorted_wrt_append intro: suffix_order.trans)
qed (auto simp: stages_ok_def)

lemma kval_push: "kval f (e # es) = (kval f es)(f (e_node e) \<mapsto> e_val e)"
  by simp

lemma kval_revalue:
  assumes "\<forall>g \<in> set new. f (e_node g) \<noteq> f (e_node e)"
  shows "kval f (new @ revalue v e # es) = (kval f (new @ e # es))(f (e_node e) \<mapsto> v)"
  using assms
proof (induction new)
  case (Cons g new)
  then show ?case
    by (auto simp: fun_upd_twist)
qed auto

theorem setValue_inv:
  assumes i: "memdb_inv n db t es bases" and n: "n < max_blocks" and x: "x \<in> set (addrs t)" and v: "length v + 20 \<le> maxBlockSize"
  shows "\<exists>db' es'. setValue x v db = Some db' \<and> memdb_inv (Suc n) db' t es' bases \<and> node_key db' = node_key db \<and>
    kval (node_key db) es' = (kval (node_key db) es)(node_key db x \<mapsto> v) \<and> same_limits db db'"
proof -
  have b: "buf_ok n db t es" and lg: "log_ok (vlog db) es" "length (blocks (vlog db)) \<le> n" and st: "stages_ok (stages db) bases es"
    and iv: "\<not> vlogInvalid db"
    using i by (auto simp: memdb_inv_def)
  have room: "cam_room (vlog db)"
    using inv_room [OF i n] by simp
  have nodes: "\<forall>e \<in> set es. e_node e \<in> set (addrs t)" and ch: "chained es" and vx: "vptr (mem db x) = vp es x"
    using b x by (auto simp: buf_ok_def linked_log_def)
  have x0: "x \<noteq> nullAddr"
    using x b shape_null by (auto simp: buf_ok_def rb_tree_def)
  have inj: "inj_on (node_key db) (set (addrs t))"
    using b rb_tree_inj by (auto simp: buf_ok_def)
  define old where "old = vp es x"
  define oldVal where "oldVal = (case lval es x of None \<Rightarrow> [] | Some w \<Rightarrow> w)"
  have ov: "(if old \<noteq> nullAddr then getValue (vlog db) old else Some []) = Some oldVal"
    using vp_value [of "vlog db" "[]" es x] lg(1) room by (auto simp: old_def oldVal_def)
  define cp where "cp = (if length (stages db) > 0 then Some (last (stages db)) else None)"
  have sv: "setValue x v db =
      (if length oldVal > 0 \<and> canModify cp old \<and> length oldVal = length v
       then Some (db\<lparr>vlog := write_at (unat (idx old)) (unat (off old - word_of_nat memdbVlogHdrSize - word_of_nat (length oldVal))) v (vlog db)\<rparr>)
       else do {
         (a, l) \<leftarrow> appendValue x old v (vlog db);
         Some ((set_vptr x a (db\<lparr>vlog := l\<rparr>))\<lparr>db_size := db_size db - int (length oldVal) + int (length v)\<rparr>)
       })"
    unfolding setValue_def Let_def vx old_def [symmetric] cp_def [symmetric] ov by (simp only: bind.bind_lunit)
  show ?thesis
  proof (cases "length oldVal > 0 \<and> canModify cp old \<and> length oldVal = length v")
    case True
    define db' where "db' = db\<lparr>vlog := write_at (unat (idx old)) (unat (off old - word_of_nat memdbVlogHdrSize - word_of_nat (length oldVal))) v (vlog db)\<rparr>"
    have s: "setValue x v db = Some db'"
      unfolding sv if_P [OF True] db'_def by (rule refl)
    obtain w where w: "lval es x = Some w" "oldVal = w"
      using True by (auto simp: oldVal_def split: option.splits)
    then have "old \<noteq> nullAddr"
      using vp_value [of "vlog db" "[]" es x] lg(1) room by (auto simp: old_def)
    then obtain new e older where sp: "es = new @ e # older" "e_node e = x" "old = top_addr (e # older)" "\<forall>f \<in> set new. e_node f \<noteq> x"
      using vp_split unfolding old_def by blast
    have ev: "e_val e = w"
      using w(1) sp(2,4) unfolding sp(1) by (induction new) auto
    have len: "length v = length (e_val e)"
      using True w(2) ev by simp
    let ?es = "new @ revalue v e # older"
    have ok: "log_ok (vlog db') ?es"
      using write_entry [OF lg(1) [unfolded sp(1)] room len] by (simp add: db'_def sp(3) w(2) ev)
    have suf: "suffix (last bases) ?es" if "bases \<noteq> []"
    proof -
      have ne: "stages db \<noteq> []"
        using that st by (auto simp: stages_ok_def)
      note sl = stages_last [OF st ne]
      obtain newer where nb: "es = newer @ last bases"
        using sl(3) by (auto simp: suffix_def)
      have "canModify (Some (last (stages db))) old"
        using True ne by (simp add: cp_def)
      then have "length (last bases) \<le> length older"
        using canModify_suffix [OF lg(1) room sl(2) sp(1) nb] sp(3) by simp
      then obtain mid where "older = mid @ last bases"
        using suffix_split [of newer "last bases" "new @ [e]" older] nb sp(1) by auto
      then show ?thesis
        by (auto simp: suffix_def)
    qed
    have bl: "length (blocks (vlog db')) = length (blocks (vlog db))"
      by (simp add: db'_def write_at_def)
    have bo: "buf_ok n db' t ?es" and nk: "node_key db' = node_key db"
    proof -
      have lv: "lval ?es a = (if a = x then Some v else lval es a)" for a
        using revalue_lval [of new e v older a] sp by auto
      have c: "\<And>a. mem db' a = (if a = x then (mem db x)\<lparr>vptr := old\<rparr> else mem db a)"
        using vx by (simp add: db'_def old_def)
      have sz: "db_size db' = db_size db - node_size db es x + node_size db ?es x"
        using len ev w(1) by (simp add: node_size_def lv db'_def)
      have vp': "vp ?es a = (if a = x then old else vp es a)" for a
        using revalue_vp [OF len, of new older a] sp(1) by (simp add: old_def)
      have ch': "chained ?es"
        using revalue_chained [OF len, of new older] ch sp(1) by simp
      have nd: "\<forall>g \<in> set ?es. e_node g \<in> set (addrs t)"
        using nodes sp(1) by auto
      show "buf_ok n db' t ?es" "node_key db' = node_key db"
        by (rule buf_ok_value [OF b x c _ _ _ sz ch' vp' nd]; simp add: db'_def lv)+
    qed
    have kv: "kval (node_key db) ?es = (kval (node_key db) es)(node_key db x \<mapsto> v)"
    proof -
      have "node_key db (e_node g) \<noteq> node_key db (e_node e)" if "g \<in> set new" for g
        using that sp nodes x inj by (auto simp: inj_on_eq_iff)
      then show ?thesis
        using kval_revalue [of new "node_key db" e v older] sp by simp
    qed
    have "memdb_inv n db' t ?es bases"
      using bo ok bl lg(2) iv stages_ok_log [OF st suf] by (simp add: memdb_inv_def db'_def)
    then have "memdb_inv (Suc n) db' t ?es bases"
      by (rule inv_mono) simp
    then show ?thesis
      using s nk kv by (intro exI [of _ db'] exI [of _ ?es]) (simp add: db'_def same_limits_def)
  next
    case False
    obtain l' j where ap: "let e = (j, \<lparr>hdr_nodeAddr = x, hdr_oldValue = old, hdr_valueLen = word_of_nat (length v)\<rparr>, v)
        in appendValue x old v (vlog db) = Some (top_addr (e # es), l') \<and> log_ok l' (e # es) \<and> length (blocks l') \<le> Suc (length (blocks (vlog db)))"
      using appendValue_pushes [OF lg(1) room v, of x old] by blast
    define e where "e = (j, \<lparr>hdr_nodeAddr = x, hdr_oldValue = old, hdr_valueLen = word_of_nat (length v)\<rparr>, v)"
    have a: "appendValue x old v (vlog db) = Some (top_addr (e # es), l')" "log_ok l' (e # es)" "length (blocks l') \<le> Suc (length (blocks (vlog db)))"
      using ap by (auto simp: Let_def e_def)
    have en: "e_node e = x" "e_old e = old" "e_val e = v"
      by (simp_all add: e_def)
    define db' where "db' = (set_vptr x (top_addr (e # es)) (db\<lparr>vlog := l'\<rparr>))\<lparr>db_size := db_size db - int (length oldVal) + int (length v)\<rparr>"
    have s: "setValue x v db = Some db'"
      unfolding sv if_not_P [OF False] by (simp add: a(1) db'_def)
    have bo: "buf_ok n db' t (e # es)" and nk: "node_key db' = node_key db"
    proof -
      have c: "\<And>a. mem db' a = (if a = x then (mem db x)\<lparr>vptr := top_addr (e # es)\<rparr> else mem db a)"
        by (simp add: db'_def set_vptr_def on_node_def)
      have sz: "db_size db' = db_size db - node_size db es x + node_size db (e # es) x"
        using en by (simp add: node_size_def db'_def oldVal_def set_vptr_def on_node_def split: option.splits)
      have ch': "chained (e # es)"
        using ch en by (simp add: old_def)
      have vp': "vp (e # es) a = (if a = x then top_addr (e # es) else vp es a)" for a
        using en by simp
      have nd: "\<forall>g \<in> set (e # es). e_node g \<in> set (addrs t)"
        using nodes en x by auto
      show "buf_ok n db' t (e # es)" "node_key db' = node_key db"
        by (rule buf_ok_value [OF b x c _ _ _ sz ch' vp' nd]; simp add: db'_def set_vptr_def on_node_def en)+
    qed
    have suf: "suffix (last bases) (e # es)" if "bases \<noteq> []"
    proof -
      have "stages db \<noteq> []"
        using that st by (auto simp: stages_ok_def)
      then show ?thesis
        using stages_last(3) [OF st] by (simp add: suffix_Cons)
    qed
    have f': "vlog db' = l'" "stages db' = stages db" "vlogInvalid db' = vlogInvalid db" "same_limits db db'"
      by (simp_all add: db'_def set_vptr_def on_node_def same_limits_def)
    have "buf_ok (Suc n) db' t (e # es)"
      using bo by (auto simp: buf_ok_def)
    then have "memdb_inv (Suc n) db' t (e # es) bases"
      using a(2,3) lg(2) iv stages_ok_log [OF st suf] by (simp add: memdb_inv_def f')
    then show ?thesis
      using s nk en f' by (intro exI [of _ db'] exI [of _ "e # es"]) simp
  qed
qed

section \<open>Setting an entry\<close>

lemma stages_nodes: "stages_ok sts bases es \<Longrightarrow> b \<in> set bases \<Longrightarrow> set b \<subseteq> set es"
  by (auto simp: stages_ok_def sorted_wrt_append dest: set_mono_suffix)

text \<open>Keys of nodes that have entries do not change, so the saved maps do not.\<close>

lemma saved_maps:
  assumes "stages_ok sts bases es" and "\<And>e. e \<in> set es \<Longrightarrow> f (e_node e) = g (e_node e)"
  shows "map (kval f) bases = map (kval g) bases"
proof (rule map_cong [OF refl])
  show "kval f b = kval g b" if "b \<in> set bases" for b
    by (rule kval_cong) (use assms(2) stages_nodes [OF assms(1) that] in blast)
qed

definition entry_ok :: "memdb \<Rightarrow> bytes \<Rightarrow> bytes \<Rightarrow> bool" where
  "entry_ok db k v = (length k < 65536 \<and> length k + length v \<le> unat (entrySizeLimit db) \<and> length v + 20 \<le> maxBlockSize)"

lemma set_entry_node:
  assumes r: "represents n db m st" and n: "n < max_blocks" and k: "length k < 65536"
  shows "\<exists>x db1 t es bases. traverse k True (if length (stages db) = 0 then db\<lparr>dirty := True\<rparr> else db) = Some (x, db1) \<and>
    memdb_inv (Suc n) (set_flags x ops db1) t es bases \<and> x \<in> set (addrs t) \<and> node_key (set_flags x ops db1) x = k \<and>
    m = kval (node_key (set_flags x ops db1)) es \<and> st = map (kval (node_key (set_flags x ops db1))) bases \<and>
    same_limits db (set_flags x ops db1)"
proof -
  obtain t es bases where i: "memdb_inv n db t es bases" and m: "m = kval (node_key db) es" "st = map (kval (node_key db)) bases"
    using r by (auto simp: represents_def)
  let ?db = "if length (stages db) = 0 then db\<lparr>dirty := True\<rparr> else db"
  have rt: "retags db ?db"
    using retags_dirty by (auto simp: retags_def same_links_def)
  note i' = retags_inv [OF rt i]
  obtain x db1 t' where t: "traverse k True ?db = Some (x, db1)" "memdb_inv (Suc n) db1 t' es bases" "x \<in> set (addrs t')" "node_key db1 x = k"
      "\<forall>a \<in> set (addrs t). node_key db1 a = node_key db a" "same_limits ?db db1"
    using traverse_inv [OF i'(1) n k] i'(2) by auto
  note f = retags_inv [OF set_flags_retags t(2), of x ops]
  have keys: "node_key db1 (e_node e) = node_key db (e_node e)" if "e \<in> set es" for e
    using that t(5) inv_nodes [OF i] by blast
  have st: "stages_ok (stages db) bases es"
    using i by (simp add: memdb_inv_def)
  have "same_limits db (set_flags x ops db1)"
    using t(6) retags_fields(8,9) [OF set_flags_retags, of x ops db1] by (auto simp: same_limits_def split: if_splits)
  then show ?thesis
    using t(1,3,4) f m kval_cong [of es "node_key db1" "node_key db"] saved_maps [OF st, of "node_key db1" "node_key db"] keys
    by (intro exI [of _ x] exI [of _ db1] exI [of _ t'] exI [of _ es] exI [of _ bases]) auto
qed

theorem set_entry_updates_the_map:
  assumes r: "represents n db m st" and n: "Suc n < max_blocks" and ok: "entry_ok db k v"
  shows "\<exists>db'. set_entry k (Some v) ops db =
      Some (if word_of_int (db_size db') > bufferSizeLimit db then Some (ErrTxnTooLarge (db_size db')) else None, db') \<and>
    represents (n + 2) db' (m(k \<mapsto> v)) st \<and> same_limits db db'"
proof -
  have n': "n < max_blocks" "length k < 65536" "length v + 20 \<le> maxBlockSize"
    using n ok by (auto simp: entry_ok_def)
  obtain x db1 t es bases where x: "traverse k True (if length (stages db) = 0 then db\<lparr>dirty := True\<rparr> else db) = Some (x, db1)"
      and i: "memdb_inv (Suc n) (set_flags x ops db1) t es bases" and xs: "x \<in> set (addrs t)" "node_key (set_flags x ops db1) x = k"
      and ms: "m = kval (node_key (set_flags x ops db1)) es" "st = map (kval (node_key (set_flags x ops db1))) bases"
      and lim: "same_limits db (set_flags x ops db1)"
    using set_entry_node [OF r n'(1,2), of ops] by blast
  obtain db' es' where s: "setValue x v (set_flags x ops db1) = Some db'" "memdb_inv (Suc (Suc n)) db' t es' bases"
      "node_key db' = node_key (set_flags x ops db1)" "kval (node_key (set_flags x ops db1)) es' = m(k \<mapsto> v)"
      "same_limits (set_flags x ops db1) db'"
    using setValue_inv [OF i n xs(1) n'(3)] xs(2) ms(1) by blast
  have "\<not> entry_size k (Some v) > entrySizeLimit db"
  proof -
    have "unat (entrySizeLimit db) < 2 ^ LENGTH(64)"
      by (rule unsigned_less)
    then have "length k + length v < 2 ^ 64"
      using ok by (simp add: entry_ok_def)
    then have "unat (word_of_nat (length k + length v) :: u64) = length k + length v"
      by (simp add: unat_of_nat take_bit_nat_eq_self del: of_nat_add)
    then show ?thesis
      using ok by (simp add: entry_size_def entry_ok_def word_less_nat_alt del: of_nat_add)
  qed
  moreover have "\<not> vlogInvalid db"
    using r by (auto simp: represents_def memdb_inv_def)
  moreover have lim': "same_limits db db'"
    using lim s(5) by (rule same_limits_trans)
  ultimately have "set_entry k (Some v) ops db =
      Some (if word_of_int (db_size db') > bufferSizeLimit db then Some (ErrTxnTooLarge (db_size db')) else None, db')"
    using x s(1) by (simp add: set_entry_def set_node_value_def same_limits_def)
  moreover have "represents (n + 2) db' (m(k \<mapsto> v)) st"
    using representsI [of "n + 2" db' t es' bases] s(2-4) ms(2) by simp
  ultimately show ?thesis
    using lim' by blast
qed

theorem UFIDelateFlags_keeps_the_map:
  assumes r: "represents n db m st" and n: "n < max_blocks" and k: "length k < 65536"
  shows "\<exists>db'. UFIDelateFlags k ops db = Some db' \<and> represents (n + 2) db' m st \<and> same_limits db db'"
proof -
  obtain x db1 t es bases where x: "traverse k True (if length (stages db) = 0 then db\<lparr>dirty := True\<rparr> else db) = Some (x, db1)"
      and i: "memdb_inv (Suc n) (set_flags x ops db1) t es bases"
      and ms: "m = kval (node_key (set_flags x ops db1)) es" "st = map (kval (node_key (set_flags x ops db1))) bases"
      and lim: "same_limits db (set_flags x ops db1)"
    using set_entry_node [OF r n k, of ops] by blast
  have "UFIDelateFlags k ops db = Some (set_flags x ops db1)"
    using x r by (auto simp: UFIDelateFlags_def set_entry_def set_node_value_def represents_def memdb_inv_def)
  then show ?thesis
    using inv_mono [OF i, of "n + 2"] ms lim by (auto simp: represents_def)
qed

end
