(* ===== verification/Memdb_Stage.thy ===== *)
theory Memdb_Stage
  imports Memdb_Map
begin

text \<open>Staging, release and clean-up, and the refinement of the whole buffer by a stack of maps.\<close>

section \<open>Staging and release\<close>

lemma represents_stages: "represents n db m st \<Longrightarrow> length (stages db) = length st"
  by (auto simp: represents_def memdb_inv_def stages_ok_def dest: list_all2_lengthD)

lemma Staging_saves:
  assumes "represents n db m st"
  shows "\<exists>db'. Staging db = (int (length st) + 1, db') \<and> represents n db' m (st @ [m]) \<and> same_limits db db'"
proof -
  obtain t es bases where i: "memdb_inv n db t es bases" and m: "m = kval (node_key db) es" "st = map (kval (node_key db)) bases"
    using assms by (auto simp: represents_def)
  have lg: "log_ok (vlog db) es" and st: "stages_ok (stages db) bases es"
    using i by (auto simp: memdb_inv_def)
  let ?db = "db\<lparr>stages := stages db @ [checkpoint (vlog db)]\<rparr>"
  have "es \<noteq> [] \<longrightarrow> 0 < cp_blockSize (checkpoint (vlog db))"
  proof
    assume "es \<noteq> []"
    then have "blocks (vlog db) \<noteq> []"
      using lg by (cases es) (auto simp: log_ok_def)
    then show "0 < cp_blockSize (checkpoint (vlog db))"
      using lg by (simp add: log_ok_def cam_ok_def checkpoint_def)
  qed
  then have "stages_ok (stages ?db) (bases @ [es]) es"
    using st checkpoint_at_top [OF lg] by (auto simp: stages_ok_def list_all2_appendI sorted_wrt_append)
  then have "memdb_inv n ?db t es (bases @ [es])"
    using i by (simp add: memdb_inv_def buf_ok_fields [of ?db db])
  then have "represents n ?db m (st @ [m])"
    by (rule representsI) (simp_all add: m buf_ok_fields(2) [of ?db db])
  then show ?thesis
    using represents_stages [OF assms] by (intro exI [of _ ?db]) (simp add: Staging_def Let_def same_limits_def)
qed

text \<open>The last stage dropped, with the log as it is.\<close>

lemma drop_stage:
  assumes "memdb_inv n db t es bases" and "bases \<noteq> []" and "db' = db\<lparr>dirty := b, stages := butlast (stages db)\<rparr>"
  shows "memdb_inv n db' t es (butlast bases)" and "node_key db' = node_key db" and "same_limits db db'"
proof -
  show "node_key db' = node_key db"
    using buf_ok_fields(2) [of db' db] by (simp add: assms(3))
  have "stages_ok (butlast (stages db)) (butlast bases) es"
  proof -
    obtain bs b where bb: "bases = bs @ [b]"
      using assms(2) by (metis append_butlast_last_id)
    then obtain ss s where "stages db = ss @ [s]"
      using assms(1) by (auto simp: memdb_inv_def stages_ok_def list_all2_append2 list_all2_Cons2)
    moreover from this have "length ss = length bs"
      using assms(1) bb by (auto simp: memdb_inv_def stages_ok_def dest: list_all2_lengthD)
    ultimately show ?thesis
      using assms(1) bb by (simp add: memdb_inv_def stages_ok_def list_all2_append sorted_wrt_append)
  qed
  then show "memdb_inv n db' t es (butlast bases)"
    using assms(1) buf_ok_fields(1) [of db' db] by (simp add: memdb_inv_def assms(3))
  show "same_limits db db'"
    by (simp add: assms(3) same_limits_def)
qed



lemma Release_drops_the_save:
  assumes r: "represents n db m st" and st: "st \<noteq> []"
  shows "\<exists>db'. Release (int (length st)) db = Some db' \<and> represents n db' m (butlast st) \<and> same_limits db db'"
proof -
  obtain t es bases where i: "memdb_inv n db t es bases" and m: "m = kval (node_key db) es" "st = map (kval (node_key db)) bases"
    using r by (auto simp: represents_def)
  obtain b where e: "Release (int (length st)) db = Some (db\<lparr>dirty := b, stages := butlast (stages db)\<rparr>)"
  proof
    show "Release (int (length st)) db =
        Some (db\<lparr>dirty := (if length st = 1 \<and> \<not> isSamePosition (hd (stages db)) (checkpoint (vlog db)) then True else dirty db),
          stages := butlast (stages db)\<rparr>)"
      using represents_stages [OF r] st by (simp add: Release_def Let_def)
  qed
  have "bases \<noteq> []"
    using st m(2) by simp
  note d = drop_stage [OF i this refl, of b]
  show ?thesis
    using e d(3) representsI [OF d(1)] m by (auto simp: d(2) map_butlast)
qed

section \<open>Undoing the newest entry\<close>

text \<open>The fields of the buffer that the undoing of entries leaves alone.\<close>

definition same_rest :: "memdb \<Rightarrow> memdb \<Rightarrow> bool" where
  "same_rest db db' = (vlog db' = vlog db \<and> stages db' = stages db \<and> vlogInvalid db' = vlogInvalid db \<and> same_limits db db' \<and>
     node_key db' = node_key db)"

lemma same_rest_trans: "same_rest db db' \<Longrightarrow> same_rest db' db'' \<Longrightarrow> same_rest db db''"
  using same_limits_trans by (auto simp: same_rest_def)

lemma buf_ok_deleteNode:
  assumes b: "buf_ok n db t es" and z: "z \<in> set (addrs t)" and none: "lval es z = None"
  shows "\<exists>db' t'. deleteNode z db = Some db' \<and> buf_ok n db' t' es \<and> same_rest db db'"
proof -
  have tree: "rb_tree db t"
    using b by (simp add: buf_ok_def)
  obtain db' t' where d: "deleteNode z db = Some (freeNode z db')" and t': "rb_tree (freeNode z db') t'" "addrs t' = removeAll z (addrs t)"
      and k: "keeps (uncounted z db) db'"
    using deleteNode_removes [OF tree z] by blast
  let ?db = "freeNode z db'"
  have f: "allocator ?db = allocator db" "vlog ?db = vlog db" "stages ?db = stages db" "vlogInvalid ?db = vlogInvalid db" "same_limits db ?db"
      "db_count ?db = db_count db - 1" "db_size ?db = db_size db - uint (klen (mem db z))"
    using k by (cases db'; simp add: keeps_def uncounted_def freeNode_def on_node_def Let_def same_limits_def)+
  have node: "klen (mem ?db a) = klen (mem db a)" "nkey (mem ?db a) = nkey (mem db a)" "a \<noteq> z \<Longrightarrow> vptr (mem ?db a) = vptr (mem db a)" for a
    using k by (simp_all add: keeps_def freeNode_def on_node_def Let_def)
  have key: "node_key ?db = node_key db"
    by (simp add: node_key_def getKey_def node fun_eq_iff)
  have dist: "distinct (addrs t)"
    using tree keys_sorted_distinct by (auto simp: rb_tree_def)
  have set': "set (addrs t') = set (addrs t) - {z}"
    by (simp add: t'(2))
  have len: "length (addrs t) = Suc (length (addrs t'))"
    using z dist length_pos_if_in_set [OF z] by (simp add: t'(2) distinct_remove1_removeAll [symmetric] length_remove1)
  have "node_size db es z = uint (klen (mem db z))"
  proof -
    have "length (node_key db z) = unat (klen (mem db z))"
      using b z by (simp add: buf_ok_def node_key_def getKey_def)
    then show ?thesis
      by (simp add: node_size_def none)
  qed
  moreover have "db_size db = node_size db es z + (\<Sum>a \<in> set (addrs t) - {z}. node_size db es a)"
    using b z by (simp add: buf_ok_def sum.remove)
  ultimately have "db_size ?db = (\<Sum>a \<in> set (addrs t'). node_size ?db es a)"
    by (simp add: f(7) set' node_size_def key)
  moreover have "linked_log ?db t' es"
    using b none by (auto simp: buf_ok_def linked_log_def set' node lval_none)
  moreover have "db_count ?db = int (length (addrs t'))"
    using b len by (simp add: f(6) buf_ok_def)
  ultimately have "buf_ok n ?db t' es"
    using b t'(1) by (auto simp: buf_ok_def f(1) set' node)
  then show ?thesis
    using d f key by (auto simp: same_rest_def)
qed

lemma retags_same_rest: "retags db db' \<Longrightarrow> buf_ok n db t es \<Longrightarrow> same_rest db db'"
  using retags_fields retags_buf_ok(2) by (auto simp: same_rest_def same_limits_def)

text \<open>One turn of the loop of \<open>revertToCheckpoint\<close>, up to the move of the cursor.\<close>

definition undo :: "memdbVlogHdr \<Rightarrow> memdb \<Rightarrow> memdb option" where
  "undo hdr db =
     (let node = hdr_nodeAddr hdr; old = hdr_oldValue hdr;
          db1 = (set_vptr node old db)\<lparr>db_size := db_size db - uint (hdr_valueLen hdr)\<rparr>
      in if old = nullAddr
         then (let keptFlags = getKeyFlags (mem db1 node) AND persistentFlags
               in if keptFlags = 0 then deleteNode node db1
                  else Some ((on_node node (setKeyFlags keptFlags) db1)\<lparr>dirty := True\<rparr>))
         else map_option (\<lambda>v. db1\<lparr>db_size := db_size db1 + int (length v)\<rparr>) (getValue (vlog db1) old))"

lemma undo_inv:
  assumes b: "buf_ok n db t (e # es)" and lg: "log_ok (vlog db) (new @ e # es)" and room: "cam_room (vlog db)"
  shows "\<exists>db' t'. undo (e_hdr e) db = Some db' \<and> buf_ok n db' t' es \<and> same_rest db db'"
proof -
  let ?x = "e_node e"
  have x: "?x \<in> set (addrs t)" and ch: "chained es" "e_old e = vp es ?x" and nodes: "\<forall>g \<in> set es. e_node g \<in> set (addrs t)"
    using b by (auto simp: buf_ok_def linked_log_def)
  have len: "uint (hdr_valueLen (e_hdr e)) = int (length (e_val e))"
    using lg stacked_len [of new e es] by (simp add: log_ok_def)
  have val: "e_old e = nullAddr \<and> lval es ?x = None \<or> e_old e \<noteq> nullAddr \<and> (\<exists>v. lval es ?x = Some v \<and> getValue (vlog db) (e_old e) = Some v)"
    using vp_value [of "vlog db" "new @ [e]" es ?x] lg room ch(2) by simp
  define sz where "sz = (case lval es ?x of None \<Rightarrow> 0 | Some v \<Rightarrow> int (length v))"
  define db1 where "db1 = (set_vptr ?x (e_old e) db)\<lparr>db_size := db_size db - int (length (e_val e)) + sz\<rparr>"
  have b1: "buf_ok n db1 t es" and k1: "node_key db1 = node_key db"
  proof -
    have c: "\<And>a. mem db1 a = (if a = ?x then (mem db ?x)\<lparr>vptr := e_old e\<rparr> else mem db a)"
      by (simp add: db1_def set_vptr_def on_node_def)
    have s: "db_size db1 = db_size db - node_size db (e # es) ?x + node_size db es ?x"
      by (simp add: db1_def node_size_def sz_def)
    have v: "vp es a = (if a = ?x then e_old e else vp (e # es) a)" for a
      using ch(2) by auto
    show "buf_ok n db1 t es" "node_key db1 = node_key db"
      by (rule buf_ok_value [OF b x c _ _ _ s ch(1) v nodes]; simp add: db1_def set_vptr_def on_node_def)+
  qed
  have s1: "same_rest db db1"
    by (simp add: same_rest_def k1) (simp add: db1_def set_vptr_def on_node_def same_limits_def)
  show ?thesis
    using val
  proof
    assume n: "e_old e = nullAddr \<and> lval es ?x = None"
    let ?kept = "getKeyFlags (mem db1 ?x) AND persistentFlags"
    have u: "undo (e_hdr e) db = (if ?kept = 0 then deleteNode ?x db1 else Some ((on_node ?x (setKeyFlags ?kept) db1)\<lparr>dirty := True\<rparr>))"
      using n by (simp add: undo_def Let_def db1_def sz_def len)
    show ?thesis
    proof (cases "?kept = 0")
      case True
      then show ?thesis
        using buf_ok_deleteNode [OF b1 x] n u same_rest_trans [OF s1] by auto
    next
      case False
      have "retags db1 ((on_node ?x (setKeyFlags ?kept) db1)\<lparr>dirty := True\<rparr>)"
        using retags_trans [OF on_node_retags retags_dirty] flag_bit(1) by (simp add: bit_and_iff)
      then show ?thesis
        using False u retags_buf_ok(1) [OF _ b1] retags_same_rest [OF _ b1] same_rest_trans [OF s1] by auto
    qed
  next
    assume o: "e_old e \<noteq> nullAddr \<and> (\<exists>v. lval es ?x = Some v \<and> getValue (vlog db) (e_old e) = Some v)"
    then have "undo (e_hdr e) db = Some db1"
      by (auto simp: undo_def Let_def db1_def sz_def len set_vptr_def on_node_def)
    then show ?thesis
      using b1 s1 by blast
  qed
qed

section \<open>Undoing entries down to a checkpoint\<close>

lemma revert_eq:
  "revertToCheckpoint cp cursor db =
     (if isSamePosition cp cursor then Some db
      else do {
        (hdr, block) \<leftarrow> hdr_below (vlog db) cursor;
        db2 \<leftarrow> undo hdr db;
        cursor' \<leftarrow> moveBackCursor (vlog db2) hdr cursor;
        revertToCheckpoint cp cursor' db2
      })"
  unfolding revertToCheckpoint.simps [of cp cursor db] undo_def Let_def by (rule refl)

theorem revert_undoes:
  assumes "buf_ok n db t (new @ base)" and "log_ok (vlog db) (undone @ new @ base)" and "cam_room (vlog db)"
    and "at_top cp base" and "at_top cursor (new @ base)"
  shows "\<exists>db' t'. revertToCheckpoint cp cursor db = Some db' \<and> buf_ok n db' t' base \<and> same_rest db db'"
  using assms
proof (induction new arbitrary: db t cursor undone)
  case Nil
  then have "isSamePosition cp cursor"
    by (simp add: isSamePosition_def at_top_def)
  then have "revertToCheckpoint cp cursor db = Some db"
    by (simp add: revert_eq)
  then show ?case
    using Nil.prems(1) by (auto simp: same_rest_def)
next
  case (Cons e new)
  have st: "stacked ((e # new) @ base)"
    using Cons.prems(2) stacked_appendD [of undone "(e # new) @ base"] by (simp add: log_ok_def del: stacked.simps)
  have diff: "\<not> isSamePosition cp cursor"
    using same_position [OF Cons.prems(4,5) st] by simp
  have lg: "log_ok (vlog db) (undone @ e # new @ base)" and b: "buf_ok n db t (e # new @ base)" and at: "at_top cursor (e # new @ base)"
    using Cons.prems by simp_all
  obtain db2 t2 where u: "undo (e_hdr e) db = Some db2" "buf_ok n db2 t2 (new @ base)" "same_rest db db2"
    using undo_inv [OF b lg Cons.prems(3)] by blast
  have v2: "vlog db2 = vlog db"
    using u(3) by (simp add: same_rest_def)
  obtain c where c: "moveBackCursor (vlog db2) (e_hdr e) cursor = Some c" "at_top c (new @ base)"
    using moveBackCursor_pops [OF lg at] v2 by auto
  have "\<exists>db' t'. revertToCheckpoint cp c db2 = Some db' \<and> buf_ok n db' t' base \<and> same_rest db2 db'"
    by (rule Cons.IH [OF u(2), of "undone @ [e]"]) (use lg v2 Cons.prems(3,4) c(2) in simp_all)
  then show ?case
    using diff hdr_below_top [OF lg at] u(1,3) c(1) same_rest_trans by (auto simp: revert_eq [of cp cursor])
qed

lemma Cleanup_restores_the_save:
  assumes r: "represents n db m st" and n: "n < max_blocks" and st: "st \<noteq> []"
  shows "\<exists>db'. memdb_Cleanup (int (length st)) db = Some db' \<and> represents n db' (last st) (butlast st) \<and> same_limits db db'"
proof -
  obtain t es bases where i: "memdb_inv n db t es bases" and m: "m = kval (node_key db) es" "st = map (kval (node_key db)) bases"
    using r by (auto simp: represents_def)
  have lg: "log_ok (vlog db) es" "length (blocks (vlog db)) \<le> n" and so: "stages_ok (stages db) bases es" and b: "buf_ok n db t es" and iv: "\<not> vlogInvalid db"
    using i by (auto simp: memdb_inv_def)
  have room: "cam_room (vlog db)"
    using inv_room [OF i n] by simp
  have ne: "stages db \<noteq> []" "bases \<noteq> []"
    using represents_stages [OF r] st m(2) by auto
  note sl = stages_last [OF so ne(1)]
  define cp base where "cp = last (stages db)" and "base = last bases"
  obtain new where es: "es = new @ base"
    using sl(3) by (auto simp: suffix_def base_def)
  have cpb: "base \<noteq> [] \<longrightarrow> 0 < cp_blockSize cp"
    using so ne list_all2_lengthD unfolding stages_ok_def list_all2_conv_all_nth cp_def base_def
    by (metis (no_types, lifting) diff_less last_conv_nth length_greater_0_conv zero_less_one)
  obtain db1 t1 where rv: "revertToCheckpoint cp (checkpoint (vlog db)) db = Some db1" "buf_ok n db1 t1 base" "same_rest db db1"
    using revert_undoes [of n db t new base "[]" cp "checkpoint (vlog db)"] b lg(1) room sl(2) checkpoint_at_top [OF lg(1)]
    by (auto simp: es cp_def base_def)
  have v1: "vlog db1 = vlog db" "stages db1 = stages db" "vlogInvalid db1 = vlogInvalid db" "same_limits db db1" "node_key db1 = node_key db"
    using rv(3) by (auto simp: same_rest_def)
  obtain l where tr: "cam_truncate cp (vlog db1) = Some l" "log_ok l base" "length (blocks l) \<le> length (blocks (vlog db))"
    using truncate_pops [of "vlog db" new base cp] lg(1) sl(2) cpb by (auto simp: es v1(1) cp_def base_def)
  define db2 where "db2 = db1\<lparr>vlog := l\<rparr>"
  have b2: "buf_ok n db2 t1 base" "node_key db2 = node_key db1"
    using rv(2) buf_ok_fields [of db2 db1] by (simp_all add: db2_def)
  have "stages_ok (stages db) bases base"
    by (rule stages_ok_log [OF so]) (simp add: base_def)
  then have i2: "memdb_inv n db2 t1 base bases"
    using b2(1) tr(2,3) lg(2) iv v1 by (simp add: memdb_inv_def db2_def)
  define db3 where "db3 = db2\<lparr>dirty := dirty db2, stages := butlast (stages db2)\<rparr>"
  note d = drop_stage [OF i2 ne(2) db3_def]
  have "memdb_Cleanup (int (length st)) db = Some db3"
    using represents_stages [OF r] st iv rv(1) tr(1) by (simp add: memdb_Cleanup_def cp_def [symmetric] db3_def db2_def Let_def)
  moreover have "represents n db3 (last st) (butlast st)"
    by (rule representsI [OF d(1)]) (use m ne b2(2) v1(5) in \<open>simp_all add: d(2) base_def last_map map_butlast\<close>)
  moreover have "same_limits db db2"
    using v1(4) by (simp add: db2_def same_limits_def)
  ultimately show ?thesis
    using d(3) same_limits_trans by blast
qed

end
