(* ===== verification/Memdb_Theorems.thy ===== *)
theory Memdb_Theorems
  imports Memdb_Stage
begin

text \<open>
  The buffer refines a stack of maps: the abstract machine, the simulation of every operation, and the
  properties that follow for whole runs.
\<close>

section \<open>Simulation with a budget\<close>

primrec run_ops :: "('op \<Rightarrow> 's \<Rightarrow> 's option) \<Rightarrow> 'op list \<Rightarrow> 's \<Rightarrow> 's option" where
  "run_ops step [] s = Some s"
| "run_ops step (op # ops) s = Option.bind (step op s) (run_ops step ops)"

lemma run_ops_append: "run_ops step (ops @ ops') s = Option.bind (run_ops step ops s) (run_ops step ops')"
  by (induction ops arbitrary: s) (auto split: bind_splits)

text \<open>
  A machine \<open>step\<close> simulates \<open>astep\<close> under a relation that carries how much of a bounded resource was used;
  an operation uses at most \<open>cost\<close> of it.
\<close>

locale bounded_simulation =
  fixes step :: "'op \<Rightarrow> 's \<Rightarrow> 's option" and astep :: "'op \<Rightarrow> 'a \<Rightarrow> 'a option"
    and rep :: "nat \<Rightarrow> 's \<Rightarrow> 'a \<Rightarrow> bool" and ok :: "'s \<Rightarrow> 'op \<Rightarrow> bool" and cost :: nat and limit :: nat
  assumes step: "rep n s a \<Longrightarrow> n + cost \<le> limit \<Longrightarrow> ok s op \<Longrightarrow> astep op a = Some a' \<Longrightarrow> \<exists>s'. step op s = Some s' \<and> rep (n + cost) s' a' \<and> ok s' = ok s"
begin

lemma run_refines:
  "rep n s a \<Longrightarrow> n + cost * length ops \<le> limit \<Longrightarrow> \<forall>op \<in> set ops. ok s op \<Longrightarrow> run_ops astep ops a = Some a' \<Longrightarrow>
   \<exists>s'. run_ops step ops s = Some s' \<and> rep (n + cost * length ops) s' a'"
proof (induction ops arbitrary: n s a)
  case (Cons op ops)
  obtain a1 where a1: "astep op a = Some a1" "run_ops astep ops a1 = Some a'"
    using Cons.prems(4) by (auto split: bind_splits)
  obtain s1 where s1: "step op s = Some s1" "rep (n + cost) s1 a1" "ok s1 = ok s"
    using step [OF Cons.prems(1) _ _ a1(1)] Cons.prems(2,3) by auto
  then show ?case
    using Cons.IH [OF s1(2)] Cons.prems(2,3) a1(2) by (auto simp: algebra_simps)
qed simp

end

section \<open>The operations of the buffer and the abstract machine\<close>

datatype buf_op = OpSet bytes bytes "FlagsOp list" | OpDelete bytes | OpFlags bytes "FlagsOp list" | OpStaging | OpRelease | OpCleanup

text \<open>Release and clean-up get the handle of the last stage.\<close>

fun buf_step :: "buf_op \<Rightarrow> memdb \<Rightarrow> memdb option" where
  "buf_step (OpSet k v ops) db = map_option snd (SetWithFlags k v ops db)"
| "buf_step (OpDelete k) db = map_option snd (memdb_Delete k db)"
| "buf_step (OpFlags k ops) db = UFIDelateFlags k ops db"
| "buf_step OpStaging db = Some (snd (Staging db))"
| "buf_step OpRelease db = Release (int (length (stages db))) db"
| "buf_step OpCleanup db = memdb_Cleanup (int (length (stages db))) db"

type_synonym maps = "(bytes \<rightharpoonup> bytes) \<times> (bytes \<rightharpoonup> bytes) list"

text \<open>A deleted key has the empty value, an empty value is refused, and a release or clean-up needs a stage.\<close>

fun map_step :: "buf_op \<Rightarrow> maps \<Rightarrow> maps option" where
  "map_step (OpSet k v ops) (m, st) = Some (if v = [] then m else m(k \<mapsto> v), st)"
| "map_step (OpDelete k) (m, st) = Some (m(k \<mapsto> []), st)"
| "map_step (OpFlags k ops) (m, st) = Some (m, st)"
| "map_step OpStaging (m, st) = Some (m, st @ [m])"
| "map_step OpRelease (m, st) = (if st = [] then None else Some (m, butlast st))"
| "map_step OpCleanup (m, st) = (if st = [] then None else Some (last st, butlast st))"

text \<open>Keys within the sixteen bits of their length, entries within the limit and within a block.\<close>

fun op_fits :: "u64 \<Rightarrow> buf_op \<Rightarrow> bool" where
  "op_fits lim (OpSet k v ops) = (length k < 65536 \<and> length k + length v \<le> unat lim \<and> length v + 20 \<le> maxBlockSize)"
| "op_fits lim (OpDelete k) = (length k < 65536 \<and> length k \<le> unat lim)"
| "op_fits lim (OpFlags k ops) = (length k < 65536)"
| "op_fits lim op = True"

lemma buf_step_simulates:
  assumes r: "represents n db m st" and n: "n + 2 \<le> max_blocks" and ok: "op_fits (entrySizeLimit db) op"
    and a: "map_step op (m, st) = Some (m', st')"
  shows "\<exists>db'. buf_step op db = Some db' \<and> represents (n + 2) db' m' st' \<and> op_fits (entrySizeLimit db') = op_fits (entrySizeLimit db)"
proof -
  have n': "n < max_blocks" "Suc n < max_blocks" "n \<le> n + 2"
    using n by auto
  have fin: ?thesis if "buf_step op db = Some db'" "represents (n + 2) db' m' st'" "same_limits db db'" for db'
    using that by (auto simp: same_limits_def)
  note mono = represents_mono [OF _ n'(3)]
  show ?thesis
  proof (cases op)
    case (OpSet k v ops)
    show ?thesis
    proof (cases "v = []")
      case True
      show ?thesis
        by (rule fin [of db]) (use OpSet a mono [OF r] True in \<open>auto simp: SetWithFlags_def\<close>)
    next
      case False
      have "entry_ok db k v"
        using ok OpSet by (simp add: entry_ok_def)
      then obtain db' err where d: "set_entry k (Some v) ops db = Some (err, db')" "represents (n + 2) db' (m(k \<mapsto> v)) st" "same_limits db db'"
        using set_entry_updates_the_map [OF r n'(2), of k v ops] by blast
      show ?thesis
        by (rule fin [OF _ _ d(3)]) (use d(1,2) False OpSet a in \<open>auto simp: SetWithFlags_def\<close>)
    qed
  next
    case (OpDelete k)
    have "entry_ok db k []"
      using ok OpDelete by (simp add: entry_ok_def maxBlockSize_def)
    then obtain db' err where d: "set_entry k (Some []) [] db = Some (err, db')" "represents (n + 2) db' (m(k \<mapsto> [])) st" "same_limits db db'"
      using set_entry_updates_the_map [OF r n'(2), of k "[]" "[]"] by blast
    show ?thesis
      by (rule fin [OF _ _ d(3)]) (use d(1,2) OpDelete a in \<open>auto simp: memdb_Delete_def tombstone_def\<close>)
  next
    case (OpFlags k ops)
    then obtain db' where d: "UFIDelateFlags k ops db = Some db'" "represents (n + 2) db' m st" "same_limits db db'"
      using UFIDelateFlags_keeps_the_map [OF r n'(1), of k ops] ok by auto
    show ?thesis
      by (rule fin [OF _ _ d(3)]) (use d(1,2) OpFlags a in auto)
  next
    case OpStaging
    obtain db' where d: "Staging db = (int (length st) + 1, db')" "represents n db' m (st @ [m])" "same_limits db db'"
      using Staging_saves [OF r] by blast
    show ?thesis
      by (rule fin [OF _ _ d(3)]) (use d(1) mono [OF d(2)] OpStaging a in auto)
  next
    case OpRelease
    then have ne: "st \<noteq> []" "m' = m" "st' = butlast st"
      using a by (auto split: if_splits)
    obtain db' where d: "Release (int (length st)) db = Some db'" "represents n db' m (butlast st)" "same_limits db db'"
      using Release_drops_the_save [OF r ne(1)] by blast
    show ?thesis
      by (rule fin [OF _ _ d(3)]) (use d(1) mono [OF d(2)] OpRelease ne represents_stages [OF r] in auto)
  next
    case OpCleanup
    then have ne: "st \<noteq> []" "m' = last st" "st' = butlast st"
      using a by (auto split: if_splits)
    obtain db' where d: "memdb_Cleanup (int (length st)) db = Some db'" "represents n db' (last st) (butlast st)" "same_limits db db'"
      using Cleanup_restores_the_save [OF r n'(1) ne(1)] by blast
    show ?thesis
      by (rule fin [OF _ _ d(3)]) (use d(1) mono [OF d(2)] OpCleanup ne represents_stages [OF r] in auto)
  qed
qed

interpretation buffer: bounded_simulation buf_step map_step "\<lambda>n db (m, st). represents n db m st" "\<lambda>db. op_fits (entrySizeLimit db)" 2 max_blocks
proof
  fix n :: nat and s :: memdb and a :: maps and op :: buf_op and a' :: maps
  assume "case a of (m, st) \<Rightarrow> represents n s m st" and "n + 2 \<le> max_blocks" and "op_fits (entrySizeLimit s) op" and "map_step op a = Some a'"
  then show "\<exists>s'. buf_step op s = Some s' \<and> (case a' of (m, st) \<Rightarrow> represents (n + 2) s' m st) \<and>
      op_fits (entrySizeLimit s') = op_fits (entrySizeLimit s)"
    using buf_step_simulates by (cases a; cases a') simp
qed

section \<open>Whole runs\<close>

lemma newMemDB_represents: "represents 0 (newMemDB lim cap test) Map.empty []"
proof -
  have "memdb_inv 0 (newMemDB lim cap test) Tip [] []"
    by (simp add: memdb_inv_def buf_ok_def rb_tree_def linked_log_def stages_ok_def red_def isRed_def)
      (simp add: newMemDB_def fresh_mem_def nullNode_def empty_cam_def cam_ok_def log_ok_def)
  then show ?thesis
    by (rule representsI) simp_all
qed

lemma run_represents:
  assumes "run_ops map_step ops (Map.empty, []) = Some (m, st)" and "\<forall>op \<in> set ops. op_fits lim op" and "2 * length ops < max_blocks"
  shows "\<exists>db. run_ops buf_step ops (newMemDB lim cap test) = Some db \<and> represents (2 * length ops) db m st"
  using buffer.run_refines [of 0 "newMemDB lim cap test" "(Map.empty, [])" ops "(m, st)"] assms newMemDB_represents [of lim cap test]
  by (simp add: newMemDB_def)

text \<open>
  C3. The buffer implements a stack of maps: after any run of sets, deletes, flag changes, stagings, releases
  and clean-ups that a stack of maps allows, with keys shorter than 65536 bytes, entries within the limits
  and fewer than two thousand million operations, the buffer has not panicked and \<open>Get\<close> reads, for every key, the
  value of the map on top, a deleted key as the empty value.
\<close>

theorem buffer_refines_maps:
  assumes "run_ops map_step ops (Map.empty, []) = Some (m, st)" and "\<forall>op \<in> set ops. op_fits lim op" and "2 * length ops < max_blocks"
  shows "\<exists>db. run_ops buf_step ops (newMemDB lim cap test) = Some db \<and>
    (\<forall>k. memdb_Get k db = Some (case m k of None \<Rightarrow> Inl ErrNotExist | Some v \<Rightarrow> Inr v)) \<and> length (stages db) = length st"
  using run_represents [OF assms] Get_reads_the_map [OF _ assms(3)] represents_stages by blast

theorem buffer_refines_maps_witness:
  "\<exists>db. run_ops buf_step [OpSet [1] [7] [], OpStaging, OpSet [1] [8] [], OpDelete [2], OpCleanup] (newMemDB 100 100 False) = Some db \<and>
    memdb_Get [1] db = Some (Inr [7]) \<and> memdb_Get [2] db = Some (Inl ErrNotExist)"
  using buffer_refines_maps [of "[OpSet [1] [7] [], OpStaging, OpSet [1] [8] [], OpDelete [2], OpCleanup]" "[[1] \<mapsto> [7]]" "[]" 100 100 False]
  by (auto simp: maxBlockSize_def max_blocks_def)

text \<open>A body that keeps to its own stages.\<close>

fun own_stages :: "nat \<Rightarrow> buf_op list \<Rightarrow> bool" where
  "own_stages d [] = (d = 0)"
| "own_stages d (OpStaging # ops) = own_stages (Suc d) ops"
| "own_stages d (OpRelease # ops) = (0 < d \<and> own_stages (d - 1) ops)"
| "own_stages d (OpCleanup # ops) = (0 < d \<and> own_stages (d - 1) ops)"
| "own_stages d (op # ops) = own_stages d ops"

lemma own_stages_run: "own_stages (length st') ops \<Longrightarrow> \<exists>m'. run_ops map_step ops (m, st @ st') = Some (m', st)"
proof (induction "length st'" ops arbitrary: m st' rule: own_stages.induct)
  case (2 ops)
  then show ?case
    using "2.hyps"(1) [of "st' @ [m]" m] by simp
next
  case (3 ops)
  then show ?case
    using "3.hyps"(1) [of "butlast st'" m] by (cases st' rule: rev_cases) (auto simp: butlast_append)
next
  case (4 ops)
  then show ?case
    using "4.hyps"(1) [of "butlast st'" "last st'"] by (cases st' rule: rev_cases) (auto simp: butlast_append)
qed auto

text \<open>
  C4. Clean-up undoes everything: a stage is opened, any body runs that opens and closes only stages of its own, and
  the stage is cleaned up; then every key reads as before the stage.
\<close>

theorem Cleanup_rolls_back:
  assumes "run_ops map_step ops (Map.empty, []) = Some (m, st)" and "own_stages 0 body"
    and "\<forall>op \<in> set (ops @ body). op_fits lim op" and "2 * (length ops + length body + 2) < max_blocks"
  shows "\<exists>db db'. run_ops buf_step ops (newMemDB lim cap test) = Some db \<and>
    run_ops buf_step (OpStaging # body @ [OpCleanup]) db = Some db' \<and> (\<forall>k. memdb_Get k db' = memdb_Get k db)"
proof -
  let ?all = "ops @ OpStaging # body @ [OpCleanup]"
  obtain m' where "run_ops map_step body (m, (st @ [m]) @ []) = Some (m', st @ [m])"
    using own_stages_run [of "[]" body m "st @ [m]"] assms(2) by auto
  then have all: "run_ops map_step ?all (Map.empty, []) = Some (m, st)"
    using assms(1) by (simp add: run_ops_append)
  obtain db where db: "run_ops buf_step ops (newMemDB lim cap test) = Some db" "represents (2 * length ops) db m st"
    using run_represents [OF assms(1)] assms(3,4) by fastforce
  obtain db' where db': "run_ops buf_step ?all (newMemDB lim cap test) = Some db'" "represents (2 * length ?all) db' m st"
    using run_represents [OF all, of lim cap test] assms(3,4) by auto
  have "memdb_Get k db' = memdb_Get k db" for k
    using Get_reads_the_map [OF db(2)] Get_reads_the_map [OF db'(2)] assms(4) by simp
  then show ?thesis
    using db(1) db'(1) by (auto simp: run_ops_append)
qed

theorem Cleanup_rolls_back_witness:
  "\<exists>db db'. run_ops buf_step [OpSet [1] [7] []] (newMemDB 100 100 False) = Some db \<and>
    run_ops buf_step (OpStaging # [OpSet [2] [5] [], OpStaging, OpDelete [1], OpRelease] @ [OpCleanup]) db = Some db' \<and>
    memdb_Get [1] db' = memdb_Get [1] db"
  using Cleanup_rolls_back [of "[OpSet [1] [7] []]" "[[1] \<mapsto> [7]]" "[]" "[OpSet [2] [5] [], OpStaging, OpDelete [1], OpRelease]" 100 100 False]
  by (fastforce simp: maxBlockSize_def max_blocks_def)

end
