(* ===== verification/Memdb_More.thy ===== *)
theory Memdb_More
  imports Memdb_Theorems
begin

text \<open>The cost of a search, the counters of the buffer, its flags, and keys that are too long.\<close>

section \<open>The cost of a search\<close>

text \<open>The loop of the search stopped after a number of turns.\<close>

primrec walk_upto :: "nat \<Rightarrow> memdb \<Rightarrow> bytes \<Rightarrow> addr \<Rightarrow> addr \<Rightarrow> (addr \<times> addr) option" where
  "walk_upto 0 db key x y = (if x = nullAddr then Some (x, y) else None)"
| "walk_upto (Suc n) db key x y =
     (if x = nullAddr then Some (x, y)
      else if bytes_Compare key (getKey (mem db x)) < 0 then walk_upto n db key (left (mem db x)) x
      else if bytes_Compare key (getKey (mem db x)) > 0 then walk_upto n db key (right (mem db x)) x
      else Some (x, x))"

lemma walk_upto_height: "shape (mem db) p x t \<Longrightarrow> height t \<le> n \<Longrightarrow> walk_upto n db key x y = walk db key x y"
proof (induction t arbitrary: p x y n)
  case Tip
  then show ?case
    by (cases n) (simp_all add: walk.simps [of db key nullAddr])
next
  case (Br l a r)
  then obtain n' where n: "n = Suc n'" "height l \<le> n'" "height r \<le> n'"
    by (cases n) auto
  have a: "x = a" "a \<noteq> nullAddr" "shape (mem db) a (left (mem db a)) l" "shape (mem db) a (right (mem db a)) r"
    using Br.prems(1) by auto
  show ?case
    using Br.IH(1) [OF a(3) n(2)] Br.IH(2) [OF a(4) n(3)] a(1,2) by (simp add: n(1) walk.simps [of db key a])
qed

lemma rb_tree_height:
  assumes "rb_tree db t" and "length (addrs t) + 1 < 2 ^ f"
  shows "height t \<le> 2 * f"
proof -
  obtain h where h: "rb (red db) t h" "\<not> rootred (red db) t"
    using assms(1) by (auto simp: rb_tree_def)
  have "(2::nat) ^ h < 2 ^ f"
    using rb_size [OF h(1)] assms(2) by linarith
  then show ?thesis
    using rb_height [OF h(1)] h(2) by (simp add: power_strict_increasing_iff)
qed

lemma inv_walk: "rb_tree db t \<Longrightarrow> \<exists>r. walk db k (root db) nullAddr = Some r"
proof (cases "k \<in> node_key db ` set (addrs t)")
  case True
  assume t: "rb_tree db t"
  obtain a where a: "a \<in> set (addrs t)" "k = node_key db a"
    using True by auto
  then show ?thesis
    using walk_found [of db nullAddr "root db" t a nullAddr] t by (auto simp: rb_tree_def)
next
  case False
  assume "rb_tree db t"
  then show ?thesis
    using walk_missing [of db nullAddr "root db" "[]" t k] False by (auto simp: rb_tree_def)
qed

text \<open>
  C22. A search ends within twice the logarithm of the number of keys: in a buffer with fewer than
  \<open>2 ^ f - 1\<close> nodes the loop that walks down the tree ends after at most \<open>2 * f\<close> turns, whatever operations built it.
\<close>

theorem search_is_logarithmic:
  assumes "run_ops map_step ops (Map.empty, []) = Some (m, st)" and "\<forall>op \<in> set ops. op_fits lim op" and "2 * length ops < max_blocks"
  shows "\<exists>db. run_ops buf_step ops (newMemDB lim cap test) = Some db \<and>
    (\<forall>f k. Len db + 1 < 2 ^ f \<longrightarrow> walk_upto (2 * f) db k (root db) nullAddr = walk db k (root db) nullAddr \<and>
      walk db k (root db) nullAddr \<noteq> None)"
proof -
  obtain db where db: "run_ops buf_step ops (newMemDB lim cap test) = Some db" "represents (2 * length ops) db m st"
    using run_represents [OF assms] by blast
  then obtain t es bases where i: "memdb_inv (2 * length ops) db t es bases"
    by (auto simp: represents_def)
  have cnt: "Len db = int (length (addrs t))"
    using i by (simp add: memdb_inv_def buf_ok_def Len_def)
  have "walk_upto (2 * f) db k (root db) nullAddr = walk db k (root db) nullAddr \<and> walk db k (root db) nullAddr \<noteq> None"
    if "Len db + 1 < 2 ^ f" for f k
  proof -
    have "int (length (addrs t) + 1) < int (2 ^ f)"
      using that cnt by simp
    then have "length (addrs t) + 1 < 2 ^ f"
      by (simp only: of_nat_less_iff)
    then show ?thesis
      using walk_upto_height [of db nullAddr "root db" t "2 * f" k] rb_tree_height [OF inv_tree [OF i]] inv_walk [OF inv_tree [OF i], of k] inv_tree [OF i]
      by (auto simp: rb_tree_def)
  qed
  then show ?thesis
    using db(1) by blast
qed

theorem search_is_logarithmic_witness:
  "\<exists>db. run_ops buf_step [OpSet [1] [7] [], OpSet [2] [7] [], OpSet [3] [7] []] (newMemDB 100 100 False) = Some db \<and>
    (Len db + 1 < 2 ^ 3 \<longrightarrow> walk_upto 6 db [3] (root db) nullAddr = walk db [3] (root db) nullAddr)"
proof -
  have "\<exists>db. run_ops buf_step [OpSet [1] [7] [], OpSet [2] [7] [], OpSet [3] [7] []] (newMemDB 100 100 False) = Some db \<and>
    (\<forall>f k. Len db + 1 < 2 ^ f \<longrightarrow> walk_upto (2 * f) db k (root db) nullAddr = walk db k (root db) nullAddr \<and>
      walk db k (root db) nullAddr \<noteq> None)"
    by (rule search_is_logarithmic [of _ "[[1] \<mapsto> [7], [2] \<mapsto> [7], [3] \<mapsto> [7]]" "[]"])
      (auto simp: maxBlockSize_def max_blocks_def)
  then obtain db where db: "run_ops buf_step [OpSet [1] [7] [], OpSet [2] [7] [], OpSet [3] [7] []] (newMemDB 100 100 False) = Some db"
      "\<And>f k. Len db + 1 < 2 ^ f \<Longrightarrow> walk_upto (2 * f) db k (root db) nullAddr = walk db k (root db) nullAddr"
    by blast
  show ?thesis
    using db(1) db(2) [of 3 "[3]"] by auto
qed

section \<open>Flags and counters\<close>

lemma GetFlags_node:
  assumes "rb_tree db t"
  shows "a \<in> set (addrs t) \<Longrightarrow> GetFlags (node_key db a) db = Some (Inr (getKeyFlags (mem db a)))"
    and "k \<notin> node_key db ` set (addrs t) \<Longrightarrow> GetFlags k db = Some (Inl ErrNotExist)"
proof -
  show "GetFlags (node_key db a) db = Some (Inr (getKeyFlags (mem db a)))" if "a \<in> set (addrs t)"
    using traverse_found [OF assms that, of False] assms that shape_null by (auto simp: GetFlags_def rb_tree_def)
  show "GetFlags k db = Some (Inl ErrNotExist)" if "k \<notin> node_key db ` set (addrs t)"
    using traverse_missing_read [OF assms that] by (simp add: GetFlags_def)
qed

text \<open>
  C23. The counters are exact: \<open>Len\<close> is the number of keys that have a node, and \<open>Size\<close> is the sum of the lengths
  of these keys and of their values, through overwriting, roll-backs and removals of nodes. Every key with a value has a node.
\<close>

theorem counters_are_exact:
  assumes "run_ops map_step ops (Map.empty, []) = Some (m, st)" and "\<forall>op \<in> set ops. op_fits lim op" and "2 * length ops < max_blocks"
  shows "\<exists>db ks. run_ops buf_step ops (newMemDB lim cap test) = Some db \<and> sorted_wrt (<) ks \<and> dom m \<subseteq> set ks \<and>
    (\<forall>k. k \<in> set ks \<longleftrightarrow> (\<exists>f. GetFlags k db = Some (Inr f))) \<and>
    Len db = int (length ks) \<and> Size db = (\<Sum>k \<leftarrow> ks. int (length k) + (case m k of None \<Rightarrow> 0 | Some v \<Rightarrow> int (length v)))"
proof -
  obtain db where db: "run_ops buf_step ops (newMemDB lim cap test) = Some db" "represents (2 * length ops) db m st"
    using run_represents [OF assms] by blast
  then obtain t es bases where i: "memdb_inv (2 * length ops) db t es bases" and m: "m = kval (node_key db) es"
    by (auto simp: represents_def)
  note t = inv_tree [OF i] and nodes = inv_nodes [OF i]
  let ?ks = "map (node_key db) (addrs t)"
  have "dom m \<subseteq> set ?ks"
    using kval_other [of _ "node_key db" "set (addrs t)" es] nodes m by fastforce
  moreover have "\<forall>k. k \<in> set ?ks \<longleftrightarrow> (\<exists>f. GetFlags k db = Some (Inr f))"
    using GetFlags_node [OF t] by fastforce
  moreover have "Size db = (\<Sum>k \<leftarrow> ?ks. int (length k) + (case m k of None \<Rightarrow> 0 | Some v \<Rightarrow> int (length v)))"
  proof -
    have "distinct (addrs t)"
      using t keys_sorted_distinct by (auto simp: rb_tree_def)
    then have "Size db = (\<Sum>a \<leftarrow> addrs t. node_size db es a)"
      using i by (simp add: memdb_inv_def buf_ok_def Size_def sum_list_distinct_conv_sum_set)
    also have "\<dots> = (\<Sum>k \<leftarrow> ?ks. int (length k) + (case m k of None \<Rightarrow> 0 | Some v \<Rightarrow> int (length v)))"
      unfolding map_map comp_def
      by (rule arg_cong [where f = sum_list], rule map_cong [OF refl]) (simp add: node_size_def m kval_lval [OF rb_tree_inj [OF t] nodes])
    finally show ?thesis .
  qed
  ultimately show ?thesis
    using db(1) i t by (intro exI [of _ db] exI [of _ ?ks]) (simp add: memdb_inv_def buf_ok_def Len_def rb_tree_def keys_sorted_def)
qed

theorem counters_are_exact_witness:
  "\<exists>db ks. run_ops buf_step [OpSet [1] [7] [], OpStaging, OpSet [2, 3] [8] [SetKeyLocked], OpCleanup] (newMemDB 100 100 False) = Some db \<and>
    dom [[1 :: byte] \<mapsto> [7 :: byte]] \<subseteq> set ks \<and> Len db = int (length ks) \<and>
    Size db = (\<Sum>k \<leftarrow> ks. int (length k) + (case [[1] \<mapsto> [7]] k of None \<Rightarrow> 0 | Some v \<Rightarrow> int (length (v :: bytes))))"
proof -
  have "run_ops map_step [OpSet [1] [7] [], OpStaging, OpSet [2, 3] [8] [SetKeyLocked], OpCleanup] (Map.empty, []) = Some ([[1] \<mapsto> [7]], [])"
    by simp
  then show ?thesis
    using counters_are_exact [of "[OpSet [1] [7] [], OpStaging, OpSet [2, 3] [8] [SetKeyLocked], OpCleanup]" "[[1] \<mapsto> [7]]" "[]" 100 100 False]
    by (fastforce simp: maxBlockSize_def max_blocks_def)
qed

lemma traverse_flags:
  assumes i: "memdb_inv n db t es bases" and n: "n < max_blocks" and k: "length k < 65536"
  shows "\<exists>z db' t'. traverse k True db = Some (z, db') \<and> rb_tree db' t' \<and> z \<in> set (addrs t') \<and> set (addrs t') = insert z (set (addrs t)) \<and>
    node_key db' z = k \<and> (\<forall>a \<in> set (addrs t). node_key db' a = node_key db a \<and> getKeyFlags (mem db' a) = getKeyFlags (mem db a)) \<and>
    (z \<notin> set (addrs t) \<longrightarrow> getKeyFlags (mem db' z) = 0)"
proof (cases "k \<in> node_key db ` set (addrs t)")
  case True
  then obtain a where a: "a \<in> set (addrs t)" "k = node_key db a"
    by auto
  then show ?thesis
    using traverse_found [OF inv_tree [OF i] a(1), of True] inv_tree [OF i] by (intro exI [of _ a] exI [of _ db] exI [of _ t]) auto
next
  case False
  have al: "cam_ok (allocator db)" "cam_room (allocator db)" "\<forall>a \<in> set (addrs t). allocated (allocator db) a"
    using i inv_room [OF i n] by (auto simp: memdb_inv_def buf_ok_def)
  obtain z al db' t' where tr: "traverse k True db = Some (z, db')" "rb_tree db' t'" "set (addrs t') = insert z (set (addrs t))"
      "z \<notin> set (addrs t)" and kp: "keeps (grown z al k db) db'"
    using traverse_inserts [OF inv_tree [OF i] False k al] by blast
  have f: "getKeyFlags (mem db' a) = getKeyFlags (((mem db)(z := newNode k)) a)" for a
    using kp by (simp add: keeps_def del: fun_upd_apply)
  have "node_key db' a = (if a = z then k else node_key db a)" for a
    using keeps_key [OF kp, of a] k by (simp add: node_key_def)
  then show ?thesis
    using tr f by (intro exI [of _ z] exI [of _ db'] exI [of _ t']) auto
qed

lemma getKeyFlags_set: "\<not> bit f 7 \<Longrightarrow> getKeyFlags (setKeyFlags f n) = f"
proof (rule bit_word_eqI)
  fix i
  assume f: "\<not> bit f 7" and i: "i < LENGTH(8)"
  have m: "bit nodeFlagsMask i \<longleftrightarrow> i \<noteq> 7"
    using i by (simp add: nodeFlagsMask_def bit_not_iff color_bit)
  show "bit (getKeyFlags (setKeyFlags f n)) i = bit f i"
    using f i by (auto simp: getKeyFlags_def setKeyFlags_def bit_and_iff bit_or_iff bit_not_iff m)
qed

lemma set_flags_at: "getKeyFlags (mem (set_flags x ops db) a) =
    (if a = x then applyFlagsOps (getKeyFlags (mem db x)) ops else getKeyFlags (mem db a))"
  using getKeyFlags_set [OF applyFlagsOps_bit [OF flag_bit(1)], of "mem db x" ops]
  by (simp add: set_flags_def Let_def on_node_def) (simp add: applyFlagsOps_def)

text \<open>
  A change of flags makes a node for its key if it has none, with no flags, applies the operations in order to
  its flags, and leaves the flags of every other key alone.
\<close>

theorem flags_of_a_key:
  assumes "run_ops map_step ops (Map.empty, []) = Some (m, st)" and "\<forall>op \<in> set ops. op_fits lim op" and "2 * length ops < max_blocks"
    and "length k < 65536"
  shows "\<exists>db db'. run_ops buf_step ops (newMemDB lim cap test) = Some db \<and> UFIDelateFlags k fops db = Some db' \<and>
    GetFlags k db' = Some (Inr (applyFlagsOps (case GetFlags k db of Some (Inr f) \<Rightarrow> f | _ \<Rightarrow> 0) fops)) \<and>
    (\<forall>k'. k' \<noteq> k \<longrightarrow> GetFlags k' db' = GetFlags k' db)"
proof -
  obtain db where db: "run_ops buf_step ops (newMemDB lim cap test) = Some db" "represents (2 * length ops) db m st"
    using run_represents [OF assms(1-3)] by blast
  then obtain t es bases where i0: "memdb_inv (2 * length ops) db t es bases"
    by (auto simp: represents_def)
  let ?db = "if length (stages db) = 0 then db\<lparr>dirty := True\<rparr> else db"
  have rt: "retags db ?db"
    using retags_dirty by (auto simp: retags_def same_links_def)
  note i = retags_inv [OF rt i0]
  have fl: "getKeyFlags (mem ?db a) = getKeyFlags (mem db a)" for a
    by simp
  obtain z db1 t' where tr: "traverse k True ?db = Some (z, db1)" and t': "rb_tree db1 t'" "z \<in> set (addrs t')" "set (addrs t') = insert z (set (addrs t))"
      "node_key db1 z = k" "\<forall>a \<in> set (addrs t). node_key db1 a = node_key db a \<and> getKeyFlags (mem db1 a) = getKeyFlags (mem db a)"
      "z \<notin> set (addrs t) \<longrightarrow> getKeyFlags (mem db1 z) = 0"
    using traverse_flags [OF i(1) assms(3,4)] unfolding fl i(2) by blast
  let ?db2 = "set_flags z fops db1"
  have up: "UFIDelateFlags k fops db = Some ?db2"
    using tr i0 by (auto simp: UFIDelateFlags_def set_entry_def set_node_value_def memdb_inv_def)
  note r2 = set_flags_retags [of db1 z fops]
  have k2: "node_key ?db2 = node_key db1"
    using r2 by (simp add: retags_def node_key_def getKey_def fun_eq_iff)
  have t2: "rb_tree ?db2 t'"
  proof -
    have "red ?db2 = red db1" "shape (mem ?db2) p a u = shape (mem db1) p a u" for p a u
      using r2 by (auto simp: retags_def red_def fun_eq_iff intro!: shape_links(1))
    then show ?thesis
      using t'(1) retags_fields(1) [OF r2] keys_sorted_cong [of "addrs t'" ?db2 db1] k2 by (simp add: rb_tree_def)
  qed
  note g = GetFlags_node [OF inv_tree [OF i0]] and g2 = GetFlags_node [OF t2, unfolded k2]
  have old: "getKeyFlags (mem db1 z) = (case GetFlags k db of Some (Inr f) \<Rightarrow> f | _ \<Rightarrow> 0)"
  proof (cases "z \<in> set (addrs t)")
    case True
    then show ?thesis
      using g(1) [OF True] t'(4,5) by auto
  next
    case False
    have "k \<notin> node_key db ` set (addrs t)"
    proof
      assume "k \<in> node_key db ` set (addrs t)"
      then obtain a where a: "a \<in> set (addrs t)" "node_key db a = k"
        by auto
      then have "a = z"
        using keys_sorted_inj [of db1 "addrs t'" a z] t' by (auto simp: rb_tree_def)
      then show False
        using a(1) False by simp
    qed
    then show ?thesis
      using g(2) t'(6) False by simp
  qed
  have "GetFlags k ?db2 = Some (Inr (applyFlagsOps (case GetFlags k db of Some (Inr f) \<Rightarrow> f | _ \<Rightarrow> 0) fops))"
    using g2(1) [OF t'(2)] t'(4) old by (simp add: set_flags_at)
  moreover have "GetFlags k' ?db2 = GetFlags k' db" if "k' \<noteq> k" for k'
  proof (cases "k' \<in> node_key db ` set (addrs t)")
    case True
    then obtain a where a: "a \<in> set (addrs t)" "k' = node_key db a"
      by auto
    moreover from this have "a \<noteq> z" "node_key db1 a = node_key db a"
      using that t'(4,5) by auto
    ultimately show ?thesis
      using g(1) [OF a(1)] g2(1) [of a] t'(3,5) by (simp add: set_flags_at)
  next
    case False
    moreover from this have "k' \<notin> node_key db1 ` set (addrs t')"
      using that t'(3-5) by (auto simp: image_iff)
    ultimately show ?thesis
      using g(2) g2(2) by simp
  qed
  ultimately show ?thesis
    using db(1) up by blast
qed

theorem flags_of_a_key_witness:
  "\<exists>db db'. run_ops buf_step [OpSet [1] [7] [SetPresumeKeyNotExists]] (newMemDB 100 100 False) = Some db \<and>
    UFIDelateFlags [2] [SetKeyLocked, SetNoNeedCommit, DelKeyLocked] db = Some db' \<and> GetFlags [1] db' = GetFlags [1] db"
  using flags_of_a_key [of "[OpSet [1] [7] [SetPresumeKeyNotExists]]" "[[1] \<mapsto> [7]]" "[]" 100 "[2]" 100 False "[SetKeyLocked, SetNoNeedCommit, DelKeyLocked]"]
  by (fastforce simp: maxBlockSize_def max_blocks_def)

section \<open>Keys that are too long\<close>

text \<open>
  The length of a key is kept in sixteen bits and nothing checks it: a longer key is cut when it is stored, and \<open>Get\<close> does
  not find what \<open>Set\<close> has just stored under it.
\<close>

lemma long_key_is_lost:
  assumes k: "65536 \<le> length k" "length k + 35 \<le> maxBlockSize" and v: "v \<noteq> []" "length v + 20 \<le> maxBlockSize"
    and lim: "length k + length v \<le> unat lim"
  shows "\<exists>err db. memdb_Set k v (newMemDB lim cap test) = Some (err, db) \<and> memdb_Get k db = Some (Inl ErrNotExist)"
proof -
  define db0 where "db0 = (newMemDB lim cap test)\<lparr>dirty := True\<rparr>"
  have f0: "root db0 = nullAddr" "allocator db0 = empty_cam" "vlog db0 = empty_cam" "stages db0 = []" "vlogInvalid db0 = False"
    by (simp_all add: db0_def newMemDB_def)
  obtain z al where al: "alloc (35 + length k) True empty_cam = Some (z, al)" and z: "z \<noteq> nullAddr"
    using alloc_spec [of empty_cam "35 + length k" True] alloc_fresh(2) [of empty_cam "35 + length k"] k(2) by fastforce
  define db1 where "db1 = grown z al k db0"
  define db4 where "db4 = linked z nullAddr False db1"
  define db5 where "db5 = setBlack z db4"
  have "allocNode k db0 = Some (z, db1)"
    using al by (simp add: allocNode_def f0 db1_def grown_def newNode_def Let_def)
  moreover have "insertFix z db4 = Some db4" "root db4 = z"
    using insertFix_stop [of z db4] linked_fields(4) [of nullAddr z False db1] z by (simp_all add: db4_def)
  ultimately have tr: "traverse k True db0 = Some (z, db5)"
    by (simp add: traverse_def f0 walk.simps [of db0 k nullAddr] Let_def db5_def) (simp add: db4_def linked_def)
  have m5: "mem db5 z = paintBlack (paintRed ((newNode k)\<lparr>up := nullAddr, left := nullAddr, right := nullAddr\<rparr>))"
    using linked_fields(1) [of nullAddr z False db1] z by (simp add: db5_def db4_def db1_def setBlack_def on_node_def)
  have f5: "vlog db5 = empty_cam" "stages db5 = []" "vlogInvalid db5 = False" "root db5 = z"
    using \<open>root db4 = z\<close> by (simp_all add: db5_def db4_def db1_def linked_def setBlack_def setRed_def link_defs grown_def f0)
  obtain a l where ap: "appendValue z nullAddr v empty_cam = Some (a, l)"
    using appendValue_pushes [of empty_cam "[]" v z nullAddr] v(2) by (auto simp: Let_def)
  define db6 where "db6 = (set_vptr z a (db5\<lparr>vlog := l\<rparr>))\<lparr>db_size := db_size db5 + int (length v)\<rparr>"
  have "vptr (mem db5 z) = nullAddr"
    by (simp add: m5)
  then have sv: "setValue z v db5 = Some db6"
    using ap by (simp add: setValue_def Let_def f5 db6_def)
  have ov: "\<not> entry_size k (Some v) > lim"
  proof -
    have "unat lim < 2 ^ LENGTH(64)"
      by (rule unsigned_less)
    then have "unat (word_of_nat (length k + length v) :: u64) = length k + length v"
      using lim by (simp add: unat_of_nat take_bit_nat_eq_self del: of_nat_add)
    then show ?thesis
      using lim by (simp add: entry_size_def word_less_nat_alt del: of_nat_add)
  qed
  have set: "\<exists>err. memdb_Set k v (newMemDB lim cap test) = Some (err, db6)"
  proof -
    have "memdb_Set k v (newMemDB lim cap test) = set_node_value z (Some v) (set_flags z [] db5)"
      using v(1) tr ov unfolding memdb_Set_def set_entry_def db0_def by (simp add: newMemDB_def)
    then show ?thesis
      by (simp add: set_flags_def set_node_value_def sv)
  qed
  have key: "getKey (mem db6 z) \<noteq> k"
  proof -
    have "length (getKey (mem db6 z)) \<le> unat (word_of_nat (length k) :: u16)"
      by (simp add: db6_def set_vptr_def on_node_def m5 getKey_def newNode_def)
    also have "\<dots> < 2 ^ LENGTH(16)"
      by (rule unsigned_less)
    finally show ?thesis
      using k(1) by auto
  qed
  have kids: "left (mem db6 z) = nullAddr" "right (mem db6 z) = nullAddr" "root db6 = z" "vlogInvalid db6 = False"
    using f5 by (simp_all add: db6_def set_vptr_def on_node_def m5)
  have "walk db6 k z nullAddr = Some (nullAddr, z)"
    using key z kids by (cases "k < getKey (mem db6 z)") (auto simp: walk.simps [of db6 k z] walk.simps [of db6 k nullAddr] not_less_iff_gr_or_eq)
  then have "memdb_Get k db6 = Some (Inl ErrNotExist)"
    using kids by (simp add: memdb_Get_def traverse_def)
  then show ?thesis
    using set by blast
qed

end
