(* ===== verification/Memdb_Iter_Facts.thy ===== *)
theory Memdb_Iter_Facts
  imports Memdb_More Memdb_Iter
begin

text \<open>
  What the iterators of the buffer visit: the neighbours of a node in the order of the keys, the positions the
  seeks find, and the entries an iteration from a start to its end goes through, for the buffer and for its snapshot.
\<close>

section \<open>Neighbours\<close>

definition first :: "addr list \<Rightarrow> addr" where
  "first as = (case as of [] \<Rightarrow> nullAddr | a # _ \<Rightarrow> a)"

lemma first_simps [simp]: "first [] = nullAddr" "first (a # as) = a"
  by (simp_all add: first_def)

lemma first_append: "first (as @ bs) = (if as = [] then first bs else first as)"
  by (cases as) simp_all

lemma up_from_right_spec:
  "ctx (mem db) (root db) p a c \<Longrightarrow> a \<noteq> nullAddr \<Longrightarrow> distinct (before c @ a # after c) \<Longrightarrow> up_from_right db a p = Some (first (after c))"
proof (induction c arbitrary: p a)
  case Nil
  then show ?case
    by (simp add: up_from_right.simps)
next
  case (Cons f c)
  show ?case
  proof (cases f)
    case (LeftOf b r)
    have "right (mem db b) \<noteq> a"
      using Cons.prems LeftOf shape_mem [of "mem db" b "right (mem db b)" r] by (cases r) auto
    then show ?thesis
      using Cons.prems LeftOf by (simp add: up_from_right.simps [of db a])
  next
    case (RightOf l b)
    then show ?thesis
      using Cons.IH [of "up (mem db b)" b] Cons.prems by (simp add: up_from_right.simps [of db a] Int_Un_distrib)
  qed
qed

lemma up_from_left_spec:
  "ctx (mem db) (root db) p a c \<Longrightarrow> a \<noteq> nullAddr \<Longrightarrow> distinct (before c @ a # after c) \<Longrightarrow> up_from_left db a p = Some (first (rev (before c)))"
proof (induction c arbitrary: p a)
  case Nil
  then show ?case
    by (simp add: up_from_left.simps)
next
  case (Cons f c)
  show ?case
  proof (cases f)
    case (LeftOf b r)
    then show ?thesis
      using Cons.IH [of "up (mem db b)" b] Cons.prems by (simp add: up_from_left.simps [of db a] Int_Un_distrib)
  next
    case (RightOf l b)
    have "left (mem db b) \<noteq> a"
      using Cons.prems RightOf shape_mem [of "mem db" b "left (mem db b)" l] by (cases l) auto
    then show ?thesis
      using Cons.prems RightOf by (simp add: up_from_left.simps [of db a])
  qed
qed

lemma leftmost_first: "shape (mem db) p a t \<Longrightarrow> t \<noteq> Tip \<Longrightarrow> leftmost db a = Some (first (addrs t))"
proof (induction t arbitrary: p a)
  case (Br l b r)
  then show ?case
    using shape_root [of "mem db" b "left (mem db b)" l] by (cases l) (auto simp: leftmost.simps [of db b] first_append)
qed simp

lemma rightmost_first: "shape (mem db) p a t \<Longrightarrow> t \<noteq> Tip \<Longrightarrow> rightmost db a = Some (first (rev (addrs t)))"
proof (induction t arbitrary: p a)
  case (Br l b r)
  then show ?case
    using shape_root [of "mem db" b "right (mem db b)" r] by (cases r) (auto simp: rightmost.simps [of db b] first_append)
qed simp

text \<open>The node before and after an address in the order of the tree.\<close>

lemma neighbours:
  assumes t: "rb_tree db t" and a: "addrs t = xs @ a # ys"
  shows "successor db a = Some (first ys)" and "predecessor db a = Some (first (rev xs))"
proof -
  obtain c l r where c: "t = plug c (Br l a r)"
    using addr_context [of a t] a by auto
  have d: "distinct (addrs t)"
    using t keys_sorted_distinct by (auto simp: rb_tree_def)
  have "(before c @ addrs l) @ a # (addrs r @ after c) = xs @ a # ys"
    using a by (simp add: c addrs_plug)
  moreover have "a \<notin> set (before c @ addrs l)" "a \<notin> set (addrs r @ after c)"
    using d by (simp_all add: c addrs_plug)
  ultimately have "before c @ addrs l = xs \<and> addrs r @ after c = ys"
    by (subst (asm) append_Cons_eq_iff)
  then have xy: "xs = before c @ addrs l" "ys = addrs r @ after c"
    by simp_all
  have sh: "shape (mem db) a (left (mem db a)) l" "shape (mem db) a (right (mem db a)) r" "a \<noteq> nullAddr"
      "ctx (mem db) (root db) (up (mem db a)) a c"
    using t by (auto simp: rb_tree_def c shape_plug)
  have dc: "distinct (before c @ a # after c)"
    using d by (auto simp: c addrs_plug)
  show "successor db a = Some (first ys)"
    using leftmost_first [OF sh(2)] up_from_right_spec [OF sh(4,3) dc] shape_root [OF sh(2)]
    by (cases r) (auto simp: successor_def xy(2) first_append)
  show "predecessor db a = Some (first (rev xs))"
    using rightmost_first [OF sh(1)] up_from_left_spec [OF sh(4,3) dc] shape_root [OF sh(1)]
    by (cases l) (auto simp: predecessor_def xy(1) first_append)
qed

section \<open>Seeking\<close>

lemma to_first_spec: "shape (mem db) p x t \<Longrightarrow> to_first db x y = Some (first (addrs t @ [y]))"
proof (induction t arbitrary: p x y)
  case (Br l b r)
  then show ?case
    by (auto simp: to_first.simps [of db b] first_append)
qed (simp add: to_first.simps)

lemma to_last_spec: "shape (mem db) p x t \<Longrightarrow> to_last db x y = Some (first (rev (addrs t) @ [y]))"
proof (induction t arbitrary: p x y)
  case (Br l b r)
  then show ?case
    by (auto simp: to_last.simps [of db b] first_append)
qed (simp add: to_last.simps)

text \<open>The search of \<open>seek\<close> is the walk of \<open>traverse\<close> with the last comparison.\<close>

definition cmp_at :: "memdb \<Rightarrow> bytes \<Rightarrow> addr \<Rightarrow> int" where
  "cmp_at db k y = (if y = nullAddr then 0 else bytes_Compare k (node_key db y))"

lemma seek_loop_walk:
  "shape (mem db) p x t \<Longrightarrow> walk db k x y = Some (z, q) \<Longrightarrow> seek_loop db k x y (cmp_at db k y) = Some (q, cmp_at db k q)"
proof (induction t arbitrary: p x y)
  case Tip
  then show ?case
    by (simp add: walk.simps seek_loop.simps)
next
  case (Br l b r)
  have x: "x = b" "b \<noteq> nullAddr" "shape (mem db) b (left (mem db b)) l" "shape (mem db) b (right (mem db b)) r"
    using Br.prems(1) by auto
  have c: "cmp_at db k b = bytes_Compare k (getKey (mem db b))"
    by (simp add: cmp_at_def x(2) node_key_def)
  show ?case
    using Br.IH(1) [OF x(3), of b] Br.IH(2) [OF x(4), of b] Br.prems(2) x(1,2) c
    by (auto simp: walk.simps [of db k b] seek_loop.simps [of db k b] Let_def split: if_splits)
qed

lemma takeWhile_split: "\<forall>a \<in> set as. P a \<Longrightarrow> \<forall>b \<in> set bs. \<not> P b \<Longrightarrow> takeWhile P (as @ bs) = as"
  by (cases bs) (simp_all add: takeWhile_append2)

lemma seek_at:
  assumes t: "rb_tree db t" and ab: "addrs t = as @ bs" "\<forall>a \<in> set as. node_key db a < k" "\<forall>b \<in> set bs. \<not> node_key db b < k"
  shows "seek db k i = Some (i\<lparr>curr := if reverse i then first (rev as) else first bs\<rparr>)"
proof -
  have sh: "shape (mem db) nullAddr (root db) t" and ks: "keys_sorted db (addrs t)"
    using t by (auto simp: rb_tree_def)
  have split_eq: "as' = as \<and> bs' = bs" if "addrs t = as' @ bs'" "\<forall>a \<in> set as'. node_key db a < k" "\<forall>b \<in> set bs'. \<not> node_key db b < k" for as' bs'
    using takeWhile_split [of as' "\<lambda>a. node_key db a < k" bs'] takeWhile_split [of as "\<lambda>a. node_key db a < k" bs] that ab by (metis append_same_eq same_append_eq)
  show ?thesis
  proof (cases "k \<in> node_key db ` set (addrs t)")
    case True
    then obtain a where a: "a \<in> set (addrs t)" "k = node_key db a"
      by auto
    then obtain xs ys where xy: "addrs t = xs @ a # ys"
      using split_list by metis
    have "xs = as \<and> a # ys = bs"
      by (rule split_eq) (use ks xy a(2) in \<open>auto simp: keys_sorted_simps\<close>)
    moreover have "seek_loop db k (root db) nullAddr 0 = Some (a, 0)"
      using seek_loop_walk [OF sh walk_found [OF sh ks a(1), of nullAddr]] a(2) by (simp add: cmp_at_def split: if_splits)
    moreover have "a \<noteq> nullAddr"
      using shape_null [OF sh] a(1) by auto
    ultimately show ?thesis
      using neighbours [OF t xy] by (auto simp: seek_def)
  next
    case False
    obtain q c where q: "walk db k (root db) nullAddr = Some (nullAddr, q)" "ctx (mem db) (root db) q nullAddr c" "plug c Tip = t"
        "\<forall>a \<in> set (before c). node_key db a < k" "\<forall>a \<in> set (after c). k < node_key db a"
        "c \<noteq> [] \<longrightarrow> (k < node_key db q \<longleftrightarrow> (\<exists>b s. hd c = LeftOf b s))"
      using walk_missing [of db nullAddr "root db" "[]" t k] sh ks False by auto
    have bc: "before c = as \<and> after c = bs"
      by (rule split_eq) (use q(3,4,5) addrs_plug [of c Tip] in auto)
    have lp: "seek_loop db k (root db) nullAddr 0 = Some (q, cmp_at db k q)"
      using seek_loop_walk [OF sh q(1)] by (simp add: cmp_at_def)
    show ?thesis
    proof (cases c)
      case Nil
      then show ?thesis
        using q(2) bc lp by (auto simp: seek_def cmp_at_def)
    next
      case (Cons f c')
      have q0: "q \<noteq> nullAddr" "q = frame_addr f"
        using ctx_parent [OF q(2)] Cons by auto
      show ?thesis
      proof (cases f)
        case (LeftOf b s)
        then have "k < node_key db q" "addrs t = before c @ q # (addrs s @ after c')"
          using q(6) Cons q0 addrs_plug [of c Tip] q(3) by auto
        note n = neighbours [OF t this(2)]
        then show ?thesis
          using \<open>k < node_key db q\<close> bc LeftOf Cons q0 lp by (auto simp: seek_def cmp_at_def)
      next
        case (RightOf l b)
        then have "node_key db q < k" "addrs t = (before c' @ addrs l) @ q # after c"
          using q(4) Cons q0 addrs_plug [of c Tip] q(3) by auto
        note n = neighbours [OF t this(2)]
        then show ?thesis
          using \<open>node_key db q < k\<close> bc RightOf Cons q0 lp by (auto simp: seek_def cmp_at_def)
      qed
    qed
  qed
qed

section \<open>Moving on\<close>

text \<open>The nodes in the direction of an iterator, and the ones it stops at.\<close>

definition way :: "memdbIterator \<Rightarrow> ptree \<Rightarrow> addr list" where
  "way i t = (if reverse i then rev (addrs t) else addrs t)"

definition shown :: "memdb \<Rightarrow> memdbIterator \<Rightarrow> addr \<Rightarrow> bool" where
  "shown db i a = (includeFlags i \<or> vptr (mem db a) \<noteq> nullAddr)"

lemma way_curr [simp]: "way (i\<lparr>curr := c\<rparr>) = way i" "shown db (i\<lparr>curr := c\<rparr>) = shown db i"
  by (simp_all add: way_def shown_def fun_eq_iff)

lemma set_way: "set (way i t) = set (addrs t)"
  by (simp add: way_def)

lemma filter_split: "filter P ws = ps @ a # as \<Longrightarrow> \<exists>us ys. ws = us @ a # ys \<and> filter P ys = as"
proof (induction ws arbitrary: ps)
  case (Cons w ws)
  show ?case
  proof (cases "ps = [] \<and> P w")
    case True
    then show ?thesis
      using Cons.prems by (intro exI [of _ "[]"] exI [of _ ws]) simp
  next
    case False
    then obtain ps' where "filter P ws = ps' @ a # as"
      using Cons.prems by (auto simp: Cons_eq_append_conv split: if_splits)
    then obtain us ys where "ws = us @ a # ys" "filter P ys = as"
      using Cons.IH by blast
    then show ?thesis
      by (intro exI [of _ "w # us"] exI [of _ ys]) simp
  qed
qed simp

lemma way_step:
  assumes "rb_tree db t" and "way i t = xs @ a # ys"
  shows "(if reverse i then predecessor db a else successor db a) = Some (first ys)"
proof (cases "reverse i")
  case True
  then have "addrs t = rev ys @ a # rev xs"
    using assms(2) by (simp add: way_def rev_swap)
  then show ?thesis
    using neighbours(2) [OF assms(1)] True by simp
next
  case False
  then show ?thesis
    using neighbours(1) [OF assms(1)] assms(2) by (simp add: way_def)
qed

lemma it_Next_goes_on:
  assumes t: "rb_tree db t" and null: "nullAddr \<notin> set (addrs t)"
  shows "way i t = xs @ a # ys \<Longrightarrow> curr i = a \<Longrightarrow> it_Next db i = Some (i\<lparr>curr := first (filter (shown db i) ys)\<rparr>)"
proof (induction ys arbitrary: xs a i)
  case Nil
  then show ?case
    using way_step [OF t Nil(1)] by (auto simp: it_Next.simps [of db i] isFlagsOnly_def Let_def split: if_splits)
next
  case (Cons b ys)
  have "b \<noteq> nullAddr"
    using null set_way [of i t] Cons.prems(1) by auto
  then show ?case
    using way_step [OF t Cons.prems(1)] Cons.IH [of "i\<lparr>curr := b\<rparr>" "xs @ [a]" b] Cons.prems
    by (auto simp: it_Next.simps [of db i] isFlagsOnly_def Let_def shown_def)
qed

text \<open>An iterator is at \<open>as\<close> if it is at the first of those nodes and the others are the ones it still has to show.\<close>

definition at :: "memdb \<Rightarrow> ptree \<Rightarrow> memdbIterator \<Rightarrow> addr list \<Rightarrow> bool" where
  "at db t i as = (curr i = first as \<and> (as \<noteq> [] \<longrightarrow> (\<exists>xs ys. way i t = xs @ hd as # ys \<and> filter (shown db i) ys = tl as)))"

lemma at_filter: "way i t = xs @ ys \<Longrightarrow> at db t (i\<lparr>curr := first (filter (shown db i) ys)\<rparr>) (filter (shown db i) ys)"
proof (cases "filter (shown db i) ys")
  case (Cons a as)
  assume "way i t = xs @ ys"
  moreover obtain us vs where "ys = us @ a # vs" "filter (shown db i) vs = as"
    using filter_split [of "shown db i" ys "[]" a as] Cons by auto
  ultimately show ?thesis
    using Cons by (simp add: at_def) (rule exI [of _ "xs @ us"], rule exI [of _ vs], simp)
qed (simp add: at_def)

lemma at_Next:
  assumes t: "rb_tree db t" and "at db t i (a # as)"
  shows "it_Next db i = Some (i\<lparr>curr := first as\<rparr>)" and "at db t (i\<lparr>curr := first as\<rparr>) as" and "curr i = a" and "a \<in> set (addrs t)"
proof -
  have null: "nullAddr \<notin> set (addrs t)"
    using t shape_null by (auto simp: rb_tree_def)
  obtain us ys where w: "way i t = us @ a # ys" "filter (shown db i) ys = as" and c: "curr i = a"
    using assms(2) by (auto simp: at_def)
  show "it_Next db i = Some (i\<lparr>curr := first as\<rparr>)"
    using it_Next_goes_on [OF t null w(1) c] w(2) by simp
  show "at db t (i\<lparr>curr := first as\<rparr>) as"
    using at_filter [of i t "us @ [a]" ys db] w by simp
  show "curr i = a"
    by (rule c)
  show "a \<in> set (addrs t)"
    using w(1) set_way [of i t] by auto
qed

lemma at_null: "rb_tree db t \<Longrightarrow> at db t i as \<Longrightarrow> curr i = nullAddr \<longleftrightarrow> as = []"
proof (cases as)
  case (Cons a as')
  assume t: "rb_tree db t" and "at db t i as"
  then show ?thesis
    using at_Next(3,4) [OF t, of i a as'] Cons shape_null [of "mem db" nullAddr "root db" t] by (auto simp: rb_tree_def)
qed (simp add: at_def)

text \<open>Where an iterator starts: the nodes whose key is below a bound, the last first, or those at and above it.\<close>

definition starts_at :: "memdb \<Rightarrow> ptree \<Rightarrow> memdbIterator \<Rightarrow> addr list" where
  "starts_at db t i =
     filter (shown db i) (filter (\<lambda>a. if reverse i then (case iend i of None \<Rightarrow> True | Some e \<Rightarrow> e = [] \<or> node_key db a < e)
                                     else start i \<le> node_key db a) (way i t))"

lemma sorted_split:
  assumes "keys_sorted db as"
  shows "as = filter (\<lambda>a. node_key db a < k) as @ filter (\<lambda>a. k \<le> node_key db a) as"
  using assms
proof (induction as)
  case (Cons a as)
  have "filter (\<lambda>b. node_key db b < k) as = []" if "k \<le> node_key db a"
    using Cons.prems that by (auto simp: keys_sorted_Cons filter_empty_conv)
  then show ?case
    using Cons by (auto simp: keys_sorted_Cons not_le not_less)
qed simp

lemma seek_starts:
  assumes t: "rb_tree db t"
  shows "\<exists>xs ys. (if reverse i
              then (case iend i of
                      Some e \<Rightarrow> if length e = 0 then seekToLast db i else seek db e i
                    | None \<Rightarrow> seekToLast db i)
              else if length (start i) = 0 then seekToFirst db i else seek db (start i) i) = Some (i\<lparr>curr := first ys\<rparr>) \<and>
     way i t = xs @ ys \<and> filter (shown db i) ys = starts_at db t i"
proof -
  have sh: "shape (mem db) nullAddr (root db) t" and ks: "keys_sorted db (addrs t)"
    using t by (auto simp: rb_tree_def)
  have sk: "seek db k i = Some (i\<lparr>curr := if reverse i then first (rev (filter (\<lambda>a. node_key db a < k) (addrs t)))
        else first (filter (\<lambda>a. k \<le> node_key db a) (addrs t))\<rparr>)" for k
    by (rule seek_at [OF t sorted_split [OF ks]]) auto
  have "addrs t = [] \<or> first (rev (addrs t) @ [nullAddr]) = first (rev (addrs t))" "addrs t = [] \<or> first (addrs t @ [nullAddr]) = first (addrs t)"
    by (auto simp: first_append)
  then have ends: "seekToLast db i = Some (i\<lparr>curr := first (rev (addrs t))\<rparr>)" "seekToFirst db i = Some (i\<lparr>curr := first (addrs t)\<rparr>)"
    using to_first_spec [OF sh] to_last_spec [OF sh] by (auto simp: seekToLast_def seekToFirst_def)
  show ?thesis
  proof (cases "reverse i")
    case True
    show ?thesis
    proof (cases "iend i = None \<or> iend i = Some []")
      case all: True
      then show ?thesis
        using True ends by (intro exI [of _ "[]"] exI [of _ "way i t"]) (auto simp: starts_at_def way_def)
    next
      case False
      then obtain e where e: "iend i = Some e" "e \<noteq> []"
        by auto
      have "way i t = rev (filter (\<lambda>a. e \<le> node_key db a) (addrs t)) @ rev (filter (\<lambda>a. node_key db a < e) (addrs t))"
        using True sorted_split [OF ks, of e] by (simp add: way_def flip: rev_append)
      then show ?thesis
        using True e sk [of e] by (intro exI conjI) (auto simp: starts_at_def way_def rev_filter)
    qed
  next
    case False
    show ?thesis
    proof (cases "start i = []")
      case True
      then show ?thesis
        using False ends by (intro exI [of _ "[]"] exI [of _ "way i t"]) (auto simp: starts_at_def way_def)
    next
      case ne: False
      have "way i t = filter (\<lambda>a. node_key db a < start i) (addrs t) @ filter (\<lambda>a. start i \<le> node_key db a) (addrs t)"
        using False sorted_split [OF ks, of "start i"] by (simp add: way_def)
      then show ?thesis
        using False ne sk [of "start i"] by (intro exI conjI) (auto simp: starts_at_def way_def)
    qed
  qed
qed

lemma it_init_at:
  assumes t: "rb_tree db t"
  shows "it_init db i = Some (i\<lparr>curr := first (starts_at db t i)\<rparr>) \<and> at db t (i\<lparr>curr := first (starts_at db t i)\<rparr>) (starts_at db t i)"
proof -
  have null: "nullAddr \<notin> set (addrs t)"
    using t shape_null by (auto simp: rb_tree_def)
  obtain xs ys where xy: "way i t = xs @ ys" "filter (shown db i) ys = starts_at db t i"
    and sk: "(if reverse i
              then (case iend i of
                      Some e \<Rightarrow> if length e = 0 then seekToLast db i else seek db e i
                    | None \<Rightarrow> seekToLast db i)
              else if length (start i) = 0 then seekToFirst db i else seek db (start i) i) = Some (i\<lparr>curr := first ys\<rparr>)"
    using seek_starts [OF t] by blast
  have "it_init db i = Some (i\<lparr>curr := first (filter (shown db i) ys)\<rparr>)"
  proof (cases ys)
    case Nil
    then show ?thesis
      using sk by (simp add: it_init_def isFlagsOnly_def)
  next
    case (Cons a as)
    then have "it_Next db (i\<lparr>curr := a\<rparr>) = Some (i\<lparr>curr := first (filter (shown db i) as)\<rparr>)"
      using it_Next_goes_on [OF t null, of "i\<lparr>curr := a\<rparr>" xs a as] xy(1) by simp
    moreover have "a \<noteq> nullAddr"
      using null set_way [of i t] xy(1) Cons by auto
    ultimately show ?thesis
      using sk Cons by (auto simp: it_init_def isFlagsOnly_def shown_def)
  qed
  then show ?thesis
    using at_filter [OF xy(1), of db] xy(2) by simp
qed

section \<open>Whole iterations\<close>

text \<open>The loop of a client: what it reads at every position until the iterator is not valid.\<close>

partial_function (option) visits :: "(memdb \<Rightarrow> memdbIterator \<Rightarrow> 'a) \<Rightarrow> memdb \<Rightarrow> memdbIterator \<Rightarrow> 'a list option" where
  "visits rd db i =
     (if it_Valid db i
      then do { i' \<leftarrow> it_Next db i; r \<leftarrow> visits rd db i'; Some (rd db i # r) }
      else Some [])"

definition entry :: "memdb \<Rightarrow> memdbIterator \<Rightarrow> bytes \<times> bytes option" where
  "entry db i = (it_Key db i, it_Value db i)"

definition flag_entry :: "memdb \<Rightarrow> memdbIterator \<Rightarrow> bytes \<times> KeyFlags \<times> bool" where
  "flag_entry db i = (it_Key db i, it_Flags db i, it_HasValue db i)"

definition in_end :: "memdbIterator \<Rightarrow> bytes \<Rightarrow> bool" where
  "in_end i k = (reverse i \<or> (case iend i of None \<Rightarrow> True | Some e \<Rightarrow> k < e))"

definition entry_at :: "memdb \<Rightarrow> addr \<Rightarrow> bytes \<times> bytes option" where
  "entry_at db a = (node_key db a, getValue (vlog db) (vptr (mem db a)))"

lemma entry_curr: "entry db (i\<lparr>curr := a\<rparr>) = entry_at db a"
  by (simp add: entry_def entry_at_def it_Key_def it_Value_def node_key_def)

lemma in_end_curr [simp]: "in_end (i\<lparr>curr := c\<rparr>) = in_end i"
  by (simp add: in_end_def fun_eq_iff)

lemma at_Valid: "rb_tree db t \<Longrightarrow> at db t i as \<Longrightarrow> it_Valid db i \<longleftrightarrow> as \<noteq> [] \<and> in_end i (node_key db (curr i))"
  using at_null by (auto simp: it_Valid_def in_end_def it_Key_def node_key_def split: option.splits)

lemma visits_at:
  "rb_tree db t \<Longrightarrow> at db t i as \<Longrightarrow>
   visits rd db i = Some (map (\<lambda>a. rd db (i\<lparr>curr := a\<rparr>)) (takeWhile (\<lambda>a. in_end i (node_key db a)) as))"
proof (induction as arbitrary: i)
  case Nil
  then show ?case
    using at_Valid [OF Nil] by (simp add: visits.simps)
next
  case (Cons a as)
  note n = at_Next [OF Cons.prems]
  have "rd db (i\<lparr>curr := a\<rparr>) = rd db i"
    by (simp flip: n(3))
  then show ?case
    using at_Valid [OF Cons.prems] n(1,3) Cons.IH [OF Cons.prems(1) n(2)] by (simp add: visits.simps [of rd db i])
qed

lemma way_sorted: "rb_tree db t \<Longrightarrow> sorted_wrt (if reverse i then (>) else (<)) (map (node_key db) (way i t))"
  by (simp add: rb_tree_def keys_sorted_def way_def sorted_wrt_rev flip: rev_map)

lemma takeWhile_sorted:
  "sorted_wrt (<) (map f as) \<Longrightarrow> takeWhile (\<lambda>a. f a < e) as = filter (\<lambda>a. f a < (e :: 'b :: linorder)) as"
proof (induction as)
  case (Cons a as)
  have "filter (\<lambda>b. f b < e) as = []" if "\<not> f a < e"
    using Cons.prems that by (auto simp: filter_empty_conv)
  then show ?case
    using Cons by auto
qed simp

text \<open>The bounds of an iteration: the lower and upper one forward, the upper one backward.\<close>

definition in_bounds :: "memdbIterator \<Rightarrow> bytes \<Rightarrow> bool" where
  "in_bounds i k =
     (if reverse i then (case iend i of None \<Rightarrow> True | Some e \<Rightarrow> e = [] \<or> k < e)
      else start i \<le> k \<and> (case iend i of None \<Rightarrow> True | Some e \<Rightarrow> k < e))"

lemma takeWhile_in_end:
  assumes "sorted_wrt (if reverse i then (>) else (<)) (map (node_key db) as)"
  shows "takeWhile (\<lambda>a. in_end i (node_key db a)) as = filter (\<lambda>a. in_end i (node_key db a)) as"
proof (cases "reverse i")
  case False
  then show ?thesis
    using assms takeWhile_sorted [of "node_key db" as] by (cases "iend i") (simp_all add: in_end_def)
qed (simp add: in_end_def)

lemma iteration:
  assumes t: "rb_tree db t"
  shows "Option.bind (it_init db i) (visits rd db) =
    Some (map (\<lambda>a. rd db (i\<lparr>curr := a\<rparr>)) (filter (\<lambda>a. in_bounds i (node_key db a)) (filter (shown db i) (way i t))))"
proof -
  have srt: "sorted_wrt (if reverse i then (>) else (<)) (map (node_key db) (starts_at db t i))"
    using way_sorted [OF t, of i] by (simp add: starts_at_def sorted_wrt_map sorted_wrt_filter)
  note at = it_init_at [OF t, of i]
  have "filter (\<lambda>a. in_end i (node_key db a)) (starts_at db t i) = filter (\<lambda>a. in_bounds i (node_key db a)) (filter (shown db i) (way i t))"
    by (auto simp: starts_at_def in_end_def in_bounds_def intro!: filter_cong)
  then show ?thesis
    using visits_at [OF t conjunct2 [OF at]] conjunct1 [OF at] takeWhile_in_end [OF srt] by simp
qed

lemma kval_image:
  assumes inj: "inj_on f A" and nodes: "\<forall>e \<in> set es. e_node e \<in> A"
  shows "(\<lambda>a. (f a, lval es a)) ` {a \<in> A. lval es a \<noteq> None \<and> P (f a)} = {(k, Some v) | k v. kval f es k = Some v \<and> P k}"
proof (intro equalityI subsetI)
  fix x
  assume "x \<in> {(k, Some v) | k v. kval f es k = Some v \<and> P k}"
  then obtain k v where x: "x = (k, Some v)" "kval f es k = Some v" "P k"
    by auto
  then obtain a where a: "a \<in> A" "k = f a"
    using kval_other [OF _ nodes, of k f] by force
  then show "x \<in> (\<lambda>a. (f a, lval es a)) ` {a \<in> A. lval es a \<noteq> None \<and> P (f a)}"
    using x kval_lval [OF inj nodes a(1)] by (intro image_eqI [of _ _ a]) auto
qed (use kval_lval [OF inj nodes] in auto)

lemma shown_values:
  assumes i: "memdb_inv n db t es bases" and n: "n < max_blocks" and nf: "\<not> includeFlags it"
  shows "entry_at db ` {a \<in> set (addrs t). shown db it a \<and> P (node_key db a)} = {(k, Some v) | k v. kval (node_key db) es k = Some v \<and> P k}"
proof -
  have lo: "log_ok (vlog db) es" "cam_room (vlog db)" and vp: "\<And>a. a \<in> set (addrs t) \<Longrightarrow> vptr (mem db a) = vp es a"
    using i inv_room [OF i n] by (auto simp: memdb_inv_def buf_ok_def linked_log_def)
  have "vp es a = nullAddr \<longleftrightarrow> lval es a = None" "lval es a \<noteq> None \<Longrightarrow> getValue (vlog db) (vp es a) = lval es a" for a
    using vp_value [of "vlog db" "[]" es a] lo by auto
  then show ?thesis
    unfolding kval_image [OF rb_tree_inj [OF inv_tree [OF i]] inv_nodes [OF i], symmetric]
    using nf by (intro image_cong) (auto simp: vp shown_def entry_at_def)
qed

lemma iteration_of_the_map:
  assumes "represents n db m st" and n: "n < max_blocks" and nf: "\<not> includeFlags i"
  shows "\<exists>kvs. Option.bind (it_init db i) (visits entry db) = Some kvs \<and> sorted_wrt (if reverse i then (>) else (<)) (map fst kvs) \<and>
    set kvs = {(k, Some v) | k v. m k = Some v \<and> in_bounds i k}"
proof -
  obtain t es bases where i: "memdb_inv n db t es bases" and m: "m = kval (node_key db) es"
    using assms(1) by (auto simp: represents_def)
  note t = inv_tree [OF i]
  let ?as = "filter (\<lambda>a. in_bounds i (node_key db a)) (filter (shown db i) (way i t))"
  have "map fst (map (entry_at db) ?as) = map (node_key db) ?as"
    by (simp add: entry_at_def)
  moreover have "sorted_wrt (if reverse i then (>) else (<)) (map (node_key db) ?as)"
    using way_sorted [OF t, of i] by (simp add: sorted_wrt_map sorted_wrt_filter)
  moreover have "set (map (entry_at db) ?as) = entry_at db ` {a \<in> set (addrs t). shown db i a \<and> in_bounds i (node_key db a)}"
    by (auto simp: set_way)
  ultimately show ?thesis
    unfolding m iteration [OF t, of i] entry_curr shown_values [OF i n nf, of "in_bounds i", symmetric]
    by (intro exI [of _ "map (entry_at db) ?as"]) (simp only: simp_thms option.inject)
qed

section \<open>Snapshots\<close>

definition snapshot_map :: "maps \<Rightarrow> bytes \<rightharpoonup> bytes" where
  "snapshot_map = (\<lambda>(m, st). if st = [] then m else hd st)"

text \<open>The entries the snapshot sees.\<close>

definition snapshot_log :: "ent list \<Rightarrow> ent list list \<Rightarrow> ent list" where
  "snapshot_log es bases = (if bases = [] then es else hd bases)"

lemma snapshot_values:
  assumes i: "memdb_inv n db t es bases" and n: "n < max_blocks" and a: "a \<in> set (addrs t)"
  shows "getSnapshotValue (vlog db) (getSnapshot db) (vptr (mem db a)) = Some (lval (snapshot_log es bases) a)"
    and "lval (snapshot_log es bases) a \<noteq> None \<Longrightarrow> vptr (mem db a) \<noteq> nullAddr"
    and "kval (node_key db) (snapshot_log es bases) (node_key db a) = lval (snapshot_log es bases) a"
proof -
  let ?b = "snapshot_log es bases"
  have st: "stages_ok (stages db) bases es" and lo: "log_ok (vlog db) es" "cam_room (vlog db)" "chained es" and vp: "vptr (mem db a) = vp es a"
    using i inv_room [OF i n] a by (auto simp: memdb_inv_def buf_ok_def linked_log_def)
  have "at_top (getSnapshot db) ?b \<and> suffix ?b es"
  proof (cases bases)
    case Nil
    then show ?thesis
      using st checkpoint_at_top [OF lo(1)] by (simp add: stages_ok_def getSnapshot_def snapshot_log_def)
  next
    case (Cons b bs)
    then show ?thesis
      using st by (auto simp: stages_ok_def getSnapshot_def snapshot_log_def list_all2_Cons2)
  qed
  then obtain newer where b: "at_top (getSnapshot db) ?b" "es = newer @ ?b"
    by (auto simp: suffix_def)
  have whole: "(if length es \<le> length ?b then es else ?b) = ?b"
    using arg_cong [OF b(2), of length] b(2) by (cases newer) auto
  show "getSnapshotValue (vlog db) (getSnapshot db) (vptr (mem db a)) = Some (lval ?b a)"
    using getSnapshotValue_spec [of "vlog db" newer ?b "getSnapshot db" "[]" es a] lo b unfolding vp whole by simp
  have "lval (newer @ ?b) a = None \<Longrightarrow> lval ?b a = None"
    by (simp add: lval_none)
  then show "lval ?b a \<noteq> None \<Longrightarrow> vptr (mem db a) \<noteq> nullAddr"
    using vp_value [of "vlog db" "[]" es a] lo b(2) unfolding vp by auto
  have "\<forall>e \<in> set ?b. e_node e \<in> set (addrs t)"
    using inv_nodes [OF i] b(2) by (metis Un_iff set_append)
  then show "kval (node_key db) ?b (node_key db a) = lval ?b a"
    by (rule kval_lval [OF rb_tree_inj [OF inv_tree [OF i]] _ a])
qed

lemma snapshot_log_nodes: "memdb_inv n db t es bases \<Longrightarrow> \<forall>e \<in> set (snapshot_log es bases). e_node e \<in> set (addrs t)"
  using inv_nodes [of n db t es bases] by (cases bases) (auto simp: snapshot_log_def memdb_inv_def stages_ok_def suffix_def)

lemma snapshot_log_map:
  "kval (node_key db) (snapshot_log es bases) = snapshot_map (kval (node_key db) es, map (kval (node_key db)) bases)"
  by (cases bases) (simp_all add: snapshot_log_def snapshot_map_def)

lemma snap_Get_reads:
  assumes "represents n db m st" and n: "n < max_blocks"
  shows "snap_Get (SnapshotGetter db) k db = Some (case snapshot_map (m, st) k of None \<Rightarrow> Inl ErrNotExist | Some v \<Rightarrow> Inr v)"
proof -
  obtain t es bases where i: "memdb_inv n db t es bases" and m: "m = kval (node_key db) es" "st = map (kval (node_key db)) bases"
    using assms(1) by (auto simp: represents_def)
  note t = inv_tree [OF i] and sm = snapshot_log_map [of db es bases, folded m]
  show ?thesis
  proof (cases "k \<in> node_key db ` set (addrs t)")
    case True
    then obtain a where a: "a \<in> set (addrs t)" "k = node_key db a"
      by auto
    have "a \<noteq> nullAddr"
      using a(1) t shape_null by (auto simp: rb_tree_def)
    then show ?thesis
      using traverse_found [OF t a(1), of False] snapshot_values [OF i n a(1)] sm
      by (auto simp: snap_Get_def SnapshotGetter_def a(2) split: option.splits)
  next
    case False
    have "snapshot_map (m, st) k = None"
      using kval_other [OF False snapshot_log_nodes [OF i]] sm by simp
    then show ?thesis
      using traverse_missing_read [OF t False] by (simp add: snap_Get_def)
  qed
qed

text \<open>The loop of a client of a snapshot's iterator.\<close>

partial_function (option) snap_visits :: "memdb \<Rightarrow> memdbSnapIter \<Rightarrow> (bytes \<times> bytes option) list option" where
  "snap_visits db i =
     (if it_Valid db (snap_it i)
      then do { i' \<leftarrow> snap_Next db i; r \<leftarrow> snap_visits db i'; Some ((it_Key db (snap_it i), snap_value i) # r) }
      else Some [])"

text \<open>Settling on the current node or the next one with a value in the snapshot.\<close>

definition settle :: "memdb \<Rightarrow> memdbSnapIter \<Rightarrow> memdbSnapIter option" where
  "settle db i = do { (ok, i') \<leftarrow> snap_setValue db i; if ok then Some i' else snap_loop db i' }"

lemma snap_loop_settles: "it_Valid db (snap_it i) \<Longrightarrow> snap_loop db i = Option.bind (it_Next db (snap_it i)) (\<lambda>it. settle db (i\<lparr>snap_it := it\<rparr>))"
  by (simp add: snap_loop.simps [of db i] settle_def)

lemma settle_invalid: "\<not> it_Valid db (snap_it i) \<Longrightarrow> settle db i = Some i"
  by (simp add: settle_def snap_setValue_def snap_loop.simps)

lemma snap_visits_at:
  assumes t: "rb_tree db t" and v: "\<And>a. a \<in> set (addrs t) \<Longrightarrow> getSnapshotValue (vlog db) cp (vptr (mem db a)) = Some (val a)"
  shows "at db t (snap_it i) as \<Longrightarrow> snap_cp i = cp \<Longrightarrow>
    Option.bind (settle db i) (snap_visits db) =
    Some (map (\<lambda>a. (node_key db a, val a)) (filter (\<lambda>a. val a \<noteq> None) (takeWhile (\<lambda>a. in_end (snap_it i) (node_key db a)) as)))"
proof (induction as arbitrary: i)
  case Nil
  then show ?case
    using at_Valid [OF t Nil(1)] by (simp add: settle_invalid snap_visits.simps)
next
  case (Cons a as)
  note n = at_Next [OF t Cons.prems(1)] and valid = at_Valid [OF t Cons.prems(1)]
  show ?case
  proof (cases "in_end (snap_it i) (node_key db a)")
    case False
    then show ?thesis
      using valid n(3) by (simp add: settle_invalid snap_visits.simps)
  next
    case True
    then have vd: "it_Valid db (snap_it i)"
      using valid n(3) by simp
    let ?rest = "map (\<lambda>a. (node_key db a, val a)) (filter (\<lambda>a. val a \<noteq> None) (takeWhile (\<lambda>a. in_end (snap_it i) (node_key db a)) as))"
    have next_at: "Option.bind (snap_loop db (i\<lparr>snap_value := x\<rparr>)) (snap_visits db) = Some ?rest" for x
      using Cons.IH [of "i\<lparr>snap_value := x, snap_it := (snap_it i)\<lparr>curr := first as\<rparr>\<rparr>"] n(1,2) vd Cons.prems(2)
      by (simp add: snap_loop_settles)
    show ?thesis
    proof (cases "val a")
      case None
      then have "settle db i = snap_loop db i"
        using v [OF n(4)] vd n(3) Cons.prems(2) by (simp add: settle_def snap_setValue_def)
      then show ?thesis
        using next_at [of "snap_value i"] None True by simp
    next
      case (Some x)
      then have "settle db i = Some (i\<lparr>snap_value := Some x\<rparr>)"
        using v [OF n(4)] vd n(3) Cons.prems(2) by (simp add: settle_def snap_setValue_def)
      then show ?thesis
        using next_at [of None] Some True vd n(3)
        by (auto simp: snap_visits.simps [of db "i\<lparr>snap_value := Some x\<rparr>"] snap_Next_def it_Key_def node_key_def split: bind_splits)
    qed
  qed
qed

lemma snap_init_settles:
  assumes "snap_value i = None" and "\<not> reverse (snap_it i)"
  shows "snap_init db i = Option.bind (if length (start (snap_it i)) = 0 then seekToFirst db (snap_it i) else seek db (start (snap_it i)) (snap_it i))
    (\<lambda>it. settle db (i\<lparr>snap_it := it\<rparr>))"
proof -
  have "snap_setValue db i' = Some (False, i'') \<Longrightarrow> i'' = i'" for i' i''
    by (auto simp: snap_setValue_def split: if_splits option.splits)
  moreover have "j\<lparr>snap_value := None\<rparr> = j" if "snap_value j = None" for j :: memdbSnapIter
    using that by simp
  ultimately have "snap_setValue db (i\<lparr>snap_it := it\<rparr>) = Some (False, i'') \<Longrightarrow> snap_Next db i'' = snap_loop db i''" for it i''
    using assms(1) unfolding snap_Next_def by (metis memdbSnapIter.select_convs(2) memdbSnapIter.surjective memdbSnapIter.update_convs(1))
  then show ?thesis
    unfolding snap_init_def settle_def by (auto intro!: bind_option_cong split: bind_splits)
qed

lemma filter_swap: "filter P (filter Q xs) = filter Q (filter P xs)"
  by (induction xs) simp_all

lemma snapshot_iteration:
  assumes "represents n db m st" and n: "n < max_blocks"
  shows "\<exists>kvs. Option.bind (SnapshotIter db k upper) (snap_visits db) = Some kvs \<and> sorted_wrt (<) (map fst kvs) \<and>
    set kvs = {(k', Some v) | k' v. snapshot_map (m, st) k' = Some v \<and> k \<le> k' \<and> (case upper of None \<Rightarrow> True | Some e \<Rightarrow> k' < e)}"
proof -
  obtain t es bases where i: "memdb_inv n db t es bases" and m: "m = kval (node_key db) es" "st = map (kval (node_key db)) bases"
    using assms(1) by (auto simp: represents_def)
  note t = inv_tree [OF i] and sm = snapshot_log_map [of db es bases, folded m] and sv = snapshot_values [OF i n]
  define it where "it = \<lparr>curr = nullAddr, start = k, iend = upper, reverse = False, includeFlags = False\<rparr>"
  define val where "val = lval (snapshot_log es bases)"
  have it: "reverse it = False" "start it = k" "iend it = upper" "way it t = addrs t"
    by (simp_all add: it_def way_def)
  obtain xs ys where sk: "(if length (start it) = 0 then seekToFirst db it else seek db (start it) it) = Some (it\<lparr>curr := first ys\<rparr>)"
      and xy: "way it t = xs @ ys" "filter (shown db it) ys = starts_at db t it"
    using seek_starts [OF t, of it] it(1) by auto
  define as where "as = (case ys of [] \<Rightarrow> [] | b # bs \<Rightarrow> b # filter (shown db it) bs)"
  have at: "at db t (it\<lparr>curr := first ys\<rparr>) as"
    using xy(1) by (cases ys) (auto simp: at_def as_def)
  have srt: "sorted_wrt (<) (map (node_key db) ys)"
    using way_sorted [OF t, of it] it(1) xy(1) by (simp add: sorted_wrt_append)
  have "sorted_wrt (<) (map (node_key db) as)"
    using srt by (cases ys) (auto simp: as_def sorted_wrt_map sorted_wrt_filter)
  then have tw: "takeWhile (\<lambda>a. in_end it (node_key db a)) as = filter (\<lambda>a. in_end it (node_key db a)) as"
    by (intro takeWhile_in_end) (simp add: it(1))
  have vs: "shown db it a" if "val a \<noteq> None" "a \<in> set (addrs t)" for a
    using that sv(2) by (simp add: shown_def val_def)
  have in_t: "set ys \<subseteq> set (addrs t)"
    using xy(1) it(4) by auto
  then have "filter (\<lambda>a. val a \<noteq> None) as = filter (\<lambda>a. val a \<noteq> None) (filter (shown db it) ys)"
    using vs by (cases ys) (auto simp: as_def)
  then have f: "filter (\<lambda>a. val a \<noteq> None) (takeWhile (\<lambda>a. in_end it (node_key db a)) as) =
      filter (\<lambda>a. in_end it (node_key db a)) (filter (\<lambda>a. val a \<noteq> None) (starts_at db t it))"
    unfolding tw xy(2) [symmetric] by (metis filter_swap)
  let ?bs = "filter (\<lambda>a. in_end it (node_key db a)) (filter (\<lambda>a. val a \<noteq> None) (starts_at db t it))"
  let ?kvs = "map (\<lambda>a. (node_key db a, val a)) ?bs"
  let ?si = "\<lparr>snap_it = it\<lparr>curr := first ys\<rparr>, snap_value = None, snap_cp = getSnapshot db\<rparr>"
  have "SnapshotIter db k upper = settle db ?si"
    unfolding SnapshotIter_def it_def [symmetric] using snap_init_settles [of "\<lparr>snap_it = it, snap_value = None, snap_cp = getSnapshot db\<rparr>" db] sk it(1)
    by (simp split: if_splits)
  moreover have "Option.bind (settle db ?si) (snap_visits db) = Some ?kvs"
    using snap_visits_at [OF t sv(1), of ?si as, folded val_def] at f by simp
  ultimately have "Option.bind (SnapshotIter db k upper) (snap_visits db) = Some ?kvs"
    by simp
  moreover have "sorted_wrt (<) (map fst ?kvs)"
    using srt xy(2) by (simp add: sorted_wrt_map sorted_wrt_filter flip: xy(2))
  moreover have "set ?kvs = {(k', Some v) | k' v. snapshot_map (m, st) k' = Some v \<and> k \<le> k' \<and> (case upper of None \<Rightarrow> True | Some e \<Rightarrow> k' < e)}"
  proof -
    have "set ?bs = {a \<in> set (addrs t). val a \<noteq> None \<and> k \<le> node_key db a \<and> (case upper of None \<Rightarrow> True | Some e \<Rightarrow> node_key db a < e)}"
      using vs by (auto simp: starts_at_def in_end_def it)
    then show ?thesis
      unfolding sm [symmetric] kval_image [OF rb_tree_inj [OF t] snapshot_log_nodes [OF i], symmetric] by (simp add: val_def)
  qed
  ultimately show ?thesis
    by blast
qed

section \<open>The iterators after a run\<close>

text \<open>The entries of a map from a key up to a bound.\<close>

definition entries_from :: "(bytes \<rightharpoonup> bytes) \<Rightarrow> bytes \<Rightarrow> bytes option \<Rightarrow> (bytes \<times> bytes option) set" where
  "entries_from m k upper = {(k', Some v) | k' v. m k' = Some v \<and> k \<le> k' \<and> (case upper of None \<Rightarrow> True | Some e \<Rightarrow> k' < e)}"

lemma Iter_enumerates:
  assumes "represents n db m st" and "n < max_blocks"
  shows "\<exists>i kvs. Iter db k upper = Some i \<and> visits entry db i = Some kvs \<and> sorted_wrt (<) (map fst kvs) \<and> set kvs = entries_from m k upper"
  using iteration_of_the_map [OF assms, of "\<lparr>curr = nullAddr, start = k, iend = upper, reverse = False, includeFlags = False\<rparr>"]
  by (auto simp: Iter_def in_bounds_def entries_from_def bind_eq_Some_conv)

lemma IterReverse_enumerates:
  assumes "represents n db m st" and "n < max_blocks"
  shows "\<exists>i kvs. IterReverse db upper = Some i \<and> visits entry db i = Some kvs \<and> sorted_wrt (>) (map fst kvs) \<and>
    set kvs = entries_from m [] (if upper = Some [] then None else upper)"
proof -
  have "(case upper of None \<Rightarrow> True | Some e \<Rightarrow> e = [] \<or> k < e) = (case (if upper = Some [] then None else upper) of None \<Rightarrow> True | Some e \<Rightarrow> k < e)" for k
    by (cases upper) auto
  then show ?thesis
    using iteration_of_the_map [OF assms, of "\<lparr>curr = nullAddr, start = [], iend = upper, reverse = True, includeFlags = False\<rparr>"]
    by (auto simp: IterReverse_def in_bounds_def entries_from_def bind_eq_Some_conv)
qed

text \<open>
  C20. The iterators of the buffer enumerate its map: after any run that a stack of maps allows, \<open>Iter\<close> from a key to a
  bound returns an iterator, the loop over it ends, and it visits exactly the keys of the map from the key on
  and below the bound, in ascending order and with their values; \<open>IterReverse\<close> visits exactly the keys below
  its bound (all keys for a nil or empty one) in descending order.
\<close>

theorem iterators_enumerate_the_map:
  assumes "run_ops map_step ops (Map.empty, []) = Some (m, st)" and "\<forall>op \<in> set ops. op_fits lim op" and "2 * length ops < max_blocks"
  shows "\<exists>db. run_ops buf_step ops (newMemDB lim cap test) = Some db \<and>
    (\<forall>k upper. \<exists>i kvs. Iter db k upper = Some i \<and> visits entry db i = Some kvs \<and> sorted_wrt (<) (map fst kvs) \<and> set kvs = entries_from m k upper) \<and>
    (\<forall>upper. \<exists>i kvs. IterReverse db upper = Some i \<and> visits entry db i = Some kvs \<and> sorted_wrt (>) (map fst kvs) \<and>
      set kvs = entries_from m [] (if upper = Some [] then None else upper))"
proof -
  obtain db where db: "run_ops buf_step ops (newMemDB lim cap test) = Some db" "represents (2 * length ops) db m st"
    using run_represents [OF assms] by blast
  show ?thesis
    using db(1) Iter_enumerates [OF db(2) assms(3)] IterReverse_enumerates [OF db(2) assms(3)] by simp
qed

theorem iterators_enumerate_the_map_witness:
  "\<exists>db i kvs. run_ops buf_step [OpSet [2] [7] [], OpSet [1] [8] [], OpFlags [3] [], OpDelete [4]] (newMemDB 100 100 False) = Some db \<and>
    Iter db [2] None = Some i \<and> visits entry db i = Some kvs \<and> ([2], Some [7]) \<in> set kvs \<and> ([1], Some [8]) \<notin> set kvs"
proof -
  let ?m = "[[2] \<mapsto> [7], [1] \<mapsto> [8], [4] \<mapsto> []] :: bytes \<rightharpoonup> bytes"
  have e: "([2], Some [7]) \<in> entries_from ?m [2] None" "([1], Some [8]) \<notin> entries_from ?m [2] None"
    by (simp_all add: entries_from_def)
  show ?thesis
    using iterators_enumerate_the_map [of "[OpSet [2] [7] [], OpSet [1] [8] [], OpFlags [3] [], OpDelete [4]]" ?m "[]" 100 100 False] e
    by (fastforce simp: maxBlockSize_def max_blocks_def)
qed

text \<open>
  C21. A snapshot reads the map at the oldest stage: after any run that a stack of maps allows, the snapshot's getter
  returns for every key the value of the map saved by the first open stage (the current map if no stage is open),
  whatever later stages wrote, and the snapshot's iterator visits exactly that map's keys within its bounds, in
  ascending order and with those values.
\<close>

theorem snapshot_reads_the_first_stage:
  assumes "run_ops map_step ops (Map.empty, []) = Some (m, st)" and "\<forall>op \<in> set ops. op_fits lim op" and "2 * length ops < max_blocks"
  shows "\<exists>db. run_ops buf_step ops (newMemDB lim cap test) = Some db \<and>
    (\<forall>k. snap_Get (SnapshotGetter db) k db = Some (case (if st = [] then m else hd st) k of None \<Rightarrow> Inl ErrNotExist | Some v \<Rightarrow> Inr v)) \<and>
    (\<forall>k upper. \<exists>i kvs. SnapshotIter db k upper = Some i \<and> snap_visits db i = Some kvs \<and> sorted_wrt (<) (map fst kvs) \<and>
      set kvs = entries_from (if st = [] then m else hd st) k upper)"
proof -
  obtain db where db: "run_ops buf_step ops (newMemDB lim cap test) = Some db" "represents (2 * length ops) db m st"
    using run_represents [OF assms] by blast
  have "\<exists>i kvs. SnapshotIter db k upper = Some i \<and> snap_visits db i = Some kvs \<and> sorted_wrt (<) (map fst kvs) \<and>
      set kvs = entries_from (if st = [] then m else hd st) k upper" for k upper
    using snapshot_iteration [OF db(2) assms(3), of k upper] by (auto simp: entries_from_def snapshot_map_def bind_eq_Some_conv)
  then show ?thesis
    using db snap_Get_reads [OF db(2) assms(3)] by (auto simp: snapshot_map_def)
qed

theorem snapshot_reads_the_first_stage_witness:
  "\<exists>db. run_ops buf_step [OpSet [1] [7] [], OpStaging, OpSet [1] [8] [], OpStaging, OpSet [2] [9] []] (newMemDB 100 100 False) = Some db \<and>
    snap_Get (SnapshotGetter db) [1] db = Some (Inr [7]) \<and> snap_Get (SnapshotGetter db) [2] db = Some (Inl ErrNotExist)"
  using snapshot_reads_the_first_stage [of "[OpSet [1] [7] [], OpStaging, OpSet [1] [8] [], OpStaging, OpSet [2] [9] []]"
      "[[1] \<mapsto> [8], [2] \<mapsto> [9]]" "[[[1] \<mapsto> [7]], [[1] \<mapsto> [8]]]" 100 100 False]
  by (auto simp: maxBlockSize_def max_blocks_def)

section \<open>Iterators with flags\<close>

text \<open>The keys with a node from a key up to a bound, their flags, and whether they have a value.\<close>

definition flags_from :: "memdb \<Rightarrow> (bytes \<rightharpoonup> bytes) \<Rightarrow> bytes \<Rightarrow> bytes option \<Rightarrow> (bytes \<times> KeyFlags \<times> bool) set" where
  "flags_from db m k upper =
     {(k', f, m k' \<noteq> None) | k' f. GetFlags k' db = Some (Inr f) \<and> k \<le> k' \<and> (case upper of None \<Rightarrow> True | Some e \<Rightarrow> k' < e)}"

lemma flag_iteration:
  assumes "represents n db m st" and n: "n < max_blocks" and nf: "includeFlags i"
  shows "\<exists>kfs. Option.bind (it_init db i) (visits flag_entry db) = Some kfs \<and> sorted_wrt (if reverse i then (>) else (<)) (map fst kfs) \<and>
    set kfs = {(k, f, m k \<noteq> None) | k f. GetFlags k db = Some (Inr f) \<and> in_bounds i k}"
proof -
  obtain t es bases where i: "memdb_inv n db t es bases" and m: "m = kval (node_key db) es"
    using assms(1) by (auto simp: represents_def)
  note t = inv_tree [OF i] and g = GetFlags_node [OF inv_tree [OF i]]
  define fe where "fe a = (node_key db a, getKeyFlags (mem db a), m (node_key db a) \<noteq> None)" for a
  have fe: "flag_entry db (i\<lparr>curr := a\<rparr>) = fe a" if a: "a \<in> set (addrs t)" for a
  proof -
    have "log_ok (vlog db) es" "cam_room (vlog db)" "vptr (mem db a) = vp es a" "a \<noteq> nullAddr"
      using i inv_room [OF i n] a t shape_null by (auto simp: memdb_inv_def buf_ok_def linked_log_def rb_tree_def)
    then show ?thesis
      using vp_value [of "vlog db" "[]" es a] kval_lval [OF rb_tree_inj [OF t] inv_nodes [OF i] a]
      by (auto simp: fe_def flag_entry_def it_Key_def it_Flags_def it_HasValue_def isFlagsOnly_def node_key_def m)
  qed
  let ?as = "filter (\<lambda>a. in_bounds i (node_key db a)) (filter (shown db i) (way i t))"
  have "map (\<lambda>a. flag_entry db (i\<lparr>curr := a\<rparr>)) ?as = map fe ?as"
    using fe by (simp add: set_way)
  then have "Option.bind (it_init db i) (visits flag_entry db) = Some (map fe ?as)"
    unfolding iteration [OF t, of i] by simp
  moreover have "sorted_wrt (if reverse i then (>) else (<)) (map fst (map fe ?as))"
    using way_sorted [OF t, of i] by (simp add: sorted_wrt_map sorted_wrt_filter fe_def)
  moreover have "set (map fe ?as) = {(k, f, m k \<noteq> None) | k f. GetFlags k db = Some (Inr f) \<and> in_bounds i k}"
  proof (intro equalityI subsetI)
    fix x
    assume "x \<in> {(k, f, m k \<noteq> None) | k f. GetFlags k db = Some (Inr f) \<and> in_bounds i k}"
    then obtain k f where x: "x = (k, f, m k \<noteq> None)" "GetFlags k db = Some (Inr f)" "in_bounds i k"
      by auto
    then obtain a where a: "a \<in> set (addrs t)" "k = node_key db a"
      using g(2) [of k] by force
    then show "x \<in> set (map fe ?as)"
      using x g(1) [OF a(1)] nf by (auto simp: fe_def shown_def set_way)
  qed (use g(1) in \<open>auto simp: fe_def set_way\<close>)
  ultimately show ?thesis
    by blast
qed

text \<open>
  The iterators with flags show every key that has a node: after any run that a stack of maps allows,
  \<open>IterWithFlags\<close> and \<open>IterReverseWithFlags\<close> end and visit exactly the keys within their bounds for which \<open>GetFlags\<close>
  succeeds, in ascending and descending order, with the flags \<open>GetFlags\<close> returns, and \<open>HasValue\<close> tells whether
  the map has a value for the key.
\<close>

theorem flag_iterators_show_every_key:
  assumes "run_ops map_step ops (Map.empty, []) = Some (m, st)" and "\<forall>op \<in> set ops. op_fits lim op" and "2 * length ops < max_blocks"
  shows "\<exists>db. run_ops buf_step ops (newMemDB lim cap test) = Some db \<and>
    (\<forall>k upper. \<exists>i kfs. IterWithFlags db k upper = Some i \<and> visits flag_entry db i = Some kfs \<and> sorted_wrt (<) (map fst kfs) \<and>
      set kfs = flags_from db m k upper) \<and>
    (\<exists>i kfs. IterReverseWithFlags db None = Some i \<and> visits flag_entry db i = Some kfs \<and> sorted_wrt (>) (map fst kfs) \<and>
      set kfs = flags_from db m [] None)"
proof -
  obtain db where db: "run_ops buf_step ops (newMemDB lim cap test) = Some db" "represents (2 * length ops) db m st"
    using run_represents [OF assms] by blast
  have "\<exists>i kfs. IterWithFlags db k upper = Some i \<and> visits flag_entry db i = Some kfs \<and> sorted_wrt (<) (map fst kfs) \<and>
      set kfs = flags_from db m k upper" for k upper
    using flag_iteration [OF db(2) assms(3), of "\<lparr>curr = nullAddr, start = k, iend = upper, reverse = False, includeFlags = True\<rparr>"]
    by (auto simp: IterWithFlags_def in_bounds_def flags_from_def bind_eq_Some_conv)
  moreover have "\<exists>i kfs. IterReverseWithFlags db None = Some i \<and> visits flag_entry db i = Some kfs \<and> sorted_wrt (>) (map fst kfs) \<and>
      set kfs = flags_from db m [] None"
    using flag_iteration [OF db(2) assms(3), of "\<lparr>curr = nullAddr, start = [], iend = None, reverse = True, includeFlags = True\<rparr>"]
    by (auto simp: IterReverseWithFlags_def in_bounds_def flags_from_def bind_eq_Some_conv)
  ultimately show ?thesis
    using db(1) by blast
qed

theorem flag_iterators_show_every_key_witness:
  "\<exists>db i kfs. run_ops buf_step [OpSet [2] [7] [], OpFlags [3] []] (newMemDB 100 100 False) = Some db \<and>
    IterReverseWithFlags db None = Some i \<and> visits flag_entry db i = Some kfs \<and> set kfs = flags_from db [[2] \<mapsto> [7]] [] None"
  using flag_iterators_show_every_key [of "[OpSet [2] [7] [], OpFlags [3] []]" "[[2] \<mapsto> [7]]" "[]" 100 100 False]
  by (fastforce simp: maxBlockSize_def max_blocks_def)

end
