(* ===== verification/Union_Facts.thy ===== *)
theory Union_Facts
  imports Union Memdb_Iter_Facts
begin

text \<open>
  The contract of an iterator as a locale, met by the iterators of the buffer and of its snapshots, and by the union
  of any two iterators that meet it; and what the union store reads.
\<close>

section \<open>The contract of an iterator\<close>

text \<open>The loop over an iterator: its entries, or the first error.\<close>

partial_function (option) drain :: "('i, 'e) Iterator \<Rightarrow> 'i \<Rightarrow> ('e + (bytes \<times> bytes) list) option" where
  "drain M i =
     (if I_Valid M i
      then do {
        v \<leftarrow> I_Value M i;
        (err, i') \<leftarrow> I_Next M i;
        case err of Some e \<Rightarrow> Some (Inl e) | None \<Rightarrow> do { r \<leftarrow> drain M i'; Some (map_sum id (Cons (I_Key M i, v)) r) }
      }
      else Some (Inr []))"

text \<open>\<open>yields i kvs\<close>: the iterator goes through the entries \<open>kvs\<close> and then is not valid.\<close>

locale iterator_contract =
  fixes M :: "('i, 'e) Iterator" and yields :: "'i \<Rightarrow> (bytes \<times> bytes) list \<Rightarrow> bool"
  assumes at_end: "yields i [] \<Longrightarrow> \<not> I_Valid M i"
    and at_entry: "yields i ((k, v) # kvs) \<Longrightarrow> I_Valid M i \<and> I_Key M i = k \<and> I_Value M i = Some v \<and> (\<exists>i'. I_Next M i = Some (None, i') \<and> yields i' kvs)"
begin

lemma valid_iff: "yields i kvs \<Longrightarrow> I_Valid M i \<longleftrightarrow> kvs \<noteq> []"
  using at_end at_entry by (cases kvs) auto

text \<open>\<open>NextUntil\<close> stops at the first key the predicate accepts.\<close>

lemma NextUntil_stops: "yields i kvs \<Longrightarrow> \<exists>i'. NextUntil M fn i = Some (None, i') \<and> yields i' (dropWhile (\<lambda>kv. \<not> fn (fst kv)) kvs)"
proof (induction kvs arbitrary: i)
  case Nil
  then show ?case
    using at_end by (simp add: NextUntil.simps)
next
  case (Cons kv kvs)
  obtain k v where kv: "kv = (k, v)"
    by (cases kv)
  then obtain i' where i': "I_Valid M i" "I_Key M i = k" "I_Next M i = Some (None, i')" "yields i' kvs"
    using at_entry Cons.prems by blast
  then show ?case
    using Cons.IH [OF i'(4)] Cons.prems kv by (auto simp: NextUntil.simps [of M fn i])
qed

lemma drain_yields: "yields i kvs \<Longrightarrow> drain M i = Some (Inr kvs)"
proof (induction kvs arbitrary: i)
  case Nil
  then show ?case
    using at_end by (simp add: drain.simps)
next
  case (Cons kv kvs)
  obtain k v where kv: "kv = (k, v)"
    by (cases kv)
  then obtain i' where "I_Valid M i" "I_Key M i = k" "I_Value M i = Some v" "I_Next M i = Some (None, i')" "yields i' kvs"
    using at_entry Cons.prems by blast
  then show ?case
    using Cons.IH kv by (simp add: drain.simps [of M i])
qed

end

section \<open>Merging\<close>

text \<open>The entries of the union: the buffer's entries hide the snapshot's, and an empty value of the buffer hides the key.\<close>

fun umerge :: "(bytes \<Rightarrow> bytes \<Rightarrow> bool) \<Rightarrow> (bytes \<times> bytes) list \<Rightarrow> (bytes \<times> bytes) list \<Rightarrow> (bytes \<times> bytes) list" where
  "umerge lt [] ss = ss"
| "umerge lt ((k, v) # ds) [] = (if v = [] then umerge lt ds [] else (k, v) # umerge lt ds [])"
| "umerge lt ((k, v) # ds) ((k', v') # ss) =
     (if k = k' then if v = [] then umerge lt ds ss else (k, v) # umerge lt ds ss
      else if lt k' k then (k', v') # umerge lt ((k, v) # ds) ss
      else if v = [] then umerge lt ds ((k', v') # ss) else (k, v) # umerge lt ds ((k', v') # ss))"

definition before_in :: "bool \<Rightarrow> bytes \<Rightarrow> bytes \<Rightarrow> bool" where
  "before_in rv k k' = (if rv then k' < k else k < k')"

lemma before_in_order:
  "\<not> before_in rv k k" "before_in rv k k' \<Longrightarrow> before_in rv k' k'' \<Longrightarrow> before_in rv k k''" "k \<noteq> k' \<Longrightarrow> \<not> before_in rv k k' \<Longrightarrow> before_in rv k' k"
  by (auto simp: before_in_def split: if_splits)

definition ordered :: "bool \<Rightarrow> (bytes \<times> bytes) list \<Rightarrow> bool" where
  "ordered rv kvs = sorted_wrt (before_in rv) (map fst kvs)"

lemma ordered_Cons: "ordered rv ((k, v) # kvs) \<longleftrightarrow> (\<forall>k' v'. (k', v') \<in> set kvs \<longrightarrow> before_in rv k k') \<and> ordered rv kvs"
  by (force simp: ordered_def)

lemma ordered_Nil [simp]: "ordered rv []"
  by (simp add: ordered_def)

text \<open>What the merge holds, for entries in order.\<close>

definition overlay :: "(bytes \<rightharpoonup> bytes) \<Rightarrow> (bytes \<rightharpoonup> bytes) \<Rightarrow> bytes \<rightharpoonup> bytes" where
  "overlay m s = (\<lambda>k. case m k of None \<Rightarrow> s k | Some v \<Rightarrow> if v = [] then None else Some v)"

lemma umerge_subset: "set (umerge lt ds ss) \<subseteq> set ds \<union> set ss"
  by (induction lt ds ss rule: umerge.induct) auto

lemma ordered_head:
  "ordered rv ((k, v) # kvs) \<Longrightarrow> (k, x) \<notin> set kvs"
  "ordered rv ((k, v) # kvs) \<Longrightarrow> before_in rv k0 k \<Longrightarrow> (k0, x) \<notin> set ((k, v) # kvs)"
  using before_in_order(1) [of rv] before_in_order(2) [of rv k0 k k0] by (auto simp: ordered_Cons)

lemma umerge_mem:
  "ordered rv ds \<Longrightarrow> ordered rv ss \<Longrightarrow> (k, v) \<in> set (umerge (before_in rv) ds ss) \<longleftrightarrow>
   (k, v) \<in> set ds \<and> v \<noteq> [] \<or> (k, v) \<in> set ss \<and> (\<forall>v'. (k, v') \<notin> set ds)"
proof (induction "before_in rv" ds ss arbitrary: k v rule: umerge.induct)
  case (3 kd vd ds ks vs ss)
  have o: "ordered rv ds" "ordered rv ss"
    using 3(6,7) by (simp_all add: ordered_Cons)
  consider "kd = ks" | "kd \<noteq> ks" "before_in rv ks kd" | "kd \<noteq> ks" "\<not> before_in rv ks kd" "before_in rv kd ks"
    using before_in_order(3) by blast
  then show ?case
  proof cases
    case 1
    then show ?thesis
      using 3(1,2) o ordered_head(1) [OF 3(6)] ordered_head(1) [OF 3(7)] by auto
  next
    case 2
    then show ?thesis
      using 3(3) [OF 2 3(6) o(2)] ordered_head(2) [OF 3(6) 2(2)] by auto
  next
    case 3
    then show ?thesis
      using "3.hyps"(4,5) [OF 3(1,2) _ o(1) "3.prems"(2)] ordered_head(2) [OF "3.prems"(2) 3(3)] ordered_head(1) [OF "3.prems"(1)] by auto
  qed
next
  case (2 kd vd ds)
  then show ?case
    using ordered_head(1) [OF 2(3)] by (auto simp: ordered_Cons)
qed simp

lemma umerge_ordered:
  "ordered rv ds \<Longrightarrow> ordered rv ss \<Longrightarrow> ordered rv (umerge (before_in rv) ds ss)"
proof (induction "before_in rv" ds ss rule: umerge.induct)
  case (2 k v ds)
  then show ?case
    using umerge_subset [of "before_in rv" ds "[]"] by (auto simp: ordered_Cons)
next
  case (3 kd vd ds ks vs ss)
  have o: "ordered rv ds" "ordered rv ss"
    using 3(6,7) by (simp_all add: ordered_Cons)
  have later: "(k, v) \<in> set ds \<Longrightarrow> before_in rv kd k" "(k, v) \<in> set ss \<Longrightarrow> before_in rv ks k" for k v
    using 3(6,7) by (auto simp: ordered_Cons)
  consider "kd = ks" | "kd \<noteq> ks" "before_in rv ks kd" | "kd \<noteq> ks" "\<not> before_in rv ks kd" "before_in rv kd ks"
    using before_in_order(3) by blast
  then show ?case
  proof cases
    case 1
    have "before_in rv kd k" if "(k, v) \<in> set (umerge (before_in rv) ds ss)" for k v
      using that later umerge_subset [of "before_in rv" ds ss] 1 by blast
    then show ?thesis
      using 1 3(1,2) o by (simp add: ordered_Cons)
  next
    case 2
    have "before_in rv ks k" if "(k, v) \<in> set (umerge (before_in rv) ((kd, vd) # ds) ss)" for k v
      using that umerge_subset [of "before_in rv" "(kd, vd) # ds" ss] later before_in_order(2) [OF 2(2)] 2(2) by auto
    then show ?thesis
      using 2 3(3) [OF 2 3(6) o(2)] by (simp add: ordered_Cons)
  next
    case 3
    have "before_in rv kd k" if "(k, v) \<in> set (umerge (before_in rv) ds ((ks, vs) # ss))" for k v
      using that umerge_subset [of "before_in rv" ds "(ks, vs) # ss"] later before_in_order(2) [OF 3(3)] 3(3) by auto
    then show ?thesis
      using 3 "3.hyps"(4,5) [OF 3(1,2) _ o(1) "3.prems"(2)] by (simp add: ordered_Cons)
  qed
qed simp

section \<open>The union of two iterators\<close>

locale union_of_iterators = d: iterator_contract D yields_d + s: iterator_contract S yields_s
  for D :: "('d, 'e) Iterator" and yields_d and S :: "('s, 'e) Iterator" and yields_s
begin

text \<open>An iterator before \<open>uFIDelateCur\<close>: it knows which of the two are valid.\<close>

definition loaded :: "bool \<Rightarrow> ('d, 's) UnionIter \<Rightarrow> (bytes \<times> bytes) list \<Rightarrow> (bytes \<times> bytes) list \<Rightarrow> bool" where
  "loaded rv it ds ss =
     (yields_d (dirtyIt it) ds \<and> yields_s (snapshotIt it) ss \<and> dirtyValid it = (ds \<noteq> []) \<and> snapshotValid it = (ss \<noteq> []) \<and> u_reverse it = rv)"

text \<open>After it: it stands at an entry of one of the two.\<close>

definition yields_u :: "bool \<Rightarrow> ('d, 's) UnionIter \<Rightarrow> (bytes \<times> bytes) list \<Rightarrow> bool" where
  "yields_u rv it kvs =
     (if isValid it
      then \<exists>k v ds ss. kvs = (k, v) # umerge (before_in rv) ds ss \<and>
             (if curIsDirty it then loaded rv it ((k, v) # ds) ss else loaded rv it ds ((k, v) # ss))
      else kvs = [])"

lemma dirtyNext_loads:
  assumes "loaded rv it ((k, v) # ds) ss"
  shows "\<exists>it'. dirtyNext D it = Some (None, it') \<and> loaded rv it' ds ss \<and> isValid it' = isValid it"
proof -
  obtain d where "I_Next D (dirtyIt it) = Some (None, d)" "yields_d d ds"
    using assms d.at_entry by (fastforce simp: loaded_def)
  then show ?thesis
    using assms d.valid_iff by (simp add: dirtyNext_def loaded_def)
qed

lemma snapshotNext_loads:
  assumes "loaded rv it ds ((k, v) # ss)"
  shows "\<exists>it'. snapshotNext S it = Some (None, it') \<and> loaded rv it' ds ss \<and> isValid it' = isValid it"
proof -
  obtain s where "I_Next S (snapshotIt it) = Some (None, s)" "yields_s s ss"
    using assms s.at_entry by (fastforce simp: loaded_def)
  then show ?thesis
    using assms s.valid_iff by (simp add: snapshotNext_def loaded_def)
qed

lemma loaded_flags [simp]:
  "loaded rv (it\<lparr>curIsDirty := b\<rparr>) ds ss = loaded rv it ds ss" "loaded rv (it\<lparr>isValid := b\<rparr>) ds ss = loaded rv it ds ss"
  by (simp_all add: loaded_def)

lemma loaded_reads:
  "loaded rv it ((k, v) # ds) ss \<Longrightarrow> I_Key D (dirtyIt it) = k \<and> I_Value D (dirtyIt it) = Some v"
  "loaded rv it ds ((k, v) # ss) \<Longrightarrow> I_Key S (snapshotIt it) = k \<and> I_Value S (snapshotIt it) = Some v"
  using d.at_entry s.at_entry by (auto simp: loaded_def)

lemma loaded_valid: "loaded rv it ds ss \<Longrightarrow> (dirtyValid it \<longleftrightarrow> ds \<noteq> []) \<and> (snapshotValid it \<longleftrightarrow> ss \<noteq> []) \<and> u_reverse it = rv"
  by (simp add: loaded_def)

lemma cmp_direction:
  "(if rv then - bytes_Compare k k' else bytes_Compare k k') = 0 \<longleftrightarrow> k = k'"
  "k \<noteq> k' \<Longrightarrow> 0 < (if rv then - bytes_Compare k k' else bytes_Compare k k') \<longleftrightarrow> before_in rv k' k"
  by (auto simp: before_in_def)

lemma yields_u_snapshot:
  "isValid it \<Longrightarrow> \<not> curIsDirty it \<Longrightarrow> loaded rv it ds ((k, v) # ss) \<Longrightarrow> yields_u rv it ((k, v) # umerge (before_in rv) ds ss)"
  by (auto simp: yields_u_def)

lemma yields_u_dirty:
  "isValid it \<Longrightarrow> curIsDirty it \<Longrightarrow> loaded rv it ((k, v) # ds) ss \<Longrightarrow> yields_u rv it ((k, v) # umerge (before_in rv) ds ss)"
  by (auto simp: yields_u_def)

lemma uFIDelateCur_settles:
  "loaded rv it ds ss \<Longrightarrow> isValid it \<Longrightarrow> \<exists>it'. uFIDelateCur_loop D S it = Some (None, it') \<and> yields_u rv it' (umerge (before_in rv) ds ss)"
proof (induction "before_in rv" ds ss arbitrary: it rule: umerge.induct)
  case (1 ss)
  note v = loaded_valid [OF 1(1)]
  show ?case
  proof (cases ss)
    case Nil
    then show ?thesis
      using v by (simp add: uFIDelateCur_loop.simps [of D S it] yields_u_def)
  next
    case (Cons kv ss')
    then show ?thesis
      using v 1 yields_u_snapshot [of "it\<lparr>curIsDirty := False\<rparr>" rv "[]"] by (cases kv) (simp add: uFIDelateCur_loop.simps [of D S it])
  qed
next
  case (2 k v ds)
  note vd = loaded_valid [OF 2(3)] and rd = loaded_reads(1) [OF 2(3)]
  show ?case
  proof (cases "v = []")
    case True
    obtain it' where "dirtyNext D (it\<lparr>curIsDirty := True\<rparr>) = Some (None, it')" "loaded rv it' ds []" "isValid it'"
      using dirtyNext_loads [of rv "it\<lparr>curIsDirty := True\<rparr>" k v ds "[]"] 2(3,4) by auto
    then show ?thesis
      using 2(1) True vd rd by (simp add: uFIDelateCur_loop.simps [of D S it])
  next
    case False
    then show ?thesis
      using 2(3,4) vd rd by (auto simp: uFIDelateCur_loop.simps [of D S it] yields_u_def)
  qed
next
  case (3 kd vd ds ks vs ss)
  note v = loaded_valid [OF 3(6)] and rd = loaded_reads(1) [OF 3(6)] loaded_reads(2) [OF 3(6)] and c = cmp_direction(1) [of rv kd ks] cmp_direction(2) [of kd ks rv]
  note step = uFIDelateCur_loop.simps [of D S it]
  show ?case
  proof (cases "kd = ks")
    case eq: True
    show ?thesis
    proof (cases "vd = []")
      case True
      obtain it1 where it1: "dirtyNext D it = Some (None, it1)" "loaded rv it1 ds ((ks, vs) # ss)" "isValid it1"
        using dirtyNext_loads [OF 3(6)] 3(7) by auto
      obtain it2 where it2: "snapshotNext S it1 = Some (None, it2)" "loaded rv it2 ds ss" "isValid it2"
        using snapshotNext_loads [OF it1(2)] it1(3) by auto
      show ?thesis
        using 3(1) [OF eq True it2(2,3)] it1(1) it2(1) v rd eq True by (simp add: step Let_def)
    next
      case False
      obtain it1 where "snapshotNext S it = Some (None, it1)" "loaded rv it1 ((kd, vd) # ds) ss" "isValid it1"
        using snapshotNext_loads [OF 3(6)] 3(7) by auto
      then show ?thesis
        using v rd eq False yields_u_dirty [of "it1\<lparr>curIsDirty := True\<rparr>" rv kd vd ds ss] by (simp add: step Let_def)
    qed
  next
    case ne: False
    show ?thesis
    proof (cases "before_in rv ks kd")
      case True
      then show ?thesis
        using 3(6,7) v rd ne c by (auto simp: step Let_def yields_u_def)
    next
      case nb: False
      show ?thesis
      proof (cases "vd = []")
        case True
        obtain it1 where it1: "dirtyNext D it = Some (None, it1)" "loaded rv it1 ds ((ks, vs) # ss)" "isValid it1"
          using dirtyNext_loads [OF 3(6)] 3(7) by auto
        then show ?thesis
          using 3(4) [OF ne nb True it1(2,3)] v rd ne nb c True by (simp add: step Let_def)
      next
        case False
        then show ?thesis
          using 3(6,7) v rd ne nb c by (auto simp: step Let_def yields_u_def)
      qed
    qed
  qed
qed

end

context union_of_iterators begin

lemma yields_u_end: "yields_u rv it [] \<Longrightarrow> \<not> isValid it"
  by (auto simp: yields_u_def split: if_splits)

lemma yields_u_entry:
  assumes "yields_u rv it ((k, v) # kvs)"
  shows "isValid it" and "union_Key D S it = k" and "union_Value D S it = Some v"
    and "\<exists>it'. union_Next D S it = Some (None, it') \<and> yields_u rv it' kvs"
proof -
  obtain ds ss where kvs: "kvs = umerge (before_in rv) ds ss"
      and ld: "if curIsDirty it then loaded rv it ((k, v) # ds) ss else loaded rv it ds ((k, v) # ss)"
    using assms by (auto simp: yields_u_def split: if_splits)
  show "isValid it"
    using assms by (auto simp: yields_u_def split: if_splits)
  show "union_Key D S it = k" "union_Value D S it = Some v"
    using ld loaded_reads by (auto simp: union_Key_def union_Value_def split: if_splits)
  obtain it1 where "(if \<not> curIsDirty it then snapshotNext S it else dirtyNext D it) = Some (None, it1)" "loaded rv it1 ds ss"
    using ld dirtyNext_loads snapshotNext_loads by (auto split: if_splits) blast+
  then show "\<exists>it'. union_Next D S it = Some (None, it') \<and> yields_u rv it' kvs"
    using uFIDelateCur_settles [of rv "it1\<lparr>isValid := True\<rparr>" ds ss] by (simp add: union_Next_def uFIDelateCur_def kvs)
qed

lemma NewUnionIter_yields:
  assumes "yields_d d ds" and "yields_s s ss"
  shows "\<exists>it. NewUnionIter D S d s rv = Some (Inr it) \<and> yields_u rv it (umerge (before_in rv) ds ss)"
proof -
  let ?it = "\<lparr>dirtyIt = d, snapshotIt = s, dirtyValid = I_Valid D d, snapshotValid = I_Valid S s, curIsDirty = False, isValid = True, u_reverse = rv\<rparr>"
  have "loaded rv ?it ds ss"
    using assms d.valid_iff s.valid_iff by (simp add: loaded_def)
  then show ?thesis
    using uFIDelateCur_settles [of rv ?it ds ss] by (auto simp: NewUnionIter_def uFIDelateCur_def)
qed

end

text \<open>The union meets the contract itself, in either direction.\<close>

sublocale union_of_iterators \<subseteq> u: iterator_contract "UnionIter_methods D S" "yields_u rv" for rv
  using yields_u_end yields_u_entry by unfold_locales (auto simp: UnionIter_methods_def union_Valid_def)

context union_of_iterators begin

lemma NewUnionIter_drains:
  assumes "yields_d d ds" and "yields_s s ss"
  shows "\<exists>it. NewUnionIter D S d s rv = Some (Inr it) \<and> drain (UnionIter_methods D S) it = Some (Inr (umerge (before_in rv) ds ss))"
  using NewUnionIter_yields [OF assms, of rv] u.drain_yields by blast

end

section \<open>Iterators that meet the contract\<close>

text \<open>Any iterator meets the contract for the entries its loop collects; so do those of the buffer for theirs.\<close>

lemma map_sum_Inr: "map_sum id f r = Inr x \<longleftrightarrow> (\<exists>y. r = Inr y \<and> x = f y)"
  by (cases r) auto

interpretation drained: iterator_contract M "\<lambda>i kvs. drain M i = Some (Inr kvs)"
proof
  show "\<not> I_Valid M i" if "drain M i = Some (Inr [])" for i
    using that by (auto simp: drain.simps [of M i] bind_eq_Some_conv map_sum_Inr split: if_splits option.splits)
  show "I_Valid M i \<and> I_Key M i = k \<and> I_Value M i = Some v \<and> (\<exists>i'. I_Next M i = Some (None, i') \<and> drain M i' = Some (Inr kvs))"
    if "drain M i = Some (Inr ((k, v) # kvs))" for i k v kvs
    using that by (auto simp: drain.simps [of M i] bind_eq_Some_conv map_sum_Inr split: if_splits option.splits)
qed

definition some_values :: "(bytes \<times> bytes) list \<Rightarrow> (bytes \<times> bytes option) list" where
  "some_values kvs = map (\<lambda>(k, v). (k, Some v)) kvs"

interpretation buffer_iterator: iterator_contract "memdbIterator_methods db" "\<lambda>i kvs. visits entry db i = Some (some_values kvs)"
proof
  fix i :: memdbIterator and k v kvs
  note step = visits.simps [of entry db i] entry_def some_values_def memdbIterator_methods_def bind_eq_Some_conv
  show "\<not> I_Valid (memdbIterator_methods db) i" if "visits entry db i = Some (some_values [])"
    using that by (auto simp: step split: if_splits)
  show "I_Valid (memdbIterator_methods db) i \<and> I_Key (memdbIterator_methods db) i = k \<and> I_Value (memdbIterator_methods db) i = Some v \<and>
      (\<exists>i'. I_Next (memdbIterator_methods db) i = Some (None, i') \<and> visits entry db i' = Some (some_values kvs))"
    if "visits entry db i = Some (some_values ((k, v) # kvs))"
    using that by (auto simp: step split: if_splits)
qed

interpretation snapshot_iterator: iterator_contract "memdbSnapIter_methods db" "\<lambda>i kvs. snap_visits db i = Some (some_values kvs)"
proof
  fix i :: memdbSnapIter and k v kvs
  note step = snap_visits.simps [of db i] some_values_def memdbSnapIter_methods_def bind_eq_Some_conv
  show "\<not> I_Valid (memdbSnapIter_methods db) i" if "snap_visits db i = Some (some_values [])"
    using that by (auto simp: step split: if_splits)
  show "I_Valid (memdbSnapIter_methods db) i \<and> I_Key (memdbSnapIter_methods db) i = k \<and> I_Value (memdbSnapIter_methods db) i = Some v \<and>
      (\<exists>i'. I_Next (memdbSnapIter_methods db) i = Some (None, i') \<and> snap_visits db i' = Some (some_values kvs))"
    if "snap_visits db i = Some (some_values ((k, v) # kvs))"
    using that by (auto simp: step split: if_splits)
qed

text \<open>The iterator of the union store: the buffer's with any other.\<close>

interpretation store_union: union_of_iterators "memdbIterator_methods db" "\<lambda>i kvs. visits entry db i = Some (some_values kvs)" S "\<lambda>i kvs. drain S i = Some (Inr kvs)"
  ..

end
