(* ===== verification/Union_Theorems.thy ===== *)
theory Union_Theorems
  imports Union_Facts
begin

text \<open>
  What the union store reads: the buffer's map over the snapshot's, by key and by iterator in either direction.
\<close>

section \<open>The snapshot\<close>

definition entries_in :: "(bytes \<rightharpoonup> bytes) \<Rightarrow> bytes \<Rightarrow> bytes option \<Rightarrow> (bytes \<times> bytes) set" where
  "entries_in m k upper = {(k', v) | k' v. m k' = Some v \<and> k \<le> k' \<and> (case upper of None \<Rightarrow> True | Some e \<Rightarrow> k' < e)}"

text \<open>What the snapshot's interface promises for a map: reads, and iterators in order, without errors of their own.\<close>

definition snapshot_of :: "('s, 'e) Snapshot \<Rightarrow> (bytes \<rightharpoonup> bytes) \<Rightarrow> 'e \<Rightarrow> bool" where
  "snapshot_of sn s notFound =
     ((\<forall>k. S_Get sn k = Some (case s k of None \<Rightarrow> Inl notFound | Some v \<Rightarrow> Inr v)) \<and>
      (\<forall>k upper. \<exists>i kvs. S_Iter sn k upper = Some (Inr i) \<and> drain (S_Iterator sn) i = Some (Inr kvs) \<and> ordered False kvs \<and> set kvs = entries_in s k upper) \<and>
      (\<forall>upper. \<exists>i kvs. S_IterReverse sn upper = Some (Inr i) \<and> drain (S_Iterator sn) i = Some (Inr kvs) \<and> ordered True kvs \<and>
         set kvs = entries_in s [] (if upper = Some [] then None else upper)))"

text \<open>A snapshot over a list of entries, whose iterators are the entries to come.\<close>

definition list_Iterator :: "((bytes \<times> bytes) list, 'e) Iterator" where
  "list_Iterator =
     \<lparr>I_Valid = (\<lambda>l. l \<noteq> []), I_Key = (\<lambda>l. fst (hd l)), I_Value = (\<lambda>l. map_option snd (if l = [] then None else Some (hd l))),
      I_Next = (\<lambda>l. Some (None, tl l))\<rparr>"

interpretation list_iterator: iterator_contract "list_Iterator" "(=)"
  by unfold_locales (auto simp: list_Iterator_def)

definition in_range :: "bytes \<Rightarrow> bytes option \<Rightarrow> bytes \<Rightarrow> bool" where
  "in_range k upper k' = (k \<le> k' \<and> (case upper of None \<Rightarrow> True | Some e \<Rightarrow> k' < e))"

definition list_Snapshot :: "(bytes \<times> bytes) list \<Rightarrow> ((bytes \<times> bytes) list, string) Snapshot" where
  "list_Snapshot kvs =
     \<lparr>S_Get = (\<lambda>k. Some (case map_of kvs k of None \<Rightarrow> Inl ''not found'' | Some v \<Rightarrow> Inr v)),
      S_BatchGet = (\<lambda>ks. Some (Inr (map_of kvs |` set ks))),
      S_Iter = (\<lambda>k upper. Some (Inr (filter (\<lambda>kv. in_range k upper (fst kv)) kvs))),
      S_IterReverse = (\<lambda>upper. Some (Inr (rev (filter (\<lambda>kv. in_range [] (if upper = Some [] then None else upper) (fst kv)) kvs)))),
      S_Iterator = list_Iterator\<rparr>"

lemma ordered_dir: "ordered rv kvs \<longleftrightarrow> sorted_wrt (if rv then (>) else (<)) (map fst kvs)"
  unfolding ordered_def before_in_def by (cases rv) simp_all

lemma list_Snapshot_of:
  assumes "ordered False kvs"
  shows "snapshot_of (list_Snapshot kvs) (map_of kvs) ''not found''"
proof -
  have ord: "ordered False (filter P kvs)" "ordered True (rev (filter P kvs))" for P
    using assms by (auto simp: ordered_def sorted_wrt_map sorted_wrt_rev sorted_wrt_filter before_in_def)
  have "distinct (map fst kvs)"
    using assms by (simp add: ordered_dir strict_sorted_iff)
  then have "set (filter (\<lambda>kv. in_range k upper (fst kv)) kvs) = entries_in (map_of kvs) k upper" for k upper
    by (auto simp: entries_in_def in_range_def split: option.splits)
  moreover have "drain (list_Iterator :: (_, string) Iterator) l = Some (Inr l)" for l
    by (rule list_iterator.drain_yields) (rule refl)
  ultimately show ?thesis
    using ord by (simp add: snapshot_of_def list_Snapshot_def)
qed

section \<open>Reading through the buffer\<close>

lemma some_values_fst: "map fst (some_values kvs) = map fst kvs"
  by (simp add: some_values_def comp_def case_prod_unfold)

lemma entries_some_values: "set xs = entries_from m k upper \<Longrightarrow> \<exists>kvs. xs = some_values kvs \<and> set kvs = entries_in m k upper"
proof -
  assume x: "set xs = entries_from m k upper"
  define kvs where "kvs = map (\<lambda>(k, v). (k, the v)) xs"
  have "xs = some_values kvs"
    unfolding kvs_def some_values_def map_map by (rule sym, rule map_idI) (use x in \<open>auto simp: entries_from_def\<close>)
  moreover have "set kvs = entries_in m k upper"
    using x by (force simp: kvs_def entries_from_def entries_in_def)
  ultimately show ?thesis
    by blast
qed

lemma umerge_entries:
  assumes "ordered rv ds" "ordered rv ss" "set ds = entries_in m k upper" "set ss = entries_in s k upper"
  shows "set (umerge (before_in rv) ds ss) = entries_in (overlay m s) k upper"
proof -
  have "(k', v) \<in> set (umerge (before_in rv) ds ss) \<longleftrightarrow> (k', v) \<in> entries_in (overlay m s) k upper" for k' v
    using umerge_mem [OF assms(1,2), of k' v] unfolding assms(3,4) by (cases "m k'") (auto simp: entries_in_def overlay_def)
  then show ?thesis
    by auto
qed

text \<open>The buffer's iterator and the snapshot's give a union iterator over the overlay.\<close>

lemma union_of_ranges:
  assumes i: "visits entry db i = Some xs" "sorted_wrt (if rv then (>) else (<)) (map fst xs)" "set xs = entries_from m k upper"
    and j: "drain S j = Some (Inr ss)" "ordered rv ss" "set ss = entries_in s k upper"
  shows "\<exists>it kvs. NewUnionIter (memdbIterator_methods db) S i j rv = Some (Inr it) \<and>
    drain (UnionIter_methods (memdbIterator_methods db) S) it = Some (Inr kvs) \<and> ordered rv kvs \<and> set kvs = entries_in (overlay m s) k upper"
proof -
  obtain ds where ds: "xs = some_values ds" "set ds = entries_in m k upper"
    using entries_some_values [OF i(3)] by blast
  then have v: "visits entry db i = Some (some_values ds)" and o: "ordered rv ds"
    using i(1,2) by (simp_all add: ordered_dir some_values_fst)
  obtain it where "NewUnionIter (memdbIterator_methods db) S i j rv = Some (Inr it)"
      "drain (UnionIter_methods (memdbIterator_methods db) S) it = Some (Inr (umerge (before_in rv) ds ss))"
    using store_union.NewUnionIter_drains [OF v j(1)] by blast
  then show ?thesis
    using umerge_ordered [OF o j(2)] umerge_entries [OF o j(2) ds(2) j(3)] by blast
qed

lemma us_Get_overlay:
  assumes "memdb_Get k (memBuffer us) = Some (case m k of None \<Rightarrow> Inl ErrNotExist | Some v \<Rightarrow> Inr v)"
    and "S_Get (snapshot us) k = Some (case s k of None \<Rightarrow> Inl notFound | Some v \<Rightarrow> Inr v)"
  shows "us_Get k us = Some (if m k = None \<and> s k = None then Inl (SnapErr notFound)
    else case overlay m s k of None \<Rightarrow> Inl (BufErr ErrNotExist) | Some v \<Rightarrow> if v = [] then Inl (BufErr ErrNotExist) else Inr v)"
  using assms by (auto simp: us_Get_def overlay_def split: option.splits)

text \<open>
  C5. The union store reads the buffer over the snapshot: when the buffer is what a run of operations that a
  stack of maps allows leaves, and the snapshot reads and iterates a map \<open>s\<close>, then \<open>Get\<close> returns the buffer's value,
  else the snapshot's, and a not-found error for a key the buffer deleted; \<open>Iter\<close> and \<open>IterReverse\<close> return an iterator
  whose loop ends and visits exactly the keys of that overlay within the bounds, in order, each once, with
  their values, the keys deleted in the buffer left out.
\<close>

theorem union_store_reads_the_overlay:
  assumes ops: "run_ops map_step ops (Map.empty, []) = Some (m, st)" "\<forall>op \<in> set ops. op_fits lim op" "2 * length ops < max_blocks"
    and buf: "run_ops buf_step ops (newMemDB lim cap test) = Some (memBuffer us)" and sn: "snapshot_of (snapshot us) s notFound"
  shows "(\<forall>k. us_Get k us = Some (if m k = None \<and> s k = None then Inl (SnapErr notFound)
      else case overlay m s k of None \<Rightarrow> Inl (BufErr ErrNotExist) | Some v \<Rightarrow> if v = [] then Inl (BufErr ErrNotExist) else Inr v)) \<and>
    (\<forall>k upper. \<exists>it kvs. us_Iter k upper us = Some (Inr it) \<and>
      drain (UnionIter_methods (memdbIterator_methods (memBuffer us)) (S_Iterator (snapshot us))) it = Some (Inr kvs) \<and>
      sorted_wrt (<) (map fst kvs) \<and> set kvs = entries_in (overlay m s) k upper) \<and>
    (\<forall>upper. \<exists>it kvs. us_IterReverse upper us = Some (Inr it) \<and>
      drain (UnionIter_methods (memdbIterator_methods (memBuffer us)) (S_Iterator (snapshot us))) it = Some (Inr kvs) \<and>
      sorted_wrt (>) (map fst kvs) \<and> set kvs = entries_in (overlay m s) [] (if upper = Some [] then None else upper))"
proof (intro conjI allI)
  have r: "represents (2 * length ops) (memBuffer us) m st"
    using run_represents [OF ops, of cap test] buf by simp
  show "us_Get k us = Some (if m k = None \<and> s k = None then Inl (SnapErr notFound)
      else case overlay m s k of None \<Rightarrow> Inl (BufErr ErrNotExist) | Some v \<Rightarrow> if v = [] then Inl (BufErr ErrNotExist) else Inr v)" for k
    using us_Get_overlay [of k us m notFound s, OF Get_reads_the_map [OF r ops(3)]] sn by (simp add: snapshot_of_def)
  show "\<exists>it kvs. us_Iter k upper us = Some (Inr it) \<and>
      drain (UnionIter_methods (memdbIterator_methods (memBuffer us)) (S_Iterator (snapshot us))) it = Some (Inr kvs) \<and>
      sorted_wrt (<) (map fst kvs) \<and> set kvs = entries_in (overlay m s) k upper" for k upper
  proof -
    obtain i xs where i: "Iter (memBuffer us) k upper = Some i" "visits entry (memBuffer us) i = Some xs" "sorted_wrt (<) (map fst xs)"
        "set xs = entries_from m k upper"
      using Iter_enumerates [OF r ops(3)] by blast
    obtain j ss where j: "S_Iter (snapshot us) k upper = Some (Inr j)" "drain (S_Iterator (snapshot us)) j = Some (Inr ss)" "ordered False ss"
        "set ss = entries_in s k upper"
      using sn unfolding snapshot_of_def by blast
    show ?thesis
      using union_of_ranges [OF i(2) _ i(4) j(2,3,4)] i(1,3) j(1) by (simp add: us_Iter_def ordered_dir)
  qed
  show "\<exists>it kvs. us_IterReverse upper us = Some (Inr it) \<and>
      drain (UnionIter_methods (memdbIterator_methods (memBuffer us)) (S_Iterator (snapshot us))) it = Some (Inr kvs) \<and>
      sorted_wrt (>) (map fst kvs) \<and> set kvs = entries_in (overlay m s) [] (if upper = Some [] then None else upper)" for upper
  proof -
    obtain i xs where i: "IterReverse (memBuffer us) upper = Some i" "visits entry (memBuffer us) i = Some xs" "sorted_wrt (>) (map fst xs)"
        "set xs = entries_from m [] (if upper = Some [] then None else upper)"
      using IterReverse_enumerates [OF r ops(3)] by blast
    obtain j ss where j: "S_IterReverse (snapshot us) upper = Some (Inr j)" "drain (S_Iterator (snapshot us)) j = Some (Inr ss)" "ordered True ss"
        "set ss = entries_in s [] (if upper = Some [] then None else upper)"
      using sn unfolding snapshot_of_def by blast
    show ?thesis
      using union_of_ranges [OF i(2) _ i(4) j(2,3,4)] i(1,3) j(1) by (simp add: us_IterReverse_def ordered_dir)
  qed
qed

theorem union_store_reads_the_overlay_witness:
  "\<exists>us :: ((bytes \<times> bytes) list, string, int, int) unionStore.
    us_Get [1] us = Some (Inr [7]) \<and> us_Get [2] us = Some (Inl (BufErr ErrNotExist)) \<and> us_Get [3] us = Some (Inr [30]) \<and>
    (\<exists>it kvs. us_Iter [] None us = Some (Inr it) \<and>
      drain (UnionIter_methods (memdbIterator_methods (memBuffer us)) (S_Iterator (snapshot us))) it = Some (Inr kvs) \<and>
      ([1], [7]) \<in> set kvs \<and> ([2], [20]) \<notin> set kvs \<and> ([3], [30]) \<in> set kvs)"
proof -
  let ?ops = "[OpSet [1] [7] [], OpDelete [2]]" and ?m = "[[1] \<mapsto> [7], [2] \<mapsto> []] :: bytes \<rightharpoonup> bytes"
    and ?s = "map_of [([2], [20]), ([3], [30])] :: bytes \<rightharpoonup> bytes"
  have f: "\<forall>op \<in> set ?ops. op_fits 100 op" "2 * length ?ops < max_blocks" "run_ops map_step ?ops (Map.empty, []) = Some (?m, [])"
    by (simp_all add: maxBlockSize_def max_blocks_def)
  obtain db where db: "run_ops buf_step ?ops (newMemDB 100 100 False) = Some db"
    using run_represents [OF f(3,1,2)] by blast
  define us :: "((bytes \<times> bytes) list, string, int, int) unionStore"
    where "us = (NewUnionStore 100 100 False (list_Snapshot [([2], [20]), ([3], [30])]))\<lparr>memBuffer := db\<rparr>"
  have sn: "snapshot_of (snapshot us) ?s ''not found''"
    unfolding us_def NewUnionStore_def using list_Snapshot_of [of "[([2], [20]), ([3], [30])]"] by (simp add: ordered_def before_in_def)
  have buf: "run_ops buf_step ?ops (newMemDB 100 100 False) = Some (memBuffer us)"
    using db by (simp add: us_def NewUnionStore_def)
  note u = union_store_reads_the_overlay [OF f(3,1,2) buf sn]
  obtain it kvs where it: "us_Iter [] None us = Some (Inr it)"
      "drain (UnionIter_methods (memdbIterator_methods (memBuffer us)) (S_Iterator (snapshot us))) it = Some (Inr kvs)"
      "set kvs = entries_in (overlay ?m ?s) [] None"
    using u by blast
  have "([1], [7]) \<in> set kvs" "([2], [20]) \<notin> set kvs" "([3], [30]) \<in> set kvs"
    unfolding it(3) by (simp_all add: entries_in_def overlay_def)
  then show ?thesis
    using u it(1,2) by (intro exI [of _ us]) (simp add: overlay_def)
qed

end
