(* ===== verification/Kv_Utils_Facts.thy ===== *)
theory Kv_Utils_Facts
  imports Kv_Utils Union_Theorems
begin

text \<open>
  Decimal numbers read back what was written, counters count modulo the width of their numbers, a walk visits the
  entries in order, and batch reads see the buffer over the snapshot.
\<close>

section \<open>Decimal numbers\<close>

lemma unat_digit: "d < 10 \<Longrightarrow> unat (of_nat (48 + d) :: byte) = 48 + d"
  by (simp add: unat_of_nat take_bit_eq_mod del: of_nat_add)

lemma ParseUint_loop_digit: "d < 10 \<Longrightarrow> 10 * n + d < 2 ^ 64 \<Longrightarrow> ParseUint_loop (of_nat (48 + d) # cs) n = ParseUint_loop cs (10 * n + d)"
proof -
  assume d: "d < 10" and b: "10 * n + d < 2 ^ 64"
  have u: "unat (of_nat (48 + d) :: byte) = 48 + d" "unat (of_nat d :: byte) = d"
    using d unat_digit by (simp_all add: unat_of_nat take_bit_eq_mod del: of_nat_add)
  have "(48 :: byte) \<le> of_nat (48 + d)" "of_nat (48 + d) \<le> (57 :: byte)"
    using d u(1) by (simp_all add: word_le_nat_alt)
  moreover have "unat (of_nat (48 + d) - 48 :: byte) = d"
    using u(2) by simp
  ultimately show ?thesis
    using b by simp
qed

lemma ParseUint_loop_digits: "n < 2 ^ 64 \<Longrightarrow> ParseUint_loop (rev (digits_rev n) @ cs) 0 = ParseUint_loop cs n"
proof (induction n arbitrary: cs rule: digits_rev.induct)
  case (1 n)
  show ?case
  proof (cases "n < 10")
    case True
    then show ?thesis
      using ParseUint_loop_digit [of n 0 cs] by (simp add: digits_rev.simps [of n] del: ParseUint_loop.simps of_nat_add)
  next
    case False
    have "10 * (n div 10) + n mod 10 = n"
      by simp
    then show ?thesis
      using False 1 ParseUint_loop_digit [of "n mod 10" "n div 10" cs]
      by (simp add: digits_rev.simps [of n] del: ParseUint_loop.simps of_nat_add mult_div_mod_eq)
  qed
qed

lemma digits_rev_last: "\<exists>d < 10. last (digits_rev n) = of_nat (48 + d)"
proof (induction n rule: digits_rev.induct)
  case (1 n)
  have "digits_rev m \<noteq> []" for m
    by (simp add: digits_rev.simps [of m])
  then show ?case
    using 1 by (auto simp: digits_rev.simps [of n] simp del: of_nat_add)
qed

lemma digits_rev_Nil [simp]: "digits_rev n \<noteq> []"
  by (simp add: digits_rev.simps [of n])

lemma digits_rev_hd: "hd (rev (digits_rev n)) \<noteq> 43" "hd (rev (digits_rev n)) \<noteq> 45"
proof -
  obtain d where d: "d < 10" "last (digits_rev n) = of_nat (48 + d)"
    using digits_rev_last by blast
  have "unat (last (digits_rev n)) \<noteq> 43" "unat (last (digits_rev n)) \<noteq> 45"
    unfolding d(2) unat_digit [OF d(1)] by simp_all
  then show "hd (rev (digits_rev n)) \<noteq> 43" "hd (rev (digits_rev n)) \<noteq> 45"
    by (auto simp: hd_rev)
qed

lemma ParseInt_FormatInt_bytes:
  assumes "- (2 ^ 63) \<le> i" and "i < 2 ^ 63"
  shows "ParseInt (FormatInt_bytes i) = (i, None)"
proof -
  have p: "ParseUint (rev (digits_rev n)) = Inr n" if "n < 2 ^ 64" for n
    using ParseUint_loop_digits [OF that, of "[]"] by (simp add: ParseUint_def)
  show ?thesis
  proof (cases "i < 0")
    case True
    then show ?thesis
      using p [of "nat (- i)"] assms by (simp add: FormatInt_bytes_def ParseInt_def Let_def nat_less_iff)
  next
    case False
    then show ?thesis
      using p [of "nat i"] digits_rev_hd [of "nat i"] assms by (simp add: FormatInt_bytes_def ParseInt_def Let_def nat_less_iff nat_le_iff)
  qed
qed

lemma digits_rev_length: "n < 10 ^ Suc d \<Longrightarrow> length (digits_rev n) \<le> Suc d"
proof (induction d arbitrary: n)
  case 0
  then show ?case
    by (simp add: digits_rev.simps [of n])
next
  case (Suc d)
  then show ?case
    using Suc.IH [of "n div 10"] by (simp add: digits_rev.simps [of n] less_mult_imp_div_less)
qed

lemma FormatInt_bytes_length:
  assumes "- (2 ^ 63) \<le> i" and "i < 2 ^ 63"
  shows "length (FormatInt_bytes i) \<le> 20" and "FormatInt_bytes i \<noteq> []"
proof -
  have "nat \<bar>i\<bar> < 10 ^ Suc 18"
    using assms by simp
  then have "length (digits_rev (nat \<bar>i\<bar>)) \<le> Suc 18"
    by (rule digits_rev_length)
  then show "length (FormatInt_bytes i) \<le> 20" "FormatInt_bytes i \<noteq> []"
    by (auto simp: FormatInt_bytes_def abs_if split: if_splits)
qed

section \<open>Counters\<close>

lemma sint_int64: "- (2 ^ 63) \<le> i \<Longrightarrow> i < 2 ^ 63 \<Longrightarrow> sint (word_of_int i :: 64 word) = i"
  by (simp add: sint_sbintrunc' signed_take_bit_int_eq_self)

text \<open>
  A store of a bounded size that holds a map; a write uses two units of the bound. The errors of a write are
  its own; the write happens all the same.
\<close>

locale counter_store =
  fixes M :: "('s, 'e) RetrieverMutator" and holds :: "nat \<Rightarrow> 's \<Rightarrow> (bytes \<rightharpoonup> bytes) \<Rightarrow> bool" and fits :: "'s \<Rightarrow> bytes \<Rightarrow> bytes \<Rightarrow> bool" and limit :: nat
  assumes get_none: "holds n s m \<Longrightarrow> n < limit \<Longrightarrow> m k = None \<Longrightarrow> \<exists>e. rm_Get M k s = Some (Inl e) \<and> rm_IsErrNotFound M e"
    and get_some: "holds n s m \<Longrightarrow> n < limit \<Longrightarrow> m k = Some v \<Longrightarrow> rm_Get M k s = Some (Inr v)"
    and set: "holds n s m \<Longrightarrow> n + 2 \<le> limit \<Longrightarrow> fits s k v \<Longrightarrow> v \<noteq> [] \<Longrightarrow>
      \<exists>err s'. rm_Set M k v s = Some (err, s') \<and> holds (n + 2) s' (m(k \<mapsto> v)) \<and> fits s' = fits s"
begin

definition counts :: "bytes \<Rightarrow> (bytes \<rightharpoonup> bytes) \<Rightarrow> int \<Rightarrow> bool" where
  "counts k m c = (- (2 ^ 63) \<le> c \<and> c < 2 ^ 63 \<and> (case m k of None \<Rightarrow> c = 0 | Some v \<Rightarrow> v = FormatInt_bytes c))"

lemma GetInt64_counts: "holds n s m \<Longrightarrow> n < limit \<Longrightarrow> counts k m c \<Longrightarrow> GetInt64 M k s = Some (c, None)"
proof (cases "m k")
  case None
  assume "holds n s m" "n < limit" "counts k m c"
  then show ?thesis
    using get_none [of n s m k] None by (fastforce simp: counts_def GetInt64_def)
next
  case (Some v)
  assume "holds n s m" "n < limit" "counts k m c"
  then show ?thesis
    using get_some [of n s m k v] Some ParseInt_FormatInt_bytes [of c] by (simp add: counts_def GetInt64_def)
qed

lemma IncInt64_counts:
  assumes h: "holds n s m" and n: "n + 2 \<le> limit" and c: "counts k m c" and step: "- (2 ^ 63) \<le> step" "step < 2 ^ 63"
    and fits: "\<And>v. length v \<le> 20 \<Longrightarrow> fits s k v"
  shows "\<exists>r err s' m'. IncInt64 M k step s = Some ((r, err), s') \<and> (err = None \<longrightarrow> r = int64_add c step) \<and> holds (n + 2) s' m' \<and>
    counts k m' (int64_add c step) \<and> fits s' = fits s"
proof -
  let ?c = "int64_add c step"
  have b: "- (2 ^ 63) \<le> ?c" "?c < 2 ^ 63"
    using sint_greater_eq [of "word_of_int (c + step) :: 64 word"] sint_less [of "word_of_int (c + step) :: 64 word"] by (simp_all add: int64_add_def)
  have zero: "int64_add 0 step = step"
    using sint_int64 [OF step] by (simp add: int64_add_def)
  obtain err s' where st: "rm_Set M k (FormatInt_bytes ?c) s = Some (err, s')" "holds (n + 2) s' (m(k \<mapsto> FormatInt_bytes ?c))" "fits s' = fits s"
    using set [OF h n fits [OF FormatInt_bytes_length(1) [OF b]] FormatInt_bytes_length(2) [OF b]] by blast
  have "IncInt64 M k step s = IncInt64_store M k ?c s"
  proof (cases "m k")
    case None
    then show ?thesis
      using get_none [OF h _ None] n c zero by (auto simp: IncInt64_def counts_def)
  next
    case (Some v)
    then show ?thesis
      using get_some [OF h _ Some] n c ParseInt_FormatInt_bytes by (auto simp: IncInt64_def counts_def)
  qed
  then show ?thesis
    using st b by (auto simp: IncInt64_store_def counts_def split: option.splits)
qed

text \<open>A run of increments.\<close>

lemma increments_count:
  "holds n s m \<Longrightarrow> n + 2 * length steps \<le> limit \<Longrightarrow> counts k m c \<Longrightarrow> \<forall>x \<in> List.set steps. - (2 ^ 63) \<le> x \<and> x < 2 ^ 63 \<Longrightarrow>
   (\<And>v. length v \<le> 20 \<Longrightarrow> fits s k v) \<Longrightarrow>
   \<exists>s' m'. run_ops (\<lambda>x s. map_option snd (IncInt64 M k x s)) steps s = Some s' \<and> holds (n + 2 * length steps) s' m' \<and>
     counts k m' (sint (word_of_int (c + sum_list steps) :: 64 word))"
proof (induction steps arbitrary: n s m c)
  case Nil
  then have "sint (word_of_int c :: 64 word) = c"
    by (simp add: counts_def sint_int64)
  then show ?case
    using Nil by auto
next
  case (Cons x steps)
  have x: "n + 2 \<le> limit" "- (2 ^ 63) \<le> x" "x < 2 ^ 63"
    using Cons.prems(2,4) by auto
  obtain r err s1 m1 where s1: "IncInt64 M k x s = Some ((r, err), s1)" "holds (n + 2) s1 m1" "counts k m1 (int64_add c x)" "fits s1 = fits s"
    using IncInt64_counts [OF Cons.prems(1) x(1) Cons.prems(3) x(2,3) Cons.prems(5)] by blast
  have "word_of_int (int64_add c x + sum_list steps) = (word_of_int (c + sum_list (x # steps)) :: 64 word)"
    by (simp add: int64_add_def algebra_simps)
  moreover have "\<exists>s' m'. run_ops (\<lambda>x s. map_option snd (IncInt64 M k x s)) steps s1 = Some s' \<and> holds (n + 2 + 2 * length steps) s' m' \<and>
      counts k m' (sint (word_of_int (int64_add c x + sum_list steps) :: 64 word))"
    by (rule Cons.IH [OF s1(2) _ s1(3)]) (use Cons.prems(2,4,5) s1(4) in auto)
  ultimately show ?case
    using s1(1) by (simp add: algebra_simps)
qed

end

interpretation buffer_counter: counter_store memdb_methods "\<lambda>n db m. \<exists>st. represents n db m st" entry_ok max_blocks
proof
  fix n s m k v
  assume h: "\<exists>st. represents n s m st"
  show "\<exists>e. rm_Get memdb_methods k s = Some (Inl e) \<and> rm_IsErrNotFound memdb_methods e" if "n < max_blocks" "m k = None"
    using h Get_reads_the_map [OF _ that(1)] that(2) by (fastforce simp: memdb_methods_def)
  show "rm_Get memdb_methods k s = Some (Inr v)" if "n < max_blocks" "m k = Some v"
    using h Get_reads_the_map [OF _ that(1)] that(2) by (fastforce simp: memdb_methods_def)
  show "\<exists>err s'. rm_Set memdb_methods k v s = Some (err, s') \<and> (\<exists>st. represents (n + 2) s' (m(k \<mapsto> v)) st) \<and> entry_ok s' = entry_ok s"
    if lim: "n + 2 \<le> max_blocks" and ok: "entry_ok s k v" and ne: "v \<noteq> []"
  proof -
    obtain st where st: "represents n s m st"
      using h by blast
    have "Suc n < max_blocks"
      using lim by simp
    then obtain err s' where s': "set_entry k (Some v) [] s = Some (err, s')" "represents (n + 2) s' (m(k \<mapsto> v)) st" "same_limits s s'"
      using set_entry_updates_the_map [OF st _ ok, of "[]"] by blast
    then show ?thesis
      using ne by (auto simp: memdb_methods_def memdb_Set_def entry_ok_def same_limits_def fun_eq_iff)
  qed
qed

text \<open>
  C29. Counters in the buffer count modulo 64 bits: after any number of calls of \<open>IncInt64\<close> on a key of a fresh buffer,
  with steps within the range of 64-bit integers and an entry limit that leaves twenty bytes for the number, \<open>GetInt64\<close>
  returns the sum of the steps as a 64-bit integer, wrapped where it overflows, without an error; the
  numbers are written and parsed back in decimal.
\<close>

theorem IncInt64_counts_modulo_64_bits:
  assumes "\<forall>x \<in> set steps. - (2 ^ 63) \<le> x \<and> x < 2 ^ 63" and "length k < 65536" and "length k + 20 \<le> unat lim" and "2 * length steps < max_blocks"
  shows "\<exists>db. run_ops (\<lambda>x db. map_option snd (IncInt64 memdb_methods k x db)) steps (newMemDB lim cap test) = Some db \<and>
    GetInt64 memdb_methods k db = Some (sint (word_of_int (sum_list steps) :: 64 word), None)"
proof -
  have "entry_ok (newMemDB lim cap test) k v" if "length v \<le> 20" for v
    using that assms(2,3) by (simp add: entry_ok_def newMemDB_def maxBlockSize_def)
  moreover have "\<exists>st. represents 0 (newMemDB lim cap test) Map.empty st"
    using newMemDB_represents by blast
  moreover have "buffer_counter.counts k Map.empty 0"
    by (simp add: buffer_counter.counts_def)
  ultimately obtain db m where db: "run_ops (\<lambda>x db. map_option snd (IncInt64 memdb_methods k x db)) steps (newMemDB lim cap test) = Some db"
      "\<exists>st. represents (2 * length steps) db m st" "buffer_counter.counts k m (sint (word_of_int (sum_list steps) :: 64 word))"
    using buffer_counter.increments_count [of 0 "newMemDB lim cap test" Map.empty steps k 0] assms(1,4) by auto
  then show ?thesis
    using buffer_counter.GetInt64_counts [OF db(2) assms(4) db(3)] by blast
qed

theorem IncInt64_counts_modulo_64_bits_witness:
  "\<exists>db. run_ops (\<lambda>x db. map_option snd (IncInt64 memdb_methods [9] x db)) [9223372036854775807, 2] (newMemDB 100 1000 False) = Some db \<and>
    GetInt64 memdb_methods [9] db = Some (- 9223372036854775807, None)"
  using IncInt64_counts_modulo_64_bits [of "[9223372036854775807, 2]" "[9]" 100 1000 False] by (simp add: max_blocks_def)

section \<open>Walks\<close>

primrec walk_entries :: "(bytes \<Rightarrow> bytes \<Rightarrow> 'st \<Rightarrow> 'e option \<times> 'st) \<Rightarrow> (bytes \<times> bytes) list \<Rightarrow> 'st \<Rightarrow> 'e option \<times> 'st" where
  "walk_entries f [] st = (None, st)"
| "walk_entries f (kv # kvs) st =
     (let r = f (fst kv) (snd kv) st in case fst r of Some e \<Rightarrow> (Some e, snd r) | None \<Rightarrow> walk_entries f kvs (snd r))"

context iterator_contract begin

lemma walk_yields: "yields i kvs \<Longrightarrow> WalkMemBuffer_loop M f i st = Some (walk_entries f kvs st)"
proof (induction kvs arbitrary: i st)
  case Nil
  then show ?case
    using at_end by (simp add: WalkMemBuffer_loop.simps)
next
  case (Cons kv kvs)
  obtain k v where kv: "kv = (k, v)"
    by (cases kv)
  then obtain i' where "I_Valid M i" "I_Key M i = k" "I_Value M i = Some v" "I_Next M i = Some (None, i')" "yields i' kvs"
    using at_entry Cons.prems by blast
  then show ?case
    using Cons.IH kv by (simp add: WalkMemBuffer_loop.simps [of M f i] Let_def split: option.splits)
qed

end

text \<open>
  \<open>WalkMemBuffer\<close> calls its function on every entry of the buffer in the order of the keys, hands the state
  on, and stops at the first error, which it returns: its result is that of the walk over the sorted list
  of the map's entries.
\<close>

theorem WalkMemBuffer_visits_in_order:
  assumes "run_ops map_step ops (Map.empty, []) = Some (m, st)" and "\<forall>op \<in> set ops. op_fits lim op" and "2 * length ops < max_blocks"
  shows "\<exists>db kvs. run_ops buf_step ops (newMemDB lim cap test) = Some db \<and> sorted_wrt (<) (map fst kvs) \<and> set kvs = entries_in m [] None \<and>
    (\<forall>f x. WalkMemBuffer db f x = Some (walk_entries f kvs x :: 'e option \<times> 'st))"
proof -
  obtain db where db: "run_ops buf_step ops (newMemDB lim cap test) = Some db" "represents (2 * length ops) db m st"
    using run_represents [OF assms] by blast
  obtain i xs where i: "Iter db [] None = Some i" "visits entry db i = Some xs" "sorted_wrt (<) (map fst xs)" "set xs = entries_from m [] None"
    using Iter_enumerates [OF db(2) assms(3)] by blast
  obtain kvs where kvs: "xs = some_values kvs" "set kvs = entries_in m [] None"
    using entries_some_values [OF i(4)] by blast
  have "WalkMemBuffer db f x = Some (walk_entries f kvs x)" for f and x :: 'st
    using buffer_iterator.walk_yields [of db i kvs f x] i(1,2) kvs(1) by (simp add: WalkMemBuffer_def)
  then show ?thesis
    using db(1) i(3) kvs by (auto simp: some_values_fst)
qed

theorem WalkMemBuffer_visits_in_order_witness:
  "\<exists>db kvs. run_ops buf_step [OpSet [2] [7] [], OpSet [1] [8] []] (newMemDB 100 100 False) = Some db \<and> set kvs = entries_in [[2] \<mapsto> [7], [1] \<mapsto> [8]] [] None \<and>
    WalkMemBuffer db (\<lambda>k v n. (None :: int option, n + 1)) (0 :: int) = Some (walk_entries (\<lambda>k v n. (None, n + 1)) kvs 0)"
  using WalkMemBuffer_visits_in_order [of "[OpSet [2] [7] [], OpSet [1] [8] []]" "[[2] \<mapsto> [7], [1] \<mapsto> [8]]" "[]" 100 100 False, where 'e = int and 'st = int]
  by (fastforce simp: maxBlockSize_def max_blocks_def)

section \<open>Batch reads\<close>

text \<open>The map of a cache that may be missing.\<close>

definition cache_of :: "(bytes \<Rightarrow> ('e + bytes) option) option \<Rightarrow> (bytes \<rightharpoonup> bytes) \<Rightarrow> bool" where
  "cache_of mid c = (case mid of None \<Rightarrow> c = Map.empty | Some get \<Rightarrow> \<forall>k. \<exists>r. get k = Some r \<and> (case r of Inl e \<Rightarrow> c k = None | Inr v \<Rightarrow> c k = Some v))"

lemma batch_lookup_reads:
  assumes "\<And>k. memdb_Get k (buffer b) = Some (case m k of None \<Rightarrow> Inl ErrNotExist | Some v \<Rightarrow> Inr v)" and "cache_of (midbse b) c"
  shows "batch_lookup b k = Some (Inr ((c ++ m) k))"
proof (cases "m k")
  case None
  show ?thesis
  proof (cases "midbse b")
    case mid: (Some get)
    then obtain r where "get k = Some r" "case r of Inl e \<Rightarrow> c k = None | Inr v \<Rightarrow> c k = Some v"
      using assms(2) by (auto simp: cache_of_def)
    then show ?thesis
      using assms(1) [of k] None mid by (auto simp: batch_lookup_def map_add_def split: sum.splits)
  qed (use assms None in \<open>simp add: batch_lookup_def cache_of_def\<close>)
qed (use assms(1) [of k] in \<open>simp add: batch_lookup_def\<close>)

lemma batch_loop_collects:
  "(\<And>k. batch_lookup b k = Some (Inr (look k))) \<Longrightarrow>
   batch_loop b keys bvs sk = Some (Inr (bvs @ map look keys, sk @ filter (\<lambda>k. look k = None) keys))"
proof (induction keys arbitrary: bvs sk)
  case (Cons k keys)
  then show ?case
    by (cases "look k") simp_all
qed simp

lemma batch_fill_at:
  "batch_fill (zip keys (map look keys)) m0 k = (if k \<in> set keys \<and> look k \<noteq> None \<and> look k \<noteq> Some [] then look k else m0 k)"
proof (induction keys arbitrary: m0)
  case (Cons k' keys)
  then show ?case
    by (auto simp: batch_fill_def split: option.splits)
qed (simp add: batch_fill_def)

lemma Len_zero_empty:
  assumes "represents n db m st" and "Len db = 0"
  shows "m = Map.empty"
proof -
  obtain t es bases where i: "memdb_inv n db t es bases" and m: "m = kval (node_key db) es"
    using assms(1) by (auto simp: represents_def)
  then have "addrs t = []"
    using assms(2) by (simp add: memdb_inv_def buf_ok_def Len_def)
  then have "es = []"
    using inv_nodes [OF i] by (cases es) force+
  then show ?thesis
    by (simp add: m)
qed

text \<open>
  C28. A batch read sees the buffer over the cache over the snapshot: when the buffer is what a run of operations
  that a stack of maps allows leaves, the cache, if there is one, answers from a map \<open>c\<close> (any error of it counts as
  no entry) and the snapshot's batch read succeeds and answers from a map \<open>s\<close>, \<open>BatchGet\<close> returns for exactly the
  given keys the buffer's value, else the cache's, else the snapshot's, and nothing for a key whose value in the
  buffer or the cache is empty, that is, deleted. The cache is asked only when the buffer has keys: with an empty
  buffer the code's first branch returns the snapshot's answer as it is, whatever the cache holds.
\<close>

theorem BatchGet_reads_the_overlay:
  assumes ops: "run_ops map_step ops (Map.empty, []) = Some (m, st)" "\<forall>op \<in> set ops. op_fits lim op" "2 * length ops < max_blocks"
    and buf: "run_ops buf_step ops (newMemDB lim cap test) = Some (buffer b)" and mid: "cache_of (midbse b) c"
    and sn: "\<forall>ks. S_BatchGet (bbg_snapshot b) ks = Some (Inr (s |` set ks))"
  shows "bbg_BatchGet b keys = Some (Inr (overlay (if Len (buffer b) = 0 then Map.empty else c ++ m) s |` set keys))"
proof -
  have r: "represents (2 * length ops) (buffer b) m st"
    using run_represents [OF ops, of cap test] buf by simp
  show ?thesis
  proof (cases "Len (buffer b) = 0")
    case True
    then show ?thesis
      using sn by (simp add: bbg_BatchGet_def overlay_def)
  next
    case False
    have lp: "batch_loop b keys [] [] = Some (Inr (map (c ++ m) keys, filter (\<lambda>k. (c ++ m) k = None) keys))"
      using batch_loop_collects [OF batch_lookup_reads [OF Get_reads_the_map [OF r ops(3)] mid], of keys "[]" "[]"] by simp
    have "batch_fill (zip keys (map (c ++ m) keys)) (s |` set (filter (\<lambda>k. (c ++ m) k = None) keys)) = overlay (c ++ m) s |` set keys"
      by (rule ext) (auto simp: batch_fill_at overlay_def restrict_map_def split: option.splits)
    then show ?thesis
      using False lp sn by (simp add: bbg_BatchGet_def)
  qed
qed

theorem BatchGet_reads_the_overlay_witness:
  "\<exists>db r. bbg_BatchGet (NewBufferBatchGetter db (Some (\<lambda>k. Some (if k = [4] then Inr [40] else if k = [3] then Inr [] else Inl ''no entry'')))
       (list_Snapshot [([2], [20]), ([3], [30]), ([4], [44]), ([5], [50])])) [[1], [2], [3], [4], [5], [6]] = Some (Inr r) \<and>
     r [1] = Some [7] \<and> r [2] = None \<and> r [3] = None \<and> r [4] = Some [40] \<and> r [5] = Some [50] \<and> r [6] = None"
proof -
  let ?ops = "[OpSet [1] [7] [], OpDelete [2]]" and ?m = "[[1] \<mapsto> [7], [2] \<mapsto> []] :: bytes \<rightharpoonup> bytes"
    and ?c = "[[4] \<mapsto> [40], [3] \<mapsto> []] :: bytes \<rightharpoonup> bytes" and ?kvs = "[([2], [20]), ([3], [30]), ([4], [44]), ([5], [50])]"
    and ?keys = "[[1], [2], [3], [4], [5], [6]]" and ?cache = "\<lambda>k. Some (if k = [4] then Inr [40] else if k = [3] then Inr [] else Inl ''no entry'')"
  have f: "\<forall>op \<in> set ?ops. op_fits 100 op" "2 * length ?ops < max_blocks" "run_ops map_step ?ops (Map.empty, []) = Some (?m, [])"
    by (simp_all add: maxBlockSize_def max_blocks_def)
  obtain db where db: "run_ops buf_step ?ops (newMemDB 100 100 False) = Some db" "represents (2 * length ?ops) db ?m []"
    using run_represents [OF f(3,1,2)] by blast
  define b where "b = NewBufferBatchGetter db (Some ?cache) (list_Snapshot ?kvs)"
  have b: "buffer b = db" "midbse b = Some ?cache" "bbg_snapshot b = list_Snapshot ?kvs"
    by (simp_all add: b_def NewBufferBatchGetter_def)
  have "Len db \<noteq> 0"
    using Len_zero_empty [OF db(2)] by (metis map_upd_nonempty)
  then have "bbg_BatchGet b ?keys = Some (Inr (overlay (?c ++ ?m) (map_of ?kvs) |` set ?keys))"
    using BatchGet_reads_the_overlay [OF f(3,1,2), of 100 False b ?c "map_of ?kvs" ?keys] db(1) b
    by (simp add: cache_of_def list_Snapshot_def)
  then show ?thesis
    unfolding b_def by (intro exI [of _ db] exI conjI) (assumption | simp add: overlay_def)+
qed

end
