(* ===== verification/Schema_Validator.thy ===== *)
theory Schema_Validator
  imports Prelude "HOL-Library.AList" "HOL-Library.Monad_Syntax"
begin

unbundle bit_operations_syntax

text \<open>
  \<^verbatim>\<open>petri/schema_validator.go\<close> and \<^verbatim>\<open>petri/schema_checker.go\<close>: the validator that decides whether a transaction may still
  commit with the schema version it started with, and the checker that asks it. Times are numbers of nanoseconds
  since the zero time and leases numbers of nanoseconds, without the 64-bit bounds of Go's durations; the clock of the timestamp oracle, the configured number of changes to keep and the
  schema of the domain are arguments. An index out of range is \<open>None\<close>; the mutex, logs and metrics are left out.
\<close>

section \<open>Data\<close>

datatype checkResult = ResultSucc | ResultFail | ResultUnknown

record 'r RelatedSchemaChange =
  PhyTblIDS :: "int list"
  CausetActionTypes :: "u64 list"
  LatestSchemaReplicant :: "'r option"
  Amendable :: bool

record deltaSchemaInfo =
  schemaVersion :: int
  relatedIDs :: "int list"
  relatedCausetActions :: "u64 list"

record 'r schemaValidator =
  isStarted :: bool
  lease :: int
  latestSchemaVer :: int
  latestSchemaReplicant :: "'r option"
  latestSchemaExpire :: int
  deltaSchemaInfos :: "deltaSchemaInfo list"

definition millisecond :: int where
  "millisecond = 1000000"

definition NewSchemaValidator :: "int \<Rightarrow> 'r schemaValidator" where
  "NewSchemaValidator l =
     \<lparr>isStarted = True, lease = l, latestSchemaVer = 0, latestSchemaReplicant = None, latestSchemaExpire = 0, deltaSchemaInfos = []\<rparr>"

definition IsStarted :: "'r schemaValidator \<Rightarrow> bool" where
  "IsStarted s = isStarted s"

definition LatestSchemaVersion :: "'r schemaValidator \<Rightarrow> int" where
  "LatestSchemaVersion s = latestSchemaVer s"

definition sv_Stop :: "'r schemaValidator \<Rightarrow> 'r schemaValidator" where
  "sv_Stop s = s\<lparr>isStarted := False, latestSchemaVer := 0, deltaSchemaInfos := []\<rparr>"

definition sv_Restart :: "'r schemaValidator \<Rightarrow> 'r schemaValidator" where
  "sv_Restart s = s\<lparr>isStarted := True\<rparr>"

definition sv_Reset :: "'r schemaValidator \<Rightarrow> 'r schemaValidator" where
  "sv_Reset s = s\<lparr>isStarted := True, latestSchemaVer := 0, deltaSchemaInfos := []\<rparr>"

section \<open>The queue of changes\<close>

definition index :: "'a list \<Rightarrow> nat \<Rightarrow> 'a option" where
  "index xs i = (if i < length xs then Some (xs ! i) else None)"

text \<open>The inner loop of \<open>containIn\<close>, over the identifiers of the current change from position \<open>j\<close> on.\<close>

fun contain_inner :: "int \<Rightarrow> u64 option \<Rightarrow> deltaSchemaInfo \<Rightarrow> nat \<Rightarrow> int list \<Rightarrow> bool option" where
  "contain_inner lastTblID lastAction curDelta j [] = Some False"
| "contain_inner lastTblID lastAction curDelta j (curTblID # curTblIDs) =
     (if lastTblID = curTblID
      then do {
        a \<leftarrow> lastAction;
        b \<leftarrow> index (relatedCausetActions curDelta) j;
        if a = b then Some True else contain_inner lastTblID lastAction curDelta (j + 1) curTblIDs
      }
      else contain_inner lastTblID lastAction curDelta (j + 1) curTblIDs)"

fun contain_outer :: "deltaSchemaInfo \<Rightarrow> deltaSchemaInfo \<Rightarrow> nat \<Rightarrow> int list \<Rightarrow> bool option" where
  "contain_outer lastDelta curDelta i [] = Some True"
| "contain_outer lastDelta curDelta i (lastTblID # lastTblIDs) =
     do {
       isEqual \<leftarrow> contain_inner lastTblID (index (relatedCausetActions lastDelta) i) curDelta 0 (relatedIDs curDelta);
       if \<not> isEqual then Some False else contain_outer lastDelta curDelta (i + 1) lastTblIDs
     }"

definition containIn :: "deltaSchemaInfo \<Rightarrow> deltaSchemaInfo \<Rightarrow> bool option" where
  "containIn lastDelta curDelta =
     (if length (relatedIDs lastDelta) > length (relatedIDs curDelta) then Some False
      else contain_outer lastDelta curDelta 0 (relatedIDs lastDelta))"

definition enqueue :: "int \<Rightarrow> int \<Rightarrow> 'r RelatedSchemaChange option \<Rightarrow> 'r schemaValidator \<Rightarrow> 'r schemaValidator option" where
  "enqueue maxCnt version change s =
     (if maxCnt \<le> 0 then Some s
      else let delta = (case change of
                          None \<Rightarrow> \<lparr>schemaVersion = version, relatedIDs = [], relatedCausetActions = []\<rparr>
                        | Some c \<Rightarrow> \<lparr>schemaVersion = version, relatedIDs = PhyTblIDS c, relatedCausetActions = CausetActionTypes c\<rparr>);
               q = deltaSchemaInfos s
           in if length q = 0 then Some (s\<lparr>deltaSchemaInfos := q @ [delta]\<rparr>)
              else do {
                let lastOffset = length q - 1;
                contained \<leftarrow> (if lastOffset \<noteq> 0 then containIn (q ! lastOffset) delta else Some False);
                let q' = (if contained then q[lastOffset := delta] else q @ [delta]);
                Some (s\<lparr>deltaSchemaInfos := if int (length q') > maxCnt then tl q' else q'\<rparr>)
              })"

definition UFIDelate ::
  "(u64 \<Rightarrow> int) \<Rightarrow> int \<Rightarrow> 'r option \<Rightarrow> u64 \<Rightarrow> int \<Rightarrow> int \<Rightarrow> 'r RelatedSchemaChange option \<Rightarrow> 'r schemaValidator \<Rightarrow> 'r schemaValidator option" where
  "UFIDelate GetTimeFromTS maxCnt replicant leaseGrantTS oldVer currVer change s =
     (if \<not> isStarted s then Some s
      else let s1 = s\<lparr>latestSchemaVer := currVer\<rparr>;
               s2 = (case replicant of None \<Rightarrow> s1 | Some r \<Rightarrow> s1\<lparr>latestSchemaReplicant := Some r\<rparr>);
               s3 = s2\<lparr>latestSchemaExpire := GetTimeFromTS leaseGrantTS + (lease s2 - millisecond)\<rparr>
           in if currVer \<noteq> oldVer then enqueue maxCnt currVer change s3 else Some s3)"

section \<open>Checking\<close>

text \<open>The loop from the end while the version is newer; the result is where the newer changes begin.\<close>

primrec newer_pos :: "deltaSchemaInfo list \<Rightarrow> int \<Rightarrow> nat \<Rightarrow> nat \<Rightarrow> nat" where
  "newer_pos q currVer 0 pos = pos"
| "newer_pos q currVer (Suc i) pos = (if schemaVersion (q ! i) > currVer then newer_pos q currVer i i else pos)"

definition findNewerDeltas :: "'r schemaValidator \<Rightarrow> int \<Rightarrow> deltaSchemaInfo list" where
  "findNewerDeltas s currVer = (let q = deltaSchemaInfos s in drop (newer_pos q currVer (length q) (length q)) q)"

text \<open>The map of changed tables, as a list of entries.\<close>

definition or_action :: "int \<Rightarrow> u64 \<Rightarrow> (int \<times> u64) list \<Rightarrow> (int \<times> u64) list" where
  "or_action tblID a m = AList.update tblID ((case map_of m tblID of None \<Rightarrow> 0 | Some old \<Rightarrow> old) OR a) m"

primrec mark_blocks :: "int \<Rightarrow> u64 option \<Rightarrow> int list \<Rightarrow> (int \<times> u64) list \<Rightarrow> (int \<times> u64) list option" where
  "mark_blocks tblID action [] m = Some m"
| "mark_blocks tblID action (relatedTblID # blockIDs) m =
     (if tblID = relatedTblID then do { a \<leftarrow> action; mark_blocks tblID action blockIDs (or_action tblID a m) }
      else mark_blocks tblID action blockIDs m)"

fun mark_ids :: "deltaSchemaInfo \<Rightarrow> int list \<Rightarrow> nat \<Rightarrow> int list \<Rightarrow> (int \<times> u64) list \<Rightarrow> (int \<times> u64) list option" where
  "mark_ids item blockIDs i [] m = Some m"
| "mark_ids item blockIDs i (tblID # tblIDs) m =
     do { m' \<leftarrow> mark_blocks tblID (index (relatedCausetActions item) i) blockIDs m; mark_ids item blockIDs (i + 1) tblIDs m' }"

primrec mark_items :: "int list \<Rightarrow> deltaSchemaInfo list \<Rightarrow> (int \<times> u64) list \<Rightarrow> (int \<times> u64) list option" where
  "mark_items blockIDs [] m = Some m"
| "mark_items blockIDs (item # items) m = do { m' \<leftarrow> mark_ids item blockIDs 0 (relatedIDs item) m; mark_items blockIDs items m' }"

definition no_change :: "'r RelatedSchemaChange" where
  "no_change = \<lparr>PhyTblIDS = [], CausetActionTypes = [], LatestSchemaReplicant = None, Amendable = False\<rparr>"

definition isRelatedBlocksChanged :: "'r schemaValidator \<Rightarrow> int \<Rightarrow> int list \<Rightarrow> ('r RelatedSchemaChange \<times> bool) option" where
  "isRelatedBlocksChanged s currVer blockIDs =
     (if length (deltaSchemaInfos s) = 0 then Some (no_change, True)
      else let newerDeltas = findNewerDeltas s currVer
           in if length newerDeltas = length (deltaSchemaInfos s) then Some (no_change, True)
              else do {
                changedTblMap \<leftarrow> mark_items blockIDs newerDeltas [];
                if length changedTblMap > 0
                then let tblIds = sort (map fst changedTblMap)
                     in Some (no_change\<lparr>PhyTblIDS := tblIds, CausetActionTypes := map (\<lambda>tblID. the (map_of changedTblMap tblID)) tblIds,
                                Amendable := True\<rparr>, True)
                else Some (no_change, False)
              })"

definition sv_Check ::
  "(u64 \<Rightarrow> int) \<Rightarrow> u64 \<Rightarrow> int \<Rightarrow> int list \<Rightarrow> 'r schemaValidator \<Rightarrow> ('r RelatedSchemaChange option \<times> checkResult) option" where
  "sv_Check GetTimeFromTS txnTS schemaVer relatedPhysicalBlockIDs s =
     (if \<not> isStarted s then Some (None, ResultUnknown)
      else if lease s = 0 then Some (None, ResultSucc)
      else if schemaVer < latestSchemaVer s then
        (if length relatedPhysicalBlockIDs = 0 then Some (None, ResultFail)
         else do {
           (relatedChanges, changed) \<leftarrow> isRelatedBlocksChanged s schemaVer relatedPhysicalBlockIDs;
           if changed
           then if Amendable relatedChanges
                then Some (Some (relatedChanges\<lparr>LatestSchemaReplicant := latestSchemaReplicant s\<rparr>), ResultFail)
                else Some (None, ResultFail)
           else Some (None, ResultSucc)
         })
      else if GetTimeFromTS txnTS > latestSchemaExpire s then Some (None, ResultUnknown)
      else Some (None, ResultSucc))"

section \<open>The checker\<close>

datatype schema_err = ErrSchemaReplicantChanged | ErrSchemaReplicantExpired

text \<open>The validator may change between two attempts: \<open>states i\<close> is the one that attempt \<open>i\<close> asks.\<close>

function CheckBySchemaVer_loop ::
  "(u64 \<Rightarrow> int) \<Rightarrow> nat \<Rightarrow> (nat \<Rightarrow> 'r schemaValidator) \<Rightarrow> u64 \<Rightarrow> int \<Rightarrow> int list \<Rightarrow> nat \<Rightarrow> ('r RelatedSchemaChange option \<times> schema_err option) option" where
  "CheckBySchemaVer_loop GetTimeFromTS tries states txnTS ver relatedBlockIDs i =
     (if i < tries
      then case sv_Check GetTimeFromTS txnTS ver relatedBlockIDs (states i) of
             None \<Rightarrow> None
           | Some (relatedChange, ResultSucc) \<Rightarrow> Some (None, None)
           | Some (relatedChange, ResultFail) \<Rightarrow> Some (relatedChange, Some ErrSchemaReplicantChanged)
           | Some (relatedChange, ResultUnknown) \<Rightarrow> CheckBySchemaVer_loop GetTimeFromTS tries states txnTS ver relatedBlockIDs (i + 1)
      else Some (None, Some ErrSchemaReplicantExpired))"
  by pat_completeness auto
termination
  by (relation "measure (\<lambda>(_, tries, _, _, _, _, i). tries - i)") auto

declare CheckBySchemaVer_loop.simps [simp del]

record SchemaChecker =
  schemaVer :: int
  relatedBlockIDs :: "int list"

definition CheckBySchemaVer ::
  "(u64 \<Rightarrow> int) \<Rightarrow> nat \<Rightarrow> (nat \<Rightarrow> 'r schemaValidator) \<Rightarrow> u64 \<Rightarrow> int \<Rightarrow> SchemaChecker \<Rightarrow> ('r RelatedSchemaChange option \<times> schema_err option) option" where
  "CheckBySchemaVer GetTimeFromTS retryTimes states txnTS startSchemaVer s =
     CheckBySchemaVer_loop GetTimeFromTS retryTimes states txnTS startSchemaVer (relatedBlockIDs s) 0"

definition SchemaChecker_Check ::
  "(u64 \<Rightarrow> int) \<Rightarrow> nat \<Rightarrow> (nat \<Rightarrow> 'r schemaValidator) \<Rightarrow> u64 \<Rightarrow> SchemaChecker \<Rightarrow> ('r RelatedSchemaChange option \<times> schema_err option) option" where
  "SchemaChecker_Check GetTimeFromTS retryTimes states txnTS s =
     CheckBySchemaVer GetTimeFromTS retryTimes states txnTS (schemaVer s) s"

end
