(* ===== verification/Schema_Validator_Facts.thy ===== *)
theory Schema_Validator_Facts
  imports Schema_Validator
begin

text \<open>
  The validator decides by the history of schema changes: what its bounded, merged queue says about a version
  it still covers is what the whole history says, and about an older version it never says yes.
\<close>

section \<open>Changes as sets\<close>

definition wf_delta :: "deltaSchemaInfo \<Rightarrow> bool" where
  "wf_delta d = (length (relatedCausetActions d) = length (relatedIDs d))"

definition changes :: "deltaSchemaInfo \<Rightarrow> (int \<times> u64) set" where
  "changes d = set (zip (relatedIDs d) (relatedCausetActions d))"

text \<open>All changes of versions newer than the given one.\<close>

definition newer :: "int \<Rightarrow> deltaSchemaInfo list \<Rightarrow> (int \<times> u64) set" where
  "newer v ds = (\<Union>d \<in> {d \<in> set ds. v < schemaVersion d}. changes d)"

lemma newer_append: "newer v (ds @ es) = newer v ds \<union> newer v es"
  by (auto simp: newer_def)

lemma newer_single: "newer v [d] = (if v < schemaVersion d then changes d else {})"
  by (auto simp: newer_def)

lemma newer_Cons: "newer v [] = {}" "newer v (d # ds) = (if v < schemaVersion d then changes d else {}) \<union> newer v ds"
  by (auto simp: newer_def)

lemma newer_none: "\<forall>d \<in> set ds. schemaVersion d \<le> v \<Longrightarrow> newer v ds = {}"
  by (auto simp: newer_def)

section \<open>Containment\<close>

lemma contain_inner_spec:
  assumes "wf_delta cur" and "relatedIDs cur = pre @ ids" and "j = length pre"
  shows "contain_inner t (Some a) cur j ids = Some ((t, a) \<in> set (zip ids (drop j (relatedCausetActions cur))))"
  using assms(2,3)
proof (induction ids arbitrary: j pre)
  case (Cons c ids)
  have j: "j < length (relatedCausetActions cur)"
    using Cons.prems assms(1) by (simp add: wf_delta_def)
  have d: "drop j (relatedCausetActions cur) = relatedCausetActions cur ! j # drop (Suc j) (relatedCausetActions cur)"
    using Cons_nth_drop_Suc [OF j] by simp
  show ?case
    unfolding d using Cons.IH [of "pre @ [c]" "Suc j"] Cons.prems j by (auto simp: index_def)
qed simp

lemma contain_outer_spec:
  assumes "wf_delta cur" and "wf_delta lst" and "relatedIDs lst = pre @ ids" and "i = length pre"
  shows "contain_outer lst cur i ids = Some (set (zip ids (drop i (relatedCausetActions lst))) \<subseteq> changes cur)"
  using assms(3,4)
proof (induction ids arbitrary: i pre)
  case (Cons c ids)
  have i: "i < length (relatedCausetActions lst)"
    using Cons.prems assms(2) by (simp add: wf_delta_def)
  have d: "drop i (relatedCausetActions lst) = relatedCausetActions lst ! i # drop (Suc i) (relatedCausetActions lst)"
    using Cons_nth_drop_Suc [OF i] by simp
  show ?case
    unfolding d using Cons.IH [of "pre @ [c]" "Suc i"] Cons.prems i contain_inner_spec [OF assms(1), of "[]" "relatedIDs cur" 0 c "relatedCausetActions lst ! i"]
    by (auto simp: index_def changes_def)
qed simp

lemma containIn_spec:
  assumes "wf_delta lst" and "wf_delta cur"
  shows "\<exists>b. containIn lst cur = Some b \<and> (b \<longrightarrow> changes lst \<subseteq> changes cur)"
  using contain_outer_spec [OF assms(2,1), of "[]" "relatedIDs lst" 0] by (auto simp: containIn_def changes_def)

section \<open>The queue covers the history\<close>

definition versions :: "deltaSchemaInfo list \<Rightarrow> int list" where
  "versions ds = map schemaVersion ds"

text \<open>
  The queue keeps the newest part of the history, in order; for every version not older than its first entry it
  has the same newer changes as the history.
\<close>

definition covers :: "deltaSchemaInfo list \<Rightarrow> deltaSchemaInfo list \<Rightarrow> bool" where
  "covers q h =
     (sorted_wrt (<) (versions q) \<and> (\<forall>d \<in> set q. wf_delta d) \<and>
      (\<forall>v. (\<exists>d \<in> set q. schemaVersion d \<le> v) \<longrightarrow> newer v q = newer v h))"

lemma covers_append:
  assumes c: "covers q h" and d: "wf_delta d" "\<forall>e \<in> set q \<union> set h. schemaVersion e < schemaVersion d"
  shows "covers (q @ [d]) (h @ [d])"
proof -
  have "newer v (q @ [d]) = newer v (h @ [d])" if "\<exists>e \<in> set (q @ [d]). schemaVersion e \<le> v" for v
  proof (cases "\<exists>e \<in> set q. schemaVersion e \<le> v")
    case True
    then show ?thesis
      using c by (simp add: covers_def newer_append)
  next
    case False
    then have "schemaVersion d \<le> v"
      using that by auto
    then have "newer v q = {} \<and> newer v h = {}"
      using d(2) by (intro conjI newer_none ballI) (force dest: bspec)+
    then show ?thesis
      by (simp add: newer_append)
  qed
  then show ?thesis
    using c d by (auto simp: covers_def versions_def sorted_wrt_append)
qed

lemma covers_replace:
  assumes c: "covers (q @ [l]) h" and d: "wf_delta d" "\<forall>e \<in> set (q @ [l]) \<union> set h. schemaVersion e < schemaVersion d" "changes l \<subseteq> changes d"
  shows "covers (q @ [d]) (h @ [d])"
proof -
  have "newer v (q @ [d]) = newer v (h @ [d])" if "\<exists>e \<in> set (q @ [d]). schemaVersion e \<le> v" for v
  proof (cases "schemaVersion d \<le> v")
    case True
    then have "newer v q = {} \<and> newer v h = {}"
      using d(2) by (intro conjI newer_none ballI) (force dest: bspec)+
    then show ?thesis
      by (simp add: newer_append)
  next
    case False
    then have "newer v (q @ [l]) = newer v h"
      using c that by (auto simp: covers_def)
    then show ?thesis
      using False d(3) by (auto simp: newer_append newer_single split: if_splits)
  qed
  then show ?thesis
    using c d by (auto simp: covers_def versions_def sorted_wrt_append)
qed

lemma covers_tl:
  assumes "covers q h"
  shows "covers (tl q) h"
proof (cases q)
  case (Cons d ds)
  have "newer v ds = newer v h" if "\<exists>e \<in> set ds. schemaVersion e \<le> v" for v
  proof -
    have "schemaVersion d \<le> v"
      using assms that by (force simp: covers_def versions_def Cons)
    then have "newer v (d # ds) = newer v h"
      using assms by (simp add: covers_def Cons)
    then show ?thesis
      using newer_append [of v "[d]" ds] \<open>schemaVersion d \<le> v\<close> by (simp add: newer_single)
  qed
  then show ?thesis
    using assms by (simp add: covers_def versions_def Cons)
qed (use assms in simp)

section \<open>Updates\<close>

definition delta_of :: "int \<Rightarrow> 'r RelatedSchemaChange option \<Rightarrow> deltaSchemaInfo" where
  "delta_of v change =
     (case change of
        None \<Rightarrow> \<lparr>schemaVersion = v, relatedIDs = [], relatedCausetActions = []\<rparr>
      | Some c \<Rightarrow> \<lparr>schemaVersion = v, relatedIDs = PhyTblIDS c, relatedCausetActions = CausetActionTypes c\<rparr>)"

lemma schemaVersion_delta_of [simp]: "schemaVersion (delta_of v change) = v"
  by (simp add: delta_of_def split: option.splits)

lemma covers_Nil: "covers [d] h" if "wf_delta d" "\<forall>e \<in> set h. schemaVersion e \<le> schemaVersion d"
proof -
  have "newer v [d] = newer v h" if v: "schemaVersion d \<le> v" for v
  proof -
    have "newer v h = {}"
      by (rule newer_none) (use that \<open>\<forall>e \<in> set h. schemaVersion e \<le> schemaVersion d\<close> in force)
    then show ?thesis
      using v by (simp add: newer_single)
  qed
  then show ?thesis
    using that by (simp add: covers_def versions_def)
qed

lemma enqueue_covers:
  assumes m: "0 < maxCnt" and c: "covers (deltaSchemaInfos s) h" and d: "wf_delta (delta_of v change)"
    and v: "\<forall>e \<in> set (deltaSchemaInfos s) \<union> set h. schemaVersion e < v"
  shows "\<exists>q. enqueue maxCnt v change s = Some (s\<lparr>deltaSchemaInfos := q\<rparr>) \<and> covers q (h @ [delta_of v change]) \<and>
    (\<forall>e \<in> set q. schemaVersion e \<le> v) \<and> (int (length (deltaSchemaInfos s)) \<le> maxCnt \<longrightarrow> int (length q) \<le> maxCnt)"
proof (cases "deltaSchemaInfos s = []")
  case True
  have "covers [delta_of v change] (h @ [delta_of v change])"
    by (rule covers_Nil [OF d]) (use v in \<open>force\<close>)
  moreover have "enqueue maxCnt v change s = Some (s\<lparr>deltaSchemaInfos := [delta_of v change]\<rparr>)"
    using True m unfolding enqueue_def delta_of_def [symmetric] by (simp add: Let_def)
  ultimately show ?thesis
    using m by (intro exI [of _ "[delta_of v change]"]) simp
next
  case False
  let ?q = "deltaSchemaInfos s" and ?d = "delta_of v change"
  obtain q0 l where q0: "?q = q0 @ [l]"
    using False by (cases ?q rule: rev_cases) auto
  have l: "?q ! (length ?q - 1) = l" "wf_delta l"
    using c by (simp_all add: q0 covers_def)
  obtain b0 where b0: "containIn l ?d = Some b0" "b0 \<longrightarrow> changes l \<subseteq> changes ?d"
    using containIn_spec [OF l(2) d] by blast
  define b where "b = (length ?q - 1 \<noteq> 0 \<and> b0)"
  have b: "(if length ?q - 1 \<noteq> 0 then containIn (?q ! (length ?q - 1)) ?d else Some False) = Some b" "b \<longrightarrow> changes l \<subseteq> changes ?d"
    unfolding l(1) using b0 by (simp_all add: b_def)
  define q' where "q' = (if b then ?q[length ?q - 1 := ?d] else ?q @ [?d])"
  have "covers q' (h @ [?d])"
    using covers_append [OF c d] covers_replace [of q0 l h ?d] c d v b(2) by (auto simp: q'_def q0)
  moreover have "\<forall>e \<in> set q'. schemaVersion e \<le> v"
    using v by (auto simp: q'_def q0 ball_Un intro: less_imp_le)
  moreover have "enqueue maxCnt v change s = Some (s\<lparr>deltaSchemaInfos := if int (length q') > maxCnt then tl q' else q'\<rparr>)"
    unfolding enqueue_def delta_of_def [symmetric] Let_def b(1) q'_def using m False by simp
  moreover have "length q' \<le> Suc (length ?q)"
    by (simp add: q'_def)
  moreover have "set (tl q') \<subseteq> set q'"
    by (cases q') auto
  ultimately show ?thesis
    using covers_tl [of q' "h @ [?d]"] by (intro exI [of _ "if int (length q') > maxCnt then tl q' else q'"]) auto
qed

text \<open>A run of updates: the time of the lease, the schema, the old and the new version, and the change.\<close>

type_synonym 'r update = "u64 \<times> 'r option \<times> int \<times> int \<times> 'r RelatedSchemaChange option"

primrec run_updates :: "(u64 \<Rightarrow> int) \<Rightarrow> int \<Rightarrow> 'r update list \<Rightarrow> 'r schemaValidator \<Rightarrow> 'r schemaValidator option" where
  "run_updates GetTimeFromTS maxCnt [] s = Some s"
| "run_updates GetTimeFromTS maxCnt (u # us) s =
     (case u of (ts, r, oldVer, currVer, change) \<Rightarrow>
        Option.bind (UFIDelate GetTimeFromTS maxCnt r ts oldVer currVer change s) (run_updates GetTimeFromTS maxCnt us))"

text \<open>Every update goes on from the version before it; a change names an action for each table.\<close>

primrec chain :: "int \<Rightarrow> 'r update list \<Rightarrow> bool" where
  "chain v [] = True"
| "chain v (u # us) =
     (case u of (ts, r, oldVer, currVer, change) \<Rightarrow> oldVer = v \<and> v \<le> currVer \<and> wf_delta (delta_of currVer change) \<and> chain currVer us)"

primrec history :: "'r update list \<Rightarrow> deltaSchemaInfo list" where
  "history [] = []"
| "history (u # us) =
     (case u of (ts, r, oldVer, currVer, change) \<Rightarrow> (if currVer \<noteq> oldVer then [delta_of currVer change] else []) @ history us)"

definition tracks :: "int \<Rightarrow> int \<Rightarrow> 'r schemaValidator \<Rightarrow> deltaSchemaInfo list \<Rightarrow> bool" where
  "tracks l maxCnt s h =
     (isStarted s \<and> lease s = l \<and> covers (deltaSchemaInfos s) h \<and> int (length (deltaSchemaInfos s)) \<le> maxCnt \<and>
      (\<forall>e \<in> set (deltaSchemaInfos s) \<union> set h. schemaVersion e \<le> latestSchemaVer s))"

lemma UFIDelate_tracks:
  assumes m: "0 < maxCnt" and t: "tracks l maxCnt s h" and old: "oldVer = latestSchemaVer s" "oldVer \<le> currVer" and w: "wf_delta (delta_of currVer change)"
  shows "\<exists>s'. UFIDelate GetTimeFromTS maxCnt r ts oldVer currVer change s = Some s' \<and>
    tracks l maxCnt s' (h @ (if currVer \<noteq> oldVer then [delta_of currVer change] else [])) \<and> latestSchemaVer s' = currVer \<and>
    latestSchemaExpire s' = GetTimeFromTS ts + (l - millisecond)"
proof -
  define s1 where "s1 = s\<lparr>latestSchemaVer := currVer\<rparr>"
  define s2 where "s2 = (case r of None \<Rightarrow> s1 | Some x \<Rightarrow> s1\<lparr>latestSchemaReplicant := Some x\<rparr>)"
  define s3 where "s3 = s2\<lparr>latestSchemaExpire := GetTimeFromTS ts + (lease s2 - millisecond)\<rparr>"
  have s3: "isStarted s3" "lease s3 = l" "deltaSchemaInfos s3 = deltaSchemaInfos s" "latestSchemaVer s3 = currVer"
      "latestSchemaExpire s3 = GetTimeFromTS ts + (l - millisecond)"
    using t by (auto simp: s3_def s2_def s1_def tracks_def split: option.splits)
  have u: "UFIDelate GetTimeFromTS maxCnt r ts oldVer currVer change s = (if currVer \<noteq> oldVer then enqueue maxCnt currVer change s3 else Some s3)"
    using t unfolding UFIDelate_def s3_def s2_def s1_def tracks_def by (simp add: Let_def)
  show ?thesis
  proof (cases "currVer = oldVer")
    case True
    then show ?thesis
      using u s3 t old by (simp add: tracks_def)
  next
    case False
    have "\<forall>e \<in> set (deltaSchemaInfos s3) \<union> set h. schemaVersion e < currVer"
      using t old False by (force simp: tracks_def s3)
    then obtain q where "enqueue maxCnt currVer change s3 = Some (s3\<lparr>deltaSchemaInfos := q\<rparr>)" "covers q (h @ [delta_of currVer change])"
        "\<forall>e \<in> set q. schemaVersion e \<le> currVer" "int (length q) \<le> maxCnt" "\<forall>e \<in> set h. schemaVersion e < currVer"
      using enqueue_covers [OF m, of s3 h currVer change] t w by (auto simp: tracks_def s3)
    then show ?thesis
      using u s3 False by (force simp: tracks_def)
  qed
qed

lemma run_tracks:
  assumes "0 < maxCnt"
  shows "tracks l maxCnt s h \<Longrightarrow> chain (latestSchemaVer s) us \<Longrightarrow>
    \<exists>s'. run_updates GetTimeFromTS maxCnt us s = Some s' \<and> tracks l maxCnt s' (h @ history us)"
proof (induction us arbitrary: s h)
  case (Cons u us)
  obtain ts r oldVer currVer change where u: "u = (ts, r, oldVer, currVer, change)"
    by (cases u)
  obtain s1 where s1: "UFIDelate GetTimeFromTS maxCnt r ts oldVer currVer change s = Some s1"
      "tracks l maxCnt s1 (h @ (if currVer \<noteq> oldVer then [delta_of currVer change] else []))" "latestSchemaVer s1 = currVer"
    using UFIDelate_tracks [OF assms Cons.prems(1), of oldVer currVer change GetTimeFromTS r ts] Cons.prems(2) by (auto simp: u)
  then show ?case
    using Cons.IH [OF s1(2)] Cons.prems(2) by (auto simp: u)
qed simp

section \<open>Marking the changed tables\<close>

definition action_of :: "(int \<times> u64) list \<Rightarrow> int \<Rightarrow> u64" where
  "action_of m x = (case map_of m x of None \<Rightarrow> 0 | Some a \<Rightarrow> a)"

text \<open>The entries are the tables of interest with a change in \<open>P\<close>, each with all the bits of its changes.\<close>

definition marks :: "int list \<Rightarrow> (int \<times> u64) set \<Rightarrow> (int \<times> u64) list \<Rightarrow> bool" where
  "marks blocks P m =
     (distinct (map fst m) \<and> (\<forall>x. x \<in> fst ` set m \<longleftrightarrow> x \<in> set blocks \<and> (\<exists>a. (x, a) \<in> P)) \<and>
      (\<forall>x n. bit (action_of m x) n \<longleftrightarrow> x \<in> set blocks \<and> (\<exists>a. (x, a) \<in> P \<and> bit a n)))"

lemma or_action_facts:
  "distinct (map fst m) \<Longrightarrow> distinct (map fst (or_action t a m))"
  "fst ` set (or_action t a m) = insert t (fst ` set m)"
  "action_of (or_action t a m) x = (if x = t then action_of m t OR a else action_of m x)"
  by (simp_all add: or_action_def distinct_update dom_update action_of_def update_conv')

lemma mark_blocks_spec:
  "distinct (map fst m) \<Longrightarrow> \<exists>m'. mark_blocks t (Some a) blocks m = Some m' \<and> distinct (map fst m') \<and>
   fst ` set m' = (if t \<in> set blocks then insert t (fst ` set m) else fst ` set m) \<and>
   (\<forall>x. action_of m' x = (if x = t \<and> t \<in> set blocks then action_of m t OR a else action_of m x))"
proof (induction blocks arbitrary: m)
  case (Cons b blocks)
  show ?case
  proof (cases "t = b")
    case True
    obtain m' where m': "mark_blocks t (Some a) blocks (or_action t a m) = Some m'" "distinct (map fst m')"
        "fst ` set m' = insert t (fst ` set m)"
        "\<forall>x. action_of m' x = (if x = t \<and> t \<in> set blocks then action_of (or_action t a m) t OR a else action_of (or_action t a m) x)"
      using Cons.IH [OF or_action_facts(1) [OF Cons.prems, of t a], unfolded or_action_facts(2)] by (metis insert_absorb2)
    have "action_of m' x = (if x = t then action_of m t OR a else action_of m x)" for x
      using m'(4) by (simp add: or_action_facts(3) or.assoc)
    then show ?thesis
      using m'(1-3) True by auto
  qed (use Cons in auto)
qed simp

lemma marks_insert:
  assumes "marks blocks P m"
  shows "\<exists>m'. mark_blocks t (Some a) blocks m = Some m' \<and> marks blocks (insert (t, a) P) m'"
proof -
  obtain m' where m': "mark_blocks t (Some a) blocks m = Some m'" "distinct (map fst m')"
      "fst ` set m' = (if t \<in> set blocks then insert t (fst ` set m) else fst ` set m)"
      "\<forall>x. action_of m' x = (if x = t \<and> t \<in> set blocks then action_of m t OR a else action_of m x)"
    using mark_blocks_spec [of m t a blocks] assms by (auto simp: marks_def)
  moreover have "x \<in> fst ` set m' \<longleftrightarrow> x \<in> set blocks \<and> (\<exists>b. (x, b) \<in> insert (t, a) P)" for x
    unfolding m'(3) using assms by (auto simp: marks_def)
  moreover have "bit (action_of m' x) n \<longleftrightarrow> x \<in> set blocks \<and> (\<exists>b. (x, b) \<in> insert (t, a) P \<and> bit b n)" for x n
    using assms m'(4) by (auto simp: marks_def bit_or_iff)
  ultimately show ?thesis
    by (auto simp: marks_def)
qed

lemma mark_ids_spec:
  assumes "wf_delta item" and "relatedIDs item = pre @ ids" and "i = length pre" and "marks blocks P m"
  shows "\<exists>m'. mark_ids item blocks i ids m = Some m' \<and> marks blocks (P \<union> set (zip ids (drop i (relatedCausetActions item)))) m'"
  using assms(2-4)
proof (induction ids arbitrary: i pre P m)
  case (Cons t ids)
  have i: "i < length (relatedCausetActions item)"
    using Cons.prems assms(1) by (simp add: wf_delta_def)
  let ?a = "relatedCausetActions item ! i"
  have d: "drop i (relatedCausetActions item) = ?a # drop (Suc i) (relatedCausetActions item)"
    using Cons_nth_drop_Suc [OF i] by simp
  obtain m1 where m1: "mark_blocks t (Some ?a) blocks m = Some m1" "marks blocks (insert (t, ?a) P) m1"
    using marks_insert [OF Cons.prems(3)] by blast
  obtain m' where "mark_ids item blocks (Suc i) ids m1 = Some m'"
      "marks blocks (insert (t, ?a) P \<union> set (zip ids (drop (Suc i) (relatedCausetActions item)))) m'"
    using Cons.IH [of "pre @ [t]" "Suc i", OF _ _ m1(2)] Cons.prems by auto
  then show ?case
    unfolding d using m1(1) i by (simp add: index_def)
qed simp

lemma mark_items_spec:
  "\<forall>d \<in> set items. wf_delta d \<Longrightarrow> marks blocks P m \<Longrightarrow>
   \<exists>m'. mark_items blocks items m = Some m' \<and> marks blocks (P \<union> (\<Union>d \<in> set items. changes d)) m'"
proof (induction items arbitrary: P m)
  case (Cons d items)
  obtain m1 where "mark_ids d blocks 0 (relatedIDs d) m = Some m1" "marks blocks (P \<union> changes d) m1"
    using mark_ids_spec [of d "[]" "relatedIDs d" 0 blocks P m] Cons.prems by (auto simp: changes_def)
  then show ?case
    using Cons.IH [of "P \<union> changes d" m1] Cons.prems(1) by (auto simp: Un_assoc)
qed simp

lemma newer_pos_filter:
  assumes "sorted_wrt (<) (versions q)" and "n \<le> length q" and "\<forall>d \<in> set (drop n q). v < schemaVersion d"
  shows "drop (newer_pos q v n n) q = filter (\<lambda>d. v < schemaVersion d) q"
  using assms(2,3)
proof (induction n)
  case 0
  then show ?case
    by simp
next
  case (Suc i)
  have dr: "drop i q = q ! i # drop (Suc i) q"
    using Suc.prems(1) by (simp add: Cons_nth_drop_Suc)
  show ?case
  proof (cases "v < schemaVersion (q ! i)")
    case True
    then show ?thesis
      using Suc.IH Suc.prems dr by simp
  next
    case False
    have "schemaVersion d \<le> v" if d: "d \<in> set (take (Suc i) q)" for d
    proof -
      obtain j where j: "j \<le> i" "d = q ! j"
        using d Suc.prems(1) by (auto simp: in_set_conv_nth less_Suc_eq_le)
      then have "schemaVersion (q ! j) \<le> schemaVersion (q ! i)"
        using assms(1) Suc.prems(1) by (cases "j = i") (simp_all add: versions_def sorted_wrt_iff_nth_less less_imp_le)
      then show ?thesis
        using False j by simp
    qed
    then have "filter (\<lambda>d. v < schemaVersion d) (take (Suc i) q) = []"
      by (auto simp: filter_empty_conv not_less)
    moreover have "filter (\<lambda>d. v < schemaVersion d) (drop (Suc i) q) = drop (Suc i) q"
      using Suc.prems(2) by (simp add: filter_id_conv)
    ultimately have "filter (\<lambda>d. v < schemaVersion d) (take (Suc i) q @ drop (Suc i) q) = drop (Suc i) q"
      unfolding filter_append by simp
    then show ?thesis
      using False by simp
  qed
qed

lemma findNewerDeltas_filter:
  "sorted_wrt (<) (versions (deltaSchemaInfos s)) \<Longrightarrow> findNewerDeltas s v = filter (\<lambda>d. v < schemaVersion d) (deltaSchemaInfos s)"
  using newer_pos_filter [of "deltaSchemaInfos s" "length (deltaSchemaInfos s)" v] by (simp add: findNewerDeltas_def Let_def)

section \<open>The check\<close>

text \<open>The version is not older than the oldest change the queue keeps.\<close>

definition retained :: "'r schemaValidator \<Rightarrow> int \<Rightarrow> bool" where
  "retained s v = (\<exists>d \<in> set (deltaSchemaInfos s). schemaVersion d \<le> v)"

text \<open>The changes that a failed check reports: the changed tables in order, each with all bits of its actions.\<close>

definition reports :: "'r RelatedSchemaChange \<Rightarrow> int list \<Rightarrow> (int \<times> u64) set \<Rightarrow> bool" where
  "reports c blocks P =
     (Amendable c \<and> sorted_wrt (<) (PhyTblIDS c) \<and> set (PhyTblIDS c) = {x \<in> set blocks. \<exists>a. (x, a) \<in> P} \<and>
      length (CausetActionTypes c) = length (PhyTblIDS c) \<and>
      (\<forall>i < length (PhyTblIDS c). \<forall>n. bit (CausetActionTypes c ! i) n \<longleftrightarrow> (\<exists>a. (PhyTblIDS c ! i, a) \<in> P \<and> bit a n)))"

lemma marks_reports:
  assumes "marks blocks P m"
  defines "ids \<equiv> sort (map fst m)"
  shows "reports (no_change\<lparr>PhyTblIDS := ids, CausetActionTypes := map (\<lambda>x. the (map_of m x)) ids, Amendable := True\<rparr>) blocks P"
proof -
  have ids: "set ids = fst ` set m" "sorted_wrt (<) ids"
    using assms by (simp_all add: strict_sorted_iff marks_def)
  have "the (map_of m x) = action_of m x" if "x \<in> set ids" for x
    using that ids(1) map_of_eq_None_iff [of m x] by (auto simp: action_of_def split: option.splits)
  then have "bit (the (map_of m (ids ! i))) n \<longleftrightarrow> (\<exists>a. (ids ! i, a) \<in> P \<and> bit a n)" if "i < length ids" for i n
    using assms(1) that nth_mem [OF that] ids(1) unfolding marks_def by metis
  moreover have "set ids = {x \<in> set blocks. \<exists>a. (x, a) \<in> P}"
    using assms(1) ids(1) by (auto simp: marks_def)
  ultimately show ?thesis
    using ids(2) by (simp add: reports_def)
qed

lemma isRelatedBlocksChanged_missing:
  assumes "covers (deltaSchemaInfos s) h" and "\<not> retained s v"
  shows "isRelatedBlocksChanged s v blocks = Some (no_change, True)"
proof -
  have "findNewerDeltas s v = filter (\<lambda>d. v < schemaVersion d) (deltaSchemaInfos s)"
    using assms(1) findNewerDeltas_filter by (auto simp: covers_def)
  also have "\<dots> = deltaSchemaInfos s"
    using assms(2) by (auto simp: retained_def filter_id_conv not_le)
  finally show ?thesis
    by (simp add: isRelatedBlocksChanged_def)
qed

lemma isRelatedBlocksChanged_retained:
  assumes c: "covers (deltaSchemaInfos s) h" and r: "retained s v"
  shows "\<exists>res changed. isRelatedBlocksChanged s v blocks = Some (res, changed) \<and>
    (changed \<longleftrightarrow> (\<exists>x \<in> set blocks. \<exists>a. (x, a) \<in> newer v h)) \<and> (changed \<longrightarrow> reports res blocks (newer v h))"
proof -
  let ?q = "deltaSchemaInfos s"
  let ?n = "filter (\<lambda>d. v < schemaVersion d) ?q"
  have n: "findNewerDeltas s v = ?n"
    using c findNewerDeltas_filter by (auto simp: covers_def)
  obtain d where d: "d \<in> set ?q" "\<not> v < schemaVersion d"
    using r by (auto simp: retained_def not_less)
  then have "length ?n < length ?q"
    by (rule length_filter_less)
  moreover have "marks blocks {} []"
    by (simp add: marks_def action_of_def)
  moreover have "(\<Union>d \<in> set ?n. changes d) = newer v h"
    using c r by (auto simp: covers_def retained_def newer_def)
  moreover have "\<forall>d \<in> set ?n. wf_delta d"
    using c by (auto simp: covers_def)
  ultimately obtain m where m: "mark_items blocks ?n [] = Some m" "marks blocks (newer v h) m" "length ?n < length ?q"
    using mark_items_spec [of ?n blocks "{}" "[]"] by auto
  have "m \<noteq> [] \<longleftrightarrow> (\<exists>x \<in> set blocks. \<exists>a. (x, a) \<in> newer v h)"
    using m(2) unfolding marks_def by (metis image_is_empty set_empty ex_in_conv)
  then show ?thesis
    using m(1,3) d(1) marks_reports [OF m(2)] by (auto simp: isRelatedBlocksChanged_def n Let_def)
qed

lemma Check_of_history:
  assumes t: "tracks l maxCnt s h" and l: "l \<noteq> 0" and v: "v < latestSchemaVer s" and ids: "ids \<noteq> []"
  shows "\<exists>r res. sv_Check GetTimeFromTS ts v ids s = Some (r, res) \<and>
    (res = ResultSucc \<longleftrightarrow> retained s v \<and> (\<forall>x \<in> set ids. \<forall>a. (x, a) \<notin> newer v h)) \<and> (res \<noteq> ResultSucc \<longrightarrow> res = ResultFail) \<and>
    (retained s v \<and> res = ResultFail \<longrightarrow> (\<exists>c. r = Some c \<and> reports c ids (newer v h)))"
proof (cases "retained s v")
  case True
  obtain res changed where "isRelatedBlocksChanged s v ids = Some (res, changed)" "changed \<longleftrightarrow> (\<exists>x \<in> set ids. \<exists>a. (x, a) \<in> newer v h)"
      "changed \<longrightarrow> reports res ids (newer v h)"
    using isRelatedBlocksChanged_retained [OF _ True, of h ids] t by (auto simp: tracks_def)
  then show ?thesis
    using t l v ids True by (auto simp: sv_Check_def tracks_def reports_def)
next
  case False
  have "isRelatedBlocksChanged s v ids = Some (no_change, True)"
    using isRelatedBlocksChanged_missing [OF _ False] t by (auto simp: tracks_def)
  then show ?thesis
    using t l v ids False by (auto simp: sv_Check_def tracks_def no_change_def)
qed

section \<open>How long a change is kept\<close>

text \<open>As long as the queue is not full, its first change stays, and it has no more entries than the history.\<close>

definition keeps_first :: "int \<Rightarrow> deltaSchemaInfo list \<Rightarrow> deltaSchemaInfo list \<Rightarrow> bool" where
  "keeps_first maxCnt q h = (length q \<le> length h \<and> (int (length h) \<le> maxCnt \<and> h \<noteq> [] \<longrightarrow> q \<noteq> [] \<and> hd q = hd h))"

lemma enqueue_keeps_first:
  assumes m: "0 < maxCnt" and e: "enqueue maxCnt v change s = Some s'" and k: "keeps_first maxCnt (deltaSchemaInfos s) h"
  shows "keeps_first maxCnt (deltaSchemaInfos s') (h @ [delta_of v change])"
proof (cases "deltaSchemaInfos s = []")
  case True
  then have "h = [] \<or> maxCnt < int (length h)"
    using k by (auto simp: keeps_first_def)
  then show ?thesis
    using e True m unfolding enqueue_def delta_of_def [symmetric] by (auto simp: Let_def keeps_first_def)
next
  case False
  let ?q = "deltaSchemaInfos s" and ?d = "delta_of v change"
  let ?c = "if length ?q - 1 \<noteq> 0 then containIn (?q ! (length ?q - 1)) ?d else Some False"
  let ?s = "\<lambda>b. let q' = (if b then ?q[length ?q - 1 := ?d] else ?q @ [?d]) in s\<lparr>deltaSchemaInfos := if int (length q') > maxCnt then tl q' else q'\<rparr>"
  have "enqueue maxCnt v change s = Option.bind ?c (\<lambda>b. Some (?s b))"
    unfolding enqueue_def delta_of_def [symmetric] Let_def using m False by simp
  then have "Option.bind ?c (\<lambda>b. Some (?s b)) = Some s'"
    using e by simp
  then obtain b where "?c = Some b" "Some (?s b) = Some s'"
    unfolding bind_eq_Some_conv by blast
  then have b: "b \<longrightarrow> length ?q - 1 \<noteq> 0"
      and q: "deltaSchemaInfos s' = (let q' = (if b then ?q[length ?q - 1 := ?d] else ?q @ [?d]) in if int (length q') > maxCnt then tl q' else q')"
    by (auto simp: Let_def split: if_splits)
  have "hd (?q[length ?q - 1 := ?d]) = hd ?q" if b
    using b that False by (cases ?q) (auto simp: nth_Cons' list_update_code split: nat.splits)
  then show ?thesis
    using k False b by (auto simp: q Let_def keeps_first_def hd_append)
qed

lemma UFIDelate_keeps_first:
  assumes "0 < maxCnt" and u: "UFIDelate GetTimeFromTS maxCnt r ts oldVer currVer change s = Some s'" and "isStarted s" and "keeps_first maxCnt (deltaSchemaInfos s) h"
  shows "keeps_first maxCnt (deltaSchemaInfos s') (h @ (if currVer \<noteq> oldVer then [delta_of currVer change] else []))"
proof (cases "currVer = oldVer")
  case True
  then show ?thesis
    using u assms(3,4) by (auto simp: UFIDelate_def Let_def split: option.splits)
next
  case False
  obtain s3 where "enqueue maxCnt currVer change s3 = Some s'" "deltaSchemaInfos s3 = deltaSchemaInfos s"
    using u False assms(3) by (auto simp: UFIDelate_def Let_def split: option.splits)
  then show ?thesis
    using enqueue_keeps_first [OF assms(1), of currVer change s3 s' h] assms(4) False by simp
qed

lemma run_keeps_first:
  assumes "0 < maxCnt"
  shows "tracks l maxCnt s h \<Longrightarrow> keeps_first maxCnt (deltaSchemaInfos s) h \<Longrightarrow> chain (latestSchemaVer s) us \<Longrightarrow>
    run_updates GetTimeFromTS maxCnt us s = Some s' \<Longrightarrow> keeps_first maxCnt (deltaSchemaInfos s') (h @ history us)"
proof (induction us arbitrary: s h)
  case (Cons u us)
  obtain ts r oldVer currVer change where u: "u = (ts, r, oldVer, currVer, change)"
    by (cases u)
  obtain s1 where s1: "UFIDelate GetTimeFromTS maxCnt r ts oldVer currVer change s = Some s1"
      "tracks l maxCnt s1 (h @ (if currVer \<noteq> oldVer then [delta_of currVer change] else []))" "latestSchemaVer s1 = currVer"
    using UFIDelate_tracks [OF assms Cons.prems(1), of oldVer currVer change GetTimeFromTS r ts] Cons.prems(3) by (auto simp: u)
  have "keeps_first maxCnt (deltaSchemaInfos s1) (h @ (if currVer \<noteq> oldVer then [delta_of currVer change] else []))"
    using UFIDelate_keeps_first [OF assms s1(1)] Cons.prems(1,2) by (simp add: tracks_def)
  then show ?case
    using Cons.IH [OF s1(2)] Cons.prems(3,4) s1(1,3) by (simp add: u)
qed simp

lemma NewSchemaValidator_tracks:
  "0 < maxCnt \<Longrightarrow> tracks l maxCnt (NewSchemaValidator l) []" "keeps_first maxCnt (deltaSchemaInfos (NewSchemaValidator l)) []"
  "latestSchemaVer (NewSchemaValidator l) = 0"
  by (simp_all add: tracks_def NewSchemaValidator_def covers_def versions_def keeps_first_def)

lemma new_run_tracks:
  assumes "0 < maxCnt" and "chain 0 us"
  shows "\<exists>s. run_updates GetTimeFromTS maxCnt us (NewSchemaValidator l) = Some s \<and> tracks l maxCnt s (history us) \<and> keeps_first maxCnt (deltaSchemaInfos s) (history us)"
  using run_tracks [OF assms(1) NewSchemaValidator_tracks(1) [OF assms(1)], of l us GetTimeFromTS]
    run_keeps_first [OF assms(1) NewSchemaValidator_tracks(1) [OF assms(1)] NewSchemaValidator_tracks(2), of l us GetTimeFromTS] assms(2)
  by (auto simp: NewSchemaValidator_tracks(3))

lemma retained_first:
  assumes "tracks l maxCnt s h" and "keeps_first maxCnt (deltaSchemaInfos s) h" and "int (length h) \<le> maxCnt" and "d \<in> set h" and "schemaVersion d \<le> v"
    and "sorted_wrt (<) (versions h)"
  shows "retained s v"
proof -
  have q: "deltaSchemaInfos s \<noteq> []" "hd (deltaSchemaInfos s) = hd h"
    using assms(2-4) by (auto simp: keeps_first_def)
  moreover have "schemaVersion (hd h) \<le> schemaVersion d"
    using assms(4,6) by (cases h) (auto simp: versions_def)
  ultimately show ?thesis
    using assms(5) hd_in_set [OF q(1)] by (auto simp: retained_def intro!: bexI [of _ "hd (deltaSchemaInfos s)"])
qed

lemma history_versions: "chain v us \<Longrightarrow> sorted_wrt (<) (versions (history us)) \<and> (\<forall>d \<in> set (history us). v < schemaVersion d)"
proof (induction us arbitrary: v)
  case (Cons u us)
  obtain ts r oldVer currVer change where u: "u = (ts, r, oldVer, currVer, change)"
    by (cases u)
  then show ?case
    using Cons.IH [of currVer] Cons.prems by (auto simp: versions_def)
qed (simp add: versions_def)

section \<open>The checker's attempts\<close>

lemma CheckBySchemaVer_loop_spec:
  assumes one: "\<And>i. i < tries \<Longrightarrow> \<exists>r res. sv_Check GetTimeFromTS ts v ids (states i) = Some (r, res) \<and> (res = ResultSucc \<longrightarrow> good i) \<and> (res = ResultUnknown \<longrightarrow> late i)"
  shows "\<exists>r err. CheckBySchemaVer_loop GetTimeFromTS tries states ts v ids j = Some (r, err) \<and>
    (err = None \<longrightarrow> (\<exists>i < tries. good i)) \<and> (err = Some ErrSchemaReplicantExpired \<longrightarrow> (\<forall>i < tries. j \<le> i \<longrightarrow> late i))"
proof (induction "tries - j" arbitrary: j rule: less_induct)
  case less
  show ?case
  proof (cases "j < tries")
    case True
    obtain r res where c: "sv_Check GetTimeFromTS ts v ids (states j) = Some (r, res)" "res = ResultSucc \<longrightarrow> good j" "res = ResultUnknown \<longrightarrow> late j"
      using one [OF True] by blast
    have step: "\<forall>i < tries. j \<le> i \<longrightarrow> late i" if "late j" "\<forall>i < tries. j + 1 \<le> i \<longrightarrow> late i"
      using that by (metis Suc_eq_plus1 Suc_leI le_neq_implies_less)
    note loop = CheckBySchemaVer_loop.simps [of GetTimeFromTS tries states ts v ids j]
    show ?thesis
    proof (cases res)
      case ResultUnknown
      then have "CheckBySchemaVer_loop GetTimeFromTS tries states ts v ids j = CheckBySchemaVer_loop GetTimeFromTS tries states ts v ids (j + 1)"
        using True c(1) by (simp add: loop)
      moreover have "tries - (j + 1) < tries - j"
        using True by simp
      ultimately show ?thesis
        using less [of "j + 1"] step c(3) ResultUnknown by metis
    qed (use True c in \<open>auto simp: loop\<close>)
  qed (simp add: CheckBySchemaVer_loop.simps)
qed

section \<open>Properties\<close>

text \<open>
  C24. The validator decides by the history of schema changes: after any sequence of updates in which every update
  goes on from the version before it, the queue has at most the configured number of entries, and the check of
  an outdated version succeeds exactly if the queue still reaches back to that version and no change
  of a newer version touched one of the transaction's tables, whatever was merged or dropped; otherwise
  it fails, and if the queue reaches back it reports exactly the changed tables, in order, each with all
  the action bits of the newer changes. Nothing is dropped while the history fits into the queue.
\<close>

theorem Check_decides_by_history:
  assumes "0 < maxCnt" and "chain 0 us" and "l \<noteq> 0"
  shows "\<exists>s. run_updates GetTimeFromTS maxCnt us (NewSchemaValidator l) = Some s \<and> int (length (deltaSchemaInfos s)) \<le> maxCnt \<and>
    (\<forall>v ts ids. v < latestSchemaVer s \<longrightarrow> ids \<noteq> [] \<longrightarrow> (\<exists>r res. sv_Check GetTimeFromTS ts v ids s = Some (r, res) \<and>
      (res = ResultSucc \<longleftrightarrow> retained s v \<and> (\<forall>x \<in> set ids. \<forall>a. (x, a) \<notin> newer v (history us))) \<and> (res \<noteq> ResultSucc \<longrightarrow> res = ResultFail) \<and>
      (retained s v \<and> res = ResultFail \<longrightarrow> (\<exists>c. r = Some c \<and> reports c ids (newer v (history us)))))) \<and>
    (\<forall>v. int (length (history us)) \<le> maxCnt \<and> (\<exists>d \<in> set (history us). schemaVersion d \<le> v) \<longrightarrow> retained s v)"
proof -
  obtain s where s: "run_updates GetTimeFromTS maxCnt us (NewSchemaValidator l) = Some s" "tracks l maxCnt s (history us)"
      "keeps_first maxCnt (deltaSchemaInfos s) (history us)"
    using new_run_tracks [OF assms(1,2)] by blast
  then show ?thesis
    using Check_of_history [OF s(2) assms(3)] retained_first [OF s(2,3)] conjunct1 [OF history_versions [OF assms(2)]] by (auto simp: tracks_def)
qed

definition ex_change :: "int \<Rightarrow> u64 \<Rightarrow> unit RelatedSchemaChange option" where
  "ex_change t a = Some \<lparr>PhyTblIDS = [t], CausetActionTypes = [a], LatestSchemaReplicant = None, Amendable = False\<rparr>"

definition ex_updates :: "unit update list" where
  "ex_updates = [(0, None, 0, 1, ex_change 7 1), (0, None, 1, 2, ex_change 8 2), (0, None, 2, 3, ex_change 8 4)]"

lemma ex_updates_run:
  "run_updates (\<lambda>t. 5) 2 ex_updates (NewSchemaValidator 10) =
     Some \<lparr>isStarted = True, lease = 10, latestSchemaVer = 3, latestSchemaReplicant = None, latestSchemaExpire = 15 - millisecond,
       deltaSchemaInfos = [\<lparr>schemaVersion = 2, relatedIDs = [8], relatedCausetActions = [2]\<rparr>, \<lparr>schemaVersion = 3, relatedIDs = [8], relatedCausetActions = [4]\<rparr>]\<rparr>"
  by (simp add: ex_updates_def ex_change_def NewSchemaValidator_def UFIDelate_def enqueue_def containIn_def index_def)

lemma ex_updates_chain: "chain 0 ex_updates"
  by (simp add: ex_updates_def ex_change_def wf_delta_def delta_of_def)

theorem Check_decides_by_history_witness:
  "\<exists>s r. run_updates (\<lambda>t. 5) 2 ex_updates (NewSchemaValidator 10) = Some s \<and>
    sv_Check (\<lambda>t. 5) 0 2 [7] s = Some (r, ResultSucc) \<and> (\<exists>c. sv_Check (\<lambda>t. 5) 0 2 [8] s = Some (Some c, ResultFail) \<and> reports c [8] {(8, 4)})"
proof -
  obtain s where s: "run_updates (\<lambda>t. 5) 2 ex_updates (NewSchemaValidator 10) = Some s" and
    c: "\<forall>v ts ids. v < latestSchemaVer s \<longrightarrow> ids \<noteq> [] \<longrightarrow> (\<exists>r res. sv_Check (\<lambda>t. 5) ts v ids s = Some (r, res) \<and>
      (res = ResultSucc \<longleftrightarrow> retained s v \<and> (\<forall>x \<in> set ids. \<forall>a. (x, a) \<notin> newer v (history ex_updates))) \<and> (res \<noteq> ResultSucc \<longrightarrow> res = ResultFail) \<and>
      (retained s v \<and> res = ResultFail \<longrightarrow> (\<exists>c. r = Some c \<and> reports c ids (newer v (history ex_updates)))))"
    using Check_decides_by_history [of 2 ex_updates 10 "\<lambda>t. 5"] ex_updates_chain by auto
  have f: "latestSchemaVer s = 3" "retained s 2" "2 < latestSchemaVer s"
    using s ex_updates_run by (auto simp: retained_def)
  have n: "newer 2 (history ex_updates) = {(8, 4)}"
    by (simp add: newer_Cons ex_updates_def ex_change_def delta_of_def changes_def)
  obtain r res where r: "sv_Check (\<lambda>t. 5) 0 2 [7] s = Some (r, res)" "res = ResultSucc \<longleftrightarrow> retained s 2 \<and> (\<forall>x \<in> set [7]. \<forall>a. (x, a) \<notin> newer 2 (history ex_updates))"
      "res \<noteq> ResultSucc \<longrightarrow> res = ResultFail" "retained s 2 \<and> res = ResultFail \<longrightarrow> (\<exists>c. r = Some c \<and> reports c [7] (newer 2 (history ex_updates)))"
    using mp [OF mp [OF spec [OF spec [OF spec [OF c, of 2], of 0], of "[7]"] f(3)] list.distinct(2)] by blast
  obtain r' res' where r': "sv_Check (\<lambda>t. 5) 0 2 [8] s = Some (r', res')"
      "res' = ResultSucc \<longleftrightarrow> retained s 2 \<and> (\<forall>x \<in> set [8]. \<forall>a. (x, a) \<notin> newer 2 (history ex_updates))" "res' \<noteq> ResultSucc \<longrightarrow> res' = ResultFail"
      "retained s 2 \<and> res' = ResultFail \<longrightarrow> (\<exists>c. r' = Some c \<and> reports c [8] (newer 2 (history ex_updates)))"
    using mp [OF mp [OF spec [OF spec [OF spec [OF c, of 2], of 0], of "[8]"] f(3)] list.distinct(2)] by blast
  have "res = ResultSucc" "res' \<noteq> ResultSucc"
    using r(2) r'(2) f(2) n by simp_all
  then show ?thesis
    using s r(1) r'(1,3,4) f(2) n by auto
qed

text \<open>
  C25. The checker lets a transaction commit only when it may: asking validators that are stopped or follow the
  history of schema changes, it always returns, after at most the configured number of attempts. If it returns no
  error, then at some attempt the validator ran, and it had no lease to watch, or the version was
  outdated and no newer change touched one of the transaction's tables, or the version was the latest and the lease
  of the schema had not run out at the transaction's time. It reports an expired schema only if at every
  attempt the validator was stopped, or it had a lease, the version was the latest and the lease had run out.
\<close>

theorem checker_lets_through_only_valid:
  assumes "0 < maxCnt"
    and run: "\<forall>i < tries. \<not> isStarted (states i) \<or> chain 0 (us i) \<and> run_updates GetTimeFromTS maxCnt (us i) (NewSchemaValidator l) = Some (states i)"
  shows "\<exists>r err. SchemaChecker_Check GetTimeFromTS tries states ts chk = Some (r, err) \<and>
    (err = None \<longrightarrow> (\<exists>i < tries. isStarted (states i) \<and>
       (l = 0 \<or>
        schemaVer chk < latestSchemaVer (states i) \<and> relatedBlockIDs chk \<noteq> [] \<and>
          (\<forall>x \<in> set (relatedBlockIDs chk). \<forall>a. (x, a) \<notin> newer (schemaVer chk) (history (us i))) \<or>
        latestSchemaVer (states i) \<le> schemaVer chk \<and> GetTimeFromTS ts \<le> latestSchemaExpire (states i)))) \<and>
    (err = Some ErrSchemaReplicantExpired \<longrightarrow> (\<forall>i < tries. \<not> isStarted (states i) \<or>
       l \<noteq> 0 \<and> latestSchemaVer (states i) \<le> schemaVer chk \<and> latestSchemaExpire (states i) < GetTimeFromTS ts))"
proof -
  let ?v = "schemaVer chk" and ?ids = "relatedBlockIDs chk"
  define good where "good i \<longleftrightarrow> isStarted (states i) \<and> (l = 0 \<or>
       ?v < latestSchemaVer (states i) \<and> ?ids \<noteq> [] \<and> (\<forall>x \<in> set ?ids. \<forall>a. (x, a) \<notin> newer ?v (history (us i))) \<or>
       latestSchemaVer (states i) \<le> ?v \<and> GetTimeFromTS ts \<le> latestSchemaExpire (states i))" for i
  define late where "late i \<longleftrightarrow> \<not> isStarted (states i) \<or> l \<noteq> 0 \<and> latestSchemaVer (states i) \<le> ?v \<and> latestSchemaExpire (states i) < GetTimeFromTS ts" for i
  have one: "\<exists>r res. sv_Check GetTimeFromTS ts ?v ?ids (states i) = Some (r, res) \<and> (res = ResultSucc \<longrightarrow> good i) \<and> (res = ResultUnknown \<longrightarrow> late i)"
    if i: "i < tries" for i
  proof (cases "isStarted (states i)")
    case False
    then show ?thesis
      by (simp add: sv_Check_def late_def)
  next
    case started: True
    then have t: "tracks l maxCnt (states i) (history (us i))"
      using new_run_tracks [OF assms(1), of "us i" GetTimeFromTS l] run i by auto
    show ?thesis
    proof (cases "?v < latestSchemaVer (states i) \<and> l \<noteq> 0 \<and> ?ids \<noteq> []")
      case True
      then show ?thesis
        using Check_of_history [OF t, of ?v ?ids GetTimeFromTS ts] started by (auto simp: good_def)
    next
      case False
      then show ?thesis
        using t started by (auto simp: sv_Check_def tracks_def good_def late_def)
    qed
  qed
  show ?thesis
    using CheckBySchemaVer_loop_spec [where states = states and good = good and late = late and j = 0, OF one] by (simp add: SchemaChecker_Check_def CheckBySchemaVer_def good_def late_def)
qed

theorem checker_lets_through_only_valid_witness:
  "\<exists>s r. run_updates (\<lambda>t. 5) 2 ex_updates (NewSchemaValidator 10) = Some s \<and>
    SchemaChecker_Check (\<lambda>t. 5) 10 (\<lambda>i. if i = 0 then sv_Stop s else s) 0 \<lparr>schemaVer = 3, relatedBlockIDs = [7]\<rparr> = Some (r, Some ErrSchemaReplicantExpired) \<and>
    \<not> isStarted (sv_Stop s) \<and> latestSchemaVer s \<le> 3 \<and> latestSchemaExpire s < 5"
proof -
  obtain s where s: "run_updates (\<lambda>t. 5) 2 ex_updates (NewSchemaValidator 10) = Some s" "isStarted s" "lease s = 10" "latestSchemaVer s = 3"
      "latestSchemaExpire s = 15 - millisecond"
    using ex_updates_run by simp
  let ?chk = "\<lparr>schemaVer = 3, relatedBlockIDs = [7]\<rparr>" and ?st = "\<lambda>i :: nat. if i = 0 then sv_Stop s else s"
  have stopped: "\<not> isStarted (sv_Stop s)"
    by (simp add: sv_Stop_def)
  have "CheckBySchemaVer_loop (\<lambda>t. 5) 10 ?st 0 3 [7] j = Some (None, Some ErrSchemaReplicantExpired)" for j
    by (induction "10 - j" arbitrary: j rule: less_induct)
      (simp add: CheckBySchemaVer_loop.simps [of _ _ _ _ _ _ j for j] sv_Check_def s millisecond_def stopped)
  then have e: "SchemaChecker_Check (\<lambda>t. 5) 10 ?st 0 ?chk = Some (None, Some ErrSchemaReplicantExpired)"
    by (simp add: SchemaChecker_Check_def CheckBySchemaVer_def)
  have "\<forall>i < 10. \<not> isStarted (?st i) \<or> latestSchemaVer (?st i) \<le> 3 \<and> latestSchemaExpire (?st i) < 5"
    using checker_lets_through_only_valid [of 2 10 ?st "\<lambda>i. ex_updates" "\<lambda>t. 5" 10 0 ?chk] s(1) e ex_updates_chain stopped by simp
  from spec [OF this, of 1] have "latestSchemaVer s \<le> 3 \<and> latestSchemaExpire s < 5"
    using s(2) by simp
  then show ?thesis
    using s(1) e stopped by blast
qed

end
