(* ===== verification/Container_Heap.thy ===== *)
theory Container_Heap
  imports Prelude "HOL-Library.Multiset"
begin

text \<open>
  Go's \<^verbatim>\<open>container/heap\<close>, which the slow-query log and the coprocessor's top-n executor keep their rows with: its
  operations over the methods of \<^verbatim>\<open>heap.Interface\<close>, and what they promise to a type whose methods read and swap
  the elements of a slice and compare them by a strict weak order.
\<close>

section \<open>Operations\<close>

text \<open>A comparison may change the state of the collection, since one that fails records its error there.\<close>

record ('h, 'a) heap_Interface =
  h_Len :: "'h \<Rightarrow> nat"
  h_Less :: "'h \<Rightarrow> nat \<Rightarrow> nat \<Rightarrow> bool \<times> 'h"
  h_Swap :: "'h \<Rightarrow> nat \<Rightarrow> nat \<Rightarrow> 'h"
  h_Push :: "'h \<Rightarrow> 'a \<Rightarrow> 'h"
  h_Pop :: "'h \<Rightarrow> ('a \<times> 'h) option"

function heap_up :: "('h, 'a) heap_Interface \<Rightarrow> 'h \<Rightarrow> nat \<Rightarrow> 'h" where
  "heap_up I h j =
     (let i = (j - 1) div 2
      in if i = j then h
         else case h_Less I h j i of (b, h1) \<Rightarrow> if \<not> b then h1 else heap_up I (h_Swap I h1 i j) i)"
  by pat_completeness auto
termination
  by (relation "measure (\<lambda>(_, _, j). j)") auto

text \<open>The last position of the element comes with the collection.\<close>

function heap_down :: "('h, 'a) heap_Interface \<Rightarrow> 'h \<Rightarrow> nat \<Rightarrow> nat \<Rightarrow> nat \<times> 'h" where
  "heap_down I h i n =
     (let j1 = 2 * i + 1
      in if j1 \<ge> n then (i, h)
         else case (if j1 + 1 < n then h_Less I h (j1 + 1) j1 else (False, h)) of (right, h1) \<Rightarrow>
              let j = (if right then j1 + 1 else j1)
              in case h_Less I h1 j i of (b, h2) \<Rightarrow> if \<not> b then (i, h2) else heap_down I (h_Swap I h2 i j) j n)"
  by pat_completeness auto
termination
  by (relation "measure (\<lambda>(_, _, i, n). n - i)") auto

declare heap_up.simps [simp del] heap_down.simps [simp del]

fun heap_Init_loop :: "('h, 'a) heap_Interface \<Rightarrow> 'h \<Rightarrow> nat \<Rightarrow> nat \<Rightarrow> 'h" where
  "heap_Init_loop I h n 0 = h"
| "heap_Init_loop I h n (Suc i) = heap_Init_loop I (snd (heap_down I h i n)) n i"

definition heap_Init :: "('h, 'a) heap_Interface \<Rightarrow> 'h \<Rightarrow> 'h" where
  "heap_Init I h = (let n = h_Len I h in heap_Init_loop I h n (n div 2))"

definition heap_Push :: "('h, 'a) heap_Interface \<Rightarrow> 'h \<Rightarrow> 'a \<Rightarrow> 'h" where
  "heap_Push I h x = (let h1 = h_Push I h x in heap_up I h1 (h_Len I h1 - 1))"

definition heap_Pop :: "('h, 'a) heap_Interface \<Rightarrow> 'h \<Rightarrow> ('a \<times> 'h) option" where
  "heap_Pop I h =
     (if h_Len I h = 0 then None
      else let n = h_Len I h - 1 in h_Pop I (snd (heap_down I (h_Swap I h 0 n) 0 n)))"

definition heap_Fix :: "('h, 'a) heap_Interface \<Rightarrow> 'h \<Rightarrow> nat \<Rightarrow> 'h" where
  "heap_Fix I h i = (case heap_down I h i (h_Len I h) of (i', h1) \<Rightarrow> if \<not> i' > i then heap_up I h1 i else h1)"

section \<open>Heaps in lists\<close>

definition parent :: "nat \<Rightarrow> nat" where
  "parent k = (k - 1) div 2"

lemma parent_less: "0 < k \<Longrightarrow> parent k < k"
  by (simp add: parent_def)

lemma parent_eq_iff: "0 < k \<Longrightarrow> parent k = i \<longleftrightarrow> k = 2 * i + 1 \<or> k = 2 * i + 2"
  unfolding parent_def by presburger

definition swap :: "'a list \<Rightarrow> nat \<Rightarrow> nat \<Rightarrow> 'a list" where
  "swap xs i j = xs[i := xs ! j, j := xs ! i]"

lemma length_swap [simp]: "length (swap xs i j) = length xs"
  by (simp add: swap_def)

lemma nth_swap: "i < length xs \<Longrightarrow> j < length xs \<Longrightarrow> swap xs i j ! k = (if k = j then xs ! i else if k = i then xs ! j else xs ! k)"
  by (auto simp: swap_def nth_list_update)

lemma mset_swap_idx [simp]: "i < length xs \<Longrightarrow> j < length xs \<Longrightarrow> mset (swap xs i j) = mset xs"
  by (cases "i = j") (simp_all add: swap_def mset_swap)

lemma drop_swap: "i < n \<Longrightarrow> j < n \<Longrightarrow> drop n (swap xs i j) = drop n xs"
  by (simp add: swap_def)

text \<open>The elements from position \<open>lo\<close> on are not below their parents, in the first \<open>n\<close> positions.\<close>

definition heap_from :: "('a \<Rightarrow> 'a \<Rightarrow> bool) \<Rightarrow> nat \<Rightarrow> nat \<Rightarrow> 'a list \<Rightarrow> bool" where
  "heap_from lt lo n xs = (\<forall>k. 0 < k \<and> k < n \<and> lo \<le> parent k \<longrightarrow> \<not> lt (xs ! k) (xs ! parent k))"

abbreviation is_heap :: "('a \<Rightarrow> 'a \<Rightarrow> bool) \<Rightarrow> nat \<Rightarrow> 'a list \<Rightarrow> bool" where
  "is_heap lt \<equiv> heap_from lt 0"

lemma heap_from_take [simp]: "heap_from lt lo n (take n xs) = heap_from lt lo n xs"
proof -
  have "take n xs ! parent k = xs ! parent k" if "0 < k" "k < n" for k
    using parent_less [OF that(1)] that(2) by simp
  then show ?thesis
    by (auto simp: heap_from_def)
qed

text \<open>The same but for the element at \<open>j\<close>, which may be below its parent, or above its children.\<close>

definition up_inv :: "('a \<Rightarrow> 'a \<Rightarrow> bool) \<Rightarrow> nat \<Rightarrow> 'a list \<Rightarrow> nat \<Rightarrow> bool" where
  "up_inv lt n xs j =
     ((\<forall>k. 0 < k \<and> k < n \<and> k \<noteq> j \<longrightarrow> \<not> lt (xs ! k) (xs ! parent k)) \<and>
      (\<forall>k. 0 < k \<and> k < n \<and> parent k = j \<and> 0 < j \<longrightarrow> \<not> lt (xs ! k) (xs ! parent j)))"

definition down_inv :: "('a \<Rightarrow> 'a \<Rightarrow> bool) \<Rightarrow> nat \<Rightarrow> nat \<Rightarrow> 'a list \<Rightarrow> nat \<Rightarrow> bool" where
  "down_inv lt lo n xs i =
     ((\<forall>k. 0 < k \<and> k < n \<and> lo \<le> parent k \<and> parent k \<noteq> i \<longrightarrow> \<not> lt (xs ! k) (xs ! parent k)) \<and>
      (\<forall>k. 0 < k \<and> k < n \<and> parent k = i \<and> 0 < i \<and> lo \<le> parent i \<longrightarrow> \<not> lt (xs ! k) (xs ! parent i)))"

section \<open>What the operations promise\<close>

text \<open>A strict weak order.\<close>

locale weak_order =
  fixes lt :: "'a \<Rightarrow> 'a \<Rightarrow> bool"
  assumes asym: "lt a b \<Longrightarrow> \<not> lt b a"
    and neg_trans: "\<not> lt a b \<Longrightarrow> \<not> lt b c \<Longrightarrow> \<not> lt a c"
begin

lemma irrefl: "\<not> lt a a"
  using asym by blast

lemma less_le_trans: "lt a b \<Longrightarrow> \<not> lt c b \<Longrightarrow> lt a c"
  using neg_trans [of a c b] by blast

lemma root_least:
  assumes "is_heap lt n xs" and "k < n"
  shows "\<not> lt (xs ! k) (xs ! 0)"
  using assms(2)
proof (induction k rule: less_induct)
  case (less k)
  show ?case
  proof (cases "k = 0")
    case False
    then have "\<not> lt (xs ! k) (xs ! parent k)" "\<not> lt (xs ! parent k) (xs ! 0)"
      using assms(1) less parent_less [of k] by (auto simp: heap_from_def)
    then show ?thesis
      using neg_trans by blast
  qed (simp add: irrefl)
qed

lemma up_inv_swap:
  assumes "up_inv lt n xs j" and "j < n" and "n \<le> length xs" and "0 < j" and "lt (xs ! j) (xs ! parent j)"
  shows "up_inv lt n (swap xs (parent j) j) (parent j)"
proof -
  have p: "parent j < j" "parent j < length xs" "j < length xs"
    using parent_less [OF assms(4)] assms(2,3) by auto
  note sw = nth_swap [OF p(2,3)]
  have 1: "\<not> lt (swap xs (parent j) j ! k) (swap xs (parent j) j ! parent k)" if k: "0 < k" "k < n" "k \<noteq> parent j" for k
  proof (cases "k = j")
    case True
    then show ?thesis
      using asym [OF assms(5)] p by (simp add: sw)
  next
    case False
    have pk: "parent k < k"
      by (rule parent_less [OF k(1)])
    have old: "\<not> lt (xs ! k) (xs ! parent k)"
      using assms(1) k False by (simp add: up_inv_def)
    consider "parent k = j" | "parent k = parent j" | "parent k \<noteq> j" "parent k \<noteq> parent j"
      by blast
    then show ?thesis
    proof cases
      case 1
      then show ?thesis
        using assms(1,4) k False by (simp add: sw up_inv_def)
    next
      case 2
      then show ?thesis
        using neg_trans [OF old, of "xs ! j"] asym [OF assms(5)] k False p by (simp add: sw)
    next
      case 3
      then show ?thesis
        using old k False by (simp add: sw)
    qed
  qed
  have 2: "\<not> lt (swap xs (parent j) j ! k) (swap xs (parent j) j ! parent (parent j))"
    if k: "0 < k" "k < n" "parent k = parent j" "0 < parent j" for k
  proof -
    have pp: "parent (parent j) < parent j"
      by (rule parent_less [OF k(4)])
    have a: "\<not> lt (xs ! parent j) (xs ! parent (parent j))"
      using assms(1,2) p k by (simp add: up_inv_def)
    have "\<not> lt (xs ! k) (xs ! parent j)" if "k \<noteq> j"
      using assms(1) k that by (metis up_inv_def)
    then show ?thesis
      using a neg_trans [OF _ a] pp p k parent_less [OF k(1)] by (auto simp: sw)
  qed
  show ?thesis
    using 1 2 by (simp add: up_inv_def)
qed

lemma up_inv_done: "up_inv lt n xs j \<Longrightarrow> j = 0 \<or> \<not> lt (xs ! j) (xs ! parent j) \<Longrightarrow> is_heap lt n xs"
  by (auto simp: up_inv_def heap_from_def)

lemma down_inv_swap:
  assumes "down_inv lt lo n xs i" and "lo \<le> i" and "n \<le> length xs" and "j < n" and "0 < j" and "parent j = i" and "lt (xs ! j) (xs ! i)"
    and small: "\<And>k. 0 < k \<Longrightarrow> k < n \<Longrightarrow> parent k = i \<Longrightarrow> \<not> lt (xs ! k) (xs ! j)"
  shows "down_inv lt lo n (swap xs i j) j"
proof -
  have p: "i < j" "i < length xs" "j < length xs"
    using parent_less [OF assms(5)] assms(3,4,6) by auto
  note sw = nth_swap [OF p(2,3)]
  have 1: "\<not> lt (swap xs i j ! k) (swap xs i j ! parent k)" if k: "0 < k" "k < n" "lo \<le> parent k" "parent k \<noteq> j" for k
  proof (cases "parent k = i")
    case True
    then show ?thesis
      using small [OF k(1,2)] asym [OF assms(7)] p parent_less [OF k(1)] by (auto simp: sw)
  next
    case False
    have old: "\<not> lt (xs ! k) (xs ! parent k)"
      using assms(1) k False by (simp add: down_inv_def)
    show ?thesis
    proof (cases "k = i")
      case True
      then have "\<not> lt (xs ! j) (xs ! parent i)"
        using assms(1,4,5,6) k by (simp add: down_inv_def)
      then show ?thesis
        using True k p parent_less [OF k(1)] by (simp add: sw)
    next
      case False
      then show ?thesis
        using old k \<open>parent k \<noteq> i\<close> assms(6) by (auto simp: sw)
    qed
  qed
  have 2: "\<not> lt (swap xs i j ! k) (swap xs i j ! parent j)" if k: "0 < k" "k < n" "parent k = j" for k
  proof -
    have "\<not> lt (xs ! k) (xs ! j)"
      using spec [OF conjunct1 [OF assms(1) [unfolded down_inv_def]], of k] assms(2) p k by simp
    then show ?thesis
      using k p parent_less [OF k(1)] assms(6) by (simp add: sw)
  qed
  show ?thesis
    using 1 2 by (simp add: down_inv_def)
qed

lemma down_inv_root:
  assumes "heap_from lt 0 m xs" and "\<And>k. 0 < k \<Longrightarrow> k < n \<Longrightarrow> ys ! k = xs ! k" and "n \<le> m"
  shows "down_inv lt 0 n ys 0"
proof -
  have "\<not> lt (ys ! k) (ys ! parent k)" if k: "0 < k" "k < n" "parent k \<noteq> 0" for k
    using spec [OF assms(1) [unfolded heap_from_def], of k] assms(2) [of k] assms(2) [of "parent k"] k assms(3) parent_less [of k] by simp
  then show ?thesis
    by (simp add: down_inv_def)
qed

lemma down_inv_done:
  assumes "down_inv lt lo n xs i" and "\<And>k. 0 < k \<Longrightarrow> k < n \<Longrightarrow> parent k = i \<Longrightarrow> \<not> lt (xs ! k) (xs ! i)"
  shows "heap_from lt lo n xs"
  unfolding heap_from_def
proof (intro allI impI)
  fix k assume "0 < k \<and> k < n \<and> lo \<le> parent k"
  then show "\<not> lt (xs ! k) (xs ! parent k)"
    using assms by (cases "parent k = i") (auto simp: down_inv_def)
qed

end

text \<open>
  A collection with the methods of the interface: its elements can be read and replaced, the methods work on
  them, and no comparison of acceptable elements fails.
\<close>

locale heap_methods = weak_order lt for lt :: "'a \<Rightarrow> 'a \<Rightarrow> bool" +
  fixes I :: "('h, 'a) heap_Interface" and elems :: "'h \<Rightarrow> 'a list" and put :: "'h \<Rightarrow> 'a list \<Rightarrow> 'h" and ok :: "'h \<Rightarrow> bool"
  assumes elems_put [simp]: "elems (put h xs) = xs"
    and put_put [simp]: "put (put h xs) ys = put h ys"
    and put_elems [simp]: "put h (elems h) = h"
    and Len_put [simp]: "length xs = length (elems h) \<Longrightarrow> h_Len I (put h xs) = h_Len I h"
    and ok_put: "ok h \<Longrightarrow> mset xs = mset (elems h) \<Longrightarrow> ok (put h xs)"
    and Less: "ok h \<Longrightarrow> i < length (elems h) \<Longrightarrow> j < length (elems h) \<Longrightarrow> h_Less I h i j = (lt (elems h ! i) (elems h ! j), h)"
    and Swap: "i < length (elems h) \<Longrightarrow> j < length (elems h) \<Longrightarrow> h_Swap I h i j = put h (swap (elems h) i j)"
begin

lemma heap_up_spec:
  assumes "ok h" and "n \<le> length (elems h)" and "j < n" and "up_inv lt n (elems h) j"
  shows "\<exists>xs. heap_up I h j = put h xs \<and> mset xs = mset (elems h) \<and> drop n xs = drop n (elems h) \<and> is_heap lt n xs"
  using assms
proof (induction j arbitrary: h rule: less_induct)
  case (less j)
  let ?i = "parent j" and ?xs = "elems h"
  show ?case
  proof (cases "0 < j \<and> lt (?xs ! j) (?xs ! ?i)")
    case True
    then have i: "?i < j" "j < length ?xs" "?i < length ?xs"
      using parent_less [of j] less.prems by auto
    let ?h = "put h (swap ?xs ?i j)"
    have "ok ?h"
      using i less.prems(1) by (intro ok_put) simp_all
    moreover have "up_inv lt n (elems ?h) ?i"
      using up_inv_swap [OF less.prems(4,3,2)] True by simp
    ultimately obtain xs where xs: "heap_up I ?h ?i = put ?h xs" "mset xs = mset (elems ?h)" "drop n xs = drop n (elems ?h)" "is_heap lt n xs"
      using less.IH [OF i(1), of ?h] less.prems(2,3) i by auto
    have "heap_up I h j = heap_up I ?h ?i"
      unfolding heap_up.simps [of I h j] Let_def parent_def [symmetric] using True i less.prems Less [of h j ?i] Swap [of ?i h j] by simp
    then show ?thesis
      using xs i less.prems(2,3) drop_swap [of ?i n j ?xs] by (intro exI [of _ xs]) simp
  next
    case False
    have "heap_up I h j = h"
    proof (cases "j = 0")
      case False
      then show ?thesis
        unfolding heap_up.simps [of I h j] Let_def parent_def [symmetric]
        using \<open>\<not> (0 < j \<and> lt (?xs ! j) (?xs ! ?i))\<close> parent_less [of j] less.prems Less [of h j ?i] by simp
    qed (simp add: heap_up.simps)
    then show ?thesis
      using up_inv_done [OF less.prems(4)] False by (intro exI [of _ ?xs]) auto
  qed
qed

text \<open>The child that \<open>down\<close> looks at is the least.\<close>

lemma least_child:
  assumes j: "j = (if 2 * i + 2 < n \<and> lt (xs ! (2 * i + 2)) (xs ! (2 * i + 1)) then 2 * i + 2 else 2 * i + 1)"
    and k: "0 < k" "k < n" "parent k = i"
  shows "\<not> lt (xs ! k) (xs ! j)"
proof -
  have "k = 2 * i + 1 \<or> k = 2 * i + 2"
    using parent_eq_iff [OF k(1), of i] k(3) by auto
  then show ?thesis
    using j k(2) irrefl asym by (auto split: if_splits)
qed

lemma heap_down_step:
  assumes "ok h" and "n \<le> length (elems h)" and "2 * i + 1 < n"
    and j: "j = (if 2 * i + 2 < n \<and> lt (elems h ! (2 * i + 2)) (elems h ! (2 * i + 1)) then 2 * i + 2 else 2 * i + 1)"
  shows "heap_down I h i n = (if lt (elems h ! j) (elems h ! i) then heap_down I (put h (swap (elems h) i j)) j n else (i, h))"
proof -
  have l: "i < length (elems h)" "j < length (elems h)" "2 * i + 1 < length (elems h)" "2 * i + 2 < n \<longrightarrow> 2 * i + 2 < length (elems h)"
    using assms(2,3) j by auto
  have a: "(if 2 * i + 1 + 1 < n then h_Less I h (2 * i + 1 + 1) (2 * i + 1) else (False, h)) = (j = 2 * i + 2, h)"
    using l Less [OF assms(1), of "2 * i + 2" "2 * i + 1"] j by simp
  have b: "(if j = 2 * i + 2 then 2 * i + 1 + 1 else 2 * i + 1) = j"
    using j by simp
  show ?thesis
    unfolding heap_down.simps [of I h i n] Let_def a prod.case b using assms(3) Less [OF assms(1) l(2,1)] Swap [OF l(1,2)] by simp
qed

lemma heap_down_spec:
  assumes "ok h" and "n \<le> length (elems h)" and "lo \<le> i" and "down_inv lt lo n (elems h) i"
  shows "\<exists>i' xs. heap_down I h i n = (i', put h xs) \<and> i \<le> i' \<and> (i' = i \<longrightarrow> xs = elems h) \<and>
    mset xs = mset (elems h) \<and> drop n xs = drop n (elems h) \<and> heap_from lt lo n xs"
  using assms
proof (induction "n - i" arbitrary: i h rule: less_induct)
  case less
  let ?xs = "elems h"
  define j where "j = (if 2 * i + 2 < n \<and> lt (?xs ! (2 * i + 2)) (?xs ! (2 * i + 1)) then 2 * i + 2 else 2 * i + 1)"
  show ?case
  proof (cases "2 * i + 1 < n")
    case c: True
    note step = heap_down_step [OF less.prems(1,2) c j_def]
    have j: "i < j" "j < n" "0 < j" "parent j = i"
      using c parent_eq_iff [of j i] by (auto simp: j_def)
    have small: "\<not> lt (?xs ! k) (?xs ! j)" if "0 < k" "k < n" "parent k = i" for k
      by (rule least_child [OF j_def that])
    show ?thesis
    proof (cases "lt (?xs ! j) (?xs ! i)")
      case True
      let ?h = "put h (swap ?xs i j)"
      have "ok ?h"
        using j less.prems(1,2) by (intro ok_put) simp_all
      moreover have "down_inv lt lo n (elems ?h) j"
        unfolding elems_put by (rule down_inv_swap [OF less.prems(4,3,2) j(2-4) True]) (rule small)
      moreover have "n - j < n - i" "n \<le> length (elems ?h)" "lo \<le> j"
        using j less.prems(2,3) by simp_all
      ultimately obtain i' xs where "heap_down I ?h j n = (i', put ?h xs)" "j \<le> i'" "mset xs = mset (elems ?h)"
          "drop n xs = drop n (elems ?h)" "heap_from lt lo n xs"
        using less.hyps [of j ?h] by blast
      then show ?thesis
        using step True j less.prems(2) drop_swap [of i n j ?xs] by (intro exI [of _ i'] exI [of _ xs]) simp
    next
      case False
      have "\<not> lt (?xs ! k) (?xs ! i)" if "0 < k" "k < n" "parent k = i" for k
        using neg_trans [OF small [OF that] False] .
      then show ?thesis
        using step False down_inv_done [OF less.prems(4)] by (intro exI [of _ i] exI [of _ ?xs]) simp
    qed
  next
    case False
    then have "heap_down I h i n = (i, h)"
      by (simp add: heap_down.simps)
    moreover have "\<not> (0 < k \<and> k < n \<and> parent k = i)" for k
      using False parent_eq_iff [of k i] by auto
    ultimately show ?thesis
      using down_inv_done [OF less.prems(4)] by (intro exI [of _ i] exI [of _ ?xs]) auto
  qed
qed

lemma heap_Fix_spec:
  assumes "ok h" and "h_Len I h \<le> length (elems h)" and "down_inv lt 0 (h_Len I h) (elems h) 0"
  shows "\<exists>xs. heap_Fix I h 0 = put h xs \<and> mset xs = mset (elems h) \<and> drop (h_Len I h) xs = drop (h_Len I h) (elems h) \<and> is_heap lt (h_Len I h) xs"
proof -
  have "heap_up I h' 0 = h'" for h'
    by (simp add: heap_up.simps)
  moreover obtain i' xs where "heap_down I h 0 (h_Len I h) = (i', put h xs)" "mset xs = mset (elems h)"
      "drop (h_Len I h) xs = drop (h_Len I h) (elems h)" "is_heap lt (h_Len I h) xs"
    using heap_down_spec [OF assms(1,2) le0 assms(3)] by blast
  ultimately show ?thesis
    by (intro exI [of _ xs]) (simp add: heap_Fix_def)
qed

lemma heap_Init_loop_spec:
  assumes "ok h" and "n \<le> length (elems h)" and "heap_from lt i n (elems h)"
  shows "\<exists>xs. heap_Init_loop I h n i = put h xs \<and> mset xs = mset (elems h) \<and> is_heap lt n xs"
  using assms
proof (induction i arbitrary: h)
  case 0
  then show ?case
    by (intro exI [of _ "elems h"]) simp
next
  case (Suc i)
  have "down_inv lt i n (elems h) i"
    using Suc.prems(3) parent_less [of i] by (auto simp: down_inv_def heap_from_def)
  then obtain i' xs where xs: "heap_down I h i n = (i', put h xs)" "mset xs = mset (elems h)" "heap_from lt i n xs"
    using heap_down_spec [OF Suc.prems(1,2) le_refl] by blast
  have "ok (put h xs)" "n \<le> length (elems (put h xs))"
    using ok_put [OF Suc.prems(1) xs(2)] mset_eq_length [OF xs(2)] Suc.prems(2) by simp_all
  then show ?case
    using Suc.IH [of "put h xs"] xs by auto
qed

lemma heap_Init_spec:
  assumes "ok h" and "h_Len I h \<le> length (elems h)"
  shows "\<exists>xs. heap_Init I h = put h xs \<and> mset xs = mset (elems h) \<and> is_heap lt (h_Len I h) xs"
proof -
  have "heap_from lt (h_Len I h div 2) (h_Len I h) (elems h)"
    unfolding heap_from_def parent_def by linarith
  then show ?thesis
    using heap_Init_loop_spec [OF assms] by (simp add: heap_Init_def Let_def)
qed

lemma heap_Push_spec:
  assumes "ok (h_Push I h x)" and "elems (h_Push I h x) = elems h @ [x]" and "h_Len I (h_Push I h x) = Suc (length (elems h))"
    and "is_heap lt (length (elems h)) (elems h)"
  shows "\<exists>xs. heap_Push I h x = put (h_Push I h x) xs \<and> mset xs = add_mset x (mset (elems h)) \<and> is_heap lt (length xs) xs"
proof -
  let ?n = "length (elems h)"
  have "\<not> lt ((elems h @ [x]) ! k) ((elems h @ [x]) ! parent k)" if "0 < k" "k < Suc ?n" "k \<noteq> ?n" for k
    using assms(4) that parent_less [OF that(1)] by (simp add: heap_from_def nth_append)
  moreover have "parent k \<noteq> ?n" if "0 < k" "k < Suc ?n" for k
    using parent_less [OF that(1)] that(2) by linarith
  ultimately have "up_inv lt (Suc ?n) (elems (h_Push I h x)) ?n"
    by (auto simp: up_inv_def assms(2))
  then obtain xs where xs: "heap_up I (h_Push I h x) ?n = put (h_Push I h x) xs" "mset xs = mset (elems h @ [x])" "is_heap lt (Suc ?n) xs"
    using heap_up_spec [OF assms(1), of "Suc ?n" ?n] assms(2) by auto
  then show ?thesis
    using mset_eq_length [OF xs(2)] assms(3) by (intro exI [of _ xs]) (simp add: heap_Push_def)
qed

end

text \<open>A collection that gives up its last element.\<close>

locale heap_collection = heap_methods +
  assumes Len: "h_Len I h = length (elems h)"
    and Pop: "elems h \<noteq> [] \<Longrightarrow> h_Pop I h = Some (last (elems h), put h (butlast (elems h)))"
begin

lemma heap_Pop_spec:
  assumes "ok h" and "elems h \<noteq> []" and "is_heap lt (length (elems h)) (elems h)"
  shows "\<exists>xs. heap_Pop I h = Some (elems h ! 0, put h xs) \<and> add_mset (elems h ! 0) (mset xs) = mset (elems h) \<and> is_heap lt (length xs) xs"
proof -
  let ?n = "length (elems h) - 1"
  have n: "?n < length (elems h)" "0 < length (elems h)"
    using assms(2) by simp_all
  let ?h = "put h (swap (elems h) 0 ?n)"
  note sw = nth_swap [OF n(2,1)]
  have h: "ok ?h" "?n \<le> length (elems ?h)"
    using n by (simp_all add: ok_put [OF assms(1)])
  have "down_inv lt 0 ?n (elems ?h) 0"
    unfolding elems_put by (rule down_inv_root [OF assms(3)]) (unfold sw, auto)
  then obtain i' xs where xs: "heap_down I ?h 0 ?n = (i', put ?h xs)" "mset xs = mset (elems ?h)" "drop ?n xs = drop ?n (elems ?h)" "is_heap lt ?n xs"
    using heap_down_spec [OF h le0] by blast
  have l: "length xs = length (elems h)"
    using mset_eq_length [OF xs(2)] by simp
  have ne: "xs \<noteq> []"
    using l assms(2) by auto
  have root: "last xs = elems h ! 0"
  proof -
    have "last xs = elems ?h ! ?n"
      using arg_cong [OF xs(3), of hd] n l ne by (simp add: hd_drop_conv_nth last_conv_nth)
    then show ?thesis
      unfolding elems_put sw by simp
  qed
  have "is_heap lt (length (butlast xs)) (butlast xs)"
    using xs(4) l by (auto simp: heap_from_def nth_butlast dest: parent_less)
  moreover have "add_mset (elems h ! 0) (mset (butlast xs)) = mset (elems h)"
  proof -
    have "mset xs = add_mset (last xs) (mset (butlast xs))"
      by (subst append_butlast_last_id [OF ne, symmetric]) (simp del: append_butlast_last_id)
    then show ?thesis
      using xs(2) n root by simp
  qed
  moreover have "heap_Pop I h = Some (last xs, put h (butlast xs))"
    unfolding heap_Pop_def Let_def Len Swap [OF n(2,1)] xs(1) snd_conv using Pop [of "put ?h xs"] ne assms(2) by simp
  ultimately show ?thesis
    using root by auto
qed

end

section \<open>Sorting\<close>

text \<open>
  What \<^verbatim>\<open>sort.Sort\<close> promises for a comparison: a rearrangement in ascending order. It does not say in which order it
  leaves equal elements, so the sorting function is an argument wherever the code sorts.
\<close>

definition sorts_on :: "('a \<Rightarrow> bool) \<Rightarrow> (('a \<Rightarrow> 'a \<Rightarrow> bool) \<Rightarrow> 'a list \<Rightarrow> 'a list) \<Rightarrow> ('a \<Rightarrow> 'a \<Rightarrow> bool) \<Rightarrow> bool" where
  "sorts_on P srt lt = (\<forall>xs. list_all P xs \<longrightarrow> mset (srt lt xs) = mset xs \<and> sorted_wrt (\<lambda>a b. \<not> lt b a) (srt lt xs))"

abbreviation sorts :: "(('a \<Rightarrow> 'a \<Rightarrow> bool) \<Rightarrow> 'a list \<Rightarrow> 'a list) \<Rightarrow> ('a \<Rightarrow> 'a \<Rightarrow> bool) \<Rightarrow> bool" where
  "sorts \<equiv> sorts_on (\<lambda>x. True)"

lemma sortsD: "sorts srt lt \<Longrightarrow> mset (srt lt xs) = mset xs" "sorts srt lt \<Longrightarrow> sorted_wrt (\<lambda>a b. \<not> lt b a) (srt lt xs)"
  by (simp_all add: sorts_on_def list_all_iff)

primrec insert_by :: "('a \<Rightarrow> 'a \<Rightarrow> bool) \<Rightarrow> 'a \<Rightarrow> 'a list \<Rightarrow> 'a list" where
  "insert_by lt x [] = [x]"
| "insert_by lt x (y # ys) = (if lt y x then y # insert_by lt x ys else x # y # ys)"

definition insertion_sort :: "('a \<Rightarrow> 'a \<Rightarrow> bool) \<Rightarrow> 'a list \<Rightarrow> 'a list" where
  "insertion_sort lt xs = foldr (insert_by lt) xs []"

lemma mset_insert_by [simp]: "mset (insert_by lt x xs) = add_mset x (mset xs)"
  by (induction xs) auto

lemma insertion_sort_cong:
  assumes "\<And>a b. P a \<Longrightarrow> P b \<Longrightarrow> lt a b = lt' a b"
  shows "list_all P xs \<Longrightarrow> insertion_sort lt xs = insertion_sort lt' xs \<and> list_all P (insertion_sort lt xs)"
proof (induction xs)
  case (Cons x xs)
  have "insert_by lt x ys = insert_by lt' x ys \<and> list_all P (insert_by lt x ys)" if "list_all P ys" for ys
    using that Cons.prems assms by (induction ys) auto
  note i = this [of "insertion_sort lt xs"]
  have "list_all P xs"
    using Cons.prems by simp
  then show ?case
    using i Cons.IH by (metis foldr.simps(2) comp_apply insertion_sort_def)
qed (simp add: insertion_sort_def)

context weak_order
begin

lemma sorted_insert_by: "sorted_wrt (\<lambda>a b. \<not> lt b a) xs \<Longrightarrow> sorted_wrt (\<lambda>a b. \<not> lt b a) (insert_by lt x xs)"
proof (induction xs)
  case (Cons y ys)
  have "set (insert_by lt x ys) = insert x (set ys)"
    using mset_insert_by [of lt x ys] by (metis set_mset_add_mset_insert set_mset_mset)
  moreover have "\<not> lt z x" if "z \<in> set ys" "\<not> lt y x" for z
    using neg_trans [of z y x] Cons.prems that by simp
  ultimately show ?case
    using Cons asym [of y x] by simp
qed simp

lemma insertion_sort_sorts: "sorts insertion_sort lt"
proof -
  have "mset (insertion_sort lt xs) = mset xs \<and> sorted_wrt (\<lambda>a b. \<not> lt b a) (insertion_sort lt xs)" for xs
    by (induction xs) (simp_all add: insertion_sort_def sorted_insert_by)
  then show ?thesis
    by (simp add: sorts_on_def)
qed

text \<open>A sorted list is a heap.\<close>

lemma sorted_is_heap: "sorted_wrt (\<lambda>a b. \<not> lt b a) xs \<Longrightarrow> is_heap lt (length xs) xs"
  unfolding heap_from_def using parent_less by (auto simp: sorted_wrt_iff_nth_less)

end

section \<open>Keeping the greatest\<close>

text \<open>
  What a bounded heap keeps of all the elements it was offered: as many as fit, and nothing that was dropped is
  above anything that is kept.
\<close>

definition keeps :: "('a \<Rightarrow> 'a \<Rightarrow> bool) \<Rightarrow> nat \<Rightarrow> 'a multiset \<Rightarrow> 'a multiset \<Rightarrow> bool" where
  "keeps lt n kept seen = (\<exists>dropped. seen = kept + dropped \<and> size kept \<le> n \<and> (dropped \<noteq> {#} \<longrightarrow> size kept = n) \<and>
     (\<forall>d \<in># dropped. \<forall>k \<in># kept. \<not> lt k d))"

lemma keeps_self: "size kept \<le> n \<Longrightarrow> keeps lt n kept kept"
  unfolding keeps_def by (intro exI [of _ "{#}"]) simp

lemma keeps_size: "keeps lt n kept seen \<Longrightarrow> size kept \<le> n"
  by (auto simp: keeps_def)

lemma keeps_subset: "keeps lt n kept seen \<Longrightarrow> kept \<subseteq># seen"
  by (auto simp: keeps_def)

lemma keeps_add: "keeps lt n kept seen \<Longrightarrow> size kept < n \<Longrightarrow> keeps lt n (add_mset x kept) (add_mset x seen)"
  unfolding keeps_def by (elim exE, rename_tac d, rule_tac x = d in exI) auto

lemma keeps_drop:
  "keeps lt n kept seen \<Longrightarrow> size kept = n \<Longrightarrow> (\<forall>k \<in># kept. \<not> lt k x) \<Longrightarrow> keeps lt n kept (add_mset x seen)"
  unfolding keeps_def by (elim exE, rename_tac d, rule_tac x = "add_mset x d" in exI) auto

context weak_order
begin

lemma keeps_replace:
  assumes "keeps lt n (add_mset m kept) seen" and "Suc (size kept) = n" and "\<forall>k \<in># kept. \<not> lt k m" and "\<not> lt x m"
  shows "keeps lt n (add_mset x kept) (add_mset x seen)"
proof -
  obtain d where d: "seen = add_mset m kept + d" "\<forall>e \<in># d. \<forall>k \<in># add_mset m kept. \<not> lt k e"
    using assms(1) by (auto simp: keeps_def)
  then have "\<forall>e \<in># add_mset m d. \<forall>k \<in># add_mset x kept. \<not> lt k e"
    using assms(3,4) neg_trans by auto
  then show ?thesis
    unfolding keeps_def using d(1) assms(2) by (intro exI [of _ "add_mset m d"]) simp
qed

text \<open>The root of a full heap makes place for an element above it, or the element is dropped.\<close>

lemma keeps_full:
  assumes "is_heap lt (length xs) xs" and "xs \<noteq> []" and "length xs = n" and "keeps lt n (mset xs) seen"
  shows "\<not> lt (xs ! 0) x \<Longrightarrow> keeps lt n (mset xs) (add_mset x seen)"
    and "lt (xs ! 0) x \<Longrightarrow> add_mset (xs ! 0) ys = mset xs \<Longrightarrow> keeps lt n (add_mset x ys) (add_mset x seen)"
proof -
  have least: "\<not> lt k (xs ! 0)" if "k \<in> set xs" for k
    using root_least [OF assms(1)] that by (auto simp: in_set_conv_nth)
  show "keeps lt n (mset xs) (add_mset x seen)" if "\<not> lt (xs ! 0) x"
    by (rule keeps_drop [OF assms(4)]) (use assms(3) least neg_trans [OF _ that] in auto)
  show "keeps lt n (add_mset x ys) (add_mset x seen)" if "lt (xs ! 0) x" "add_mset (xs ! 0) ys = mset xs"
  proof (rule keeps_replace [of n "xs ! 0"])
    show "keeps lt n (add_mset (xs ! 0) ys) seen"
      using assms(4) that(2) by simp
    show "Suc (size ys) = n"
      using arg_cong [OF that(2), of size] assms(3) by simp
    show "\<forall>k \<in># ys. \<not> lt k (xs ! 0)"
      using arg_cong [OF that(2), of set_mset] least by auto
    show "\<not> lt x (xs ! 0)"
      using asym [OF that(1)] .
  qed
qed

end

end
