(* ===== verification/Slow_Queries.thy ===== *)
theory Slow_Queries
  imports Container_Heap
begin

text \<open>
  \<^verbatim>\<open>petri/topn_slow_query.go\<close>: the slow queries of a server, the latest in a queue and the slowest in two heaps, one
  for the users' queries and one for the server's own. Times are numbers of nanoseconds, the sorting function is
  an argument, and \<open>None\<close> is a panic: an index out of range or a negative capacity. The channels the server's
  loop receives queries and requests on are not part of the model.
\<close>

section \<open>Data\<close>

record 'd SlowQueryInfo =
  ALLEGROSQL :: string
  Start :: int
  Duration :: int
  Detail :: 'd
  ConnID :: u64
  TxnTS :: u64
  User :: string
  EDB :: string
  BlockIDs :: string
  IndexNames :: string
  Digest :: string
  Internal :: bool
  Succ :: bool

record 'd slowQueryHeap =
  h_data :: "'d SlowQueryInfo list"

record 'd slowQueryQueue =
  q_data :: "'d SlowQueryInfo list"
  q_size :: int

record 'd topNSlowQueries =
  recent :: "'d slowQueryQueue"
  user :: "'d slowQueryHeap"
  internal :: "'d slowQueryHeap"
  topN :: int
  period :: int
  closed :: bool

section \<open>The heap\<close>

definition slower :: "'d SlowQueryInfo \<Rightarrow> 'd SlowQueryInfo \<Rightarrow> bool" where
  "slower a b = (Duration a < Duration b)"

definition slowQueryHeap_methods :: "('d slowQueryHeap, 'd SlowQueryInfo) heap_Interface" where
  "slowQueryHeap_methods =
     \<lparr>h_Len = \<lambda>h. length (h_data h),
      h_Less = \<lambda>h i j. (slower (h_data h ! i) (h_data h ! j), h),
      h_Swap = \<lambda>h i j. h\<lparr>h_data := (h_data h)[i := h_data h ! j, j := h_data h ! i]\<rparr>,
      h_Push = \<lambda>h x. h\<lparr>h_data := h_data h @ [x]\<rparr>,
      h_Pop = \<lambda>h. if h_data h = [] then None else Some (last (h_data h), h\<lparr>h_data := butlast (h_data h)\<rparr>)\<rparr>"

text \<open>The loop of \<open>RemoveExpired\<close>: the queries that have not expired move to the front.\<close>

function RemoveExpired_loop :: "int \<Rightarrow> int \<Rightarrow> nat \<Rightarrow> nat \<Rightarrow> 'd SlowQueryInfo list \<Rightarrow> nat \<times> 'd SlowQueryInfo list" where
  "RemoveExpired_loop now per i idx xs =
     (if i < length xs
      then let outdateTime = Start (xs ! i) + per
           in if outdateTime > now then RemoveExpired_loop now per (i + 1) (idx + 1) (xs[idx := xs ! i])
              else RemoveExpired_loop now per (i + 1) idx xs
      else (idx, xs))"
  by pat_completeness auto
termination
  by (relation "measure (\<lambda>(_, _, i, _, xs). length xs - i)") auto

declare RemoveExpired_loop.simps [simp del]

definition heap_RemoveExpired :: "int \<Rightarrow> int \<Rightarrow> 'd slowQueryHeap \<Rightarrow> 'd slowQueryHeap" where
  "heap_RemoveExpired now per h =
     (case RemoveExpired_loop now per 0 0 (h_data h) of
        (idx, xs) \<Rightarrow> let h1 = h\<lparr>h_data := xs\<rparr>
                    in if length xs = idx then h1 else heap_Init slowQueryHeap_methods (h1\<lparr>h_data := take idx xs\<rparr>))"

text \<open>From the position \<open>i - 1\<close> down, until there are \<open>count\<close>.\<close>

primrec takeLastN_loop :: "'a list \<Rightarrow> int \<Rightarrow> nat \<Rightarrow> 'a list \<Rightarrow> 'a list" where
  "takeLastN_loop xs cnt 0 ret = ret"
| "takeLastN_loop xs cnt (Suc i) ret =
     (if int (length ret) < cnt then takeLastN_loop xs cnt i (ret @ [xs ! i]) else ret)"

definition takeLastN :: "'a list \<Rightarrow> int \<Rightarrow> 'a list option" where
  "takeLastN xs cnt =
     (let cnt' = (if cnt > int (length xs) then int (length xs) else cnt)
      in if cnt' < 0 then None else Some (takeLastN_loop xs cnt' (length xs) []))"

definition heap_Query ::
  "(('d SlowQueryInfo \<Rightarrow> 'd SlowQueryInfo \<Rightarrow> bool) \<Rightarrow> 'd SlowQueryInfo list \<Rightarrow> 'd SlowQueryInfo list) \<Rightarrow> int \<Rightarrow> 'd slowQueryHeap \<Rightarrow>
   ('d SlowQueryInfo list \<times> 'd slowQueryHeap) option" where
  "heap_Query srt cnt h =
     (let h1 = h\<lparr>h_data := srt slower (h_data h)\<rparr> in map_option (\<lambda>r. (r, h1)) (takeLastN (h_data h1) cnt))"

section \<open>The queue\<close>

definition Enqueue :: "'d SlowQueryInfo \<Rightarrow> 'd slowQueryQueue \<Rightarrow> 'd slowQueryQueue" where
  "Enqueue info q =
     (if int (length (q_data q)) < q_size q then q\<lparr>q_data := q_data q @ [info]\<rparr>
      else q\<lparr>q_data := tl (q_data q @ [info])\<rparr>)"

definition queue_Query :: "int \<Rightarrow> 'd slowQueryQueue \<Rightarrow> 'd SlowQueryInfo list option" where
  "queue_Query cnt q = (if length (q_data q) = 0 then Some [] else takeLastN (q_data q) cnt)"

section \<open>The slow queries of a server\<close>

definition newTopNSlowQueries :: "int \<Rightarrow> int \<Rightarrow> int \<Rightarrow> 'd topNSlowQueries option" where
  "newTopNSlowQueries n per queueSize =
     (if n < 0 \<or> queueSize < 0 then None
      else Some \<lparr>recent = \<lparr>q_data = [], q_size = queueSize\<rparr>, user = \<lparr>h_data = []\<rparr>, internal = \<lparr>h_data = []\<rparr>,
                 topN = n, period = per, closed = False\<rparr>)"

definition heap_Append :: "int \<Rightarrow> 'd SlowQueryInfo \<Rightarrow> 'd slowQueryHeap \<Rightarrow> 'd slowQueryHeap option" where
  "heap_Append n info h =
     (if int (length (h_data h)) < n then Some (heap_Push slowQueryHeap_methods h info)
      else if h_data h = [] then None
      else if Duration info > Duration (h_data h ! 0)
           then map_option (\<lambda>(_, h1). heap_Push slowQueryHeap_methods h1 info) (heap_Pop slowQueryHeap_methods h)
           else Some h)"

definition sq_Append :: "'d SlowQueryInfo \<Rightarrow> 'd topNSlowQueries \<Rightarrow> 'd topNSlowQueries option" where
  "sq_Append info q =
     (let q1 = q\<lparr>recent := Enqueue info (recent q)\<rparr>
      in if Internal info then map_option (\<lambda>h. q1\<lparr>internal := h\<rparr>) (heap_Append (topN q1) info (internal q1))
         else map_option (\<lambda>h. q1\<lparr>user := h\<rparr>) (heap_Append (topN q1) info (user q1)))"

definition QueryAll :: "'d topNSlowQueries \<Rightarrow> 'd SlowQueryInfo list" where
  "QueryAll q = q_data (recent q)"

definition sq_RemoveExpired :: "int \<Rightarrow> 'd topNSlowQueries \<Rightarrow> 'd topNSlowQueries" where
  "sq_RemoveExpired now q =
     (let q1 = q\<lparr>user := heap_RemoveExpired now (period q) (user q)\<rparr>
      in q1\<lparr>internal := heap_RemoveExpired now (period q1) (internal q1)\<rparr>)"

definition QueryRecent :: "int \<Rightarrow> 'd topNSlowQueries \<Rightarrow> 'd SlowQueryInfo list option" where
  "QueryRecent cnt q = queue_Query cnt (recent q)"

datatype ShowSlowHoTT = ShowSlowHoTTDefault | ShowSlowHoTTInternal | ShowSlowHoTTAll | ShowSlowHoTTOther

definition QueryTop ::
  "(('d SlowQueryInfo \<Rightarrow> 'd SlowQueryInfo \<Rightarrow> bool) \<Rightarrow> 'd SlowQueryInfo list \<Rightarrow> 'd SlowQueryInfo list) \<Rightarrow> int \<Rightarrow> ShowSlowHoTT \<Rightarrow>
   'd topNSlowQueries \<Rightarrow> ('d SlowQueryInfo list \<times> 'd topNSlowQueries) option" where
  "QueryTop srt cnt hott q =
     (case hott of
        ShowSlowHoTTDefault \<Rightarrow> map_option (\<lambda>(ret, h). (ret, q\<lparr>user := h\<rparr>)) (heap_Query srt cnt (user q))
      | ShowSlowHoTTInternal \<Rightarrow> map_option (\<lambda>(ret, h). (ret, q\<lparr>internal := h\<rparr>)) (heap_Query srt cnt (internal q))
      | ShowSlowHoTTAll \<Rightarrow>
          let tmp = h_data (user q) @ h_data (internal q);
              tmp1 = srt slower tmp
          in map_option (\<lambda>ret. (ret, q)) (takeLastN tmp1 cnt)
      | ShowSlowHoTTOther \<Rightarrow> Some ([], q))"

definition sq_Close :: "'d topNSlowQueries \<Rightarrow> 'd topNSlowQueries option" where
  "sq_Close q = (if closed q then None else Some (q\<lparr>closed := True\<rparr>))"

section \<open>The heap's methods meet the interface\<close>

interpretation slow_heap: heap_collection slower slowQueryHeap_methods h_data "\<lambda>h xs. h\<lparr>h_data := xs\<rparr>" "\<lambda>h. True"
  by unfold_locales (auto simp: slower_def slowQueryHeap_methods_def swap_def)

end
