(* ===== verification/Slow_Queries_Facts.thy ===== *)
theory Slow_Queries_Facts
  imports Slow_Queries
begin

text \<open>
  The heaps of the slow queries keep the slowest: what they drop was not slower than anything they keep, so that
  their durations are the largest ones of all the queries appended.
\<close>

section \<open>The functions on lists\<close>

lemma takeLastN_loop_eq:
  "int (length ret) \<le> cnt \<Longrightarrow> i \<le> length xs \<Longrightarrow> takeLastN_loop xs cnt i ret = ret @ take (nat cnt - length ret) (rev (take i xs))"
proof (induction i arbitrary: ret)
  case (Suc i)
  have "take (Suc i) xs = take i xs @ [xs ! i]"
    using Suc.prems(2) by (simp add: take_Suc_conv_app_nth)
  moreover have "nat cnt - length ret = Suc (nat cnt - Suc (length ret))" if "int (length ret) < cnt"
    using that by linarith
  ultimately show ?case
    using Suc by auto
qed simp

lemma takeLastN_eq: "0 \<le> cnt \<Longrightarrow> takeLastN xs cnt = Some (take (nat cnt) (rev xs))"
  by (auto simp: takeLastN_def Let_def takeLastN_loop_eq)

definition expired :: "int \<Rightarrow> int \<Rightarrow> 'd SlowQueryInfo \<Rightarrow> bool" where
  "expired now per x = (Start x + per \<le> now)"

lemma RemoveExpired_loop_eq:
  "idx \<le> i \<Longrightarrow> i \<le> length xs \<Longrightarrow>
   (case RemoveExpired_loop now per i idx xs of (idx', xs') \<Rightarrow>
      length xs' = length xs \<and> idx' \<le> length xs \<and> take idx' xs' = take idx xs @ filter (\<lambda>x. \<not> expired now per x) (drop i xs))"
proof (induction "length xs - i" arbitrary: i idx xs rule: less_induct)
  case less
  show ?case
  proof (cases "i < length xs")
    case True
    let ?xs = "xs[idx := xs ! i]"
    have d: "drop i xs = xs ! i # drop (Suc i) xs"
      using Cons_nth_drop_Suc [OF True] by simp
    have t: "take (Suc idx) ?xs = take idx xs @ [xs ! i]" "drop (Suc i) ?xs = drop (Suc i) xs"
      using less.prems(1) True by (simp_all add: take_Suc_conv_app_nth)
    have "length xs - Suc i < length xs - i"
      using True by simp
    then show ?thesis
      using less.hyps [of ?xs "Suc i" "Suc idx"] less.hyps [of xs "Suc i" idx] less.prems True d t
      by (subst RemoveExpired_loop.simps) (auto simp: expired_def Let_def not_less split: prod.splits)
  next
    case False
    then show ?thesis
      using less.prems by (subst RemoveExpired_loop.simps) simp
  qed
qed

abbreviation sq_heap :: "'d SlowQueryInfo list \<Rightarrow> bool" where
  "sq_heap xs \<equiv> is_heap slower (length xs) xs"

lemma heap_RemoveExpired_spec:
  assumes "sq_heap (h_data h)"
  shows "mset (h_data (heap_RemoveExpired now per h)) = {#x \<in># mset (h_data h). \<not> expired now per x#} \<and> sq_heap (h_data (heap_RemoveExpired now per h))"
proof -
  obtain idx xs where l: "RemoveExpired_loop now per 0 0 (h_data h) = (idx, xs)"
    by (cases "RemoveExpired_loop now per 0 0 (h_data h)")
  then have t: "length xs = length (h_data h)" "idx \<le> length xs" "take idx xs = filter (\<lambda>x. \<not> expired now per x) (h_data h)"
    using RemoveExpired_loop_eq [of 0 0 "h_data h" now per] by simp_all
  show ?thesis
  proof (cases "length xs = idx")
    case True
    then have f: "filter (\<lambda>x. \<not> expired now per x) (h_data h) = xs"
      using t by simp
    then have "\<forall>x \<in> set (h_data h). \<not> expired now per x"
      using t(1) by (metis length_filter_less less_irrefl_nat)
    then have "xs = h_data h"
      using f by (metis filter_True)
    then show ?thesis
      using l True f assms mset_filter [of "\<lambda>x. \<not> expired now per x" "h_data h"] by (simp add: heap_RemoveExpired_def Let_def)
  next
    case False
    let ?h = "h\<lparr>h_data := take idx xs\<rparr>"
    obtain ys where ys: "heap_Init slowQueryHeap_methods ?h = ?h\<lparr>h_data := ys\<rparr>" "mset ys = mset (take idx xs)"
        "is_heap slower (h_Len slowQueryHeap_methods ?h) ys"
      using slow_heap.heap_Init_spec [of ?h] by (auto simp: slowQueryHeap_methods_def)
    have "h_Len slowQueryHeap_methods ?h = length ys"
      using mset_eq_length [OF ys(2)] by (simp add: slowQueryHeap_methods_def)
    then show ?thesis
      using l False t ys by (simp add: heap_RemoveExpired_def)
  qed
qed

lemma heap_RemoveExpired_size: "sq_heap (h_data h) \<Longrightarrow> length (h_data (heap_RemoveExpired now per h)) \<le> length (h_data h)"
  using heap_RemoveExpired_spec [of h now per] size_filter_mset_lesseq [of "\<lambda>x. \<not> expired now per x" "mset (h_data h)"]
  by (metis size_mset)

section \<open>The slowest queries\<close>

text \<open>The largest values, in descending order.\<close>

definition largest :: "nat \<Rightarrow> int list \<Rightarrow> int list" where
  "largest n xs = take n (rev (sort xs))"

lemma keeps_largest:
  assumes "keeps slower n (mset kept) (mset seen)"
  shows "rev (sort (map Duration kept)) = largest n (map Duration seen)"
proof -
  obtain d where d: "mset seen = mset kept + d" "size (mset kept) \<le> n" "d \<noteq> {#} \<longrightarrow> size (mset kept) = n" "\<forall>e \<in># d. \<forall>k \<in># mset kept. Duration e \<le> Duration k"
    using assms unfolding keeps_def slower_def not_less by blast
  obtain ds where ds: "d = mset ds"
    by (metis ex_mset)
  have "sort (map Duration seen) = sort (map Duration ds) @ sort (map Duration kept)"
  proof (rule properties_for_sort)
    show "mset (sort (map Duration ds) @ sort (map Duration kept)) = mset (map Duration seen)"
      using d(1) ds by (simp add: mset_map [symmetric] del: mset_map) (simp add: ac_simps)
    show "sorted (sort (map Duration ds) @ sort (map Duration kept))"
      using d(4) ds by (auto simp: sorted_append)
  qed
  then show ?thesis
    using d(2,3) ds by (cases "ds = []") (simp_all add: largest_def)
qed

lemma heap_Append_spec:
  assumes "0 < n" and "sq_heap (h_data h)" and "keeps slower (nat n) (mset (h_data h)) seen"
  shows "\<exists>h'. heap_Append n x h = Some h' \<and> sq_heap (h_data h') \<and> keeps slower (nat n) (mset (h_data h')) (add_mset x seen)"
proof -
  let ?xs = "h_data h"
  have sz: "length ?xs \<le> nat n"
    using assms(3) by (auto simp: keeps_def)
  have push: "\<exists>ys. heap_Push slowQueryHeap_methods g x = g\<lparr>h_data := ys\<rparr> \<and> mset ys = add_mset x (mset (h_data g)) \<and> sq_heap ys"
    if "sq_heap (h_data g)" for g :: "'a slowQueryHeap"
    using slow_heap.heap_Push_spec [of g x] that by (simp add: slowQueryHeap_methods_def)
  show ?thesis
  proof (cases "int (length ?xs) < n")
    case True
    then show ?thesis
      using push [OF assms(2)] keeps_add [OF assms(3), of x] by (auto simp: heap_Append_def)
  next
    case False
    then have full: "length ?xs = nat n" "?xs \<noteq> []"
      using sz assms(1) by auto
    note keep = slow_heap.keeps_full [OF assms(2) full(2,1) assms(3)]
    show ?thesis
    proof (cases "Duration x > Duration (?xs ! 0)")
      case True
      obtain ys where ys: "heap_Pop slowQueryHeap_methods h = Some (?xs ! 0, h\<lparr>h_data := ys\<rparr>)" "add_mset (?xs ! 0) (mset ys) = mset ?xs" "sq_heap ys"
        using slow_heap.heap_Pop_spec [OF TrueI full(2) assms(2)] by blast
      have "keeps slower (nat n) (add_mset x (mset ys)) (add_mset x seen)"
        by (rule keep(2) [OF _ ys(2)]) (simp add: slower_def True)
      then show ?thesis
        using push [of "h\<lparr>h_data := ys\<rparr>"] ys False full(2) True by (auto simp: heap_Append_def)
    next
      case False
      then show ?thesis
        using keep(1) [of x] full assms(2) \<open>\<not> int (length ?xs) < n\<close> by (auto simp: heap_Append_def slower_def)
    qed
  qed
qed

section \<open>Runs\<close>

datatype 'd sq_op = OpAppend "'d SlowQueryInfo" | OpExpire int | OpQueryTop int ShowSlowHoTT

type_synonym 'd sorter = "('d SlowQueryInfo \<Rightarrow> 'd SlowQueryInfo \<Rightarrow> bool) \<Rightarrow> 'd SlowQueryInfo list \<Rightarrow> 'd SlowQueryInfo list"

primrec sq_step :: "'d sorter \<Rightarrow> 'd sq_op \<Rightarrow> 'd topNSlowQueries \<Rightarrow> 'd topNSlowQueries option" where
  "sq_step srt (OpAppend x) q = sq_Append x q"
| "sq_step srt (OpExpire now) q = Some (sq_RemoveExpired now q)"
| "sq_step srt (OpQueryTop cnt hott) q = map_option snd (QueryTop srt cnt hott q)"

primrec sq_run :: "'d sorter \<Rightarrow> 'd sq_op list \<Rightarrow> 'd topNSlowQueries \<Rightarrow> 'd topNSlowQueries option" where
  "sq_run srt [] q = Some q"
| "sq_run srt (op # ops) q = Option.bind (sq_step srt op q) (sq_run srt ops)"

definition appended :: "'d sq_op list \<Rightarrow> 'd SlowQueryInfo list" where
  "appended ops = concat (map (\<lambda>op. case op of OpAppend x \<Rightarrow> [x] | _ \<Rightarrow> []) ops)"

primrec op_ok :: "'d sq_op \<Rightarrow> bool" where
  "op_ok (OpAppend x) = True"
| "op_ok (OpExpire now) = True"
| "op_ok (OpQueryTop cnt hott) = (0 \<le> cnt)"

text \<open>
  The state against what it has seen: the user's and the internal queries its heaps choose from, and all queries in
  the order of their arrival.
\<close>

definition sq_inv :: "int \<Rightarrow> int \<Rightarrow> 'd SlowQueryInfo multiset \<Rightarrow> 'd SlowQueryInfo multiset \<Rightarrow> 'd SlowQueryInfo list \<Rightarrow> 'd topNSlowQueries \<Rightarrow> bool" where
  "sq_inv n qs us is all q =
     (topN q = n \<and> sq_heap (h_data (user q)) \<and> sq_heap (h_data (internal q)) \<and>
      keeps slower (nat n) (mset (h_data (user q))) us \<and> keeps slower (nat n) (mset (h_data (internal q))) is \<and>
      q_size (recent q) = qs \<and> q_data (recent q) = rev (take (nat qs) (rev all)))"

lemma sq_inv_rebase: "sq_inv n qs us is all q \<Longrightarrow> sq_inv n qs (mset (h_data (user q))) (mset (h_data (internal q))) all q"
  by (auto simp: sq_inv_def keeps_def intro!: keeps_self)

lemma Enqueue_latest:
  assumes "q_size q = qs" and "0 \<le> qs" and "q_data q = rev (take (nat qs) (rev all))"
  shows "q_data (Enqueue x q) = rev (take (nat qs) (rev (all @ [x]))) \<and> q_size (Enqueue x q) = qs"
proof (cases "length all < nat qs")
  case False
  obtain m where m: "nat qs = 0 \<or> nat qs = Suc m"
    by (cases "nat qs") auto
  have "tl (rev (take (nat qs) (rev all)) @ [x]) = rev (take (nat qs) (x # rev all))"
  proof (cases "nat qs")
    case (Suc m)
    then have "take (Suc m) (rev all) = take m (rev all) @ [rev all ! m]"
      using False by (intro take_Suc_conv_app_nth) simp
    then show ?thesis
      using Suc by simp
  qed simp
  then show ?thesis
    using False assms by (auto simp: Enqueue_def)
qed (use assms in \<open>auto simp: Enqueue_def\<close>)

lemma sq_Append_inv:
  assumes "0 < n" and "0 \<le> qs" and "sq_inv n qs us is all q"
  shows "\<exists>q'. sq_Append x q = Some q' \<and>
    sq_inv n qs (if Internal x then us else add_mset x us) (if Internal x then add_mset x is else is) (all @ [x]) q'"
proof -
  have i: "topN q = n" "sq_heap (h_data (user q))" "sq_heap (h_data (internal q))" "keeps slower (nat n) (mset (h_data (user q))) us"
      "keeps slower (nat n) (mset (h_data (internal q))) is" "q_size (recent q) = qs" "q_data (recent q) = rev (take (nat qs) (rev all))"
    using assms(3) by (simp_all add: sq_inv_def)
  note e = Enqueue_latest [OF i(6) assms(2) i(7), of x]
  show ?thesis
    using heap_Append_spec [OF assms(1) i(2,4), of x] heap_Append_spec [OF assms(1) i(3,5), of x] e i
    by (auto simp: sq_Append_def sq_inv_def Let_def)
qed

lemma appends_inv:
  assumes "0 < n" and "0 \<le> qs"
  shows "sq_inv n qs us is all q \<Longrightarrow> \<exists>q'. sq_run srt (map OpAppend xs) q = Some q' \<and>
    sq_inv n qs (us + mset (filter (\<lambda>x. \<not> Internal x) xs)) (is + mset (filter Internal xs)) (all @ xs) q'"
proof (induction xs arbitrary: q us "is" all)
  case (Cons x xs)
  obtain q1 where q1: "sq_Append x q = Some q1"
      "sq_inv n qs (if Internal x then us else add_mset x us) (if Internal x then add_mset x is else is) (all @ [x]) q1"
    using sq_Append_inv [OF assms Cons.prems, of x] by blast
  then show ?case
    using Cons.IH [OF q1(2)] by (cases "Internal x") simp_all
qed simp

lemma srt_heap:
  assumes "sorts srt slower"
  shows "mset (srt slower xs) = mset xs \<and> sq_heap (srt slower xs) \<and> rev (map Duration (srt slower xs)) = rev (sort (map Duration xs))"
proof -
  have "sorted (map Duration (srt slower xs))"
    using sortsD(2) [OF assms, of xs] by (simp add: slower_def sorted_map not_less)
  then have "sort (map Duration xs) = map Duration (srt slower xs)"
    using sortsD(1) [OF assms, of xs] by (intro properties_for_sort) simp_all
  then show ?thesis
    using sortsD(1) [OF assms, of xs] slow_heap.sorted_is_heap [OF sortsD(2) [OF assms, of xs]] by simp
qed

lemma heap_Query_spec:
  assumes "sorts srt slower" and "0 \<le> cnt" and "keeps slower n (mset (h_data h)) (mset seen)"
  shows "\<exists>ret h'. heap_Query srt cnt h = Some (ret, h') \<and> map Duration ret = take (nat cnt) (largest n (map Duration seen)) \<and>
    mset ret \<subseteq># mset (h_data h) \<and> mset (h_data h') = mset (h_data h) \<and> sq_heap (h_data h')"
proof -
  let ?ys = "srt slower (h_data h)"
  have "mset (take (nat cnt) (rev ?ys)) \<subseteq># mset ?ys"
    by (metis append_take_drop_id mset_append mset_rev mset_subset_eq_add_left)
  then show ?thesis
    using srt_heap [OF assms(1), of "h_data h"] keeps_largest [OF assms(3)] takeLastN_eq [OF assms(2), of ?ys]
    by (simp add: heap_Query_def Let_def rev_map take_map [symmetric])
qed

lemma sq_step_inv:
  assumes "0 < n" and "0 \<le> qs" and "sorts srt slower" and "op_ok op" and "sq_inv n qs us is all q"
  shows "\<exists>q' us' is'. sq_step srt op q = Some q' \<and> sq_inv n qs us' is' (all @ appended [op]) q'"
proof -
  note b = sq_inv_rebase [OF assms(5)]
  show ?thesis
  proof (cases op)
    case (OpAppend x)
    then show ?thesis
      using sq_Append_inv [OF assms(1,2,5), of x] by (auto simp: appended_def)
  next
    case (OpExpire now)
    let ?q = "sq_RemoveExpired now q"
    have h: "sq_heap (h_data (user q))" "sq_heap (h_data (internal q))" "length (h_data (user q)) \<le> nat n" "length (h_data (internal q)) \<le> nat n"
      using b by (auto simp: sq_inv_def keeps_def)
    have "length (h_data (user ?q)) \<le> nat n \<and> length (h_data (internal ?q)) \<le> nat n \<and> sq_heap (h_data (user ?q)) \<and> sq_heap (h_data (internal ?q))"
      using heap_RemoveExpired_spec [OF h(1), of now "period q"] heap_RemoveExpired_spec [OF h(2), of now "period q"]
        heap_RemoveExpired_size [OF h(1), of now "period q"] heap_RemoveExpired_size [OF h(2), of now "period q"] h(3,4)
      by (simp add: sq_RemoveExpired_def Let_def)
    then have "sq_inv n qs (mset (h_data (user ?q))) (mset (h_data (internal ?q))) all ?q"
      using b by (simp add: sq_inv_def keeps_self sq_RemoveExpired_def Let_def)
    then show ?thesis
      using OpExpire by (auto simp: appended_def)
  next
    case (OpQueryTop cnt hott)
    then have c: "0 \<le> cnt"
      using assms(4) by simp
    have k: "keeps slower (nat n) (mset (h_data (user q))) (mset (h_data (user q)))"
        "keeps slower (nat n) (mset (h_data (internal q))) (mset (h_data (internal q)))"
      using b by (simp_all add: sq_inv_def)
    show ?thesis
      using heap_Query_spec [OF assms(3) c k(1)] heap_Query_spec [OF assms(3) c k(2)] takeLastN_eq [OF c] b OpQueryTop
      by (cases hott) (auto simp: QueryTop_def Let_def appended_def sq_inv_def intro: exI)
  qed
qed

lemma sq_run_inv:
  assumes "0 < n" and "0 \<le> qs" and "sorts srt slower"
  shows "list_all op_ok ops \<Longrightarrow> sq_inv n qs us is all q \<Longrightarrow> \<exists>q' us' is'. sq_run srt ops q = Some q' \<and> sq_inv n qs us' is' (all @ appended ops) q'"
proof (induction ops arbitrary: q us "is" all)
  case (Cons op ops)
  obtain q1 us1 is1 where q1: "sq_step srt op q = Some q1" "sq_inv n qs us1 is1 (all @ appended [op]) q1"
    using sq_step_inv [OF assms _ Cons.prems(2), of op] Cons.prems(1) by auto
  then show ?case
    using Cons.IH [OF _ q1(2)] Cons.prems(1) by (auto simp: appended_def)
qed (auto simp: appended_def)

lemma QueryRecent_spec: "sq_inv n qs us is all q \<Longrightarrow> 0 \<le> cnt \<Longrightarrow> QueryRecent cnt q = Some (take (nat cnt) (take (nat qs) (rev all)))"
proof -
  assume i: "sq_inv n qs us is all q" "0 \<le> cnt"
  have "queue_Query cnt (recent q) = Some (take (nat cnt) (rev (q_data (recent q))))"
    using takeLastN_eq [OF i(2), of "q_data (recent q)"] by (auto simp: queue_Query_def)
  then show ?thesis
    using i(1) by (simp add: QueryRecent_def sq_inv_def)
qed

lemma new_inv: "0 < n \<Longrightarrow> 0 \<le> qs \<Longrightarrow> \<exists>q. newTopNSlowQueries n per qs = Some q \<and> sq_inv n qs {#} {#} [] q"
  by (simp add: newTopNSlowQueries_def sq_inv_def keeps_self heap_from_def)

lemma kept_subset: "keeps lt n kept seen \<Longrightarrow> ms \<subseteq># kept \<Longrightarrow> ms \<subseteq># seen"
  using keeps_subset subset_mset.order_trans by blast

section \<open>Properties\<close>

text \<open>
  C27. The slow queries are the slowest ones: after any sequence of appends, expirations and queries on a new
  collection, and then a batch of further queries, nothing has panicked and the top of the users' queries has the
  largest durations among those kept at the start of the batch and those of the batch, in descending order, and so
  has the top of the internal ones; the recent queries are the latest of all, the newest first; and an
  expiration keeps exactly the queries that have not expired.
\<close>

theorem slow_queries_keep_the_slowest:
  assumes "0 < n" and "0 \<le> qs" and "sorts srt slower" and "list_all op_ok ops" and "0 \<le> cnt"
  shows "\<exists>q0 q q1. newTopNSlowQueries n per qs = Some q0 \<and> sq_run srt ops q0 = Some q \<and> sq_run srt (map OpAppend infos) q = Some q1 \<and>
    (\<exists>ret q2. QueryTop srt cnt ShowSlowHoTTDefault q1 = Some (ret, q2) \<and>
       map Duration ret = take (nat cnt) (largest (nat n) (map Duration (h_data (user q) @ filter (\<lambda>x. \<not> Internal x) infos))) \<and>
       mset ret \<subseteq># mset (h_data (user q)) + mset (filter (\<lambda>x. \<not> Internal x) infos)) \<and>
    (\<exists>ret q2. QueryTop srt cnt ShowSlowHoTTInternal q1 = Some (ret, q2) \<and>
       map Duration ret = take (nat cnt) (largest (nat n) (map Duration (h_data (internal q) @ filter Internal infos))) \<and>
       mset ret \<subseteq># mset (h_data (internal q)) + mset (filter Internal infos)) \<and>
    QueryRecent cnt q1 = Some (take (nat cnt) (take (nat qs) (rev (appended ops @ infos)))) \<and>
    (\<forall>now. mset (h_data (user (sq_RemoveExpired now q))) = {#x \<in># mset (h_data (user q)). \<not> expired now (period q) x#})"
proof -
  obtain q0 :: "'a topNSlowQueries" where q0: "newTopNSlowQueries n per qs = Some q0" "sq_inv n qs {#} {#} [] q0"
    using new_inv [OF assms(1,2)] by blast
  obtain q us "is" where q: "sq_run srt ops q0 = Some q" "sq_inv n qs us is (appended ops) q"
    using sq_run_inv [OF assms(1-4) q0(2)] by auto
  note b = sq_inv_rebase [OF q(2)]
  obtain q1 where q1: "sq_run srt (map OpAppend infos) q = Some q1"
      "sq_inv n qs (mset (h_data (user q) @ filter (\<lambda>x. \<not> Internal x) infos)) (mset (h_data (internal q) @ filter Internal infos)) (appended ops @ infos) q1"
    using appends_inv [OF assms(1,2) b, of srt infos] by auto
  then have k: "keeps slower (nat n) (mset (h_data (user q1))) (mset (h_data (user q) @ filter (\<lambda>x. \<not> Internal x) infos))"
      "keeps slower (nat n) (mset (h_data (internal q1))) (mset (h_data (internal q) @ filter Internal infos))"
    by (simp_all add: sq_inv_def)
  have e: "\<forall>now. mset (h_data (user (sq_RemoveExpired now q))) = {#x \<in># mset (h_data (user q)). \<not> expired now (period q) x#}"
    using heap_RemoveExpired_spec [of "user q"] b by (simp add: sq_RemoveExpired_def Let_def sq_inv_def)
  obtain r1 h1 where r1: "heap_Query srt cnt (user q1) = Some (r1, h1)" "mset r1 \<subseteq># mset (h_data (user q1))"
      "map Duration r1 = take (nat cnt) (largest (nat n) (map Duration (h_data (user q) @ filter (\<lambda>x. \<not> Internal x) infos)))"
    using heap_Query_spec [OF assms(3,5) k(1)] by blast
  obtain r2 h2 where r2: "heap_Query srt cnt (internal q1) = Some (r2, h2)" "mset r2 \<subseteq># mset (h_data (internal q1))"
      "map Duration r2 = take (nat cnt) (largest (nat n) (map Duration (h_data (internal q) @ filter Internal infos)))"
    using heap_Query_spec [OF assms(3,5) k(2)] by blast
  have "QueryTop srt cnt ShowSlowHoTTDefault q1 = Some (r1, q1\<lparr>user := h1\<rparr>)" "QueryTop srt cnt ShowSlowHoTTInternal q1 = Some (r2, q1\<lparr>internal := h2\<rparr>)"
    using r1(1) r2(1) by (simp_all add: QueryTop_def)
  then show ?thesis
    using q0(1) q(1) q1(1) QueryRecent_spec [OF q1(2) assms(5)] r1(3) r2(3) e kept_subset [OF k(1) r1(2)] kept_subset [OF k(2) r2(2)]
    unfolding mset_append by blast
qed

definition ex_query :: "int \<Rightarrow> unit SlowQueryInfo" where
  "ex_query d = \<lparr>ALLEGROSQL = [], Start = 0, Duration = d, Detail = (), ConnID = 0, TxnTS = 0, User = [], EDB = [], BlockIDs = [],
     IndexNames = [], Digest = [], Internal = False, Succ = True\<rparr>"

definition ex_queries :: "unit SlowQueryInfo list" where
  "ex_queries = map ex_query [4, 7, 5, 1]"

lemma ex_queries_facts:
  "filter (\<lambda>x. \<not> Internal x) ex_queries = ex_queries" "map Duration ex_queries = [4, 7, 5, 1]" "rev ex_queries = map ex_query [1, 5, 7, 4]"
  by (simp_all add: ex_queries_def ex_query_def)

theorem slow_queries_keep_the_slowest_witness:
  "\<exists>q0 q1 ret q2. newTopNSlowQueries 2 100 3 = Some q0 \<and> sq_run insertion_sort (map OpAppend ex_queries) q0 = Some q1 \<and>
    QueryTop insertion_sort 2 ShowSlowHoTTDefault q1 = Some (ret, q2) \<and> map Duration ret = [7, 5] \<and>
    QueryRecent 2 q1 = Some [ex_query 1, ex_query 5]"
proof -
  have l: "largest 2 [4, 7, 5, 1] = [7, 5]"
    by (simp add: largest_def)
  obtain q0 q1 ret q2 where q: "newTopNSlowQueries 2 100 3 = Some q0" "sq_run insertion_sort (map OpAppend ex_queries) q0 = Some q1"
      "QueryTop insertion_sort 2 ShowSlowHoTTDefault q1 = Some (ret, q2)"
      "map Duration ret = take (nat 2) (largest (nat 2) (map Duration (h_data (user q0) @ ex_queries)))"
      "QueryRecent 2 q1 = Some (take (nat 2) (take (nat 3) (rev (appended [] @ ex_queries))))"
    using slow_queries_keep_the_slowest [OF _ _ slow_heap.insertion_sort_sorts, of 2 3 "[]" 2 100 ex_queries]
    by (simp add: ex_queries_facts(1) del: rev_append) blast
  moreover have "h_data (user q0) = []"
    using q(1) by (auto simp: newTopNSlowQueries_def)
  moreover have "take (nat 2) (take (nat 3) (rev (appended [] @ ex_queries))) = [ex_query 1, ex_query 5]"
    by (simp add: appended_def ex_queries_facts)
  ultimately show ?thesis
    using l ex_queries_facts(2) by (intro exI [of _ q0] exI [of _ q1] exI [of _ ret] exI [of _ q2]) simp
qed

end
