(* ===== verification/Topn.thy ===== *)
theory Topn
  imports Container_Heap External
begin

text \<open>
  \<^verbatim>\<open>mockeinsteindb/topn.go\<close> (\<^verbatim>\<open>entangledstore/interlockhandler/topn.go\<close> has the same code): the heap that keeps the first
  \<open>n\<close> rows of an order. Comparing two values (\<^verbatim>\<open>CompareCauset\<close>) is an argument; it may fail, and then the error is
  kept in the sorter. A row's key has a value for every item of the order.
\<close>

section \<open>Rows and their order\<close>

text \<open>A row is a list of cells; a nil cell is \<open>None\<close>.\<close>

type_synonym row = "bytes option list"

record 'd sortRow =
  key :: "'d list"
  data :: row

record ByItem =
  Desc :: bool

record 'd topNSorter =
  orderByItems :: "ByItem list"
  rows :: "'d sortRow list"
  t_err :: "err option"

text \<open>\<open>Less\<close> of the sorter on two keys, from an item on, with the error it records.\<close>

fun sorter_Less_loop :: "('d \<Rightarrow> 'd \<Rightarrow> err + int) \<Rightarrow> ByItem list \<Rightarrow> nat \<Rightarrow> 'd list \<Rightarrow> 'd list \<Rightarrow> bool \<times> err option" where
  "sorter_Less_loop CompareCauset [] index v1 v2 = (False, None)"
| "sorter_Less_loop CompareCauset (by # items) index v1 v2 =
     (case CompareCauset (v1 ! index) (v2 ! index) of
        Inl e \<Rightarrow> (True, Some e)
      | Inr ret0 \<Rightarrow>
          let ret = (if Desc by then - ret0 else ret0)
          in if ret < 0 then (True, None) else if ret > 0 then (False, None)
             else sorter_Less_loop CompareCauset items (index + 1) v1 v2)"

definition sorter_Less :: "('d \<Rightarrow> 'd \<Rightarrow> err + int) \<Rightarrow> ByItem list \<Rightarrow> 'd sortRow \<Rightarrow> 'd sortRow \<Rightarrow> bool \<times> err option" where
  "sorter_Less CompareCauset items a b = sorter_Less_loop CompareCauset items 0 (key a) (key b)"

section \<open>The heap\<close>

record 'd topNHeap = "'d topNSorter" +
  totalCount :: int
  heapSize :: nat

fun heap_Less_loop :: "('d \<Rightarrow> 'd \<Rightarrow> err + int) \<Rightarrow> ByItem list \<Rightarrow> nat \<Rightarrow> 'd list \<Rightarrow> 'd list \<Rightarrow> bool \<times> err option" where
  "heap_Less_loop CompareCauset [] index v1 v2 = (False, None)"
| "heap_Less_loop CompareCauset (by # items) index v1 v2 =
     (case CompareCauset (v1 ! index) (v2 ! index) of
        Inl e \<Rightarrow> (True, Some e)
      | Inr ret0 \<Rightarrow>
          let ret = (if Desc by then - ret0 else ret0)
          in if ret > 0 then (True, None) else if ret < 0 then (False, None)
             else heap_Less_loop CompareCauset items (index + 1) v1 v2)"

definition topn_Less :: "('d \<Rightarrow> 'd \<Rightarrow> err + int) \<Rightarrow> 'd topNHeap \<Rightarrow> nat \<Rightarrow> nat \<Rightarrow> bool \<times> 'd topNHeap" where
  "topn_Less CompareCauset t i j =
     (case heap_Less_loop CompareCauset (orderByItems t) 0 (key (rows t ! i)) (key (rows t ! j)) of
        (b, None) \<Rightarrow> (b, t)
      | (b, Some e) \<Rightarrow> (b, t\<lparr>t_err := Some e\<rparr>))"

definition topn_Swap :: "'d topNHeap \<Rightarrow> nat \<Rightarrow> nat \<Rightarrow> 'd topNHeap" where
  "topn_Swap t i j = t\<lparr>rows := (rows t)[i := rows t ! j, j := rows t ! i]\<rparr>"

definition topn_Push :: "'d topNHeap \<Rightarrow> 'd sortRow \<Rightarrow> 'd topNHeap" where
  "topn_Push t x = t\<lparr>rows := rows t @ [x], heapSize := heapSize t + 1\<rparr>"

text \<open>\<open>Pop\<close> returns nil; nothing calls it.\<close>

definition topNHeap_methods :: "('d \<Rightarrow> 'd \<Rightarrow> err + int) \<Rightarrow> ('d topNHeap, 'd sortRow) heap_Interface" where
  "topNHeap_methods CompareCauset =
     \<lparr>h_Len = heapSize, h_Less = topn_Less CompareCauset, h_Swap = topn_Swap, h_Push = topn_Push, h_Pop = \<lambda>t. None\<rparr>"

definition tryToAddRow :: "('d \<Rightarrow> 'd \<Rightarrow> err + int) \<Rightarrow> 'd sortRow \<Rightarrow> 'd topNHeap \<Rightarrow> bool \<times> 'd topNHeap" where
  "tryToAddRow CompareCauset event t =
     (if int (heapSize t) = totalCount t
      then let t1 = t\<lparr>rows := rows t @ [event]\<rparr>
           in case topn_Less CompareCauset t1 0 (heapSize t1) of
                (True, t2) \<Rightarrow> let t3 = heap_Fix (topNHeap_methods CompareCauset) (topn_Swap t2 0 (heapSize t2)) 0
                            in (True, t3\<lparr>rows := take (heapSize t3) (rows t3)\<rparr>)
              | (False, t2) \<Rightarrow> (False, t2\<lparr>rows := take (heapSize t2) (rows t2)\<rparr>)
      else (True, heap_Push (topNHeap_methods CompareCauset) t event))"

section \<open>Comparing rows\<close>

text \<open>
  What the code relies on from comparing values: on acceptable values it does not fail, swapping the values
  swaps the sign, and it is transitive.
\<close>

definition compares :: "('d \<Rightarrow> 'd \<Rightarrow> err + int) \<Rightarrow> ('d \<Rightarrow> bool) \<Rightarrow> bool" where
  "compares cmp good =
     (\<exists>sgn. (\<forall>a b. good a \<and> good b \<longrightarrow> cmp a b = Inr (sgn a b)) \<and>
       (\<forall>a b. good a \<and> good b \<longrightarrow> (sgn a b < 0 \<longleftrightarrow> 0 < sgn b a)) \<and>
       (\<forall>a b c. good a \<and> good b \<and> good c \<and> sgn a b \<le> 0 \<and> sgn b c \<le> 0 \<longrightarrow> sgn a c \<le> (0 :: int)))"

definition key_good :: "('d \<Rightarrow> bool) \<Rightarrow> nat \<Rightarrow> 'd list \<Rightarrow> bool" where
  "key_good good n v = (\<forall>i < n. good (v ! i))"

lemma key_good_Suc: "key_good good (Suc n) v \<Longrightarrow> key_good good n v"
  by (simp add: key_good_def)

lemma Less_loops:
  assumes "compares cmp good"
  shows "key_good good (index + length items) v1 \<Longrightarrow> key_good good (index + length items) v2 \<Longrightarrow>
    snd (sorter_Less_loop cmp items index v1 v2) = None \<and> heap_Less_loop cmp items index v1 v2 = sorter_Less_loop cmp items index v2 v1 \<and>
    (fst (sorter_Less_loop cmp items index v1 v2) \<longrightarrow> \<not> fst (sorter_Less_loop cmp items index v2 v1))"
proof (induction items arbitrary: index)
  case (Cons x items)
  obtain sgn where s: "\<And>a b. good a \<Longrightarrow> good b \<Longrightarrow> cmp a b = Inr (sgn a b)" "\<And>a b. good a \<Longrightarrow> good b \<Longrightarrow> sgn a b < 0 \<longleftrightarrow> (0 :: int) < sgn b a"
    using assms unfolding compares_def by blast
  have g: "good (v1 ! index)" "good (v2 ! index)"
    using Cons.prems by (simp_all add: key_good_def)
  show ?case
    using Cons.IH [of "Suc index"] Cons.prems s(1) [OF g] s(1) [OF g(2,1)] s(2) [OF g] s(2) [OF g(2,1)] by (auto simp: Let_def not_less)
qed simp

lemma sign_trans:
  fixes sgn :: "'d \<Rightarrow> 'd \<Rightarrow> int"
  assumes "\<And>a b. good a \<Longrightarrow> good b \<Longrightarrow> sgn a b < 0 \<longleftrightarrow> 0 < sgn b a"
    and "\<And>a b c. good a \<Longrightarrow> good b \<Longrightarrow> good c \<Longrightarrow> sgn a b \<le> 0 \<Longrightarrow> sgn b c \<le> 0 \<Longrightarrow> sgn a c \<le> 0"
    and g: "good a" "good b" "good c"
  shows "sgn a b \<le> 0 \<Longrightarrow> sgn b c \<le> 0 \<Longrightarrow> sgn a c \<le> 0 \<and> (sgn a c = 0 \<longrightarrow> sgn a b = 0 \<and> sgn b c = 0)"
    and "0 \<le> sgn a b \<Longrightarrow> 0 \<le> sgn b c \<Longrightarrow> 0 \<le> sgn a c \<and> (sgn a c = 0 \<longrightarrow> sgn a b = 0 \<and> sgn b c = 0)"
proof -
  have flip: "0 \<le> sgn x y \<longleftrightarrow> sgn y x \<le> 0" if "good x" "good y" for x y
    using assms(1) [OF that] assms(1) [OF that(2,1)] by linarith
  note f = flip [OF g(1,2)] flip [OF g(2,1)] flip [OF g(2,3)] flip [OF g(3,2)] flip [OF g(1,3)] flip [OF g(3,1)]
  show "sgn a b \<le> 0 \<Longrightarrow> sgn b c \<le> 0 \<Longrightarrow> sgn a c \<le> 0 \<and> (sgn a c = 0 \<longrightarrow> sgn a b = 0 \<and> sgn b c = 0)"
    using f assms(2) [OF g(1,2,3)] assms(2) [OF g(2,3,1)] assms(2) [OF g(3,1,2)] by linarith
  show "0 \<le> sgn a b \<Longrightarrow> 0 \<le> sgn b c \<Longrightarrow> 0 \<le> sgn a c \<and> (sgn a c = 0 \<longrightarrow> sgn a b = 0 \<and> sgn b c = 0)"
    using f assms(2) [OF g(3,2,1)] assms(2) [OF g(1,3,2)] assms(2) [OF g(2,1,3)] by linarith
qed

lemma Less_loop_trans:
  assumes "compares cmp good"
  shows "key_good good (index + length items) v1 \<Longrightarrow> key_good good (index + length items) v2 \<Longrightarrow> key_good good (index + length items) v3 \<Longrightarrow>
    \<not> fst (sorter_Less_loop cmp items index v1 v2) \<Longrightarrow> \<not> fst (sorter_Less_loop cmp items index v2 v3) \<Longrightarrow>
    \<not> fst (sorter_Less_loop cmp items index v1 v3)"
proof (induction items arbitrary: index)
  case (Cons x items)
  obtain sgn where s: "\<And>a b. good a \<Longrightarrow> good b \<Longrightarrow> cmp a b = Inr (sgn a b)" "\<And>a b. good a \<Longrightarrow> good b \<Longrightarrow> sgn a b < 0 \<longleftrightarrow> (0 :: int) < sgn b a"
      "\<And>a b c. good a \<Longrightarrow> good b \<Longrightarrow> good c \<Longrightarrow> sgn a b \<le> 0 \<Longrightarrow> sgn b c \<le> 0 \<Longrightarrow> sgn a c \<le> 0"
    using assms unfolding compares_def by blast
  have g: "good (v1 ! index)" "good (v2 ! index)" "good (v3 ! index)"
    using Cons.prems(1-3) by (simp_all add: key_good_def)
  define a b c where "a = v1 ! index" and "b = v2 ! index" and "c = v3 ! index"
  note abc = a_def [symmetric] b_def [symmetric] c_def [symmetric]
  note g = g [unfolded abc]
  have t: "sgn a b \<le> 0 \<Longrightarrow> sgn b c \<le> 0 \<Longrightarrow> sgn a c \<le> 0 \<and> (sgn a c = 0 \<longrightarrow> sgn a b = 0 \<and> sgn b c = 0)"
      "0 \<le> sgn a b \<Longrightarrow> 0 \<le> sgn b c \<Longrightarrow> 0 \<le> sgn a c \<and> (sgn a c = 0 \<longrightarrow> sgn a b = 0 \<and> sgn b c = 0)"
    by (rule sign_trans [of good sgn]; (assumption | rule s(2,3) g; assumption))+
  have step: "\<not> fst (sorter_Less_loop cmp (x # items) index v w) \<longleftrightarrow>
      (let r = (if Desc x then - sgn (v ! index) (w ! index) else sgn (v ! index) (w ! index))
       in 0 < r \<or> r = 0 \<and> \<not> fst (sorter_Less_loop cmp items (Suc index) v w))" if "good (v ! index)" "good (w ! index)" for v w
    using s(1) [OF that] by (auto simp: Let_def)
  have ih: "\<not> fst (sorter_Less_loop cmp items (Suc index) v1 v2) \<Longrightarrow> \<not> fst (sorter_Less_loop cmp items (Suc index) v2 v3) \<Longrightarrow>
      \<not> fst (sorter_Less_loop cmp items (Suc index) v1 v3)"
    using Cons.IH [of "Suc index"] Cons.prems(1-3) by simp
  show ?case
    using Cons.prems(4,5) t ih
    unfolding step [OF g(1,2) [folded abc]] step [OF g(2,3) [folded abc]] step [OF g(1,3) [folded abc]] Let_def abc
    by (cases "Desc x") auto
qed simp

section \<open>The heap of rows\<close>

definition row_good :: "('d \<Rightarrow> bool) \<Rightarrow> ByItem list \<Rightarrow> 'd sortRow \<Rightarrow> bool" where
  "row_good good items r = key_good good (length items) (key r)"

definition row_before :: "('d \<Rightarrow> 'd \<Rightarrow> err + int) \<Rightarrow> ByItem list \<Rightarrow> 'd sortRow \<Rightarrow> 'd sortRow \<Rightarrow> bool" where
  "row_before cmp items a b = fst (sorter_Less cmp items a b)"

text \<open>
  The heap's order, the other way round, so that its root is the last row. To have an order on all rows,
  those with a key that cannot be compared count as least.
\<close>

definition row_after :: "('d \<Rightarrow> 'd \<Rightarrow> err + int) \<Rightarrow> ('d \<Rightarrow> bool) \<Rightarrow> ByItem list \<Rightarrow> 'd sortRow \<Rightarrow> 'd sortRow \<Rightarrow> bool" where
  "row_after cmp good items a b =
     (if row_good good items a \<and> row_good good items b then row_before cmp items b a else \<not> row_good good items a \<and> row_good good items b)"

lemma row_before_facts:
  assumes "compares cmp good" and "row_good good items a" and "row_good good items b"
  shows "row_before cmp items a b \<Longrightarrow> \<not> row_before cmp items b a"
    and "row_good good items c \<Longrightarrow> \<not> row_before cmp items a b \<Longrightarrow> \<not> row_before cmp items b c \<Longrightarrow> \<not> row_before cmp items a c"
  using Less_loops [OF assms(1), of 0 items "key a" "key b"] Less_loop_trans [OF assms(1), of 0 items "key a" "key b" "key c"] assms(2,3)
  by (auto simp: row_before_def sorter_Less_def row_good_def)

lemma row_after_order:
  assumes "compares cmp good"
  shows "weak_order (row_after cmp good items)"
proof
  fix a b c
  note f = row_before_facts [OF assms]
  show "row_after cmp good items a b \<Longrightarrow> \<not> row_after cmp good items b a"
    using f(1) [of items b a] by (auto simp: row_after_def split: if_splits)
  show "\<not> row_after cmp good items a b \<Longrightarrow> \<not> row_after cmp good items b c \<Longrightarrow> \<not> row_after cmp good items a c"
    using f(2) [of items c b a] by (auto simp: row_after_def split: if_splits)
qed

definition topn_ok :: "('d \<Rightarrow> bool) \<Rightarrow> ByItem list \<Rightarrow> 'd topNHeap \<Rightarrow> bool" where
  "topn_ok good items t = (orderByItems t = items \<and> (\<forall>r \<in> set (rows t). row_good good items r))"

lemma topn_Less_good:
  assumes "compares cmp good" and "topn_ok good items t" and "i < length (rows t)" and "j < length (rows t)"
  shows "topn_Less cmp t i j = (row_after cmp good items (rows t ! i) (rows t ! j), t)"
proof -
  have g: "row_good good items (rows t ! i)" "row_good good items (rows t ! j)"
    using assms(2-4) by (simp_all add: topn_ok_def)
  then show ?thesis
    using Less_loops [OF assms(1), of 0 items "key (rows t ! i)" "key (rows t ! j)"]
      Less_loops [OF assms(1), of 0 items "key (rows t ! j)" "key (rows t ! i)"] assms(2)
    by (auto simp: topn_Less_def row_after_def row_before_def sorter_Less_def row_good_def topn_ok_def split: prod.splits option.splits)
qed

lemma topn_heap_methods:
  assumes "compares cmp good"
  shows "heap_methods (row_after cmp good items) (topNHeap_methods cmp) rows (\<lambda>t xs. t\<lparr>rows := xs\<rparr>) (topn_ok good items)"
proof -
  have "topn_ok good items (t\<lparr>rows := xs\<rparr>)" if "topn_ok good items t" "mset xs = mset (rows t)" for t :: "'a topNHeap" and xs
    using that mset_eq_setD [OF that(2)] by (simp add: topn_ok_def)
  then show ?thesis
    using topn_Less_good [OF assms]
    by (intro heap_methods.intro heap_methods_axioms.intro row_after_order [OF assms]) (auto simp: topNHeap_methods_def topn_Swap_def swap_def)
qed

text \<open>The state of the heap after a sequence of rows.\<close>

definition topn_inv :: "('d \<Rightarrow> 'd \<Rightarrow> err + int) \<Rightarrow> ('d \<Rightarrow> bool) \<Rightarrow> ByItem list \<Rightarrow> nat \<Rightarrow> 'd sortRow multiset \<Rightarrow> 'd topNHeap \<Rightarrow> bool" where
  "topn_inv cmp good items n seen t =
     (topn_ok good items t \<and> totalCount t = int n \<and> heapSize t = length (rows t) \<and> t_err t = None \<and>
      is_heap (row_after cmp good items) (length (rows t)) (rows t) \<and> keeps (row_after cmp good items) n (mset (rows t)) seen)"

lemma tryToAddRow_spec:
  assumes c: "compares cmp good" and i: "topn_inv cmp good items n seen t" and g: "row_good good items x"
  shows "topn_inv cmp good items n (add_mset x seen) (snd (tryToAddRow cmp x t))"
proof -
  let ?I = "topNHeap_methods cmp" and ?lt = "row_after cmp good items"
  note H = topn_heap_methods [OF c, of items]
  note W = row_after_order [OF c, of items]
  have ok: "topn_ok good items t" "heapSize t = length (rows t)" "totalCount t = int n" "t_err t = None"
    and heap: "is_heap ?lt (length (rows t)) (rows t)" and keep: "keeps ?lt n (mset (rows t)) seen"
    using i by (simp_all add: topn_inv_def)
  show ?thesis
  proof (cases "length (rows t) = n")
    case False
    let ?p = "h_Push ?I t x"
    have p: "?p = t\<lparr>rows := rows t @ [x], heapSize := Suc (heapSize t)\<rparr>"
      by (simp add: topNHeap_methods_def topn_Push_def)
    have "topn_ok good items ?p" "rows ?p = rows t @ [x]" "h_Len ?I ?p = Suc (length (rows t))"
      using ok(1,2) g unfolding p by (auto simp: topn_ok_def topNHeap_methods_def)
    then obtain xs where xs: "heap_Push ?I t x = ?p\<lparr>rows := xs\<rparr>" "mset xs = add_mset x (mset (rows t))" "is_heap ?lt (length xs) xs"
      using heap_methods.heap_Push_spec [OF H, of t x] heap by blast
    have "length (rows t) < n"
      using keeps_size [OF keep] False by simp
    then have "keeps ?lt n (mset xs) (add_mset x seen)"
      using keeps_add [OF keep] xs(2) by simp
    moreover have "topn_ok good items (?p\<lparr>rows := xs\<rparr>)"
      using ok(1) g mset_eq_setD [of xs "x # rows t"] xs(2) by (auto simp: p topn_ok_def)
    ultimately show ?thesis
      using xs ok False mset_eq_length [of xs "x # rows t"] by (simp add: tryToAddRow_def topn_inv_def p)
  next
    case full: True
    let ?t = "t\<lparr>rows := rows t @ [x]\<rparr>"
    have ok1: "topn_ok good items ?t"
      using ok(1) g by (auto simp: topn_ok_def)
    have less: "topn_Less cmp ?t 0 (heapSize ?t) = (?lt ((rows t @ [x]) ! 0) x, ?t)"
      using topn_Less_good [OF c ok1, of 0 "heapSize ?t"] ok(2) by simp
    show ?thesis
    proof (cases "?lt ((rows t @ [x]) ! 0) x")
      case False
      have "keeps ?lt n (mset (rows t)) (add_mset x seen)"
      proof (cases "rows t = []")
        case True
        then show ?thesis
          using keeps_drop [OF keep] full by simp
      next
        case ne: False
        then show ?thesis
          using weak_order.keeps_full(1) [OF W heap ne full keep, of x] False by (simp add: nth_append)
      qed
      then show ?thesis
        using less False full i ok by (simp add: tryToAddRow_def topn_inv_def)
    next
      case True
      have ne: "rows t \<noteq> []"
        using True weak_order.irrefl [OF W] by auto
      have root: "(rows t @ [x]) ! 0 = rows t ! 0"
        using ne by (simp add: nth_append)
      let ?ys = "swap (rows t @ [x]) 0 n"
      let ?t1 = "t\<lparr>rows := ?ys\<rparr>"
      have sw: "topn_Swap ?t 0 (heapSize ?t) = ?t1"
        using full ok(2) by (simp add: topn_Swap_def swap_def)
      have l: "0 < length (rows t @ [x])" "n < length (rows t @ [x])"
        using full by simp_all
      note nth = nth_swap [OF l]
      have m: "mset ?ys = add_mset x (mset (rows t))"
        using l by simp
      have ok2: "topn_ok good items ?t1"
        using ok1 mset_eq_setD [of ?ys "x # rows t"] m by (simp add: topn_ok_def)
      have len: "h_Len ?I ?t1 = n"
        using ok(2) full by (simp add: topNHeap_methods_def)
      have "down_inv ?lt 0 n (rows ?t1) 0"
        by (rule weak_order.down_inv_root [OF W heap]) (use full in \<open>auto simp: nth nth_append\<close>)
      then obtain xs where xs: "heap_Fix ?I ?t1 0 = ?t1\<lparr>rows := xs\<rparr>" "mset xs = mset ?ys" "drop n xs = drop n ?ys" "is_heap ?lt n xs"
        using heap_methods.heap_Fix_spec [OF H ok2] len full by (auto simp del: mset_swap_idx)
      have lx: "length xs = Suc n"
        using mset_eq_length [OF xs(2)] full by simp
      have "drop n ?ys = [rows t ! 0]"
        using Cons_nth_drop_Suc [of n ?ys] full root by (simp add: nth)
      then have "mset xs = add_mset (rows t ! 0) (mset (take n xs))"
        using xs(3) append_take_drop_id [of n xs] by (metis union_mset_add_mset_right add_mset_add_single mset.simps mset_append)
      then have e: "add_mset (rows t ! 0) (mset (take n xs)) = add_mset x (mset (rows t))"
        using xs(2) m by simp
      define rest where "rest = mset (rows t) - {#rows t ! 0#}"
      have rest: "add_mset (rows t ! 0) rest = mset (rows t)"
        using ne by (simp add: rest_def)
      have "mset (take n xs) = add_mset x rest"
        using e rest by (metis add_mset_add_mset_same_iff add_mset_commute)
      moreover have "keeps ?lt n (add_mset x rest) (add_mset x seen)"
        by (rule weak_order.keeps_full(2) [OF W heap ne full keep _ rest]) (use True root in simp)
      moreover have "topn_ok good items (t\<lparr>rows := take n xs\<rparr>)"
        using ok2 mset_eq_setD [OF xs(2)] set_take_subset [of n xs] by (auto simp: topn_ok_def)
      moreover have "is_heap ?lt n (take n xs)"
        using xs(4) by simp
      ultimately show ?thesis
        using less True full ok sw xs(1) lx by (simp add: tryToAddRow_def topn_inv_def)
    qed
  qed
qed

text \<open>Adding the rows of a list, one after the other.\<close>

primrec add_rows :: "('d \<Rightarrow> 'd \<Rightarrow> err + int) \<Rightarrow> 'd sortRow list \<Rightarrow> 'd topNHeap \<Rightarrow> 'd topNHeap" where
  "add_rows cmp [] t = t"
| "add_rows cmp (x # xs) t = add_rows cmp xs (snd (tryToAddRow cmp x t))"

lemma add_rows_spec:
  assumes "compares cmp good"
  shows "topn_inv cmp good items n seen t \<Longrightarrow> list_all (row_good good items) xs \<Longrightarrow> topn_inv cmp good items n (seen + mset xs) (add_rows cmp xs t)"
proof (induction xs arbitrary: t seen)
  case (Cons x xs)
  then show ?case
    using Cons.IH [OF tryToAddRow_spec [OF assms Cons.prems(1), of x]] by simp
qed simp

end
