(* ===== verification/Coproc.thy ===== *)
theory Coproc
  imports Topn Keys Rpc "HOL-Library.Monad_Syntax"
begin

text \<open>
  \<^verbatim>\<open>mockeinsteindb/interlocking_directorate.go\<close>: the executors that run a pushed-down query next to the store. A scan
  reads rows of the store, the others take the rows of the executor below them, which is an argument: its
  \<open>Next\<close> on its state. The packages that decode rows and keys and evaluate expressions are a record of functions.
  A panic (an index out of range, a method on the wrong kind of handle) is \<open>None\<close>; measured times are left out.
  A key that is present but empty is \<open>Some []\<close>: once a range with an empty start key has been entered the seek key
  of the model is set where Go's would still be nil, which reads the same rows.
\<close>

section \<open>External packages\<close>

text \<open>The columns of \<^verbatim>\<open>fidelpb\<close>, with the fields the executors read.\<close>

record DeferredCausetInfo =
  col_Id :: int
  col_PkHandle :: bool
  col_Flag :: u64
  col_DefaultVal :: bytes

datatype HandleStatus = HandleDefault | HandleIsUnsigned | HandleNotNeeded

text \<open>
  The functions of \<^verbatim>\<open>blockcodec\<close>, \<^verbatim>\<open>rowcodec\<close>, \<^verbatim>\<open>codec\<close>, \<^verbatim>\<open>types\<close>, \<^verbatim>\<open>expression\<close> and \<^verbatim>\<open>allegrosql\<close>, with the statement's
  context and time zone applied. The types are those of values, expressions, field types and column infos.
\<close>

record ('d, 'x, 'ft, 'ci) ext =
  DecodeRowKey :: "bytes \<Rightarrow> err + Handle"
  TruncateToRowKeyLen :: "bytes \<Rightarrow> bytes"
  IsNewFormat :: "bytes \<Rightarrow> bool"
  CutRowNew :: "bytes \<Rightarrow> (int \<times> nat) list \<Rightarrow> err + row option"
  DecodeIndexKV :: "bytes \<Rightarrow> bytes \<Rightarrow> nat \<Rightarrow> HandleStatus \<Rightarrow> 'ci list \<Rightarrow> err + row option"
  DecodeDeferredCausetValue :: "bytes option \<Rightarrow> 'ft \<Rightarrow> 'd \<times> err option"
  NewUintCauset :: "u64 \<Rightarrow> 'd"
  NewIntCauset :: "u64 \<Rightarrow> 'd"
  EncodeValue :: "'d \<Rightarrow> err + bytes"
  HasUnsignedFlag :: "u64 \<Rightarrow> bool"
  HasNotNullFlag :: "u64 \<Rightarrow> bool"
  ExtraHandleID :: int
  NilFlag :: byte
  Eval :: "'x \<Rightarrow> 'd list \<Rightarrow> err + 'd"
  IsNull :: "'d \<Rightarrow> bool"
  ToBool :: "'d \<Rightarrow> int \<times> err option"
  HandleOverflowOnSelection :: "int \<Rightarrow> err option \<Rightarrow> int \<times> err option"
  CompareCauset :: "'d \<Rightarrow> 'd \<Rightarrow> err + int"

section \<open>Executors\<close>

text \<open>What a call of \<open>Next\<close> gives: an error, the end (a nil row), or a row.\<close>

type_synonym 's next_result = "((err + row option) \<times> 's) option"

record execDetail =
  numProducedRows :: int
  numIterations :: int

definition new_execDetail :: execDetail where
  "new_execDetail = \<lparr>numProducedRows = 0, numIterations = 0\<rparr>"

definition detail_uFIDelate :: "execDetail \<Rightarrow> err + row option \<Rightarrow> execDetail" where
  "detail_uFIDelate d r =
     (let d1 = d\<lparr>numIterations := numIterations d + 1\<rparr>
      in case r of Inr (Some event) \<Rightarrow> d1\<lparr>numProducedRows := numProducedRows d1 + 1\<rparr> | _ \<Rightarrow> d1)"

section \<open>Rows\<close>

definition cell :: "'a list \<Rightarrow> nat \<Rightarrow> 'a option" where
  "cell xs i = (if i < length xs then Some (xs ! i) else None)"

definition set_cell :: "'a list \<Rightarrow> nat \<Rightarrow> 'a \<Rightarrow> 'a list option" where
  "set_cell xs i x = (if i < length xs then Some (xs[i := x]) else None)"

definition hasDefCausVal :: "row \<Rightarrow> (int \<times> nat) list \<Rightarrow> int \<Rightarrow> bool option" where
  "hasDefCausVal values colIDs colID =
     (case map_of colIDs colID of None \<Rightarrow> Some False | Some offset \<Rightarrow> map_option (\<lambda>c. c \<noteq> None) (cell values offset))"

text \<open>One column of the loop that fills in the handle and the columns with no value.\<close>

definition fill_column :: "('d, 'x, 'ft, 'ci) ext \<Rightarrow> (int \<times> nat) list \<Rightarrow> u64 \<Rightarrow> DeferredCausetInfo \<Rightarrow> row \<Rightarrow> (err + row) option" where
  "fill_column X colIDs handle c values =
     (let colID = col_Id c; offset = (case map_of colIDs colID of None \<Rightarrow> 0 | Some i \<Rightarrow> i)
      in if col_PkHandle c \<or> colID = ExtraHandleID X
         then (case EncodeValue X (if HasUnsignedFlag X (col_Flag c) then NewUintCauset X handle else NewIntCauset X handle) of
                 Inl e \<Rightarrow> Some (Inl e)
               | Inr handleData \<Rightarrow> map_option Inr (set_cell values offset (Some handleData)))
         else do {
           has \<leftarrow> hasDefCausVal values colIDs colID;
           if has then Some (Inr values)
           else if length (col_DefaultVal c) > 0 then map_option Inr (set_cell values offset (Some (col_DefaultVal c)))
           else if HasNotNullFlag X (col_Flag c) then Some (Inl (Err_New (''Miss column '' @ FormatInt (word_of_int colID))))
           else map_option Inr (set_cell values offset (Some [NilFlag X]))
         })"

fun fill_columns :: "('d, 'x, 'ft, 'ci) ext \<Rightarrow> (int \<times> nat) list \<Rightarrow> u64 \<Rightarrow> DeferredCausetInfo list \<Rightarrow> row \<Rightarrow> (err + row) option" where
  "fill_columns X colIDs handle [] values = Some (Inr values)"
| "fill_columns X colIDs handle (c # cs) values =
     (case fill_column X colIDs handle c values of
        None \<Rightarrow> None
      | Some (Inl e) \<Rightarrow> Some (Inl e)
      | Some (Inr values') \<Rightarrow> fill_columns X colIDs handle cs values')"

text \<open>\<open>rd\<close> is the decoder of rows in the new format.\<close>

definition getRowData ::
  "('d, 'x, 'ft, 'ci) ext \<Rightarrow> DeferredCausetInfo list \<Rightarrow> (int \<times> nat) list \<Rightarrow> u64 \<Rightarrow> bytes \<Rightarrow>
   ((int \<times> nat) list \<Rightarrow> u64 \<Rightarrow> bytes \<Rightarrow> err + row option) \<Rightarrow> (err + row option) option" where
  "getRowData X columns colIDs handle v rd =
     (if IsNewFormat X v then Some (rd colIDs handle v)
      else case CutRowNew X v colIDs of
             Inl e \<Rightarrow> Some (Inl e)
           | Inr cells \<Rightarrow>
               let values = (case cells of None \<Rightarrow> replicate (length colIDs) None | Some vs \<Rightarrow> vs)
               in map_option (map_sum id Some) (fill_columns X colIDs handle columns values))"

section \<open>Table scans\<close>

record blockScanExec =
  DeferredCausets :: "DeferredCausetInfo list"
  bs_Desc :: bool
  colIDs :: "(int \<times> nat) list"
  kvRanges :: "KeyRange list"
  bs_startTS :: u64
  isolationLevel :: IsolationLevel
  resolvedLocks :: "u64 list"
  cursor :: nat
  seekKey :: "bytes option"
  start :: nat
  counts :: "int list option"
  bs_execDetail :: execDetail
  rd :: "(int \<times> nat) list \<Rightarrow> u64 \<Rightarrow> bytes \<Rightarrow> err + row option"

definition bs_ResetCounts :: "blockScanExec \<Rightarrow> blockScanExec option" where
  "bs_ResetCounts e =
     (case counts e of
        None \<Rightarrow> Some e
      | Some cs \<Rightarrow> map_option (\<lambda>cs'. e\<lparr>start := cursor e, counts := Some cs'\<rparr>) (set_cell cs (cursor e) 0))"

text \<open>A slice of the counts; one outside of them panics.\<close>

definition counts_slice :: "'a list \<Rightarrow> nat \<Rightarrow> nat \<Rightarrow> 'a list option" where
  "counts_slice xs i j = (if i \<le> j \<and> j \<le> length xs then Some (drop i (take j xs)) else None)"

definition bs_Counts :: "blockScanExec \<Rightarrow> int list option option" where
  "bs_Counts e =
     (case counts e of
        None \<Rightarrow> Some None
      | Some cs \<Rightarrow> map_option Some (if seekKey e = None then counts_slice cs (start e) (cursor e) else counts_slice cs (start e) (cursor e + 1)))"

definition bs_Cursor :: "blockScanExec \<Rightarrow> (bytes \<times> bool) option" where
  "bs_Cursor e =
     (case seekKey e of
        Some (b # bs) \<Rightarrow> Some (b # bs, bs_Desc e)
      | _ \<Rightarrow>
          if cursor e < length (kvRanges e)
          then let rng = kvRanges e ! cursor e
               in if IsPoint rng then Some (StartKey rng, bs_Desc e)
                  else if bs_Desc e then Some (EndKey rng, bs_Desc e) else Some (StartKey rng, bs_Desc e)
          else if kvRanges e = [] then None
          else Some (if bs_Desc e then StartKey (last (kvRanges e)) else EndKey (last (kvRanges e)), bs_Desc e))"

text \<open>The row of a stored pair: its key gives the handle.\<close>

definition row_of_pair :: "('d, 'x, 'ft, 'ci) ext \<Rightarrow> blockScanExec \<Rightarrow> bytes \<Rightarrow> bytes \<Rightarrow> (err + row option) option" where
  "row_of_pair X e k v =
     (case DecodeRowKey X k of
        Inl er \<Rightarrow> Some (Inl er)
      | Inr h \<Rightarrow> (case Handle_IntValue h of None \<Rightarrow> None | Some i \<Rightarrow> getRowData X (DeferredCausets e) (colIDs e) i v (rd e)))"

definition bs_getRowFromPoint :: "('d, 'x, 'ft, 'ci) ext \<Rightarrow> 's MVCCStore \<Rightarrow> 's \<Rightarrow> blockScanExec \<Rightarrow> KeyRange \<Rightarrow> (err + row option) option" where
  "bs_getRowFromPoint X M s e rng =
     (case mvcc_Get M s (StartKey rng) (bs_startTS e) (isolationLevel e) (resolvedLocks e) of
        Inl er \<Rightarrow> Some (Inl er)
      | Inr val \<Rightarrow>
          (case val of
             Some (b # bs) \<Rightarrow> row_of_pair X e (StartKey rng) (b # bs)
           | _ \<Rightarrow> Some (Inr None)))"

text \<open>What follows the scan of one pair in a range.\<close>

definition bs_take_pair :: "('d, 'x, 'ft, 'ci) ext \<Rightarrow> blockScanExec \<Rightarrow> KeyRange \<Rightarrow> pair list \<Rightarrow> blockScanExec next_result" where
  "bs_take_pair X e rng pairs =
     (case pairs of
        [] \<Rightarrow> Some (Inr None, e)
      | pair # _ \<Rightarrow>
          (case p_Err pair of
             Some er \<Rightarrow> Some (Inl er, e)
           | None \<Rightarrow>
               if (if bs_Desc e then bytes_Compare (p_Key pair) (StartKey rng) < 0 else bytes_Compare (p_Key pair) (EndKey rng) \<ge> 0)
               then Some (Inr None, e)
               else let e1 = e\<lparr>seekKey := Some (if bs_Desc e then TruncateToRowKeyLen X (p_Key pair) else PrefixNext (p_Key pair))\<rparr>
                    in map_option (\<lambda>r. (r, e1)) (row_of_pair X e1 (p_Key pair) (case p_Value pair of None \<Rightarrow> [] | Some v \<Rightarrow> v))))"

definition bs_getRowFromRange :: "('d, 'x, 'ft, 'ci) ext \<Rightarrow> 's MVCCStore \<Rightarrow> 's \<Rightarrow> blockScanExec \<Rightarrow> KeyRange \<Rightarrow> blockScanExec next_result" where
  "bs_getRowFromRange X M s e0 rng =
     (let sk = (case seekKey e0 of Some k \<Rightarrow> k | None \<Rightarrow> if bs_Desc e0 then EndKey rng else StartKey rng);
          e = e0\<lparr>seekKey := Some sk\<rparr>
      in do {
        pairs \<leftarrow> (if bs_Desc e
                 then mvcc_ReverseScan M s (StartKey rng) sk 1 (bs_startTS e) (isolationLevel e) (resolvedLocks e)
                 else mvcc_Scan M s sk (EndKey rng) 1 (bs_startTS e) (isolationLevel e) (resolvedLocks e));
        bs_take_pair X e rng pairs
      })"

lemma bs_take_pair_keeps: "bs_take_pair X e rng pairs = Some (r, e') \<Longrightarrow> kvRanges e' = kvRanges e \<and> cursor e' = cursor e"
  by (cases pairs) (auto simp: bs_take_pair_def Let_def split: option.splits if_split_asm)

lemma bs_getRowFromRange_keeps:
  "bs_getRowFromRange X M s e rng = Some (r, e') \<Longrightarrow> kvRanges e' = kvRanges e \<and> cursor e' = cursor e"
  unfolding bs_getRowFromRange_def Let_def bind_eq_Some_conv using bs_take_pair_keeps by fastforce

definition bs_count :: "nat \<Rightarrow> blockScanExec \<Rightarrow> blockScanExec option" where
  "bs_count i e =
     (case counts e of
        None \<Rightarrow> Some e
      | Some cs \<Rightarrow> do { c \<leftarrow> cell cs i; cs' \<leftarrow> set_cell cs i (c + 1); Some (e\<lparr>counts := Some cs'\<rparr>) })"

function bs_Next_loop :: "('d, 'x, 'ft, 'ci) ext \<Rightarrow> 's MVCCStore \<Rightarrow> 's \<Rightarrow> blockScanExec \<Rightarrow> blockScanExec next_result" where
  "bs_Next_loop X M s e =
     (if cursor e < length (kvRanges e)
      then let rng = kvRanges e ! cursor e
           in if IsPoint rng
              then (case bs_getRowFromPoint X M s e rng of
                      None \<Rightarrow> None
                    | Some (Inl er) \<Rightarrow> Some (Inl er, e)
                    | Some (Inr None) \<Rightarrow> bs_Next_loop X M s (e\<lparr>cursor := cursor e + 1\<rparr>)
                    | Some (Inr (Some event)) \<Rightarrow>
                        map_option (\<lambda>e'. (Inr (Some event), e')) (bs_count (cursor e) (e\<lparr>cursor := cursor e + 1\<rparr>)))
              else (case bs_getRowFromRange X M s e rng of
                      None \<Rightarrow> None
                    | Some (Inl er, e1) \<Rightarrow> Some (Inl er, e1)
                    | Some (Inr None, e1) \<Rightarrow> bs_Next_loop X M s (e1\<lparr>seekKey := None, cursor := cursor e1 + 1\<rparr>)
                    | Some (Inr (Some event), e1) \<Rightarrow> map_option (\<lambda>e'. (Inr (Some event), e')) (bs_count (cursor e1) e1))
      else Some (Inr None, e))"
  by pat_completeness auto
termination
  by (relation "measure (\<lambda>(_, _, _, e). length (kvRanges e) - cursor e)") (auto dest!: bs_getRowFromRange_keeps)

declare bs_Next_loop.simps [simp del]

definition bs_Next :: "('d, 'x, 'ft, 'ci) ext \<Rightarrow> 's MVCCStore \<Rightarrow> 's \<Rightarrow> blockScanExec \<Rightarrow> blockScanExec next_result" where
  "bs_Next X M s e = map_option (\<lambda>(r, e'). (r, e'\<lparr>bs_execDetail := detail_uFIDelate (bs_execDetail e') r\<rparr>)) (bs_Next_loop X M s e)"

end
