(* ===== verification/Coproc_Exec.thy ===== *)
theory Coproc_Exec
  imports Coproc
begin

text \<open>
  The index scan and the executors that take their rows from another one: selection, limit and top-n, of
  \<^verbatim>\<open>mockeinsteindb/interlocking_directorate.go\<close>; and how \<^verbatim>\<open>interlocking_handler_dag.go\<close> runs an executor and packs its
  rows into chunks. The executor below is an argument, its \<open>Next\<close> with its state. Rows have at least one column:
  the top-n executor copies a row's cells, and a copy of none is nil.
\<close>

section \<open>Index scans\<close>

record 'ci indexScanExec =
  is_Desc :: bool
  Unique :: "bool option"
  defcausLen :: nat
  is_kvRanges :: "KeyRange list"
  is_startTS :: u64
  is_isolationLevel :: IsolationLevel
  is_resolvedLocks :: "u64 list"
  is_cursor :: nat
  is_seekKey :: "bytes option"
  hdStatus :: HandleStatus
  is_start :: nat
  is_counts :: "int list option"
  is_execDetail :: execDetail
  colInfos :: "'ci list"

definition is_ResetCounts :: "'ci indexScanExec \<Rightarrow> 'ci indexScanExec option" where
  "is_ResetCounts e =
     (case is_counts e of
        None \<Rightarrow> Some e
      | Some cs \<Rightarrow> map_option (\<lambda>cs'. e\<lparr>is_start := is_cursor e, is_counts := Some cs'\<rparr>) (set_cell cs (is_cursor e) 0))"

definition is_Counts :: "'ci indexScanExec \<Rightarrow> int list option option" where
  "is_Counts e =
     (case is_counts e of
        None \<Rightarrow> Some None
      | Some cs \<Rightarrow> map_option Some (if is_seekKey e = None then counts_slice cs (is_start e) (is_cursor e) else counts_slice cs (is_start e) (is_cursor e + 1)))"

definition isUnique :: "'ci indexScanExec \<Rightarrow> bool" where
  "isUnique e = (Unique e = Some True)"

definition is_Cursor :: "'ci indexScanExec \<Rightarrow> (bytes \<times> bool) option" where
  "is_Cursor e =
     (case is_seekKey e of
        Some (b # bs) \<Rightarrow> Some (b # bs, is_Desc e)
      | _ \<Rightarrow>
          if is_cursor e < length (is_kvRanges e)
          then let rng = is_kvRanges e ! is_cursor e
               in if IsPoint rng \<and> isUnique e then Some (StartKey rng, is_Desc e)
                  else if is_Desc e then Some (EndKey rng, is_Desc e) else Some (StartKey rng, is_Desc e)
          else if is_kvRanges e = [] then None
          else Some (if is_Desc e then StartKey (last (is_kvRanges e)) else EndKey (last (is_kvRanges e)), is_Desc e))"

definition index_row :: "('d, 'x, 'ft, 'ci) ext \<Rightarrow> 'ci indexScanExec \<Rightarrow> bytes \<Rightarrow> bytes \<Rightarrow> err + row option" where
  "index_row X e k v = DecodeIndexKV X k v (defcausLen e) (hdStatus e) (colInfos e)"

definition is_getRowFromPoint :: "('d, 'x, 'ft, 'ci) ext \<Rightarrow> 's MVCCStore \<Rightarrow> 's \<Rightarrow> 'ci indexScanExec \<Rightarrow> KeyRange \<Rightarrow> err + row option" where
  "is_getRowFromPoint X M s e rng =
     (case mvcc_Get M s (StartKey rng) (is_startTS e) (is_isolationLevel e) (is_resolvedLocks e) of
        Inl er \<Rightarrow> Inl er
      | Inr val \<Rightarrow> (case val of Some (b # bs) \<Rightarrow> index_row X e (StartKey rng) (b # bs) | _ \<Rightarrow> Inr None))"

definition is_take_pair :: "('d, 'x, 'ft, 'ci) ext \<Rightarrow> 'ci indexScanExec \<Rightarrow> KeyRange \<Rightarrow> pair list \<Rightarrow> (err + row option) \<times> 'ci indexScanExec" where
  "is_take_pair X e rng pairs =
     (case pairs of
        [] \<Rightarrow> (Inr None, e)
      | pair # _ \<Rightarrow>
          (case p_Err pair of
             Some er \<Rightarrow> (Inl er, e)
           | None \<Rightarrow>
               if (if is_Desc e then bytes_Compare (p_Key pair) (StartKey rng) < 0 else bytes_Compare (p_Key pair) (EndKey rng) \<ge> 0)
               then (Inr None, e)
               else let e1 = e\<lparr>is_seekKey := Some (if is_Desc e then p_Key pair else PrefixNext (p_Key pair))\<rparr>
                    in (index_row X e1 (p_Key pair) (case p_Value pair of None \<Rightarrow> [] | Some v \<Rightarrow> v), e1)))"

definition is_getRowFromRange :: "('d, 'x, 'ft, 'ci) ext \<Rightarrow> 's MVCCStore \<Rightarrow> 's \<Rightarrow> 'ci indexScanExec \<Rightarrow> KeyRange \<Rightarrow> 'ci indexScanExec next_result" where
  "is_getRowFromRange X M s e0 rng =
     (let sk = (case is_seekKey e0 of Some k \<Rightarrow> k | None \<Rightarrow> if is_Desc e0 then EndKey rng else StartKey rng);
          e = e0\<lparr>is_seekKey := Some sk\<rparr>
      in map_option (is_take_pair X e rng)
           (if is_Desc e
            then mvcc_ReverseScan M s (StartKey rng) sk 1 (is_startTS e) (is_isolationLevel e) (is_resolvedLocks e)
            else mvcc_Scan M s sk (EndKey rng) 1 (is_startTS e) (is_isolationLevel e) (is_resolvedLocks e)))"

lemma is_take_pair_keeps: "is_take_pair X e rng pairs = (r, e') \<Longrightarrow> is_kvRanges e' = is_kvRanges e \<and> is_cursor e' = is_cursor e"
  by (cases pairs) (auto simp: is_take_pair_def Let_def split: option.splits if_split_asm)

lemma is_getRowFromRange_keeps:
  "is_getRowFromRange X M s e rng = Some (r, e') \<Longrightarrow> is_kvRanges e' = is_kvRanges e \<and> is_cursor e' = is_cursor e"
  unfolding is_getRowFromRange_def Let_def using is_take_pair_keeps by (fastforce split: if_split_asm)

definition is_count :: "nat \<Rightarrow> 'ci indexScanExec \<Rightarrow> 'ci indexScanExec option" where
  "is_count i e =
     (case is_counts e of
        None \<Rightarrow> Some e
      | Some cs \<Rightarrow> do { c \<leftarrow> cell cs i; cs' \<leftarrow> set_cell cs i (c + 1); Some (e\<lparr>is_counts := Some cs'\<rparr>) })"

function is_Next_loop :: "('d, 'x, 'ft, 'ci) ext \<Rightarrow> 's MVCCStore \<Rightarrow> 's \<Rightarrow> 'ci indexScanExec \<Rightarrow> 'ci indexScanExec next_result" where
  "is_Next_loop X M s e =
     (if is_cursor e < length (is_kvRanges e)
      then let rng = is_kvRanges e ! is_cursor e
           in if IsPoint rng \<and> isUnique e
              then (case is_getRowFromPoint X M s e rng of
                      Inl er \<Rightarrow> Some (Inl er, e)
                    | Inr None \<Rightarrow> is_Next_loop X M s (e\<lparr>is_cursor := is_cursor e + 1\<rparr>)
                    | Inr (Some event) \<Rightarrow>
                        map_option (\<lambda>e'. (Inr (Some event), e')) (is_count (is_cursor e) (e\<lparr>is_cursor := is_cursor e + 1\<rparr>)))
              else (case is_getRowFromRange X M s e rng of
                      None \<Rightarrow> None
                    | Some (Inl er, e1) \<Rightarrow> Some (Inl er, e1)
                    | Some (Inr None, e1) \<Rightarrow> is_Next_loop X M s (e1\<lparr>is_cursor := is_cursor e1 + 1, is_seekKey := None\<rparr>)
                    | Some (Inr (Some event), e1) \<Rightarrow> map_option (\<lambda>e'. (Inr (Some event), e')) (is_count (is_cursor e1) e1))
      else Some (Inr None, e))"
  by pat_completeness auto
termination
  by (relation "measure (\<lambda>(_, _, _, e). length (is_kvRanges e) - is_cursor e)") (auto dest!: is_getRowFromRange_keeps)

declare is_Next_loop.simps [simp del]

definition is_Next :: "('d, 'x, 'ft, 'ci) ext \<Rightarrow> 's MVCCStore \<Rightarrow> 's \<Rightarrow> 'ci indexScanExec \<Rightarrow> 'ci indexScanExec next_result" where
  "is_Next X M s e = map_option (\<lambda>(r, e'). (r, e'\<lparr>is_execDetail := detail_uFIDelate (is_execDetail e') r\<rparr>)) (is_Next_loop X M s e)"

section \<open>Decoding the columns an expression needs\<close>

definition decode_value :: "('d, 'x, 'ft, 'ci) ext \<Rightarrow> 'ft list \<Rightarrow> nat \<Rightarrow> row \<Rightarrow> ('d \<times> err option) option" where
  "decode_value X fieldTps offset val =
     do { c \<leftarrow> cell val offset; ft \<leftarrow> cell fieldTps offset; Some (DecodeDeferredCausetValue X c ft) }"

fun decodeRelatedDeferredCausetVals :: "('d, 'x, 'ft, 'ci) ext \<Rightarrow> 'ft list \<Rightarrow> nat list \<Rightarrow> row \<Rightarrow> 'd list \<Rightarrow> (err option \<times> 'd list) option" where
  "decodeRelatedDeferredCausetVals X fieldTps [] val event = Some (None, event)"
| "decodeRelatedDeferredCausetVals X fieldTps (offset # offsets) val event =
     do {
       (c, er) \<leftarrow> decode_value X fieldTps offset val;
       event1 \<leftarrow> set_cell event offset c;
       case er of Some e \<Rightarrow> Some (Some e, event1) | None \<Rightarrow> decodeRelatedDeferredCausetVals X fieldTps offsets val event1
     }"

section \<open>Selection\<close>

record ('d, 'x, 'ft) selectionExec =
  conditions :: "'x list"
  relatedDefCausOffsets :: "nat list"
  sel_event :: "'d list"
  sel_fieldTps :: "'ft list"
  sel_execDetail :: execDetail

fun evalBool :: "('d, 'x, 'ft, 'ci) ext \<Rightarrow> 'x list \<Rightarrow> 'd list \<Rightarrow> err + bool" where
  "evalBool X [] event = Inr True"
| "evalBool X (expr # exprs) event =
     (case Eval X expr event of
        Inl e \<Rightarrow> Inl e
      | Inr datum \<Rightarrow>
          if IsNull X datum then Inr False
          else (case ToBool X datum of
                  (b0, er0) \<Rightarrow>
                    (case HandleOverflowOnSelection X b0 er0 of
                       (isBool, Some e) \<Rightarrow> Inl e
                     | (isBool, None) \<Rightarrow> if isBool = 0 then Inr False else evalBool X exprs event)))"

text \<open>Whether a row is selected, with the decoded values it leaves.\<close>

definition sel_match :: "('d, 'x, 'ft, 'ci) ext \<Rightarrow> ('d, 'x, 'ft) selectionExec \<Rightarrow> row \<Rightarrow> ((err + bool) \<times> ('d, 'x, 'ft) selectionExec) option" where
  "sel_match X e val =
     do {
       (er, event) \<leftarrow> decodeRelatedDeferredCausetVals X (sel_fieldTps e) (relatedDefCausOffsets e) val (sel_event e);
       let e1 = e\<lparr>sel_event := event\<rparr>;
       Some (case er of Some er \<Rightarrow> Inl er | None \<Rightarrow> evalBool X (conditions e1) (sel_event e1), e1)
     }"

partial_function (option) sel_Next_loop ::
  "('s \<Rightarrow> 's next_result) \<Rightarrow> ('d, 'x, 'ft, 'ci) ext \<Rightarrow> ('d, 'x, 'ft) selectionExec \<times> 's \<Rightarrow> (('d, 'x, 'ft) selectionExec \<times> 's) next_result" where
  "sel_Next_loop src X es =
     Option.bind (src (snd es)) (\<lambda>(r, s).
       case r of
         Inl er \<Rightarrow> Some (Inl er, fst es, s)
       | Inr None \<Rightarrow> Some (Inr None, fst es, s)
       | Inr (Some val) \<Rightarrow>
           Option.bind (sel_match X (fst es) val) (\<lambda>(m, e).
             case m of
               Inl er \<Rightarrow> Some (Inl er, e, s)
             | Inr b \<Rightarrow> if b then Some (Inr (Some val), e, s) else sel_Next_loop src X (e, s)))"

definition sel_Next :: "('s \<Rightarrow> 's next_result) \<Rightarrow> ('d, 'x, 'ft, 'ci) ext \<Rightarrow> ('d, 'x, 'ft) selectionExec \<times> 's \<Rightarrow> (('d, 'x, 'ft) selectionExec \<times> 's) next_result" where
  "sel_Next src X es =
     map_option (\<lambda>(r, e, s). (r, e\<lparr>sel_execDetail := detail_uFIDelate (sel_execDetail e) r\<rparr>, s)) (sel_Next_loop src X es)"

section \<open>Limit\<close>

record limitExec =
  limit :: u64
  lim_cursor :: u64
  lim_execDetail :: execDetail

definition lim_Next_body :: "('s \<Rightarrow> 's next_result) \<Rightarrow> limitExec \<times> 's \<Rightarrow> (limitExec \<times> 's) next_result" where
  "lim_Next_body src es =
     (case es of (e, s) \<Rightarrow>
        if lim_cursor e \<ge> limit e then Some (Inr None, e, s)
        else do {
          (r, s1) \<leftarrow> src s;
          Some (case r of
                  Inl er \<Rightarrow> (Inl er, e, s1)
                | Inr None \<Rightarrow> (Inr None, e, s1)
                | Inr (Some val) \<Rightarrow> (Inr (Some val), e\<lparr>lim_cursor := lim_cursor e + 1\<rparr>, s1))
        })"

definition lim_Next :: "('s \<Rightarrow> 's next_result) \<Rightarrow> limitExec \<times> 's \<Rightarrow> (limitExec \<times> 's) next_result" where
  "lim_Next src es =
     map_option (\<lambda>(r, e, s). (r, e\<lparr>lim_execDetail := detail_uFIDelate (lim_execDetail e) r\<rparr>, s)) (lim_Next_body src es)"

section \<open>Top-n\<close>

record ('d, 'x, 'ft) topNExec =
  top_heap :: "'d topNHeap"
  top_fieldTps :: "'ft list"
  top_relatedDefCausOffsets :: "nat list"
  orderByExprs :: "'x list"
  top_event :: "'d list"
  top_cursor :: nat
  executed :: bool
  top_execDetail :: execDetail

text \<open>The key of a row: the values of the order's expressions.\<close>

fun eval_key :: "('d, 'x, 'ft, 'ci) ext \<Rightarrow> 'x list \<Rightarrow> 'd list \<Rightarrow> err + 'd list" where
  "eval_key X [] event = Inr []"
| "eval_key X (expr # exprs) event =
     (case Eval X expr event of
        Inl e \<Rightarrow> Inl e
      | Inr d \<Rightarrow> (case eval_key X exprs event of Inl e \<Rightarrow> Inl e | Inr ds \<Rightarrow> Inr (d # ds)))"

text \<open>
  The row is added before its data is filled in, which only happens if it was kept; in the heap it is the
  same row, so that it is added with its data here.
\<close>

definition evalTopN :: "('d, 'x, 'ft, 'ci) ext \<Rightarrow> ('d, 'x, 'ft) topNExec \<Rightarrow> row \<Rightarrow> (err option \<times> ('d, 'x, 'ft) topNExec) option" where
  "evalTopN X e val =
     do {
       (er, event) \<leftarrow> decodeRelatedDeferredCausetVals X (top_fieldTps e) (top_relatedDefCausOffsets e) val (top_event e);
       let e1 = e\<lparr>top_event := event\<rparr>;
       Some (case er of
               Some er \<Rightarrow> (Some er, e1)
             | None \<Rightarrow>
                 (case eval_key X (orderByExprs e1) (top_event e1) of
                    Inl er \<Rightarrow> (Some er, e1)
                  | Inr k \<Rightarrow>
                      let h = snd (tryToAddRow (CompareCauset X) \<lparr>key = k, data = val\<rparr> (top_heap e1))
                      in (t_err h, e1\<lparr>top_heap := h\<rparr>)))
     }"

partial_function (option) top_fill ::
  "('s \<Rightarrow> 's next_result) \<Rightarrow> ('d, 'x, 'ft, 'ci) ext \<Rightarrow> ('d, 'x, 'ft) topNExec \<times> 's \<Rightarrow> (err option \<times> ('d, 'x, 'ft) topNExec \<times> 's) option" where
  "top_fill src X es =
     Option.bind (src (snd es)) (\<lambda>(r, s).
       case r of
         Inl er \<Rightarrow> Some (Some er, fst es, s)
       | Inr None \<Rightarrow> Some (None, fst es, s)
       | Inr (Some val) \<Rightarrow>
           Option.bind (evalTopN X (fst es) val) (\<lambda>(er, e).
             case er of Some er \<Rightarrow> Some (Some er, e, s) | None \<Rightarrow> top_fill src X (e, s)))"

type_synonym 'd row_sorter = "('d sortRow \<Rightarrow> 'd sortRow \<Rightarrow> bool) \<Rightarrow> 'd sortRow list \<Rightarrow> 'd sortRow list"

definition top_Next_body ::
  "'d row_sorter \<Rightarrow> ('s \<Rightarrow> 's next_result) \<Rightarrow> ('d, 'x, 'ft, 'ci) ext \<Rightarrow> ('d, 'x, 'ft) topNExec \<times> 's \<Rightarrow> (('d, 'x, 'ft) topNExec \<times> 's) next_result" where
  "top_Next_body srt src X es =
     do {
       (er, e, s) \<leftarrow> (if \<not> executed (fst es)
                     then map_option (\<lambda>(er, e, s).
                            case er of
                              Some er \<Rightarrow> (Some er, e, s)
                            | None \<Rightarrow>
                                let h = top_heap e;
                                    h1 = h\<lparr>rows := srt (\<lambda>a b. fst (sorter_Less (CompareCauset X) (orderByItems h) a b)) (rows h)\<rparr>
                                in (None, e\<lparr>top_heap := h1, executed := True\<rparr>, s)) (top_fill src X es)
                     else Some (None, es));
       Some (case er of
               Some er \<Rightarrow> (Inl er, e, s)
             | None \<Rightarrow>
                 if top_cursor e \<ge> length (rows (top_heap e)) then (Inr None, e, s)
                 else (Inr (Some (data (rows (top_heap e) ! top_cursor e))), e\<lparr>top_cursor := top_cursor e + 1\<rparr>, s))
     }"

definition top_Next ::
  "'d row_sorter \<Rightarrow> ('s \<Rightarrow> 's next_result) \<Rightarrow> ('d, 'x, 'ft, 'ci) ext \<Rightarrow> ('d, 'x, 'ft) topNExec \<times> 's \<Rightarrow> (('d, 'x, 'ft) topNExec \<times> 's) next_result" where
  "top_Next srt src X es =
     map_option (\<lambda>(r, e, s). (r, e\<lparr>top_execDetail := detail_uFIDelate (top_execDetail e) r\<rparr>, s)) (top_Next_body srt src X es)"

section \<open>Running an executor\<close>

partial_function (option) run_executor :: "('s \<Rightarrow> 's next_result) \<Rightarrow> 's \<Rightarrow> row list \<Rightarrow> (err option \<times> row list \<times> 's) option" where
  "run_executor next s rs =
     Option.bind (next s) (\<lambda>(r, s1).
       case r of
         Inl er \<Rightarrow> Some (Some er, rs, s1)
       | Inr None \<Rightarrow> Some (None, rs, s1)
       | Inr (Some event) \<Rightarrow> run_executor next s1 (rs @ [event]))"

definition rowsPerChunk :: nat where
  "rowsPerChunk = 64"

definition appendRow :: "bytes list \<Rightarrow> bytes \<Rightarrow> nat \<Rightarrow> bytes list option" where
  "appendRow chunks rowData rowCnt =
     (let chunks1 = (if rowCnt mod rowsPerChunk = 0 then chunks @ [[]] else chunks)
      in if chunks1 = [] then None else Some (butlast chunks1 @ [last chunks1 @ rowData]))"

text \<open>The requested columns of a row, one after the other; a nil cell has no bytes.\<close>

fun requested_row :: "row \<Rightarrow> nat list \<Rightarrow> bytes option" where
  "requested_row event [] = Some []"
| "requested_row event (ordinal # ordinals) =
     do { c \<leftarrow> cell event ordinal; rest \<leftarrow> requested_row event ordinals; Some ((case c of None \<Rightarrow> [] | Some b \<Rightarrow> b) @ rest) }"

fun encode_loop :: "row list \<Rightarrow> nat list \<Rightarrow> nat \<Rightarrow> bytes list \<Rightarrow> bytes list option" where
  "encode_loop [] colOrdinal i chunks = Some chunks"
| "encode_loop (event # rs) colOrdinal i chunks =
     do { r \<leftarrow> requested_row event colOrdinal; chunks' \<leftarrow> appendRow chunks r i; encode_loop rs colOrdinal (i + 1) chunks' }"

definition encodeDefault :: "row list \<Rightarrow> nat list \<Rightarrow> bytes list option" where
  "encodeDefault rs colOrdinal = encode_loop rs colOrdinal 0 []"

text \<open>
  The core of \<open>handleCoFIDelAGRequest\<close>, from an executor that is already built: it is run to its end, and if no
  error stopped it its rows are packed in the default encoding. The result is the error, the chunks and the
  executor's state. The code before it (building the executor) and after it (the executor's counts and summaries,
  the choice of encoding, the response message) is left out.
\<close>

definition handleCoFIDelAGRequest :: "('s \<Rightarrow> 's next_result) \<Rightarrow> 's \<Rightarrow> nat list \<Rightarrow> (err option \<times> bytes list \<times> 's) option" where
  "handleCoFIDelAGRequest next s outputOffsets =
     do {
       (er, rs, s1) \<leftarrow> run_executor next s [];
       chunks \<leftarrow> (if er = None then encodeDefault rs outputOffsets else Some []);
       Some (er, chunks, s1)
     }"

section \<open>The ranges of a request\<close>

definition maxStartKey :: "bytes \<Rightarrow> bytes \<Rightarrow> bytes" where
  "maxStartKey rangeStartKey regionStartKey = (if bytes_Compare rangeStartKey regionStartKey > 0 then rangeStartKey else regionStartKey)"

definition minEndKey :: "bytes \<Rightarrow> bytes \<Rightarrow> bytes" where
  "minEndKey rangeEndKey regionEndKey =
     (if length regionEndKey = 0 \<or> bytes_Compare rangeEndKey regionEndKey < 0 then rangeEndKey else regionEndKey)"

fun extract_loop :: "bytes \<Rightarrow> bytes \<Rightarrow> KeyRange list \<Rightarrow> KeyRange list \<Rightarrow> err + KeyRange list" where
  "extract_loop rawStartKey rawEndKey [] kvRngs = Inr kvRngs"
| "extract_loop rawStartKey rawEndKey (kran # krans) kvRngs =
     (if bytes_Compare (StartKey kran) (EndKey kran) \<ge> 0 then Inl (Err_New ''invalid range, start should be smaller than end'')
      else if bytes_Compare (EndKey kran) rawStartKey \<le> 0 then extract_loop rawStartKey rawEndKey krans kvRngs
      else if length rawEndKey \<noteq> 0 \<and> bytes_Compare (StartKey kran) rawEndKey \<ge> 0 then Inr kvRngs
      else extract_loop rawStartKey rawEndKey krans
             (kvRngs @ [\<lparr>StartKey = maxStartKey (StartKey kran) rawStartKey, EndKey = minEndKey (EndKey kran) rawEndKey\<rparr>]))"

text \<open>The loop of swaps over the first half.\<close>

fun reverse_loop :: "KeyRange list \<Rightarrow> nat \<Rightarrow> KeyRange list" where
  "reverse_loop xs 0 = xs"
| "reverse_loop xs (Suc i) = (let xs' = reverse_loop xs i; j = length xs' - i - 1 in xs'[i := xs' ! j, j := xs' ! i])"

definition reverseKVRanges :: "KeyRange list \<Rightarrow> KeyRange list" where
  "reverseKVRanges xs = reverse_loop xs (length xs div 2)"

definition extractKVRanges :: "bytes \<Rightarrow> bytes \<Rightarrow> KeyRange list \<Rightarrow> bool \<Rightarrow> err + KeyRange list" where
  "extractKVRanges rawStartKey rawEndKey keyRanges descScan =
     (case extract_loop rawStartKey rawEndKey keyRanges [] of
        Inl e \<Rightarrow> Inl e
      | Inr kvRngs \<Rightarrow> Inr (if descScan then reverseKVRanges kvRngs else kvRngs))"

end
