(* ===== verification/Coproc_Facts.thy ===== *)
theory Coproc_Facts
  imports Coproc_Exec Store_Theorems
begin

text \<open>
  What the executors return, as functions on lists of rows: an executor is described by the rows it gives one
  after the other and by how it stops, at the end or with an error.
\<close>

section \<open>The rows of an executor\<close>

inductive gives :: "('s \<Rightarrow> 's next_result) \<Rightarrow> 's \<Rightarrow> row list \<Rightarrow> err option \<Rightarrow> 's \<Rightarrow> bool" for nxt where
  gives_end: "nxt s = Some (Inr None, s') \<Longrightarrow> gives nxt s [] None s'"
| gives_error: "nxt s = Some (Inl er, s') \<Longrightarrow> gives nxt s [] (Some er) s'"
| gives_row: "nxt s = Some (Inr (Some r), s1) \<Longrightarrow> gives nxt s1 rs out s' \<Longrightarrow> gives nxt s (r # rs) out s'"

inductive_cases gives_NilE: "gives nxt s [] out s'"
inductive_cases gives_ConsE: "gives nxt s (r # rs) out s'"

lemma gives_run: "gives nxt s rs out s' \<Longrightarrow> run_executor nxt s acc = Some (out, acc @ rs, s')"
proof (induction arbitrary: acc rule: gives.induct)
  case (gives_row s r s1 rs out s')
  then show ?case
    using gives_row.IH [of "acc @ [r]"] by (subst run_executor.simps) simp
qed (subst run_executor.simps, simp)+

section \<open>Keys of one length\<close>

text \<open>The scan goes on from \<open>PrefixNext\<close> of the last key, which skips no other key of the same length.\<close>

lemma PrefixNext_greater: "k < PrefixNext k"
proof (cases k rule: key_shape)
  case (some xs b n)
  then show ?thesis
    using less_succ_byte [OF some(2)] by (simp add: PrefixNext_some)
qed (simp add: PrefixNext_all less_append_right)

lemma PrefixNext_skips_none:
  assumes "length k' = length k" and "k < k'"
  shows "PrefixNext k \<le> k'"
proof (cases "\<exists>b\<in>set k. b \<noteq> 255")
  case True
  have "k' < PrefixNext k \<Longrightarrow> HasPrefix k' k"
    using conjunct2 [OF prefix_range [OF True, of k']] eq_imp_le [OF assms(1) [symmetric]] less_imp_le [OF assms(2)] by blast
  moreover have "\<not> HasPrefix k' k"
    using assms unfolding HasPrefix_def by (metis order_less_irrefl take_all_iff order_refl)
  ultimately show ?thesis
    using not_less by blast
next
  case False
  then have "replicate (length k) 255 = k"
    by (intro replicate_length_same) simp
  then have "prefix k k'"
    using replicate_255_le [of "length k" k'] less_imp_le [OF assms(2)] by simp
  then show ?thesis
    using assms by (auto simp: prefix_def)
qed

lemma range_keys_after:
  assumes "wf_astate a" and len: "\<forall>k' \<in> set (range_keys a sk ek). length k' = n" and ks: "range_keys a sk ek = ks1 @ k # ks2"
  shows "range_keys a (PrefixNext k) ek = ks2"
proof -
  note srt = range_keys_props(1) [OF assms(1)]
  have mem: "k' \<in> set (range_keys a lo ek) \<longleftrightarrow> k' \<in> a_keys a \<and> lo \<le> k' \<and> (ek = [] \<or> k' < ek)" for k' lo
    using range_keys_props(2) [OF assms(1), of lo ek] by simp
  have s: "sorted_wrt (<) (ks1 @ k # ks2)"
    using srt [of sk ek] ks by simp
  have k: "k \<in> a_keys a" "sk \<le> k"
    using mem [of k sk] unfolding ks by simp_all
  have "k' \<in> set (range_keys a (PrefixNext k) ek) \<longleftrightarrow> k' \<in> set ks2" for k'
  proof
    assume "k' \<in> set (range_keys a (PrefixNext k) ek)"
    then have k': "k' \<in> a_keys a" "k < k'" "ek = [] \<or> k' < ek"
      using PrefixNext_greater [of k] unfolding mem by (auto intro: less_le_trans)
    then have "k' \<in> set (ks1 @ k # ks2)"
      using mem [of k' sk] order_trans [OF k(2) less_imp_le [OF k'(2)]] unfolding ks by blast
    then show "k' \<in> set ks2"
      using s k'(2) order_less_asym [of k k'] by (auto simp: sorted_wrt_append)
  next
    assume m: "k' \<in> set ks2"
    then have "k' \<in> a_keys a \<and> (ek = [] \<or> k' < ek)" "length k' = length k"
      using mem [of k' sk] len unfolding ks by simp_all
    moreover have "k < k'"
      using s m by (simp add: sorted_wrt_append)
    ultimately show "k' \<in> set (range_keys a (PrefixNext k) ek)"
      using PrefixNext_skips_none [of k' k] unfolding mem by simp
  qed
  then have "set (range_keys a (PrefixNext k) ek) = set ks2"
    by blast
  then show ?thesis
    using srt [of "PrefixNext k" ek] s
    by (intro sorted_distinct_set_unique) (auto simp: strict_sorted_iff sorted_wrt_append)
qed

section \<open>Table scans\<close>

text \<open>What reading a key gives, as a list; and what reading a range gives: its key if it is a point, else its keys in order.\<close>

type_synonym read = "err + bytes \<times> bytes"

definition key_reads :: "('db, 'dd) env \<Rightarrow> ('db, 'dd) MVCCLevelDB \<Rightarrow> u64 \<Rightarrow> IsolationLevel \<Rightarrow> u64 list \<Rightarrow> bytes \<Rightarrow> read list" where
  "key_reads E s ts lv rl k = (case Get E s k ts lv rl of Inl er \<Rightarrow> [Inl er] | Inr None \<Rightarrow> [] | Inr (Some v) \<Rightarrow> [Inr (k, v)])"

definition range_reads :: "('db, 'dd) env \<Rightarrow> ('db, 'dd) MVCCLevelDB \<Rightarrow> astate \<Rightarrow> u64 \<Rightarrow> IsolationLevel \<Rightarrow> u64 list \<Rightarrow> KeyRange \<Rightarrow> read list" where
  "range_reads E s a ts lv rl rng =
     (if IsPoint rng then filter (\<lambda>x. \<forall>k. x \<noteq> Inr (k, [])) (key_reads E s ts lv rl (StartKey rng))
      else concat (map (key_reads E s ts lv rl) (range_keys a (StartKey rng) (EndKey rng))))"

text \<open>The rows of a sequence of reads, up to the first error.\<close>

fun emit :: "(bytes \<Rightarrow> bytes \<Rightarrow> (err + row option) option) \<Rightarrow> read list \<Rightarrow> row list \<times> err option" where
  "emit f [] = ([], None)"
| "emit f (Inl er # xs) = ([], Some er)"
| "emit f (Inr (k, v) # xs) =
     (case f k v of
        Some (Inr (Some r)) \<Rightarrow> (case emit f xs of (rs, out) \<Rightarrow> (r # rs, out))
      | Some (Inl er) \<Rightarrow> ([], Some er)
      | _ \<Rightarrow> ([], None))"

text \<open>Every stored row decodes to a row or to an error.\<close>

definition decodes :: "(bytes \<Rightarrow> bytes \<Rightarrow> (err + row option) option) \<Rightarrow> read list \<Rightarrow> bool" where
  "decodes f xs = (\<forall>k v. Inr (k, v) \<in> set xs \<longrightarrow> f k v \<noteq> None \<and> f k v \<noteq> Some (Inr None))"

lemma scan_append_reads:
  "scan_append [] k (Get E s k ts lv rl) =
     map (\<lambda>x. case x of Inl er \<Rightarrow> \<lparr>p_Key = k, p_Value = None, p_Err = Some er\<rparr> | Inr (k', v) \<Rightarrow> \<lparr>p_Key = k, p_Value = Some v, p_Err = None\<rparr>)
       (key_reads E s ts lv rl k)"
  by (simp add: scan_append_def key_reads_def split: sum.splits option.splits)

lemma key_reads_cases: "key_reads E s ts lv rl k = [] \<or> (\<exists>er. key_reads E s ts lv rl k = [Inl er]) \<or> (\<exists>v. key_reads E s ts lv rl k = [Inr (k, v)])"
  by (simp add: key_reads_def split: sum.splits option.splits)

text \<open>A scan for one pair finds the first key with something to read.\<close>

lemma scan_one:
  fixes ts :: u64 and lv :: IsolationLevel and rl :: "u64 list"
  assumes "store_env E" and "abs_rel E (EDB s) a"
  defines "R \<equiv> key_reads E s ts lv rl"
  obtains "concat (map R (range_keys a sk ek)) = []" "Scan E s sk ek 1 ts lv rl = Some []"
  | er k ks1 ks2 where "range_keys a sk ek = ks1 @ k # ks2" "concat (map R (range_keys a sk ek)) = Inl er # concat (map R ks2)"
      "Scan E s sk ek 1 ts lv rl = Some [\<lparr>p_Key = k, p_Value = None, p_Err = Some er\<rparr>]"
  | k v ks1 ks2 where "range_keys a sk ek = ks1 @ k # ks2" "concat (map R (range_keys a sk ek)) = Inr (k, v) # concat (map R ks2)"
      "Scan E s sk ek 1 ts lv rl = Some [\<lparr>p_Key = k, p_Value = Some v, p_Err = None\<rparr>]"
proof -
  define P where "P k = scan_append [] k (Get E s k ts lv rl)" for k
  have P: "P k = map (\<lambda>x. case x of Inl er \<Rightarrow> \<lparr>p_Key = k, p_Value = None, p_Err = Some er\<rparr> | Inr (k', v) \<Rightarrow> \<lparr>p_Key = k, p_Value = Some v, p_Err = None\<rparr>) (R k)" for k
    unfolding P_def R_def by (rule scan_append_reads)
  have scan: "Scan E s sk ek 1 ts lv rl = Some (take 1 (concat (map P (range_keys a sk ek))))"
    using store_env.Scan_refines [OF assms(1,2), of sk ek 1 ts lv rl] store_env.db_getValue_refines [OF assms(1,2)]
    unfolding P_def by (simp add: a_scan_take a_pairs_def Get_def)
  show thesis
  proof (cases "\<forall>k \<in> set (range_keys a sk ek). R k = []")
    case True
    then show thesis
      using that(1) scan by (simp add: P)
  next
    case False
    then obtain ks1 k ks2 where ks: "range_keys a sk ek = ks1 @ k # ks2" "\<forall>k' \<in> set ks1. R k' = []" "R k \<noteq> []"
      using split_list_first_prop [of "range_keys a sk ek" "\<lambda>k. R k \<noteq> []"] by auto
    have pre: "concat (map R ks1) = []" "concat (map P ks1) = []"
      using ks(2) by (simp_all add: P)
    consider er where "R k = [Inl er]" | v where "R k = [Inr (k, v)]"
      using ks(3) key_reads_cases [of E s ts lv rl k] unfolding R_def by blast
    then show thesis
    proof cases
      case 1
      then have "P k = [\<lparr>p_Key = k, p_Value = None, p_Err = Some er\<rparr>]"
        by (simp add: P)
      then show thesis
        using that(2) [OF ks(1), of er] scan pre 1 unfolding ks(1) by simp
    next
      case 2
      then have "P k = [\<lparr>p_Key = k, p_Value = Some v, p_Err = None\<rparr>]"
        by (simp add: P)
      then show thesis
        using that(3) [OF ks(1), of v] scan pre 2 unfolding ks(1) by simp
    qed
  qed
qed

definition bs_reads :: "('db, 'dd) env \<Rightarrow> ('db, 'dd) MVCCLevelDB \<Rightarrow> astate \<Rightarrow> blockScanExec \<Rightarrow> KeyRange list \<Rightarrow> read list" where
  "bs_reads E s a e rngs = concat (map (range_reads E s a (bs_startTS e) (isolationLevel e) (resolvedLocks e)) rngs)"

definition bs_wf :: "blockScanExec \<Rightarrow> bool" where
  "bs_wf e = (\<not> bs_Desc e \<and> (\<forall>r \<in> set (kvRanges e). EndKey r \<noteq> []) \<and> (\<forall>cs. counts e = Some cs \<longrightarrow> length cs = length (kvRanges e)))"

text \<open>
  In each range the stored keys have one length, as the row keys of a table with integer handles have: from
  \<open>PrefixNext\<close> of a key the scan would not see the keys that extend it.
\<close>

definition even_keys :: "astate \<Rightarrow> KeyRange list \<Rightarrow> bool" where
  "even_keys a rngs = (\<forall>r \<in> set rngs. \<not> IsPoint r \<longrightarrow> (\<exists>n. \<forall>k \<in> set (range_keys a (StartKey r) (EndKey r)). length k = n))"

lemma even_keys_at:
  assumes "wf_astate a" and "even_keys a rngs" and "c < length rngs" and "\<not> IsPoint (rngs ! c)" and "StartKey (rngs ! c) \<le> k0"
  obtains n where "\<forall>k \<in> set (range_keys a k0 (EndKey (rngs ! c))). length k = n"
proof -
  have "set (range_keys a k0 (EndKey (rngs ! c))) \<subseteq> set (range_keys a (StartKey (rngs ! c)) (EndKey (rngs ! c)))"
    using assms(5) order_trans unfolding subset_iff range_keys_props(2) [OF assms(1)] by blast
  moreover have "\<exists>n. \<forall>k \<in> set (range_keys a (StartKey (rngs ! c)) (EndKey (rngs ! c))). length k = n"
    using assms(2-4) nth_mem unfolding even_keys_def by blast
  ultimately show thesis
    using that by blast
qed

text \<open>The reads a scan has still to do: those of the rest of the current range, and of the ranges after it.\<close>

definition at_reads :: "('db, 'dd) env \<Rightarrow> ('db, 'dd) MVCCLevelDB \<Rightarrow> astate \<Rightarrow> blockScanExec \<Rightarrow> read list \<Rightarrow> bool" where
  "at_reads E s a e xs =
     (bs_wf e \<and>
      (case seekKey e of
         None \<Rightarrow> xs = bs_reads E s a e (drop (cursor e) (kvRanges e))
       | Some k \<Rightarrow> cursor e < length (kvRanges e) \<and> \<not> IsPoint (kvRanges e ! cursor e) \<and> StartKey (kvRanges e ! cursor e) \<le> k \<and>
           xs = concat (map (key_reads E s (bs_startTS e) (isolationLevel e) (resolvedLocks e)) (range_keys a k (EndKey (kvRanges e ! cursor e)))) @
                bs_reads E s a e (drop (Suc (cursor e)) (kvRanges e))))"

definition same_rows :: "blockScanExec \<Rightarrow> blockScanExec \<Rightarrow> bool" where
  "same_rows e e' = (DeferredCausets e' = DeferredCausets e \<and> colIDs e' = colIDs e \<and> rd e' = rd e \<and> kvRanges e' = kvRanges e)"

lemma row_of_pair_same: "same_rows e e' \<Longrightarrow> row_of_pair X e' = row_of_pair X e"
  by (intro ext) (simp add: row_of_pair_def same_rows_def split: sum.splits option.splits)

lemma same_rows_trans: "same_rows e e' \<Longrightarrow> same_rows e' e'' \<Longrightarrow> same_rows e e''"
  by (simp add: same_rows_def)

lemma bs_reads_cong: "bs_startTS e' = bs_startTS e \<Longrightarrow> isolationLevel e' = isolationLevel e \<Longrightarrow> resolvedLocks e' = resolvedLocks e \<Longrightarrow>
    bs_reads E s a e' = bs_reads E s a e"
  by (intro ext) (simp add: bs_reads_def)

lemma bs_count_ok:
  assumes "bs_wf e" and "i < length (kvRanges e)"
  shows "\<exists>cs. bs_count i e = Some (e\<lparr>counts := cs\<rparr>) \<and> bs_wf (e\<lparr>counts := cs\<rparr>)"
proof (cases "counts e")
  case None
  then show ?thesis
    using assms(1) by (intro exI [of _ None]) (simp add: bs_count_def bs_wf_def)
next
  case (Some cs)
  then have "i < length cs"
    using assms by (simp add: bs_wf_def)
  then show ?thesis
    using Some assms(1) by (intro exI [of _ "Some (cs[i := cs ! i + 1])"]) (simp add: bs_count_def bs_wf_def cell_def set_cell_def)
qed

text \<open>What the next turn does, by the first of the reads to come.\<close>

definition scan_step :: "('d, 'x, 'ft, 'ci) ext \<Rightarrow> ('db, 'dd) env \<Rightarrow> ('db, 'dd) MVCCLevelDB \<Rightarrow> astate \<Rightarrow> blockScanExec \<Rightarrow> read list \<Rightarrow> blockScanExec next_result \<Rightarrow> bool" where
  "scan_step X E s a e xs res =
     (\<exists>r e'. res = Some (r, e') \<and> same_rows e e' \<and>
       (case xs of
          [] \<Rightarrow> r = Inr None
        | Inl er # _ \<Rightarrow> r = Inl er
        | Inr (k, v) # ys \<Rightarrow>
            (case row_of_pair X e k v of
               Some (Inl er) \<Rightarrow> r = Inl er
             | Some (Inr (Some row)) \<Rightarrow> r = Inr (Some row) \<and> at_reads E s a e' ys
             | _ \<Rightarrow> True)))"

lemma scan_step_same:
  assumes "same_rows e0 e" and "scan_step X E s a e xs res"
  shows "scan_step X E s a e0 xs res"
  using assms(2) same_rows_trans [OF assms(1)] unfolding scan_step_def row_of_pair_same [OF assms(1)] by blast

lemma decodes_Cons: "decodes f (Inr (k, v) # xs) \<Longrightarrow> (\<exists>er. f k v = Some (Inl er)) \<or> (\<exists>row. f k v = Some (Inr (Some row)))"
  by (cases "f k v") (auto simp: decodes_def, metis not_None_eq sum.exhaust)

text \<open>One row of a range.\<close>

lemma bs_getRowFromRange_step:
  assumes st: "store_env E" "abs_rel E (EDB s) a" and len: "even_keys a (kvRanges e)"
    and wf: "bs_wf e" and c: "cursor e < length (kvRanges e)" "\<not> IsPoint (kvRanges e ! cursor e)"
    and ge: "StartKey (kvRanges e ! cursor e) \<le> k0"
    and sk: "k0 = (case seekKey e of Some k \<Rightarrow> k | None \<Rightarrow> StartKey (kvRanges e ! cursor e))"
    and xs: "xs = concat (map (key_reads E s (bs_startTS e) (isolationLevel e) (resolvedLocks e)) (range_keys a k0 (EndKey (kvRanges e ! cursor e))))"
    and dec: "decodes (row_of_pair X e) xs"
  shows "\<exists>r k1. bs_getRowFromRange X (leveldb_store E) s e (kvRanges e ! cursor e) = Some (r, e\<lparr>seekKey := Some k1\<rparr>) \<and>
    (case xs of
       [] \<Rightarrow> r = Inr None
     | Inl er # _ \<Rightarrow> r = Inl er
     | Inr (k, v) # ys \<Rightarrow> row_of_pair X e k v = Some r \<and> StartKey (kvRanges e ! cursor e) \<le> k1 \<and>
         ys = concat (map (key_reads E s (bs_startTS e) (isolationLevel e) (resolvedLocks e)) (range_keys a k1 (EndKey (kvRanges e ! cursor e)))))"
proof -
  let ?rng = "kvRanges e ! cursor e"
  have ek: "EndKey ?rng \<noteq> []" and d: "\<not> bs_Desc e"
    using wf c(1) by (simp_all add: bs_wf_def)
  have wfa: "wf_astate a"
    using st(2) by (rule abs_rel_wf)
  have get: "bs_getRowFromRange X (leveldb_store E) s e ?rng =
      Option.bind (Scan E s k0 (EndKey ?rng) 1 (bs_startTS e) (isolationLevel e) (resolvedLocks e)) (bs_take_pair X (e\<lparr>seekKey := Some k0\<rparr>) ?rng)"
    using d by (simp add: bs_getRowFromRange_def Let_def leveldb_store_def sk)
  have rop: "row_of_pair X (e\<lparr>seekKey := q\<rparr>) = row_of_pair X e" for q
    by (rule row_of_pair_same) (simp add: same_rows_def)
  show ?thesis
  proof (cases rule: scan_one [OF st, of "bs_startTS e" "isolationLevel e" "resolvedLocks e" k0 "EndKey ?rng"])
    case 1
    then have "xs = []"
      unfolding xs by simp
    then show ?thesis
      using 1(2) by (intro exI [of _ "Inr None"] exI [of _ k0]) (simp add: get bs_take_pair_def)
  next
    case (2 er k ks1 ks2)
    note xs2 = xs [unfolded 2(2)]
    show ?thesis
      unfolding xs2 using 2(3) by (intro exI [of _ "Inl er"] exI [of _ k0]) (simp add: get bs_take_pair_def)
  next
    case (3 k v ks1 ks2)
    have "k \<in> set (range_keys a k0 (EndKey ?rng))"
      unfolding 3(1) by simp
    then have "\<not> EndKey ?rng \<le> k"
      using range_keys_props(2) [OF wfa, of k0 "EndKey ?rng"] ek by (simp add: not_le)
    then have take: "bs_getRowFromRange X (leveldb_store E) s e ?rng = map_option (\<lambda>r. (r, e\<lparr>seekKey := Some (PrefixNext k)\<rparr>)) (row_of_pair X e k v)"
      using 3(3) d by (simp add: get bs_take_pair_def rop Let_def)
    obtain r where r: "row_of_pair X e k v = Some r"
      using decodes_Cons [OF dec [unfolded xs 3(2)]] by blast
    obtain n where "\<forall>k \<in> set (range_keys a k0 (EndKey ?rng)). length k = n"
      using even_keys_at [OF wfa len c ge] by blast
    then have "range_keys a (PrefixNext k) (EndKey ?rng) = ks2"
      by (rule range_keys_after [OF wfa _ 3(1)])
    moreover have "StartKey ?rng \<le> PrefixNext k"
      using ge range_keys_props(2) [OF wfa, of k0 "EndKey ?rng"] PrefixNext_greater [of k] \<open>k \<in> set (range_keys a k0 (EndKey ?rng))\<close>
      by (auto dest: less_imp_le intro: order_trans)
    ultimately show ?thesis
      unfolding xs [unfolded 3(2)] using take r by (intro exI [of _ r] exI [of _ "PrefixNext k"]) simp
  qed
qed

lemma bs_reads_Cons: "c < length rngs \<Longrightarrow> bs_reads E s a e (drop c rngs) =
    range_reads E s a (bs_startTS e) (isolationLevel e) (resolvedLocks e) (rngs ! c) @ bs_reads E s a e (drop (Suc c) rngs)"
  by (simp add: bs_reads_def Cons_nth_drop_Suc [symmetric])

lemma decodes_append: "decodes f (xs @ ys) \<longleftrightarrow> decodes f xs \<and> decodes f ys"
  by (auto simp: decodes_def)

text \<open>A turn that ends the current range goes on with the next one.\<close>

lemma at_reads_next_range:
  assumes "bs_wf e" and "seekKey e' = None" and "e' = e\<lparr>seekKey := None, cursor := Suc (cursor e)\<rparr>"
  shows "at_reads E s a e' (bs_reads E s a e (drop (Suc (cursor e)) (kvRanges e))) \<and> same_rows e e'"
proof -
  have "bs_reads E s a e' = bs_reads E s a e"
    by (rule bs_reads_cong) (simp_all add: assms(3))
  then show ?thesis
    using assms by (simp add: at_reads_def bs_wf_def same_rows_def)
qed

lemma range_turn:
  assumes st: "store_env E" "abs_rel E (EDB s) a" and len: "even_keys a (kvRanges e)"
    and at: "at_reads E s a e xs" and dec: "decodes (row_of_pair X e) xs"
    and c: "cursor e < length (kvRanges e)" "\<not> IsPoint (kvRanges e ! cursor e)"
    and IH: "\<And>e'. e' = e\<lparr>seekKey := None, cursor := Suc (cursor e)\<rparr> \<Longrightarrow>
      scan_step X E s a e' (bs_reads E s a e (drop (Suc (cursor e)) (kvRanges e))) (bs_Next_loop X (leveldb_store E) s e')"
  shows "scan_step X E s a e xs (bs_Next_loop X (leveldb_store E) s e)"
proof -
  let ?c = "cursor e" and ?rng = "kvRanges e ! cursor e" and ?M = "leveldb_store E"
  let ?key = "key_reads E s (bs_startTS e) (isolationLevel e) (resolvedLocks e)"
  define k0 where "k0 = (case seekKey e of Some k \<Rightarrow> k | None \<Rightarrow> StartKey ?rng)"
  define here rest where "here = concat (map ?key (range_keys a k0 (EndKey ?rng)))" and "rest = bs_reads E s a e (drop (Suc ?c) (kvRanges e))"
  have wf: "bs_wf e"
    using at by (simp add: at_reads_def)
  have ge: "StartKey ?rng \<le> k0"
    using at by (simp add: at_reads_def k0_def split: option.splits)
  have xs: "xs = here @ rest"
    using at c bs_reads_Cons [OF c(1), of E s a e] by (simp add: at_reads_def here_def rest_def k0_def range_reads_def split: option.splits)
  obtain r k1 where g: "bs_getRowFromRange X ?M s e ?rng = Some (r, e\<lparr>seekKey := Some k1\<rparr>)"
    and h: "case here of [] \<Rightarrow> r = Inr None | Inl er # _ \<Rightarrow> r = Inl er
      | Inr (k, v) # ys \<Rightarrow> row_of_pair X e k v = Some r \<and> StartKey ?rng \<le> k1 \<and> ys = concat (map ?key (range_keys a k1 (EndKey ?rng)))"
    using bs_getRowFromRange_step [OF st len wf c ge k0_def here_def] dec unfolding xs decodes_append by blast
  note loop = bs_Next_loop.simps [of X ?M s e]
  have same: "same_rows e (e\<lparr>seekKey := q\<rparr>)" for q
    by (simp add: same_rows_def)
  show ?thesis
  proof (cases here)
    case Nil
    let ?e' = "e\<lparr>seekKey := None, cursor := Suc ?c\<rparr>"
    have "bs_Next_loop X ?M s e = bs_Next_loop X ?M s ?e'"
      using g h c Nil by (simp add: loop)
    then show ?thesis
      using IH [OF refl] scan_step_same [of e ?e'] xs Nil by (simp add: rest_def same_rows_def)
  next
    case (Cons x ys)
    show ?thesis
    proof (cases x)
      case (Inl er)
      then have "bs_Next_loop X ?M s e = Some (Inl er, e\<lparr>seekKey := Some k1\<rparr>)"
        using g h c Cons by (simp add: loop)
      then show ?thesis
        using xs Cons Inl same by (simp add: scan_step_def)
    next
      case (Inr kv)
      obtain k v where kv: "kv = (k, v)"
        by (cases kv)
      have r: "row_of_pair X e k v = Some r" and k1: "StartKey ?rng \<le> k1" and ys: "ys = concat (map ?key (range_keys a k1 (EndKey ?rng)))"
        using h Cons Inr kv by simp_all
      consider er where "r = Inl er" | row where "r = Inr (Some row)"
        using decodes_Cons [of "row_of_pair X e" k v "ys @ rest"] dec xs Cons Inr kv r by auto
      then show ?thesis
      proof cases
        case 1
        then have "bs_Next_loop X ?M s e = Some (Inl er, e\<lparr>seekKey := Some k1\<rparr>)"
          using g c by (simp add: loop)
        then show ?thesis
          using xs Cons Inr kv same r 1 by (simp add: scan_step_def)
      next
        case 2
        obtain cs where cs: "bs_count ?c (e\<lparr>seekKey := Some k1\<rparr>) = Some (e\<lparr>seekKey := Some k1, counts := cs\<rparr>)" "bs_wf (e\<lparr>seekKey := Some k1, counts := cs\<rparr>)"
          using bs_count_ok [of "e\<lparr>seekKey := Some k1\<rparr>" ?c] wf c(1) by (auto simp: bs_wf_def)
        let ?e' = "e\<lparr>seekKey := Some k1, counts := cs\<rparr>"
        have "bs_Next_loop X ?M s e = Some (Inr (Some row), ?e')"
          using g c 2 cs(1) by (simp add: loop)
        moreover have "at_reads E s a ?e' (ys @ rest)"
          using cs(2) c ys k1 bs_reads_cong [of ?e' e E s a] by (simp add: at_reads_def rest_def)
        ultimately show ?thesis
          using xs Cons Inr kv r 2 by (simp add: scan_step_def same_rows_def)
      qed
    qed
  qed
qed

lemma point_turn:
  assumes wf: "bs_wf e" and sk: "seekKey e = None" and dec: "decodes (row_of_pair X e) xs"
    and c: "cursor e < length (kvRanges e)" "IsPoint (kvRanges e ! cursor e)"
    and xs: "xs = range_reads E s a (bs_startTS e) (isolationLevel e) (resolvedLocks e) (kvRanges e ! cursor e) @ bs_reads E s a e (drop (Suc (cursor e)) (kvRanges e))"
    and IH: "\<And>e'. e' = e\<lparr>seekKey := None, cursor := Suc (cursor e)\<rparr> \<Longrightarrow>
      scan_step X E s a e' (bs_reads E s a e (drop (Suc (cursor e)) (kvRanges e))) (bs_Next_loop X (leveldb_store E) s e')"
  shows "scan_step X E s a e xs (bs_Next_loop X (leveldb_store E) s e)"
proof -
  let ?c = "cursor e" and ?rng = "kvRanges e ! cursor e" and ?M = "leveldb_store E"
  define rest where "rest = bs_reads E s a e (drop (Suc ?c) (kvRanges e))"
  let ?e' = "e\<lparr>cursor := Suc ?c\<rparr>"
  have e': "e\<lparr>seekKey := None, cursor := Suc ?c\<rparr> = ?e'"
    using sk by simp
  have here: "range_reads E s a (bs_startTS e) (isolationLevel e) (resolvedLocks e) ?rng =
      (case Get E s (StartKey ?rng) (bs_startTS e) (isolationLevel e) (resolvedLocks e) of
         Inl er \<Rightarrow> [Inl er] | Inr (Some (b # bs)) \<Rightarrow> [Inr (StartKey ?rng, b # bs)] | _ \<Rightarrow> [])"
    using c(2) by (auto simp: range_reads_def key_reads_def split: sum.splits option.splits list.splits)
  note loop = bs_Next_loop.simps [of X ?M s e]
  have get: "bs_getRowFromPoint X ?M s e ?rng =
      (case Get E s (StartKey ?rng) (bs_startTS e) (isolationLevel e) (resolvedLocks e) of
         Inl er \<Rightarrow> Some (Inl er) | Inr (Some (b # bs)) \<Rightarrow> row_of_pair X e (StartKey ?rng) (b # bs) | _ \<Rightarrow> Some (Inr None))"
    by (auto simp: bs_getRowFromPoint_def leveldb_store_def split: sum.splits option.splits list.splits)
  consider er where "Get E s (StartKey ?rng) (bs_startTS e) (isolationLevel e) (resolvedLocks e) = Inl er"
    | "Get E s (StartKey ?rng) (bs_startTS e) (isolationLevel e) (resolvedLocks e) = Inr None \<or> Get E s (StartKey ?rng) (bs_startTS e) (isolationLevel e) (resolvedLocks e) = Inr (Some [])"
    | b bs where "Get E s (StartKey ?rng) (bs_startTS e) (isolationLevel e) (resolvedLocks e) = Inr (Some (b # bs))"
    by (metis list.exhaust option.exhaust sum.exhaust)
  then show ?thesis
  proof cases
    case 1
    then have "bs_Next_loop X ?M s e = Some (Inl er, e)"
      using c get by (simp add: loop)
    then show ?thesis
      using 1 xs here by (simp add: scan_step_def same_rows_def)
  next
    case 2
    then have "range_reads E s a (bs_startTS e) (isolationLevel e) (resolvedLocks e) ?rng = []" "bs_getRowFromPoint X ?M s e ?rng = Some (Inr None)"
      unfolding here get by auto
    moreover from this have "bs_Next_loop X ?M s e = bs_Next_loop X ?M s ?e'"
      using c by (simp add: loop)
    ultimately show ?thesis
      using IH [OF refl] scan_step_same [of e ?e'] xs unfolding e' by (simp add: same_rows_def)
  next
    case 3
    let ?k = "StartKey ?rng"
    have x: "xs = Inr (?k, b # bs) # rest"
      using xs 3 here by (simp add: rest_def)
    consider er where "row_of_pair X e ?k (b # bs) = Some (Inl er)" | row where "row_of_pair X e ?k (b # bs) = Some (Inr (Some row))"
      using decodes_Cons [of "row_of_pair X e" ?k "b # bs" rest] dec x by auto
    then show ?thesis
    proof cases
      case r: 1
      then have "bs_Next_loop X ?M s e = Some (Inl er, e)"
        using c get 3 by (simp add: loop)
      then show ?thesis
        using x r by (simp add: scan_step_def same_rows_def)
    next
      case r: 2
      obtain cs where cs: "bs_count ?c ?e' = Some (?e'\<lparr>counts := cs\<rparr>)" "bs_wf (?e'\<lparr>counts := cs\<rparr>)"
        using bs_count_ok [of ?e' ?c] wf c(1) by (auto simp: bs_wf_def)
      have "bs_Next_loop X ?M s e = Some (Inr (Some row), ?e'\<lparr>counts := cs\<rparr>)"
        using c get 3 r cs(1) by (simp add: loop)
      moreover have "at_reads E s a (?e'\<lparr>counts := cs\<rparr>) rest"
        using cs(2) sk bs_reads_cong [of "?e'\<lparr>counts := cs\<rparr>" e E s a] by (simp add: at_reads_def rest_def)
      ultimately show ?thesis
        using x r by (simp add: scan_step_def same_rows_def)
    qed
  qed
qed

lemma bs_loop_step:
  assumes st: "store_env E" "abs_rel E (EDB s) a"
  shows "even_keys a (kvRanges e) \<Longrightarrow> at_reads E s a e xs \<Longrightarrow> decodes (row_of_pair X e) xs \<Longrightarrow> scan_step X E s a e xs (bs_Next_loop X (leveldb_store E) s e)"
proof (induction "length (kvRanges e) - cursor e" arbitrary: e xs rule: less_induct)
  case less
  show ?case
  proof (cases "cursor e < length (kvRanges e)")
    case False
    then have "xs = []"
      using less.prems(2) by (auto simp: at_reads_def bs_reads_def split: option.splits)
    then show ?thesis
      using False by (subst bs_Next_loop.simps) (simp add: scan_step_def same_rows_def)
  next
    case True
    have wf: "bs_wf e"
      using less.prems(2) by (simp add: at_reads_def)
    define rest where "rest = bs_reads E s a e (drop (Suc (cursor e)) (kvRanges e))"
    have x: "\<exists>here. xs = here @ rest"
      using less.prems(2) bs_reads_Cons [OF True, of E s a e] by (auto simp: at_reads_def rest_def split: option.splits)
    have IH: "scan_step X E s a e' rest (bs_Next_loop X (leveldb_store E) s e')"
      if e': "e' = e\<lparr>seekKey := None, cursor := Suc (cursor e)\<rparr>" for e'
    proof -
      have n: "at_reads E s a e' rest \<and> same_rows e e'"
        using at_reads_next_range [OF wf _ e', of E s a] by (simp add: e' rest_def)
      have "decodes (row_of_pair X e') rest"
        using less.prems(3) x row_of_pair_same [of e e' X] n by (auto simp: decodes_append)
      moreover have "length (kvRanges e') - cursor e' < length (kvRanges e) - cursor e"
        using True by (simp add: e')
      ultimately show ?thesis
        using less.hyps [of e'] n less.prems(1) by (simp add: e')
    qed
    show ?thesis
    proof (cases "IsPoint (kvRanges e ! cursor e)")
      case False
      show ?thesis
        by (rule range_turn [OF st less.prems True False]) (use IH in \<open>simp add: rest_def\<close>)
    next
      case p: True
      then have sk: "seekKey e = None" and "xs = bs_reads E s a e (drop (cursor e) (kvRanges e))"
        using less.prems(2) by (auto simp: at_reads_def split: option.splits)
      then show ?thesis
        by (intro point_turn [OF wf sk less.prems(3) True p]) (use IH bs_reads_Cons [OF True, of E s a e] in \<open>simp_all add: rest_def\<close>)
    qed
  qed
qed

lemma bs_Next_gives:
  assumes "store_env E" "abs_rel E (EDB s) a"
  shows "even_keys a (kvRanges e) \<Longrightarrow> at_reads E s a e xs \<Longrightarrow> decodes (row_of_pair X e) xs \<Longrightarrow>
    \<exists>e'. gives (bs_Next X (leveldb_store E) s) e (fst (emit (row_of_pair X e) xs)) (snd (emit (row_of_pair X e) xs)) e'"
proof (induction xs arbitrary: e)
  case Nil
  obtain e1 where "bs_Next_loop X (leveldb_store E) s e = Some (Inr None, e1)"
    using bs_loop_step [OF assms Nil] by (auto simp: scan_step_def)
  then show ?case
    by (auto simp: bs_Next_def intro!: exI gives_end)
next
  case (Cons x xs)
  note step = bs_loop_step [OF assms Cons.prems]
  show ?case
  proof (cases x)
    case (Inl er)
    then obtain e1 where "bs_Next_loop X (leveldb_store E) s e = Some (Inl er, e1)"
      using step by (auto simp: scan_step_def)
    then show ?thesis
      using Inl by (auto simp: bs_Next_def intro!: exI gives_error)
  next
    case (Inr kv)
    obtain k v where kv: "x = Inr (k, v)"
      using Inr by (cases kv) simp
    consider er where "row_of_pair X e k v = Some (Inl er)" | row where "row_of_pair X e k v = Some (Inr (Some row))"
      using decodes_Cons [of "row_of_pair X e" k v xs] Cons.prems(3) kv by auto
    then show ?thesis
    proof cases
      case 1
      then obtain e1 where "bs_Next_loop X (leveldb_store E) s e = Some (Inl er, e1)"
        using step kv by (auto simp: scan_step_def)
      then show ?thesis
        using 1 kv by (auto simp: bs_Next_def intro!: exI gives_error)
    next
      case 2
      then obtain e1 where e1: "bs_Next_loop X (leveldb_store E) s e = Some (Inr (Some row), e1)" "same_rows e e1" "at_reads E s a e1 xs"
        using step kv by (auto simp: scan_step_def)
      let ?e = "e1\<lparr>bs_execDetail := detail_uFIDelate (bs_execDetail e1) (Inr (Some row))\<rparr>"
      have same: "same_rows e ?e"
        using e1(2) by (simp add: same_rows_def)
      have "at_reads E s a ?e xs"
        using e1(3) bs_reads_cong [of ?e e1 E s a] by (simp add: at_reads_def bs_wf_def cong: option.case_cong)
      moreover have "decodes (row_of_pair X ?e) xs"
        using Cons.prems(3) row_of_pair_same [OF same, of X] by (simp add: decodes_def)
      ultimately obtain e' where "gives (bs_Next X (leveldb_store E) s) ?e (fst (emit (row_of_pair X e) xs)) (snd (emit (row_of_pair X e) xs)) e'"
        using Cons.IH [of ?e] Cons.prems(1) same row_of_pair_same [OF same, of X] by (auto simp: same_rows_def)
      moreover have "bs_Next X (leveldb_store E) s e = Some (Inr (Some row), ?e)"
        using e1(1) by (simp add: bs_Next_def)
      ultimately show ?thesis
        using gives_row [of "bs_Next X (leveldb_store E) s" e row ?e] 2 kv by (auto split: prod.splits intro: exI [of _ e'])
    qed
  qed
qed

end
