(* ===== verification/Coproc_Rows.thy ===== *)
theory Coproc_Rows
  imports Coproc_Facts
begin

text \<open>Selection, limit and top-n on the rows below them, and the chunks of a response.\<close>

lemma gives_eq: "gives nxt t rs out s' \<Longrightarrow> nxt s = nxt t \<Longrightarrow> gives nxt s rs out s'"
  by (cases rule: gives.cases) (auto intro: gives.intros)

section \<open>Decoded values\<close>

text \<open>Two lists of values that differ at most where the columns of the expressions are decoded to.\<close>

definition agree :: "nat list \<Rightarrow> 'd list \<Rightarrow> 'd list \<Rightarrow> bool" where
  "agree offsets ev ev' = (length ev' = length ev \<and> (\<forall>i < length ev. i \<notin> set offsets \<longrightarrow> ev' ! i = ev ! i))"

lemma agree_refl: "agree offsets ev ev"
  by (simp add: agree_def)

lemma agree_set:
  assumes "agree (off # offsets) ev ev'" and "off < length ev"
  shows "agree offsets (ev[off := c]) (ev'[off := c])"
  unfolding agree_def
proof (intro conjI allI impI)
  have l: "length ev' = length ev"
    using assms(1) by (simp add: agree_def)
  then show "length (ev'[off := c]) = length (ev[off := c])"
    by simp
  fix i assume "i < length (ev[off := c])" "i \<notin> set offsets"
  then show "ev'[off := c] ! i = ev[off := c] ! i"
    using assms l by (cases "i = off") (simp_all add: agree_def)
qed

lemma decode_agree:
  "agree offsets ev ev' \<Longrightarrow> decodeRelatedDeferredCausetVals X fts offsets val ev = Some (er, ev1) \<Longrightarrow>
    \<exists>ev2. decodeRelatedDeferredCausetVals X fts offsets val ev' = Some (er, ev2) \<and> (er = None \<longrightarrow> ev2 = ev1)"
proof (induction offsets arbitrary: ev ev')
  case Nil
  then show ?case
    by (auto simp: agree_def intro: nth_equalityI)
next
  case (Cons off offsets)
  obtain c er0 where d: "decode_value X fts off val = Some (c, er0)" and l: "off < length ev"
    using Cons.prems(2) by (auto simp: bind_eq_Some_conv set_cell_def split: if_splits)
  have l': "off < length ev'"
    using l Cons.prems(1) by (simp add: agree_def)
  show ?case
    using Cons.IH [OF agree_set [OF Cons.prems(1) l], of c] Cons.prems(2) d l l' by (cases er0) (auto simp: set_cell_def)
qed

lemma decode_keeps: "decodeRelatedDeferredCausetVals X fts offsets val ev = Some (er, ev1) \<Longrightarrow> agree offsets ev ev1"
proof (induction offsets arbitrary: ev)
  case (Cons off offsets)
  obtain c er0 where d: "decode_value X fts off val = Some (c, er0)" and l: "off < length ev"
    using Cons.prems by (auto simp: bind_eq_Some_conv set_cell_def split: if_splits)
  have "agree (off # offsets) ev (ev[off := c])"
    by (simp add: agree_def nth_list_update)
  then show ?case
    using Cons.IH [of "ev[off := c]"] Cons.prems d l by (cases er0) (auto simp: set_cell_def agree_def)
qed (simp add: agree_refl)

lemma agree_trans: "agree offsets a b \<Longrightarrow> agree offsets b c \<Longrightarrow> agree offsets a c"
  by (simp add: agree_def)

section \<open>Selection\<close>

definition sel_like :: "('d, 'x, 'ft) selectionExec \<Rightarrow> ('d, 'x, 'ft) selectionExec \<Rightarrow> bool" where
  "sel_like e e' =
     (conditions e' = conditions e \<and> relatedDefCausOffsets e' = relatedDefCausOffsets e \<and> sel_fieldTps e' = sel_fieldTps e \<and>
      agree (relatedDefCausOffsets e) (sel_event e) (sel_event e'))"

text \<open>What the conditions say of a row, decoded into the values the executor starts with.\<close>

definition row_selected :: "('d, 'x, 'ft, 'ci) ext \<Rightarrow> ('d, 'x, 'ft) selectionExec \<Rightarrow> row \<Rightarrow> (err + bool) option" where
  "row_selected X e val = map_option fst (sel_match X e val)"

lemma sel_match_like:
  assumes "sel_like e0 e" and "row_selected X e0 val = Some m"
  shows "\<exists>e'. sel_match X e val = Some (m, e') \<and> sel_like e0 e'"
proof -
  obtain er ev1 where d: "decodeRelatedDeferredCausetVals X (sel_fieldTps e0) (relatedDefCausOffsets e0) val (sel_event e0) = Some (er, ev1)"
    and m: "m = (case er of Some er \<Rightarrow> Inl er | None \<Rightarrow> evalBool X (conditions e0) ev1)"
    using assms(2) by (auto simp: row_selected_def sel_match_def Let_def bind_eq_Some_conv cong: option.case_cong)
  obtain ev2 where d2: "decodeRelatedDeferredCausetVals X (sel_fieldTps e) (relatedDefCausOffsets e) val (sel_event e) = Some (er, ev2)" "er = None \<longrightarrow> ev2 = ev1"
    using decode_agree [OF _ d, of "sel_event e"] assms(1) by (auto simp: sel_like_def)
  have "agree (relatedDefCausOffsets e) (sel_event e) ev2"
    using decode_keeps [OF d2(1)] .
  then have "sel_like e0 (e\<lparr>sel_event := ev2\<rparr>)"
    using assms(1) agree_trans by (auto simp: sel_like_def)
  then show ?thesis
    using d2 m assms(1) by (cases er) (auto simp: sel_match_def Let_def sel_like_def)
qed

text \<open>The rows selected, up to the first error.\<close>

fun sel_rows :: "(row \<Rightarrow> err + bool) \<Rightarrow> row list \<Rightarrow> err option \<Rightarrow> row list \<times> err option" where
  "sel_rows g [] out = ([], out)"
| "sel_rows g (r # rs) out =
     (case g r of
        Inl er \<Rightarrow> ([], Some er)
      | Inr b \<Rightarrow> (case sel_rows g rs out of (qs, out') \<Rightarrow> (if b then r # qs else qs, out')))"

lemma sel_rows_filter: "\<forall>r \<in> set rs. g r = Inr (P r) \<Longrightarrow> sel_rows g rs out = (filter P rs, out)"
  by (induction rs) auto

lemma sel_gives:
  assumes "gives src s rs out s'" and "sel_like e0 e" and "\<forall>r \<in> set rs. row_selected X e0 r = Some (g r)"
  shows "\<exists>es'. gives (sel_Next src X) (e, s) (fst (sel_rows g rs out)) (snd (sel_rows g rs out)) es'"
  using assms
proof (induction arbitrary: e rule: gives.induct)
  case (gives_end s s')
  then show ?case
    by (auto simp: sel_Next_def sel_Next_loop.simps [of src X "(e, s)"] intro!: exI gives.gives_end)
next
  case (gives_error s er s')
  then show ?case
    by (auto simp: sel_Next_def sel_Next_loop.simps [of src X "(e, s)"] intro!: exI gives.gives_error)
next
  case (gives_row s r s1 rs out s')
  obtain e1 where e1: "sel_match X e r = Some (g r, e1)" "sel_like e0 e1"
    using sel_match_like [OF gives_row.prems(1), of X r "g r"] gives_row.prems(2) by auto
  have loop: "sel_Next_loop src X (e, s) =
      (case g r of Inl er \<Rightarrow> Some (Inl er, e1, s1) | Inr b \<Rightarrow> if b then Some (Inr (Some r), e1, s1) else sel_Next_loop src X (e1, s1))"
    using gives_row.hyps(1) e1(1) by (simp add: sel_Next_loop.simps [of src X "(e, s)"])
  show ?case
  proof (cases "g r")
    case (Inl er)
    then show ?thesis
      using loop by (auto simp: sel_Next_def intro!: exI gives.gives_error)
  next
    case (Inr b)
    show ?thesis
    proof (cases b)
      case True
      let ?e = "e1\<lparr>sel_execDetail := detail_uFIDelate (sel_execDetail e1) (Inr (Some r))\<rparr>"
      have "sel_like e0 ?e"
        using e1(2) by (simp add: sel_like_def)
      then obtain es' where "gives (sel_Next src X) (?e, s1) (fst (sel_rows g rs out)) (snd (sel_rows g rs out)) es'"
        using gives_row.IH [of ?e] gives_row.prems(2) by auto
      moreover have "sel_Next src X (e, s) = Some (Inr (Some r), ?e, s1)"
        using loop Inr True by (simp add: sel_Next_def)
      ultimately have "gives (sel_Next src X) (e, s) (r # fst (sel_rows g rs out)) (snd (sel_rows g rs out)) es'"
        by (intro gives.gives_row)
      moreover have "sel_rows g (r # rs) out = (r # fst (sel_rows g rs out), snd (sel_rows g rs out))"
        using Inr True by (simp add: case_prod_beta)
      ultimately show ?thesis
        by (intro exI [of _ es']) simp
    next
      case False
      obtain es' where "gives (sel_Next src X) (e1, s1) (fst (sel_rows g rs out)) (snd (sel_rows g rs out)) es'"
        using gives_row.IH [OF e1(2)] gives_row.prems(2) by auto
      moreover have "sel_Next src X (e, s) = sel_Next src X (e1, s1)"
        using loop Inr False by (simp add: sel_Next_def)
      ultimately have "gives (sel_Next src X) (e, s) (fst (sel_rows g rs out)) (snd (sel_rows g rs out)) es'"
        by (rule gives_eq)
      moreover have "sel_rows g (r # rs) out = sel_rows g rs out"
        using Inr False by (simp add: case_prod_beta)
      ultimately show ?thesis
        by (intro exI [of _ es']) simp
    qed
  qed
qed

section \<open>Limit\<close>

lemma lim_gives:
  assumes "gives src s rs out s'" and "lim_cursor e \<le> limit e" and "n = unat (limit e) - unat (lim_cursor e)"
  shows "\<exists>es'. gives (lim_Next src) (e, s) (take n rs) (if n \<le> length rs then None else out) es'"
proof (cases "n = 0")
  case True
  then have "limit e \<le> lim_cursor e"
    using assms(3) by (simp add: word_le_nat_alt)
  then show ?thesis
    using True by (auto simp: lim_Next_def lim_Next_body_def intro!: exI gives.gives_end)
next
  case False
  show ?thesis
    using assms(1) False assms(2,3)
  proof (induction arbitrary: e n rule: gives.induct)
    case (gives_row s r s1 rs out s')
    have lt: "lim_cursor e < limit e"
      using gives_row.prems by (simp add: word_less_nat_alt)
    have u: "unat (lim_cursor e + 1) = Suc (unat (lim_cursor e))"
      using lt unsigned_less [of "limit e", where 'a = nat] by (simp add: unat_word_ariths word_less_nat_alt)
    let ?e = "e\<lparr>lim_cursor := lim_cursor e + 1, lim_execDetail := detail_uFIDelate (lim_execDetail e) (Inr (Some r))\<rparr>"
    have step: "lim_Next src (e, s) = Some (Inr (Some r), ?e, s1)"
      using gives_row.hyps(1) lt by (simp add: lim_Next_def lim_Next_body_def)
    have "\<exists>es'. gives (lim_Next src) (?e, s1) (take (n - 1) rs) (if n - 1 \<le> length rs then None else out) es'"
    proof (cases "n - 1 = 0")
      case True
      then have "limit ?e \<le> lim_cursor ?e"
        using gives_row.prems u by (simp add: word_le_nat_alt)
      then show ?thesis
        using True by (auto simp: lim_Next_def lim_Next_body_def intro!: exI gives.gives_end)
    next
      case False
      have "lim_cursor ?e \<le> limit ?e" "n - 1 = unat (limit ?e) - unat (lim_cursor ?e)"
        using gives_row.prems u lt by (simp_all add: word_le_nat_alt word_less_nat_alt)
      then show ?thesis
        using gives_row.IH [OF False] by blast
    qed
    then obtain es' where "gives (lim_Next src) (?e, s1) (take (n - 1) rs) (if n - 1 \<le> length rs then None else out) es'"
      by blast
    from gives.gives_row [OF step this] show ?case
      using gives_row.prems(1) by (intro exI [of _ es']) (cases n; simp split: if_splits)
  qed (auto simp: lim_Next_def lim_Next_body_def not_le word_less_nat_alt intro!: exI gives.intros)
qed

section \<open>Top-n\<close>

definition top_like :: "('d, 'x, 'ft) topNExec \<Rightarrow> ('d, 'x, 'ft) topNExec \<Rightarrow> bool" where
  "top_like e e' =
     (orderByExprs e' = orderByExprs e \<and> top_relatedDefCausOffsets e' = top_relatedDefCausOffsets e \<and> top_fieldTps e' = top_fieldTps e \<and>
      top_cursor e' = top_cursor e \<and> executed e' = executed e \<and> agree (top_relatedDefCausOffsets e) (top_event e) (top_event e'))"

text \<open>The key of a row.\<close>

definition row_key :: "('d, 'x, 'ft, 'ci) ext \<Rightarrow> ('d, 'x, 'ft) topNExec \<Rightarrow> row \<Rightarrow> (err + 'd list) option" where
  "row_key X e val =
     map_option (\<lambda>(er, event). case er of Some er \<Rightarrow> Inl er | None \<Rightarrow> eval_key X (orderByExprs e) event)
       (decodeRelatedDeferredCausetVals X (top_fieldTps e) (top_relatedDefCausOffsets e) val (top_event e))"

lemma evalTopN_like:
  assumes l: "top_like e0 e" and k: "row_key X e0 val = Some m"
  shows "\<exists>e'. top_like e0 e' \<and> top_execDetail e' = top_execDetail e \<and>
    (case m of
       Inl er \<Rightarrow> evalTopN X e val = Some (Some er, e')
     | Inr ks \<Rightarrow> evalTopN X e val = Some (t_err (top_heap e'), e') \<and> top_heap e' = snd (tryToAddRow (CompareCauset X) \<lparr>key = ks, data = val\<rparr> (top_heap e)))"
proof -
  obtain er ev1 where d: "decodeRelatedDeferredCausetVals X (top_fieldTps e0) (top_relatedDefCausOffsets e0) val (top_event e0) = Some (er, ev1)"
    and m: "m = (case er of Some er \<Rightarrow> Inl er | None \<Rightarrow> eval_key X (orderByExprs e0) ev1)"
    using k by (auto simp: row_key_def)
  obtain ev2 where d2: "decodeRelatedDeferredCausetVals X (top_fieldTps e) (top_relatedDefCausOffsets e) val (top_event e) = Some (er, ev2)" "er = None \<longrightarrow> ev2 = ev1"
    using decode_agree [OF _ d, of "top_event e"] l by (auto simp: top_like_def)
  have l2: "top_like e0 (e\<lparr>top_event := ev2\<rparr>)"
    using l decode_keeps [OF d2(1)] agree_trans by (auto simp: top_like_def)
  show ?thesis
  proof (cases "er = None \<and> (\<exists>ks. m = Inr ks)")
    case True
    then obtain ks where ks: "er = None" "m = Inr ks"
      by blast
    let ?h = "snd (tryToAddRow (CompareCauset X) \<lparr>key = ks, data = val\<rparr> (top_heap e))"
    show ?thesis
      using l l2 ks d2 m by (intro exI [of _ "e\<lparr>top_event := ev2, top_heap := ?h\<rparr>"]) (simp add: evalTopN_def top_like_def Let_def)
  next
    case False
    then have "\<exists>er'. m = Inl er'"
      using m by (cases er; metis option.simps(5) sum.exhaust)
    then obtain er' where "m = Inl er'"
      by blast
    then show ?thesis
      using l l2 d2 m by (intro exI [of _ "e\<lparr>top_event := ev2\<rparr>"]) (cases er; simp add: evalTopN_def top_like_def)
  qed
qed

text \<open>The first error of the rows below or of their keys.\<close>

fun top_error :: "(row \<Rightarrow> err + 'd list) \<Rightarrow> row list \<Rightarrow> err option \<Rightarrow> err option" where
  "top_error k [] out = out"
| "top_error k (r # rs) out = (case k r of Inl er \<Rightarrow> Some er | Inr ks \<Rightarrow> top_error k rs out)"

fun keyed :: "(row \<Rightarrow> err + 'd list) \<Rightarrow> row list \<Rightarrow> 'd sortRow list" where
  "keyed k [] = []"
| "keyed k (r # rs) = (case k r of Inl er \<Rightarrow> [] | Inr ks \<Rightarrow> \<lparr>key = ks, data = r\<rparr> # keyed k rs)"

lemma top_fill_spec:
  assumes "gives src s rs out s'" and c: "compares (CompareCauset X) good"
    and "top_like e0 e" and "\<forall>r \<in> set rs. row_key X e0 r = Some (k r)" and "list_all (row_good good items) (keyed k rs)"
    and "topn_inv (CompareCauset X) good items n seen (top_heap e)"
  shows "\<exists>e' s1. top_fill src X (e, s) = Some (top_error k rs out, e', s1) \<and> top_like e0 e' \<and> top_execDetail e' = top_execDetail e \<and>
    (top_error k rs out = None \<longrightarrow> topn_inv (CompareCauset X) good items n (seen + mset (keyed k rs)) (top_heap e'))"
  using assms(1,3-)
proof (induction arbitrary: e seen rule: gives.induct)
  case (gives_row s r s1 rs out s')
  obtain e1 where e1: "top_like e0 e1" "top_execDetail e1 = top_execDetail e"
    and m: "case k r of
       Inl er \<Rightarrow> evalTopN X e r = Some (Some er, e1)
     | Inr ks \<Rightarrow> evalTopN X e r = Some (t_err (top_heap e1), e1) \<and> top_heap e1 = snd (tryToAddRow (CompareCauset X) \<lparr>key = ks, data = r\<rparr> (top_heap e))"
    using evalTopN_like [OF gives_row.prems(1), of X r "k r"] gives_row.prems(2) by auto
  note fill = top_fill.simps [of src X "(e, s)"]
  show ?case
  proof (cases "k r")
    case (Inl er)
    then show ?thesis
      using gives_row.hyps(1) m e1 by (simp add: fill)
  next
    case (Inr ks)
    then have g: "row_good good items \<lparr>key = ks, data = r\<rparr>" "list_all (row_good good items) (keyed k rs)"
      using gives_row.prems(3) by simp_all
    have i: "topn_inv (CompareCauset X) good items n (add_mset \<lparr>key = ks, data = r\<rparr> seen) (top_heap e1)"
      using tryToAddRow_spec [OF c gives_row.prems(4) g(1)] m Inr by simp
    then have "t_err (top_heap e1) = None"
      by (simp add: topn_inv_def)
    then have "top_fill src X (e, s) = top_fill src X (e1, s1)"
      using gives_row.hyps(1) m Inr by (simp add: fill)
    then show ?thesis
      using gives_row.IH [OF e1(1) _ g(2) i] gives_row.prems(2) e1(2) Inr by simp
  qed
qed (auto simp: top_fill.simps [of src X "(e, s)" for e s])

lemma top_rest_gives:
  assumes "executed e"
  shows "\<exists>es'. gives (top_Next srt src X) (e, s) (map data (drop (top_cursor e) (rows (top_heap e)))) None es'"
  using assms
proof (induction "length (rows (top_heap e)) - top_cursor e" arbitrary: e)
  case 0
  then have "top_Next srt src X (e, s) = Some (Inr None, e\<lparr>top_execDetail := detail_uFIDelate (top_execDetail e) (Inr None)\<rparr>, s)"
    by (simp add: top_Next_def top_Next_body_def)
  then show ?case
    using 0 gives.gives_end by fastforce
next
  case (Suc n)
  then have lt: "top_cursor e < length (rows (top_heap e))"
    by simp
  let ?r = "data (rows (top_heap e) ! top_cursor e)"
  let ?e = "e\<lparr>top_cursor := top_cursor e + 1, top_execDetail := detail_uFIDelate (top_execDetail e) (Inr (Some ?r))\<rparr>"
  have step: "top_Next srt src X (e, s) = Some (Inr (Some ?r), ?e, s)"
    using Suc.prems lt by (simp add: top_Next_def top_Next_body_def)
  obtain es' where "gives (top_Next srt src X) (?e, s) (map data (drop (Suc (top_cursor e)) (rows (top_heap e)))) None es'"
  proof -
    have "n = length (rows (top_heap ?e)) - top_cursor ?e" "executed ?e"
      using Suc.hyps(2) Suc.prems by simp_all
    then show ?thesis
      using Suc.hyps(1) [of ?e] that by auto
  qed
  from gives.gives_row [OF step this] show ?case
    unfolding Cons_nth_drop_Suc [OF lt, symmetric] by (intro exI [of _ es']) simp
qed

text \<open>The first \<open>n\<close> rows of the order: in order, and nothing that is left out comes before them.\<close>

definition firsts :: "('d \<Rightarrow> 'd \<Rightarrow> err + int) \<Rightarrow> ByItem list \<Rightarrow> nat \<Rightarrow> 'd sortRow list \<Rightarrow> 'd sortRow list \<Rightarrow> bool" where
  "firsts cmp items n xs kept =
     (sorted_wrt (\<lambda>a b. \<not> row_before cmp items b a) kept \<and> length kept = min n (length xs) \<and>
      (\<exists>dropped. mset xs = mset (kept @ dropped) \<and> (\<forall>d \<in> set dropped. \<forall>k \<in> set kept. \<not> row_before cmp items d k)))"

lemma topn_firsts:
  assumes i: "topn_inv cmp good items n (mset xs) t" and g: "list_all (row_good good items) xs"
    and srt: "sorts_on (row_good good items) srt (row_before cmp items)"
  shows "firsts cmp items n xs (srt (row_before cmp items) (rows t))"
proof -
  have ok: "\<forall>r \<in> set (rows t). row_good good items r"
    using i by (simp add: topn_inv_def topn_ok_def)
  then have s: "mset (srt (row_before cmp items) (rows t)) = mset (rows t)"
      "sorted_wrt (\<lambda>a b. \<not> row_before cmp items b a) (srt (row_before cmp items) (rows t))"
    using srt by (auto simp: sorts_on_def list_all_iff)
  obtain d where d: "mset xs = mset (rows t) + d" "length (rows t) \<le> n" "d \<noteq> {#} \<longrightarrow> length (rows t) = n"
      "\<forall>e \<in># d. \<forall>k \<in># mset (rows t). \<not> row_after cmp good items k e"
    using i by (auto simp: topn_inv_def keeps_def)
  obtain ds where ds: "d = mset ds"
    by (metis ex_mset)
  have l: "length xs = length (rows t) + length ds"
    using arg_cong [OF d(1), of size] ds by simp
  have "\<not> row_before cmp items e k" if "e \<in> set ds" "k \<in> set (rows t)" for e k
  proof -
    have "set ds \<subseteq> set xs"
      using arg_cong [OF d(1), of set_mset] ds by auto
    then have "row_good good items e" "row_good good items k"
      using that g ok by (auto simp: list_all_iff)
    moreover have "\<not> row_after cmp good items k e"
      using d(4) that ds by simp
    ultimately show ?thesis
      by (simp add: row_after_def)
  qed
  moreover have "set (srt (row_before cmp items) (rows t)) = set (rows t)" "length (srt (row_before cmp items) (rows t)) = length (rows t)"
    using mset_eq_setD [OF s(1)] mset_eq_length [OF s(1)] by simp_all
  moreover have "length (rows t) = min n (length xs)"
    using l d(2,3) ds by (cases ds) auto
  ultimately show ?thesis
    unfolding firsts_def using s d(1) ds by (intro conjI exI [of _ ds]) simp_all
qed

lemma top_gives:
  assumes src: "gives src s rs out s'" and c: "compares (CompareCauset X) good"
    and k: "\<forall>r \<in> set rs. row_key X e r = Some (k r)" and g: "list_all (row_good good items) (keyed k rs)"
    and e: "\<not> executed e" "top_cursor e = 0" "topn_inv (CompareCauset X) good items n {#} (top_heap e)"
    and srt: "sorts_on (row_good good items) srt (row_before (CompareCauset X) items)"
  shows "case top_error k rs out of
      Some er \<Rightarrow> \<exists>es'. gives (top_Next srt src X) (e, s) [] (Some er) es'
    | None \<Rightarrow> \<exists>kept es'. gives (top_Next srt src X) (e, s) (map data kept) None es' \<and> firsts (CompareCauset X) items n (keyed k rs) kept"
proof -
  have "top_like e e"
    by (simp add: top_like_def agree_refl)
  then obtain e1 s1 where f: "top_fill src X (e, s) = Some (top_error k rs out, e1, s1)" "top_like e e1" "top_execDetail e1 = top_execDetail e"
    and inv: "top_error k rs out = None \<longrightarrow> topn_inv (CompareCauset X) good items n (mset (keyed k rs)) (top_heap e1)"
    using top_fill_spec [OF src c _ k g e(3)] by auto
  show ?thesis
  proof (cases "top_error k rs out")
    case (Some er)
    then have "\<exists>es'. top_Next srt src X (e, s) = Some (Inl er, es')"
      using f e(1) by (simp add: top_Next_def top_Next_body_def)
    then show ?thesis
      using Some gives.gives_error by fastforce
  next
    case None
    let ?h = "top_heap e1"
    let ?h1 = "?h\<lparr>rows := srt (row_before (CompareCauset X) items) (rows ?h)\<rparr>"
    let ?e = "e1\<lparr>top_heap := ?h1, executed := True\<rparr>"
    have it: "orderByItems ?h = items"
      using inv None by (simp add: topn_inv_def topn_ok_def)
    then have b: "(\<lambda>a b. fst (sorter_Less (CompareCauset X) (orderByItems ?h) a b)) = row_before (CompareCauset X) items"
      by (simp add: row_before_def fun_eq_iff)
    have "top_Next srt src X (e, s) = top_Next srt src X (?e, s1)"
      using f(1) e(1) None by (simp add: top_Next_def top_Next_body_def b Let_def)
    moreover obtain es' where "gives (top_Next srt src X) (?e, s1) (map data (drop (top_cursor ?e) (rows (top_heap ?e)))) None es'"
      using top_rest_gives [of ?e srt src X s1] by auto
    ultimately have "gives (top_Next srt src X) (e, s) (map data (rows ?h1)) None es'"
      using gives_eq f(2) e(2) by (fastforce simp: top_like_def)
    moreover have "firsts (CompareCauset X) items n (keyed k rs) (rows ?h1)"
      using topn_firsts [OF _ g srt] inv None by simp
    ultimately show ?thesis
      unfolding None option.case by blast
  qed
qed

end
