(* ===== verification/Coproc_Theorems.thy ===== *)
theory Coproc_Theorems
  imports Coproc_Rows
begin

text \<open>
  What the coprocessor answers: the rows of the snapshot in the ranges of the request, selected, cut off at the
  limit or reduced to the first of an order, and packed into chunks.
\<close>

section \<open>Chunks\<close>

definition chunks_of :: "(row \<Rightarrow> bytes) \<Rightarrow> row list \<Rightarrow> bytes list" where
  "chunks_of q rs = map (\<lambda>i. concat (map q (take rowsPerChunk (drop (rowsPerChunk * i) rs)))) [0..<(length rs + (rowsPerChunk - 1)) div rowsPerChunk]"

lemma appendRow_chunks: "appendRow (chunks_of q ps) (q r) (length ps) = Some (chunks_of q (ps @ [r]))"
proof -
  let ?c = "\<lambda>xs i. concat (map q (take 64 (drop (64 * i) xs)))"
  define t j where "t = length ps div 64" and "j = length ps mod 64"
  have m: "length ps = 64 * t + j" "j < 64"
    by (simp_all add: t_def j_def)
  have old: "?c (ps @ [r]) i = ?c ps i" if "i < t" for i
    using that m by simp
  have new: "?c (ps @ [r]) t = ?c ps t @ q r"
    using m by simp
  show ?thesis
  proof (cases "j = 0")
    case True
    then have n: "(length ps + 63) div 64 = t" "(length (ps @ [r]) + 63) div 64 = Suc t"
      using m by simp_all
    have "?c ps t = []"
      using True m by simp
    then show ?thesis
      using n old new True by (simp add: appendRow_def chunks_of_def rowsPerChunk_def j_def Let_def)
  next
    case False
    then have "(length ps + 63) div 64 = Suc t" "(length (ps @ [r]) + 63) div 64 = Suc t"
      using m by simp_all
    then show ?thesis
      using old new False by (simp add: appendRow_def chunks_of_def rowsPerChunk_def j_def Let_def)
  qed
qed

lemma encode_loop_chunks:
  "\<forall>r \<in> set rs. requested_row r offs = Some (q r) \<Longrightarrow> encode_loop rs offs (length ps) (chunks_of q ps) = Some (chunks_of q (ps @ rs))"
proof (induction rs arbitrary: ps)
  case (Cons r rs)
  then show ?case
    using Cons.IH [of "ps @ [r]"] appendRow_chunks [of q ps r] by simp
qed simp

lemma encodeDefault_chunks: "\<forall>r \<in> set rs. requested_row r offs = Some (q r) \<Longrightarrow> encodeDefault rs offs = Some (chunks_of q rs)"
  using encode_loop_chunks [of rs offs q "[]"] by (simp add: encodeDefault_def chunks_of_def rowsPerChunk_def)

lemma gives_handled:
  assumes "gives nxt s rs out s'" and "\<forall>r \<in> set rs. requested_row r offs = Some (q r)"
  shows "handleCoFIDelAGRequest nxt s offs = Some (out, if out = None then chunks_of q rs else [], s')"
  using gives_run [OF assms(1), of "[]"] encodeDefault_chunks [OF assms(2)] by (simp add: handleCoFIDelAGRequest_def)

section \<open>A scan from its start\<close>

lemma fresh_scan_gives:
  assumes "store_env E" and "abs_rel E (EDB s) a" and "even_keys a (kvRanges e)"
    and "bs_wf e" and "seekKey e = None" and "cursor e = 0"
    and "decodes (row_of_pair X e) (bs_reads E s a e (kvRanges e))" and "emit (row_of_pair X e) (bs_reads E s a e (kvRanges e)) = (rs, out)"
  shows "\<exists>e'. gives (bs_Next X (leveldb_store E) s) e rs out e'"
  using bs_Next_gives [OF assms(1,2), of e "bs_reads E s a e (kvRanges e)" X] assms(3-) by (simp add: at_reads_def)

section \<open>An example\<close>

text \<open>
  Rows of one value stored in the new format, compared as bytes, and a condition that wants more than \<open>1\<close>.
\<close>

definition ex_ext :: "(bytes, bytes \<Rightarrow> bytes, unit, unit) ext" where
  "ex_ext =
     \<lparr>DecodeRowKey = \<lambda>k. Inr (IntHandle 0), TruncateToRowKeyLen = \<lambda>k. k, IsNewFormat = \<lambda>v. True,
      CutRowNew = \<lambda>v ids. Inr None, DecodeIndexKV = \<lambda>k v n h cs. Inr None,
      DecodeDeferredCausetValue = \<lambda>c ft. (case c of None \<Rightarrow> [] | Some b \<Rightarrow> b, None),
      NewUintCauset = \<lambda>i. [], NewIntCauset = \<lambda>i. [], EncodeValue = \<lambda>d. Inr d, HasUnsignedFlag = \<lambda>f. False,
      HasNotNullFlag = \<lambda>f. False, ExtraHandleID = -1, NilFlag = 0, Eval = \<lambda>f vs. Inr (f (vs ! 0)), IsNull = \<lambda>d. False,
      ToBool = \<lambda>d. (if d = [] then 0 else 1, None), HandleOverflowOnSelection = \<lambda>b er. (b, er),
      CompareCauset = \<lambda>a b. Inr (bytes_Compare a b)\<rparr>"

definition ex_scan :: blockScanExec where
  "ex_scan =
     \<lparr>DeferredCausets = [], bs_Desc = False, colIDs = [], kvRanges = [\<lparr>StartKey = [7], EndKey = [20]\<rparr>], bs_startTS = 6,
      isolationLevel = IsolationLevel_SI, resolvedLocks = [], cursor = 0, seekKey = None, start = 0, counts = None,
      bs_execDetail = new_execDetail, rd = \<lambda>ids h v. Inr (Some [Some v])\<rparr>"

definition ex_selection :: "(bytes, bytes \<Rightarrow> bytes, unit) selectionExec" where
  "ex_selection =
     \<lparr>conditions = [\<lambda>v. if v > [1] then [1] else []], relatedDefCausOffsets = [0], sel_event = [[]], sel_fieldTps = [()],
      sel_execDetail = new_execDetail\<rparr>"

definition ex_topn :: "(bytes, bytes \<Rightarrow> bytes, unit) topNExec" where
  "ex_topn =
     \<lparr>top_heap = \<lparr>orderByItems = [\<lparr>Desc = True\<rparr>], rows = [], t_err = None, totalCount = 2, heapSize = 0\<rparr>, top_fieldTps = [()],
      top_relatedDefCausOffsets = [0], orderByExprs = [\<lambda>v. v], top_event = [[]], top_cursor = 0, executed = False,
      top_execDetail = new_execDetail\<rparr>"

definition ex_writes :: "aop list" where
  "ex_writes = [SetWrite [7] (put_at 3 5 [3]), SetWrite [8] (put_at 3 5 [1]), SetWrite [9] (put_at 3 5 [2]), SetWrite [10] (put_at 3 5 [5])]"

lemma ex_rows_stored:
  "abs_rel ref_env (EDB (ref_store ex_writes)) (a_run ex_writes empty_astate)"
  "a_keys (a_run ex_writes empty_astate) = {[7], [8], [9], [10]}"
proof -
  show "abs_rel ref_env (EDB (ref_store ex_writes)) (a_run ex_writes empty_astate)"
    by (rule ref_store_rel) (simp add: ex_writes_def)
  show "a_keys (a_run ex_writes empty_astate) = {[7], [8], [9], [10]}"
    by (auto simp: a_keys_def empty_astate_def ex_writes_def)
qed

lemma ex_reads:
  "bs_reads ref_env (ref_store ex_writes) (a_run ex_writes empty_astate) ex_scan (kvRanges ex_scan) =
     [Inr ([7], [3]), Inr ([8], [1]), Inr ([9], [2]), Inr ([10], [5])]"
proof -
  have k: "range_keys (a_run ex_writes empty_astate) [7] [20] = [[7], [8], [9], [10]]"
    by (simp add: range_keys_def sorted_keys_def ex_rows_stored(2))
  have "Get ref_env (ref_store ex_writes) [7] 6 IsolationLevel_SI [] = Inr (Some [3])"
    "Get ref_env (ref_store ex_writes) [8] 6 IsolationLevel_SI [] = Inr (Some [1])"
    "Get ref_env (ref_store ex_writes) [9] 6 IsolationLevel_SI [] = Inr (Some [2])"
    "Get ref_env (ref_store ex_writes) [10] 6 IsolationLevel_SI [] = Inr (Some [5])"
    by (simp_all add: Get_def store_env.db_getValue_refines [OF store_env_ref ex_rows_stored(1)])
      (simp_all add: a_get_def empty_astate_def ex_writes_def a_read_Cons)
  moreover have "\<not> IsPoint \<lparr>StartKey = [7], EndKey = [20]\<rparr>"
    by code_simp
  ultimately show ?thesis
    by (simp add: bs_reads_def range_reads_def ex_scan_def k key_reads_def)
qed

lemma ex_rows:
  "row_of_pair ex_ext ex_scan k v = Some (Inr (Some [Some v]))"
  "row_selected ex_ext ex_selection [Some v] = Some (Inr (v > [1]))"
  "row_key ex_ext ex_topn [Some v] = Some (Inr [v])"
  "requested_row [Some v] [0] = Some v"
  by (simp_all add: row_of_pair_def getRowData_def ex_ext_def ex_scan_def row_selected_def sel_match_def ex_selection_def
        decode_value_def set_cell_def cell_def row_key_def ex_topn_def)

lemma ex_compares: "compares (CompareCauset ex_ext) (\<lambda>d. True)"
  unfolding compares_def ex_ext_def
  by (intro exI [of _ bytes_Compare]) auto

lemma ex_table:
  "bs_wf ex_scan" "seekKey ex_scan = None" "cursor ex_scan = 0"
  "decodes (row_of_pair ex_ext ex_scan) (bs_reads ref_env (ref_store ex_writes) (a_run ex_writes empty_astate) ex_scan (kvRanges ex_scan))"
  "emit (row_of_pair ex_ext ex_scan) (bs_reads ref_env (ref_store ex_writes) (a_run ex_writes empty_astate) ex_scan (kvRanges ex_scan)) =
     ([[Some [3]], [Some [1]], [Some [2]], [Some [5]]], None)"
  "even_keys (a_run ex_writes empty_astate) (kvRanges ex_scan)"
  by (simp_all add: ex_reads decodes_def ex_rows)
    (simp_all add: ex_scan_def bs_wf_def even_keys_def range_keys_def sorted_keys_def ex_rows_stored(2))

section \<open>Properties\<close>

text \<open>
  C12. A pushed-down query answers from the snapshot. The scan is an ascending table scan that has not started,
  over ranges with non-empty end keys, and in every range that is not a point the stored keys have one length, as
  row keys with an integer handle have: the scan goes on from \<open>PrefixNext\<close> of the last row's key, which passes
  over no other key of that length, but would pass over keys that extend it. Every value read decodes to a row or
  to an error. Then a limit over a selection over the scan returns, in chunks of 64 rows, the requested columns of
  the first rows, up to the limit, that satisfy the conditions among the rows point reads find at the keys of the
  ranges, in the order of the ranges and of their keys; or it reports the first error of a read, a row or a
  condition, when one comes before the limit is reached. Descending scans are not covered.
\<close>

theorem pushed_down_query_reads_the_snapshot:
  assumes "store_env E" and "abs_rel E (EDB s) a" and "even_keys a (kvRanges scan)"
    and "bs_wf scan" and "seekKey scan = None" and "cursor scan = 0"
    and "decodes (row_of_pair X scan) (bs_reads E s a scan (kvRanges scan))"
    and "emit (row_of_pair X scan) (bs_reads E s a scan (kvRanges scan)) = (rs, out)"
    and "\<forall>r \<in> set rs. row_selected X sel r = Some (g r) \<and> requested_row r offs = Some (q r)" and "lim_cursor lim = 0"
  shows "\<exists>qs out' es. sel_rows g rs out = (qs, out') \<and>
    handleCoFIDelAGRequest (lim_Next (sel_Next (bs_Next X (leveldb_store E) s) X)) (lim, sel, scan) offs =
      (if unat (limit lim) \<le> length qs then Some (None, chunks_of q (take (unat (limit lim)) qs), es)
       else Some (out', if out' = None then chunks_of q qs else [], es))"
proof -
  let ?qs = "fst (sel_rows g rs out)" and ?out = "snd (sel_rows g rs out)" and ?n = "unat (limit lim)"
  obtain e1 where e1: "gives (bs_Next X (leveldb_store E) s) scan rs out e1"
    using fresh_scan_gives [OF assms(1-8)] by blast
  have "sel_like sel sel"
    by (simp add: sel_like_def agree_refl)
  then obtain es1 where es1: "gives (sel_Next (bs_Next X (leveldb_store E) s) X) (sel, scan) ?qs ?out es1"
    using sel_gives [OF e1, of sel sel X g] assms(9) by blast
  obtain es2 where es2: "gives (lim_Next (sel_Next (bs_Next X (leveldb_store E) s) X)) (lim, sel, scan) (take ?n ?qs) (if ?n \<le> length ?qs then None else ?out) es2"
    using lim_gives [OF es1, of lim ?n] assms(10) by auto
  have "set (fst (sel_rows g rs out)) \<subseteq> set rs" for out
    by (induction rs) (auto split: sum.splits prod.splits)
  then have "\<forall>r \<in> set (take ?n ?qs). requested_row r offs = Some (q r)"
    using assms(9) set_take_subset [of ?n ?qs] by blast
  from gives_handled [OF es2 this] show ?thesis
    by (intro exI [of _ ?qs] exI [of _ ?out] exI [of _ es2]) simp
qed

theorem pushed_down_query_reads_the_snapshot_witness:
  "\<exists>es. handleCoFIDelAGRequest (lim_Next (sel_Next (bs_Next ex_ext (leveldb_store ref_env) (ref_store ex_writes)) ex_ext))
     (\<lparr>limit = 2, lim_cursor = 0, lim_execDetail = new_execDetail\<rparr>, ex_selection, ex_scan) [0] = Some (None, [[3, 2]], es)"
proof -
  let ?lim = "\<lparr>limit = 2, lim_cursor = 0, lim_execDetail = new_execDetail\<rparr>"
  have r: "\<forall>r \<in> set [[Some [3]], [Some [1]], [Some [2]], [Some [5]]].
      row_selected ex_ext ex_selection r = Some (Inr (the (r ! 0) > [1])) \<and> requested_row r [0] = Some (the (r ! 0))"
    using ex_rows(2,4) by simp
  show ?thesis
    using pushed_down_query_reads_the_snapshot [OF store_env_ref ex_rows_stored(1) ex_table(6,1-5) r, of ?lim]
    by (auto simp: chunks_of_def rowsPerChunk_def)
qed

text \<open>
  C26. A pushed-down top-n is the start of the sorted table. The scan is as before: ascending, not started, with
  non-empty end keys, with stored keys of one length in every range that is not a point, and with values that
  decode to rows or errors. The heap is empty, the columns compare without error as a weak order, and the sorting
  function sorts. Then the executor returns the first \<open>n\<close> rows of the order, in order: as many as there are
  up to \<open>n\<close>, and no row that is left out comes before one that is returned, whatever the sorting function does
  with equal rows; or it reports the first error of a read, a row or a key.
\<close>

theorem pushed_down_topn_is_the_first_rows:
  assumes "store_env E" and "abs_rel E (EDB s) a" and "even_keys a (kvRanges scan)"
    and "bs_wf scan" and "seekKey scan = None" and "cursor scan = 0"
    and "decodes (row_of_pair X scan) (bs_reads E s a scan (kvRanges scan))"
    and "emit (row_of_pair X scan) (bs_reads E s a scan (kvRanges scan)) = (rs, out)"
    and "compares (CompareCauset X) good" and "sorts_on (row_good good items) srt (row_before (CompareCauset X) items)"
    and "\<forall>r \<in> set rs. row_key X tn r = Some (k r) \<and> requested_row r offs = Some (q r)" and "list_all (row_good good items) (keyed k rs)"
    and "\<not> executed tn" and "top_cursor tn = 0"
    and "top_heap tn = \<lparr>orderByItems = items, rows = [], t_err = None, totalCount = int n, heapSize = 0\<rparr>"
  shows "\<exists>es. case top_error k rs out of
      Some er \<Rightarrow> handleCoFIDelAGRequest (top_Next srt (bs_Next X (leveldb_store E) s) X) (tn, scan) offs = Some (Some er, [], es)
    | None \<Rightarrow> \<exists>kept. handleCoFIDelAGRequest (top_Next srt (bs_Next X (leveldb_store E) s) X) (tn, scan) offs = Some (None, chunks_of q (map data kept), es) \<and>
        firsts (CompareCauset X) items n (keyed k rs) kept"
proof -
  let ?next = "top_Next srt (bs_Next X (leveldb_store E) s) X"
  obtain e1 where e1: "gives (bs_Next X (leveldb_store E) s) scan rs out e1"
    using fresh_scan_gives [OF assms(1-8)] by blast
  have inv: "topn_inv (CompareCauset X) good items n {#} (top_heap tn)"
    by (simp add: assms(15) topn_inv_def topn_ok_def heap_from_def keeps_self)
  note t = top_gives [OF e1 assms(9) _ assms(12,13,14) inv assms(10)]
  show ?thesis
  proof (cases "top_error k rs out")
    case (Some er)
    then obtain es where "gives ?next (tn, scan) [] (Some er) es"
      using t assms(11) by auto
    from gives_handled [OF this, of offs q] show ?thesis
      using Some by auto
  next
    case None
    then obtain kept es where g: "gives ?next (tn, scan) (map data kept) None es" and f: "firsts (CompareCauset X) items n (keyed k rs) kept"
      using t assms(11) by auto
    have keyed: "data ` set (keyed k rs) \<subseteq> set rs"
      by (induction rs) (auto split: sum.splits)
    have "set kept \<subseteq> set (keyed k rs)"
      using f mset_eq_setD unfolding firsts_def by fastforce
    then have "\<forall>r \<in> set (map data kept). requested_row r offs = Some (q r)"
      using keyed assms(11) by auto
    from gives_handled [OF g this] show ?thesis
      using None f by (intro exI [of _ es]) auto
  qed
qed

theorem pushed_down_topn_is_the_first_rows_witness:
  "\<exists>kept es. handleCoFIDelAGRequest (top_Next insertion_sort (bs_Next ex_ext (leveldb_store ref_env) (ref_store ex_writes)) ex_ext)
       (ex_topn, ex_scan) [0] = Some (None, chunks_of (\<lambda>r. the (r ! 0)) (map data kept), es) \<and> length kept = 2 \<and>
     firsts (CompareCauset ex_ext) [\<lparr>Desc = True\<rparr>] 2 (map (\<lambda>v. \<lparr>key = [v], data = [Some v]\<rparr>) [[3], [1], [2], [5]]) kept"
proof -
  let ?rs = "[[Some [3]], [Some [1]], [Some [2]], [Some [5]]]" and ?k = "\<lambda>r. Inr [the (r ! 0)]" and ?items = "[\<lparr>Desc = True\<rparr>]"
  have r: "\<forall>r \<in> set ?rs. row_key ex_ext ex_topn r = Some (?k r) \<and> requested_row r [0] = Some (the (r ! 0))"
    using ex_rows(3,4) by simp
  have good: "row_good (\<lambda>d. True) ?items = (\<lambda>x :: bytes sortRow. True)"
    by (simp add: row_good_def key_good_def fun_eq_iff)
  then have g: "row_good (\<lambda>d. True) ?items x" for x :: "bytes sortRow"
    by simp
  have "weak_order (row_before (CompareCauset ex_ext) ?items)"
    using row_before_facts [OF ex_compares] g by unfold_locales blast+
  then have srt: "sorts_on (row_good (\<lambda>d. True) ?items) insertion_sort (row_before (CompareCauset ex_ext) ?items)"
    using weak_order.insertion_sort_sorts unfolding good by blast
  have h: "\<not> executed ex_topn" "top_cursor ex_topn = 0" "top_heap ex_topn = \<lparr>orderByItems = ?items, rows = [], t_err = None, totalCount = int 2, heapSize = 0\<rparr>"
    by (simp_all add: ex_topn_def)
  have "list_all (row_good (\<lambda>d. True) ?items) (keyed ?k ?rs)"
    by (simp add: g)
  from pushed_down_topn_is_the_first_rows [OF store_env_ref ex_rows_stored(1) ex_table(6,1-5) ex_compares srt r this h]
  show ?thesis
    by (auto simp: firsts_def)
qed

end
