(* ===== verification/Spec2Isabelle.thy ===== *)
theory Spec2Isabelle
  imports Store_Theorems Store_Locks Store_Isolation Store_Raw Keys Cluster_Split Cluster_Bootstrap Rpc_Theorems Rpc_Split
    Kv_Utils_Facts Schema_Validator_Facts Slow_Queries_Facts Coproc_Theorems
begin

text \<open>
  The simulated storage node of MilevaDB and what it stores: the transactional (MVCC) key-value store the
  tests of the database run on, the cluster of regions it is spread over, the request handlers in front of
  it, the keys and handles the database addresses rows with, and the buffer a transaction keeps its writes
  in until it commits; then the executors that run a pushed-down query next to the store, and from the domain of
  a server the validator of schema versions and the list of slow queries.

  \<^bold>\<open>The program.\<close> A client looks up the region of a key in the cluster (\<^verbatim>\<open>mockeinsteindb/cluster.go\<close>)
  and sends a request to the store that leads it. The client side of \<^verbatim>\<open>mockeinsteindb/rpc.go\<close> finds the store by
  its address and makes a handler, which checks the region, leader, epoch and size of the request and calls
  the store (\<^verbatim>\<open>mockeinsteindb/mvcc_leveldb.go\<close>). The store keeps, under each key, at most one lock and any number
  of versions as entries of an ordered byte map, newest version first, and runs two-phase commit on them:
  prewrite locks the keys of a transaction, commit turns the locks into versions, rollback leaves a record
  that stops a late prewrite, and a status check of the primary key decides what became of a transaction.
  \<^verbatim>\<open>solomonkey/key.go\<close> holds the byte keys with their successors, and the row handles. On the side of the
  transaction, writes go to the in-memory buffer (\<^verbatim>\<open>schemareplicant/memdb.go\<close>): a red-black tree of the keys,
  whose nodes live in an arena of blocks (\<^verbatim>\<open>memdb_arena.go\<close>), and a log of the values, which stages cut so that the
  writes of a statement can be undone. The union store (\<^verbatim>\<open>union_store.go\<close>) reads the buffer first and a snapshot of the
  storage second, and its iterator (\<^verbatim>\<open>union_iter.go\<close>) merges the two. Before a transaction commits, a checker
  (\<^verbatim>\<open>petri/schema_checker.go\<close>) asks the validator (\<^verbatim>\<open>petri/schema_validator.go\<close>) whether its tables changed since it
  started, which the validator answers from a bounded queue of changes. A query pushed down to a store becomes a
  chain of executors (\<^verbatim>\<open>mockeinsteindb/interlocking_directorate.go\<close>): a scan that reads rows of the store at a
  timestamp, and a selection, a top-n (\<^verbatim>\<open>mockeinsteindb/topn.go\<close>) or a limit over it. \<^verbatim>\<open>petri/topn_slow_query.go\<close>
  keeps the slowest queries in heaps and the latest ones in a queue.

  \<^bold>\<open>Theories.\<close> \<open>Prelude\<close>: byte strings, words and lists; \<open>External\<close>: the record \<open>env\<close> of what is not in the
  repository (the codec, the LevelDB engine, the deadlock detector, the timestamp oracle) and the locales
  \<open>codec\<close>, \<open>leveldb\<close>, \<open>leveldb_open\<close>, \<open>store_env\<close> with their documented laws; \<open>Reference_Env\<close>: a
  concrete codec and engine that satisfy the laws, on which the locales are interpreted and every witness
  runs.
  \<^item> \<open>Mvcc\<close>: \<^verbatim>\<open>mvcc.go\<close> and \<^verbatim>\<open>errors.go\<close>, the records \<open>mvsr_oocValue\<close>, \<open>mvsr_oocLock\<close>, their binary form, the
    encoded key, the lock check and the error values.
  \<^item> \<open>Leveldb_Store\<close>: \<^verbatim>\<open>mvcc_leveldb.go\<close>, every operation of \<open>MVCCLevelDB\<close>. The mutex makes an operation
    atomic; a panic is \<open>None\<close>, an error \<open>Inl\<close>. The loops over iterators are functions whose measure is the
    number of entries left.
  \<^item> \<open>Mvcc_View\<close>, \<open>Mvcc_Spec\<close>, \<open>Mvcc_Refine\<close>, \<open>Mvcc_Range\<close>, \<open>Mvcc_Facts\<close>: the abstract store, a lock and a
    list of versions per key, its operations \<open>a_get\<close>, \<open>a_commit\<close>, \<open>a_prewrite\<close> and so on, the relation
    \<open>abs_rel\<close> between it and the bytes, and the refinement of each operation of the store by it.
  \<^item> \<open>Store_Theorems\<close>, \<open>Store_Locks\<close>, \<open>Store_Isolation\<close>, \<open>Store_Raw\<close>: the properties of the store. \<open>Store_Isolation\<close>
    has the states optimistic transactions reach as an inductive relation and the invariant that committed
    transactions of a key do not overlap.
  \<^item> \<open>Keys\<close>: \<^verbatim>\<open>solomonkey/key.go\<close>, with the handle map as an interpretation of a locale of keyed maps.
  \<^item> \<open>Cluster\<close>: \<^verbatim>\<open>cluster.go\<close> and \<^verbatim>\<open>cluster_manipulate.go\<close>, the record \<open>Cluster\<close> of stores, regions and
    identifiers. Where Go ranges over a map the order is an argument and the theorems hold for all orders.
    \<open>Cluster_Facts\<close> has the tiling of the key space by regions, \<open>Cluster_Theorems\<close> look-up, split, merge and
    scan, \<open>Cluster_Split\<close> the splitting of a table's keys on what the store's own scan returns, through the
    locale \<open>scanned_store\<close>, and \<open>Cluster_Bootstrap\<close> the set-up of a cluster.
  \<^item> \<open>Rpc\<close>: \<^verbatim>\<open>rpc.go\<close>, the interfaces \<open>MVCCStore\<close>, \<open>RawKV\<close> and \<open>MVCCDebugger\<close> as records of methods,
    one definition per handler, \<open>checkRequest\<close> before and \<open>SendRequest\<close> in front of them. \<open>Rpc_Theorems\<close>
    and \<open>Rpc_Split\<close> have what spans client, cluster and store; the locale \<open>atomic_store\<close> states what the
    handlers rely on from a store and is interpreted on \<open>MVCCLevelDB\<close>.
  \<^item> \<open>Memdb_Arena\<close> and \<open>Memdb\<close>: \<^verbatim>\<open>memdb_arena.go\<close> and \<^verbatim>\<open>memdb.go\<close>, the allocator, the log, the record \<open>memdb\<close>
    with its nodes as a map from addresses (\<open>mem\<close>), rotations, insertion, deletion, values, flags and stages.
    Assignments to nodes are kept in the order of the code; the mutex is left out. \<open>Memdb_Tree\<close>, \<open>Memdb_Insert\<close>,
    \<open>Memdb_Delete\<close>, \<open>Memdb_Remove\<close> tie the links in memory to trees of addresses and contexts and show that both
    rebalancing loops end in a red-black tree with the same order; \<open>Memdb_Arena_Facts\<close>, \<open>Memdb_Find\<close>,
    \<open>Memdb_Log\<close> do the same for allocation, search and log. \<open>Memdb_Map\<close> and \<open>Memdb_Stage\<close> have the invariant
    \<open>memdb_inv\<close> and the relation \<open>represents\<close> to a map and a stack of saved maps, which every operation keeps;
    \<open>Memdb_Theorems\<close> has the simulation as the locale \<open>bounded_simulation\<close>, interpreted on the buffer, and with
    \<open>Memdb_More\<close> its properties.
  \<^item> \<open>Memdb_Iter\<close>: \<^verbatim>\<open>memdb_iterator.go\<close> and \<^verbatim>\<open>memdb_snapshot.go\<close>; \<open>Memdb_Iter_Facts\<close>: what their iterators visit.
  \<^item> \<open>Union\<close>: \<^verbatim>\<open>union_iter.go\<close>, \<^verbatim>\<open>union_store.go\<close> and \<^verbatim>\<open>iter.go\<close>; the interfaces \<open>Iterator\<close> and \<open>Snapshot\<close> are
    records of methods. \<open>Union_Facts\<close> has the locale \<open>iterator_contract\<close>, interpreted on the buffer's two kinds of
    iterators, and \<open>union_of_iterators\<close>, in which the union of two such iterators is shown to be one again by a
    \<open>sublocale\<close>; \<open>Union_Theorems\<close> the reads of the store. \<open>Kv_Utils\<close> and \<open>Kv_Utils_Facts\<close>: \<^verbatim>\<open>utils.go\<close>, with the
    locale \<open>counter_store\<close> interpreted on the buffer.
  \<^item> \<open>Schema_Validator\<close>: the validator and the checker; \<open>Schema_Validator_Facts\<close> relates the queue, whose entries
    are dropped and merged, to the whole history of changes.
  \<^item> \<open>Container_Heap\<close>: Go's \<open>container/heap\<close> over any type with the methods of its interface, as the slow queries
    and the top-n use it, and sorting functions; \<open>Slow_Queries\<close> and \<open>Slow_Queries_Facts\<close>: the heaps and the queue.
  \<^item> \<open>Topn\<close>: the heap of the top-n and its comparisons. \<open>Coproc\<close>: the table scan and the index scan; \<open>Coproc_Exec\<close>:
    selection, top-n, limit, the loop that runs an executor and packs its rows, and the ranges of a request. An
    executor is its \<open>Next\<close> on its state, so one executor takes the other's as an argument. \<open>Coproc_Facts\<close> describes
    an executor by the rows it gives and how it stops, and a scan by point reads of the store; \<open>Coproc_Rows\<close> does
    so for the executors over it, and \<open>Coproc_Theorems\<close> puts them together.

  \<^bold>\<open>Properties.\<close> Reads return the newest committed version, are blocked by exactly the locks that matter and
  are not changed by later commits or by garbage collection; writes are all or nothing, conflict exactly
  when they have to, and committed transactions on a key do not overlap; a rolled back transaction stays
  so; what a status check promises a reader is kept. Records, keys and raw entries survive their encodings
  within the limits of their lengths. Regions tile the keys before and after every split, merge and
  bootstrap, and look-ups find the one that holds a key. A request a store may not serve, or that fails,
  changes nothing; one that goes to the located leader is served, and a commit is read back. The buffer is a
  stack of maps: every run reads what the maps say, a clean-up restores what a stage saved, snapshots read
  the oldest stage, iterators enumerate the map in order in both directions, searches are logarithmic,
  and the counters are exact. The union store and the batch reads see the buffer over the snapshot. The validator
  decides by the history of changes as far as its queue reaches back, and the checker lets through only what
  it allows. A pushed-down selection with a limit, or a top-n, over an ascending table scan answers what reading the
  snapshot key by key and then selecting or sorting would. The slow queries kept are the slowest and the latest.

  \<^bold>\<open>Bounds and fuel.\<close> Timestamps, time to live, identifiers and lengths are words of the width the code gives
  them, with their wrap-around; hypotheses such as \<open>ids_left\<close> say where a counter must not wrap. No function
  of the code uses fuel: a loop has a measure, or it is a \<open>partial_function\<close> whose value \<open>None\<close> stands for a panic or
  a loop without end. That is so for the cutting of a common handle's columns, the loops of the buffer
  over links and log, and those of the iterators; the theorems then state the value \<open>Some\<close>, so that the
  loops end. Runs of the buffer are bounded by \<open>max_blocks\<close>: an operation takes at most one block of the arena and
  one of the log, and the index of a block is a 32-bit word of which the last value means no address;
  keys are shorter than 65536 bytes, the width of the field of their length.

  \<^bold>\<open>Not modelled.\<close> The dispatch of the coprocessor requests and the building of executors from them, and the
  executors that aggregate or stream (their expressions, aggregate functions, row formats and statistics are packages
  the repository does not contain); the properties of scans do not cover descending ones, though the scans and the
  store's reverse scan are modelled; the entangled store, which forwards to a server outside it; the cache of
  schemas and the memory tracker, which are not on the path of a transaction's data; tracing, logging, opening and
  closing; the definitions of tables and metrics, which are constants; the MySQL constants; fault injection. Sleeps are
  left out, the fact that one happens is a result.
\<close>

end
